(* ===== verification/Prelude.thy ===== *)
theory Prelude
  imports Main "HOL-Library.Multiset" "HOL-Library.Word"
begin

text \<open>
  Shared vocabulary of the development.

  A Rust function that returns \<^verbatim>\<open>Result<T, E>\<close> and may also panic is modelled
  by the type \<open>('a, 'e) res\<close>: \<open>Ok\<close> is the normal return, \<open>Err\<close> the error
  return, \<open>Panic\<close> an assertion failure, a slice index out of range, an \<^verbatim>\<open>expect\<close>
  on \<^verbatim>\<open>None\<close> or an arithmetic overflow (the check of debug and test builds).
  A function that only returns or panics has type \<open>'a option\<close>, with \<open>None\<close> for
  the panic. Machine integers that only count pages, tokens or bytes are \<open>nat\<close>;
  where the width matters they are words or carry an explicit bound.
\<close>

datatype ('a, 'e) res = Ok 'a | Err 'e | Panic

fun res_bind :: "('a, 'e) res \<Rightarrow> ('a \<Rightarrow> ('b, 'e) res) \<Rightarrow> ('b, 'e) res" where
  "res_bind (Ok x) f = f x"
| "res_bind (Err e) f = Err e"
| "res_bind Panic f = Panic"

fun res_is_panic :: "('a, 'e) res \<Rightarrow> bool" where
  "res_is_panic Panic = True"
| "res_is_panic _ = False"

named_theorems rust_simps \<open>unfolding rules for the models of Rust operations\<close>

lemma res_bind_eq_Ok [simp]:
  "res_bind m f = Ok y \<longleftrightarrow> (\<exists>x. m = Ok x \<and> f x = Ok y)"
  by (cases m) auto

lemma res_bind_eq_Err:
  "res_bind m f = Err e \<longleftrightarrow> m = Err e \<or> (\<exists>x. m = Ok x \<and> f x = Err e)"
  by (cases m) auto

lemma res_bind_eq_Panic:
  "res_bind m f = Panic \<longleftrightarrow> m = Panic \<or> (\<exists>x. m = Ok x \<and> f x = Panic)"
  by (cases m) auto

lemma res_bind_assoc:
  "res_bind (res_bind m f) g = res_bind m (\<lambda>x. res_bind (f x) g)"
  by (cases m) auto

lemma res_is_panic_iff [simp]: "res_is_panic r \<longleftrightarrow> r = Panic"
  by (cases r) auto

section \<open>Machine integers\<close>

text \<open>The largest values of the unsigned types, as natural numbers.\<close>

definition u32_max :: nat where "u32_max = 2 ^ 32 - 1"

definition u64_max :: nat where "u64_max = 2 ^ 64 - 1"

text \<open>\<^verbatim>\<open>a.div_ceil(b)\<close> on unsigned integers.\<close>

definition div_ceil :: "nat \<Rightarrow> nat \<Rightarrow> nat" where
  "div_ceil a b = (if a mod b = 0 then a div b else a div b + 1)"

text \<open>\<^verbatim>\<open>saturating_add\<close> and \<^verbatim>\<open>saturating_mul\<close> on \<^verbatim>\<open>u64\<close>.\<close>

definition sat_add :: "nat \<Rightarrow> nat \<Rightarrow> nat" where
  "sat_add a b = min (a + b) u64_max"

definition sat_mul :: "nat \<Rightarrow> nat \<Rightarrow> nat" where
  "sat_mul a b = min (a * b) u64_max"

text \<open>
  Checked arithmetic on \<^verbatim>\<open>u64\<close> and \<^verbatim>\<open>usize\<close>: \<open>None\<close> is \<^verbatim>\<open>checked_add\<close> returning
  \<^verbatim>\<open>None\<close>, or the overflow panic of the plain operator in a debug build.
\<close>

definition chk_add :: "nat \<Rightarrow> nat \<Rightarrow> nat option" where
  "chk_add a b = (if a + b \<le> u64_max then Some (a + b) else None)"

definition chk_mul :: "nat \<Rightarrow> nat \<Rightarrow> nat option" where
  "chk_mul a b = (if a * b \<le> u64_max then Some (a * b) else None)"

definition chk_sub :: "nat \<Rightarrow> nat \<Rightarrow> nat option" where
  "chk_sub a b = (if b \<le> a then Some (a - b) else None)"

definition chk_div :: "nat \<Rightarrow> nat \<Rightarrow> nat option" where
  "chk_div a b = (if b = 0 then None else Some (a div b))"

lemma chk_Some_iff [simp]:
  "chk_add a b = Some c \<longleftrightarrow> c = a + b \<and> c \<le> u64_max"
  "chk_mul a b = Some c \<longleftrightarrow> c = a * b \<and> c \<le> u64_max"
  "chk_sub a b = Some c \<longleftrightarrow> c = a - b \<and> b \<le> a"
  "chk_div a b = Some c \<longleftrightarrow> c = a div b \<and> b \<noteq> 0"
  by (auto simp: chk_add_def chk_mul_def chk_sub_def chk_div_def)

lemma div_ceil_mult_ge: "0 < b \<Longrightarrow> a \<le> div_ceil a b * b"
proof -
  assume b: "0 < b"
  have "a = a div b * b + a mod b" by simp
  moreover have "a mod b < b" using b by simp
  ultimately have "a \<le> a div b * b + b" by linarith
  then show ?thesis by (auto simp: div_ceil_def)
qed

lemma div_ceil_le_iff: "0 < b \<Longrightarrow> div_ceil a b \<le> k \<longleftrightarrow> a \<le> k * b"
proof
  assume b: "0 < b"
  { assume "div_ceil a b \<le> k"
    then have "div_ceil a b * b \<le> k * b" by simp
    then show "a \<le> k * b" using div_ceil_mult_ge [OF b, of a] by linarith }
  { assume le: "a \<le> k * b"
    then have d: "a div b \<le> k"
      using b by (metis div_le_mono nonzero_mult_div_cancel_right neq0_conv)
    show "div_ceil a b \<le> k"
    proof (cases "a mod b = 0")
      case True
      then show ?thesis using d by (simp add: div_ceil_def)
    next
      case False
      have "a div b \<noteq> k"
      proof
        assume "a div b = k"
        then have "a = k * b + a mod b" by (metis div_mult_mod_eq)
        then show False using le False by linarith
      qed
      then show ?thesis using d False by (simp add: div_ceil_def)
    qed }
qed

lemma div_lt_div_ceil: "0 < b \<Longrightarrow> p < a \<Longrightarrow> p div b < div_ceil a b"
proof -
  assume b: "0 < b" and p: "p < a"
  have "\<not> div_ceil a b \<le> p div b"
    using p b by (simp add: div_ceil_le_iff)
      (metis div_times_less_eq_dividend not_le order.strict_trans2)
  then show ?thesis by simp
qed

lemma div_ceil_0 [simp]: "div_ceil 0 b = 0"
  by (simp add: div_ceil_def)

lemma div_ceil_pos: "0 < b \<Longrightarrow> 0 < a \<Longrightarrow> 0 < div_ceil a b"
  using div_lt_div_ceil [of b 0 a] by simp

section \<open>Lists\<close>

lemma sum_list_map_fst_le_member:
  fixes f :: "'a \<Rightarrow> nat"
  shows "x \<in> set xs \<Longrightarrow> f x \<le> sum_list (map f xs)"
  by (simp add: member_le_sum_list)

lemma distinct_concat_index:
  assumes "distinct (concat xss)" "i < length xss" "j < length xss"
    and "k < length (xss ! i)" "l < length (xss ! j)" "xss ! i ! k = xss ! j ! l"
  shows "i = j \<and> k = l"
  using assms
proof (induction xss arbitrary: i j)
  case (Cons xs xss)
  have disj: "set xs \<inter> set (concat xss) = {}" and d: "distinct xs" "distinct (concat xss)"
    using Cons.prems(1) by auto
  have sep: "xss ! m ! n \<noteq> xs ! q"
    if "m < length xss" "n < length (xss ! m)" "q < length xs" for m n q
  proof -
    have "xss ! m ! n \<in> set (concat xss)" using that by (metis UN_I nth_mem set_concat)
    moreover have "xs ! q \<in> set xs" using that by simp
    ultimately show ?thesis using disj by (metis disjoint_iff)
  qed
  show ?case
  proof (cases i)
    case 0
    then show ?thesis using Cons.prems d sep [of _ l k]
      by (cases j) (auto simp: nth_eq_iff_index_eq)
  next
    case (Suc i')
    then show ?thesis using Cons.prems d sep [of i' k l] Cons.IH by (cases j) auto
  qed
qed simp

lemma take_butlast_last: "xs \<noteq> [] \<Longrightarrow> mset xs = add_mset (last xs) (mset (butlast xs))"
  by (metis add_mset_add_single append_butlast_last_id mset.simps(1) mset.simps(2) mset_append)

section \<open>Vectors\<close>

text \<open>
  \<^verbatim>\<open>iter().position(f)\<close>, \<^verbatim>\<open>iter().rposition(f)\<close>, \<^verbatim>\<open>Vec::remove(i)\<close> and the update of a
  slice \<^verbatim>\<open>v[lo..hi]\<close> element by element.
\<close>

fun position :: "('a \<Rightarrow> bool) \<Rightarrow> 'a list \<Rightarrow> nat option" where
  "position f [] = None"
| "position f (x # xs) = (if f x then Some 0 else map_option Suc (position f xs))"

definition rposition :: "('a \<Rightarrow> bool) \<Rightarrow> 'a list \<Rightarrow> nat option" where
  "rposition f xs = map_option (\<lambda>i. length xs - 1 - i) (position f (rev xs))"

definition remove_at :: "nat \<Rightarrow> 'a list \<Rightarrow> 'a list" where
  "remove_at i xs = take i xs @ drop (Suc i) xs"

definition upd_range :: "('a \<Rightarrow> 'a) \<Rightarrow> nat \<Rightarrow> nat \<Rightarrow> 'a list \<Rightarrow> 'a list" where
  "upd_range f lo hi xs =
     map (\<lambda>i. if lo \<le> i \<and> i < hi then f (xs ! i) else xs ! i) [0..<length xs]"

lemma position_Some:
  "position f xs = Some i \<Longrightarrow> i < length xs \<and> f (xs ! i) \<and> (\<forall>j<i. \<not> f (xs ! j))"
proof (induction xs arbitrary: i)
  case (Cons x xs)
  show ?case
  proof (cases "f x")
    case False
    with Cons.prems obtain k where "position f xs = Some k" "i = Suc k" by auto
    with Cons.IH False show ?thesis by (auto simp: less_Suc_eq_0_disj)
  qed (use Cons.prems in auto)
qed simp

lemma position_None: "position f xs = None \<longleftrightarrow> (\<forall>x\<in>set xs. \<not> f x)"
  by (induction xs) auto

lemma rposition_Some: "rposition f xs = Some i \<Longrightarrow> i < length xs \<and> f (xs ! i)"
proof -
  assume "rposition f xs = Some i"
  then obtain j where j: "position f (rev xs) = Some j" "i = length xs - 1 - j"
    by (auto simp: rposition_def)
  from position_Some [OF j(1)] have "j < length xs" "f (rev xs ! j)" by auto
  then show ?thesis using j(2) by (simp add: rev_nth)
qed

lemma rposition_None: "rposition f xs = None \<longleftrightarrow> (\<forall>x\<in>set xs. \<not> f x)"
  by (simp add: rposition_def position_None)

lemma remove_at_mset: "i < length xs \<Longrightarrow> mset xs = add_mset (xs ! i) (mset (remove_at i xs))"
  by (metis Cons_nth_drop_Suc append_take_drop_id mset.simps(2) mset_append remove_at_def
      union_mset_add_mset_right)

lemma remove_at_set_subset: "set (remove_at i xs) \<subseteq> set xs"
  by (auto simp: remove_at_def dest: in_set_takeD in_set_dropD)

lemma sorted_wrt_remove_at:
  assumes "sorted_wrt R xs"
  shows "sorted_wrt R (remove_at i xs)"
proof -
  have "sorted_wrt R (take i xs @ drop i xs)" using assms by simp
  then have "\<forall>x\<in>set (take i xs). \<forall>y\<in>set (drop i xs). R x y"
    unfolding sorted_wrt_append by blast
  moreover have "set (drop (Suc i) xs) \<subseteq> set (drop i xs)"
    by (rule set_drop_subset_set_drop) simp
  ultimately show ?thesis using assms
    by (auto simp: remove_at_def sorted_wrt_append sorted_wrt_take sorted_wrt_drop)
qed

lemma length_upd_range [simp]: "length (upd_range f lo hi xs) = length xs"
  by (simp add: upd_range_def)

lemma nth_upd_range [simp]:
  "i < length xs \<Longrightarrow> upd_range f lo hi xs ! i = (if lo \<le> i \<and> i < hi then f (xs ! i) else xs ! i)"
  by (simp add: upd_range_def)

section \<open>Loops with a state\<close>

text \<open>A \<^verbatim>\<open>for\<close> loop over a vector whose body updates a state and may panic.\<close>

fun fold_opt :: "('a \<Rightarrow> 's \<Rightarrow> 's option) \<Rightarrow> 'a list \<Rightarrow> 's \<Rightarrow> 's option" where
  "fold_opt f [] s = Some s"
| "fold_opt f (x # xs) s = Option.bind (f x s) (fold_opt f xs)"

lemma fold_opt_inv:
  "fold_opt f xs s = Some t \<Longrightarrow> P s \<Longrightarrow> (\<And>x s t. x \<in> set xs \<Longrightarrow> f x s = Some t \<Longrightarrow> P s \<Longrightarrow> P t) \<Longrightarrow> P t"
proof (induction xs arbitrary: s)
  case (Cons x xs)
  then obtain u where u: "f x s = Some u" "fold_opt f xs u = Some t" by (auto simp: bind_eq_Some_conv)
  have "P u" using Cons.prems(3) [OF _ u(1) Cons.prems(2)] by simp
  then show ?case using Cons.IH [OF u(2)] Cons.prems(3) by (meson list.set_intros(2))
qed simp

lemma fold_opt_total:
  "P s \<Longrightarrow> (\<And>x s. x \<in> set xs \<Longrightarrow> P s \<Longrightarrow> \<exists>t. f x s = Some t \<and> P t) \<Longrightarrow> \<exists>t. fold_opt f xs s = Some t \<and> P t"
proof (induction xs arbitrary: s)
  case (Cons x xs)
  obtain u where "f x s = Some u" "P u" using Cons.prems by (meson list.set_intros(1))
  then show ?case using Cons.IH [of u] Cons.prems(2) by simp
qed simp

lemma fold_opt_cong [fundef_cong]:
  "xs = ys \<Longrightarrow> s = t \<Longrightarrow> (\<And>x u. x \<in> set ys \<Longrightarrow> f x u = g x u) \<Longrightarrow> fold_opt f xs s = fold_opt g ys t"
proof (induction ys arbitrary: xs s t)
  case (Cons y ys)
  then show ?case by (cases "g y t") simp_all
qed simp

end
