(* ===== verification/Interfaces.thy ===== *)
theory Interfaces
  imports Prelude
begin

text \<open>
  The contracts the components rely on, as locales. Each is interpreted on the models of
  the components that provide it; the lemmas proved here are what their clients use.
\<close>

section \<open>A store of pages with a conservation law\<close>

text \<open>
  A page store has a step relation, an invariant, and three counts. The law is the
  conservation formula of the pools: pages in use and free pages add up to the capacity.
\<close>

locale page_store =
  fixes inv :: "'s \<Rightarrow> bool"
    and step :: "'s \<Rightarrow> 's \<Rightarrow> bool"
    and used :: "'s \<Rightarrow> nat"
    and avail :: "'s \<Rightarrow> nat"
    and cap :: "'s \<Rightarrow> nat"
  assumes step_inv: "inv s \<Longrightarrow> step s t \<Longrightarrow> inv t"
    and conserve: "inv s \<Longrightarrow> used s + avail s = cap s"
    and step_cap: "inv s \<Longrightarrow> step s t \<Longrightarrow> cap t = cap s"
begin

lemma run_inv: "step\<^sup>*\<^sup>* s t \<Longrightarrow> inv s \<Longrightarrow> inv t"
  by (induction rule: rtranclp_induct) (auto intro: step_inv)

lemma run_cap: "step\<^sup>*\<^sup>* s t \<Longrightarrow> inv s \<Longrightarrow> cap t = cap s"
proof (induction rule: rtranclp_induct)
  case (step t u)
  then show ?case using step_cap [of t u] run_inv [of s t] by simp
qed simp

lemma run_conserve: "step\<^sup>*\<^sup>* s t \<Longrightarrow> inv s \<Longrightarrow> used t + avail t = cap s"
  using run_inv run_cap conserve by metis

lemma run_used_le: "step\<^sup>*\<^sup>* s t \<Longrightarrow> inv s \<Longrightarrow> used t \<le> cap s"
  using run_conserve by (metis le_add1)

end

section \<open>A reference-counted page pool\<close>

text \<open>
  What the prefix cache relies on: \<open>ref\<close> and \<open>unref\<close> add and remove one reference on
  every page of a run, and return (do not panic) when the pages are live and the counts in
  range. \<open>owns p M\<close> is the accounting of the clients: \<open>M\<close> is the multiset of the runs
  somebody holds, and the count of a page is the number of the held runs that cover it.
\<close>

locale ref_pool =
  fixes inv :: "'p \<Rightarrow> bool"
    and cap :: "'p \<Rightarrow> nat"
    and rc :: "'p \<Rightarrow> nat \<Rightarrow> nat"
    and pages :: "'g \<Rightarrow> nat set"
    and ref :: "'p \<Rightarrow> 'g \<Rightarrow> 'p option"
    and unref :: "'p \<Rightarrow> 'g \<Rightarrow> 'p option"
    and max_rc :: nat
  assumes ref_ok: "inv p \<Longrightarrow> \<forall>i\<in>pages g. i < cap p \<and> 1 \<le> rc p i \<and> rc p i < max_rc \<Longrightarrow>
      \<exists>p'. ref p g = Some p' \<and> inv p' \<and> cap p' = cap p
         \<and> rc p' = (\<lambda>i. if i \<in> pages g then rc p i + 1 else rc p i)"
    and unref_ok: "inv p \<Longrightarrow> \<forall>i\<in>pages g. i < cap p \<and> 1 \<le> rc p i \<Longrightarrow>
      \<exists>p'. unref p g = Some p' \<and> inv p' \<and> cap p' = cap p
         \<and> rc p' = (\<lambda>i. if i \<in> pages g then rc p i - 1 else rc p i)"
    and rc_cap: "inv p \<Longrightarrow> 0 < rc p i \<Longrightarrow> i < cap p"
begin

definition cover :: "'g multiset \<Rightarrow> nat \<Rightarrow> nat" where
  "cover M i = size (filter_mset (\<lambda>g. i \<in> pages g) M)"

definition owns :: "'p \<Rightarrow> 'g multiset \<Rightarrow> bool" where
  "owns p M \<longleftrightarrow> inv p \<and> rc p = cover M"

fun unref_all :: "'p \<Rightarrow> 'g list \<Rightarrow> 'p option" where
  "unref_all p [] = Some p"
| "unref_all p (g # gs) = Option.bind (unref p g) (\<lambda>p'. unref_all p' gs)"

lemma cover_simps [simp]:
  "cover {#} i = 0" "cover (M + N) i = cover M i + cover N i"
  "cover (add_mset g M) i = (if i \<in> pages g then Suc (cover M i) else cover M i)"
  by (simp_all add: cover_def)

lemma cover_le_size: "cover M i \<le> size M"
  by (simp add: cover_def size_filter_mset_lesseq)

lemma cover_member_pos: "g \<in># M \<Longrightarrow> i \<in> pages g \<Longrightarrow> 0 < cover M i"
  by (auto dest!: multi_member_split)

text \<open>Taking a further reference on a part of a held run.\<close>

lemma owns_ref:
  assumes "owns p M" "h \<in># M" "pages g \<subseteq> pages h" "size M < max_rc"
  shows "\<exists>p'. ref p g = Some p' \<and> owns p' (add_mset g M) \<and> cap p' = cap p"
proof -
  have "i < cap p \<and> 1 \<le> rc p i \<and> rc p i < max_rc" if "i \<in> pages g" for i
  proof -
    have "0 < rc p i" using that assms cover_member_pos [of h M i] by (auto simp: owns_def)
    moreover have "rc p i < max_rc"
      using assms(1,4) cover_le_size [of M i] by (auto simp: owns_def)
    ultimately show ?thesis using assms(1) rc_cap by (auto simp: owns_def)
  qed
  with ref_ok [of p g] assms(1) show ?thesis by (fastforce simp: owns_def)
qed

text \<open>Giving a held run back always succeeds.\<close>

lemma owns_unref:
  assumes "owns p (add_mset g M)"
  shows "\<exists>p'. unref p g = Some p' \<and> owns p' M \<and> cap p' = cap p"
proof -
  have "i < cap p \<and> 1 \<le> rc p i" if "i \<in> pages g" for i
    using that assms rc_cap [of p i] by (auto simp: owns_def)
  with unref_ok [of p g] assms show ?thesis by (fastforce simp: owns_def)
qed

lemma owns_unref_all:
  "owns p (mset gs + M) \<Longrightarrow> \<exists>p'. unref_all p gs = Some p' \<and> owns p' M \<and> cap p' = cap p"
proof (induction gs arbitrary: p)
  case (Cons g gs)
  then have "owns p (add_mset g (mset gs + M))" by simp
  from owns_unref [OF this] Cons.IH show ?case by fastforce
qed simp

lemma owns_no_leak: "owns p {#} \<Longrightarrow> rc p i = 0"
  by (simp add: owns_def)

lemma ref_unref_restores:
  assumes "owns p M" "h \<in># M" "pages g \<subseteq> pages h" "size M < max_rc"
  shows "\<exists>p' p''. ref p g = Some p' \<and> unref p' g = Some p'' \<and> rc p'' = rc p \<and> owns p'' M"
  using owns_ref [OF assms] owns_unref assms(1) by (fastforce simp: owns_def)

end

section \<open>Service orders\<close>

text \<open>
  What the batch selector needs of a queue policy: it lists every index of its input once
  (\<open>service_order\<close>), by increasing rank (\<open>ranked_order\<close>).
\<close>

locale service_order =
  fixes order :: "'w list \<Rightarrow> nat list"
  assumes order_perm: "mset (order ws) = mset [0..<length ws]"
begin

lemma set_order [simp]: "set (order ws) = {0..<length ws}"
  using order_perm [of ws] by (metis set_mset_mset atLeastLessThan_upt)

lemma length_order [simp]: "length (order ws) = length ws"
  using order_perm [of ws] by (metis length_upt minus_nat.diff_0 size_mset)

lemma distinct_order [simp]: "distinct (order ws)"
  using order_perm [of ws] by (metis distinct_upt mset_eq_imp_distinct_iff)

lemma mset_served: "mset (map (\<lambda>i. f (ws ! i)) (order ws)) = mset (map f ws)"
proof -
  have "mset (map (\<lambda>i. f (ws ! i)) (order ws)) = image_mset (\<lambda>i. f (ws ! i)) (mset [0..<length ws])"
    by (simp only: mset_map order_perm)
  also have "\<dots> = mset (map (\<lambda>i. f (ws ! i)) [0..<length ws])" by (simp only: mset_map)
  also have "map (\<lambda>i. f (ws ! i)) [0..<length ws] = map f ws" by (rule nth_equalityI) auto
  finally show ?thesis .
qed

lemma mset_split_served:
  "mset (map (\<lambda>i. f (ws ! i)) (take n (order ws))) + mset (map (\<lambda>i. f (ws ! i)) (drop n (order ws)))
   = mset (map f ws)"
  using mset_served [of f ws] by (metis append_take_drop_id map_append mset_append)

end

locale ranked_order = service_order order
  for order :: "'w list \<Rightarrow> nat list" +
  fixes rank :: "'w list \<Rightarrow> 'w \<Rightarrow> 'k::linorder"
  assumes order_sorted: "sorted (map (\<lambda>i. rank ws (ws ! i)) (order ws))"
begin

lemma rank_mono:
  "i \<le> j \<Longrightarrow> j < length ws \<Longrightarrow> rank ws (ws ! (order ws ! i)) \<le> rank ws (ws ! (order ws ! j))"
  using sorted_nth_mono [OF order_sorted, of i j ws] by simp

text \<open>Elements served before position \<open>n\<close> rank no higher than the others.\<close>

lemma rank_take_drop:
  assumes "i \<in> set (take n (order ws))" "j \<in> set (drop n (order ws))"
  shows "rank ws (ws ! i) \<le> rank ws (ws ! j)"
proof -
  obtain p where p: "p < n" "p < length (order ws)" "i = order ws ! p"
    using assms(1) by (auto simp: in_set_conv_nth)
  obtain q where q: "q < length (order ws) - n" "j = order ws ! (n + q)"
    using assms(2) by (auto simp: in_set_conv_nth)
  show ?thesis using rank_mono [of p "n + q" ws] p q by simp
qed

text \<open>With distinct ranks, the order of service depends only on the set that is served.\<close>

lemma served_unique:
  assumes "mset ws = mset ws'" "rank ws = rank ws'" "inj_on (rank ws) (set ws)"
  shows "map ((!) ws) (order ws) = map ((!) ws') (order ws')"
proof -
  let ?s = "map ((!) ws) (order ws)" and ?s' = "map ((!) ws') (order ws')"
  have m: "mset ?s = mset ws" "mset ?s' = mset ws'"
    using mset_served [of "\<lambda>x. x" ws] mset_served [of "\<lambda>x. x" ws'] by auto
  then have set: "set ?s = set ws" by (metis set_mset_mset)
  have "sorted (map (rank ws) ?s)" "sorted (map (rank ws) ?s')"
    using order_sorted [of ws] order_sorted [of ws'] assms(2) by (simp_all add: comp_def)
  then have "sort_key (rank ws) ?s = ?s" "sort_key (rank ws) ?s = ?s'"
    using assms(3) set m assms(1) by (auto intro: sort_key_inj_key_eq)
  then show ?thesis by simp
qed

end

end
