(* ===== verification/Ordered_Map.thy ===== *)
theory Ordered_Map
  imports Prelude
begin

text \<open>
  Ordered maps (\<^verbatim>\<open>BTreeMap\<close>) as association lists sorted by key: insertion, removal, and the
  sum of a function over the values.
\<close>

section \<open>Operations\<close>

fun bt_insert :: "'k::linorder \<Rightarrow> 'v \<Rightarrow> ('k \<times> 'v) list \<Rightarrow> ('k \<times> 'v) list" where
  "bt_insert k v [] = [(k, v)]"
| "bt_insert k v ((k', v') # xs) =
     (if k < k' then (k, v) # (k', v') # xs
      else if k = k' then (k, v) # xs
      else (k', v') # bt_insert k v xs)"

definition bt_remove :: "'k \<Rightarrow> ('k \<times> 'v) list \<Rightarrow> ('k \<times> 'v) list" where
  "bt_remove k xs = filter (\<lambda>p. fst p \<noteq> k) xs"

section \<open>Laws\<close>

lemma map_of_bt_insert [simp]: "map_of (bt_insert k v xs) = (map_of xs)(k \<mapsto> v)"
  by (induction k v xs rule: bt_insert.induct) auto

lemma map_of_bt_remove [simp]: "map_of (bt_remove k xs) = (map_of xs)(k := None)"
  by (induction xs) (auto simp: bt_remove_def)

lemma set_bt_insert: "set (bt_insert k v xs) \<subseteq> insert (k, v) (set xs)"
  by (induction k v xs rule: bt_insert.induct) auto

lemma keys_bt_insert: "fst ` set (bt_insert k v xs) = insert k (fst ` set xs)"
  by (induction k v xs rule: bt_insert.induct) auto

lemma sorted_bt_insert:
  "sorted_wrt (<) (map fst xs) \<Longrightarrow> sorted_wrt (<) (map fst (bt_insert k v xs))"
proof (induction k v xs rule: bt_insert.induct)
  case (2 k v k' v' xs)
  have "fst ` set (bt_insert k v xs) = insert k (fst ` set xs)" by (rule keys_bt_insert)
  then show ?case using 2 by (auto simp: image_iff)
qed simp

lemma sorted_bt_remove: "sorted_wrt (<) (map fst xs) \<Longrightarrow> sorted_wrt (<) (map fst (bt_remove k xs))"
  by (induction xs) (auto simp: bt_remove_def)

lemma set_bt_remove: "set (bt_remove k xs) \<subseteq> set xs"
  by (auto simp: bt_remove_def)

lemma sorted_fst_distinct: "sorted_wrt (<) (map fst (xs :: ('k::linorder \<times> 'v) list)) \<Longrightarrow> distinct (map fst xs)"
  by (simp add: strict_sorted_iff)

text \<open>Sums over the values of an ordered map.\<close>

definition bt_sum :: "('v \<Rightarrow> nat) \<Rightarrow> ('k \<times> 'v) list \<Rightarrow> nat" where
  "bt_sum f xs = sum_list (map (\<lambda>p. f (snd p)) xs)"

lemma bt_sum_simps [simp]: "bt_sum f [] = 0" "bt_sum f (p # xs) = f (snd p) + bt_sum f xs"
  by (simp_all add: bt_sum_def)

lemma bt_sum_insert_old:
  "sorted_wrt (<) (map fst xs) \<Longrightarrow> map_of xs k = Some w \<Longrightarrow> bt_sum f (bt_insert k v xs) + f w = bt_sum f xs + f v"
proof (induction k v xs rule: bt_insert.induct)
  case (2 k v k' v' xs)
  then show ?case by (cases "k = k'") (force dest: map_of_SomeD)+
qed simp

lemma bt_sum_insert_new: "map_of xs k = None \<Longrightarrow> bt_sum f (bt_insert k v xs) = bt_sum f xs + f v"
  by (induction k v xs rule: bt_insert.induct) (auto split: if_splits)

lemma bt_sum_remove:
  "distinct (map fst xs) \<Longrightarrow> map_of xs k = Some w \<Longrightarrow> bt_sum f (bt_remove k xs) + f w = bt_sum f xs"
proof (induction xs)
  case (Cons p xs)
  have "filter (\<lambda>p. fst p \<noteq> k) xs = xs" if "k \<notin> fst ` set xs"
    using that by (auto intro!: filter_True)
  then show ?case using Cons by (cases "fst p = k") (auto simp: bt_remove_def split: if_splits)
qed simp

lemma bt_sum_ge: "map_of xs k = Some w \<Longrightarrow> f w \<le> bt_sum f xs"
  by (induction xs) (auto split: if_splits)

end
