(* ===== verification/Page_Pool.thy ===== *)
theory Page_Pool
  imports Interfaces
begin

text \<open>
  The page pool of \<^verbatim>\<open>crates/memory/src/pool.rs\<close>: fixed-size KV pages handed out from a
  LIFO free list, page tables from logical token positions to physical pages, and the
  conservation counters.

  \<open>pool_owned\<close> is the abstract state: the pages of the free list together with the pages
  of the live tables are exactly the pages of the pool, each once. Every operation keeps it.
\<close>

section \<open>Data\<close>

datatype BlockLen = B16 | B32

fun slots :: "BlockLen \<Rightarrow> nat" where
  "slots B16 = 16"
| "slots B32 = 32"

record PageTable =
  pt_pages :: "nat list"
  pt_len :: nat

datatype MemoryError = OutOfPages nat nat | InvalidLen nat

text \<open>\<open>pp_free\<close> is the \<^verbatim>\<open>Vec\<close>: \<^verbatim>\<open>push\<close> and \<^verbatim>\<open>pop\<close> work at its end.\<close>

record PagePool =
  pp_block_slots :: nat
  pp_total :: nat
  pp_free :: "nat list"
  pp_in_use :: nat
  pp_allocs :: nat
  pp_frees :: nat

section \<open>Operations\<close>

text \<open>
  Looking up a logical position. The outer \<open>None\<close> is the index panic of
  \<^verbatim>\<open>self.pages[page_idx]\<close> (or of the division when the block length is 0), the inner
  one the \<^verbatim>\<open>None\<close> that the method returns past the end of the table.
\<close>

definition locate :: "PageTable \<Rightarrow> nat \<Rightarrow> nat \<Rightarrow> (nat \<times> nat) option option" where
  "locate t pos block_len =
     (if pt_len t \<le> pos then Some None
      else if block_len = 0 then None
      else let page_idx = pos div block_len in
        if page_idx < length (pt_pages t)
        then Some (Some (pt_pages t ! page_idx, pos mod block_len))
        else None)"

definition pp_new :: "BlockLen \<Rightarrow> nat \<Rightarrow> PagePool" where
  "pp_new block n =
     \<lparr>pp_block_slots = slots block, pp_total = n, pp_free = rev [0..<n],
      pp_in_use = 0, pp_allocs = 0, pp_frees = 0\<rparr>"

definition pp_free_count :: "PagePool \<Rightarrow> nat" where
  "pp_free_count p = length (pp_free p)"

text \<open>The assertion of \<^verbatim>\<open>assert_conserved\<close> as a test: \<open>False\<close> is the panic.\<close>

definition pp_assert_conserved :: "PagePool \<Rightarrow> bool" where
  "pp_assert_conserved p \<longleftrightarrow> pp_in_use p + length (pp_free p) = pp_total p"

text \<open>The loop of \<^verbatim>\<open>alloc_tokens\<close>: \<open>n\<close> times \<^verbatim>\<open>pages.push(self.free.pop())\<close>.\<close>

fun pop_pages :: "nat \<Rightarrow> nat list \<Rightarrow> nat list \<Rightarrow> (nat list \<times> nat list) option" where
  "pop_pages 0 pages fr = Some (pages, fr)"
| "pop_pages (Suc n) pages fr =
     (if fr = [] then None else pop_pages n (pages @ [last fr]) (butlast fr))"

definition alloc_tokens :: "PagePool \<Rightarrow> nat \<Rightarrow> (PageTable \<times> PagePool, MemoryError) res" where
  "alloc_tokens p tokens =
     (if pp_block_slots p = 0 then Panic else
      let pages_needed = div_ceil tokens (pp_block_slots p) in
      if length (pp_free p) < pages_needed
      then Err (OutOfPages pages_needed (length (pp_free p)))
      else case pop_pages pages_needed [] (pp_free p) of
        None \<Rightarrow> Panic
      | Some (pages, fr) \<Rightarrow>
          Ok (\<lparr>pt_pages = pages, pt_len = tokens\<rparr>,
              p\<lparr>pp_free := fr, pp_in_use := pp_in_use p + pages_needed,
                pp_allocs := pp_allocs p + pages_needed\<rparr>))"

definition alloc_page :: "PagePool \<Rightarrow> (nat \<times> PagePool, MemoryError) res" where
  "alloc_page p =
     (if pp_free p = [] then Err (OutOfPages 1 0)
      else Ok (last (pp_free p),
               p\<lparr>pp_free := butlast (pp_free p), pp_in_use := pp_in_use p + 1,
                 pp_allocs := pp_allocs p + 1\<rparr>))"

text \<open>
  Releasing a table: every page is checked to be one of the pool, pushed, and the table
  emptied. \<open>None\<close> is the failed assertion or the underflow of \<^verbatim>\<open>in_use -= n\<close>.
\<close>

definition free_table :: "PagePool \<Rightarrow> PageTable \<Rightarrow> (PagePool \<times> PageTable) option" where
  "free_table p t =
     (let n = length (pt_pages t) in
      if list_all (\<lambda>pg. pg < pp_total p) (pt_pages t) \<and> n \<le> pp_in_use p
      then Some (p\<lparr>pp_free := pp_free p @ pt_pages t, pp_in_use := pp_in_use p - n,
                   pp_frees := pp_frees p + n\<rparr>,
                 t\<lparr>pt_pages := [], pt_len := 0\<rparr>)
      else None)"

definition alloc_frees :: "PagePool \<Rightarrow> nat \<times> nat" where
  "alloc_frees p = (pp_allocs p, pp_frees p)"

section \<open>The invariant\<close>

text \<open>\<open>ts\<close> are the tables handed out and not yet freed.\<close>

definition live_pages :: "PageTable list \<Rightarrow> nat list" where
  "live_pages ts = concat (map pt_pages ts)"

definition pool_inv :: "PagePool \<Rightarrow> PageTable list \<Rightarrow> bool" where
  "pool_inv p ts \<longleftrightarrow>
     mset (pp_free p) + mset (live_pages ts) = mset [0..<pp_total p]
     \<and> pp_in_use p = length (live_pages ts)
     \<and> pp_allocs p = pp_frees p + pp_in_use p
     \<and> 0 < pp_block_slots p
     \<and> (\<forall>t\<in>set ts. pt_len t \<le> length (pt_pages t) * pp_block_slots p)"

lemma live_pages_Cons [simp]: "live_pages (t # ts) = pt_pages t @ live_pages ts"
  by (simp add: live_pages_def)

lemma live_pages_Nil [simp]: "live_pages [] = []"
  by (simp add: live_pages_def)

lemma mset_live_pages_remove1:
  "t \<in> set ts \<Longrightarrow> mset (live_pages ts) = mset (pt_pages t) + mset (live_pages (remove1 t ts))"
  by (induction ts) auto

lemma pool_inv_new: "pool_inv (pp_new b n) []"
  by (cases b) (auto simp: pool_inv_def pp_new_def)

lemma pop_pages_spec:
  "pop_pages n acc fr = Some (ps, fr') \<longleftrightarrow>
     n \<le> length fr \<and> ps = acc @ rev (drop (length fr - n) fr) \<and> fr' = take (length fr - n) fr"
proof (induction n arbitrary: acc fr)
  case (Suc n)
  show ?case
  proof (cases fr rule: rev_cases)
    case (snoc ys y)
    then show ?thesis by (auto simp: Suc.IH)
  qed auto
qed auto

lemma pop_pages_mset:
  "pop_pages n acc fr = Some (ps, fr') \<Longrightarrow>
     mset ps + mset fr' = mset acc + mset fr \<and> length ps = length acc + n"
proof -
  assume "pop_pages n acc fr = Some (ps, fr')"
  then have n: "n \<le> length fr" and ps: "ps = acc @ rev (drop (length fr - n) fr)"
    and fr': "fr' = take (length fr - n) fr"
    by (auto simp: pop_pages_spec)
  have "mset fr = mset (take (length fr - n) fr) + mset (drop (length fr - n) fr)"
    by (metis append_take_drop_id mset_append)
  then show ?thesis using n by (simp add: ps fr')
qed

lemma pop_pages_total: "n \<le> length fr \<Longrightarrow> \<exists>ps fr'. pop_pages n acc fr = Some (ps, fr')"
  by (simp add: pop_pages_spec)

section \<open>Behaviour of the operations\<close>

lemma alloc_tokens_inv:
  assumes inv: "pool_inv p ts" and ok: "alloc_tokens p n = Ok (t, p')"
  shows "pool_inv p' (t # ts) \<and> pp_total p' = pp_total p"
proof -
  let ?need = "div_ceil n (pp_block_slots p)"
  from ok obtain ps fr where pop: "pop_pages ?need [] (pp_free p) = Some (ps, fr)"
    and t: "t = \<lparr>pt_pages = ps, pt_len = n\<rparr>"
    and p': "p' = p\<lparr>pp_free := fr, pp_in_use := pp_in_use p + ?need,
                     pp_allocs := pp_allocs p + ?need\<rparr>"
    by (auto simp: alloc_tokens_def Let_def split: if_splits option.splits)
  from inv have "n \<le> ?need * pp_block_slots p"
    by (simp add: pool_inv_def div_ceil_mult_ge)
  moreover from pop_pages_mset [OF pop]
  have "mset fr + mset ps = mset (pp_free p)" "length ps = ?need"
    by (auto simp: add.commute)
  ultimately show ?thesis using inv
    by (auto simp: pool_inv_def t p' simp del: mset_upt simp flip: union_assoc)
qed

lemma alloc_tokens_no_panic: "pool_inv p ts \<Longrightarrow> alloc_tokens p n \<noteq> Panic"
  using pop_pages_total [of "div_ceil n (pp_block_slots p)" "pp_free p" "[]"]
  by (cases "div_ceil n (pp_block_slots p) \<le> length (pp_free p)")
    (auto simp: alloc_tokens_def pool_inv_def Let_def split: option.splits)

lemma alloc_tokens_Err_iff:
  "pool_inv p ts \<Longrightarrow> alloc_tokens p n = Err e \<longleftrightarrow>
     pp_free_count p * pp_block_slots p < n
     \<and> e = OutOfPages (div_ceil n (pp_block_slots p)) (pp_free_count p)"
  using div_ceil_le_iff [of "pp_block_slots p" n "length (pp_free p)"]
    pop_pages_total [of "div_ceil n (pp_block_slots p)" "pp_free p" "[]"]
  by (auto simp: alloc_tokens_def pool_inv_def pp_free_count_def Let_def split: option.splits)

lemma alloc_page_inv:
  assumes inv: "pool_inv p ts" and ok: "alloc_page p = Ok (pg, p')"
  shows "pool_inv p' (\<lparr>pt_pages = [pg], pt_len = 0\<rparr> # ts) \<and> pp_total p' = pp_total p"
proof -
  from ok have ne: "pp_free p \<noteq> []" and pg: "pg = last (pp_free p)"
    and p': "p' = p\<lparr>pp_free := butlast (pp_free p), pp_in_use := pp_in_use p + 1,
                     pp_allocs := pp_allocs p + 1\<rparr>"
    by (auto simp: alloc_page_def split: if_splits)
  show ?thesis using inv take_butlast_last [OF ne]
    by (auto simp: pool_inv_def p' pg)
qed

lemma pool_inv_bound:
  assumes "pool_inv p ts" "x \<in> set (live_pages ts) \<or> x \<in> set (pp_free p)"
  shows "x < pp_total p"
proof -
  have "set_mset (mset (pp_free p) + mset (live_pages ts)) = {0..<pp_total p}"
    using assms(1) by (simp add: pool_inv_def)
  then show ?thesis using assms(2) by auto
qed

lemma pool_inv_distinct:
  "pool_inv p ts \<Longrightarrow> distinct (pp_free p @ live_pages ts)"
  by (metis distinct_upt mset_append mset_eq_imp_distinct_iff pool_inv_def)

lemma in_live_pages: "t \<in> set ts \<Longrightarrow> x \<in> set (pt_pages t) \<Longrightarrow> x \<in> set (live_pages ts)"
  by (auto simp: live_pages_def)

lemma length_live_pages_ge: "t \<in> set ts \<Longrightarrow> length (pt_pages t) \<le> length (live_pages ts)"
  by (induction ts) auto

lemma free_table_inv:
  assumes inv: "pool_inv p ts" and t: "t \<in> set ts"
  shows "\<exists>p' t'. free_table p t = Some (p', t') \<and> pool_inv p' (remove1 t ts)
           \<and> pp_total p' = pp_total p \<and> pt_pages t' = [] \<and> pt_len t' = 0"
proof -
  have "list_all (\<lambda>pg. pg < pp_total p) (pt_pages t)"
    using pool_inv_bound [OF inv] in_live_pages [OF t] by (auto simp: list_all_iff)
  moreover have "length (pt_pages t) \<le> pp_in_use p"
    using length_live_pages_ge [OF t] inv by (simp add: pool_inv_def)
  moreover have m: "mset (live_pages ts) = mset (pt_pages t) + mset (live_pages (remove1 t ts))"
    by (rule mset_live_pages_remove1 [OF t])
  moreover have "length (live_pages ts) = length (pt_pages t) + length (live_pages (remove1 t ts))"
    using arg_cong [OF m, of size] by simp
  moreover have "set (remove1 t ts) \<subseteq> set ts" by (rule set_remove1_subset)
  ultimately show ?thesis using inv
    by (auto simp: free_table_def pool_inv_def Let_def add.assoc)
qed

section \<open>The pool as a page store\<close>

text \<open>A state is the pool with the tables its callers hold.\<close>

inductive pool_step :: "PagePool \<times> PageTable list \<Rightarrow> PagePool \<times> PageTable list \<Rightarrow> bool" where
  step_alloc_tokens: "alloc_tokens p n = Ok (t, p') \<Longrightarrow> pool_step (p, ts) (p', t # ts)"
| step_alloc_page: "alloc_page p = Ok (pg, p') \<Longrightarrow>
     pool_step (p, ts) (p', \<lparr>pt_pages = [pg], pt_len = 0\<rparr> # ts)"
| step_free: "t \<in> set ts \<Longrightarrow> free_table p t = Some (p', t') \<Longrightarrow>
     pool_step (p, ts) (p', remove1 t ts)"

inductive_cases pool_stepE: "pool_step (p, ts) s"

lemma pool_step_inv:
  assumes "pool_step s s'" "pool_inv (fst s) (snd s)"
  shows "pool_inv (fst s') (snd s') \<and> pp_total (fst s') = pp_total (fst s)"
  using assms
proof (induction rule: pool_step.induct)
  case (step_free t ts p p' t')
  then show ?case using free_table_inv [of p ts t] by auto
qed (auto dest: alloc_tokens_inv alloc_page_inv)

lemma pool_inv_conserve: "pool_inv p ts \<Longrightarrow> pp_in_use p + pp_free_count p = pp_total p"
proof -
  assume "pool_inv p ts"
  then have "size (mset (pp_free p) + mset (live_pages ts)) = pp_total p"
    and "pp_in_use p = length (live_pages ts)"
    by (auto simp: pool_inv_def)
  then show ?thesis by (simp add: pp_free_count_def)
qed

interpretation page_pool: page_store
  "\<lambda>s. pool_inv (fst s) (snd s)" pool_step "\<lambda>s. pp_in_use (fst s)"
  "\<lambda>s. pp_free_count (fst s)" "\<lambda>s. pp_total (fst s)"
  by unfold_locales (auto dest: pool_step_inv pool_inv_conserve)

section \<open>Properties\<close>

lemma locate_SomeE:
  assumes "locate t pos b = Some (Some (pg, off))"
  shows "pos < pt_len t" "pos div b < length (pt_pages t)"
    "pg = pt_pages t ! (pos div b)" "off = pos mod b"
  using assms by (auto simp: locate_def Let_def split: if_splits)

text \<open>
  C21: From a fresh pool, any sequence of allocations (by token count or of one page) and
  releases of live tables never panics on the release, keeps every page in exactly one of
  the free list and the live tables, and keeps the three conservation laws of the module:
  in use + free = total, in use = allocated - released, total unchanged.
\<close>

theorem pool_conserved:
  assumes "pool_step\<^sup>*\<^sup>* (pp_new b n, []) (p, ts)"
  shows "pp_assert_conserved p \<and> pp_total p = n \<and> pp_allocs p = pp_frees p + pp_in_use p
    \<and> distinct (pp_free p @ live_pages ts) \<and> set (pp_free p @ live_pages ts) = {..<n}
    \<and> (\<forall>t\<in>set ts. free_table p t \<noteq> None)"
proof -
  have init: "pool_inv (fst (pp_new b n, [])) (snd (pp_new b n, []))"
    by (simp add: pool_inv_new)
  have inv: "pool_inv p ts" and tot: "pp_total p = n"
    using page_pool.run_inv [OF assms init] page_pool.run_cap [OF assms init]
    by (auto simp: pp_new_def)
  have "set_mset (mset (pp_free p) + mset (live_pages ts)) = {..<n}"
    using inv tot by (simp add: pool_inv_def atLeast0LessThan)
  moreover have "pp_assert_conserved p"
    using pool_inv_conserve [OF inv] by (simp add: pp_assert_conserved_def pp_free_count_def)
  moreover have "free_table p t \<noteq> None" if "t \<in> set ts" for t
    using free_table_inv [OF inv that] by auto
  ultimately show ?thesis
    using tot inv pool_inv_distinct [OF inv] by (auto simp: pool_inv_def)
qed

theorem pool_conserved_witness:
  "\<exists>t p. pool_step\<^sup>*\<^sup>* (pp_new B16 8, []) (p, [t]) \<and> pp_assert_conserved p \<and> pp_in_use p = 2"
proof -
  define t where "t = \<lparr>pt_pages = [0, 1], pt_len = 20\<rparr>"
  define p where "p = \<lparr>pp_block_slots = 16, pp_total = 8, pp_free = [7, 6, 5, 4, 3, 2],
                        pp_in_use = 2, pp_allocs = 2, pp_frees = 0\<rparr>"
  have "alloc_tokens (pp_new B16 8) 20 = Ok (t, p)" unfolding t_def p_def by code_simp
  then have run: "pool_step\<^sup>*\<^sup>* (pp_new B16 8, []) (p, [t])"
    by (blast intro: pool_step.intros)
  have "pp_in_use p = 2" by (simp add: p_def)
  with run pool_conserved [OF run] show ?thesis by blast
qed

text \<open>
  C22: In every state of the pool, each token position that a live table covers is located
  without a panic, at a page of the pool and an offset inside the page, and two different
  positions (of one table or of two live tables) never share a KV slot.
\<close>

theorem locate_no_alias:
  assumes inv: "pool_inv p ts" and i: "i < length ts" and j: "j < length ts"
    and a: "a < pt_len (ts ! i)" and b: "b < pt_len (ts ! j)"
  shows "\<exists>pg off. locate (ts ! i) a (pp_block_slots p) = Some (Some (pg, off))
      \<and> pg < pp_total p \<and> off < pp_block_slots p
      \<and> (locate (ts ! j) b (pp_block_slots p) = Some (Some (pg, off)) \<longrightarrow> i = j \<and> a = b)"
proof -
  let ?bs = "pp_block_slots p"
  have bs: "0 < ?bs" using inv by (simp add: pool_inv_def)
  have idx: "c div ?bs < length (pt_pages (ts ! k))" if "k < length ts" "c < pt_len (ts ! k)" for k c
  proof -
    have "pt_len (ts ! k) \<le> length (pt_pages (ts ! k)) * ?bs"
      using inv nth_mem [OF that(1)] by (simp add: pool_inv_def)
    with that(2) show ?thesis by (intro less_mult_imp_div_less) simp
  qed
  let ?pg = "pt_pages (ts ! i) ! (a div ?bs)"
  have loc: "locate (ts ! i) a ?bs = Some (Some (?pg, a mod ?bs))"
    using idx [OF i a] a bs by (simp add: locate_def)
  have "?pg < pp_total p"
    using pool_inv_bound [OF inv] in_live_pages [of "ts ! i" ts] i idx [OF i a] by auto
  moreover have "i = j \<and> a = b" if "locate (ts ! j) b ?bs = Some (Some (?pg, a mod ?bs))"
  proof -
    from locate_SomeE [OF that]
    have eq: "pt_pages (ts ! i) ! (a div ?bs) = pt_pages (ts ! j) ! (b div ?bs)"
      and m: "a mod ?bs = b mod ?bs" by auto
    have "distinct (concat (map pt_pages ts))"
      using pool_inv_distinct [OF inv] by (simp add: live_pages_def)
    from distinct_concat_index [OF this, of i j "a div ?bs" "b div ?bs"]
    have "i = j \<and> a div ?bs = b div ?bs" using eq i j idx [OF i a] idx [OF j b] by simp
    then show ?thesis using m by (metis div_mult_mod_eq)
  qed
  ultimately show ?thesis using loc bs by auto
qed

theorem locate_no_alias_witness:
  "\<exists>p ts. pool_inv p ts \<and> length ts = 2
     \<and> locate (ts ! 0) 17 16 = Some (Some (3, 1)) \<and> locate (ts ! 1) 1 16 \<noteq> Some (Some (3, 1))"
proof -
  define p where "p = \<lparr>pp_block_slots = 16, pp_total = 4, pp_free = [1],
                        pp_in_use = 3, pp_allocs = 3, pp_frees = 0\<rparr>"
  define ts where "ts = [\<lparr>pt_pages = [2, 3], pt_len = 20\<rparr>, \<lparr>pt_pages = [0], pt_len = 5\<rparr>]"
  have inv: "pool_inv p ts"
    by (simp add: p_def ts_def pool_inv_def live_pages_def eval_nat_numeral upt_rec
        flip: mset.simps)
      (simp add: upt_rec)
  have l: "locate (ts ! 0) 17 16 = Some (Some (3, 1))" by (simp add: ts_def locate_def)
  show ?thesis
    using locate_no_alias [OF inv, of 0 1 17 1] inv l
    by (auto simp: p_def ts_def intro!: exI [of _ p] exI [of _ ts])
qed

text \<open>
  The free list is LIFO: the page handed out right after a table is released is the last
  page of that table, the next ones are the rest of the table from its end, and releasing
  then re-allocating the same number of tokens gives the same pages in reverse order.
\<close>

theorem free_then_alloc_lifo:
  assumes "free_table p t = Some (p', t')" "pt_pages t \<noteq> []"
    and "0 < pp_block_slots p" "div_ceil n (pp_block_slots p) = length (pt_pages t)"
  shows "(\<exists>q. alloc_page p' = Ok (last (pt_pages t), q))
    \<and> (\<exists>u q. alloc_tokens p' n = Ok (u, q) \<and> pt_pages u = rev (pt_pages t) \<and> pt_len u = n
         \<and> pp_free q = pp_free p)"
proof -
  have p': "pp_free p' = pp_free p @ pt_pages t" "pp_block_slots p' = pp_block_slots p"
    using assms(1) by (auto simp: free_table_def Let_def split: if_splits)
  have "pop_pages (length (pt_pages t)) [] (pp_free p') = Some (rev (pt_pages t), pp_free p)"
    by (simp add: pop_pages_spec p')
  then show ?thesis using assms(2-4) p' by (simp add: alloc_page_def alloc_tokens_def Let_def)
qed

theorem free_then_alloc_lifo_witness:
  "\<exists>p p' t t' u q. free_table p t = Some (p', t') \<and> alloc_tokens p' 40 = Ok (u, q)
     \<and> pt_pages u = [2, 0, 1]"
proof -
  define p where "p = \<lparr>pp_block_slots = 16, pp_total = 4, pp_free = [3],
                        pp_in_use = 3, pp_allocs = 3, pp_frees = 0\<rparr>"
  define t where "t = \<lparr>pt_pages = [1, 0, 2], pt_len = (48::nat)\<rparr>"
  obtain p' t' where f: "free_table p t = Some (p', t')"
    by (simp add: free_table_def p_def t_def)
  have "div_ceil 40 (pp_block_slots p) = length (pt_pages t)"
    by (simp add: p_def t_def div_ceil_def)
  from free_then_alloc_lifo [OF f _ _ this] f show ?thesis
    by (auto simp: p_def t_def)
qed

end
