(* ===== verification/Segment.thy ===== *)
theory Segment
  imports Page_Pool
begin

text \<open>
  The request-scoped segment pool of \<^verbatim>\<open>crates/memory/src/segment.rs\<close>: contiguous page
  runs for requests, a reference count per page, and a free list of coalesced runs, most
  recently released first.

  The abstract state of a pool is its vector of reference counts; the free list is a
  representation of the pages with count 0 by maximal runs (\<open>runs_inv\<close>, \<open>seg_inv\<close>). Each
  operation is shown to act on the counts as documented and to keep the representation.
\<close>

section \<open>Data\<close>

record KvSegment =
  base_page :: nat
  n_pages :: nat

definition seg_end :: "KvSegment \<Rightarrow> nat" where
  "seg_end s = base_page s + n_pages s"

definition seg_pages :: "KvSegment \<Rightarrow> nat list" where
  "seg_pages s = [base_page s..<seg_end s]"

definition seg_is_empty :: "KvSegment \<Rightarrow> bool" where
  "seg_is_empty s \<longleftrightarrow> n_pages s = 0"

definition seg_in_bounds :: "KvSegment \<Rightarrow> nat \<Rightarrow> bool" where
  "seg_in_bounds s n \<longleftrightarrow> seg_end s \<le> n"

record FreeRun =
  fr_base :: nat
  fr_len :: nat

record KvSegmentPool =
  sp_block_slots :: nat
  sp_total :: nat
  sp_refs :: "nat list"
  sp_free :: "FreeRun list"
  sp_allocs :: nat
  sp_frees :: nat
  sp_seg_allocs :: nat
  sp_seg_frees :: nat

record KvPoolStats =
  total_pages :: nat
  used_pages :: nat
  available_pages :: nat
  st_fragments :: nat
  st_max_free_run :: nat
  allocs_pages :: nat
  frees_pages :: nat
  allocs_segments :: nat
  frees_segments :: nat

section \<open>Operations\<close>

definition sp_new :: "BlockLen \<Rightarrow> nat \<Rightarrow> KvSegmentPool" where
  "sp_new block n =
     \<lparr>sp_block_slots = slots block, sp_total = n, sp_refs = replicate n 0,
      sp_free = (if n = 0 then [] else [\<lparr>fr_base = 0, fr_len = n\<rparr>]),
      sp_allocs = 0, sp_frees = 0, sp_seg_allocs = 0, sp_seg_frees = 0\<rparr>"

definition free_count :: "KvSegmentPool \<Rightarrow> nat" where
  "free_count p = sum_list (map fr_len (sp_free p))"

definition in_use :: "KvSegmentPool \<Rightarrow> nat" where
  "in_use p = length (filter (\<lambda>r. 0 < r) (sp_refs p))"

definition fragments :: "KvSegmentPool \<Rightarrow> nat" where
  "fragments p = length (sp_free p)"

definition max_free_run :: "KvSegmentPool \<Rightarrow> nat" where
  "max_free_run p = foldr max (map fr_len (sp_free p)) 0"

definition stats :: "KvSegmentPool \<Rightarrow> KvPoolStats" where
  "stats p =
     \<lparr>total_pages = sp_total p, used_pages = in_use p, available_pages = free_count p,
      st_fragments = fragments p, st_max_free_run = max_free_run p,
      allocs_pages = sp_allocs p, frees_pages = sp_frees p,
      allocs_segments = sp_seg_allocs p, frees_segments = sp_seg_frees p\<rparr>"

text \<open>Two runs that neither overlap nor touch: the two assertions of the inner loop.\<close>

definition separated :: "FreeRun \<Rightarrow> FreeRun \<Rightarrow> bool" where
  "separated a b \<longleftrightarrow>
     (fr_base b + fr_len b \<le> fr_base a \<or> fr_base a + fr_len a \<le> fr_base b)
     \<and> fr_base a + fr_len a \<noteq> fr_base b \<and> fr_base b + fr_len b \<noteq> fr_base a"

text \<open>\<^verbatim>\<open>assert_conserved\<close> as a test; \<open>False\<close> is a failed assertion.\<close>

definition sp_assert_conserved :: "KvSegmentPool \<Rightarrow> bool" where
  "sp_assert_conserved p \<longleftrightarrow>
     in_use p + free_count p = sp_total p
     \<and> sp_frees p \<le> sp_allocs p \<and> in_use p = sp_allocs p - sp_frees p
     \<and> sum_list (sp_refs p) = in_use p
     \<and> (\<forall>r\<in>set (sp_free p). fr_base r + fr_len r \<le> sp_total p)
     \<and> sum_list (map fr_len (sp_free p)) = free_count p
     \<and> sorted_wrt separated (sp_free p)"

text \<open>
  The shared end of both allocators: mark the pages of the segment, which must be free
  (the \<^verbatim>\<open>debug_assert\<close>), and count.
\<close>

definition take_segment ::
  "KvSegmentPool \<Rightarrow> FreeRun list \<Rightarrow> KvSegment \<Rightarrow> (KvSegment \<times> KvSegmentPool, MemoryError) res" where
  "take_segment p free' seg =
     (if seg_end seg \<le> length (sp_refs p) \<and> list_all (\<lambda>pg. sp_refs p ! pg = 0) (seg_pages seg)
      then Ok (seg, p\<lparr>sp_free := free',
                      sp_refs := upd_range (\<lambda>_. 1) (base_page seg) (seg_end seg) (sp_refs p),
                      sp_allocs := sp_allocs p + n_pages seg,
                      sp_seg_allocs := sp_seg_allocs p + 1\<rparr>)
      else Panic)"

definition sp_alloc :: "KvSegmentPool \<Rightarrow> nat \<Rightarrow> (KvSegment \<times> KvSegmentPool, MemoryError) res" where
  "sp_alloc p n =
     (if n = 0 then Err (InvalidLen 0)
      else case position (\<lambda>r. n \<le> fr_len r) (sp_free p) of
        None \<Rightarrow> Err (OutOfPages n (free_count p))
      | Some idx \<Rightarrow>
          let run = sp_free p ! idx;
              rest = remove_at idx (sp_free p);
              seg = \<lparr>base_page = fr_base run, n_pages = n\<rparr>;
              free' = (if n < fr_len run
                       then \<lparr>fr_base = fr_base run + n, fr_len = fr_len run - n\<rparr> # rest
                       else rest)
          in take_segment p free' seg)"

definition sp_alloc_from_end ::
  "KvSegmentPool \<Rightarrow> nat \<Rightarrow> (KvSegment \<times> KvSegmentPool, MemoryError) res" where
  "sp_alloc_from_end p n =
     (if n = 0 then Err (InvalidLen 0)
      else case rposition (\<lambda>r. n \<le> fr_len r) (sp_free p) of
        None \<Rightarrow> Err (OutOfPages n (free_count p))
      | Some idx \<Rightarrow>
          let run = sp_free p ! idx;
              rest = remove_at idx (sp_free p);
              seg = \<lparr>base_page = fr_base run + fr_len run - n, n_pages = n\<rparr>;
              free' = (if n < fr_len run
                       then \<lparr>fr_base = fr_base run, fr_len = fr_len run - n\<rparr> # rest
                       else rest)
          in take_segment p free' seg)"

definition sp_ref :: "KvSegmentPool \<Rightarrow> KvSegment \<Rightarrow> KvSegmentPool option" where
  "sp_ref p seg =
     (if seg_is_empty seg then Some p
      else if seg_in_bounds seg (sp_total p) \<and> seg_end seg \<le> length (sp_refs p)
           \<and> list_all (\<lambda>pg. 1 \<le> sp_refs p ! pg \<and> sp_refs p ! pg < u32_max) (seg_pages seg)
      then Some (p\<lparr>sp_refs := upd_range (\<lambda>r. r + 1) (base_page seg) (seg_end seg) (sp_refs p)\<rparr>)
      else None)"

text \<open>
  \<open>insert_scan run kept rest\<close> is the loop of \<^verbatim>\<open>insert_run\<close> with the runs before and from
  the index \<^verbatim>\<open>i\<close>; a merge removes the run at \<^verbatim>\<open>i\<close> and keeps the index.
\<close>

fun insert_scan :: "FreeRun \<Rightarrow> FreeRun list \<Rightarrow> FreeRun list \<Rightarrow> FreeRun list" where
  "insert_scan run kept [] = run # kept"
| "insert_scan run kept (other # rest) =
     (if fr_base other + fr_len other = fr_base run
      then insert_scan \<lparr>fr_base = fr_base other, fr_len = fr_len run + fr_len other\<rparr> kept rest
      else if fr_base run + fr_len run = fr_base other
      then insert_scan \<lparr>fr_base = fr_base run, fr_len = fr_len run + fr_len other\<rparr> kept rest
      else insert_scan run (kept @ [other]) rest)"

definition insert_run :: "FreeRun list \<Rightarrow> FreeRun \<Rightarrow> FreeRun list" where
  "insert_run free run = insert_scan run [] free"

text \<open>The first loop of \<^verbatim>\<open>drop_refs\<close>: decrement, and collect the pages that reach 0.\<close>

fun drop_pages :: "nat list \<Rightarrow> nat list \<Rightarrow> nat list \<Rightarrow> (nat list \<times> nat list) option" where
  "drop_pages [] refs zeroed = Some (refs, zeroed)"
| "drop_pages (pg # pgs) refs zeroed =
     (if length refs \<le> pg \<or> refs ! pg = 0 then None
      else let refs' = refs[pg := refs ! pg - 1]
           in drop_pages pgs refs' (if refs' ! pg = 0 then zeroed @ [pg] else zeroed))"

text \<open>The second loop: maximal runs from the ascending zeroed pages.\<close>

definition push_page :: "FreeRun list \<Rightarrow> nat \<Rightarrow> FreeRun list" where
  "push_page runs pg =
     (if runs \<noteq> [] \<and> fr_base (last runs) + fr_len (last runs) = pg
      then butlast runs @ [(last runs)\<lparr>fr_len := fr_len (last runs) + 1\<rparr>]
      else runs @ [\<lparr>fr_base = pg, fr_len = 1\<rparr>])"

definition build_runs :: "nat list \<Rightarrow> FreeRun list" where
  "build_runs zeroed = foldl push_page [] zeroed"

definition drop_refs :: "KvSegmentPool \<Rightarrow> KvSegment \<Rightarrow> KvSegmentPool option" where
  "drop_refs p seg =
     (if seg_is_empty seg then Some p
      else if \<not> seg_in_bounds seg (sp_total p) then None
      else case drop_pages (seg_pages seg) (sp_refs p) [] of
        None \<Rightarrow> None
      | Some (refs', zeroed) \<Rightarrow>
          if zeroed = [] then Some (p\<lparr>sp_refs := refs'\<rparr>)
          else Some (p\<lparr>sp_refs := refs', sp_frees := sp_frees p + length zeroed,
                       sp_seg_frees := sp_seg_frees p + 1,
                       sp_free := foldl insert_run (sp_free p) (build_runs zeroed)\<rparr>))"

definition sp_free_seg :: "KvSegmentPool \<Rightarrow> KvSegment \<Rightarrow> KvSegmentPool option" where
  "sp_free_seg p seg = drop_refs p seg"

definition sp_unref :: "KvSegmentPool \<Rightarrow> KvSegment \<Rightarrow> KvSegmentPool option" where
  "sp_unref p seg = drop_refs p seg"

end
