(* ===== verification/Segment_Inv.thy ===== *)
theory Segment_Inv
  imports Segment
begin

text \<open>
  Correctness of the segment pool: the free list is the list of maximal runs of pages with
  reference count 0, the operations act on the counts as documented, and the pool is a page
  store in the sense of the conservation law.
\<close>

section \<open>Runs\<close>

definition run_set :: "FreeRun \<Rightarrow> nat set" where
  "run_set r = {fr_base r..<fr_base r + fr_len r}"

definition free_set :: "FreeRun list \<Rightarrow> nat set" where
  "free_set fs = (\<Union>r\<in>set fs. run_set r)"

definition runs_inv :: "nat \<Rightarrow> FreeRun list \<Rightarrow> bool" where
  "runs_inv n fs \<longleftrightarrow>
     (\<forall>r\<in>set fs. 0 < fr_len r \<and> fr_base r + fr_len r \<le> n) \<and> sorted_wrt separated fs"

text \<open>Runs that do not overlap, but may touch.\<close>

definition apart :: "FreeRun \<Rightarrow> FreeRun \<Rightarrow> bool" where
  "apart a b \<longleftrightarrow> fr_base b + fr_len b \<le> fr_base a \<or> fr_base a + fr_len a \<le> fr_base b"

lemma separated_sym: "separated a b \<longleftrightarrow> separated b a"
  by (auto simp: separated_def)

lemma free_set_simps [simp]:
  "free_set [] = {}" "free_set (r # fs) = run_set r \<union> free_set fs"
  "free_set (fs @ gs) = free_set fs \<union> free_set gs"
  by (auto simp: free_set_def)

lemma run_set_merge:
  "fr_base o' + fr_len o' = fr_base r \<Longrightarrow>
     run_set \<lparr>fr_base = fr_base o', fr_len = fr_len r + fr_len o'\<rparr> = run_set o' \<union> run_set r"
  "fr_base r + fr_len r = fr_base o' \<Longrightarrow>
     run_set \<lparr>fr_base = fr_base r, fr_len = fr_len r + fr_len o'\<rparr> = run_set o' \<union> run_set r"
  by (auto simp: run_set_def)

lemma insert_scan_set: "free_set (insert_scan run kept rest) = run_set run \<union> free_set kept \<union> free_set rest"
  by (induction run kept rest rule: insert_scan.induct) (auto simp: run_set_merge)

lemma insert_scan_inv:
  assumes "runs_inv n (kept @ rest)" and "0 < fr_len run" and "fr_base run + fr_len run \<le> n"
    and "\<forall>r\<in>set kept. separated run r" and "\<forall>r\<in>set rest. apart run r"
  shows "runs_inv n (insert_scan run kept rest)"
  using assms
proof (induction run kept rest rule: insert_scan.induct)
  case (1 run kept)
  then show ?case by (auto simp: runs_inv_def)
next
  case (2 run kept other rest)
  have base: "runs_inv n (kept @ rest)"
    using "2.prems"(1) by (auto simp: runs_inv_def sorted_wrt_append)
  have o: "0 < fr_len other" "fr_base other + fr_len other \<le> n"
    and ok: "\<forall>r\<in>set kept. separated r other" and orest: "\<forall>r\<in>set rest. separated other r"
    using "2.prems"(1) by (auto simp: runs_inv_def sorted_wrt_append)
  consider (left) "fr_base other + fr_len other = fr_base run"
    | (right) "fr_base other + fr_len other \<noteq> fr_base run" "fr_base run + fr_len run = fr_base other"
    | (none) "fr_base other + fr_len other \<noteq> fr_base run" "fr_base run + fr_len run \<noteq> fr_base other"
    by blast
  then show ?case
  proof cases
    case left
    let ?m = "\<lparr>fr_base = fr_base other, fr_len = fr_len run + fr_len other\<rparr>"
    have "runs_inv n (insert_scan ?m kept rest)"
    proof (rule "2.IH"(1) [OF left base])
      show "\<forall>r\<in>set kept. separated ?m r"
        using ok "2.prems"(2,4) left o by (fastforce simp: separated_def)
      show "\<forall>r\<in>set rest. apart ?m r"
        using orest "2.prems"(2,5) left o by (fastforce simp: separated_def apart_def)
    qed (use "2.prems"(2,3) left in auto)
    with left show ?thesis by simp
  next
    case right
    let ?m = "\<lparr>fr_base = fr_base run, fr_len = fr_len run + fr_len other\<rparr>"
    have "runs_inv n (insert_scan ?m kept rest)"
    proof (rule "2.IH"(2) [OF right base])
      show "\<forall>r\<in>set kept. separated ?m r"
        using ok "2.prems"(2,4) right o by (fastforce simp: separated_def)
      show "\<forall>r\<in>set rest. apart ?m r"
        using orest "2.prems"(2,5) right o by (fastforce simp: separated_def apart_def)
    qed (use "2.prems"(2,3) right o in auto)
    with right show ?thesis by simp
  next
    case none
    have "runs_inv n (insert_scan run (kept @ [other]) rest)"
    proof (rule "2.IH"(3) [OF none])
      show "runs_inv n ((kept @ [other]) @ rest)" using "2.prems"(1) by simp
      have "separated run other"
        using none "2.prems"(5) by (auto simp: separated_def apart_def)
      then show "\<forall>r\<in>set (kept @ [other]). separated run r" using "2.prems"(4) by auto
    qed (use "2.prems" in auto)
    with none show ?thesis by simp
  qed
qed

lemma apart_iff_disjoint:
  "0 < fr_len a \<Longrightarrow> 0 < fr_len b \<Longrightarrow> apart a b \<longleftrightarrow> run_set a \<inter> run_set b = {}"
proof -
  assume pos: "0 < fr_len a" "0 < fr_len b"
  { assume d: "run_set a \<inter> run_set b = {}"
    have "max (fr_base a) (fr_base b) \<notin> run_set a \<inter> run_set b" using d by blast
    then have "apart a b" using pos by (auto simp: apart_def run_set_def max_def split: if_splits) }
  then show ?thesis by (auto simp: apart_def run_set_def)
qed

lemma insert_run_spec:
  assumes "runs_inv n fs" "0 < fr_len run" "fr_base run + fr_len run \<le> n"
    and "run_set run \<inter> free_set fs = {}"
  shows "runs_inv n (insert_run fs run) \<and> free_set (insert_run fs run) = run_set run \<union> free_set fs"
proof -
  have "\<forall>r\<in>set fs. apart run r"
    using assms by (auto simp: apart_iff_disjoint runs_inv_def free_set_def)
  then show ?thesis
    using insert_scan_inv [of n "[]" fs run] assms insert_scan_set [of run "[]" fs]
    by (simp add: insert_run_def)
qed

text \<open>A contiguous interval of free pages lies inside one run: the runs are maximal.\<close>

lemma interval_in_one_run:
  assumes inv: "runs_inv n fs" and sub: "{b..<b + k} \<subseteq> free_set fs" and k: "0 < k"
  shows "\<exists>r\<in>set fs. {b..<b + k} \<subseteq> run_set r"
proof -
  have "b \<in> free_set fs" using sub k by auto
  then obtain r where r: "r \<in> set fs" "b \<in> run_set r" by (auto simp: free_set_def)
  have "b + k \<le> fr_base r + fr_len r"
  proof (rule ccontr)
    let ?e = "fr_base r + fr_len r"
    assume "\<not> b + k \<le> ?e"
    then have "?e \<in> {b..<b + k}" using r(2) by (auto simp: run_set_def)
    then obtain s where s: "s \<in> set fs" "?e \<in> run_set s" using sub by (auto simp: free_set_def)
    then have "r \<noteq> s" by (auto simp: run_set_def)
    then have "separated r s \<or> separated s r"
      using inv r(1) s(1) by (auto simp: runs_inv_def sorted_wrt_iff_nth_less in_set_conv_nth)
        (metis linorder_neqE_nat)
    then show False using s(2) r(2) by (auto simp: separated_def run_set_def)
  qed
  then show ?thesis using r by (auto simp: run_set_def intro!: bexI [of _ r])
qed

lemma card_run_set [simp]: "card (run_set r) = fr_len r"
  by (simp add: run_set_def)

lemma finite_run_set [simp]: "finite (run_set r)"
  by (simp add: run_set_def)

lemma finite_free_set [simp]: "finite (free_set fs)"
  by (simp add: free_set_def)

lemma separated_disjoint: "separated a b \<Longrightarrow> run_set a \<inter> run_set b = {}"
  by (auto simp: separated_def run_set_def)

lemma card_free_set: "sorted_wrt separated fs \<Longrightarrow> card (free_set fs) = sum_list (map fr_len fs)"
proof (induction fs)
  case (Cons r fs)
  have "run_set r \<inter> free_set fs = {}"
    using Cons.prems by (auto simp: free_set_def dest: separated_disjoint)
  with Cons show ?case by (simp add: card_Un_disjoint)
qed simp

lemma free_set_bound: "runs_inv n fs \<Longrightarrow> free_set fs \<subseteq> {..<n}"
  by (force simp: runs_inv_def free_set_def run_set_def)

section \<open>The invariant of the pool\<close>

definition seg_inv :: "KvSegmentPool \<Rightarrow> bool" where
  "seg_inv p \<longleftrightarrow>
     length (sp_refs p) = sp_total p
     \<and> runs_inv (sp_total p) (sp_free p)
     \<and> (\<forall>i < sp_total p. sp_refs p ! i = 0 \<longleftrightarrow> i \<in> free_set (sp_free p))
     \<and> (\<forall>r\<in>set (sp_refs p). r \<le> u32_max)
     \<and> sp_allocs p = sp_frees p + in_use p"

text \<open>The reference count of a page, 0 outside the pool.\<close>

definition rc :: "KvSegmentPool \<Rightarrow> nat \<Rightarrow> nat" where
  "rc p i = (if i < length (sp_refs p) then sp_refs p ! i else 0)"

lemma in_use_card: "in_use p = card {i. 0 < rc p i}"
proof -
  have "{i. 0 < rc p i} = {i. i < length (sp_refs p) \<and> 0 < sp_refs p ! i}"
    by (auto simp: rc_def)
  then show ?thesis by (simp add: in_use_def length_filter_conv_card)
qed

lemma free_count_card: "runs_inv n (sp_free p) \<Longrightarrow> free_count p = card (free_set (sp_free p))"
  by (simp add: free_count_def card_free_set runs_inv_def)

lemma seg_inv_free_set: "seg_inv p \<Longrightarrow> free_set (sp_free p) = {i. i < sp_total p \<and> rc p i = 0}"
  using free_set_bound [of "sp_total p" "sp_free p"]
  by (auto simp: seg_inv_def rc_def)

lemma seg_inv_conserve: "seg_inv p \<Longrightarrow> in_use p + free_count p = sp_total p"
proof -
  assume inv: "seg_inv p"
  have used: "{i. 0 < rc p i} \<subseteq> {..<sp_total p}"
    using inv by (auto simp: rc_def seg_inv_def split: if_splits)
  have "free_set (sp_free p) = {..<sp_total p} - {i. 0 < rc p i}"
    unfolding seg_inv_free_set [OF inv] by auto
  then have "card (free_set (sp_free p)) = sp_total p - card {i. 0 < rc p i}"
    using used by (simp add: card_Diff_subset finite_subset)
  moreover have "card {i. 0 < rc p i} \<le> sp_total p"
    using card_mono [OF _ used] by simp
  ultimately show ?thesis
    using free_count_card [of "sp_total p" p] inv by (simp add: in_use_card seg_inv_def)
qed

lemma seg_inv_rc_le: "seg_inv p \<Longrightarrow> rc p i \<le> u32_max"
  by (simp add: seg_inv_def rc_def)

lemma seg_inv_new: "seg_inv (sp_new b n)"
  by (auto simp: seg_inv_def sp_new_def runs_inv_def run_set_def in_use_def)

text \<open>To establish the invariant it is enough to describe the counts and the free set.\<close>

lemma seg_invI:
  assumes "length (sp_refs p) = sp_total p" "runs_inv (sp_total p) (sp_free p)"
    and "free_set (sp_free p) = {i. i < sp_total p \<and> rc p i = 0}"
    and "\<And>i. rc p i \<le> u32_max"
    and "sp_allocs p = sp_frees p + card {i. 0 < rc p i}"
  shows "seg_inv p"
  unfolding seg_inv_def
proof (intro conjI)
  show "\<forall>i < sp_total p. sp_refs p ! i = 0 \<longleftrightarrow> i \<in> free_set (sp_free p)"
    using assms(1,3) by (auto simp: rc_def)
  show "\<forall>r\<in>set (sp_refs p). r \<le> u32_max"
    using assms(4) by (auto simp: in_set_conv_nth rc_def) (metis (full_types))
qed (use assms in_use_card in auto)

section \<open>Allocation\<close>

lemma remove_at_related:
  assumes "sorted_wrt R xs" "\<And>a b. R a b \<longleftrightarrow> R b a" "i < length xs" "y \<in> set (remove_at i xs)"
  shows "R (xs ! i) y"
proof -
  have "sorted_wrt R (take i xs @ xs ! i # drop (Suc i) xs)"
    using assms(1,3) by (simp add: id_take_nth_drop [symmetric])
  then show ?thesis using assms(2,4) by (auto simp: sorted_wrt_append remove_at_def)
qed

lemma runs_inv_remove_at: "runs_inv n fs \<Longrightarrow> runs_inv n (remove_at i fs)"
  using remove_at_set_subset [of i fs] by (auto simp: runs_inv_def sorted_wrt_remove_at)

lemma free_set_remove_at:
  assumes "runs_inv n fs" "i < length fs"
  shows "free_set (remove_at i fs) = free_set fs - run_set (fs ! i)"
proof -
  have "set fs = insert (fs ! i) (set (remove_at i fs))"
    using remove_at_mset [OF assms(2)] by (metis set_mset_add_mset_insert set_mset_mset)
  then have "free_set fs = run_set (fs ! i) \<union> free_set (remove_at i fs)"
    by (simp add: free_set_def)
  moreover have "run_set (fs ! i) \<inter> free_set (remove_at i fs) = {}"
    using remove_at_related [OF _ separated_sym assms(2)] assms(1) separated_disjoint
    by (fastforce simp: free_set_def runs_inv_def)
  ultimately show ?thesis by auto
qed

text \<open>Replacing a run by a part of it keeps the runs separated.\<close>

lemma carve_run:
  assumes inv: "runs_inv n fs" and i: "i < length fs"
    and part: "fr_base (fs ! i) \<le> fr_base r" "fr_base r + fr_len r \<le> fr_base (fs ! i) + fr_len (fs ! i)"
    and pos: "0 < fr_len r"
  shows "runs_inv n (r # remove_at i fs)"
proof -
  have "separated r o'" if "o' \<in> set (remove_at i fs)" for o'
  proof -
    have "separated (fs ! i) o'"
      using remove_at_related [where R = separated, OF _ separated_sym i that] inv by (simp add: runs_inv_def)
    moreover have "0 < fr_len o'"
      using that remove_at_set_subset [of i fs] inv by (auto simp: runs_inv_def)
    ultimately show ?thesis using part pos by (auto simp: separated_def)
  qed
  moreover have "fr_base r + fr_len r \<le> n"
    using part inv nth_mem [OF i] by (fastforce simp: runs_inv_def)
  ultimately show ?thesis using runs_inv_remove_at [OF inv, of i] pos by (auto simp: runs_inv_def)
qed

lemma set_seg_pages [simp]: "set (seg_pages s) = {base_page s..<seg_end s}"
  by (simp add: seg_pages_def)

lemma rc_upd_range:
  "seg_end seg \<le> length (sp_refs p) \<Longrightarrow>
     rc (p\<lparr>sp_refs := upd_range f (base_page seg) (seg_end seg) (sp_refs p)\<rparr>) i =
       (if i \<in> set (seg_pages seg) then f (rc p i) else rc p i)"
  by (auto simp: rc_def)

lemma rc_cong: "sp_refs p = sp_refs q \<Longrightarrow> rc p = rc q"
  by (simp add: rc_def fun_eq_iff)

text \<open>What both allocators promise: see \<open>sp_alloc_spec\<close>.\<close>

definition alloc_post :: "KvSegmentPool \<Rightarrow> nat \<Rightarrow> KvSegment \<Rightarrow> KvSegmentPool \<Rightarrow> bool" where
  "alloc_post p n seg p' \<longleftrightarrow>
     n_pages seg = n \<and> seg_end seg \<le> sp_total p
     \<and> (\<forall>i\<in>set (seg_pages seg). rc p i = 0)
     \<and> rc p' = (\<lambda>i. if i \<in> set (seg_pages seg) then 1 else rc p i)
     \<and> sp_total p' = sp_total p \<and> seg_inv p'"

lemma take_segment_spec:
  assumes inv: "seg_inv p" and n: "0 < n_pages seg" and bound: "seg_end seg \<le> sp_total p"
    and free: "\<forall>i\<in>set (seg_pages seg). rc p i = 0"
    and runs: "runs_inv (sp_total p) free'"
    and fset: "free_set free' = free_set (sp_free p) - set (seg_pages seg)"
  shows "\<exists>p'. take_segment p free' seg = Ok (seg, p') \<and> alloc_post p (n_pages seg) seg p'"
proof -
  have len: "length (sp_refs p) = sp_total p" using inv by (simp add: seg_inv_def)
  define p' where "p' = p\<lparr>sp_free := free',
      sp_refs := upd_range (\<lambda>_. 1) (base_page seg) (seg_end seg) (sp_refs p),
      sp_allocs := sp_allocs p + n_pages seg, sp_seg_allocs := sp_seg_allocs p + 1\<rparr>"
  have ok: "take_segment p free' seg = Ok (seg, p')"
    using free bound len by (auto simp: take_segment_def p'_def list_all_iff rc_def)
  have rc': "rc p' i = (if i \<in> set (seg_pages seg) then 1 else rc p i)" for i
    using rc_upd_range [of seg p "\<lambda>_. 1" i] bound len by (simp add: p'_def rc_def)
  have "{i. 0 < rc p' i} = {i. 0 < rc p i} \<union> set (seg_pages seg)"
    and dis: "{i. 0 < rc p i} \<inter> set (seg_pages seg) = {}"
    using free by (auto simp: rc')
  moreover have "finite {i. 0 < rc p i}"
    by (rule finite_subset [of _ "{..<length (sp_refs p)}"]) (auto simp: rc_def split: if_splits)
  ultimately have card: "card {i. 0 < rc p' i} = card {i. 0 < rc p i} + n_pages seg"
    by (simp add: card_Un_disjoint seg_end_def)
  have "seg_inv p'"
  proof (rule seg_invI)
    have fields: "sp_free p' = free'" "sp_total p' = sp_total p" by (simp_all add: p'_def)
    show "free_set (sp_free p') = {i. i < sp_total p' \<and> rc p' i = 0}"
      unfolding fields fset seg_inv_free_set [OF inv] by (auto simp: rc')
    show "rc p' i \<le> u32_max" for i
      using seg_inv_rc_le [OF inv, of i] by (simp add: rc' u32_max_def)
    have "sp_allocs p = sp_frees p + card {i. 0 < rc p i}"
      using inv by (simp add: seg_inv_def flip: in_use_card)
    moreover have "sp_allocs p' = sp_allocs p + n_pages seg" "sp_frees p' = sp_frees p"
      by (simp_all add: p'_def)
    ultimately show "sp_allocs p' = sp_frees p' + card {i. 0 < rc p' i}"
      by (simp add: card)
  qed (use runs len in \<open>auto simp: p'_def\<close>)
  then show ?thesis using ok bound free rc' by (auto simp: alloc_post_def p'_def)
qed

text \<open>Both allocators carve \<open>n\<close> pages off one end of a run and keep the remainder.\<close>

lemma carve_segment:
  assumes inv: "seg_inv p" and i: "idx < length (sp_free p)" and run: "sp_free p ! idx = run"
    and n: "0 < n" "n \<le> fr_len run"
    and ends: "b = fr_base run \<and> rb = fr_base run + n
               \<or> b = fr_base run + fr_len run - n \<and> rb = fr_base run"
    and free': "free' = (if n < fr_len run
        then \<lparr>fr_base = rb, fr_len = fr_len run - n\<rparr> # remove_at idx (sp_free p)
        else remove_at idx (sp_free p))"
    and seg: "seg = \<lparr>base_page = b, n_pages = n\<rparr>"
  shows "\<exists>p'. take_segment p free' seg = Ok (seg, p') \<and> alloc_post p n seg p'"
proof -
  have runs: "runs_inv (sp_total p) (sp_free p)" using inv by (simp add: seg_inv_def)
  have run_in: "run \<in> set (sp_free p)" using i run by auto
  have in_run: "set (seg_pages seg) \<subseteq> run_set run"
    using n ends by (auto simp: seg seg_end_def run_set_def)
  have run_free: "run_set run \<subseteq> free_set (sp_free p)" using run_in by (auto simp: free_set_def)
  have "\<exists>p'. take_segment p free' seg = Ok (seg, p') \<and> alloc_post p (n_pages seg) seg p'"
  proof (rule take_segment_spec [OF inv])
    show "\<forall>i\<in>set (seg_pages seg). rc p i = 0"
      using in_run run_free unfolding seg_inv_free_set [OF inv] by blast
    have "fr_base run + fr_len run \<le> sp_total p" using runs run_in by (auto simp: runs_inv_def)
    then show "seg_end seg \<le> sp_total p" using ends n by (auto simp: seg_end_def seg)
    show "runs_inv (sp_total p) free'"
      using carve_run [OF runs i, of "\<lparr>fr_base = rb, fr_len = fr_len run - n\<rparr>"]
        runs_inv_remove_at [OF runs] ends n by (auto simp: free' run)
    have "run_set run = set (seg_pages seg) \<union>
        (if n < fr_len run then run_set \<lparr>fr_base = rb, fr_len = fr_len run - n\<rparr> else {})"
      "set (seg_pages seg) \<inter>
        (if n < fr_len run then run_set \<lparr>fr_base = rb, fr_len = fr_len run - n\<rparr> else {}) = {}"
      using ends n by (auto simp: seg seg_end_def run_set_def)
    then show "free_set free' = free_set (sp_free p) - set (seg_pages seg)"
      using free_set_remove_at [OF runs i] run_free by (auto simp: free' run split: if_splits)
  qed (use n seg in simp)
  then show ?thesis by (simp add: seg)
qed

text \<open>The result of \<open>sp_alloc\<close>: it never panics, and it fails only when no run is long enough.\<close>

lemma sp_alloc_cases:
  assumes inv: "seg_inv p"
  obtains (zero) "n = 0" "sp_alloc p n = Err (InvalidLen 0)"
  | (full) "0 < n" "\<forall>r\<in>set (sp_free p). fr_len r < n" "sp_alloc p n = Err (OutOfPages n (free_count p))"
  | (ok) seg p' where "0 < n" "sp_alloc p n = Ok (seg, p')" "alloc_post p n seg p'"
proof (cases "n = 0 \<or> (\<forall>r\<in>set (sp_free p). fr_len r < n)")
  case True
  then show ?thesis
    using zero full position_None [of "\<lambda>r. n \<le> fr_len r" "sp_free p"]
    by (cases "n = 0") (auto simp: sp_alloc_def not_le)
next
  case False
  then obtain idx where idx: "position (\<lambda>r. n \<le> fr_len r) (sp_free p) = Some idx"
    using position_None [of "\<lambda>r. n \<le> fr_len r" "sp_free p"] by (auto simp: not_le)
  from position_Some [OF idx] have i: "idx < length (sp_free p)" "n \<le> fr_len (sp_free p ! idx)"
    by auto
  have n: "0 < n" using False by simp
  from carve_segment [OF inv i(1) refl n i(2) disjI1 [OF conjI [OF refl refl]] refl refl]
  have "\<exists>seg p'. sp_alloc p n = Ok (seg, p') \<and> alloc_post p n seg p'"
    using n idx by (auto simp: sp_alloc_def Let_def)
  then show ?thesis using ok [OF n] by blast
qed

lemma sp_alloc_from_end_cases:
  assumes inv: "seg_inv p"
  obtains (zero) "n = 0" "sp_alloc_from_end p n = Err (InvalidLen 0)"
  | (full) "0 < n" "\<forall>r\<in>set (sp_free p). fr_len r < n"
      "sp_alloc_from_end p n = Err (OutOfPages n (free_count p))"
  | (ok) seg p' where "0 < n" "sp_alloc_from_end p n = Ok (seg, p')" "alloc_post p n seg p'"
proof (cases "n = 0 \<or> (\<forall>r\<in>set (sp_free p). fr_len r < n)")
  case True
  then show ?thesis
    using zero full rposition_None [of "\<lambda>r. n \<le> fr_len r" "sp_free p"]
    by (cases "n = 0") (auto simp: sp_alloc_from_end_def not_le)
next
  case False
  then obtain idx where idx: "rposition (\<lambda>r. n \<le> fr_len r) (sp_free p) = Some idx"
    using rposition_None [of "\<lambda>r. n \<le> fr_len r" "sp_free p"] by (auto simp: not_le)
  from rposition_Some [OF idx] have i: "idx < length (sp_free p)" "n \<le> fr_len (sp_free p ! idx)"
    by auto
  have n: "0 < n" using False by simp
  from carve_segment [OF inv i(1) refl n i(2) disjI2 [OF conjI [OF refl refl]] refl refl]
  have "\<exists>seg p'. sp_alloc_from_end p n = Ok (seg, p') \<and> alloc_post p n seg p'"
    using n idx by (auto simp: sp_alloc_from_end_def Let_def)
  then show ?thesis using ok [OF n] by blast
qed

lemma sp_alloc_post: "seg_inv p \<Longrightarrow> sp_alloc p n = Ok (seg, p') \<Longrightarrow> 0 < n \<and> alloc_post p n seg p'"
  by (erule sp_alloc_cases [of p n]) auto

lemma sp_alloc_from_end_post:
  "seg_inv p \<Longrightarrow> sp_alloc_from_end p n = Ok (seg, p') \<Longrightarrow> 0 < n \<and> alloc_post p n seg p'"
  by (erule sp_alloc_from_end_cases [of p n]) auto

section \<open>Sharing and release\<close>

lemma seg_pages_empty: "seg_is_empty seg \<Longrightarrow> seg_pages seg = []"
  by (simp add: seg_is_empty_def seg_pages_def seg_end_def)

lemma sp_ref_spec:
  assumes inv: "seg_inv p" and b: "seg_end seg \<le> sp_total p"
    and live: "\<forall>i\<in>set (seg_pages seg). 1 \<le> rc p i \<and> rc p i < u32_max"
  shows "\<exists>p'. sp_ref p seg = Some p' \<and> seg_inv p' \<and> sp_total p' = sp_total p
    \<and> rc p' = (\<lambda>i. if i \<in> set (seg_pages seg) then rc p i + 1 else rc p i)"
proof (cases "seg_is_empty seg")
  case True
  then show ?thesis using inv by (simp add: sp_ref_def seg_pages_empty fun_eq_iff
      del: set_seg_pages)
next
  case False
  have len: "length (sp_refs p) = sp_total p" using inv by (simp add: seg_inv_def)
  define p' where "p' = p\<lparr>sp_refs := upd_range (\<lambda>r. r + 1) (base_page seg) (seg_end seg) (sp_refs p)\<rparr>"
  have ok: "sp_ref p seg = Some p'"
    using False b live len by (auto simp: sp_ref_def p'_def seg_in_bounds_def list_all_iff rc_def)
  have rc': "rc p' i = (if i \<in> set (seg_pages seg) then rc p i + 1 else rc p i)" for i
    using rc_upd_range [of seg p "\<lambda>r. r + 1" i] b len by (simp add: p'_def)
  have fields: "sp_free p' = sp_free p" "sp_total p' = sp_total p" "length (sp_refs p') = sp_total p"
      "sp_allocs p' = sp_allocs p" "sp_frees p' = sp_frees p"
    using len by (simp_all add: p'_def)
  have zero: "rc p' i = 0 \<longleftrightarrow> rc p i = 0" for i using live by (auto simp: rc' Suc_le_eq)
  then have pos: "0 < rc p' i \<longleftrightarrow> 0 < rc p i" for i by (metis neq0_conv)
  have "seg_inv p'"
  proof (rule seg_invI)
    show "free_set (sp_free p') = {i. i < sp_total p' \<and> rc p' i = 0}"
      unfolding fields seg_inv_free_set [OF inv] by (simp add: zero)
    show "rc p' i \<le> u32_max" for i
      using seg_inv_rc_le [OF inv, of i] live by (auto simp: rc' Suc_le_eq)
    show "sp_allocs p' = sp_frees p' + card {i. 0 < rc p' i}"
      using inv by (simp add: pos fields seg_inv_def flip: in_use_card)
  qed (use inv in \<open>auto simp: fields seg_inv_def\<close>)
  then show ?thesis using ok rc' fields by auto
qed

lemma drop_pages_spec:
  assumes "distinct pgs" "\<forall>g\<in>set pgs. g < length refs \<and> 0 < refs ! g"
  shows "drop_pages pgs refs z =
    Some (map (\<lambda>i. if i \<in> set pgs then refs ! i - 1 else refs ! i) [0..<length refs],
          z @ filter (\<lambda>g. refs ! g = 1) pgs)"
  using assms
proof (induction pgs arbitrary: refs z)
  case Nil
  then show ?case by (simp add: map_nth)
next
  case (Cons g pgs)
  let ?refs = "refs[g := refs ! g - 1]"
  have pre: "\<forall>h\<in>set pgs. h < length ?refs \<and> 0 < ?refs ! h"
    using Cons.prems by (auto simp: nth_list_update)
  have fil: "filter (\<lambda>h. ?refs ! h = 1) pgs = filter (\<lambda>h. refs ! h = 1) pgs"
    using Cons.prems by (intro filter_cong) (auto simp: nth_list_update)
  have m: "map (\<lambda>i. if i \<in> set pgs then ?refs ! i - 1 else ?refs ! i) [0..<length ?refs]
      = map (\<lambda>i. if i \<in> set (g # pgs) then refs ! i - 1 else refs ! i) [0..<length refs]"
    using Cons.prems by (auto simp: nth_list_update)
  have g: "g < length refs" "0 < refs ! g" using Cons.prems by auto
  have "drop_pages (g # pgs) refs z = drop_pages pgs ?refs (if refs ! g = 1 then z @ [g] else z)"
    using g by (auto simp: Let_def)
  then show ?case
    unfolding Cons.IH [OF _ pre, simplified distinct.simps] using Cons.prems(1) m fil
      Cons.IH [OF _ pre] by simp
qed

lemma drop_pages_None:
  "distinct pgs \<Longrightarrow> \<exists>g\<in>set pgs. length refs \<le> g \<or> refs ! g = 0 \<Longrightarrow> drop_pages pgs refs z = None"
proof (induction pgs arbitrary: refs z)
  case (Cons g pgs)
  show ?case
  proof (cases "length refs \<le> g \<or> refs ! g = 0")
    case False
    then obtain h where "h \<in> set pgs" "length refs \<le> h \<or> refs ! h = 0"
      using Cons.prems(2) by auto
    moreover have "h \<noteq> g" using Cons.prems(1) \<open>h \<in> set pgs\<close> by auto
    ultimately have "drop_pages pgs (refs[g := v]) z' = None" for v z'
      using Cons.prems(1) by (intro Cons.IH bexI [of _ h]) auto
    then show ?thesis by (simp add: Let_def)
  qed simp
qed simp

definition ascending_runs :: "FreeRun list \<Rightarrow> bool" where
  "ascending_runs rs \<longleftrightarrow>
     (\<forall>r\<in>set rs. 0 < fr_len r) \<and> sorted_wrt (\<lambda>a b. fr_base a + fr_len a < fr_base b) rs"

lemma build_runs_snoc: "build_runs (ps @ [pg]) = push_page (build_runs ps) pg"
  by (simp add: build_runs_def)

lemma build_runs_spec:
  "sorted_wrt (<) ps \<Longrightarrow> ascending_runs (build_runs ps) \<and> free_set (build_runs ps) = set ps"
proof (induction ps rule: rev_induct)
  case Nil
  then show ?case by (simp add: build_runs_def ascending_runs_def)
next
  case (snoc pg ps)
  let ?rs = "build_runs ps"
  from snoc have IH: "ascending_runs ?rs" "free_set ?rs = set ps" and lt: "\<forall>x\<in>set ps. x < pg"
    by (auto simp: sorted_wrt_append)
  have le: "fr_base r + fr_len r \<le> pg" if "r \<in> set ?rs" for r
  proof -
    have "fr_base r + fr_len r - 1 \<in> free_set ?rs"
      using that IH(1) by (force simp: free_set_def run_set_def ascending_runs_def)
    then show ?thesis using lt IH(2) by auto
  qed
  show ?case
  proof (cases "?rs \<noteq> [] \<and> fr_base (last ?rs) + fr_len (last ?rs) = pg")
    case True
    then obtain rs r where rs: "?rs = rs @ [r]" by (metis append_butlast_last_id)
    then have e: "fr_base r + fr_len r = pg" using True by simp
    then have "run_set (r\<lparr>fr_len := fr_len r + 1\<rparr>) = insert pg (run_set r)"
      by (auto simp: run_set_def)
    then show ?thesis using IH True
      by (auto simp: build_runs_snoc push_page_def rs ascending_runs_def sorted_wrt_append)
  next
    case False
    have "fr_base r + fr_len r < pg" if "r \<in> set ?rs" for r
    proof -
      have "?rs \<noteq> []" using that by auto
      then obtain rs l where rs: "?rs = rs @ [l]" by (metis append_butlast_last_id)
      have "fr_base l + fr_len l < pg" using False le [of l] rs by auto
      moreover have "r = l \<or> fr_base r + fr_len r < fr_base l"
        using that IH(1) rs by (auto simp: ascending_runs_def sorted_wrt_append)
      ultimately show ?thesis by auto
    qed
    moreover have "build_runs (ps @ [pg]) = ?rs @ [\<lparr>fr_base = pg, fr_len = 1\<rparr>]"
      unfolding build_runs_snoc push_page_def using False by (rule if_not_P)
    moreover have "run_set \<lparr>fr_base = pg, fr_len = 1\<rparr> = {pg}" by (auto simp: run_set_def)
    ultimately show ?thesis using IH by (simp add: ascending_runs_def sorted_wrt_append)
  qed
qed

lemma insert_runs_spec:
  assumes "runs_inv n fs" "ascending_runs rs" "free_set rs \<subseteq> {..<n}" "free_set rs \<inter> free_set fs = {}"
  shows "runs_inv n (foldl insert_run fs rs)
    \<and> free_set (foldl insert_run fs rs) = free_set rs \<union> free_set fs"
  using assms
proof (induction rs arbitrary: fs)
  case (Cons r rs)
  have r: "0 < fr_len r" "ascending_runs rs" "\<forall>s\<in>set rs. run_set r \<inter> run_set s = {}"
    using Cons.prems(2) by (fastforce simp: ascending_runs_def run_set_def)+
  have "fr_base r + fr_len r - 1 \<in> run_set r" using r(1) by (auto simp: run_set_def)
  then have "fr_base r + fr_len r - 1 < n" using Cons.prems(3) by auto
  then have step: "runs_inv n (insert_run fs r) \<and> free_set (insert_run fs r) = run_set r \<union> free_set fs"
    using Cons.prems r by (intro insert_run_spec) auto
  have "runs_inv n (foldl insert_run (insert_run fs r) rs)
    \<and> free_set (foldl insert_run (insert_run fs r) rs) = free_set rs \<union> free_set (insert_run fs r)"
    using step Cons.prems r by (intro Cons.IH) (auto simp: free_set_def)
  then show ?case using step by auto
qed auto

lemma drop_refs_spec:
  assumes inv: "seg_inv p" and b: "seg_end seg \<le> sp_total p"
    and live: "\<forall>i\<in>set (seg_pages seg). 1 \<le> rc p i"
  shows "\<exists>p'. drop_refs p seg = Some p' \<and> seg_inv p' \<and> sp_total p' = sp_total p
    \<and> rc p' = (\<lambda>i. if i \<in> set (seg_pages seg) then rc p i - 1 else rc p i)"
proof (cases "seg_is_empty seg")
  case True
  then show ?thesis using inv by (simp add: drop_refs_def seg_pages_empty fun_eq_iff
      del: set_seg_pages)
next
  case False
  have len: "length (sp_refs p) = sp_total p" using inv by (simp add: seg_inv_def)
  let ?pgs = "seg_pages seg"
  let ?refs = "map (\<lambda>i. if i \<in> set ?pgs then sp_refs p ! i - 1 else sp_refs p ! i) [0..<sp_total p]"
  let ?z = "filter (\<lambda>g. sp_refs p ! g = 1) ?pgs"
  have dp: "drop_pages ?pgs (sp_refs p) [] = Some (?refs, ?z)"
    using drop_pages_spec [of ?pgs "sp_refs p" "[]"] b live len
    by (auto simp: seg_pages_def rc_def Suc_le_eq)
  have asc: "sorted_wrt (<) ?z" by (simp add: seg_pages_def sorted_wrt_filter)
  have zset: "set ?z = {i \<in> set ?pgs. rc p i = 1}" using b len by (auto simp: rc_def)
  note runs = build_runs_spec [OF asc]
  define p' where "p' = p\<lparr>sp_refs := ?refs, sp_frees := sp_frees p + length ?z,
      sp_seg_frees := sp_seg_frees p + (if ?z = [] then 0 else 1),
      sp_free := foldl insert_run (sp_free p) (build_runs ?z)\<rparr>"
  have ok: "drop_refs p seg = Some p'"
    using False b dp by (auto simp: drop_refs_def p'_def seg_in_bounds_def build_runs_def
        simp del: filter_empty_conv)
  have fields: "sp_total p' = sp_total p" "length (sp_refs p') = sp_total p"
      "sp_free p' = foldl insert_run (sp_free p) (build_runs ?z)"
      "sp_allocs p' = sp_allocs p" "sp_frees p' = sp_frees p + length ?z"
    by (simp_all add: p'_def)
  have rc': "rc p' i = (if i \<in> set ?pgs then rc p i - 1 else rc p i)" for i
    using b len by (auto simp: rc_def p'_def)
  have ins: "runs_inv (sp_total p) (foldl insert_run (sp_free p) (build_runs ?z))
    \<and> free_set (foldl insert_run (sp_free p) (build_runs ?z)) = free_set (build_runs ?z) \<union> free_set (sp_free p)"
  proof (rule insert_runs_spec)
    have z: "free_set (build_runs ?z) = {i \<in> set ?pgs. rc p i = 1}" using runs zset by simp
    show "free_set (build_runs ?z) \<inter> free_set (sp_free p) = {}"
      unfolding z seg_inv_free_set [OF inv] by auto
    show "free_set (build_runs ?z) \<subseteq> {..<sp_total p}"
      unfolding z using b by auto
    show "ascending_runs (build_runs ?z)" using runs by simp
    show "runs_inv (sp_total p) (sp_free p)" using inv by (simp add: seg_inv_def)
  qed
  have fin: "finite {i. 0 < rc p i}"
    by (rule finite_subset [of _ "{..<length (sp_refs p)}"]) (auto simp: rc_def split: if_splits)
  have "{i. 0 < rc p' i} = {i. 0 < rc p i} - set ?z" and "set ?z \<subseteq> {i. 0 < rc p i}"
    unfolding zset using live by (auto simp: rc' simp del: set_seg_pages)
  moreover have "card (set ?z) = length ?z" by (rule distinct_card) (simp add: seg_pages_def)
  ultimately have card: "card {i. 0 < rc p i} = card {i. 0 < rc p' i} + length ?z"
    using card_mono [OF fin, of "set ?z"] by (simp add: card_Diff_subset)
  have "seg_inv p'"
  proof (rule seg_invI)
    show "free_set (sp_free p') = {i. i < sp_total p' \<and> rc p' i = 0}"
    proof -
      have "free_set (sp_free p') = {i \<in> set ?pgs. rc p i = 1} \<union> {i. i < sp_total p \<and> rc p i = 0}"
        using ins runs by (simp only: fields zset seg_inv_free_set [OF inv])
      also have "\<dots> = {i. i < sp_total p' \<and> rc p' i = 0}"
        using b live by (auto simp: fields rc')
      finally show ?thesis .
    qed
    show "rc p' i \<le> u32_max" for i
      using seg_inv_rc_le [OF inv, of i] by (auto simp: rc')
    have "sp_allocs p = sp_frees p + card {i. 0 < rc p i}"
      using inv by (simp add: seg_inv_def flip: in_use_card)
    then show "sp_allocs p' = sp_frees p' + card {i. 0 < rc p' i}"
      using card by (simp only: fields)
  qed (use ins fields in simp_all)
  then show ?thesis using ok rc' fields by auto
qed

lemma drop_refs_None_iff:
  assumes inv: "seg_inv p" and ne: "\<not> seg_is_empty seg"
  shows "drop_refs p seg = None \<longleftrightarrow>
    sp_total p < seg_end seg \<or> (\<exists>i\<in>set (seg_pages seg). rc p i = 0)"
proof
  assume "drop_refs p seg = None"
  then show "sp_total p < seg_end seg \<or> (\<exists>i\<in>set (seg_pages seg). rc p i = 0)"
    using drop_refs_spec [OF inv, of seg] by (fastforce simp: not_less Suc_le_eq)
next
  assume "sp_total p < seg_end seg \<or> (\<exists>i\<in>set (seg_pages seg). rc p i = 0)"
  then show "drop_refs p seg = None"
  proof
    assume "sp_total p < seg_end seg"
    then show ?thesis using ne by (simp add: drop_refs_def seg_in_bounds_def)
  next
    assume "\<exists>i\<in>set (seg_pages seg). rc p i = 0"
    then have "\<exists>g\<in>set (seg_pages seg). length (sp_refs p) \<le> g \<or> sp_refs p ! g = 0"
      by (metis linorder_not_le rc_def)
    then have "drop_pages (seg_pages seg) (sp_refs p) [] = None"
      by (intro drop_pages_None) (auto simp: seg_pages_def)
    then show ?thesis using ne by (simp add: drop_refs_def)
  qed
qed

section \<open>The pool as a page store and as a reference-counted pool\<close>

inductive seg_step :: "KvSegmentPool \<Rightarrow> KvSegmentPool \<Rightarrow> bool" where
  step_alloc: "sp_alloc p n = Ok (seg, p') \<Longrightarrow> seg_step p p'"
| step_alloc_end: "sp_alloc_from_end p n = Ok (seg, p') \<Longrightarrow> seg_step p p'"
| step_ref: "sp_ref p seg = Some p' \<Longrightarrow> seg_step p p'"
| step_drop: "drop_refs p seg = Some p' \<Longrightarrow> seg_step p p'"

inductive_cases seg_stepE: "seg_step p p'"

lemma sp_ref_Some_pre:
  "seg_inv p \<Longrightarrow> sp_ref p seg = Some p' \<Longrightarrow> \<not> seg_is_empty seg \<Longrightarrow>
     seg_end seg \<le> sp_total p \<and> (\<forall>i\<in>set (seg_pages seg). 1 \<le> rc p i \<and> rc p i < u32_max)"
  by (auto simp: sp_ref_def seg_in_bounds_def list_all_iff rc_def split: if_splits)

lemma seg_step_inv: "seg_step p p' \<Longrightarrow> seg_inv p \<Longrightarrow> seg_inv p' \<and> sp_total p' = sp_total p"
proof (induction rule: seg_step.induct)
  case (step_alloc p n seg p')
  then show ?case by (auto dest: sp_alloc_post simp: alloc_post_def)
next
  case (step_alloc_end p n seg p')
  then show ?case by (auto dest: sp_alloc_from_end_post simp: alloc_post_def)
next
  case (step_ref p seg p')
  then show ?case
    using sp_ref_Some_pre [of p seg p'] sp_ref_spec [of p seg]
    by (cases "seg_is_empty seg") (auto simp: sp_ref_def)
next
  case (step_drop p seg p')
  then show ?case
    using drop_refs_None_iff [of p seg] drop_refs_spec [of p seg]
    by (cases "seg_is_empty seg") (auto simp: drop_refs_def Suc_le_eq not_less)
qed

interpretation seg_store: page_store seg_inv seg_step in_use free_count sp_total
  by unfold_locales (auto dest: seg_step_inv seg_inv_conserve)

interpretation seg_refs: ref_pool seg_inv sp_total rc "\<lambda>s. set (seg_pages s)" sp_ref sp_unref u32_max
proof unfold_locales
  fix p g
  assume inv: "seg_inv p"
    and pre: "\<forall>i\<in>set (seg_pages g). i < sp_total p \<and> 1 \<le> rc p i \<and> rc p i < u32_max"
  show "\<exists>p'. sp_ref p g = Some p' \<and> seg_inv p' \<and> sp_total p' = sp_total p
      \<and> rc p' = (\<lambda>i. if i \<in> set (seg_pages g) then rc p i + 1 else rc p i)"
  proof (cases "seg_is_empty g")
    case True
    then show ?thesis using inv by (simp add: sp_ref_def seg_pages_empty del: set_seg_pages)
  next
    case False
    then have "seg_end g - 1 \<in> set (seg_pages g)" by (auto simp: seg_is_empty_def seg_end_def)
    then have "seg_end g \<le> sp_total p" using pre by fastforce
    then show ?thesis using sp_ref_spec [OF inv, of g] pre by blast
  qed
next
  fix p g
  assume inv: "seg_inv p" and pre: "\<forall>i\<in>set (seg_pages g). i < sp_total p \<and> 1 \<le> rc p i"
  show "\<exists>p'. sp_unref p g = Some p' \<and> seg_inv p' \<and> sp_total p' = sp_total p
      \<and> rc p' = (\<lambda>i. if i \<in> set (seg_pages g) then rc p i - 1 else rc p i)"
  proof (cases "seg_is_empty g")
    case True
    then show ?thesis
      using inv by (simp add: sp_unref_def drop_refs_def seg_pages_empty del: set_seg_pages)
  next
    case False
    then have "seg_end g - 1 \<in> set (seg_pages g)" by (auto simp: seg_is_empty_def seg_end_def)
    then have "seg_end g \<le> sp_total p" using pre by fastforce
    then show ?thesis using drop_refs_spec [OF inv, of g] pre unfolding sp_unref_def by blast
  qed
next
  fix p i
  assume "seg_inv p" "0 < rc p i"
  then show "i < sp_total p" by (auto simp: rc_def seg_inv_def split: if_splits)
qed

section \<open>The free list is canonical\<close>

lemma runs_unique:
  assumes f: "runs_inv n fs" and g: "runs_inv m gs" and eq: "free_set fs = free_set gs"
  shows "set fs \<subseteq> set gs"
proof
  fix r assume r: "r \<in> set fs"
  have pos: "0 < fr_len r" using f r by (simp add: runs_inv_def)
  have "run_set r \<subseteq> free_set gs" using r eq by (auto simp: free_set_def)
  then obtain s where s: "s \<in> set gs" "run_set r \<subseteq> run_set s"
    using interval_in_one_run [OF g _ pos, of "fr_base r"] by (auto simp: run_set_def)
  have pos_s: "0 < fr_len s" using g s by (simp add: runs_inv_def)
  moreover have "run_set s \<subseteq> free_set fs" using s eq by (auto simp: free_set_def)
  ultimately obtain t where t: "t \<in> set fs" "run_set s \<subseteq> run_set t"
    using interval_in_one_run [OF f, of "fr_base s" "fr_len s"] by (auto simp: run_set_def)
  have "r = t"
  proof (rule ccontr)
    assume "r \<noteq> t"
    then have "separated r t \<or> separated t r"
      using f r t(1) by (auto simp: runs_inv_def sorted_wrt_iff_nth_less in_set_conv_nth)
        (metis linorder_neqE_nat)
    then have "run_set r \<inter> run_set t = {}" by (auto dest: separated_disjoint)
    then have "run_set r = {}" using s(2) t(2) by auto
    then show False using pos by (simp add: run_set_def)
  qed
  then have "run_set r = run_set s" using s(2) t(2) by auto
  then have "fr_base r = fr_base s \<and> fr_len r = fr_len s"
    using pos pos_s atLeastLessThan_eq_iff
      [of "fr_base r" "fr_base r + fr_len r" "fr_base s" "fr_base s + fr_len s"]
    by (simp add: run_set_def)
  then have "r = s" by (intro FreeRun.equality) auto
  then show "r \<in> set gs" using s(1) by simp
qed

lemma runs_unique_eq:
  "runs_inv n fs \<Longrightarrow> runs_inv m gs \<Longrightarrow> free_set fs = free_set gs \<Longrightarrow> set fs = set gs"
  using runs_unique by (metis subset_antisym)

lemma seg_inv_refs_eq:
  assumes "seg_inv p" "seg_inv q" "sp_total p = sp_total q" "rc p = rc q"
  shows "sp_refs p = sp_refs q \<and> set (sp_free p) = set (sp_free q)"
proof
  show "sp_refs p = sp_refs q"
  proof (rule nth_equalityI)
    show "length (sp_refs p) = length (sp_refs q)" using assms by (simp add: seg_inv_def)
    then show "sp_refs p ! i = sp_refs q ! i" if "i < length (sp_refs p)" for i
      using that fun_cong [OF assms(4), of i] by (simp add: rc_def)
  qed
  have "free_set (sp_free p) = free_set (sp_free q)"
    using seg_inv_free_set [OF assms(1)] seg_inv_free_set [OF assms(2)] assms(3,4) by simp
  then show "set (sp_free p) = set (sp_free q)"
    using assms(1,2) by (intro runs_unique_eq) (auto simp: seg_inv_def)
qed

lemma max_free_run_ge_iff: "0 < n \<Longrightarrow> n \<le> max_free_run p \<longleftrightarrow> (\<exists>r\<in>set (sp_free p). n \<le> fr_len r)"
proof -
  assume n: "0 < n"
  have "n \<le> foldr max (map fr_len fs) 0 \<longleftrightarrow> (\<exists>r\<in>set fs. n \<le> fr_len r)" for fs :: "FreeRun list"
    using n by (induction fs) (auto simp: le_max_iff_disj)
  then show ?thesis by (simp add: max_free_run_def)
qed

section \<open>Properties\<close>

text \<open>
  C9: Any sequence of allocations, shares and releases on a fresh pool of \<open>n\<close> pages that does
  not trip an assertion keeps the conservation laws: pages in use plus free pages are the
  \<open>n\<close> pages, pages in use are pages allocated minus pages released, the free runs are in
  bounds, never overlap or touch, and cover exactly the pages with reference count 0.
\<close>

theorem seg_pool_conserved:
  assumes "seg_step\<^sup>*\<^sup>* (sp_new b n) p"
  shows "in_use p + free_count p = n \<and> sp_total p = n \<and> in_use p = sp_allocs p - sp_frees p
    \<and> sorted_wrt separated (sp_free p) \<and> (\<forall>r\<in>set (sp_free p). fr_base r + fr_len r \<le> n)
    \<and> free_set (sp_free p) = {i. i < n \<and> sp_refs p ! i = 0}"
proof -
  have tot: "sp_total (sp_new b n) = n" by (simp add: sp_new_def)
  have inv: "seg_inv p" and "in_use p + free_count p = n" and t: "sp_total p = n"
    using seg_store.run_inv [OF assms seg_inv_new] seg_store.run_conserve [OF assms seg_inv_new]
      seg_store.run_cap [OF assms seg_inv_new] tot by auto
  moreover have "free_set (sp_free p) = {i. i < n \<and> sp_refs p ! i = 0}"
    using inv t unfolding seg_inv_free_set [OF inv] by (auto simp: rc_def seg_inv_def)
  ultimately show ?thesis by (auto simp: seg_inv_def runs_inv_def)
qed

theorem seg_pool_conserved_witness:
  "\<exists>p. seg_step\<^sup>*\<^sup>* (sp_new B32 6) p \<and> in_use p = 1 \<and> in_use p + free_count p = 6 \<and> fragments p = 2"
proof -
  define s where "s = (\<lambda>b n. \<lparr>base_page = b, n_pages = n\<rparr> :: KvSegment)"
  define p1 where "p1 = (case sp_alloc (sp_new B32 6) 3 of Ok (_, q) \<Rightarrow> q | _ \<Rightarrow> sp_new B32 6)"
  define p2 where "p2 = p1\<lparr>sp_refs := [1, 2, 1, 0, 0, 0]\<rparr>"
  define p3 where "p3 = the (drop_refs p2 (s 0 3))"
  have p1: "sp_alloc (sp_new B32 6) 3 = Ok (s 0 3, p1)" unfolding p1_def s_def by code_simp
  have refs1: "sp_refs p1 = [1, 1, 1, 0, 0, 0]" "sp_total p1 = 6" unfolding p1_def by code_simp+
  have p2: "sp_ref p1 (s 1 1) = Some p2"
    by (simp add: p2_def s_def refs1 sp_ref_def seg_is_empty_def seg_in_bounds_def seg_end_def
        seg_pages_def u32_max_def upd_range_def upt_rec_numeral)
  have p3: "drop_refs p2 (s 0 3) = Some p3" unfolding p3_def p2_def p1_def s_def by code_simp
  have run: "seg_step\<^sup>*\<^sup>* (sp_new B32 6) p3"
    by (rule converse_rtranclp_into_rtranclp [OF step_alloc [OF p1]
        converse_rtranclp_into_rtranclp [OF step_ref [OF p2]
        r_into_rtranclp [of seg_step, OF step_drop [OF p3]]]])
  have "in_use p3 = 1" "fragments p3 = 2" unfolding p3_def p2_def p1_def s_def by code_simp+
  then show ?thesis using run seg_pool_conserved [OF run] by auto
qed

text \<open>
  C10: Allocation is complete: on every reachable pool a request for \<open>n > 0\<close> pages succeeds
  exactly when some \<open>n\<close> contiguous pages are free, that is when \<open>n\<close> is at most
  \<open>max_free_run\<close>; it returns \<open>n\<close> in-bounds pages that nobody held, sets their counts to 1
  and leaves the other counts alone. Otherwise it is \<^verbatim>\<open>OutOfPages\<close> with the free total.
\<close>

theorem alloc_iff_contiguous:
  assumes inv: "seg_inv p" and n: "0 < n"
  shows "(case sp_alloc p n of
      Ok (seg, p') \<Rightarrow> (\<exists>b. b + n \<le> sp_total p \<and> (\<forall>i\<in>{b..<b + n}. rc p i = 0))
         \<and> n \<le> max_free_run p \<and> n_pages seg = n \<and> seg_end seg \<le> sp_total p
         \<and> (\<forall>i\<in>set (seg_pages seg). rc p i = 0)
         \<and> rc p' = (\<lambda>i. if i \<in> set (seg_pages seg) then 1 else rc p i) \<and> seg_inv p'
    | Err e \<Rightarrow> e = OutOfPages n (free_count p) \<and> max_free_run p < n
         \<and> \<not> (\<exists>b. b + n \<le> sp_total p \<and> (\<forall>i\<in>{b..<b + n}. rc p i = 0))
    | Panic \<Rightarrow> False)"
proof (rule sp_alloc_cases [OF inv, of n])
  assume full: "\<forall>r\<in>set (sp_free p). fr_len r < n" and r: "sp_alloc p n = Err (OutOfPages n (free_count p))"
  have runs: "runs_inv (sp_total p) (sp_free p)" using inv by (simp add: seg_inv_def)
  have "\<not> (\<forall>i\<in>{b..<b + n}. rc p i = 0)" if "b + n \<le> sp_total p" for b
  proof
    assume "\<forall>i\<in>{b..<b + n}. rc p i = 0"
    then have "{b..<b + n} \<subseteq> free_set (sp_free p)"
      using that unfolding seg_inv_free_set [OF inv] by auto
    from interval_in_one_run [OF runs this n] obtain r
      where "r \<in> set (sp_free p)" "{b..<b + n} \<subseteq> run_set r" by blast
    then have "n \<le> fr_len r" using card_mono [of "run_set r" "{b..<b + n}"] by simp
    then show False using full \<open>r \<in> set (sp_free p)\<close> by auto
  qed
  moreover have "max_free_run p < n" using full max_free_run_ge_iff [OF n, of p] by (meson not_le)
  ultimately show ?thesis using r by auto
next
  fix seg p'
  assume ok: "sp_alloc p n = Ok (seg, p')" and post: "alloc_post p n seg p'"
  have "\<exists>b. b + n \<le> sp_total p \<and> (\<forall>i\<in>{b..<b + n}. rc p i = 0)"
    using post by (auto simp: alloc_post_def seg_end_def intro!: exI [of _ "base_page seg"])
  moreover have "n \<le> max_free_run p"
    using ok n position_Some unfolding max_free_run_ge_iff [OF n]
    by (fastforce simp: sp_alloc_def split: option.splits dest: nth_mem)
  ultimately show ?thesis using ok post by (auto simp: alloc_post_def)
qed (use n in simp)

theorem alloc_iff_contiguous_witness:
  "\<exists>p. seg_inv p \<and> sp_alloc p 3 = Err (OutOfPages 3 4) \<and> free_count p = 4"
proof -
  define p1 where "p1 = (case sp_alloc (sp_new B32 5) 2 of Ok (_, q) \<Rightarrow> q | _ \<Rightarrow> sp_new B32 5)"
  define p2 where "p2 = (case sp_alloc p1 1 of Ok (_, q) \<Rightarrow> q | _ \<Rightarrow> p1)"
  define p where "p = the (drop_refs p2 \<lparr>base_page = 0, n_pages = 2\<rparr>)"
  have a1: "sp_alloc (sp_new B32 5) 2 = Ok (\<lparr>base_page = 0, n_pages = 2\<rparr>, p1)"
    unfolding p1_def by code_simp
  have a2: "sp_alloc p1 1 = Ok (\<lparr>base_page = 2, n_pages = 1\<rparr>, p2)"
    unfolding p2_def p1_def by code_simp
  have a3: "drop_refs p2 \<lparr>base_page = 0, n_pages = 2\<rparr> = Some p"
    unfolding p_def p2_def p1_def by code_simp
  have "seg_step\<^sup>*\<^sup>* (sp_new B32 5) p"
    by (rule converse_rtranclp_into_rtranclp [OF step_alloc [OF a1]
        converse_rtranclp_into_rtranclp [OF step_alloc [OF a2]
        r_into_rtranclp [of seg_step, OF step_drop [OF a3]]]])
  then have inv: "seg_inv p" using seg_store.run_inv seg_inv_new by blast
  have "sp_alloc p 3 = Err (OutOfPages 3 4)" "free_count p = 4"
    unfolding p_def p2_def p1_def by code_simp+
  then show ?thesis using inv alloc_iff_contiguous [OF inv, of 3] by auto
qed

text \<open>
  C11: Releasing the segment just allocated restores the pool: the reference counts are those
  from before, and the free list is the same set of coalesced runs.
\<close>

theorem alloc_free_roundtrip:
  assumes inv: "seg_inv p" and ok: "sp_alloc p n = Ok (seg, p')"
  shows "\<exists>p''. sp_free_seg p' seg = Some p'' \<and> sp_refs p'' = sp_refs p
    \<and> set (sp_free p'') = set (sp_free p) \<and> in_use p'' = in_use p \<and> free_count p'' = free_count p"
proof -
  have post: "alloc_post p n seg p'" using sp_alloc_post [OF inv ok] by simp
  then obtain p'' where d: "drop_refs p' seg = Some p''" "seg_inv p''" "sp_total p'' = sp_total p'"
    and rc: "rc p'' = (\<lambda>i. if i \<in> set (seg_pages seg) then rc p' i - 1 else rc p' i)"
    using drop_refs_spec [of p' seg] by (auto simp: alloc_post_def simp del: set_seg_pages)
  have "rc p'' = rc p" using post rc by (auto simp: alloc_post_def fun_eq_iff)
  moreover have tot: "sp_total p'' = sp_total p" using d post by (simp add: alloc_post_def)
  ultimately have "sp_refs p'' = sp_refs p" "set (sp_free p'') = set (sp_free p)"
    and "in_use p'' = in_use p"
    using seg_inv_refs_eq [OF d(2) inv] by (auto simp: in_use_card)
  then show ?thesis
    using d tot seg_inv_conserve [OF inv] seg_inv_conserve [OF d(2)] by (auto simp: sp_free_seg_def)
qed

theorem alloc_free_roundtrip_witness:
  "\<exists>seg p' p''. sp_alloc (sp_new B16 8) 3 = Ok (seg, p') \<and> sp_free_seg p' seg = Some p''
     \<and> sp_refs p'' = replicate 8 0"
proof -
  obtain seg p' where ok: "sp_alloc (sp_new B16 8) 3 = Ok (seg, p')"
    by (rule sp_alloc_cases [OF seg_inv_new [of B16 8], of 3]) (auto simp: sp_new_def)
  have "sp_refs (sp_new B16 8) = replicate 8 0" by (simp add: sp_new_def)
  with alloc_free_roundtrip [OF seg_inv_new ok] ok show ?thesis by auto
qed

lemma ref_then_drop:
  assumes inv: "seg_inv p" and share: "sp_ref p seg = Some p1"
  shows "\<exists>p2. drop_refs p1 seg = Some p2 \<and> sp_refs p2 = sp_refs p \<and> sp_free p2 = sp_free p
      \<and> sp_frees p2 = sp_frees p"
proof (cases "seg_is_empty seg")
  case True
  then show ?thesis using share by (simp add: sp_ref_def drop_refs_def)
next
  case False
  note pre = sp_ref_Some_pre [OF inv share False]
  have p1: "p1 = p\<lparr>sp_refs := upd_range (\<lambda>r. r + 1) (base_page seg) (seg_end seg) (sp_refs p)\<rparr>"
    using share False by (auto simp: sp_ref_def split: if_splits)
  have len: "length (sp_refs p) = sp_total p" using inv by (simp add: seg_inv_def)
  have z: "filter (\<lambda>g. sp_refs p1 ! g = 1) (seg_pages seg) = []"
    using pre len by (auto simp: p1 filter_empty_conv rc_def)
  have "drop_pages (seg_pages seg) (sp_refs p1) [] = Some (sp_refs p, [])"
    using drop_pages_spec [of "seg_pages seg" "sp_refs p1" "[]"] pre len z
    by (auto simp: p1 seg_pages_def intro!: nth_equalityI)
  then have "drop_refs p1 seg = Some (p1\<lparr>sp_refs := sp_refs p\<rparr>)"
    using False pre by (simp add: drop_refs_def seg_in_bounds_def p1)
  then show ?thesis by (simp add: p1)
qed

text \<open>What a release does to the counts and to the free pages.\<close>

lemma drop_refs_effect:
  assumes inv: "seg_inv p" and ok: "drop_refs p seg = Some q"
  shows "seg_inv q" "rc q i = (if i \<in> set (seg_pages seg) then rc p i - 1 else rc p i)"
    "free_set (sp_free q) = free_set (sp_free p) \<union> {i \<in> set (seg_pages seg). rc p i = 1}"
    "free_count q = free_count p + card {i \<in> set (seg_pages seg). rc p i = 1}"
proof -
  have pre: "seg_end seg \<le> sp_total p \<and> (\<forall>i\<in>set (seg_pages seg). 1 \<le> rc p i)" if "\<not> seg_is_empty seg"
    using drop_refs_None_iff [OF inv that] ok by (auto simp: not_less Suc_le_eq)
  have d: "seg_inv q \<and> sp_total q = sp_total p
      \<and> rc q = (\<lambda>i. if i \<in> set (seg_pages seg) then rc p i - 1 else rc p i)"
  proof (cases "seg_is_empty seg")
    case True
    then show ?thesis using ok inv by (simp add: drop_refs_def seg_pages_empty del: set_seg_pages)
  next
    case False
    then show ?thesis using drop_refs_spec [OF inv, of seg] pre ok by simp
  qed
  then show "seg_inv q" "rc q i = (if i \<in> set (seg_pages seg) then rc p i - 1 else rc p i)" by auto
  have live: "i < sp_total p \<and> 1 \<le> rc p i" if i: "i \<in> set (seg_pages seg)" for i
    using pre seg_pages_empty i by (cases "seg_is_empty seg") auto
  show set: "free_set (sp_free q) = free_set (sp_free p) \<union> {i \<in> set (seg_pages seg). rc p i = 1}"
    using d live inv by (auto simp: seg_inv_free_set simp del: set_seg_pages dest: live)
  have "free_set (sp_free p) \<inter> {i \<in> set (seg_pages seg). rc p i = 1} = {}"
    by (auto simp: seg_inv_free_set [OF inv])
  then show "free_count q = free_count p + card {i \<in> set (seg_pages seg). rc p i = 1}"
    using free_count_card [of "sp_total p" p] free_count_card [of "sp_total q" q] inv d set
    unfolding seg_inv_def by (auto simp: card_Un_disjoint simp del: set_seg_pages)
qed

text \<open>
  C12: A release takes one holder off every page of the segment and off no other, and keeps the
  invariant; the pages given back are exactly those whose last holder it was, so a page of the
  segment that is still shared (a prefix another request holds) stays in use when its
  neighbours are freed. \<^verbatim>\<open>ref_\<close> followed by a release is the identity, and a release
  panics exactly for a segment out of bounds or with a page that nobody holds.
\<close>

theorem shared_release_keeps_pages:
  assumes inv: "seg_inv p"
  shows "sp_unref p seg = sp_free_seg p seg
    \<and> (case sp_free_seg p seg of
         None \<Rightarrow> \<not> seg_is_empty seg \<and> (sp_total p < seg_end seg \<or> (\<exists>i\<in>set (seg_pages seg). rc p i = 0))
       | Some q \<Rightarrow> seg_inv q
           \<and> (\<forall>i. rc q i = (if i \<in> set (seg_pages seg) then rc p i - 1 else rc p i))
           \<and> (\<forall>i\<in>set (seg_pages seg). 1 \<le> rc p i)
           \<and> free_set (sp_free q) = free_set (sp_free p) \<union> {i \<in> set (seg_pages seg). rc p i = 1}
           \<and> free_count q = free_count p + card {i \<in> set (seg_pages seg). rc p i = 1})
    \<and> (\<forall>p1. sp_ref p seg = Some p1 \<longrightarrow>
         (\<exists>p2. sp_free_seg p1 seg = Some p2 \<and> sp_refs p2 = sp_refs p \<and> sp_free p2 = sp_free p
           \<and> sp_frees p2 = sp_frees p))"
proof (intro conjI allI impI)
  show "sp_unref p seg = sp_free_seg p seg" by (simp add: sp_unref_def sp_free_seg_def)
  have ne: "1 \<le> rc p i" if "drop_refs p seg = Some q" "i \<in> set (seg_pages seg)" for q i
    using drop_refs_None_iff [OF inv, of seg] seg_pages_empty [of seg] that
    by (cases "seg_is_empty seg") (auto simp: Suc_le_eq simp del: set_seg_pages)
  have "\<not> seg_is_empty seg" if "drop_refs p seg = None"
    using that by (auto simp: drop_refs_def)
  then show "case sp_free_seg p seg of
         None \<Rightarrow> \<not> seg_is_empty seg \<and> (sp_total p < seg_end seg \<or> (\<exists>i\<in>set (seg_pages seg). rc p i = 0))
       | Some q \<Rightarrow> seg_inv q
           \<and> (\<forall>i. rc q i = (if i \<in> set (seg_pages seg) then rc p i - 1 else rc p i))
           \<and> (\<forall>i\<in>set (seg_pages seg). 1 \<le> rc p i)
           \<and> free_set (sp_free q) = free_set (sp_free p) \<union> {i \<in> set (seg_pages seg). rc p i = 1}
           \<and> free_count q = free_count p + card {i \<in> set (seg_pages seg). rc p i = 1}"
    unfolding sp_free_seg_def
    using drop_refs_None_iff [OF inv, of seg] drop_refs_effect [OF inv, of seg] ne
    by (cases "drop_refs p seg") (simp_all del: set_seg_pages One_nat_def)
qed (use ref_then_drop [OF inv] in \<open>simp add: sp_free_seg_def\<close>)

text \<open>
  Three pages, the first two of them shared: the release of the whole frees the third only.
\<close>

theorem shared_release_keeps_pages_witness:
  "\<exists>p q. seg_inv p \<and> sp_free_seg p \<lparr>base_page = 0, n_pages = 3\<rparr> = Some q
     \<and> rc q 0 = 1 \<and> rc q 1 = 1 \<and> rc q 2 = 0 \<and> free_count p = 5 \<and> free_count q = 6"
proof -
  define p1 where "p1 = (case sp_alloc (sp_new B16 8) 3 of Ok (_, q) \<Rightarrow> q | _ \<Rightarrow> sp_new B16 8)"
  have a: "sp_alloc (sp_new B16 8) 3 = Ok (\<lparr>base_page = 0, n_pages = 3\<rparr>, p1)"
    unfolding p1_def by code_simp
  have refs: "sp_refs p1 = [1, 1, 1, 0, 0, 0, 0, 0]" and total1: "sp_total p1 = 8" and free1: "free_count p1 = 5"
    unfolding p1_def by code_simp+
  have inv1: "seg_inv p1" using seg_step_inv [OF step_alloc [OF a]] seg_inv_new by blast
  have c1: "rc p1 0 = 1 \<and> rc p1 1 = 1 \<and> rc p1 2 = 1" by (simp add: rc_def refs)
  have "\<forall>i\<in>set (seg_pages \<lparr>base_page = 0, n_pages = 2\<rparr>). 1 \<le> rc p1 i \<and> rc p1 i < u32_max"
  proof
    fix i assume "i \<in> set (seg_pages \<lparr>base_page = 0, n_pages = 2\<rparr>)"
    then have "i = 0 \<or> i = 1" by (auto simp: seg_end_def)
    then have "rc p1 i = 1" using c1 by auto
    moreover have "1 < u32_max" by (simp add: u32_max_def)
    ultimately show "1 \<le> rc p1 i \<and> rc p1 i < u32_max" by linarith
  qed
  with sp_ref_spec [OF inv1, of "\<lparr>base_page = 0, n_pages = 2\<rparr>"] obtain p where
    r: "sp_ref p1 \<lparr>base_page = 0, n_pages = 2\<rparr> = Some p" and inv: "seg_inv p" and total: "sp_total p = 8"
    and rc: "rc p = (\<lambda>i. if i = 1 \<or> i = 0 then rc p1 i + 1 else rc p1 i)"
    by (auto simp: total1 seg_end_def numeral_2_eq_2 atLeast0_lessThan_Suc)
  have c: "rc p 0 = 2 \<and> rc p 1 = 2 \<and> rc p 2 = 1" using c1 by (simp add: rc)
  have free: "free_count p = 5" using r free1 by (auto simp: sp_ref_def free_count_def split: if_splits)
  have pages: "set (seg_pages \<lparr>base_page = 0, n_pages = 3\<rparr>) = {0, 1, 2}"
    by (auto simp: seg_end_def)
  have one: "{i. (i = 0 \<or> i = 1 \<or> i = 2) \<and> rc p i = 1} = {2}" using c by auto
  note release = shared_release_keeps_pages [OF inv, of "\<lparr>base_page = 0, n_pages = 3\<rparr>"]
  have "sp_free_seg p \<lparr>base_page = 0, n_pages = 3\<rparr> \<noteq> None"
    using release c by (cases "sp_free_seg p \<lparr>base_page = 0, n_pages = 3\<rparr>")
      (auto simp: pages total seg_end_def simp del: set_seg_pages)
  then obtain q where q: "sp_free_seg p \<lparr>base_page = 0, n_pages = 3\<rparr> = Some q" by blast
  then have "rc q 0 = 1 \<and> rc q 1 = 1 \<and> rc q 2 = 0 \<and> free_count q = 6"
    using release c free by (simp add: pages one [simplified] del: set_seg_pages)
  then show ?thesis using q inv free by blast
qed

lemma sum_list_refs_le: "(\<And>r. r \<in> set xs \<Longrightarrow> r \<le> (1::nat)) \<Longrightarrow> sum_list xs = length (filter (\<lambda>r. 0 < r) xs)"
  by (induction xs) (auto simp: le_Suc_eq)

lemma length_filter_pos_le_sum: "length (filter (\<lambda>r. 0 < r) xs) \<le> sum_list (xs :: nat list)"
  by (induction xs) auto

lemma sum_list_refs_eq:
  "sum_list xs = length (filter (\<lambda>r. 0 < r) xs) \<Longrightarrow> r \<in> set xs \<Longrightarrow> r \<le> (1::nat)"
proof (induction xs)
  case (Cons x xs)
  then show ?case using length_filter_pos_le_sum [of xs] by (cases "x = 0") auto
qed simp

text \<open>The conservation assertion holds exactly when no page is shared.\<close>

lemma assert_conserved_iff:
  assumes q: "seg_inv q"
  shows "sp_assert_conserved q \<longleftrightarrow> (\<forall>i. rc q i \<le> 1)"
proof -
  have "sp_assert_conserved q \<longleftrightarrow> sum_list (sp_refs q) = in_use q"
    using q seg_inv_conserve [OF q]
    by (auto simp: sp_assert_conserved_def seg_inv_def runs_inv_def free_count_def)
  also have "\<dots> \<longleftrightarrow> (\<forall>r\<in>set (sp_refs q). r \<le> 1)"
    unfolding in_use_def using sum_list_refs_le sum_list_refs_eq by blast
  also have "\<dots> \<longleftrightarrow> (\<forall>i. rc q i \<le> 1)"
    by (auto simp: rc_def all_set_conv_all_nth)
  finally show ?thesis .
qed

text \<open>
  The assertion the module calls its conservation check is stronger than the conservation
  laws: on a pool that satisfies all of them it holds exactly when no page is shared, because
  it also compares the sum of the reference counts with the number of pages in use. After a
  legal \<^verbatim>\<open>ref_\<close> of a non-empty segment it fails.
\<close>

theorem assert_conserved_iff_unshared:
  assumes inv: "seg_inv p"
  shows "(sp_assert_conserved p \<longleftrightarrow> (\<forall>i. rc p i \<le> 1))
    \<and> (\<forall>seg p'. sp_ref p seg = Some p' \<and> \<not> seg_is_empty seg \<longrightarrow> \<not> sp_assert_conserved p')"
proof -
  have "\<not> sp_assert_conserved p'" if r: "sp_ref p seg = Some p'" and ne: "\<not> seg_is_empty seg" for seg p'
  proof -
    note pre = sp_ref_Some_pre [OF inv r ne]
    have b: "base_page seg \<in> set (seg_pages seg)" using ne by (simp add: seg_is_empty_def seg_end_def)
    have "seg_inv p'" "rc p' (base_page seg) = rc p (base_page seg) + 1"
      using sp_ref_spec [OF inv, of seg] pre r b by (auto simp del: set_seg_pages)
    moreover have "1 \<le> rc p (base_page seg)" using pre b by blast
    ultimately show ?thesis using assert_conserved_iff [of p'] by (metis add_leD2 add_le_cancel_right not_one_le_zero le_zero_eq add_0)
  qed
  then show ?thesis using assert_conserved_iff [OF inv] by blast
qed

theorem assert_conserved_iff_unshared_witness:
  "seg_inv (sp_new B16 4) \<and> sp_assert_conserved (sp_new B16 4)"
proof -
  have "\<forall>i. rc (sp_new B16 4) i \<le> 1" by (simp add: rc_def sp_new_def)
  then show ?thesis
    using assert_conserved_iff_unshared [OF seg_inv_new [of B16 4]] seg_inv_new by blast
qed

end
