(* ===== verification/Float_Round.thy ===== *)
theory Float_Round
  imports Complex_Main "HOL-Library.Log_Nat"
begin

text \<open>
  The part of IEEE 754 arithmetic the code relies on: non-negative finite values, rounded to
  nearest with ties to even. A value of precision \<open>p\<close> (53 for \<^verbatim>\<open>f64\<close>, 24 for
  \<^verbatim>\<open>f32\<close>) is the rational number it denotes; each operation is the exact rational
  operation followed by \<open>rnd p\<close>. Overflow to infinity and subnormal results do not occur
  for the magnitudes the code computes with (counts below \<open>2 ^ 64\<close> and their ratios), so
  the exponent range is not modelled.
\<close>

definition exp2 :: "int \<Rightarrow> rat" where
  "exp2 e = (if 0 \<le> e then 2 ^ nat e else 1 / 2 ^ nat (- e))"

text \<open>The exponent of the leading bit of a positive rational.\<close>

definition ilog2 :: "rat \<Rightarrow> int" where
  "ilog2 x = (let (a, b) = quotient_of x; e = bitlen a - bitlen b
              in if x < exp2 e then e - 1 else e)"

text \<open>Round to a multiple of \<open>2 ^ e\<close>, ties to the even multiple.\<close>

definition rnd_at :: "int \<Rightarrow> rat \<Rightarrow> rat" where
  "rnd_at e x = (let y = x / exp2 e; q = \<lfloor>y\<rfloor>; r = y - of_int q
      in of_int (if 1 / 2 < r \<or> (r = 1 / 2 \<and> odd q) then q + 1 else q) * exp2 e)"

definition rnd :: "nat \<Rightarrow> rat \<Rightarrow> rat" where
  "rnd p x = (if x \<le> 0 then 0 else rnd_at (ilog2 x - int p + 1) x)"

definition f64 :: "rat \<Rightarrow> rat" where
  "f64 = rnd 53"

definition f32 :: "rat \<Rightarrow> rat" where
  "f32 = rnd 24"

text \<open>\<^verbatim>\<open>x as u64\<close> truncates towards zero and saturates; \<^verbatim>\<open>x.round()\<close> rounds half up.\<close>

definition to_u64 :: "rat \<Rightarrow> nat" where
  "to_u64 x = min (nat \<lfloor>x\<rfloor>) (2 ^ 64 - 1)"

definition round_half_up :: "rat \<Rightarrow> rat" where
  "round_half_up x = of_int \<lfloor>x + 1 / 2\<rfloor>"

lemma exp2_pos [simp]: "0 < exp2 e"
  by (simp add: exp2_def)

lemma exp2_nonzero [simp]: "exp2 e \<noteq> 0"
  using exp2_pos [of e] by linarith

lemma rnd_at_nonneg:
  assumes "0 \<le> x"
  shows "0 \<le> rnd_at e x"
proof -
  have "0 \<le> \<lfloor>x / exp2 e\<rfloor>" using assms by (simp add: less_imp_le)
  then show ?thesis unfolding rnd_at_def Let_def
    by (intro mult_nonneg_nonneg) (auto simp: less_imp_le)
qed

lemma rnd_nonneg [simp]: "0 \<le> rnd p x"
  by (simp add: rnd_def rnd_at_nonneg)

lemma f64_nonneg [simp]: "0 \<le> f64 x" and f32_nonneg [simp]: "0 \<le> f32 x"
  by (simp_all add: f64_def f32_def)

text \<open>Rounding at a fixed exponent is monotone and moves a value by at most half a unit.\<close>

lemma rnd_at_mono: "x \<le> y \<Longrightarrow> rnd_at e x \<le> rnd_at e y"
proof -
  assume le: "x \<le> y"
  define u v where "u = x / exp2 e" and "v = y / exp2 e"
  define R where "R = (\<lambda>z::rat. if 1 / 2 < z - of_int \<lfloor>z\<rfloor> \<or> (z - of_int \<lfloor>z\<rfloor> = 1 / 2 \<and> odd \<lfloor>z\<rfloor>)
      then \<lfloor>z\<rfloor> + 1 else \<lfloor>z\<rfloor>)"
  have uv: "u \<le> v" using le by (simp add: u_def v_def divide_right_mono less_imp_le)
  have "R u \<le> R v"
  proof (cases "\<lfloor>u\<rfloor> = \<lfloor>v\<rfloor>")
    case True
    then show ?thesis using uv by (auto simp: R_def)
  next
    case False
    then have "\<lfloor>u\<rfloor> + 1 \<le> \<lfloor>v\<rfloor>" using floor_mono [OF uv] by simp
    then show ?thesis by (auto simp: R_def)
  qed
  then have "of_int (R u) * exp2 e \<le> of_int (R v) * exp2 e"
    by (intro mult_right_mono) (auto simp: less_imp_le)
  then show ?thesis by (simp add: rnd_at_def R_def u_def v_def Let_def)
qed

lemma rnd_at_multiple: "rnd_at e (of_int k * exp2 e) = of_int k * exp2 e"
  by (simp add: rnd_at_def)

lemma rnd_at_bound_multiple: "x \<le> of_int k * exp2 e \<Longrightarrow> rnd_at e x \<le> of_int k * exp2 e"
  using rnd_at_mono [of x "of_int k * exp2 e" e] by (simp add: rnd_at_multiple)

section \<open>The exponent, and exactness\<close>

lemma exp2_powr: "real_of_rat (exp2 e) = 2 powr (of_int e)"
  by (auto simp: exp2_def of_rat_divide of_rat_power powr_realpow [symmetric] powr_minus_divide
      simp flip: powr_realpow)

lemma exp2_add: "exp2 (a + b) = exp2 a * exp2 b"
proof -
  have "real_of_rat (exp2 (a + b)) = real_of_rat (exp2 a * exp2 b)"
    by (simp add: exp2_powr of_rat_mult powr_add)
  then show ?thesis by (simp only: of_rat_eq_iff)
qed

lemma exp2_nat [simp]: "exp2 (int n) = 2 ^ n"
  by (simp add: exp2_def)

lemma exp2_0 [simp]: "exp2 0 = 1"
  by (simp add: exp2_def)

lemma exp2_split: "e \<le> k \<Longrightarrow> exp2 k = 2 ^ nat (k - e) * exp2 e"
  using exp2_add [of "k - e" e] exp2_def [of "k - e"] by simp

lemma exp2_less_iff [simp]: "exp2 a < exp2 b \<longleftrightarrow> a < b"
proof -
  have "real_of_rat (exp2 a) < real_of_rat (exp2 b) \<longleftrightarrow> a < b" by (simp add: exp2_powr)
  then show ?thesis by (simp only: of_rat_less)
qed

lemma exp2_le_iff [simp]: "exp2 a \<le> exp2 b \<longleftrightarrow> a \<le> b"
  by (meson exp2_less_iff linorder_not_le)

lemma exp2_bitlen:
  assumes "0 < a"
  shows "exp2 (bitlen a - 1) \<le> of_int a" "of_int a < exp2 (bitlen a)"
proof -
  have b: "2 ^ nat (bitlen a - 1) \<le> a" "a < 2 ^ nat (bitlen a)"
    using bitlen_bounds [OF assms] by auto
  have pos: "0 < bitlen a" using bitlen_nonneg [of a] bitlen_eq_zero_iff [of a] assms by linarith
  have "(of_int (2 ^ nat (bitlen a - 1)) :: rat) \<le> of_int a" using b(1) by (simp only: of_int_le_iff)
  then show "exp2 (bitlen a - 1) \<le> of_int a" using pos by (simp add: exp2_def)
  have "(of_int a :: rat) < of_int (2 ^ nat (bitlen a))" using b(2) by (simp only: of_int_less_iff)
  then show "of_int a < exp2 (bitlen a)" using pos by (simp add: exp2_def)
qed

lemma ilog2_bounds:
  assumes x: "0 < x"
  shows "exp2 (ilog2 x) \<le> x" "x < exp2 (ilog2 x + 1)"
proof -
  obtain a b where q: "quotient_of x = (a, b)" by fastforce
  have b: "0 < b" and xe: "x = of_int a / of_int b"
    using quotient_of_denom_pos [OF q] quotient_of_div [OF q] by auto
  then have a: "0 < a" using x by (simp add: zero_less_divide_iff)
  let ?e = "bitlen a - bitlen b"
  have s1: "exp2 (?e - 1) * exp2 (bitlen b) = exp2 (bitlen a - 1)"
    and s2: "exp2 (?e + 1) * exp2 (bitlen b - 1) = exp2 (bitlen a)"
    by (simp_all flip: exp2_add)
  have "exp2 (?e - 1) * of_int b \<le> exp2 (?e - 1) * exp2 (bitlen b)"
    using exp2_bitlen(2) [OF b] by (intro mult_left_mono) (auto simp: less_imp_le)
  also have "\<dots> \<le> of_int a" using s1 exp2_bitlen(1) [OF a] by simp
  finally have lo: "exp2 (?e - 1) \<le> x" using b by (simp add: xe le_divide_eq)
  have "of_int a < exp2 (?e + 1) * exp2 (bitlen b - 1)" using s2 exp2_bitlen(2) [OF a] by simp
  also have "\<dots> \<le> exp2 (?e + 1) * of_int b"
    using exp2_bitlen(1) [OF b] by (intro mult_left_mono) (auto simp: less_imp_le)
  finally have hi: "x < exp2 (?e + 1)" using b by (simp add: xe divide_less_eq)
  have "ilog2 x = (if x < exp2 ?e then ?e - 1 else ?e)" by (simp add: ilog2_def q)
  then show "exp2 (ilog2 x) \<le> x" "x < exp2 (ilog2 x + 1)" using lo hi by auto
qed

lemma ilog2_less: "0 < x \<Longrightarrow> x < exp2 k \<Longrightarrow> ilog2 x < k"
  using ilog2_bounds(1) [of x] exp2_less_iff [of "ilog2 x" k] by linarith

text \<open>Values with at most \<open>p\<close> significant bits are not changed.\<close>

lemma rnd_exact:
  assumes "x = of_int n * exp2 k" "0 \<le> n" "n < 2 ^ p"
  shows "rnd p x = x"
proof (cases "n = 0")
  case True
  then show ?thesis using assms by (simp add: rnd_def)
next
  case False
  then have pos: "0 < x" using assms by simp
  let ?e = "ilog2 x - int p + 1"
  have "(of_int n :: rat) < of_int (2 ^ p)" using assms(3) by (simp only: of_int_less_iff)
  then have "x < exp2 (int p) * exp2 k" using assms(1) by simp
  then have "ilog2 x < int p + k" using pos by (intro ilog2_less) (simp_all add: exp2_add)
  then have "x = of_int (n * 2 ^ nat (k - ?e)) * exp2 ?e"
    using exp2_split [of ?e k] assms(1) by (simp add: ac_simps)
  then show ?thesis using pos rnd_at_multiple [of ?e "n * 2 ^ nat (k - ?e)"] by (simp add: rnd_def)
qed

lemma rnd_le_exp2:
  assumes "x \<le> exp2 k" "0 < p"
  shows "rnd p x \<le> exp2 k"
proof (cases "x \<le> 0 \<or> x = exp2 k")
  case True
  then show ?thesis using rnd_exact [of x 1 k p] assms(2) by (auto simp: rnd_def less_imp_le)
next
  case False
  let ?e = "ilog2 x - int p + 1"
  have "ilog2 x < k" using False assms(1) by (intro ilog2_less) auto
  then have "exp2 k = of_int (2 ^ nat (k - ?e)) * exp2 ?e"
    using exp2_split [of ?e k] assms(2) by simp
  then show ?thesis
    using rnd_at_bound_multiple [of x "2 ^ nat (k - ?e)" ?e] assms(1) False by (simp add: rnd_def)
qed

text \<open>Rounding does not pass a value that has at most \<open>p\<close> significant bits.\<close>

lemma rnd_le_exact:
  assumes "x \<le> m" "m = of_int n * exp2 k" "0 \<le> n" "n < 2 ^ p"
  shows "rnd p x \<le> m"
proof (cases "x \<le> 0")
  case True
  then show ?thesis using assms by (simp add: rnd_def less_imp_le)
next
  case False
  let ?e = "ilog2 x - int p + 1"
  have "(of_int n :: rat) < of_int (2 ^ p)" using assms(4) by (simp only: of_int_less_iff)
  then have "x < exp2 (int p) * exp2 k"
    using assms(1,2) by (simp add: le_less_trans)
  then have "ilog2 x < int p + k" using False by (intro ilog2_less) (simp_all add: exp2_add)
  then have m: "m = of_int (n * 2 ^ nat (k - ?e)) * exp2 ?e"
    using exp2_split [of ?e k] assms(2) by (simp add: ac_simps)
  show ?thesis
    using rnd_at_bound_multiple [of x "n * 2 ^ nat (k - ?e)" ?e] assms(1) False m
    by (simp add: rnd_def)
qed

lemma f64_of_nat: "n < 2 ^ 53 \<Longrightarrow> f64 (of_nat n) = of_nat n"
  unfolding f64_def by (rule rnd_exact [of _ "int n" 0]) (auto simp flip: of_nat_less_iff)

lemma f64_le_of_nat: "x \<le> of_nat n \<Longrightarrow> n < 2 ^ 53 \<Longrightarrow> f64 x \<le> of_nat n"
  unfolding f64_def by (rule rnd_le_exact [of _ _ "int n" 0]) (auto simp flip: of_nat_less_iff)

end
