(* ===== verification/Budget.thy ===== *)
theory Budget
  imports Prelude Float_Round
begin

text \<open>
  The KV budget formulas of \<^verbatim>\<open>crates/memory/src/budget.rs\<close>: bytes of a page, pages of
  the pool, pages of a request and the cap on concurrent requests. Byte counts are natural
  numbers with the overflow check of \<^verbatim>\<open>u64\<close> written out (\<open>None\<close> is the panic); the
  utilisation is an \<^verbatim>\<open>f64\<close>, so \<^verbatim>\<open>mem_total as f64 * u\<close> is rounded twice.
\<close>

section \<open>Definitions\<close>

record KvGeometry =
  n_layer :: nat
  kv_heads :: nat
  head_dim :: nat
  block_len :: nat

definition page_bytes_f16 :: "KvGeometry \<Rightarrow> nat option" where
  "page_bytes_f16 g =
     Option.bind (chk_mul (n_layer g) (block_len g)) (\<lambda>a.
     Option.bind (chk_mul a (kv_heads g)) (\<lambda>b.
     Option.bind (chk_mul b (head_dim g)) (\<lambda>c.
     Option.bind (chk_mul c 2) (\<lambda>d. chk_mul d 2))))"

record KvBudgetInput =
  mem_total_bytes :: nat
  weights_bytes :: nat
  graph_pool_bytes :: nat
  misc_bytes :: nat
  utilization :: rat

definition default_budget_input :: KvBudgetInput where
  "default_budget_input = \<lparr>mem_total_bytes = 0, weights_bytes = 0, graph_pool_bytes = 0,
     misc_bytes = 0, utilization = f64 (9 / 10)\<rparr>"

definition kv_capacity_bytes :: "KvBudgetInput \<Rightarrow> nat option" where
  "kv_capacity_bytes input =
     (let u = utilization input in
      if 0 < u \<and> u \<le> 1 then
        let budget = to_u64 (f64 (f64 (of_nat (mem_total_bytes input)) * u)) in
        Option.bind (chk_add (weights_bytes input) (graph_pool_bytes input)) (\<lambda>a.
        Option.bind (chk_add a (misc_bytes input)) (\<lambda>r. Some (budget - r)))
      else None)"

definition kv_budget_pages :: "KvBudgetInput \<Rightarrow> KvGeometry \<Rightarrow> nat option" where
  "kv_budget_pages input g =
     Option.bind (kv_capacity_bytes input) (\<lambda>c.
     Option.bind (page_bytes_f16 g) (\<lambda>b. chk_div c b))"

definition req_pages_for_len :: "KvGeometry \<Rightarrow> nat \<Rightarrow> nat option" where
  "req_pages_for_len g len =
     (if block_len g = 0 then None else chk_mul (n_layer g) (div_ceil len (block_len g)))"

definition req_pages_full_window :: "KvGeometry \<Rightarrow> nat \<Rightarrow> nat option" where
  "req_pages_full_window g max_seq_len = req_pages_for_len g max_seq_len"

definition admit_max_seqs :: "nat \<Rightarrow> KvGeometry \<Rightarrow> nat \<Rightarrow> nat \<Rightarrow> nat option" where
  "admit_max_seqs total_pages g max_seq_len max_seqs_user =
     Option.bind (req_pages_for_len g max_seq_len) (\<lambda>n.
       let per_req = max n 1; by_mem = total_pages div per_req
       in Some (min max_seqs_user by_mem))"

section \<open>Lemmas\<close>

lemma page_bytes_Some:
  "page_bytes_f16 g = Some b \<Longrightarrow> b = n_layer g * block_len g * kv_heads g * head_dim g * 4"
  by (auto simp: page_bytes_f16_def bind_eq_Some_conv)

lemma to_u64_le: "x \<le> of_nat n \<Longrightarrow> to_u64 x \<le> n"
  by (simp add: to_u64_def min_le_iff_disj floor_le_iff nat_le_iff)

lemma capacity_le_mem:
  assumes "kv_capacity_bytes input = Some c" "mem_total_bytes input < 2 ^ 53"
  shows "c + min (mem_total_bytes input)
      (weights_bytes input + graph_pool_bytes input + misc_bytes input) \<le> mem_total_bytes input"
proof -
  let ?m = "mem_total_bytes input" and ?u = "utilization input"
  have u: "0 < ?u" "?u \<le> 1"
    using assms(1) by (auto simp: kv_capacity_bytes_def Let_def split: if_splits)
  have "of_nat ?m * ?u \<le> of_nat ?m" by (rule mult_left_le) (use u in auto)
  then have "f64 (f64 (of_nat ?m) * ?u) \<le> of_nat ?m"
    using assms(2) by (simp add: f64_of_nat f64_le_of_nat)
  then have "to_u64 (f64 (f64 (of_nat ?m) * ?u)) \<le> ?m" by (rule to_u64_le)
  then show ?thesis
    using assms(1) u by (auto simp: kv_capacity_bytes_def Let_def bind_eq_Some_conv)
qed

lemma req_pages_mono:
  assumes "req_pages_for_len g M = Some n" "len \<le> M"
  obtains k where "req_pages_for_len g len = Some k" "k \<le> n"
proof -
  have b: "0 < block_len g" and n: "n = n_layer g * div_ceil M (block_len g)" "n \<le> u64_max"
    using assms(1) by (auto simp: req_pages_for_len_def split: if_splits)
  have "M \<le> div_ceil M (block_len g) * block_len g" using b by (rule div_ceil_mult_ge)
  then have "div_ceil len (block_len g) \<le> div_ceil M (block_len g)"
    using assms(2) by (simp add: div_ceil_le_iff [OF b])
  then have "n_layer g * div_ceil len (block_len g) \<le> n" using n(1) by simp
  then show thesis using b n(2) that by (auto simp: req_pages_for_len_def)
qed

section \<open>Properties\<close>

text \<open>
  C20: The page budget is safe and tight. For a device of less than \<open>2 ^ 53\<close> bytes, the pages of
  the budget, together with the weights, the graph pool and the other reservations, fit in the
  device memory unless the reservations alone exceed it, in which case there are no pages; and
  one page more exceeds the (rounded) share of the memory.
\<close>

theorem kv_budget_fits:
  assumes "kv_budget_pages input g = Some n" "page_bytes_f16 g = Some b"
    "mem_total_bytes input < 2 ^ 53"
  defines "reserved \<equiv> weights_bytes input + graph_pool_bytes input + misc_bytes input"
  shows "(n = 0 \<or> n * b + reserved \<le> mem_total_bytes input)
    \<and> to_u64 (f64 (f64 (of_nat (mem_total_bytes input)) * utilization input)) < (n + 1) * b + reserved"
proof -
  obtain c where c: "kv_capacity_bytes input = Some c" and n: "n = c div b" and b: "0 < b"
    using assms(1,2) by (auto simp: kv_budget_pages_def bind_eq_Some_conv)
  have lo: "n * b \<le> c" and hi: "c < (n + 1) * b"
    using n dividend_less_div_times [OF b, of c] by (simp_all add: algebra_simps)
  have "n * b + reserved \<le> mem_total_bytes input" if "n \<noteq> 0"
  proof -
    have "c \<noteq> 0" using that n by (metis div_0)
    then show ?thesis using capacity_le_mem [OF c assms(3)] lo unfolding reserved_def by linarith
  qed
  moreover have "to_u64 (f64 (f64 (of_nat (mem_total_bytes input)) * utilization input)) \<le> c + reserved"
    using c by (auto simp: kv_capacity_bytes_def Let_def bind_eq_Some_conv reserved_def split: if_splits)
  ultimately show ?thesis using hi by auto
qed

definition example_geometry :: KvGeometry where
  "example_geometry = \<lparr>n_layer = 2, kv_heads = 1, head_dim = 2, block_len = 4\<rparr>"

definition example_budget :: KvBudgetInput where
  "example_budget = \<lparr>mem_total_bytes = 1000, weights_bytes = 300, graph_pool_bytes = 50,
     misc_bytes = 10, utilization = 1 / 2\<rparr>"

lemma example_budget_eval:
  "page_bytes_f16 example_geometry = Some 64" "kv_budget_pages example_budget example_geometry = Some 2"
proof -
  have f: "f64 1000 = 1000" "f64 (1000 * (1 / 2)) = 500" "to_u64 500 = 500"
    by (code_simp, code_simp, simp add: to_u64_def)
  show b: "page_bytes_f16 example_geometry = Some 64"
    by (simp add: page_bytes_f16_def example_geometry_def chk_mul_def u64_max_def)
  have "kv_capacity_bytes example_budget = Some 140"
    using f by (simp add: kv_capacity_bytes_def example_budget_def chk_add_def u64_max_def)
  then show "kv_budget_pages example_budget example_geometry = Some 2"
    using b by (simp add: kv_budget_pages_def chk_div_def)
qed

theorem kv_budget_fits_witness:
  "kv_budget_pages example_budget example_geometry = Some 2 \<and> page_bytes_f16 example_geometry = Some 64
    \<and> 2 * 64 + (weights_bytes example_budget + graph_pool_bytes example_budget + misc_bytes example_budget)
      \<le> mem_total_bytes example_budget"
  using kv_budget_fits [OF example_budget_eval(2) example_budget_eval(1)] example_budget_eval
  by (simp add: example_budget_def)

text \<open>
  The cap on concurrent requests is safe: any set of at most \<open>admit_max_seqs\<close> requests, each
  with a context within the window, needs at most the pages of the pool; the cap is at most the
  configured one, and when it is smaller, one more full-window request would not fit.
\<close>

theorem admit_max_seqs_safe:
  assumes cap: "admit_max_seqs pages g window user = Some cap"
    and lens: "length lens \<le> cap" "\<forall>len\<in>set lens. len \<le> window"
  shows "(\<exists>ns. map (req_pages_for_len g) lens = map Some ns \<and> sum_list ns \<le> pages)
    \<and> cap \<le> user
    \<and> (cap < user \<longrightarrow> (\<exists>n. req_pages_full_window g window = Some n \<and> pages < (cap + 1) * max n 1))"
proof -
  obtain n where n: "req_pages_for_len g window = Some n"
    and c: "cap = min user (pages div max n 1)"
    using cap by (auto simp: admit_max_seqs_def bind_eq_Some_conv Let_def)
  have "\<exists>ns. map (req_pages_for_len g) ls = map Some ns \<and> sum_list ns \<le> length ls * max n 1"
    if "\<forall>len\<in>set ls. len \<le> window" for ls
    using that
  proof (induction ls)
    case Nil
    then show ?case by simp
  next
    case (Cons l ls)
    then obtain ns where ns: "map (req_pages_for_len g) ls = map Some ns"
      "sum_list ns \<le> length ls * max n 1" by auto
    obtain k where "req_pages_for_len g l = Some k" "k \<le> n"
      using req_pages_mono [OF n, of l] Cons.prems by auto
    then show ?case using ns by (intro exI [of _ "k # ns"]) auto
  qed
  then obtain ns where ns: "map (req_pages_for_len g) lens = map Some ns"
    "sum_list ns \<le> length lens * max n 1" using lens(2) by blast
  have "length lens * max n 1 \<le> pages div max n 1 * max n 1" using lens(1) c by (intro mult_right_mono) auto
  also have "\<dots> \<le> pages" by (rule div_times_less_eq_dividend)
  finally have fit: "sum_list ns \<le> pages" using ns(2) by linarith
  have "pages < (pages div max n 1 + 1) * max n 1"
    using dividend_less_div_times [of "max n 1" pages] by (simp add: algebra_simps)
  then show ?thesis using fit ns(1) c n by (auto simp: req_pages_full_window_def)
qed

theorem admit_max_seqs_safe_witness:
  "\<exists>ns. map (req_pages_for_len example_geometry) [3, 9] = map Some ns \<and> sum_list ns \<le> 20"
proof -
  have "admit_max_seqs 20 example_geometry 10 8 = Some 3"
    by (simp add: admit_max_seqs_def req_pages_for_len_def example_geometry_def div_ceil_def
        chk_mul_def u64_max_def)
  from admit_max_seqs_safe [OF this, of "[3, 9]"] show ?thesis by simp
qed

end
