(* ===== verification/Rng.thy ===== *)
theory Rng
  imports Prelude Float_Round
begin

text \<open>
  The deterministic random numbers of the scheduler, \<^verbatim>\<open>crates/scheduler/src/rng.rs\<close>, on
  64-bit words, and the unit-interval draw of \<^verbatim>\<open>crates/kernels/src/sampler.rs\<close> for
  comparison. SplitMix64 is shown to be a bijection, the bounded draw to be in range and
  near-uniform, and the two maps to the unit interval are compared.
\<close>

unbundle bit_operations_syntax

type_synonym u64 = "64 word"
type_synonym u32 = "32 word"

section \<open>Definitions\<close>

definition GOLDEN_RATIO_64 :: u64 where
  "GOLDEN_RATIO_64 = 0x9E3779B97F4A7C15"

definition mix :: "u64 \<Rightarrow> u64" where
  "mix z0 = (let z1 = (z0 XOR drop_bit 30 z0) * 0xBF58476D1CE4E5B9;
                 z2 = (z1 XOR drop_bit 27 z1) * 0x94D049BB133111EB
             in z2 XOR drop_bit 31 z2)"

definition splitmix64 :: "u64 \<Rightarrow> u64" where
  "splitmix64 x = mix (x + GOLDEN_RATIO_64)"

text \<open>The streaming generator: the state, and one step of it.\<close>

definition next_u64 :: "u64 \<Rightarrow> u64 \<times> u64" where
  "next_u64 state = (let state' = state + GOLDEN_RATIO_64 in (mix state', state'))"

text \<open>\<^verbatim>\<open>pos as u64\<close> and \<^verbatim>\<open>vocab as u64\<close> are the conversions of the arguments.\<close>

definition rng_u64 :: "u64 \<Rightarrow> nat \<Rightarrow> u32 \<Rightarrow> u64" where
  "rng_u64 seed_i pos vocab =
     (let mixed = (of_nat pos * GOLDEN_RATIO_64) XOR (ucast vocab * 0x94D049BB133111EB)
      in splitmix64 (seed_i XOR mixed))"

text \<open>The draw to the unit interval; \<^verbatim>\<open>as f32\<close> rounds the 53-bit integer to 24 bits.\<close>

definition rng_f32 :: "u64 \<Rightarrow> nat \<Rightarrow> u32 \<Rightarrow> rat" where
  "rng_f32 seed_i pos vocab =
     f32 (f32 (of_int (uint (drop_bit 11 (rng_u64 seed_i pos vocab)))) / f32 (2 ^ 53))"

text \<open>The bounded draw; \<open>None\<close> is the debug assertion on an empty range.\<close>

definition rng_usize :: "u64 \<Rightarrow> nat \<Rightarrow> u32 \<Rightarrow> nat \<Rightarrow> nat option" where
  "rng_usize seed_i pos vocab bound =
     (if bound = 0 then None
      else Some (unat (rng_u64 seed_i pos vocab) * bound div 2 ^ 64))"

text \<open>The unit draw of the sampling pipeline (\<^verbatim>\<open>next_f32_unit\<close>): 24 bits, then a scaling.\<close>

definition next_f32_unit :: "u64 \<Rightarrow> rat \<times> u64" where
  "next_f32_unit state = (let (v, state') = next_u64 state
     in (f32 (f32 (of_int (uint (drop_bit 40 v))) * f32 (1 / f32 (2 ^ 24))), state'))"

section \<open>SplitMix64 is a bijection\<close>

lemma word_xor_0_iff: "a XOR b = 0 \<longleftrightarrow> a = (b :: 'a::len word)"
  by (metis xor.assoc xor.right_neutral xor_self_eq xor.left_neutral)

lemma xor_shift_inj:
  fixes x y :: "'a::len word"
  assumes k: "0 < k" and eq: "x XOR drop_bit k x = y XOR drop_bit k y"
  shows "x = y"
proof -
  define d where "d = x XOR y"
  have "(x XOR y) XOR (drop_bit k x XOR drop_bit k y)
      = (x XOR drop_bit k x) XOR (y XOR drop_bit k y)"
    by (simp only: ac_simps)
  also have "\<dots> = 0" by (simp add: eq)
  finally have "d XOR drop_bit k d = 0" by (simp add: d_def drop_bit_xor)
  then have d: "d = drop_bit k d" by (simp add: word_xor_0_iff)
  then have "unat d = unat d div 2 ^ k" by (metis unat_drop_bit_eq drop_bit_eq_div)
  moreover have "unat d div 2 ^ k < unat d" if "unat d \<noteq> 0"
    using that k one_less_power [of "2::nat" k] by (intro div_less_dividend) auto
  ultimately have "unat d = 0" by (metis less_irrefl)
  then have "d = 0" by (simp add: unat_eq_0)
  then show ?thesis by (simp add: d_def word_xor_0_iff)
qed

lemma mult_unit_inj:
  fixes x y c i :: "'a::len word"
  shows "c * i = 1 \<Longrightarrow> x * c = y * c \<Longrightarrow> x = y"
  by (metis mult.assoc mult.right_neutral)

lemma mix_inj: "mix x = mix y \<Longrightarrow> x = y"
proof -
  define a where "a = (\<lambda>z::u64. (z XOR drop_bit 30 z) * 0xBF58476D1CE4E5B9)"
  define b where "b = (\<lambda>z::u64. (z XOR drop_bit 27 z) * 0x94D049BB133111EB)"
  have mix: "mix z = b (a z) XOR drop_bit 31 (b (a z))" for z
    by (simp add: mix_def Let_def a_def b_def)
  have a: "u = v" if "a u = a v" for u v
    by (rule xor_shift_inj [of 30]) (use that in \<open>auto simp: a_def
        dest: mult_unit_inj [of "0xBF58476D1CE4E5B9" 10871156337175269513, rotated]\<close>)
  have b: "u = v" if "b u = b v" for u v
    by (rule xor_shift_inj [of 27]) (use that in \<open>auto simp: b_def
        dest: mult_unit_inj [of "0x94D049BB133111EB" 3573116690164977347, rotated]\<close>)
  assume "mix x = mix y"
  then have "b (a x) = b (a y)"
    unfolding mix by (rule xor_shift_inj [of 31, rotated]) simp
  from a [OF b [OF this]] show "x = y" .
qed

lemma inj_splitmix64: "inj splitmix64"
  by (rule injI) (auto simp: splitmix64_def dest: mix_inj)

lemma surj_splitmix64: "surj splitmix64"
  by (rule finite_UNIV_inj_surj) (simp_all add: inj_splitmix64)

lemma rng_u64_inj: "rng_u64 s pos vocab = rng_u64 s' pos vocab \<Longrightarrow> s = s'"
proof -
  define m :: u64 where
    "m = (of_nat pos * GOLDEN_RATIO_64) XOR (ucast vocab * 0x94D049BB133111EB)"
  assume "rng_u64 s pos vocab = rng_u64 s' pos vocab"
  then have "s XOR m = s' XOR m"
    using inj_splitmix64 by (simp add: rng_u64_def m_def injD)
  then have "(s XOR m) XOR m = (s' XOR m) XOR m" by simp
  then show ?thesis by (simp add: xor.assoc)
qed

lemma rng_u64_surj: "\<exists>s. rng_u64 s pos vocab = v"
proof -
  have "inj (\<lambda>s. rng_u64 s pos vocab)" by (rule injI) (rule rng_u64_inj)
  then have "surj (\<lambda>s. rng_u64 s pos vocab)" by (rule finite_UNIV_inj_surj [rotated]) simp
  then show ?thesis by (metis surjD)
qed

lemma uint_drop_bit_div: "uint (drop_bit n (w :: u64)) = uint w div 2 ^ n"
proof -
  have "take_bit LENGTH(64) (uint w) = uint w"
    by (rule take_bit_int_eq_self) (use uint_lt2p [of w] in auto)
  then show ?thesis by (subst unsigned_drop_bit_eq) (simp only: drop_bit_eq_div)
qed

section \<open>The bounded draw\<close>

text \<open>The numbers \<open>u < N\<close> with \<open>u * b div N = r\<close> form an interval.\<close>

lemma mult_div_eq_iff:
  fixes N b r u :: nat
  assumes "0 < b" "0 < N"
  shows "u * b div N = r \<longleftrightarrow> div_ceil (r * N) b \<le> u \<and> u < div_ceil (Suc r * N) b"
proof -
  have "u * b div N = r \<longleftrightarrow> r * N \<le> u * b \<and> u * b < Suc r * N"
    using assms(2) div_nat_eqI [of N r "u * b"] dividend_less_div_times [of N "u * b"]
      div_times_less_eq_dividend [of "u * b" N] by (auto simp: ac_simps)
  then show ?thesis using div_ceil_le_iff [OF assms(1)] by (metis not_le)
qed

lemma div_ceil_step:
  fixes N b r :: nat
  assumes b: "0 < b" and N: "0 < N"
  shows "div_ceil (r * N) b + N div b \<le> div_ceil (Suc r * N) b"
    "div_ceil (Suc r * N) b \<le> div_ceil (r * N) b + N div b + 1"
proof -
  let ?D = "div_ceil (r * N) b" and ?q = "N div b"
  have q: "?q * b \<le> N" "N < ?q * b + b"
    using b dividend_less_div_times [of b N]
    by (simp_all add: div_times_less_eq_dividend add.commute)
  have "r * N \<le> ?D * b" by (rule div_ceil_mult_ge [OF b])
  then have "Suc r * N \<le> (?D + ?q + 1) * b" using q(2) by (simp add: algebra_simps)
  then show "div_ceil (Suc r * N) b \<le> ?D + ?q + 1" by (simp add: div_ceil_le_iff [OF b])
  show "?D + ?q \<le> div_ceil (Suc r * N) b"
  proof (rule ccontr)
    assume "\<not> ?D + ?q \<le> div_ceil (Suc r * N) b"
    then obtain m where m: "?D + ?q = Suc m" "div_ceil (Suc r * N) b \<le> m"
      by (metis less_imp_Suc_add add_Suc_right le_add1 not_le)
    from m(2) have le: "N + r * N \<le> m * b" by (simp add: div_ceil_le_iff [OF b])
    show False
    proof (cases "?D")
      case 0
      then have "Suc m * b \<le> N" using m(1) q(1) by simp
      then show False using le b N by simp
    next
      case (Suc d)
      then have "\<not> ?D \<le> d" by simp
      then have "d * b < r * N" by (simp add: div_ceil_le_iff [OF b] not_le)
      moreover have "m = d + ?q" using m(1) Suc by simp
      ultimately have "m * b \<le> d * b + N" using q(1) by (simp only: add_mult_distrib)
      then show False using le \<open>d * b < r * N\<close> by linarith
    qed
  qed
qed

section \<open>Properties\<close>

text \<open>
  SplitMix64 is a bijection on 64-bit words, and for a fixed position and vocabulary so is
  the draw as a function of the seed: distinct seeds never give the same raw draw.
\<close>

theorem splitmix64_bij:
  "bij splitmix64 \<and> (\<forall>pos vocab. bij (\<lambda>seed_i. rng_u64 seed_i pos vocab))"
proof -
  have "inj (\<lambda>s. rng_u64 s pos vocab)" for pos vocab by (rule injI) (rule rng_u64_inj)
  then show ?thesis
    using inj_splitmix64 surj_splitmix64 by (auto simp: bij_def intro!: finite_UNIV_inj_surj)
qed

text \<open>
  The bounded draw is in range and near-uniform: for a bound \<open>0 < b \<le> 2 ^ 64\<close>, position and
  vocabulary, every seed gives some \<open>r < b\<close>, and each \<open>r < b\<close> is drawn by \<open>2 ^ 64 div b\<close> or
  \<open>2 ^ 64 div b + 1\<close> of the \<open>2 ^ 64\<close> seeds.
\<close>

theorem rng_usize_uniform:
  assumes b: "0 < b"
  shows "(\<exists>r<b. rng_usize seed_i pos vocab b = Some r)
    \<and> (\<forall>r<b. card {s. rng_usize s pos vocab b = Some r} \<in> {2 ^ 64 div b, 2 ^ 64 div b + 1})"
proof
  have "unat (rng_u64 seed_i pos vocab) < 2 ^ 64"
    using unsigned_less [of "rng_u64 seed_i pos vocab"] by simp
  then have "unat (rng_u64 seed_i pos vocab) * b div 2 ^ 64 < b"
    using b by (intro less_mult_imp_div_less) (simp add: mult.commute)
  then show "\<exists>r<b. rng_usize seed_i pos vocab b = Some r" using b by (simp add: rng_usize_def)
  show "\<forall>r<b. card {s. rng_usize s pos vocab b = Some r} \<in> {2 ^ 64 div b, 2 ^ 64 div b + 1}"
  proof (intro allI impI)
    fix r assume r: "r < b"
    let ?N = "2 ^ 64 :: nat"
    let ?lo = "div_ceil (r * ?N) b" and ?hi = "div_ceil (Suc r * ?N) b"
    define f where "f = (\<lambda>s. unat (rng_u64 s pos vocab))"
    have hi: "?hi \<le> ?N" using r by (subst div_ceil_le_iff [OF b]) (simp add: mult.commute)
    have inj: "inj f" unfolding f_def
      by (rule injI) (auto dest: rng_u64_inj simp: word_unat_eq_iff [symmetric])
    have S: "{s. rng_usize s pos vocab b = Some r} = {s. f s \<in> {?lo..<?hi}}"
      using b mult_div_eq_iff [OF b, of ?N _ r] by (auto simp: rng_usize_def f_def)
    have "f ` {s. f s \<in> {?lo..<?hi}} = {?lo..<?hi}"
    proof (intro equalityI subsetI)
      fix u assume u: "u \<in> {?lo..<?hi}"
      obtain s where "rng_u64 s pos vocab = of_nat u" using rng_u64_surj by blast
      then have "f s = u" using u hi by (simp add: f_def unat_of_nat)
      then show "u \<in> f ` {s. f s \<in> {?lo..<?hi}}" using u by blast
    qed auto
    then have "card {s. f s \<in> {?lo..<?hi}} = card {?lo..<?hi}"
      using card_image [OF inj_on_subset [OF inj subset_UNIV]] by metis
    then have "card {s. rng_usize s pos vocab b = Some r} = ?hi - ?lo" unfolding S by simp
    then show "card {s. rng_usize s pos vocab b = Some r} \<in> {?N div b, ?N div b + 1}"
      using div_ceil_step [OF b, of ?N r] by auto
  qed
qed

theorem rng_usize_uniform_witness:
  "card {s. rng_usize s 7 100 2 = Some 1} \<in> {2 ^ 64 div 2, 2 ^ 64 div 2 + 1}"
  using rng_usize_uniform [of 2 0 7 100] by auto

lemma f32_le_exp2: "x \<le> exp2 k \<Longrightarrow> f32 x \<le> exp2 k"
  by (simp add: f32_def rnd_le_exp2)

text \<open>
  The draw to the unit interval is between 0 and 1, but not below 1 as its comment says: for
  every position and vocabulary some seed draws exactly 1, because converting a 53-bit integer
  to \<^verbatim>\<open>f32\<close> can round up to \<open>2 ^ 53\<close>. The unit draw of the sampling pipeline keeps 24
  bits and is always below 1.
\<close>

theorem rng_f32_range:
  "0 \<le> rng_f32 seed_i pos vocab \<and> rng_f32 seed_i pos vocab \<le> 1
   \<and> (\<exists>s. rng_f32 s pos vocab = 1)
   \<and> 0 \<le> fst (next_f32_unit state) \<and> fst (next_f32_unit state) < 1"
proof (intro conjI)
  have c53: "f32 (2 ^ 53) = 2 ^ 53" by code_simp
  show "rng_f32 seed_i pos vocab \<le> 1"
  proof -
    let ?v = "uint (drop_bit 11 (rng_u64 seed_i pos vocab))"
    have "?v = uint (rng_u64 seed_i pos vocab) div 2 ^ 11"
      by (simp add: uint_drop_bit_div)
    also have "\<dots> < 2 ^ 53" using uint_lt2p [of "rng_u64 seed_i pos vocab"] by simp
    finally have "(of_int ?v :: rat) \<le> of_int (2 ^ 53)" by (simp only: of_int_le_iff)
    then have "f32 (of_int ?v) \<le> exp2 53" by (intro f32_le_exp2) (simp add: exp2_def)
    then have "f32 (of_int ?v) / 2 ^ 53 \<le> exp2 0" by (simp add: exp2_def)
    then show ?thesis using f32_le_exp2 [of _ 0] by (simp add: rng_f32_def c53 [simplified])
  qed
  obtain s where s: "rng_u64 s pos vocab = -1" using rng_u64_surj by blast
  have "uint (drop_bit 11 (-1 :: u64)) = 2 ^ 53 - 1"
    by (simp only: uint_drop_bit_div) (simp add: unsigned_minus_1_eq_mask mask_eq_exp_minus_1)
  moreover have "f32 (of_int (2 ^ 53 - 1)) = 2 ^ 53" by code_simp
  moreover have "f32 (2 ^ 53 / 2 ^ 53) = 1" by code_simp
  ultimately have "f32 (f32 (of_int (uint (drop_bit 11 (-1 :: u64)))) / 2 ^ 53) = 1" by (simp only:)
  then have "rng_f32 s pos vocab = 1" unfolding rng_f32_def s c53 .
  then show "\<exists>s. rng_f32 s pos vocab = 1" by blast
  define w where "w = uint (drop_bit 40 (fst (next_u64 state)))"
  have "0 \<le> w" by (simp add: w_def)
  moreover have "w < 2 ^ 24"
    using uint_lt2p [of "fst (next_u64 state)"] by (simp add: w_def uint_drop_bit_div)
  ultimately have w: "0 \<le> w" "w < 2 ^ 24" by auto
  have c24: "f32 (1 / f32 (2 ^ 24)) = 1 / 2 ^ 24" by code_simp
  have "f32 (of_int w) = of_int w"
    unfolding f32_def by (rule rnd_exact [of _ w 0]) (use w in auto)
  moreover have "f32 (of_int w * (1 / 2 ^ 24)) = of_int w * (1 / 2 ^ 24)"
    unfolding f32_def by (rule rnd_exact [of _ w "-24"]) (use w in \<open>auto simp: exp2_def\<close>)
  ultimately have "fst (next_f32_unit state) = of_int w * (1 / 2 ^ 24)"
    unfolding next_f32_unit_def split_beta Let_def fst_conv c24 w_def by (simp only:)
  moreover have "(of_int w :: rat) < of_int (2 ^ 24)" using w(2) by (simp only: of_int_less_iff)
  ultimately show "fst (next_f32_unit state) < 1" by simp
qed (simp_all add: rng_f32_def next_f32_unit_def split: prod.split)

end
