(* ===== verification/Stop.thy ===== *)
theory Stop
  imports Prelude "HOL-Library.Sublist"
begin

text \<open>
  Stop strings as token sequences, \<^verbatim>\<open>crates/scheduler/src/stop.rs\<close>: the incremental
  matcher with its window of recent tokens, shown to agree with the whole stream.
\<close>

section \<open>Definitions\<close>

datatype StopOutcome = Continue | Match nat

record StopMatcher =
  sm_patterns :: "nat list list"
  sm_matched :: "nat list"
  sm_buf :: "nat list"
  sm_max_len :: nat

definition sm_new :: "nat list list \<Rightarrow> StopMatcher" where
  "sm_new pats =
     (let ps = filter (\<lambda>p. p \<noteq> []) pats
      in \<lparr>sm_patterns = ps, sm_matched = replicate (length ps) 0, sm_buf = [],
          sm_max_len = foldr max (map length ps) 0\<rparr>)"

text \<open>The loop that shrinks \<open>k\<close> while \<open>p[..k]\<close> is not the suffix of \<open>s\<close> of that length.\<close>

fun shrink :: "nat list \<Rightarrow> nat list \<Rightarrow> nat \<Rightarrow> nat" where
  "shrink p s 0 = 0"
| "shrink p s (Suc k) =
     (if take (Suc k) p \<noteq> drop (length s - Suc k) s then shrink p s k else Suc k)"

text \<open>
  The loop over the patterns from index \<open>pi\<close>; the entries of \<open>matched\<close> after a full match
  are not written, because the source returns.
\<close>

fun scan_patterns ::
  "nat list \<Rightarrow> nat \<Rightarrow> nat list list \<Rightarrow> nat list \<Rightarrow> nat list \<times> StopOutcome" where
  "scan_patterns s pi [] matched = (matched, Continue)"
| "scan_patterns s pi (p # ps) matched =
     (let k = shrink p s (min (length p) (length s));
          matched' = matched[pi := k]
      in if k = length p then (matched', Match pi) else scan_patterns s (Suc pi) ps matched')"

text \<open>The loop that pops from the front while the window is full.\<close>

fun trim_front :: "nat \<Rightarrow> nat list \<Rightarrow> nat list" where
  "trim_front n [] = []"
| "trim_front n (x # xs) = (if n \<le> length (x # xs) then trim_front n xs else x # xs)"

definition sm_push :: "StopMatcher \<Rightarrow> nat \<Rightarrow> StopMatcher \<times> StopOutcome" where
  "sm_push m token =
     (let s = sm_buf m @ [token] in
      case scan_patterns s 0 (sm_patterns m) (sm_matched m) of
        (matched', Match pi) \<Rightarrow> (m\<lparr>sm_matched := matched'\<rparr>, Match pi)
      | (matched', Continue) \<Rightarrow>
          (m\<lparr>sm_matched := matched',
             sm_buf := (if 1 < sm_max_len m then trim_front (sm_max_len m) (sm_buf m @ [token])
                        else sm_buf m)\<rparr>, Continue))"

definition sm_reset :: "StopMatcher \<Rightarrow> StopMatcher" where
  "sm_reset m = m\<lparr>sm_matched := map (\<lambda>_. 0) (sm_matched m), sm_buf := []\<rparr>"

definition pattern_count :: "StopMatcher \<Rightarrow> nat" where
  "pattern_count m = length (sm_patterns m)"

text \<open>Feeding tokens one after the other.\<close>

definition sm_run :: "StopMatcher \<Rightarrow> nat list \<Rightarrow> StopMatcher" where
  "sm_run m ts = foldl (\<lambda>m t. fst (sm_push m t)) m ts"

section \<open>The specification on the whole stream\<close>

text \<open>\<open>k\<close> is the length of the longest prefix of \<open>p\<close> that ends the stream \<open>h\<close>.\<close>

definition longest_partial :: "nat list \<Rightarrow> nat list \<Rightarrow> nat \<Rightarrow> bool" where
  "longest_partial p h k \<longleftrightarrow> k \<le> length p \<and> suffix (take k p) h
     \<and> (\<forall>j. k < j \<and> j \<le> length p \<longrightarrow> \<not> suffix (take j p) h)"

definition sm_inv :: "StopMatcher \<Rightarrow> nat list \<Rightarrow> bool" where
  "sm_inv m h \<longleftrightarrow> [] \<notin> set (sm_patterns m) \<and> sm_max_len m = foldr max (map length (sm_patterns m)) 0
     \<and> sm_buf m = drop (length h - (sm_max_len m - 1)) h
     \<and> length (sm_matched m) = length (sm_patterns m)
     \<and> (\<forall>i<length (sm_patterns m). longest_partial (sm_patterns m ! i) h (sm_matched m ! i))"

section \<open>Lemmas\<close>

declare suffix_snoc [simp del]

lemma suffix_drop_iff:
  assumes "length q \<le> length s"
  shows "suffix q s \<longleftrightarrow> q = drop (length s - length q) s"
proof
  assume "suffix q s"
  then obtain zs where "s = zs @ q" by (rule suffixE)
  then show "q = drop (length s - length q) s" by simp
next
  assume "q = drop (length s - length q) s"
  then show "suffix q s" using suffix_drop by metis
qed

lemma suffix_eval: "suffix q s \<longleftrightarrow> length q \<le> length s \<and> drop (length s - length q) s = q"
  using suffix_drop_iff [of q s] suffix_length_le [of q s] by auto

lemma shrink_spec:
  assumes "k \<le> length p" "k \<le> length s"
  shows "shrink p s k \<le> k \<and> suffix (take (shrink p s k) p) s
    \<and> (\<forall>j. shrink p s k < j \<and> j \<le> k \<longrightarrow> \<not> suffix (take j p) s)"
  using assms
proof (induction k)
  case 0
  then show ?case by auto
next
  case (Suc k)
  show ?case
  proof (cases "take (Suc k) p = drop (length s - Suc k) s")
    case True
    then show ?thesis by (auto simp: suffix_drop)
  next
    case False
    then have "\<not> suffix (take (Suc k) p) s"
      using Suc.prems suffix_drop_iff [of "take (Suc k) p" s] by (simp add: min_absorb2)
    then show ?thesis using False Suc by (auto simp: le_Suc_eq)
  qed
qed

lemma longest_partial_shrink:
  "longest_partial p s (shrink p s (min (length p) (length s)))"
proof -
  let ?k = "shrink p s (min (length p) (length s))"
  have long: "\<not> suffix (take j p) s" if "length s < j" "j \<le> length p" for j
    using that suffix_length_le [of "take j p" s] by auto
  note sp = shrink_spec [of "min (length p) (length s)" p s]
  have "\<not> suffix (take j p) s" if "?k < j" "j \<le> length p" for j
    using sp that long [of j] by (cases "j \<le> length s") auto
  then show ?thesis using sp unfolding longest_partial_def by auto
qed

lemma longest_partial_full: "longest_partial p h k \<Longrightarrow> k = length p \<longleftrightarrow> suffix p h"
  unfolding longest_partial_def by (metis le_neq_implies_less order_refl take_all_iff)

lemma longest_partial_window:
  assumes "\<And>q. length q \<le> length p \<Longrightarrow> suffix q s \<longleftrightarrow> suffix q h"
  shows "longest_partial p s k \<longleftrightarrow> longest_partial p h k"
  unfolding longest_partial_def using assms by (metis length_take min.cobounded1)

text \<open>The result of the loop over the patterns.\<close>

lemma scan_patterns_spec:
  assumes "length matched = pi + length ps"
  shows "case scan_patterns s pi ps matched of
      (m', Continue) \<Rightarrow> length m' = length matched \<and> take pi m' = take pi matched
        \<and> (\<forall>i<length ps. longest_partial (ps ! i) s (m' ! (pi + i)) \<and> \<not> suffix (ps ! i) s)
    | (m', Match j) \<Rightarrow> pi \<le> j \<and> j < pi + length ps \<and> suffix (ps ! (j - pi)) s
        \<and> (\<forall>i. pi + i < j \<longrightarrow> \<not> suffix (ps ! i) s)"
  using assms
proof (induction ps arbitrary: pi matched)
  case Nil
  then show ?case by simp
next
  case (Cons p ps)
  define k where "k = shrink p s (min (length p) (length s))"
  have lp: "longest_partial p s k" unfolding k_def by (rule longest_partial_shrink)
  note full = longest_partial_full [OF lp]
  show ?case
  proof (cases "k = length p")
    case True
    then show ?thesis using full by (simp add: k_def [symmetric] Let_def)
  next
    case False
    let ?r = "scan_patterns s (Suc pi) ps (matched[pi := k])"
    have eq: "scan_patterns s pi (p # ps) matched = ?r"
      using False by (simp add: k_def [symmetric] Let_def)
    have IH: "case ?r of
      (m', Continue) \<Rightarrow> length m' = length matched \<and> take (Suc pi) m' = take (Suc pi) (matched[pi := k])
        \<and> (\<forall>i<length ps. longest_partial (ps ! i) s (m' ! (Suc pi + i)) \<and> \<not> suffix (ps ! i) s)
    | (m', Match j) \<Rightarrow> Suc pi \<le> j \<and> j < Suc pi + length ps \<and> suffix (ps ! (j - Suc pi)) s
        \<and> (\<forall>i. Suc pi + i < j \<longrightarrow> \<not> suffix (ps ! i) s)"
      by (rule Cons.IH [of "matched[pi := k]" "Suc pi", unfolded length_list_update])
        (use Cons.prems in simp)
    obtain m' out where r: "?r = (m', out)" by fastforce
    show ?thesis
    proof (cases out)
      case Continue
      have pi: "pi < length matched" using Cons.prems by simp
      have t: "take (Suc pi) m' = take (Suc pi) (matched[pi := k])" and len: "length m' = length matched"
        using IH by (simp_all add: r Continue)
      have mk: "m' ! pi = k" using arg_cong [OF t, of "\<lambda>xs. xs ! pi"] pi len by simp
      have tk: "take pi m' = take pi matched"
        using arg_cong [OF t, of "take pi"] by (simp add: min_absorb1 take_update_cancel)
      have "longest_partial ((p # ps) ! i) s (m' ! (pi + i)) \<and> \<not> suffix ((p # ps) ! i) s"
        if "i < length (p # ps)" for i
        using that IH mk lp full False by (cases i) (auto simp: r Continue)
      then show ?thesis unfolding eq by (simp add: r Continue len tk)
    next
      case (Match j)
      then have j: "Suc pi \<le> j" "j < Suc pi + length ps" "suffix (ps ! (j - Suc pi)) s"
        "\<forall>i. Suc pi + i < j \<longrightarrow> \<not> suffix (ps ! i) s"
        using IH by (simp_all add: r)
      have "(p # ps) ! (j - pi) = ps ! (j - Suc pi)" using j(1) by (simp add: nth_Cons')
      moreover have "\<not> suffix ((p # ps) ! i) s" if "pi + i < j" for i
        using that j(4) full False by (cases i) auto
      ultimately show ?thesis unfolding eq using j by (simp add: r Match)
    qed
  qed
qed

lemma trim_front_eq:
  "1 < n \<Longrightarrow> trim_front n xs = drop (length xs - (n - 1)) xs"
  by (induction xs) (auto simp: Suc_diff_le drop_Cons' split: nat.splits)

lemma foldr_max_ge: "x \<in> set xs \<Longrightarrow> (x :: nat) \<le> foldr max xs 0"
  by (induction xs) auto

lemma drop_snoc_window:
  "drop (length h - w) h @ [t] = drop (length (h @ [t]) - Suc w) (h @ [t])"
  by simp

lemma window_window:
  assumes "w \<le> v"
  shows "drop (length (drop (length h - v) h) - w) (drop (length h - v) h) = drop (length h - w) h"
proof (cases "length h \<le> v")
  case False
  then have "length h - (length h - v) - w + (length h - v) = length h - w" using assms by linarith
  then show ?thesis by (simp only: drop_drop length_drop)
qed simp

lemma window_suffix:
  assumes "length q \<le> w"
  shows "suffix q (drop (length h - w) h) \<longleftrightarrow> suffix q h"
proof
  assume "suffix q (drop (length h - w) h)"
  then show "suffix q h" using suffix_drop suffix_order.trans by blast
next
  assume q: "suffix q h"
  then have "length q \<le> length (drop (length h - w) h)"
    using assms suffix_length_le [OF q] by simp
  then show "suffix q (drop (length h - w) h)"
    by (rule suffix_length_suffix [OF q suffix_drop])
qed

text \<open>One step of the matcher, against the stream.\<close>

lemma sm_push_spec:
  assumes inv: "sm_inv m h" and push: "sm_push m t = (m', out)"
  shows "case out of
      Continue \<Rightarrow> sm_inv m' (h @ [t]) \<and> sm_patterns m' = sm_patterns m
        \<and> (\<forall>p\<in>set (sm_patterns m). \<not> suffix p (h @ [t]))
    | Match i \<Rightarrow> i < length (sm_patterns m) \<and> suffix (sm_patterns m ! i) (h @ [t])
        \<and> (\<forall>j<i. \<not> suffix (sm_patterns m ! j) (h @ [t]))"
proof -
  let ?ps = "sm_patterns m" and ?M = "sm_max_len m"
  define s where "s = sm_buf m @ [t]"
  have s: "s = drop (length (h @ [t]) - Suc (?M - 1)) (h @ [t])"
    using inv drop_snoc_window by (simp add: s_def sm_inv_def)
  have sw: "suffix q s \<longleftrightarrow> suffix q (h @ [t])" if "length q \<le> Suc (?M - 1)" for q
    unfolding s using that by (rule window_suffix)
  have len: "length p \<le> ?M" if "p \<in> set ?ps" for p
    using inv that by (auto simp: sm_inv_def intro: foldr_max_ge)
  have sp: "suffix p s \<longleftrightarrow> suffix p (h @ [t])" if "p \<in> set ?ps" for p
    using sw len [OF that] by simp
  obtain m1 o1 where sc: "scan_patterns s 0 ?ps (sm_matched m) = (m1, o1)" by fastforce
  have spec: "case (m1, o1) of
      (m', Continue) \<Rightarrow> length m' = length (sm_matched m) \<and> take 0 m' = take 0 (sm_matched m)
        \<and> (\<forall>i<length ?ps. longest_partial (?ps ! i) s (m' ! (0 + i)) \<and> \<not> suffix (?ps ! i) s)
    | (m', Match j) \<Rightarrow> 0 \<le> j \<and> j < 0 + length ?ps \<and> suffix (?ps ! (j - 0)) s
        \<and> (\<forall>i. 0 + i < j \<longrightarrow> \<not> suffix (?ps ! i) s)"
    unfolding sc [symmetric] by (rule scan_patterns_spec) (use inv in \<open>simp add: sm_inv_def\<close>)
  show ?thesis
  proof (cases o1)
    case Continue
    have len1: "length m1 = length ?ps"
      and lp: "\<And>i. i < length ?ps \<Longrightarrow> longest_partial (?ps ! i) s (m1 ! i)"
      and ns: "\<And>i. i < length ?ps \<Longrightarrow> \<not> suffix (?ps ! i) s"
      using spec inv by (simp_all add: Continue sm_inv_def)
    have m': "out = Continue" "m' = m\<lparr>sm_matched := m1,
        sm_buf := (if 1 < ?M then trim_front ?M s else sm_buf m)\<rparr>"
      using push sc by (auto simp: sm_push_def Let_def s_def Continue)
    have buf: "sm_buf m' = drop (length (h @ [t]) - (?M - 1)) (h @ [t])"
    proof (cases "1 < ?M")
      case True
      then have "sm_buf m' = drop (length s - (?M - 1)) s" by (simp add: m' trim_front_eq)
      also have "\<dots> = drop (length (h @ [t]) - (?M - 1)) (h @ [t])"
        unfolding s by (rule window_window) simp
      finally show ?thesis .
    next
      case False
      then show ?thesis using inv by (simp add: m' sm_inv_def)
    qed
    have "longest_partial (?ps ! i) (h @ [t]) (m1 ! i)" if i: "i < length ?ps" for i
    proof -
      have "length (?ps ! i) \<le> Suc (?M - 1)" using len [OF nth_mem [OF i]] by linarith
      then have "\<And>q. length q \<le> length (?ps ! i) \<Longrightarrow> suffix q s \<longleftrightarrow> suffix q (h @ [t])"
        by (intro sw) linarith
      then show ?thesis using lp [OF i] longest_partial_window by blast
    qed
    then have "sm_inv m' (h @ [t])" using inv buf len1 by (simp add: sm_inv_def m')
    moreover have "\<forall>p\<in>set ?ps. \<not> suffix p (h @ [t])"
      using ns sp by (metis in_set_conv_nth)
    ultimately show ?thesis by (simp add: m')
  next
    case (Match j)
    then have "out = Match j" using push sc by (auto simp: sm_push_def Let_def s_def)
    then show ?thesis using spec sp by (auto simp: Match)
  qed
qed

lemma sm_inv_new: "sm_inv (sm_new pats) []"
  by (auto simp: sm_inv_def sm_new_def Let_def longest_partial_def)

lemma sm_patterns_new: "sm_patterns (sm_new pats) = filter (\<lambda>p. p \<noteq> []) pats"
  by (simp add: sm_new_def Let_def)

text \<open>The state after a stream none of whose prefixes ends with a pattern.\<close>

lemma sm_run_inv:
  assumes "\<And>n p. n \<le> length ts \<Longrightarrow> p \<in> set pats \<Longrightarrow> p \<noteq> [] \<Longrightarrow> \<not> suffix p (take n ts)"
  shows "sm_inv (sm_run (sm_new pats) ts) ts \<and> sm_patterns (sm_run (sm_new pats) ts) = filter (\<lambda>p. p \<noteq> []) pats"
  using assms
proof (induction ts rule: rev_induct)
  case Nil
  then show ?case by (simp add: sm_run_def sm_inv_new sm_patterns_new)
next
  case (snoc t ts)
  let ?m = "sm_run (sm_new pats) ts"
  have IH: "sm_inv ?m ts" "sm_patterns ?m = filter (\<lambda>p. p \<noteq> []) pats"
    using snoc.IH snoc.prems by (metis (no_types, lifting) le_SucI length_append_singleton take_append
        append_Nil2 diff_is_0_eq' take0)+
  obtain m' out where p: "sm_push ?m t = (m', out)" by fastforce
  have none: "\<not> suffix p (ts @ [t])" if "p \<in> set (sm_patterns ?m)" for p
    using snoc.prems [of "length (ts @ [t])" p] that IH(2) by simp
  have "out = Continue"
    using sm_push_spec [OF IH(1) p] none by (cases out) (auto simp: in_set_conv_nth)
  then have "sm_inv m' (ts @ [t]) \<and> sm_patterns m' = sm_patterns ?m"
    using sm_push_spec [OF IH(1) p] by simp
  moreover have "sm_run (sm_new pats) (ts @ [t]) = m'" using p by (simp add: sm_run_def)
  ultimately show ?case using IH(2) by simp
qed

section \<open>Properties\<close>

text \<open>
  C16: A stop fires exactly when a whole pattern ends the stream, however short the window. After
  a stream without a match, the next token gives \<open>Match i\<close> for the first non-empty pattern that
  is a suffix of the extended stream, and \<open>Continue\<close> when there is none.
\<close>

theorem stop_fires_iff_suffix:
  assumes "\<forall>n\<le>length ts. \<forall>p\<in>set pats. p \<noteq> [] \<longrightarrow> \<not> suffix p (take n ts)"
  shows "snd (sm_push (sm_run (sm_new pats) ts) t)
    = (case position (\<lambda>p. suffix p (ts @ [t])) (filter (\<lambda>p. p \<noteq> []) pats) of
         None \<Rightarrow> Continue | Some i \<Rightarrow> Match i)"
proof -
  let ?m = "sm_run (sm_new pats) ts" and ?ps = "filter (\<lambda>p. p \<noteq> []) pats"
  have I: "sm_inv ?m ts" "sm_patterns ?m = ?ps" using sm_run_inv [of ts pats] assms by auto
  obtain m' out where p: "sm_push ?m t = (m', out)" by fastforce
  note spec = sm_push_spec [OF I(1) p, unfolded I(2)]
  show ?thesis
  proof (cases "position (\<lambda>p. suffix p (ts @ [t])) ?ps")
    case None
    then have "\<forall>x\<in>set ?ps. \<not> suffix x (ts @ [t])" by (simp only: position_None)
    then have "out = Continue" using spec by (cases out) (auto dest: nth_mem simp del: set_filter)
    then show ?thesis using p None by simp
  next
    case (Some i)
    note pos = position_Some [OF Some]
    have "out = Match i"
    proof (cases out)
      case Continue
      then show ?thesis using spec pos by (auto dest: nth_mem)
    next
      case (Match j)
      then have "suffix (?ps ! j) (ts @ [t])" "\<forall>k<j. \<not> suffix (?ps ! k) (ts @ [t])"
        using spec by simp_all
      then have "j = i" using pos by (metis linorder_neqE_nat)
      then show ?thesis using Match by simp
    qed
    then show ?thesis using Some p by simp
  qed
qed

theorem stop_fires_iff_suffix_witness:
  "snd (sm_push (sm_run (sm_new [[], [1, 2, 1], [2, 7]]) [1, 2, 2, 1, 2]) 1) = Match 0"
proof -
  have "\<not> suffix p (take n [1, 2, 2, 1, 2])"
    if n: "n \<le> length [1::nat, 2, 2, 1, 2]" and p: "p \<in> set [[], [1, 2, 1], [2, 7 :: nat]]" "p \<noteq> []" for n p
  proof -
    have "n = 0 \<or> n = 1 \<or> n = 2 \<or> n = 3 \<or> n = 4 \<or> n = 5" using n by auto
    moreover have "p = [1, 2, 1] \<or> p = [2, 7]" using p by auto
    ultimately show ?thesis by (elim disjE) (simp_all add: suffix_eval)
  qed
  then have "\<forall>n\<le>length [1::nat, 2, 2, 1, 2]. \<forall>p\<in>set [[], [1, 2, 1], [2, 7 :: nat]]. p \<noteq> [] \<longrightarrow>
      \<not> suffix p (take n [1, 2, 2, 1, 2])" by (intro allI impI ballI)
  from stop_fires_iff_suffix [OF this, of 1] show ?thesis by (simp add: suffix_eval)
qed

text \<open>
  The partial-match state is what the documentation says: after a stream without a match,
  \<open>matched[i]\<close> is the length of the longest prefix of pattern \<open>i\<close> that ends the stream, the
  window is shorter than the longest pattern, and \<open>reset\<close> gives a new matcher.
\<close>

theorem stop_partial_state:
  assumes "\<forall>n\<le>length ts. \<forall>p\<in>set pats. p \<noteq> [] \<longrightarrow> \<not> suffix p (take n ts)"
  shows "(\<forall>i<pattern_count (sm_run (sm_new pats) ts).
      longest_partial (filter (\<lambda>p. p \<noteq> []) pats ! i) ts (sm_matched (sm_run (sm_new pats) ts) ! i))
    \<and> length (sm_buf (sm_run (sm_new pats) ts)) \<le> foldr max (map length pats) 0 - 1
    \<and> sm_reset (sm_run (sm_new pats) ts) = sm_new pats"
proof -
  let ?m = "sm_run (sm_new pats) ts" and ?ps = "filter (\<lambda>p. p \<noteq> []) pats"
  have I: "sm_inv ?m ts" "sm_patterns ?m = ?ps" using sm_run_inv [of ts pats] assms by auto
  have mx: "foldr max (map length ?ps) 0 = foldr max (map length pats) 0"
    by (induction pats) auto
  have "sm_reset ?m = sm_new pats"
    using I by (intro StopMatcher.equality)
      (auto simp: sm_reset_def sm_new_def Let_def sm_inv_def map_replicate_const)
  moreover have "length (sm_buf ?m) \<le> foldr max (map length pats) 0 - 1"
    using I mx by (auto simp: sm_inv_def)
  ultimately show ?thesis using I by (auto simp: sm_inv_def pattern_count_def)
qed

theorem stop_partial_state_witness:
  "sm_reset (sm_run (sm_new [[1, 2, 1]]) [1, 2]) = sm_new [[1, 2, 1]]"
proof -
  have "\<forall>n\<le>length [1::nat, 2]. \<forall>p\<in>set [[1, 2, 1]]. p \<noteq> [] \<longrightarrow> \<not> suffix p (take n [1, 2])"
    by (auto simp: suffix_eval)
  from stop_partial_state [OF this] show ?thesis by simp
qed

end
