(* ===== verification/Req.thy ===== *)
theory Req
  imports Stop Rng
begin

text \<open>
  The request state machine of \<^verbatim>\<open>crates/scheduler/src/req.rs\<close>: request ids, the
  life-cycle states, the two cursors, decoding with stop, end-of-sequence and length checks,
  preemption, and the guard that releases resources exactly once.
\<close>

section \<open>Data\<close>

definition derive :: "u64 \<Rightarrow> u64 \<Rightarrow> u64" where
  "derive base_seed arrival_seq = splitmix64 (base_seed XOR arrival_seq)"

datatype ReqState = Waiting | Prefill | Chunked | Decode | Done | Aborted | Preempted

datatype ConfirmEvent =
    ChunkConfirmed | PrefillDone | DecodeConfirmed nat | Stopped | Eos | MaxOutput

datatype ReqError = InvalidTransition ReqState string | ZeroChunk | ChunkOutOfRange

record Req =
  rq_id :: u64
  rq_state :: ReqState
  seed_i :: u64
  arrival_seq :: u64
  prompt_len :: nat
  max_output :: nat
  cached_len :: nat
  device_len :: nat
  stop :: StopMatcher
  eos_id :: "nat option"
  resume :: bool
  released :: bool

section \<open>Operations\<close>

definition req_new :: "u64 \<Rightarrow> u64 \<Rightarrow> u64 \<Rightarrow> nat list list \<Rightarrow> nat option \<Rightarrow> Req" where
  "req_new i base_seed arrival stop_patterns eos =
     \<lparr>rq_id = i, rq_state = Waiting, seed_i = splitmix64 (base_seed XOR i),
      arrival_seq = arrival, prompt_len = 0, max_output = 0, cached_len = 0, device_len = 0,
      stop = sm_new stop_patterns, eos_id = eos, resume = False, released = False\<rparr>"

definition output_tokens :: "Req \<Rightarrow> nat" where
  "output_tokens r = cached_len r - prompt_len r"

definition is_prefilling :: "Req \<Rightarrow> bool" where
  "is_prefilling r \<longleftrightarrow> rq_state r = Prefill \<or> rq_state r = Chunked"

text \<open>\<^verbatim>\<open>assert_cursors_valid\<close> as a test; the sum overflows only when it panics anyway.\<close>

definition cursors_valid :: "Req \<Rightarrow> bool" where
  "cursors_valid r \<longleftrightarrow> cached_len r \<le> device_len r
     \<and> (case rq_state r of
          Prefill \<Rightarrow> device_len r \<le> prompt_len r
        | Chunked \<Rightarrow> device_len r \<le> prompt_len r
        | Decode \<Rightarrow> device_len r \<le> prompt_len r + max_output r
        | _ \<Rightarrow> True)"

definition start_prefill :: "Req \<Rightarrow> nat \<Rightarrow> nat \<Rightarrow> nat \<Rightarrow> (Req, ReqError) res" where
  "start_prefill r prompt max_out chunk_tokens =
     (if rq_state r \<noteq> Waiting \<and> rq_state r \<noteq> Preempted
      then Err (InvalidTransition (rq_state r) ''start_prefill'')
      else if chunk_tokens = 0 then Err ZeroChunk
      else let d = min chunk_tokens prompt;
               r' = r\<lparr>prompt_len := prompt, max_output := max_out, cached_len := 0,
                      device_len := d, rq_state := (if prompt \<le> d then Prefill else Chunked),
                      resume := False\<rparr>
           in if cursors_valid r' then Ok r' else Panic)"

definition dispatch_chunk :: "Req \<Rightarrow> nat \<Rightarrow> (Req, ReqError) res" where
  "dispatch_chunk r chunk_end =
     (if rq_state r \<noteq> Chunked then Err (InvalidTransition (rq_state r) ''dispatch_chunk'')
      else if chunk_end \<le> cached_len r \<or> prompt_len r < chunk_end then Err ChunkOutOfRange
      else let r' = r\<lparr>device_len := chunk_end\<rparr>
           in if cursors_valid r' then Ok r' else Panic)"

text \<open>\<open>None\<close> is the debug assertion on the state.\<close>

definition confirm :: "Req \<Rightarrow> (Req \<times> ConfirmEvent) option" where
  "confirm r =
     (if \<not> is_prefilling r then None
      else let r' = r\<lparr>cached_len := device_len r\<rparr>
           in if prompt_len r \<le> cached_len r'
              then Some (r'\<lparr>rq_state := Decode\<rparr>, PrefillDone)
              else Some (r', ChunkConfirmed))"

definition arm_release :: "Req \<Rightarrow> Req \<times> bool" where
  "arm_release r = (r\<lparr>released := True\<rparr>, \<not> released r)"

definition set_done :: "Req \<Rightarrow> Req" where
  "set_done r = fst (arm_release (r\<lparr>rq_state := Done\<rparr>))"

text \<open>\<open>None\<close> is the debug assertion on the state, or an overflow of one of the two sums.\<close>

definition decode_step :: "Req \<Rightarrow> nat \<Rightarrow> (Req \<times> ConfirmEvent) option" where
  "decode_step r token =
     (if rq_state r \<noteq> Decode then None
      else Option.bind (chk_add (cached_len r) 1) (\<lambda>d.
        let r1 = r\<lparr>device_len := d\<rparr> in
        case sm_push (stop r1) token of
          (m, Match i) \<Rightarrow> Some (set_done (r1\<lparr>stop := m\<rparr>), Stopped)
        | (m, Continue) \<Rightarrow>
            let r2 = r1\<lparr>stop := m\<rparr> in
            if eos_id r2 = Some token then Some (set_done r2, Eos)
            else Option.bind (chk_add (prompt_len r2) (max_output r2)) (\<lambda>cap.
              if cap < device_len r2 then Some (set_done r2, MaxOutput)
              else Some (r2\<lparr>cached_len := device_len r2\<rparr>, DecodeConfirmed token))))"

definition finish :: "Req \<Rightarrow> Req \<times> bool" where
  "finish r = (if rq_state r \<noteq> Decode then (r, False) else (set_done r, True))"

definition abort :: "Req \<Rightarrow> Req \<times> bool" where
  "abort r = (if rq_state r = Done \<or> rq_state r = Aborted then (r, False)
              else arm_release (r\<lparr>rq_state := Aborted\<rparr>))"

definition preempt :: "Req \<Rightarrow> (Req, ReqError) res" where
  "preempt r =
     (if rq_state r = Prefill \<or> rq_state r = Chunked \<or> rq_state r = Decode
      then Ok (r\<lparr>rq_state := Preempted, cached_len := 0, device_len := 0, resume := True,
                 stop := sm_reset (stop r)\<rparr>)
      else Err (InvalidTransition (rq_state r) ''preempt''))"

definition current_chunk :: "Req \<Rightarrow> nat \<Rightarrow> (nat \<times> nat) option" where
  "current_chunk r chunk_budget =
     (if \<not> is_prefilling r then None
      else let s = cached_len r;
               e = min (min (device_len r) (prompt_len r)) (sat_add s chunk_budget)
           in if s < e then Some (s, e) else None)"

definition take_release :: "Req \<Rightarrow> Req \<times> bool" where
  "take_release r = (r\<lparr>released := False\<rparr>, released r)"

section \<open>Runs\<close>

text \<open>
  The states a request created with stop patterns \<open>pats\<close> and end-of-sequence token \<open>eos\<close>
  can reach, with two ghosts: the tokens emitted since the last (re)start, and how often
  \<open>take_release\<close> returned true.
\<close>

inductive req_reach ::
  "nat list list \<Rightarrow> nat option \<Rightarrow> Req \<Rightarrow> nat list \<Rightarrow> nat \<Rightarrow> bool" for pats eos where
  new: "req_reach pats eos (req_new i seed a pats eos) [] 0"
| start: "req_reach pats eos r h n \<Longrightarrow> start_prefill r p m c = Ok r' \<Longrightarrow> req_reach pats eos r' [] n"
| dispatch: "req_reach pats eos r h n \<Longrightarrow> dispatch_chunk r e = Ok r' \<Longrightarrow> req_reach pats eos r' h n"
| confirm: "req_reach pats eos r h n \<Longrightarrow> confirm r = Some (r', ev) \<Longrightarrow> req_reach pats eos r' h n"
| decode: "req_reach pats eos r h n \<Longrightarrow> decode_step r t = Some (r', DecodeConfirmed u) \<Longrightarrow>
    req_reach pats eos r' (h @ [u]) n"
| decode_end: "req_reach pats eos r h n \<Longrightarrow> decode_step r t = Some (r', ev) \<Longrightarrow>
    ev \<in> {Stopped, Eos, MaxOutput} \<Longrightarrow> req_reach pats eos r' h n"
| finish: "req_reach pats eos r h n \<Longrightarrow> finish r = (r', b) \<Longrightarrow> req_reach pats eos r' h n"
| abort: "req_reach pats eos r h n \<Longrightarrow> abort r = (r', b) \<Longrightarrow> req_reach pats eos r' h n"
| preempt: "req_reach pats eos r h n \<Longrightarrow> preempt r = Ok r' \<Longrightarrow> req_reach pats eos r' [] n"
| release: "req_reach pats eos r h n \<Longrightarrow> take_release r = (r', b) \<Longrightarrow>
    req_reach pats eos r' h (if b then Suc n else n)"

definition terminal :: "Req \<Rightarrow> bool" where
  "terminal r \<longleftrightarrow> rq_state r = Done \<or> rq_state r = Aborted"

text \<open>What a decoding step must answer, from the tokens already emitted.\<close>

definition outcome_spec :: "nat list list \<Rightarrow> nat option \<Rightarrow> nat \<Rightarrow> nat list \<Rightarrow> nat \<Rightarrow> ConfirmEvent" where
  "outcome_spec pats eos max_out h t =
     (if \<exists>p\<in>set pats. p \<noteq> [] \<and> suffix p (h @ [t]) then Stopped
      else if eos = Some t then Eos
      else if max_out \<le> length h then MaxOutput
      else DecodeConfirmed t)"

section \<open>The invariant\<close>

definition cursor_inv :: "Req \<Rightarrow> nat list \<Rightarrow> bool" where
  "cursor_inv r h \<longleftrightarrow> (case rq_state r of
       Waiting \<Rightarrow> cached_len r = 0 \<and> device_len r = 0 \<and> h = []
     | Preempted \<Rightarrow> cached_len r = 0 \<and> device_len r = 0 \<and> h = []
     | Prefill \<Rightarrow> cached_len r = 0 \<and> device_len r = prompt_len r \<and> h = []
     | Chunked \<Rightarrow> cached_len r \<le> device_len r \<and> device_len r \<le> prompt_len r
         \<and> cached_len r < prompt_len r \<and> h = []
     | Decode \<Rightarrow> cached_len r = device_len r \<and> cached_len r = prompt_len r + length h
         \<and> length h \<le> max_output r
     | Done \<Rightarrow> cached_len r \<le> device_len r \<and> cached_len r = prompt_len r + length h
         \<and> length h \<le> max_output r
     | Aborted \<Rightarrow> cached_len r \<le> device_len r \<and> cached_len r \<le> prompt_len r + length h
         \<and> length h \<le> max_output r)"

definition req_inv :: "nat list list \<Rightarrow> nat option \<Rightarrow> Req \<Rightarrow> nat list \<Rightarrow> nat \<Rightarrow> bool" where
  "req_inv pats eos r h n \<longleftrightarrow> eos_id r = eos
     \<and> (terminal r \<or> (sm_patterns (stop r) = filter (\<lambda>p. p \<noteq> []) pats \<and> sm_inv (stop r) h))
     \<and> cursor_inv r h
     \<and> (rq_state r \<noteq> Preempted \<and> rq_state r \<noteq> Aborted \<longrightarrow> \<not> resume r)
     \<and> n + of_bool (released r) = of_bool (terminal r)"

text \<open>The invariant of the cursors, state by state.\<close>

lemma cursor_inv_at:
  "rq_state r = Waiting \<Longrightarrow> cursor_inv r h \<longleftrightarrow> cached_len r = 0 \<and> device_len r = 0 \<and> h = []"
  "rq_state r = Preempted \<Longrightarrow> cursor_inv r h \<longleftrightarrow> cached_len r = 0 \<and> device_len r = 0 \<and> h = []"
  "rq_state r = Prefill \<Longrightarrow>
     cursor_inv r h \<longleftrightarrow> cached_len r = 0 \<and> device_len r = prompt_len r \<and> h = []"
  "rq_state r = Chunked \<Longrightarrow> cursor_inv r h \<longleftrightarrow> cached_len r \<le> device_len r
     \<and> device_len r \<le> prompt_len r \<and> cached_len r < prompt_len r \<and> h = []"
  "rq_state r = Decode \<Longrightarrow> cursor_inv r h \<longleftrightarrow> cached_len r = device_len r
     \<and> cached_len r = prompt_len r + length h \<and> length h \<le> max_output r"
  "rq_state r = Done \<Longrightarrow> cursor_inv r h \<longleftrightarrow> cached_len r \<le> device_len r
     \<and> cached_len r = prompt_len r + length h \<and> length h \<le> max_output r"
  "rq_state r = Aborted \<Longrightarrow> cursor_inv r h \<longleftrightarrow> cached_len r \<le> device_len r
     \<and> cached_len r \<le> prompt_len r + length h \<and> length h \<le> max_output r"
  by (simp_all add: cursor_inv_def)

lemmas req_inv_simps = req_inv_def cursor_inv_at terminal_def

lemma sm_inv_reset: "sm_inv m h \<Longrightarrow> sm_inv (sm_reset m) []"
  by (auto simp: sm_inv_def sm_reset_def longest_partial_def)

lemma sm_patterns_reset [simp]: "sm_patterns (sm_reset m) = sm_patterns m"
  by (simp add: sm_reset_def)

lemma req_inv_new: "req_inv pats eos (req_new i seed a pats eos) [] 0"
  by (simp add: req_inv_simps req_new_def sm_inv_new sm_patterns_new)

lemma req_inv_start:
  "req_inv pats eos r h n \<Longrightarrow> start_prefill r p m c = Ok r' \<Longrightarrow> req_inv pats eos r' [] n"
  by (cases "rq_state r"; cases "p \<le> c")
    (auto simp: start_prefill_def Let_def req_inv_simps min_def split: if_splits)

lemma req_inv_dispatch:
  "req_inv pats eos r h n \<Longrightarrow> dispatch_chunk r e = Ok r' \<Longrightarrow> req_inv pats eos r' h n"
  by (cases "rq_state r") (auto simp: dispatch_chunk_def Let_def req_inv_simps split: if_splits)

lemma req_inv_confirm:
  "req_inv pats eos r h n \<Longrightarrow> confirm r = Some (r', ev) \<Longrightarrow> req_inv pats eos r' h n"
  by (cases "rq_state r")
    (auto simp: confirm_def is_prefilling_def Let_def req_inv_simps split: if_splits)

lemma req_inv_finish:
  "req_inv pats eos r h n \<Longrightarrow> finish r = (r', b) \<Longrightarrow> req_inv pats eos r' h n"
  by (cases "rq_state r") (auto simp: finish_def set_done_def arm_release_def req_inv_simps)

lemma req_inv_abort:
  "req_inv pats eos r h n \<Longrightarrow> abort r = (r', b) \<Longrightarrow> req_inv pats eos r' h n"
  by (cases "rq_state r") (auto simp: abort_def arm_release_def req_inv_simps)

lemma req_inv_preempt:
  "req_inv pats eos r h n \<Longrightarrow> preempt r = Ok r' \<Longrightarrow> req_inv pats eos r' [] n"
  by (cases "rq_state r") (auto simp: preempt_def req_inv_simps sm_inv_reset)

lemma req_inv_release:
  "req_inv pats eos r h n \<Longrightarrow> take_release r = (r', b) \<Longrightarrow>
    req_inv pats eos r' h (if b then Suc n else n)"
  by (cases "rq_state r"; cases "released r") (auto simp: take_release_def req_inv_simps)

text \<open>A decoding step answers as specified and keeps the invariant.\<close>

lemma decode_step_Some:
  "decode_step r t = Some (r', ev) \<Longrightarrow> rq_state r = Decode"
  by (simp add: decode_step_def split: if_splits)

lemma decode_step_cases:
  assumes inv: "req_inv pats eos r h n" and step: "decode_step r t = Some (r', ev)"
  shows "ev = outcome_spec pats eos (max_output r) h t
    \<and> (case ev of DecodeConfirmed u \<Rightarrow> req_inv pats eos r' (h @ [u]) n
         | _ \<Rightarrow> req_inv pats eos r' h n)"
proof -
  let ?ps = "filter (\<lambda>p. p \<noteq> []) pats" and ?spec = "outcome_spec pats eos (max_output r) h t"
  note st = decode_step_Some [OF step]
  have I: "eos_id r = eos" "sm_patterns (stop r) = ?ps" "sm_inv (stop r) h"
    "cached_len r = device_len r" "device_len r = prompt_len r + length h" "length h \<le> max_output r"
    "\<not> resume r" "n = 0" "\<not> released r"
    using inv st by (auto simp: req_inv_simps)
  obtain m out where p: "sm_push (stop r) t = (m, out)" by fastforce
  note spec = sm_push_spec [OF I(3) p, unfolded I(2)]
  note unf = decode_step_def Let_def set_done_def arm_release_def bind_eq_Some_conv
  show ?thesis
  proof (cases out)
    case (Match i)
    then have "?ps ! i \<in> set ?ps" "suffix (?ps ! i) (h @ [t])" using spec by (auto simp del: set_filter)
    then have "?spec = Stopped" by (auto simp: outcome_spec_def)
    moreover from step have "ev = Stopped" "r' = r\<lparr>device_len := Suc (device_len r), stop := m,
        rq_state := Done, released := True\<rparr>"
      using st p Match I(4) by (simp_all add: unf)
    ultimately show ?thesis using I by (simp add: req_inv_simps)
  next
    case Continue
    then have none: "\<not> (\<exists>p\<in>set pats. p \<noteq> [] \<and> suffix p (h @ [t]))"
      and m: "sm_inv m (h @ [t])" "sm_patterns m = ?ps" using spec by auto
    consider "eos = Some t" | "eos \<noteq> Some t" "max_output r \<le> length h"
      | "eos \<noteq> Some t" "length h < max_output r" by linarith
    then show ?thesis
    proof cases
      case 1
      then have "?spec = Eos" using none by (simp add: outcome_spec_def)
      moreover from step have "ev = Eos" "r' = r\<lparr>device_len := Suc (device_len r), stop := m,
          rq_state := Done, released := True\<rparr>"
        using st p Continue I(1,4) 1 by (simp_all add: unf)
      ultimately show ?thesis using I by (simp add: req_inv_simps)
    next
      case 2
      then have "?spec = MaxOutput" using none by (simp add: outcome_spec_def)
      moreover from step have "ev = MaxOutput" "r' = r\<lparr>device_len := Suc (device_len r), stop := m,
          rq_state := Done, released := True\<rparr>"
        using st p Continue I(1,4,5) 2 by (simp_all add: unf split: if_splits)
      ultimately show ?thesis using I by (simp add: req_inv_simps)
    next
      case 3
      then have "?spec = DecodeConfirmed t" using none by (simp add: outcome_spec_def)
      moreover from step have "ev = DecodeConfirmed t" "r' = r\<lparr>device_len := Suc (device_len r),
          stop := m, cached_len := Suc (device_len r)\<rparr>"
        using st p Continue I(1,4,5) 3 by (simp_all add: unf split: if_splits)
      ultimately show ?thesis using I m st 3 by (simp add: req_inv_simps)
    qed
  qed
qed

text \<open>It panics only outside \<open>Decode\<close> or when the output cap overflows.\<close>

lemma decode_step_total:
  assumes inv: "req_inv pats eos r h n" and st: "rq_state r = Decode"
    and ovf: "prompt_len r + max_output r < u64_max"
  obtains r' ev where "decode_step r t = Some (r', ev)"
proof -
  have I: "cached_len r = device_len r" "device_len r = prompt_len r + length h"
    "length h \<le> max_output r"
    using inv st by (auto simp: req_inv_simps)
  have c: "chk_add (device_len r) (Suc 0) = Some (Suc (device_len r))"
    "chk_add (prompt_len r) (max_output r) = Some (prompt_len r + max_output r)"
    using ovf I(2,3) by (simp_all add: chk_add_def)
  have "\<exists>r' ev. decode_step r t = Some (r', ev)"
    using st by (auto simp: decode_step_def Let_def I(1) c split: prod.split StopOutcome.split)
  then show thesis using that by blast
qed

text \<open>Every reachable state satisfies the invariant.\<close>

lemma req_reach_inv: "req_reach pats eos r h n \<Longrightarrow> req_inv pats eos r h n"
proof (induction rule: req_reach.induct)
  case (decode r h n t r' u)
  then show ?case using decode_step_cases [of pats eos r h n t r'] by fastforce
next
  case (decode_end r h n t r' ev)
  then show ?case using decode_step_cases [of pats eos r h n t r' ev] by auto
qed (blast intro: req_inv_new req_inv_start req_inv_dispatch req_inv_confirm req_inv_finish
    req_inv_abort req_inv_preempt req_inv_release)+

section \<open>Properties\<close>

text \<open>
  C15: The two cursors are consistent in every reachable state: \<open>cached_len \<le> device_len\<close>, the
  dispatched length stays within the prompt while prefilling and within prompt plus cap while
  decoding (so \<open>assert_cursors_valid\<close> holds), and the tokens emitted since the last start are
  counted by \<open>output_tokens\<close> and never exceed \<open>max_output\<close>.
\<close>

theorem req_cursors_consistent:
  assumes "req_reach pats eos r h n"
  shows "cursors_valid r \<and> (rq_state r \<in> {Decode, Done} \<longrightarrow> output_tokens r = length h)
    \<and> output_tokens r \<le> max_output r"
  using req_reach_inv [OF assms]
  by (cases "rq_state r") (auto simp: req_inv_simps cursors_valid_def output_tokens_def)

text \<open>
  C14: Resources are released exactly once. In every run \<open>take_release\<close> returns true at most once,
  never before the request is done or aborted, and once it is, the release is either taken or
  still pending: the next \<open>take_release\<close> returns true if and only if none has.
\<close>

theorem req_released_exactly_once:
  assumes "req_reach pats eos r h n"
  shows "n \<le> 1 \<and> (\<not> terminal r \<longrightarrow> n = 0 \<and> \<not> snd (take_release r))
    \<and> (terminal r \<longrightarrow> (snd (take_release r) \<longleftrightarrow> n = 0))"
  using req_reach_inv [OF assms]
  by (auto simp: req_inv_def take_release_def of_bool_def split: if_splits)

text \<open>
  C13: A decoding step answers as specified from the tokens emitted since the last (re)start:
  \<open>Stopped\<close> when a stop pattern ends the extended output, else \<open>Eos\<close> on the end-of-sequence
  token, else \<open>MaxOutput\<close> when \<open>max_output\<close> tokens have been emitted, else the token is emitted;
  and it always answers (does not panic) when the capped length fits the machine integer.
\<close>

theorem decode_step_outcome:
  assumes "req_reach pats eos r h n" "rq_state r = Decode" "prompt_len r + max_output r < u64_max"
  shows "\<exists>r'. decode_step r t = Some (r', outcome_spec pats eos (max_output r) h t)"
proof -
  note inv = req_reach_inv [OF assms(1)]
  obtain r' ev where "decode_step r t = Some (r', ev)"
    using decode_step_total [OF inv assms(2,3)] by blast
  then show ?thesis using decode_step_cases [OF inv] by auto
qed

text \<open>
  A request that decodes never carries the resume flag: only a preempted request (or one
  aborted while preempted) does, because starting the prefill again clears it.
\<close>

theorem resume_cleared_before_decode:
  assumes "req_reach pats eos r h n" "resume r"
  shows "rq_state r = Preempted \<or> rq_state r = Aborted"
  using req_reach_inv [OF assms(1)] assms(2) by (auto simp: req_inv_def)

lemma xor_cancel_left: "(a :: u64) XOR x = a XOR y \<longleftrightarrow> x = y"
proof
  assume "a XOR x = a XOR y"
  then have "(a XOR a) XOR x = (a XOR a) XOR y" by (simp only: xor.assoc)
  then show "x = y" by simp
qed simp

text \<open>
  Request ids do not collide: for a base seed, distinct arrival numbers give distinct ids, and
  requests with distinct ids get distinct sampling seeds.
\<close>

theorem req_ids_distinct:
  "inj (derive base_seed)
   \<and> inj (\<lambda>arrival. seed_i (req_new (derive base_seed arrival) base_seed arrival pats eos))"
  by (simp add: inj_def derive_def req_new_def xor_cancel_left inj_eq [OF inj_splitmix64])

section \<open>A run\<close>

text \<open>A request with a prompt of three tokens, chunked, that decodes one token.\<close>

definition demo_new :: Req where
  "demo_new = req_new 5 1 0 [[7, 8]] (Some 2)"

definition demo_chunked :: Req where
  "demo_chunked = demo_new\<lparr>prompt_len := 3, max_output := 4, device_len := 2, rq_state := Chunked\<rparr>"

definition demo_decode :: Req where
  "demo_decode = demo_new\<lparr>prompt_len := 3, max_output := 4, cached_len := 3, device_len := 3,
     rq_state := Decode\<rparr>"

lemma demo_reach_decode: "req_reach [[7, 8]] (Some 2) demo_decode [] 0"
proof -
  have 0: "req_reach [[7, 8]] (Some 2) demo_new [] 0" unfolding demo_new_def by (rule req_reach.new)
  have s: "start_prefill demo_new 3 4 2 = Ok demo_chunked"
    by (simp add: start_prefill_def demo_chunked_def demo_new_def req_new_def cursors_valid_def)
  note 1 = req_reach.start [OF 0 s]
  have c: "confirm demo_chunked = Some (demo_chunked\<lparr>cached_len := 2\<rparr>, ChunkConfirmed)"
    by (simp add: confirm_def is_prefilling_def demo_chunked_def)
  note 2 = req_reach.confirm [OF 1 c]
  have d: "dispatch_chunk (demo_chunked\<lparr>cached_len := 2\<rparr>) 3
      = Ok (demo_chunked\<lparr>cached_len := 2, device_len := 3\<rparr>)"
    by (simp add: dispatch_chunk_def demo_chunked_def cursors_valid_def)
  note 3 = req_reach.dispatch [OF 2 d]
  have e: "confirm (demo_chunked\<lparr>cached_len := 2, device_len := 3\<rparr>) = Some (demo_decode, PrefillDone)"
    by (simp add: confirm_def is_prefilling_def demo_chunked_def demo_decode_def)
  from req_reach.confirm [OF 3 e] show ?thesis .
qed

definition demo_preempted :: Req where
  "demo_preempted = demo_decode\<lparr>rq_state := Preempted, cached_len := 0, device_len := 0,
     resume := True, stop := sm_reset (stop demo_decode)\<rparr>"

lemma demo_reach_preempted: "req_reach [[7, 8]] (Some 2) demo_preempted [] 0"
  by (rule req_reach.preempt [OF demo_reach_decode])
    (simp add: preempt_def demo_decode_def demo_preempted_def)

theorem req_cursors_consistent_witness: "cursors_valid demo_decode"
  using req_cursors_consistent [OF demo_reach_decode] by simp

text \<open>An aborted request releases once: the second \<^verbatim>\<open>take_release\<close> returns false.\<close>

theorem req_released_exactly_once_witness:
  "\<exists>r r'. abort demo_decode = (r, True) \<and> take_release r = (r', True) \<and> \<not> snd (take_release r')"
proof -
  obtain r where r: "abort demo_decode = (r, True)" "released r" "rq_state r = Aborted"
    by (simp add: abort_def demo_decode_def demo_new_def req_new_def arm_release_def)
  define r' where "r' = r\<lparr>released := False\<rparr>"
  have t: "take_release r = (r', True)" using r(2) by (simp add: take_release_def r'_def)
  have "req_reach [[7, 8]] (Some 2) r' [] 1"
    using req_reach.release [OF req_reach.abort [OF demo_reach_decode r(1)] t] by simp
  from req_released_exactly_once [OF this] have "\<not> snd (take_release r')"
    using r(3) by (simp add: terminal_def r'_def)
  then show ?thesis using r(1) t by blast
qed

theorem decode_step_outcome_witness: "\<exists>r'. decode_step demo_decode 7 = Some (r', DecodeConfirmed 7)"
  using decode_step_outcome [OF demo_reach_decode, of 7]
  by (simp add: demo_decode_def outcome_spec_def u64_max_def suffix_eval)

theorem resume_cleared_before_decode_witness:
  "rq_state demo_preempted \<in> {Preempted, Aborted}"
  using resume_cleared_before_decode [OF demo_reach_preempted] by (simp add: demo_preempted_def)

end
