(* ===== verification/Policy.thy ===== *)
theory Policy
  imports Interfaces Rng "HOL-Library.Product_Lexorder"
begin

text \<open>
  Queue policies, \<^verbatim>\<open>crates/scheduler/src/policy.rs\<close>: first-come-first-served and
  prefix-grouped orders of the waiting queue, and the order of preemption victims. Both
  queue orders and the victim order are interpreted as ranked service orders.
\<close>

section \<open>Data\<close>

record WaitingReq =
  w_id :: u64
  w_arrival_seq :: u64
  w_resume :: bool
  prefix_id :: "u64 option"
  w_prompt_len :: nat
  w_cached_len :: nat
  max_chunk :: nat

record DecodingReq =
  d_id :: u64
  d_arrival_seq :: u64
  d_resume :: bool

datatype SchedulePolicy = Fcfc | Lpm

section \<open>Operations\<close>

text \<open>
  The first-appearance ranks of the prefix groups, the hash map as an association list (it is
  only read by lookups). \<^verbatim>\<open>entry(..).or_insert_with(..)\<close> leaves a present entry alone.
\<close>

fun group_ranks ::
  "(u64 option \<times> nat) list \<Rightarrow> nat \<Rightarrow> WaitingReq list \<Rightarrow> (u64 option \<times> nat) list" where
  "group_ranks m n [] = m"
| "group_ranks m n (w # ws) =
     (case map_of m (prefix_id w) of
        Some _ \<Rightarrow> group_ranks m n ws
      | None \<Rightarrow> group_ranks ((prefix_id w, n) # m) (Suc n) ws)"

text \<open>
  The sort keys. \<^verbatim>\<open>Reverse(resume)\<close> puts true first; the index into the rank map
  cannot fail (\<open>group_ranks_total\<close>).
\<close>

definition fcfs_key :: "WaitingReq list \<Rightarrow> WaitingReq \<Rightarrow> bool \<times> u64" where
  "fcfs_key ws w = (\<not> w_resume w, w_arrival_seq w)"

definition lpm_key :: "WaitingReq list \<Rightarrow> WaitingReq \<Rightarrow> bool \<times> nat \<times> u64" where
  "lpm_key ws w =
     (\<not> w_resume w, the (map_of (group_ranks [] 0 ws) (prefix_id w)), w_arrival_seq w)"

definition order_waiting :: "WaitingReq list \<Rightarrow> SchedulePolicy \<Rightarrow> nat list" where
  "order_waiting waiting policy =
     (case policy of
        Fcfc \<Rightarrow> sort_key (\<lambda>i. fcfs_key waiting (waiting ! i)) [0..<length waiting]
      | Lpm \<Rightarrow> sort_key (\<lambda>i. lpm_key waiting (waiting ! i)) [0..<length waiting])"

definition victim_key :: "DecodingReq list \<Rightarrow> DecodingReq \<Rightarrow> bool \<times> int" where
  "victim_key ds d = (d_resume d, - uint (d_arrival_seq d))"

definition order_victims :: "DecodingReq list \<Rightarrow> nat list" where
  "order_victims decoding = sort_key (\<lambda>i. victim_key decoding (decoding ! i)) [0..<length decoding]"

section \<open>The orders as instances of the interface\<close>

interpretation fcfs: ranked_order "\<lambda>ws. order_waiting ws Fcfc" fcfs_key
  by unfold_locales (simp_all add: order_waiting_def)

interpretation lpm: ranked_order "\<lambda>ws. order_waiting ws Lpm" lpm_key
  by unfold_locales (simp_all add: order_waiting_def)

interpretation victims: ranked_order order_victims victim_key
  by unfold_locales (simp_all add: order_victims_def)

lemma order_waiting_perm: "mset (order_waiting ws policy) = mset [0..<length ws]"
  by (cases policy) (simp_all add: order_waiting_def)

interpretation waiting: service_order "\<lambda>ws. order_waiting ws policy" for policy
  by unfold_locales (rule order_waiting_perm)

section \<open>Group ranks\<close>

lemma group_ranks_keep: "map_of m k = Some r \<Longrightarrow> map_of (group_ranks m n ws) k = Some r"
proof (induction ws arbitrary: m n)
  case (Cons w ws)
  show ?case
  proof (cases "map_of m (prefix_id w)")
    case None
    then have "map_of ((prefix_id w, n) # m) k = Some r" using Cons.prems by auto
    from Cons.IH [OF this] show ?thesis using None by simp
  next
    case (Some x)
    then show ?thesis using Cons by simp
  qed
qed simp

lemma group_ranks_total: "w \<in> set ws \<Longrightarrow> \<exists>r. map_of (group_ranks m n ws) (prefix_id w) = Some r"
proof (induction ws arbitrary: m n)
  case (Cons v ws)
  show ?case
  proof (cases "map_of m (prefix_id v)")
    case None
    have "map_of (group_ranks ((prefix_id v, n) # m) (Suc n) ws) (prefix_id v) = Some n"
      by (rule group_ranks_keep) simp
    then show ?thesis using Cons None by (cases "w = v") auto
  next
    case (Some r)
    then show ?thesis using Cons group_ranks_keep [OF Some] by (cases "w = v") auto
  qed
qed simp

text \<open>Ranks are distinct, below the counter, and increase in order of first appearance.\<close>

definition ranks_ok :: "(u64 option \<times> nat) list \<Rightarrow> nat \<Rightarrow> bool" where
  "ranks_ok m n \<longleftrightarrow> (\<forall>k r. map_of m k = Some r \<longrightarrow> r < n)
     \<and> (\<forall>k k' r. map_of m k = Some r \<and> map_of m k' = Some r \<longrightarrow> k = k')"

lemma ranks_ok_empty: "ranks_ok [] 0"
  by (simp add: ranks_ok_def)

lemma ranks_ok_cons: "ranks_ok m n \<Longrightarrow> map_of m k = None \<Longrightarrow> ranks_ok ((k, n) # m) (Suc n)"
  unfolding ranks_ok_def by (auto simp: less_Suc_eq)

lemma group_ranks_ok: "ranks_ok m n \<Longrightarrow> \<exists>n'. ranks_ok (group_ranks m n ws) n'"
proof (induction ws arbitrary: m n)
  case (Cons w ws)
  then show ?case
    using ranks_ok_cons [OF Cons.prems, of "prefix_id w"] by (cases "map_of m (prefix_id w)") auto
qed auto

lemma lpm_rank_eq_iff:
  assumes "v \<in> set ws" "w \<in> set ws"
  shows "the (map_of (group_ranks [] 0 ws) (prefix_id v)) = the (map_of (group_ranks [] 0 ws) (prefix_id w))
    \<longleftrightarrow> prefix_id v = prefix_id w"
proof -
  obtain r where r: "map_of (group_ranks [] 0 ws) (prefix_id v) = Some r"
    using group_ranks_total [OF assms(1)] by blast
  obtain s where s: "map_of (group_ranks [] 0 ws) (prefix_id w) = Some s"
    using group_ranks_total [OF assms(2)] by blast
  obtain n where "ranks_ok (group_ranks [] 0 ws) n" using group_ranks_ok [OF ranks_ok_empty] by blast
  then have "r = s \<longleftrightarrow> prefix_id v = prefix_id w"
    using r s unfolding ranks_ok_def by (metis option.inject)
  then show ?thesis using r s by simp
qed

lemma fcfs_key_leD:
  "fcfs_key ws v \<le> fcfs_key ws w \<Longrightarrow>
     (w_resume w \<longrightarrow> w_resume v) \<and> (w_resume v = w_resume w \<longrightarrow> w_arrival_seq v \<le> w_arrival_seq w)"
  by (cases "w_resume v"; cases "w_resume w") (simp_all add: fcfs_key_def)

lemma lpm_key_leD:
  "lpm_key ws v \<le> lpm_key ws w \<Longrightarrow>
     (w_resume w \<longrightarrow> w_resume v)
     \<and> (w_resume v = w_resume w \<longrightarrow> fst (snd (lpm_key ws v)) \<le> fst (snd (lpm_key ws w))
          \<and> (fst (snd (lpm_key ws v)) = fst (snd (lpm_key ws w)) \<longrightarrow>
               w_arrival_seq v \<le> w_arrival_seq w))"
  by (cases "w_resume v"; cases "w_resume w") (auto simp: lpm_key_def)

section \<open>Properties\<close>

text \<open>
  Both queue orders serve every waiting request once, preempted (resumed) requests before new
  ones. First-come-first-served goes by arrival within each class. Prefix grouping keeps each
  class's groups together: between two requests of one group and class only requests of that
  group and class are served, in arrival order.
\<close>

theorem waiting_orders:
  fixes ws :: "WaitingReq list" and policy :: SchedulePolicy
  defines "serve \<equiv> (\<lambda>n. ws ! (order_waiting ws policy ! n))"
  assumes "i < j" "j < length ws"
  shows "mset (order_waiting ws policy) = mset [0..<length ws]
    \<and> (w_resume (serve j) \<longrightarrow> w_resume (serve i))
    \<and> (w_resume (serve i) = w_resume (serve j) \<and> (policy = Fcfc \<or> prefix_id (serve i) = prefix_id (serve j))
        \<longrightarrow> w_arrival_seq (serve i) \<le> w_arrival_seq (serve j))
    \<and> (policy = Lpm \<and> w_resume (serve i) = w_resume (serve j) \<and> prefix_id (serve i) = prefix_id (serve j)
        \<longrightarrow> (\<forall>k. i < k \<and> k < j \<longrightarrow> w_resume (serve k) = w_resume (serve i)
              \<and> prefix_id (serve k) = prefix_id (serve i)))"
proof -
  have mem: "serve n \<in> set ws" if "n < length ws" for n
  proof -
    have "order_waiting ws policy ! n \<in> set (order_waiting ws policy)"
      using that by (intro nth_mem) simp
    then show ?thesis by (simp add: serve_def)
  qed
  show ?thesis
  proof (cases policy)
    case Fcfc
    have "fcfs_key ws (serve i) \<le> fcfs_key ws (serve j)"
      using fcfs.rank_mono [of i j ws] assms(2,3) by (simp add: serve_def Fcfc)
    from fcfs_key_leD [OF this] show ?thesis by (simp add: order_waiting_perm Fcfc)
  next
    case Lpm
    have le: "lpm_key ws (serve a) \<le> lpm_key ws (serve b)" if "a \<le> b" "b < length ws" for a b
      using lpm.rank_mono [OF that] by (simp add: serve_def Lpm)
    have rank: "fst (snd (lpm_key ws (serve a))) = fst (snd (lpm_key ws (serve b)))
        \<longleftrightarrow> prefix_id (serve a) = prefix_id (serve b)" if "a < length ws" "b < length ws" for a b
      using lpm_rank_eq_iff [OF mem [OF that(1)] mem [OF that(2)]] by (simp add: lpm_key_def)
    note ij = lpm_key_leD [OF le [OF less_imp_le [OF assms(2)] assms(3)]]
    have between: "w_resume (serve k) = w_resume (serve i) \<and> prefix_id (serve k) = prefix_id (serve i)"
      if same: "w_resume (serve i) = w_resume (serve j)" "prefix_id (serve i) = prefix_id (serve j)"
        and k: "i < k" "k < j" for k
    proof -
      have len: "i < length ws" "k < length ws" using k assms(3) by auto
      note ik = lpm_key_leD [OF le [OF less_imp_le [OF k(1)] len(2)]]
        and kj = lpm_key_leD [OF le [OF less_imp_le [OF k(2)] assms(3)]]
      have res: "w_resume (serve k) = w_resume (serve i)" using ik kj same(1) by blast
      have "fst (snd (lpm_key ws (serve i))) = fst (snd (lpm_key ws (serve j)))"
        using rank [OF len(1) assms(3)] same(2) by blast
      then have "fst (snd (lpm_key ws (serve k))) = fst (snd (lpm_key ws (serve i)))"
        using ik kj res same(1) by (metis order_antisym)
      then show ?thesis using rank [OF len(2,1)] res by blast
    qed
    have "i < length ws" using assms(2,3) by simp
    note rank_ij = rank [OF this assms(3)]
    have arr: "w_arrival_seq (serve i) \<le> w_arrival_seq (serve j)"
      if "w_resume (serve i) = w_resume (serve j)" "prefix_id (serve i) = prefix_id (serve j)"
      using ij that rank_ij by blast
    have "policy \<noteq> Fcfc" by (simp add: Lpm)
    then show ?thesis using ij arr between order_waiting_perm by blast
  qed
qed

definition demo_waiting :: "WaitingReq list" where
  "demo_waiting =
     [\<lparr>w_id = 1, w_arrival_seq = 1, w_resume = False, prefix_id = Some 7, w_prompt_len = 8,
        w_cached_len = 0, max_chunk = 8\<rparr>,
      \<lparr>w_id = 2, w_arrival_seq = 2, w_resume = True, prefix_id = Some 9, w_prompt_len = 8,
        w_cached_len = 0, max_chunk = 8\<rparr>,
      \<lparr>w_id = 3, w_arrival_seq = 3, w_resume = False, prefix_id = Some 7, w_prompt_len = 8,
        w_cached_len = 4, max_chunk = 2\<rparr>]"

lemma demo_order: "order_waiting demo_waiting policy = [1, 0, 2]"
  by (cases policy) (simp_all add: order_waiting_def demo_waiting_def fcfs_key_def lpm_key_def upt_rec)

theorem waiting_orders_witness:
  "w_arrival_seq (demo_waiting ! (order_waiting demo_waiting Lpm ! 1))
     \<le> w_arrival_seq (demo_waiting ! (order_waiting demo_waiting Lpm ! 2))"
  using waiting_orders [of 1 2 demo_waiting Lpm] unfolding demo_order by (simp add: demo_waiting_def)

end
