(* ===== verification/Batch.thy ===== *)
theory Batch
  imports Policy
begin

text \<open>
  Batch selection, \<^verbatim>\<open>crates/scheduler/src/batch.rs\<close>: decode requests first, victims
  when the budget cannot hold them all, then prefill chunks in queue order from what is left.
  The facts on the queue orders come from the interpretations in \<open>Policy\<close>.
\<close>

section \<open>Definitions\<close>

record BatchSelection =
  sel_decode :: "u64 list"
  sel_prefill :: "(u64 \<times> nat \<times> nat) list"
  sel_preempted :: "u64 list"
  kept_waiting :: "u64 list"

text \<open>The prefill loop over the ordered indices, with the remaining budget.\<close>

fun fill_prefill ::
  "WaitingReq list \<Rightarrow> nat \<Rightarrow> nat list \<Rightarrow> (u64 \<times> nat \<times> nat) list \<times> u64 list" where
  "fill_prefill ws remaining [] = ([], [])"
| "fill_prefill ws remaining (i # is) =
     (let w = ws ! i;
          need = w_prompt_len w - w_cached_len w;
          chunk = min (min need (max_chunk w)) remaining
      in if chunk = 0
         then (case fill_prefill ws remaining is of (ps, ks) \<Rightarrow> (ps, w_id w # ks))
         else (case fill_prefill ws (remaining - chunk) is of
                 (ps, ks) \<Rightarrow> ((w_id w, w_cached_len w, w_cached_len w + chunk) # ps, ks)))"

definition select_batch ::
  "WaitingReq list \<Rightarrow> DecodingReq list \<Rightarrow> nat \<Rightarrow> nat \<Rightarrow> SchedulePolicy \<Rightarrow> BatchSelection" where
  "select_batch waiting decoding budget kv_floor policy =
     (let eff = budget - kv_floor;
          keep = min (length decoding) eff;
          victims = order_victims decoding;
          cut = length decoding - keep;
          preempted = map (\<lambda>i. d_id (decoding ! i)) (take cut victims);
          kept = sort (map (\<lambda>i. d_id (decoding ! i)) (drop cut victims));
          remaining = eff - keep
      in case fill_prefill waiting remaining (order_waiting waiting policy) of
           (ps, ks) \<Rightarrow> \<lparr>sel_decode = kept, sel_prefill = ps, sel_preempted = preempted,
                        kept_waiting = ks\<rparr>)"

definition chunk_len :: "u64 \<times> nat \<times> nat \<Rightarrow> nat" where
  "chunk_len p = snd (snd p) - fst (snd p)"

section \<open>The prefill loop\<close>

text \<open>What a prefill assignment must satisfy for the request it came from.\<close>

definition chunk_ok :: "WaitingReq \<Rightarrow> u64 \<times> nat \<times> nat \<Rightarrow> bool" where
  "chunk_ok w p \<longleftrightarrow> fst p = w_id w \<and> fst (snd p) = w_cached_len w \<and> fst (snd p) < snd (snd p)
     \<and> snd (snd p) \<le> w_prompt_len w \<and> chunk_len p \<le> max_chunk w"

lemma fill_prefill_spec:
  assumes "fill_prefill ws r is = (ps, ks)"
  shows "mset (map fst ps) + mset ks = mset (map (\<lambda>i. w_id (ws ! i)) is)
    \<and> sum_list (map chunk_len ps) \<le> r
    \<and> (\<forall>p\<in>set ps. \<exists>i\<in>set is. chunk_ok (ws ! i) p)
    \<and> ((\<exists>i\<in>set is. w_id (ws ! i) \<in> set ks \<and> w_id (ws ! i) \<notin> fst ` set ps
          \<and> w_cached_len (ws ! i) < w_prompt_len (ws ! i) \<and> 0 < max_chunk (ws ! i))
        \<longrightarrow> sum_list (map chunk_len ps) = r)"
  using assms
proof (induction "is" arbitrary: r ps ks)
  case Nil
  then show ?case by simp
next
  case (Cons i "is")
  let ?w = "ws ! i"
  define chunk where "chunk = min (min (w_prompt_len ?w - w_cached_len ?w) (max_chunk ?w)) r"
  show ?case
  proof (cases "chunk = 0")
    case True
    obtain ps' ks' where rec: "fill_prefill ws r is = (ps', ks')" by fastforce
    have eq: "ps = ps'" "ks = w_id ?w # ks'"
      using Cons.prems True rec unfolding fill_prefill.simps Let_def chunk_def [symmetric] by simp_all
    note IH = Cons.IH [OF rec]
    have full: "sum_list (map chunk_len ps') = r"
      if "w_cached_len ?w < w_prompt_len ?w" "0 < max_chunk ?w"
    proof -
      have "r = 0" using that True by (simp add: chunk_def min_def split: if_splits)
      then show ?thesis using IH by simp
    qed
    have rest: "sum_list (map chunk_len ps') = r"
      if "j \<in> set is" "w_id (ws ! j) \<notin> fst ` set ps'" "w_cached_len (ws ! j) < w_prompt_len (ws ! j)"
        "0 < max_chunk (ws ! j)" for j
    proof -
      have "w_id (ws ! j) \<in># mset (map (\<lambda>i. w_id (ws ! i)) is)" using that(1) by auto
      then have "w_id (ws ! j) \<in># mset (map fst ps') + mset ks'" using IH by metis
      then have "w_id (ws ! j) \<in> set ks'" using that(2) by auto
      then show ?thesis using IH that by blast
    qed
    show ?thesis unfolding eq using IH full rest by auto
  next
    case False
    obtain ps' ks' where rec: "fill_prefill ws (r - chunk) is = (ps', ks')" by fastforce
    have eq: "ps = (w_id ?w, w_cached_len ?w, w_cached_len ?w + chunk) # ps'" "ks = ks'"
      using Cons.prems False rec unfolding fill_prefill.simps Let_def chunk_def [symmetric] by simp_all
    note IH = Cons.IH [OF rec]
    have le: "chunk \<le> r" "chunk \<le> w_prompt_len ?w - w_cached_len ?w" "chunk \<le> max_chunk ?w"
      by (simp_all add: chunk_def)
    have ok: "chunk_ok ?w (w_id ?w, w_cached_len ?w, w_cached_len ?w + chunk)"
      using le False by (simp add: chunk_ok_def chunk_len_def)
    show ?thesis unfolding eq using IH le ok by (auto simp: chunk_len_def)
  qed
qed

lemma chunk_ok_pos: "chunk_ok w p \<Longrightarrow> 0 < chunk_len p"
  by (simp add: chunk_ok_def chunk_len_def)

text \<open>The same facts, for the loop as the selector starts it.\<close>

lemma fill_waiting_spec:
  assumes "fill_prefill ws r (order_waiting ws policy) = (ps, ks)"
  shows "mset (map fst ps) + mset ks = mset (map w_id ws)"
    and "sum_list (map chunk_len ps) \<le> r"
    and "p \<in> set ps \<Longrightarrow> \<exists>w\<in>set ws. chunk_ok w p"
    and "w \<in> set ws \<Longrightarrow> w_id w \<notin> fst ` set ps \<Longrightarrow> w_cached_len w < w_prompt_len w \<Longrightarrow>
           0 < max_chunk w \<Longrightarrow> sum_list (map chunk_len ps) = r"
    and "r = 0 \<Longrightarrow> ps = []"
proof -
  note spec = fill_prefill_spec [OF assms]
  note part = spec [THEN conjunct1] and sum = spec [THEN conjunct2, THEN conjunct1]
    and chunks = spec [THEN conjunct2, THEN conjunct2, THEN conjunct1]
    and full = spec [THEN conjunct2, THEN conjunct2, THEN conjunct2]
  show m: "mset (map fst ps) + mset ks = mset (map w_id ws)"
    using part waiting.mset_served [of w_id ws policy] by simp
  show le: "sum_list (map chunk_len ps) \<le> r" by (rule sum)
  show ok: "\<exists>w\<in>set ws. chunk_ok w p" if p: "p \<in> set ps" for p
  proof -
    obtain i where i: "i \<in> set (order_waiting ws policy)" "chunk_ok (ws ! i) p"
      by (rule bexE [OF bspec [OF chunks p]])
    then have "i < length ws" by simp
    then show ?thesis using i(2) nth_mem by blast
  qed
  show "sum_list (map chunk_len ps) = r"
    if w: "w \<in> set ws" "w_id w \<notin> fst ` set ps" "w_cached_len w < w_prompt_len w" "0 < max_chunk w"
  proof -
    obtain i where i: "i < length ws" "w = ws ! i" using w(1) by (auto simp: in_set_conv_nth)
    have "w_id w \<in># mset (map fst ps) + mset ks" unfolding m using w(1) by auto
    then have ks: "w_id w \<in> set ks" using w(2) by auto
    have "i \<in> set (order_waiting ws policy)" using i(1) by simp
    then show ?thesis using full w ks unfolding i(2) by blast
  qed
  show "ps = []" if "r = 0"
  proof (cases ps)
    case (Cons p ps')
    then have "chunk_len p = 0" using le that by simp
    then show ?thesis using ok [of p] chunk_ok_pos [of _ p] Cons by auto
  qed simp
qed

text \<open>The assignments and the kept requests depend only on the sequence of requests served.\<close>

lemma fill_prefill_cong:
  "map ((!) ws) is = map ((!) ws') is' \<Longrightarrow> fill_prefill ws r is = fill_prefill ws' r is'"
proof (induction "is" arbitrary: is' r)
  case Nil
  then show ?case by (cases is') auto
next
  case (Cons i "is")
  then obtain i' js where is': "is' = i' # js" "ws ! i = ws' ! i'"
    "map ((!) ws) is = map ((!) ws') js" by (cases is') auto
  show ?case unfolding is'(1) fill_prefill.simps Let_def is'(2) Cons.IH [OF is'(3)] by simp
qed

section \<open>Properties\<close>

text \<open>
  C17: A batch partitions its inputs: every decoding request is either kept or preempted, as many
  kept as the budget holds and listed by id; every waiting request is either given a chunk or
  kept waiting; and nothing is prefilled when something is preempted.
\<close>

theorem batch_partitions:
  fixes waiting decoding budget kv_floor policy
  defines "sel \<equiv> select_batch waiting decoding budget kv_floor policy"
  shows "mset (sel_decode sel) + mset (sel_preempted sel) = mset (map d_id decoding)
    \<and> sorted (sel_decode sel) \<and> length (sel_decode sel) = min (length decoding) (budget - kv_floor)
    \<and> mset (map fst (sel_prefill sel)) + mset (kept_waiting sel) = mset (map w_id waiting)
    \<and> (sel_preempted sel = [] \<or> sel_prefill sel = [])"
proof -
  let ?keep = "min (length decoding) (budget - kv_floor)"
  obtain ps ks where f: "fill_prefill waiting (budget - kv_floor - ?keep) (order_waiting waiting policy)
      = (ps, ks)" by fastforce
  have sel: "sel_prefill sel = ps" "kept_waiting sel = ks"
    "sel_decode sel = sort (map (\<lambda>i. d_id (decoding ! i)) (drop (length decoding - ?keep) (order_victims decoding)))"
    "sel_preempted sel = map (\<lambda>i. d_id (decoding ! i)) (take (length decoding - ?keep) (order_victims decoding))"
    using f by (simp_all add: sel_def select_batch_def Let_def)
  have "mset (sel_decode sel) + mset (sel_preempted sel) = mset (map d_id decoding)"
    unfolding sel using victims.mset_split_served [of d_id decoding] by (simp add: add.commute)
  moreover have "sorted (sel_decode sel)" "length (sel_decode sel) = ?keep"
    unfolding sel by simp_all
  moreover have "sel_preempted sel = [] \<or> ps = []"
  proof (cases "length decoding \<le> budget - kv_floor")
    case True
    then show ?thesis by (simp add: sel)
  next
    case False
    then show ?thesis using fill_waiting_spec(5) [OF f] by simp
  qed
  ultimately show ?thesis using fill_waiting_spec(1) [OF f] unfolding sel(1,2) by blast
qed

text \<open>
  C18: A batch stays within the budget and wastes none of it. The decode tokens and the prefill
  chunks add up to at most the budget above the floor; each chunk continues its request where the
  cache ends, within the prompt and the request's chunk limit; and if a request that could have
  used tokens got none, the budget is used up.
\<close>

theorem batch_within_budget:
  fixes waiting decoding budget kv_floor policy
  defines "sel \<equiv> select_batch waiting decoding budget kv_floor policy"
  defines "used \<equiv> length (sel_decode sel) + sum_list (map chunk_len (sel_prefill sel))"
  shows "used \<le> budget - kv_floor
    \<and> (\<forall>p\<in>set (sel_prefill sel). \<exists>w\<in>set waiting. chunk_ok w p)
    \<and> (\<forall>w\<in>set waiting. w_id w \<notin> fst ` set (sel_prefill sel) \<and> w_cached_len w < w_prompt_len w
        \<and> 0 < max_chunk w \<longrightarrow> used = budget - kv_floor)"
proof -
  let ?keep = "min (length decoding) (budget - kv_floor)"
  obtain ps ks where f: "fill_prefill waiting (budget - kv_floor - ?keep) (order_waiting waiting policy)
      = (ps, ks)" by fastforce
  have sel: "sel_prefill sel = ps" "length (sel_decode sel) = ?keep"
    using f by (simp_all add: sel_def select_batch_def Let_def)
  have used: "used = ?keep + sum_list (map chunk_len ps)" by (simp add: used_def sel)
  have "used \<le> budget - kv_floor" using used fill_waiting_spec(2) [OF f] by linarith
  moreover have "used = budget - kv_floor"
    if "w \<in> set waiting" "w_id w \<notin> fst ` set ps" "w_cached_len w < w_prompt_len w" "0 < max_chunk w" for w
    using used fill_waiting_spec(4) [OF f that] by linarith
  ultimately show ?thesis using fill_waiting_spec(3) [OF f] unfolding sel(1) by blast
qed

theorem batch_within_budget_witness:
  "length (sel_decode (select_batch demo_waiting [] 9 2 Fcfc))
     + sum_list (map chunk_len (sel_prefill (select_batch demo_waiting [] 9 2 Fcfc))) = 7"
proof -
  have "sel_prefill (select_batch demo_waiting [] 9 2 Fcfc) = [(2, 0, 7)]"
    unfolding select_batch_def Let_def demo_order by (simp add: demo_waiting_def order_victims_def)
  moreover have "demo_waiting ! 0 \<in> set demo_waiting" by (simp add: demo_waiting_def)
  moreover have "w_id (demo_waiting ! 0) = 1" "w_cached_len (demo_waiting ! 0) < w_prompt_len (demo_waiting ! 0)"
    "0 < max_chunk (demo_waiting ! 0)"
    by (simp_all add: demo_waiting_def)
  ultimately show ?thesis
    using batch_within_budget [of demo_waiting "[]" 9 2 Fcfc, THEN conjunct2, THEN conjunct2,
        THEN bspec, of "demo_waiting ! 0"]
    by simp
qed

text \<open>
  Preemption takes the newest arrivals: no kept decoding request arrived after a preempted one
  unless it carries the resume flag and the preempted one does not.
\<close>

theorem victims_are_newest:
  assumes ids: "distinct (map d_id decoding)"
    and v: "v \<in> set decoding" "d_id v \<in> set (sel_preempted (select_batch waiting decoding budget kv_floor policy))"
    and k: "k \<in> set decoding" "d_id k \<in> set (sel_decode (select_batch waiting decoding budget kv_floor policy))"
  shows "(d_resume v \<longrightarrow> d_resume k)
    \<and> (d_resume v = d_resume k \<longrightarrow> d_arrival_seq k \<le> d_arrival_seq v)"
proof -
  define cut where "cut = length decoding - min (length decoding) (budget - kv_floor)"
  obtain i where i: "i \<in> set (take cut (order_victims decoding))" "d_id v = d_id (decoding ! i)"
    using v(2) by (auto simp: select_batch_def Let_def cut_def split: prod.splits)
  obtain j where j: "j \<in> set (drop cut (order_victims decoding))" "d_id k = d_id (decoding ! j)"
    using k(2) by (auto simp: select_batch_def Let_def cut_def split: prod.splits)
  have inj: "inj_on d_id (set decoding)" using ids by (simp add: distinct_map)
  have "i \<in> set (order_victims decoding)" "j \<in> set (order_victims decoding)"
    using i(1) j(1) by (auto dest: in_set_takeD in_set_dropD)
  then have "decoding ! i \<in> set decoding" "decoding ! j \<in> set decoding" by simp_all
  then have "v = decoding ! i" "k = decoding ! j"
    using inj i(2) j(2) v(1) k(1) by (auto dest: inj_onD)
  then have "victim_key decoding v \<le> victim_key decoding k"
    using victims.rank_take_drop [OF i(1) j(1)] by simp
  then show ?thesis
    by (cases "d_resume v"; cases "d_resume k") (simp_all add: victim_key_def word_le_def)
qed

definition demo_decoding :: "DecodingReq list" where
  "demo_decoding = [\<lparr>d_id = 10, d_arrival_seq = 1, d_resume = False\<rparr>,
     \<lparr>d_id = 11, d_arrival_seq = 2, d_resume = False\<rparr>]"

theorem victims_are_newest_witness:
  "d_arrival_seq (demo_decoding ! 0) \<le> d_arrival_seq (demo_decoding ! 1)"
proof -
  have sel: "sel_preempted (select_batch [] demo_decoding 1 0 Fcfc) = [11]"
    "sel_decode (select_batch [] demo_decoding 1 0 Fcfc) = [10]"
    by (simp_all add: select_batch_def Let_def order_victims_def victim_key_def demo_decoding_def
        order_waiting_def)
  show ?thesis
    using victims_are_newest [of demo_decoding "demo_decoding ! 1" "[]" 1 0 Fcfc "demo_decoding ! 0"]
    unfolding sel by (simp add: demo_decoding_def)
qed

text \<open>
  Selection is reproducible: with distinct arrival numbers it does not depend on the order in
  which the waiting (first-come-first-served) and decoding sets are presented.
\<close>

theorem batch_order_independent:
  assumes "mset waiting = mset waiting'" "distinct (map w_arrival_seq waiting)"
    and "mset decoding = mset decoding'" "distinct (map d_arrival_seq decoding)"
  shows "select_batch waiting decoding budget kv_floor Fcfc = select_batch waiting' decoding' budget kv_floor Fcfc"
proof -
  have "inj_on (fcfs_key waiting) (set waiting)"
    using assms(2) by (auto simp: fcfs_key_def distinct_map inj_on_def)
  then have w: "map ((!) waiting) (order_waiting waiting Fcfc) = map ((!) waiting') (order_waiting waiting' Fcfc)"
    using assms(1) by (intro fcfs.served_unique) (auto simp: fcfs_key_def)
  have "inj_on (victim_key decoding) (set decoding)"
    using assms(4) by (auto simp: victim_key_def distinct_map inj_on_def word_uint_eq_iff)
  then have d: "map ((!) decoding) (order_victims decoding) = map ((!) decoding') (order_victims decoding')"
    using assms(3) by (intro victims.served_unique) (auto simp: victim_key_def)
  have len: "length decoding = length decoding'" using assms(3) by (metis size_mset)
  have t: "map (\<lambda>i. d_id (decoding ! i)) (take n (order_victims decoding))
        = map (\<lambda>i. d_id (decoding' ! i)) (take n (order_victims decoding'))"
    and r: "map (\<lambda>i. d_id (decoding ! i)) (drop n (order_victims decoding))
        = map (\<lambda>i. d_id (decoding' ! i)) (drop n (order_victims decoding'))" for n
    using arg_cong [OF d, of "\<lambda>xs. map d_id (take n xs)"] arg_cong [OF d, of "\<lambda>xs. map d_id (drop n xs)"]
    by (simp_all add: take_map drop_map comp_def)
  show ?thesis
    unfolding select_batch_def Let_def t r len fill_prefill_cong [OF w] by (rule refl)
qed

theorem batch_order_independent_witness:
  "select_batch (rev demo_waiting) (rev demo_decoding) 5 1 Fcfc = select_batch demo_waiting demo_decoding 5 1 Fcfc"
  using batch_order_independent [of "rev demo_waiting" demo_waiting "rev demo_decoding" demo_decoding]
  by (simp add: demo_waiting_def demo_decoding_def)

text \<open>With no budget, every decoding request is a victim and nothing is prefilled.\<close>

lemma select_batch_no_budget:
  "set (sel_preempted (select_batch ws ds 0 flr pol)) = set (map d_id ds)" "sel_prefill (select_batch ws ds 0 flr pol) = []"
proof -
  let ?f = "\<lambda>i. d_id (ds ! i)"
  have sel: "sel_preempted (select_batch ws ds 0 flr pol) = map ?f (take (length ds) (order_victims ds))"
    by (simp add: select_batch_def Let_def split: prod.split)
  have "mset (sel_preempted (select_batch ws ds 0 flr pol)) = mset (map d_id ds)"
    using victims.mset_served [of d_id ds] by (simp add: sel)
  then show "set (sel_preempted (select_batch ws ds 0 flr pol)) = set (map d_id ds)" by (rule mset_eq_setD)
  obtain ps ks where f: "fill_prefill ws 0 (order_waiting ws pol) = (ps, ks)" by fastforce
  then show "sel_prefill (select_batch ws ds 0 flr pol) = []"
    using fill_waiting_spec(5) [OF f] by (simp add: select_batch_def Let_def)
qed

end
