(* ===== verification/Admission.thy ===== *)
theory Admission
  imports Prelude Float_Round
begin

text \<open>
  Admission control, \<^verbatim>\<open>crates/scheduler/src/admission.rs\<close>: the per-request estimate
  \<open>(a, b)\<close>, the moving average of output lengths, the busy test, the peak formula and the
  admission gates. Counts are \<^verbatim>\<open>u64\<close> with saturating operations as in the source;
  plain additions are checked (\<open>None\<close> is the overflow panic). \<^verbatim>\<open>f64\<close> expressions are
  rounded operation by operation.
\<close>

section \<open>Definitions\<close>

definition ADDED_OUTPUT_LEN :: nat where "ADDED_OUTPUT_LEN = 16"
definition EMA_INIT :: rat where "EMA_INIT = 2048"
definition EMA_FLOOR :: rat where "EMA_FLOOR = 64"

record RequestEstimate =
  est_a :: nat
  est_b :: nat

record EstimateInput =
  input_len :: nat
  max_new_tokens :: nat
  has_out_len :: nat
  shm_kv_len :: nat
  chunked_remaining :: nat
  chunk_size :: nat
  busy :: bool
  ema_req_out_len :: nat
  max_waiting_tokens :: nat

text \<open>\<^verbatim>\<open>x.ceil() as u64\<close> of a non-negative value.\<close>

definition ceil_u64 :: "rat \<Rightarrow> nat" where
  "ceil_u64 x = to_u64 (of_int \<lceil>x\<rceil>)"

definition estimate :: "EstimateInput \<Rightarrow> RequestEstimate option" where
  "estimate i =
     Option.bind (chk_add (input_len i) (has_out_len i)) (\<lambda>s.
     Option.bind (chk_add s 1) (\<lambda>s1.
     Option.bind (chk_add (shm_kv_len i) 1) (\<lambda>k1.
       let a = max s1 k1;
           b = (if busy i then max_new_tokens i
                else let observed = max (ceil_u64 (f64 (f64 (11 / 10) * f64 (of_nat (has_out_len i)))))
                                        (ema_req_out_len i)
                     in min (max_new_tokens i) observed);
           b1 = sat_add b ADDED_OUTPUT_LEN
       in if 0 < chunked_remaining i \<and> 0 < chunk_size i
          then let chunks = div_ceil (chunked_remaining i) (chunk_size i) in
               Option.bind (chk_add (max_waiting_tokens i) 1) (\<lambda>w1.
                 Some \<lparr>est_a = a, est_b = sat_add b1 (sat_mul chunks w1)\<rparr>)
          else Some \<lparr>est_a = a, est_b = b1\<rparr>)))"

record EmaTracker =
  ema :: rat
  alpha :: rat

definition ema_new :: EmaTracker where
  "ema_new = \<lparr>ema = EMA_INIT, alpha = f64 (6 / 10)\<rparr>"

definition ema_update :: "EmaTracker \<Rightarrow> rat \<Rightarrow> EmaTracker \<times> rat" where
  "ema_update t actual_out_len =
     (let al = (if ema t < actual_out_len then f64 (9 / 10) else f64 (6 / 10));
          nxt = max (f64 (f64 (al * ema t) + f64 (f64 (1 - al) * actual_out_len))) EMA_FLOOR
      in (t\<lparr>alpha := al, ema := nxt\<rparr>, nxt))"

definition is_busy :: "nat \<Rightarrow> nat \<Rightarrow> rat \<Rightarrow> bool" where
  "is_busy kv_used_tokens max_total_tokens ratio \<longleftrightarrow>
     0 < max_total_tokens \<and> ratio \<le> 1
     \<and> ratio \<le> f64 (f64 (of_nat kv_used_tokens) / f64 (of_nat max_total_tokens))"

text \<open>
  The peak loop over the sorted estimates, with the index, the maximum and the running sum.
  Ids are dropped: no result depends on them.
\<close>

fun peak_loop :: "nat \<Rightarrow> nat \<Rightarrow> nat \<Rightarrow> RequestEstimate list \<Rightarrow> nat option" where
  "peak_loop i peak cur [] = Some peak"
| "peak_loop i peak cur (e # es) =
     Option.bind (chk_add cur (est_a e)) (\<lambda>cur'.
       peak_loop (i + 1) (max peak (sat_add (sat_mul (est_b e) (i + 1)) cur')) cur' es)"

definition peak_tokens :: "('id \<times> RequestEstimate) list \<Rightarrow> nat option" where
  "peak_tokens estimates =
     peak_loop 0 0 0 (map snd (sort_key (\<lambda>x. - int (est_b (snd x))) estimates))"

definition pages_needed :: "nat \<Rightarrow> nat \<Rightarrow> nat option" where
  "pages_needed tokens page_size = (if page_size = 0 then None else Some (div_ceil tokens page_size))"

definition token_budget_with_slack :: "nat \<Rightarrow> nat \<Rightarrow> nat \<Rightarrow> nat option" where
  "token_budget_with_slack tokens page_size running_reqs =
     Option.bind (pages_needed tokens page_size) (\<lambda>p.
     Option.bind (chk_sub page_size 1) (\<lambda>s.
     Option.bind (chk_mul running_reqs s) (\<lambda>slack. chk_add p slack)))"

record AdmissionConfig =
  max_total_pages :: nat
  page_size :: nat
  running_max_req_size :: nat
  batch_max_tokens :: nat
  chunked_budget_multiplier :: nat
  router_token_ratio :: rat
  cfg_max_waiting_tokens :: nat

datatype DenyReason = PeakBudget | TooManyRequests | FirstChunkSum

datatype AdmissionVerdict = Admitted | Denied DenyReason

text \<open>\<^verbatim>\<open>iter().sum()\<close> on \<^verbatim>\<open>u64\<close>.\<close>

fun chk_sum :: "nat \<Rightarrow> nat list \<Rightarrow> nat option" where
  "chk_sum acc [] = Some acc"
| "chk_sum acc (x # xs) = Option.bind (chk_add acc x) (\<lambda>s. chk_sum s xs)"

definition check_admission ::
  "('id \<times> RequestEstimate) list \<Rightarrow> nat option \<Rightarrow> nat \<Rightarrow> bool \<Rightarrow> AdmissionConfig \<Rightarrow> AdmissionVerdict option"
where
  "check_admission working first_chunk step_first_chunk_sum busy_now config =
     (if running_max_req_size config < length working then Some (Denied TooManyRequests)
      else
        Option.bind (chk_mul (max_total_pages config) (page_size config)) (\<lambda>max_total_tokens.
        Option.bind (chk_sum 0 (map (est_a \<circ> snd) working)) (\<lambda>sum_a.
        Option.bind (chk_sum 0 (map (est_b \<circ> snd) working)) (\<lambda>sum_b.
          let totals_ok = (if busy_now then sat_add sum_a sum_b \<le> max_total_tokens
                           else sum_a \<le> max_total_tokens \<and> sum_b \<le> max_total_tokens)
          in if \<not> totals_ok then Some (Denied PeakBudget)
             else Option.bind (peak_tokens working) (\<lambda>peak.
               if max_total_tokens < peak then Some (Denied PeakBudget)
               else case first_chunk of
                 None \<Rightarrow> Some Admitted
               | Some fc \<Rightarrow>
                   if sat_mul (batch_max_tokens config) (chunked_budget_multiplier config)
                      < sat_add step_first_chunk_sum fc
                   then Some (Denied FirstChunkSum) else Some Admitted)))))"

section \<open>The peak as a maximum over the working set\<close>

text \<open>
  The peak of a set of estimates: for every request, its decode footprint times the number of
  requests that decode at least as long, on top of their prompts.
\<close>

definition peak_at :: "RequestEstimate multiset \<Rightarrow> RequestEstimate \<Rightarrow> nat" where
  "peak_at M e = (let G = filter_mset (\<lambda>x. est_b e \<le> est_b x) M
     in sat_add (sat_mul (est_b e) (size G)) (\<Sum>x\<in>#G. est_a x))"

definition peak_spec :: "RequestEstimate multiset \<Rightarrow> nat option" where
  "peak_spec M = (if (\<Sum>x\<in>#M. est_a x) \<le> u64_max
     then Some (if M = {#} then 0 else Max (peak_at M ` set_mset M)) else None)"

lemma sat_add_mono: "a \<le> a' \<Longrightarrow> b \<le> b' \<Longrightarrow> sat_add a b \<le> sat_add a' b'"
  by (simp add: sat_add_def min_le_iff_disj)

lemma sat_mul_mono: "a \<le> a' \<Longrightarrow> b \<le> b' \<Longrightarrow> sat_mul a b \<le> sat_mul a' b'"
  unfolding sat_mul_def by (meson min.mono mult_le_mono order_refl)

lemma sat_add_le: "sat_add a b \<le> a + b" and sat_mul_le: "sat_mul a b \<le> a * b"
  by (simp_all add: sat_add_def sat_mul_def)

text \<open>The value of the loop body at index \<open>k\<close>.\<close>

definition peak_val :: "RequestEstimate list \<Rightarrow> nat \<Rightarrow> nat" where
  "peak_val es k = sat_add (sat_mul (est_b (es ! k)) (k + 1)) (sum_list (map est_a (take (Suc k) es)))"

lemma peak_loop_eq:
  "peak_loop (length pre) peak (sum_list (map est_a pre)) es =
     (if sum_list (map est_a (pre @ es)) \<le> u64_max \<or> es = []
      then Some (foldl (\<lambda>m k. max m (peak_val (pre @ es) k)) peak [length pre..<length (pre @ es)])
      else None)"
proof (induction es arbitrary: pre peak)
  case Nil
  then show ?case by simp
next
  case (Cons e es)
  let ?pre = "pre @ [e]"
  have v: "peak_val (pre @ e # es) (length pre)
      = sat_add (sat_mul (est_b e) (length pre + 1)) (sum_list (map est_a ?pre))"
    by (simp add: peak_val_def)
  have r: "[length pre..<length (pre @ e # es)] = length pre # [length ?pre..<length (?pre @ es)]"
    by (simp add: upt_conv_Cons del: upt_Suc)
  show ?case
  proof (cases "sum_list (map est_a ?pre) \<le> u64_max")
    case True
    then have c: "chk_add (sum_list (map est_a pre)) (est_a e) = Some (sum_list (map est_a ?pre))"
      by (simp add: chk_add_def)
    let ?m = "max peak (peak_val (pre @ e # es) (length pre))"
    have "peak_loop (length pre) peak (sum_list (map est_a pre)) (e # es)
        = peak_loop (length ?pre) ?m (sum_list (map est_a ?pre)) es"
      by (simp only: peak_loop.simps c bind.simps v) simp
    also have "\<dots> = (if sum_list (map est_a (?pre @ es)) \<le> u64_max \<or> es = []
        then Some (foldl (\<lambda>m k. max m (peak_val (?pre @ es) k)) ?m [length ?pre..<length (?pre @ es)])
        else None)"
      by (rule Cons.IH)
    also have "\<dots> = (if sum_list (map est_a (pre @ e # es)) \<le> u64_max \<or> e # es = []
        then Some (foldl (\<lambda>m k. max m (peak_val (pre @ e # es) k)) peak
          [length pre..<length (pre @ e # es)]) else None)"
      unfolding r foldl_Cons using True by auto
    finally show ?thesis .
  next
    case False
    then have c: "chk_add (sum_list (map est_a pre)) (est_a e) = None"
      by (simp add: chk_add_def)
    then show ?thesis using False by simp
  qed
qed

lemma foldl_max: "foldl (\<lambda>m k. max m (f k)) (p :: nat) ks = foldr max (map f ks) p"
proof (induction ks arbitrary: p)
  case Nil
  then show ?case by simp
next
  case (Cons k ks)
  have "foldr max xs (max p q) = max q (foldr max xs p)" for xs and q :: nat
    by (induction xs) auto
  then show ?case using Cons by simp
qed

lemma foldr_max_Max: "foldr max xs (0 :: nat) = (if xs = [] then 0 else Max (set xs))"
  by (induction xs) auto

text \<open>In a list sorted by decreasing \<open>b\<close>, the requests that decode at least as long form a prefix.\<close>

lemma filter_ge_prefix:
  assumes "sorted_wrt (\<lambda>x y. est_b y \<le> est_b x) es"
  shows "\<exists>m. filter (\<lambda>x. v \<le> est_b x) es = take m es \<and> m \<le> length es"
  using assms
proof (induction es)
  case Nil
  then show ?case by simp
next
  case (Cons e es)
  show ?case
  proof (cases "v \<le> est_b e")
    case True
    then show ?thesis using Cons by (auto intro: exI [of _ "Suc _"])
  next
    case False
    then have "filter (\<lambda>x. v \<le> est_b x) (e # es) = take 0 (e # es)"
      using Cons.prems by (auto simp: filter_empty_conv)
    then show ?thesis by (metis le0)
  qed
qed

lemma peak_at_list:
  "peak_at (mset es) e = sat_add (sat_mul (est_b e) (length (filter (\<lambda>x. est_b e \<le> est_b x) es)))
     (sum_list (map est_a (filter (\<lambda>x. est_b e \<le> est_b x) es)))"
proof -
  have "filter_mset (\<lambda>x. est_b e \<le> est_b x) (mset es) = mset (filter (\<lambda>x. est_b e \<le> est_b x) es)"
    by simp
  then show ?thesis
    unfolding peak_at_def Let_def by (simp only: size_mset flip: mset_map sum_mset_sum_list)
qed

lemma peak_val_le_at:
  assumes "sorted_wrt (\<lambda>x y. est_b y \<le> est_b x) es" "k < length es"
  shows "peak_val es k \<le> peak_at (mset es) (es ! k)"
proof -
  let ?P = "\<lambda>x. est_b (es ! k) \<le> est_b x"
  obtain m where m: "filter ?P es = take m es" "m \<le> length es"
    using filter_ge_prefix [OF assms(1)] by blast
  have "Suc k \<le> m"
  proof (rule ccontr)
    assume "\<not> Suc k \<le> m"
    then have "es ! k \<in> set (drop m es)"
      using assms(2) by (auto simp: set_conv_nth intro!: exI [of _ "k - m"])
    moreover have "filter ?P (drop m es) = []"
    proof -
      have "set (take m es) \<subseteq> {x. ?P x}" unfolding m(1) [symmetric] by auto
      then have "filter ?P (take m es) = take m es" by (auto intro: filter_True)
      moreover have "filter ?P (take m es) @ filter ?P (drop m es) = take m es"
        unfolding filter_append [symmetric] append_take_drop_id by (rule m(1))
      ultimately show ?thesis by simp
    qed
    ultimately have "\<not> ?P (es ! k)" by (auto simp: filter_empty_conv)
    then show False by simp
  qed
  moreover have "sum_list (map est_a (take (Suc k) es)) \<le> sum_list (map est_a (take m es))"
  proof -
    have "take m es = take (Suc k) es @ take (m - Suc k) (drop (Suc k) es)"
      using \<open>Suc k \<le> m\<close> by (metis le_add_diff_inverse take_add)
    then show ?thesis by simp
  qed
  ultimately show ?thesis
    unfolding peak_at_list m(1) peak_val_def using m(2)
    by (intro sat_add_mono sat_mul_mono) auto
qed

lemma peak_at_le_val:
  assumes "sorted_wrt (\<lambda>x y. est_b y \<le> est_b x) es" "e \<in> set es"
  obtains k where "k < length es" "peak_at (mset es) e \<le> peak_val es k"
proof -
  let ?P = "\<lambda>x. est_b e \<le> est_b x"
  obtain m where m: "filter ?P es = take m es" "m \<le> length es"
    using filter_ge_prefix [OF assms(1)] by blast
  have "e \<in> set (filter ?P es)" using assms(2) by simp
  then have m0: "0 < m" using m(1) by (cases m) auto
  then have mm: "m - 1 < length es" "Suc (m - 1) = m" using m(2) by auto
  have "take m es ! (m - 1) \<in> set (take m es)" using m0 mm by (intro nth_mem) auto
  then have "es ! (m - 1) \<in> set (take m es)" using m0 by simp
  then have "?P (es ! (m - 1))" using m(1) by (metis mem_Collect_eq set_filter)
  then have "peak_at (mset es) e \<le> peak_val es (m - 1)"
    unfolding peak_at_list m(1) peak_val_def mm(2) using mm m(2)
    by (intro sat_add_mono sat_mul_mono) auto
  then show thesis using that mm(1) by blast
qed

lemma peak_tokens_spec: "peak_tokens es = peak_spec (image_mset snd (mset es))"
proof -
  define xs where "xs = map snd (sort_key (\<lambda>x. - int (est_b (snd x))) es)"
  have mset: "mset xs = image_mset snd (mset es)" by (simp add: xs_def)
  have "sorted (map (\<lambda>x. - int (est_b (snd x))) (sort_key (\<lambda>x. - int (est_b (snd x))) es))"
    by (rule sorted_sort_key)
  then have srt: "sorted_wrt (\<lambda>x y. est_b y \<le> est_b x) xs"
    by (simp add: xs_def sorted_wrt_map)
  have "peak_tokens es = peak_loop 0 0 0 xs" by (simp add: peak_tokens_def xs_def)
  also have "\<dots> = (if sum_list (map est_a xs) \<le> u64_max \<or> xs = []
      then Some (foldr max (map (peak_val xs) [0..<length xs]) 0) else None)"
    using peak_loop_eq [of "[]" 0 xs] by (simp add: foldl_max)
  also have "\<dots> = peak_spec (mset xs)"
  proof (cases "xs = []")
    case True
    then show ?thesis by (simp add: peak_spec_def)
  next
    case False
    let ?A = "peak_val xs ` {0..<length xs}" and ?B = "peak_at (mset xs) ` set xs"
    have "Max ?A \<le> Max ?B"
    proof (rule Max.boundedI)
      fix a assume "a \<in> ?A"
      then obtain k where k: "k < length xs" "a = peak_val xs k" by auto
      then have "a \<le> peak_at (mset xs) (xs ! k)" using peak_val_le_at [OF srt] by simp
      also have "\<dots> \<le> Max ?B" using k(1) by (intro Max_ge) auto
      finally show "a \<le> Max ?B" .
    qed (use False in auto)
    moreover have "Max ?B \<le> Max ?A"
    proof (rule Max.boundedI)
      fix b assume "b \<in> ?B"
      then obtain e where "e \<in> set xs" "b = peak_at (mset xs) e" by auto
      then obtain k where k: "k < length xs" "b \<le> peak_val xs k" using peak_at_le_val [OF srt] by metis
      note k(2)
      also have "peak_val xs k \<le> Max ?A" using k(1) by (intro Max_ge) auto
      finally show "b \<le> Max ?A" .
    qed (use False in auto)
    ultimately have "Max ?A = Max ?B" by simp
    moreover have "(\<Sum>x\<in>#mset xs. est_a x) = sum_list (map est_a xs)"
      by (simp only: flip: mset_map sum_mset_sum_list)
    ultimately show ?thesis using False by (simp add: peak_spec_def foldr_max_Max)
  qed
  finally show ?thesis by (simp only: mset)
qed

section \<open>The gates\<close>

lemma chk_sum_Some: "chk_sum acc xs = Some s \<longleftrightarrow> s = acc + sum_list xs \<and> (xs = [] \<or> s \<le> u64_max)"
proof (induction xs arbitrary: acc)
  case Nil
  then show ?case by auto
next
  case (Cons x xs)
  have "chk_sum acc (x # xs) = Some s \<longleftrightarrow> acc + x \<le> u64_max \<and> chk_sum (acc + x) xs = Some s"
    by (simp add: chk_add_def)
  then show ?case using Cons.IH [of "acc + x"] by (cases xs) auto
qed

text \<open>The decode footprint of a request group is at most the sum of their \<open>b\<close>.\<close>

lemma peak_at_le_sum:
  "peak_at M e \<le> (\<Sum>x\<in>#M. est_a x) + (\<Sum>x\<in>#M. est_b x)"
proof -
  let ?G = "filter_mset (\<lambda>x. est_b e \<le> est_b x) M"
  have b: "est_b e * size G \<le> (\<Sum>x\<in>#G. est_b x)" if "\<forall>x\<in>#G. est_b e \<le> est_b x" for G
    using that by (induction G) auto
  have sub: "(\<Sum>x\<in>#?G. f x) \<le> (\<Sum>x\<in>#M. f x)" for f :: "RequestEstimate \<Rightarrow> nat"
    by (induction M) auto
  have "peak_at M e \<le> sat_mul (est_b e) (size ?G) + (\<Sum>x\<in>#?G. est_a x)"
    unfolding peak_at_def Let_def by (rule sat_add_le)
  also have "\<dots> \<le> est_b e * size ?G + (\<Sum>x\<in>#?G. est_a x)" using sat_mul_le by simp
  also have "\<dots> \<le> (\<Sum>x\<in>#?G. est_b x) + (\<Sum>x\<in>#?G. est_a x)" using b [of ?G] by simp
  also have "\<dots> \<le> (\<Sum>x\<in>#M. est_b x) + (\<Sum>x\<in>#M. est_a x)" using sub by (intro add_mono)
  finally show ?thesis by (simp add: add.commute)
qed

lemma peak_spec_Some:
  assumes "peak_spec M = Some p"
  shows "p \<le> (\<Sum>x\<in>#M. est_a x) + (\<Sum>x\<in>#M. est_b x)" "\<And>e. e \<in># M \<Longrightarrow> peak_at M e \<le> p"
proof -
  have p: "p = (if M = {#} then 0 else Max (peak_at M ` set_mset M))"
    using assms by (simp add: peak_spec_def split: if_splits)
  show "p \<le> (\<Sum>x\<in>#M. est_a x) + (\<Sum>x\<in>#M. est_b x)"
  proof (cases "M = {#}")
    case False
    then have "p \<in> peak_at M ` set_mset M" using p Max_in [of "peak_at M ` set_mset M"] by auto
    then show ?thesis using peak_at_le_sum by auto
  qed (simp add: p)
  show "peak_at M e \<le> p" if "e \<in># M" for e
  proof -
    have "M \<noteq> {#}" using that by auto
    then show ?thesis using p that by simp
  qed
qed

text \<open>
  The tokens held at decode step \<open>t\<close> when every request \<open>x\<close> of the working set keeps
  \<open>est_a x + t\<close> tokens until it has decoded \<open>est_b x\<close> steps.
\<close>

definition demand :: "RequestEstimate multiset \<Rightarrow> nat \<Rightarrow> nat" where
  "demand M t = (\<Sum>x\<in>#filter_mset (\<lambda>x. t \<le> est_b x) M. est_a x + t)"

lemma demand_le_peak:
  assumes p: "peak_spec M = Some p" and small: "p < u64_max"
  shows "demand M t \<le> p"
proof (cases "filter_mset (\<lambda>x. t \<le> est_b x) M = {#}")
  case True
  then show ?thesis unfolding demand_def by (simp only: image_mset_empty sum_mset.empty)
next
  case False
  let ?L = "filter_mset (\<lambda>x. t \<le> est_b x) M"
  define v where "v = Min (est_b ` set_mset ?L)"
  have "v \<in> est_b ` set_mset ?L" unfolding v_def using False by (intro Min_in) auto
  then obtain e where e: "e \<in># M" "t \<le> est_b e" "est_b e = v" by auto
  have "v \<le> est_b x" if "x \<in># M" "t \<le> est_b x" for x
    unfolding v_def using that by (intro Min_le) auto
  then have L: "?L = filter_mset (\<lambda>x. est_b e \<le> est_b x) M"
    using e by (intro filter_mset_cong) auto
  have "sat_add (sat_mul (est_b e) (size ?L)) (\<Sum>x\<in>#?L. est_a x) \<le> p"
    using peak_spec_Some(2) [OF p e(1)] by (simp add: peak_at_def L Let_def)
  then have "est_b e * size ?L + (\<Sum>x\<in>#?L. est_a x) \<le> p"
    using small by (auto simp: sat_add_def sat_mul_def min_def split: if_splits)
  moreover have "demand M t \<le> est_b e * size ?L + (\<Sum>x\<in>#?L. est_a x)"
    unfolding demand_def using e(2) by (simp add: sum_mset.distrib)
  ultimately show ?thesis by linarith
qed

section \<open>Properties\<close>

text \<open>
  The peak is a function of the set of estimates alone: it equals the maximum over the
  requests of \<open>b\<close> times the number of requests with at least that \<open>b\<close>, plus their \<open>a\<close> (saturating,
  and a panic exactly when the sum of the \<open>a\<close> overflows). So neither the order of the working set
  nor the order of ties in the sort matters.
\<close>

theorem peak_tokens_order_independent:
  "peak_tokens es = peak_spec (image_mset snd (mset es))"
  by (rule peak_tokens_spec)

text \<open>
  C19: An admitted working set fits at every moment: when every request keeps its footprint \<open>a\<close> plus
  one token per decode step and ends after \<open>b\<close> steps, the tokens held at any step \<open>t\<close> are within
  the pool, and so is the number of requests within its limit.
\<close>

theorem admitted_fits_at_every_step:
  assumes "check_admission working first_chunk step_sum is_busy_now config = Some Admitted"
    and "max_total_pages config * page_size config < u64_max"
  shows "demand (image_mset snd (mset working)) t \<le> max_total_pages config * page_size config
    \<and> length working \<le> running_max_req_size config"
proof -
  obtain p where p: "peak_tokens working = Some p"
    and le: "p \<le> max_total_pages config * page_size config"
    and n: "length working \<le> running_max_req_size config"
    using assms(1) by (auto simp: check_admission_def Let_def bind_eq_Some_conv not_less
        split: if_splits option.splits)
  have "demand (image_mset snd (mset working)) t \<le> p"
    using p le assms(2) by (intro demand_le_peak) (simp_all add: peak_tokens_spec)
  then show ?thesis using le n by linarith
qed

definition demo_config :: AdmissionConfig where
  "demo_config = \<lparr>max_total_pages = 3, page_size = 4, running_max_req_size = 8,
     batch_max_tokens = 64, chunked_budget_multiplier = 2, router_token_ratio = 1 / 2,
     cfg_max_waiting_tokens = 1\<rparr>"

definition demo_working :: "(nat \<times> RequestEstimate) list" where
  "demo_working = [(1, \<lparr>est_a = 1, est_b = 2\<rparr>), (2, \<lparr>est_a = 2, est_b = 9\<rparr>)]"

lemmas admission_eval = check_admission_def peak_tokens_def demo_working_def demo_config_def
  chk_add_def chk_mul_def sat_add_def sat_mul_def u64_max_def

lemma demo_peak: "peak_tokens demo_working = Some 11"
  by (simp add: admission_eval)

lemma demo_admitted: "check_admission demo_working (Some 3) 5 False demo_config = Some Admitted"
  using demo_peak by (simp add: admission_eval)

theorem admitted_fits_at_every_step_witness: "demand (image_mset snd (mset demo_working)) 2 \<le> 12"
  using admitted_fits_at_every_step [OF demo_admitted, of 2] by (simp add: demo_config_def u64_max_def)

text \<open>
  The peak never exceeds the totals \<open>\<Sum>a + \<Sum>b\<close>. So when the pool is busy the totals gate is the
  stronger one and the peak gate behind it never rejects; the comment in the code says the
  opposite. A working set that the peak gate would accept and the totals gate denies exists.
\<close>

theorem busy_totals_gate_is_stronger:
  "(case peak_tokens es of None \<Rightarrow> True
     | Some p \<Rightarrow> p \<le> sum_list (map (est_a \<circ> snd) es) + sum_list (map (est_b \<circ> snd) es))
   \<and> check_admission demo_working None 0 True demo_config = Some (Denied PeakBudget)
   \<and> (\<exists>p. peak_tokens demo_working = Some p
        \<and> p \<le> max_total_pages demo_config * page_size demo_config)"
proof -
  have sums: "(\<Sum>x\<in>#image_mset snd (mset es). f x) = sum_list (map (f \<circ> snd) es)"
    for f :: "RequestEstimate \<Rightarrow> nat"
    by (induction es) auto
  have "p \<le> sum_list (map (est_a \<circ> snd) es) + sum_list (map (est_b \<circ> snd) es)"
    if "peak_tokens es = Some p" for p
    using peak_spec_Some(1) [of "image_mset snd (mset es)" p] that by (simp only: peak_tokens_spec sums)
  then show ?thesis using demo_peak by (auto simp: admission_eval split: option.split)
qed

text \<open>
  The estimate is conservative: the footprint covers the prompt, the output so far and one more
  token, as well as a shared prefix; the estimate made when busy is at least the one made when
  idle; and the remaining output is at least the slack.
\<close>

theorem estimate_conservative:
  assumes "estimate (i\<lparr>busy := False\<rparr>) = Some e"
  shows "\<exists>e'. estimate (i\<lparr>busy := True\<rparr>) = Some e' \<and> est_a e' = est_a e \<and> est_b e \<le> est_b e'
    \<and> input_len i + has_out_len i < est_a e \<and> shm_kv_len i < est_a e \<and> ADDED_OUTPUT_LEN \<le> est_b e"
proof -
  have mono: "sat_add x z \<le> sat_add y z" if "x \<le> y" for x y z using that by (rule sat_add_mono) simp
  have low: "ADDED_OUTPUT_LEN \<le> sat_add x ADDED_OUTPUT_LEN" for x
    by (simp add: sat_add_def ADDED_OUTPUT_LEN_def u64_max_def)
  have up: "x \<le> u64_max \<Longrightarrow> x \<le> sat_add x z" for x z by (simp add: sat_add_def)
  have cap: "sat_add x z \<le> u64_max" for x z by (simp add: sat_add_def)
  show ?thesis
    using assms
    by (auto simp: estimate_def bind_eq_Some_conv Let_def low mono
        intro: order_trans [OF low up [OF cap]] split: if_splits)
qed

definition demo_input :: EstimateInput where
  "demo_input = \<lparr>input_len = 5, max_new_tokens = 40, has_out_len = 20, shm_kv_len = 8,
     chunked_remaining = 10, chunk_size = 4, busy = False, ema_req_out_len = 3, max_waiting_tokens = 2\<rparr>"

lemma demo_estimate: "estimate demo_input = Some \<lparr>est_a = 26, est_b = 47\<rparr>"
proof -
  have "f64 (f64 (11 / 10) * f64 20) = 22" by code_simp
  then show ?thesis
    by (simp add: estimate_def demo_input_def chk_add_def sat_add_def sat_mul_def u64_max_def
        ADDED_OUTPUT_LEN_def ceil_u64_def to_u64_def div_ceil_def)
qed

theorem estimate_conservative_witness:
  "\<exists>e'. estimate (demo_input\<lparr>busy := True\<rparr>) = Some e' \<and> 47 \<le> est_b e'"
proof -
  have "demo_input\<lparr>busy := False\<rparr> = demo_input" by (simp add: demo_input_def)
  then show ?thesis using estimate_conservative [of demo_input] demo_estimate by auto
qed

end
