(* ===== verification/Radix.thy ===== *)
theory Radix
  imports Ordered_Map "HOL-Library.List_Lexorder"
begin

text \<open>
  The token-prefix cache of \<^verbatim>\<open>crates/scheduler/src/radix.rs\<close>: a trie over tokens whose
  nodes may carry an entry (a run of pages with a recency stamp), with counts of entries per
  subtree; lookup of the longest page-aligned prefix, insertion with eviction of the oldest
  entries, and removal with pruning. This theory holds the data and the operations; the proofs
  are in \<open>Radix_Inv\<close>.

  The ordered maps of children are association lists sorted by token. A panic (\<^verbatim>\<open>expect\<close>
  on \<^verbatim>\<open>None\<close>, a debug assertion, an underflow) is \<open>None\<close> in the inner operations and
  \<open>Panic\<close> in \<open>insert\<close>.
\<close>

section \<open>Data\<close>

definition DEFAULT_BLOCK :: nat where "DEFAULT_BLOCK = 32"
definition MIN_BLOCKS :: nat where "MIN_BLOCKS = 2"

record PrefixHit =
  hit_base_page :: nat
  hit_pages :: nat
  hit_key_len :: nat

record Evicted =
  ev_base_page :: nat
  ev_pages :: nat

record EntryView =
  ev_key :: "nat list"
  view_base_page :: nat
  view_pages :: nat

datatype RadixError =
    EmptyKey
  | ZeroPages
  | PagesBeyondKey nat nat
  | CacheDisabled
  | EntryExceedsBudget nat nat

record Entry =
  e_base_page :: nat
  e_pages :: nat
  e_stamp :: nat

datatype TrieNode =
  TrieNode (children: "(nat \<times> TrieNode) list") (entry: "Entry option") (subtree_entries: nat)

record TokenRadixCache =
  rc_block :: nat
  rc_max_pages :: nat
  cached_pages :: nat
  n_entries :: nat
  rc_stamp :: nat
  root :: TrieNode

definition empty_node :: TrieNode where
  "empty_node = TrieNode [] None 0"

text \<open>\<open>None\<close> is the assertion on the block size.\<close>

definition new_with_block :: "nat \<Rightarrow> nat \<Rightarrow> TokenRadixCache option" where
  "new_with_block max_pages block =
     (if block < 1 then None
      else Some \<lparr>rc_block = block, rc_max_pages = max_pages, cached_pages = 0, n_entries = 0,
                 rc_stamp = 0, root = empty_node\<rparr>)"

definition radix_new :: "nat \<Rightarrow> TokenRadixCache option" where
  "radix_new max_pages = new_with_block max_pages DEFAULT_BLOCK"

section \<open>Walks\<close>

text \<open>The node at the end of a path, as every immutable walk of the source finds it.\<close>

fun node_at :: "TrieNode \<Rightarrow> nat list \<Rightarrow> TrieNode option" where
  "node_at n [] = Some n"
| "node_at n (t # ts) =
     (case map_of (children n) t of None \<Rightarrow> None | Some c \<Rightarrow> node_at c ts)"

definition entry_at :: "TrieNode \<Rightarrow> nat list \<Rightarrow> Entry option" where
  "entry_at n path = (case node_at n path of None \<Rightarrow> None | Some m \<Rightarrow> entry m)"

text \<open>Walk 1 of \<open>deepest_hit_path\<close>: the deepest aligned depth that covers an entry.\<close>

fun walk1 :: "nat \<Rightarrow> TrieNode \<Rightarrow> nat \<Rightarrow> nat list \<Rightarrow> nat option \<Rightarrow> nat option" where
  "walk1 block n i [] best = best"
| "walk1 block n i (t # ts) best =
     (let depth = i + 1 in
      case map_of (children n) t of
        None \<Rightarrow> best
      | Some child \<Rightarrow>
          walk1 block child depth ts
            (if depth mod block = 0 \<and> 0 < subtree_entries child then Some depth else best))"

text \<open>
  The work lists: the head is the top of the stack, so the children of a node go in front in
  reverse order.
\<close>

fun node_size :: "TrieNode \<Rightarrow> nat" where
  "node_size (TrieNode ch e s) = Suc (sum_list (map (\<lambda>(t, c). node_size c) ch))"

definition push_children ::
  "TrieNode \<Rightarrow> nat list \<Rightarrow> (TrieNode \<times> nat list) list \<Rightarrow> (TrieNode \<times> nat list) list" where
  "push_children n path work = rev (map (\<lambda>(t, c). (c, path @ [t])) (children n)) @ work"

definition work_size :: "(TrieNode \<times> nat list) list \<Rightarrow> nat" where
  "work_size work = sum_list (map (\<lambda>(n, p). node_size n) work)"

lemma sum_list_rev_nat: "sum_list (rev xs) = sum_list (xs :: nat list)"
  by (induction xs) auto

lemma work_size_push: "work_size (push_children n path work) < work_size ((n, path) # work)"
proof (cases n)
  case (TrieNode ch e s)
  have "map (\<lambda>(n, p). node_size n) (map (\<lambda>(t, c). (c, path @ [t])) ch) = map (\<lambda>(t, c). node_size c) ch"
    by (simp add: case_prod_unfold comp_def)
  then show ?thesis
    by (simp add: TrieNode work_size_def push_children_def rev_map [symmetric] sum_list_rev_nat del: map_map)
qed

text \<open>Walk 2: the deepest entry below a node, ties to the smallest key.\<close>

function deepest_loop ::
  "(TrieNode \<times> nat list) list \<Rightarrow> (nat \<times> nat list) option \<Rightarrow> (nat \<times> nat list) option" where
  "deepest_loop [] best = best"
| "deepest_loop ((n, path) # work) best =
     (let better = (case best of
            Some (bd, bp) \<Rightarrow> bd < length path \<or> (length path = bd \<and> path < bp)
          | None \<Rightarrow> True);
          best' = (if entry n \<noteq> None \<and> better then Some (length path, path) else best)
      in deepest_loop (push_children n path work) best')"
  by pat_completeness auto
termination by (relation "measure (\<lambda>(work, best). work_size work)") (auto simp: work_size_push)

definition deepest_hit_path :: "TokenRadixCache \<Rightarrow> nat list \<Rightarrow> (nat \<times> nat list) option" where
  "deepest_hit_path c ids =
     Option.bind (walk1 (rc_block c) (root c) 0 ids None) (\<lambda>d.
     Option.bind (node_at (root c) (take d ids)) (\<lambda>n.
     Option.bind (deepest_loop [(n, take d ids)] None) (\<lambda>(l, path). Some (d, path))))"

definition lookup :: "TokenRadixCache \<Rightarrow> nat list \<Rightarrow> PrefixHit option" where
  "lookup c ids =
     Option.bind (deepest_hit_path c ids) (\<lambda>(d, path).
     Option.bind (entry_at (root c) path) (\<lambda>e.
       Some \<lparr>hit_base_page = e_base_page e, hit_pages = d div rc_block c, hit_key_len = d\<rparr>))"

text \<open>All entries with their keys, by the work list, then sorted by key.\<close>

function collect_loop ::
  "(TrieNode \<times> nat list) list \<Rightarrow> (nat list \<times> Entry) list \<Rightarrow> (nat list \<times> Entry) list" where
  "collect_loop [] out = out"
| "collect_loop ((n, path) # work) out =
     collect_loop (push_children n path work)
       (case entry n of Some e \<Rightarrow> out @ [(path, e)] | None \<Rightarrow> out)"
  by pat_completeness auto
termination by (relation "measure (\<lambda>(work, out). work_size work)") (auto simp: work_size_push)

definition collect_entries :: "TokenRadixCache \<Rightarrow> (nat list \<times> Entry) list" where
  "collect_entries c = sort_key fst (collect_loop [(root c, [])] [])"

definition eviction_candidates :: "TokenRadixCache \<Rightarrow> (nat list \<times> nat \<times> Evicted) list" where
  "eviction_candidates c =
     sort_key (\<lambda>x. fst (snd x))
       (map (\<lambda>(path, e). (path, e_stamp e, \<lparr>ev_base_page = e_base_page e, ev_pages = e_pages e\<rparr>))
         (collect_entries c))"

definition entry_table :: "TokenRadixCache \<Rightarrow> EntryView list" where
  "entry_table c = map (\<lambda>(key, e). \<lparr>ev_key = key, view_base_page = e_base_page e,
     view_pages = e_pages e\<rparr>) (collect_entries c)"

section \<open>Updates\<close>

text \<open>Update the node at the end of a path and, on the way, every node with \<open>f\<close>.\<close>

fun update_path ::
  "(TrieNode \<Rightarrow> TrieNode option) \<Rightarrow> (TrieNode \<Rightarrow> TrieNode option) \<Rightarrow> nat list \<Rightarrow> TrieNode \<Rightarrow> TrieNode option"
where
  "update_path f g [] n = Option.bind (f n) g"
| "update_path f g (t # ts) n =
     Option.bind (f n) (\<lambda>n'.
       case map_of (children n') t of
         None \<Rightarrow> None
       | Some c \<Rightarrow> Option.bind (update_path f g ts c) (\<lambda>c'.
           Some (TrieNode (bt_insert t c' (children n')) (entry n') (subtree_entries n'))))"

definition set_entry :: "Entry option \<Rightarrow> TrieNode \<Rightarrow> TrieNode" where
  "set_entry e n = TrieNode (children n) e (subtree_entries n)"

definition incr :: "TrieNode \<Rightarrow> TrieNode option" where
  "incr n = Some (TrieNode (children n) (entry n) (subtree_entries n + 1))"

text \<open>\<^verbatim>\<open>subtree_entries -= 1\<close>; \<open>None\<close> is the underflow.\<close>

definition decr :: "TrieNode \<Rightarrow> TrieNode option" where
  "decr n = Option.bind (chk_sub (subtree_entries n) 1) (\<lambda>s. Some (TrieNode (children n) (entry n) s))"

definition restamp :: "nat \<Rightarrow> TrieNode \<Rightarrow> TrieNode option" where
  "restamp s n = Option.bind (entry n) (\<lambda>e. Some (set_entry (Some (e\<lparr>e_stamp := s\<rparr>)) n))"

definition touch :: "TokenRadixCache \<Rightarrow> nat list \<Rightarrow> TokenRadixCache \<times> bool" where
  "touch c key =
     (case deepest_hit_path c key of
        None \<Rightarrow> (c, False)
      | Some (d, path) \<Rightarrow>
          (case update_path Some (restamp (rc_stamp c + 1)) path (root c) of
             None \<Rightarrow> (c, False)
           | Some r \<Rightarrow> (c\<lparr>rc_stamp := rc_stamp c + 1, root := r\<rparr>, True)))"

text \<open>\<^verbatim>\<open>children.entry(tok).or_default()\<close> along the key.\<close>

fun create_path :: "nat list \<Rightarrow> TrieNode \<Rightarrow> TrieNode" where
  "create_path [] n = n"
| "create_path (t # ts) n =
     (let c = (case map_of (children n) t of Some c \<Rightarrow> c | None \<Rightarrow> empty_node)
      in TrieNode (bt_insert t (create_path ts c) (children n)) (entry n) (subtree_entries n))"

text \<open>The shapes of the nodes on a path, the root first, without the last node.\<close>

fun shapes :: "TrieNode \<Rightarrow> nat list \<Rightarrow> (bool \<times> nat) list" where
  "shapes n [] = []"
| "shapes n (t # ts) =
     (case map_of (children n) t of
        None \<Rightarrow> []
      | Some c \<Rightarrow> (entry n \<noteq> None, length (children n)) # shapes c ts)"

text \<open>
  The loop over \<open>j\<close> from \<open>k - 1\<close> down to 1 that looks for the trim point; it stops at the first
  node that is not removable.
\<close>

fun trim_loop :: "(bool \<times> nat) list \<Rightarrow> nat \<Rightarrow> bool \<Rightarrow> nat option \<Rightarrow> nat option" where
  "trim_loop sh 0 removable_next trim_from = trim_from"
| "trim_loop sh (Suc j) removable_next trim_from =
     (if \<not> fst (sh ! Suc j) \<and> snd (sh ! Suc j) = 1 \<and> removable_next
      then trim_loop sh j True (Some (Suc j)) else trim_from)"

text \<open>Removing a child; \<open>None\<close> is the \<^verbatim>\<open>expect\<close> that it is there.\<close>

definition drop_child :: "nat \<Rightarrow> TrieNode \<Rightarrow> TrieNode option" where
  "drop_child t n = (case map_of (children n) t of
       None \<Rightarrow> None
     | Some _ \<Rightarrow> Some (TrieNode (bt_remove t (children n)) (entry n) (subtree_entries n)))"

definition remove_entry_at :: "TokenRadixCache \<Rightarrow> nat list \<Rightarrow> (Evicted \<times> TokenRadixCache) option" where
  "remove_entry_at c path =
     (let k = length path in
      Option.bind (node_at (root c) path) (\<lambda>n.
      Option.bind (entry n) (\<lambda>e.
        let evicted = \<lparr>ev_base_page = e_base_page e, ev_pages = e_pages e\<rparr>;
            leaf = (children n = []);
            trim_from = trim_loop (shapes (root c) path) (k - 1) leaf (if leaf then Some k else None);
            root' = (case trim_from of
                Some j \<Rightarrow> (if j = 0 then None
                           else update_path decr (drop_child (path ! (j - 1))) (take (j - 1) path) (root c))
              | None \<Rightarrow> update_path decr (\<lambda>m. if entry m = None then None else Some (set_entry None m))
                          path (root c))
        in Option.bind root' (\<lambda>r.
           Option.bind (chk_sub (cached_pages c) (ev_pages evicted)) (\<lambda>cp.
           Option.bind (chk_sub (n_entries c) 1) (\<lambda>ne.
             Some (evicted, c\<lparr>root := r, cached_pages := cp, n_entries := ne\<rparr>)))))))"

text \<open>The eviction loop over the candidates, oldest first.\<close>

fun evict_loop ::
  "(nat list \<times> nat \<times> Evicted) list \<Rightarrow> nat \<Rightarrow> TokenRadixCache \<Rightarrow> Evicted list
     \<Rightarrow> (nat \<times> TokenRadixCache \<times> Evicted list) option" where
  "evict_loop [] surplus c evicted = Some (surplus, c, evicted)"
| "evict_loop ((path, stamp, candidate) # cs) surplus c evicted =
     (if surplus = 0 then Some (surplus, c, evicted)
      else Option.bind (remove_entry_at c path) (\<lambda>(removed, c').
        if removed = candidate
        then evict_loop cs (surplus - ev_pages removed) c' (evicted @ [removed])
        else None))"

definition radix_insert ::
  "TokenRadixCache \<Rightarrow> nat list \<Rightarrow> nat \<Rightarrow> nat \<Rightarrow> (TokenRadixCache \<times> Evicted list, RadixError) res" where
  "radix_insert c key base_page pages =
     (let aligned = pages * rc_block c in
      if key = [] then Err EmptyKey
      else if pages = 0 then Err ZeroPages
      else if length key < aligned then Err (PagesBeyondKey (length key) pages)
      else if rc_max_pages c = 0 then Err CacheDisabled
      else if rc_max_pages c < pages then Err (EntryExceedsBudget pages (rc_max_pages c))
      else
        let key = take aligned key;
            r1 = create_path key (root c);
            c1 = c\<lparr>root := r1\<rparr>
        in if entry_at r1 key \<noteq> None
           then (case update_path Some (restamp (rc_stamp c + 1)) key r1 of
                   None \<Rightarrow> Panic
                 | Some r2 \<Rightarrow> Ok (c\<lparr>rc_stamp := rc_stamp c + 1, root := r2\<rparr>, []))
           else
             let surplus = sat_add (cached_pages c1) pages - rc_max_pages c1 in
             case (if 0 < surplus then evict_loop (eviction_candidates c1) surplus c1 []
                   else Some (0, c1, [])) of
               None \<Rightarrow> Panic
             | Some (left, c2, evicted) \<Rightarrow>
                 if left \<noteq> 0 then Panic
                 else
                   let stamp = rc_stamp c2 + 1;
                       e = \<lparr>e_base_page = base_page, e_pages = pages, e_stamp = stamp\<rparr>
                   in (case update_path incr (\<lambda>n. Some (set_entry (Some e) n)) key (root c2) of
                         None \<Rightarrow> Panic
                       | Some r3 \<Rightarrow>
                           Ok (c2\<lparr>root := r3, rc_stamp := stamp, cached_pages := cached_pages c2 + pages,
                                  n_entries := n_entries c2 + 1\<rparr>, evicted)))"

definition radix_clear :: "TokenRadixCache \<Rightarrow> TokenRadixCache \<times> Evicted list" where
  "radix_clear c =
     (c\<lparr>root := empty_node, cached_pages := 0, n_entries := 0\<rparr>,
      map (\<lambda>(key, e). \<lparr>ev_base_page = e_base_page e, ev_pages = e_pages e\<rparr>) (collect_entries c))"

definition assert_consistent :: "TokenRadixCache \<Rightarrow> bool" where
  "assert_consistent c \<longleftrightarrow>
     list_all (\<lambda>(path, e). length path = e_pages e * rc_block c \<and> 1 \<le> e_pages e
       \<and> e_pages e \<le> rc_max_pages c) (collect_entries c)
     \<and> distinct (map (e_stamp \<circ> snd) (collect_entries c))
     \<and> sum_list (map (e_pages \<circ> snd) (collect_entries c)) = cached_pages c
     \<and> length (collect_entries c) = n_entries c
     \<and> subtree_entries (root c) = n_entries c
     \<and> cached_pages c \<le> rc_max_pages c"

end
