(* ===== verification/Radix_Inv.thy ===== *)
theory Radix_Inv
  imports Radix Interfaces "HOL-Library.Sublist"
begin

text \<open>
  Correctness of the token-prefix cache. The abstract state of a trie is the partial map
  \<open>entry_at\<close> from keys to entries; every operation is described on it. \<open>trie_wf\<close> is the
  invariant of the nodes, \<open>cache_inv\<close> that of the cache.
\<close>

section \<open>Well-formed tries\<close>

fun trie_wf :: "TrieNode \<Rightarrow> bool" where
  "trie_wf (TrieNode ch e s) \<longleftrightarrow> sorted_wrt (<) (map fst ch)
     \<and> s = of_bool (e \<noteq> None) + sum_list (map (\<lambda>(t, c). subtree_entries c) ch)
     \<and> list_all (\<lambda>(t, c). trie_wf c) ch"

lemma trie_wf_iff:
  "trie_wf n \<longleftrightarrow> sorted_wrt (<) (map fst (children n))
     \<and> subtree_entries n = of_bool (entry n \<noteq> None) + bt_sum subtree_entries (children n)
     \<and> (\<forall>p\<in>set (children n). trie_wf (snd p))"
  by (cases n) (auto simp: bt_sum_def list_all_iff case_prod_unfold)

lemma trie_wf_child: "trie_wf n \<Longrightarrow> map_of (children n) t = Some c \<Longrightarrow> trie_wf c"
  by (force simp: trie_wf_iff [of n] dest: map_of_SomeD)

lemma trie_wf_empty [simp]: "trie_wf empty_node"
  by (simp add: empty_node_def)

lemma entry_at_Nil [simp]: "entry_at n [] = entry n"
  by (simp add: entry_at_def)

lemma entry_at_Cons [simp]:
  "entry_at n (t # ts) = (case map_of (children n) t of None \<Rightarrow> None | Some c \<Rightarrow> entry_at c ts)"
  by (simp add: entry_at_def split: option.split)

lemma node_at_append: "node_at n (p @ q) = Option.bind (node_at n p) (\<lambda>m. node_at m q)"
  by (induction p arbitrary: n) (auto split: option.split)

lemma entry_at_append: "node_at n p = Some m \<Longrightarrow> entry_at n (p @ q) = entry_at m q"
  by (simp add: entry_at_def node_at_append)

lemma trie_wf_node_at: "trie_wf n \<Longrightarrow> node_at n p = Some m \<Longrightarrow> trie_wf m"
  by (induction p arbitrary: n) (auto split: option.splits dest: trie_wf_child)

text \<open>The count of a subtree is positive exactly when it holds an entry.\<close>

lemma subtree_pos: "trie_wf n \<Longrightarrow> entry_at n p = Some e \<Longrightarrow> 0 < subtree_entries n"
proof (induction p arbitrary: n)
  case Nil
  then show ?case by (simp add: trie_wf_iff [of n])
next
  case (Cons t ts)
  obtain c where c: "map_of (children n) t = Some c" "entry_at c ts = Some e"
    using Cons.prems(2) by (auto split: option.splits)
  have "0 < subtree_entries c" by (rule Cons.IH [OF trie_wf_child [OF Cons.prems(1) c(1)] c(2)])
  moreover have "bt_sum subtree_entries (children n) \<le> subtree_entries n"
    using Cons.prems(1) by (simp add: trie_wf_iff [of n])
  ultimately show ?case using bt_sum_ge [OF c(1), of subtree_entries] by linarith
qed

section \<open>The entries as a list and as a set\<close>

lemma distinct_of_map: "distinct (map f xs) \<Longrightarrow> distinct xs"
  by (simp add: distinct_map)

fun enum :: "TrieNode \<Rightarrow> (nat list \<times> Entry) list" where
  "enum (TrieNode ch e s) =
     (case e of None \<Rightarrow> [] | Some x \<Rightarrow> [([], x)])
     @ concat (map (\<lambda>(t, c). map (\<lambda>(p, x). (t # p, x)) (enum c)) ch)"

definition ents :: "TrieNode \<Rightarrow> (nat list \<times> Entry) set" where
  "ents n = {(p, e). entry_at n p = Some e}"

lemma mem_ents [simp]: "(p, e) \<in> ents n \<longleftrightarrow> entry_at n p = Some e"
  by (simp add: ents_def)

lemma enum_unfold:
  "enum n = (case entry n of None \<Rightarrow> [] | Some x \<Rightarrow> [([], x)])
     @ concat (map (\<lambda>(t, c). map (\<lambda>(p, x). (t # p, x)) (enum c)) (children n))"
  by (cases n) simp

lemma set_enum: "trie_wf n \<Longrightarrow> set (enum n) = ents n"
proof (induction n)
  case (TrieNode ch e s)
  have d: "distinct (map fst ch)" using TrieNode.prems by (simp add: sorted_fst_distinct)
  have IH: "set (enum c) = ents c" if "(t, c) \<in> set ch" for t c
    using TrieNode.IH [of "(t, c)" c] TrieNode.prems that by (auto simp: list_all_iff)
  have "(p, x) \<in> set (enum (TrieNode ch e s)) \<longleftrightarrow> (p, x) \<in> ents (TrieNode ch e s)" for p x
  proof (cases p)
    case Nil
    then show ?thesis by (auto split: option.splits)
  next
    case (Cons t ts)
    have "(p, x) \<in> set (enum (TrieNode ch e s)) \<longleftrightarrow> (\<exists>c. (t, c) \<in> set ch \<and> (ts, x) \<in> set (enum c))"
      unfolding Cons by (auto split: option.splits) force
    also have "\<dots> \<longleftrightarrow> (\<exists>c. map_of ch t = Some c \<and> (ts, x) \<in> ents c)"
      using IH map_of_eq_Some_iff [OF d] by auto
    also have "\<dots> \<longleftrightarrow> (p, x) \<in> ents (TrieNode ch e s)" by (auto simp: Cons split: option.splits)
    finally show ?thesis .
  qed
  then show ?case by (auto simp del: enum.simps)
qed

lemma distinct_enum: "trie_wf n \<Longrightarrow> distinct (map fst (enum n))"
proof (induction n)
  case (TrieNode ch e s)
  have d: "distinct (map fst ch)" using TrieNode.prems by (simp add: sorted_fst_distinct)
  have IH: "distinct (map fst (enum c))" if "(t, c) \<in> set ch" for t c
    using TrieNode.IH [of "(t, c)" c] TrieNode.prems that by (auto simp: list_all_iff)
  define sub where "sub = (\<lambda>(t, c). map (\<lambda>(p, x). (t # p, x :: Entry)) (enum c))"
  have fst_sub: "map fst (sub (t, c)) = map ((#) t) (map fst (enum c))" for t c
    by (simp add: sub_def case_prod_unfold comp_def)
  have "distinct (map fst (concat (map sub ch)))"
    using d IH
  proof (induction ch)
    case (Cons a ch)
    obtain t c where a: "a = (t, c)" by fastforce
    have "distinct (map fst (sub a))"
      unfolding a fst_sub using Cons.prems(2) [of t c] a by (subst distinct_map) simp
    moreover have "set (map fst (sub a)) \<inter> set (map fst (concat (map sub ch))) = {}"
    proof -
      have "t \<notin> fst ` set ch" using Cons.prems(1) a by simp
      then show ?thesis by (force simp: a sub_def)
    qed
    moreover have "distinct (map fst (concat (map sub ch)))"
      by (rule Cons.IH) (use Cons.prems in auto)
    ultimately show ?case by simp
  qed simp
  moreover have "[] \<notin> set (map fst (concat (map sub ch)))" by (auto simp: sub_def)
  ultimately show ?case by (simp add: sub_def split: option.split)
qed

lemma length_enum: "trie_wf n \<Longrightarrow> length (enum n) = subtree_entries n"
proof (induction n)
  case (TrieNode ch e s)
  have IH: "length (enum c) = subtree_entries c" if "(t, c) \<in> set ch" for t c
    using TrieNode.IH [of "(t, c)" c] TrieNode.prems that by (auto simp: list_all_iff)
  have "length (concat (map (\<lambda>(t, c). map (\<lambda>(p, x). (t # p, x)) (enum c)) ch))
      = sum_list (map (\<lambda>(t, c). length (enum c)) ch)"
    by (simp add: length_concat comp_def case_prod_unfold)
  also have "\<dots> = sum_list (map (\<lambda>(t, c). subtree_entries c) ch)"
    using IH by (intro arg_cong [of _ _ sum_list] map_cong) auto
  finally show ?case using TrieNode.prems by (auto split: option.split)
qed

lemma finite_ents: "trie_wf n \<Longrightarrow> finite (ents n)"
  using set_enum by (metis List.finite_set)

lemma card_ents: "trie_wf n \<Longrightarrow> card (ents n) = subtree_entries n"
  using set_enum [of n] distinct_enum [of n] length_enum [of n]
  by (metis distinct_card distinct_of_map)

text \<open>The work list collects the entries of the nodes on it.\<close>

definition prefixed :: "nat list \<Rightarrow> (nat list \<times> Entry) list \<Rightarrow> (nat list \<times> Entry) list" where
  "prefixed path xs = map (\<lambda>(p, e). (path @ p, e)) xs"

definition work_ents :: "(TrieNode \<times> nat list) list \<Rightarrow> (nat list \<times> Entry) multiset" where
  "work_ents work = (\<Sum>(n, path)\<leftarrow>work. mset (prefixed path (enum n)))"

lemma work_ents_Cons [simp]:
  "work_ents ((n, path) # work) = mset (prefixed path (enum n)) + work_ents work"
  by (simp add: work_ents_def)

lemma work_ents_push:
  "mset (case entry n of None \<Rightarrow> [] | Some e \<Rightarrow> [(path, e)]) + work_ents (push_children n path work)
   = work_ents ((n, path) # work)"
proof -
  have app: "work_ents (xs @ ys) = work_ents xs + work_ents ys" for xs ys
    by (simp add: work_ents_def)
  have rv: "work_ents (rev xs) = work_ents xs" for xs
    by (induction xs) (auto simp: app work_ents_def)
  have kids: "work_ents (map (\<lambda>(t, c). (c, path @ [t])) ch)
      = mset (prefixed path (concat (map (\<lambda>(t, c). map (\<lambda>(p, x). (t # p, x)) (enum c)) ch)))" for ch
    by (induction ch) (auto simp: prefixed_def work_ents_def case_prod_unfold comp_def)
  show ?thesis
    unfolding work_ents_Cons push_children_def app rv kids
    by (subst enum_unfold) (simp add: prefixed_def split: option.split)
qed

lemma collect_loop_mset: "mset (collect_loop work out) = mset out + work_ents work"
proof (induction work out rule: collect_loop.induct)
  case (1 out)
  then show ?case by (simp add: work_ents_def)
next
  case (2 n path work out)
  then show ?case using work_ents_push [of path n work] by (auto split: option.splits)
qed

lemma collect_mset: "mset (collect_entries c) = mset (enum (root c))"
proof -
  have "prefixed [] xs = xs" for xs by (simp add: prefixed_def)
  then show ?thesis
    by (simp add: collect_entries_def collect_loop_mset work_ents_def del: collect_loop.simps)
qed

lemma collect_set: "trie_wf (root c) \<Longrightarrow> set (collect_entries c) = ents (root c)"
  using collect_mset [of c] set_enum by (metis set_mset_mset)

lemma collect_distinct: "trie_wf (root c) \<Longrightarrow> distinct (map fst (collect_entries c))"
  using collect_mset [of c] distinct_enum [of "root c"] by (metis mset_eq_imp_distinct_iff mset_map)

lemma collect_distinct' : "trie_wf (root c) \<Longrightarrow> distinct (collect_entries c)"
  using collect_distinct distinct_of_map by blast

lemma collect_sorted: "sorted (map fst (collect_entries c))"
  by (simp add: collect_entries_def)

lemma sum_collect:
  "trie_wf (root c) \<Longrightarrow> sum_list (map f (collect_entries c)) = sum f (ents (root c))"
  using collect_set [of c] collect_distinct' [of c] by (metis sum_list_distinct_conv_sum_set)

lemma length_collect: "trie_wf (root c) \<Longrightarrow> length (collect_entries c) = card (ents (root c))"
  using collect_set [of c] collect_distinct' [of c] by (metis distinct_card)

end
