(* ===== verification/Radix_Update.thy ===== *)
theory Radix_Update
  imports Radix_Inv
begin

text \<open>
  The updates of the token trie on the abstract state: changing a node under a path, creating a
  path, and removing an entry with pruning.
\<close>

lemma trie_wf_TrieNode:
  "trie_wf (TrieNode ch e s) \<longleftrightarrow> sorted_wrt (<) (map fst ch)
     \<and> s = of_bool (e \<noteq> None) + bt_sum subtree_entries ch \<and> (\<forall>p\<in>set ch. trie_wf (snd p))"
  using trie_wf_iff [of "TrieNode ch e s"] by simp

declare trie_wf.simps [simp del]

text \<open>Replacing a child keeps the node well formed when the count is adjusted.\<close>

lemma trie_wf_replace:
  assumes "trie_wf n" "trie_wf c'"
    and "s = of_bool (entry n \<noteq> None) + bt_sum subtree_entries (bt_insert t c' (children n))"
  shows "trie_wf (TrieNode (bt_insert t c' (children n)) (entry n) s)"
  using assms(2,3) assms(1) [unfolded trie_wf_iff [of n]] set_bt_insert [of t c' "children n"]
    sorted_bt_insert [of "children n" t c']
  by (auto simp: trie_wf_TrieNode)

section \<open>Updates along a path\<close>

definition keeps_shape :: "int \<Rightarrow> (TrieNode \<Rightarrow> TrieNode option) \<Rightarrow> bool" where
  "keeps_shape d f \<longleftrightarrow> (\<forall>n n'. f n = Some n' \<longrightarrow> children n' = children n \<and> entry n' = entry n
     \<and> int (subtree_entries n') = int (subtree_entries n) + d)"

lemma keeps_shape_Some: "keeps_shape 0 Some" and keeps_shape_incr: "keeps_shape 1 incr"
  and keeps_shape_decr: "keeps_shape (-1) decr"
  by (auto simp: keeps_shape_def incr_def decr_def bind_eq_Some_conv)

lemma keeps_shapeD:
  "keeps_shape d f \<Longrightarrow> f n = Some n' \<Longrightarrow> children n' = children n \<and> entry n' = entry n
     \<and> int (subtree_entries n') = int (subtree_entries n) + d"
  by (simp add: keeps_shape_def)

lemma update_path_Cons:
  assumes "keeps_shape d f" "update_path f g (t # ts) n = Some n'"
  obtains n1 c c' where "f n = Some n1" "map_of (children n) t = Some c" "update_path f g ts c = Some c'"
    "n' = TrieNode (bt_insert t c' (children n)) (entry n) (subtree_entries n1)"
    "int (subtree_entries n1) = int (subtree_entries n) + d"
  using assms keeps_shapeD [OF assms(1)] by (auto simp: bind_eq_Some_conv split: option.splits)

lemma update_path_node:
  assumes "keeps_shape d f" "update_path f g path n = Some n'"
  obtains m m1 m2 where "node_at n path = Some m" "f m = Some m1" "g m1 = Some m2"
    "node_at n' path = Some m2"
  using assms(2)
proof (induction path arbitrary: n n' thesis)
  case Nil
  then show ?case by (auto simp: bind_eq_Some_conv)
next
  case (Cons t ts)
  obtain n1 c c' where u: "map_of (children n) t = Some c" "update_path f g ts c = Some c'"
    "n' = TrieNode (bt_insert t c' (children n)) (entry n) (subtree_entries n1)"
    using update_path_Cons [OF assms(1) Cons.prems(2)] by metis
  obtain m m1 m2 where "node_at c ts = Some m" "f m = Some m1" "g m1 = Some m2" "node_at c' ts = Some m2"
    using Cons.IH [OF _ u(2)] by metis
  then show ?case using Cons.prems(1) u by simp
qed

lemma update_path_other:
  assumes "keeps_shape d f" "update_path f g path n = Some n'" "\<not> prefix path p"
  shows "entry_at n' p = entry_at n p \<and> (node_at n' p = None \<longleftrightarrow> node_at n p = None)"
  using assms(2,3)
proof (induction path arbitrary: n n' p)
  case Nil
  then show ?case by simp
next
  case (Cons t ts)
  obtain n1 c c' where u: "map_of (children n) t = Some c" "update_path f g ts c = Some c'"
    "n' = TrieNode (bt_insert t c' (children n)) (entry n) (subtree_entries n1)"
    using update_path_Cons [OF assms(1) Cons.prems(1)] by metis
  show ?case
  proof (cases p)
    case Nil
    then show ?thesis by (simp add: u)
  next
    case p: (Cons x xs)
    show ?thesis
    proof (cases "x = t")
      case True
      then have "\<not> prefix ts xs" using Cons.prems(2) p by simp
      then show ?thesis using Cons.IH [OF u(2)] True u by (simp add: p)
    next
      case False
      then show ?thesis by (simp add: p u)
    qed
  qed
qed

lemma update_path_below:
  assumes "keeps_shape d f" "update_path f g path n = Some n'" "node_at n' path = Some m2"
  shows "entry_at n' (path @ q) = entry_at m2 q"
  using entry_at_append [OF assms(3)] .

lemma update_path_wf:
  assumes "keeps_shape d f" "update_path f g path n = Some n'" "trie_wf n"
    and "node_at n path = Some m" "node_at n' path = Some m2" "trie_wf m2"
    "int (subtree_entries m2) = int (subtree_entries m) + d"
  shows "trie_wf n' \<and> int (subtree_entries n') = int (subtree_entries n) + d"
  using assms(2-5)
proof (induction path arbitrary: n n')
  case Nil
  then show ?case using assms(6,7) by simp
next
  case (Cons t ts)
  obtain n1 c c' where u: "map_of (children n) t = Some c" "update_path f g ts c = Some c'"
    "n' = TrieNode (bt_insert t c' (children n)) (entry n) (subtree_entries n1)"
    "int (subtree_entries n1) = int (subtree_entries n) + d"
    using update_path_Cons [OF assms(1) Cons.prems(1)] by metis
  have wc: "trie_wf c" by (rule trie_wf_child [OF Cons.prems(2) u(1)])
  have "node_at c ts = Some m" "node_at c' ts = Some m2" using Cons.prems(3,4) u by simp_all
  then have c': "trie_wf c'" "int (subtree_entries c') = int (subtree_entries c) + d"
    using Cons.IH [OF u(2) wc] by auto
  note wn = Cons.prems(2) [unfolded trie_wf_iff [of n]]
  have "bt_sum subtree_entries (bt_insert t c' (children n)) + subtree_entries c
      = bt_sum subtree_entries (children n) + subtree_entries c'"
    by (rule bt_sum_insert_old) (use wn u(1) in auto)
  then have "int (subtree_entries n1) = int (of_bool (entry n \<noteq> None)
      + bt_sum subtree_entries (bt_insert t c' (children n)))"
    using wn c'(2) u(4) by linarith
  then have "trie_wf n'"
    unfolding u(3) by (intro trie_wf_replace [OF Cons.prems(2) c'(1)]) linarith
  then show ?case using u(3,4) by simp
qed

lemma update_path_exists:
  assumes "keeps_shape d f" "node_at n path = Some m" "f m = Some m1" "g m1 = Some m2"
    and "\<And>x ts. strict_prefix ts path \<Longrightarrow> node_at n ts = Some x \<Longrightarrow> f x \<noteq> None"
  shows "\<exists>n'. update_path f g path n = Some n'"
  using assms(2,5)
proof (induction path arbitrary: n)
  case Nil
  then show ?case using assms(3,4) by simp
next
  case (Cons t ts)
  obtain c where c: "map_of (children n) t = Some c" "node_at c ts = Some m"
    using Cons.prems(1) by (auto split: option.splits)
  have "f n \<noteq> None" using Cons.prems(2) [of "[]" n] by simp
  then obtain n1 where n1: "f n = Some n1" by blast
  have "\<exists>c'. update_path f g ts c = Some c'"
  proof (rule Cons.IH [OF c(2)])
    fix x us assume "strict_prefix us ts" "node_at c us = Some x"
    then show "f x \<noteq> None" using Cons.prems(2) [of "t # us" x] c(1) by simp
  qed
  then show ?case using n1 c keeps_shapeD [OF assms(1) n1] by auto
qed

section \<open>Creating a path\<close>

lemma entry_at_empty [simp]: "entry_at empty_node p = None"
  by (cases p) (simp_all add: empty_node_def)

lemma entry_at_create [simp]: "entry_at (create_path key n) p = entry_at n p"
proof (induction key arbitrary: n p)
  case (Cons t ts)
  show ?case
  proof (cases p)
    case (Cons x xs)
    then show ?thesis
      using Cons.IH by (cases "x = t") (auto simp: Let_def split: option.split)
  qed (simp add: Let_def)
qed simp

lemma node_at_create: "node_at (create_path key n) key \<noteq> None"
  by (induction key arbitrary: n) (auto simp: Let_def)

lemma create_path_wf:
  "trie_wf n \<Longrightarrow> trie_wf (create_path key n) \<and> subtree_entries (create_path key n) = subtree_entries n"
proof (induction key arbitrary: n)
  case (Cons t ts)
  define c where "c = (case map_of (children n) t of Some c \<Rightarrow> c | None \<Rightarrow> empty_node)"
  have "trie_wf c"
    using trie_wf_child [OF Cons.prems] by (auto simp: c_def split: option.split)
  then have c': "trie_wf (create_path ts c)" "subtree_entries (create_path ts c) = subtree_entries c"
    using Cons.IH by auto
  let ?n = "create_path (t # ts) n"
  have n: "?n = TrieNode (bt_insert t (create_path ts c) (children n)) (entry n) (subtree_entries n)"
    by (simp add: c_def Let_def)
  note wn = Cons.prems [unfolded trie_wf_iff [of n]]
  have "bt_sum subtree_entries (bt_insert t (create_path ts c) (children n))
      = bt_sum subtree_entries (children n)"
  proof (cases "map_of (children n) t")
    case None
    then show ?thesis
      using bt_sum_insert_new [OF None] c'(2) by (simp add: c_def empty_node_def)
  next
    case (Some x)
    then show ?thesis
      using bt_sum_insert_old [of "children n" t x subtree_entries "create_path ts c"] wn c'(2)
      by (simp add: c_def)
  qed
  then have "trie_wf ?n"
    unfolding n using wn by (intro trie_wf_replace [OF Cons.prems c'(1)]) simp
  then show ?case by (simp add: n)
qed simp

section \<open>Removing an entry\<close>

text \<open>Below \<open>n\<close> there is nothing but the path \<open>p\<close>.\<close>

fun chain :: "nat list \<Rightarrow> TrieNode \<Rightarrow> bool" where
  "chain [] n \<longleftrightarrow> children n = []"
| "chain (t # ts) n \<longleftrightarrow> entry n = None \<and> length (children n) = 1
     \<and> (\<exists>c. map_of (children n) t = Some c \<and> chain ts c)"

lemma chain_only: "chain p n \<Longrightarrow> q \<noteq> p \<Longrightarrow> entry_at n q = None"
proof (induction p arbitrary: n q)
  case Nil
  then show ?case by (cases q) auto
next
  case (Cons t ts)
  then obtain c where c: "children n = [(t, c)]" "chain ts c" "entry n = None"
    by (auto simp: length_Suc_conv split: if_splits)
  then show ?case using Cons.IH [OF c(2)] Cons.prems(2) by (cases q) auto
qed

lemma chain_node: "chain p n \<Longrightarrow> node_at n q \<noteq> None \<Longrightarrow> prefix q p"
proof (induction p arbitrary: n q)
  case Nil
  then show ?case by (cases q) auto
next
  case (Cons t ts)
  then obtain c where c: "children n = [(t, c)]" "chain ts c"
    by (auto simp: length_Suc_conv split: if_splits)
  then show ?case using Cons.IH [OF c(2)] Cons.prems(2) by (cases q) (auto split: if_splits)
qed

lemma chain_count: "chain p n \<Longrightarrow> trie_wf n \<Longrightarrow> entry_at n p \<noteq> None \<Longrightarrow> subtree_entries n = 1"
proof (induction p arbitrary: n)
  case Nil
  then show ?case by (simp add: trie_wf_iff [of n])
next
  case (Cons t ts)
  then obtain c where c: "children n = [(t, c)]" "chain ts c" "entry n = None"
    by (auto simp: length_Suc_conv split: if_splits)
  then have "subtree_entries c = 1"
    using Cons.IH [OF c(2)] Cons.prems trie_wf_child [OF Cons.prems(2), of t c] by auto
  then show ?case using Cons.prems(2) c by (simp add: trie_wf_iff [of n])
qed

text \<open>The shapes describe the nodes on the path.\<close>

lemma length_shapes: "node_at n path = Some m \<Longrightarrow> length (shapes n path) = length path"
  by (induction path arbitrary: n) (auto split: option.splits)

lemma nth_shapes:
  assumes "node_at n path = Some m" "j < length path" "node_at n (take j path) = Some x"
  shows "shapes n path ! j = (entry x \<noteq> None, length (children x))"
  using assms
proof (induction path arbitrary: n j)
  case (Cons t ts)
  then obtain c where c: "map_of (children n) t = Some c" "node_at c ts = Some m"
    by (auto split: option.splits)
  show ?case
  proof (cases j)
    case 0
    then show ?thesis using Cons.prems c by simp
  next
    case (Suc i)
    then show ?thesis using Cons.IH [OF c(2), of i] Cons.prems c by simp
  qed
qed simp

lemma node_at_take: "node_at n path = Some m \<Longrightarrow> node_at n (take j path) \<noteq> None"
  using node_at_append [of n "take j path" "drop j path"] by (cases "node_at n (take j path)") auto

lemma chain_step:
  assumes "node_at n path = Some m" "j < length path" "node_at n (take j path) = Some x"
    "node_at n (take (Suc j) path) = Some y" "chain (drop (Suc j) path) y"
    "\<not> fst (shapes n path ! j)" "snd (shapes n path ! j) = 1"
  shows "chain (drop j path) x"
proof -
  have d: "drop j path = path ! j # drop (Suc j) path" using assms(2) by (simp add: Cons_nth_drop_Suc)
  have "take (Suc j) path = take j path @ [path ! j]" using assms(2) by (simp add: take_Suc_conv_app_nth)
  then have "map_of (children x) (path ! j) = Some y"
    using assms(3,4) by (auto simp: node_at_append split: option.splits)
  then show ?thesis using assms nth_shapes [OF assms(1-3)] by (simp add: d)
qed

text \<open>The trim loop only moves up along a chain.\<close>

lemma trim_loop_chain:
  assumes "node_at n path = Some m" "j < length path"
    "node_at n (take (Suc j) path) = Some y" "chain (drop (Suc j) path) y"
  shows "\<exists>i x. trim_loop (shapes n path) j True (Some (Suc j)) = Some i \<and> 1 \<le> i \<and> i \<le> length path
    \<and> node_at n (take i path) = Some x \<and> chain (drop i path) x"
  using assms(2-4)
proof (induction j arbitrary: y)
  case 0
  then show ?case by (auto simp: Suc_le_eq)
next
  case (Suc j)
  obtain x where x: "node_at n (take (Suc j) path) = Some x" using node_at_take [OF assms(1)] by auto
  show ?case
  proof (cases "\<not> fst (shapes n path ! Suc j) \<and> snd (shapes n path ! Suc j) = 1")
    case True
    have "chain (drop (Suc j) path) x"
      by (rule chain_step [OF assms(1) Suc.prems(1) x Suc.prems(2,3)]) (use True in auto)
    then show ?thesis using Suc.IH [OF _ x] Suc.prems(1) True by simp
  next
    case False
    then show ?thesis using Suc.prems by auto
  qed
qed

lemma trim_loop_False: "trim_loop sh j False None = None"
  by (cases j) auto

lemma decr_Some: "0 < subtree_entries n \<Longrightarrow>
    decr n = Some (TrieNode (children n) (entry n) (subtree_entries n - 1))"
  by (simp add: decr_def chk_sub_def)

lemma decr_path:
  assumes "trie_wf n" "entry_at n path = Some e" "prefix ts path" "node_at n ts = Some x"
  shows "decr x = Some (TrieNode (children x) (entry x) (subtree_entries x - 1))"
    and "0 < subtree_entries x"
proof -
  obtain us where "path = ts @ us" using assms(3) by (rule prefixE)
  then have "entry_at x us = Some e" using assms(2) entry_at_append [OF assms(4)] by simp
  then show "0 < subtree_entries x" using subtree_pos trie_wf_node_at [OF assms(1,4)] by blast
  then show "decr x = Some (TrieNode (children x) (entry x) (subtree_entries x - 1))"
    by (rule decr_Some)
qed

text \<open>The two ways of removing: clearing the entry in place, and dropping a chain.\<close>

definition removed_from :: "TrieNode \<Rightarrow> nat list \<Rightarrow> TrieNode \<Rightarrow> bool" where
  "removed_from n path n' \<longleftrightarrow> trie_wf n' \<and> entry_at n' = (entry_at n)(path := None)
     \<and> (\<forall>k. node_at n k \<noteq> None \<and> \<not> prefix k path \<longrightarrow> node_at n' k \<noteq> None)"

lemma clear_in_place:
  assumes wf: "trie_wf n" and e: "entry_at n path = Some e"
  obtains n' where
    "update_path decr (\<lambda>m. if entry m = None then None else Some (set_entry None m)) path n = Some n'"
    "removed_from n path n'"
proof -
  let ?g = "\<lambda>m. if entry m = None then None else Some (set_entry None m)"
  obtain m where m: "node_at n path = Some m" "entry m = Some e"
    using e by (auto simp: entry_at_def split: option.splits)
  define m1 where "m1 = TrieNode (children m) (entry m) (subtree_entries m - 1)"
  have d: "decr m = Some m1" "0 < subtree_entries m"
    using decr_path [OF wf e prefix_order.refl m(1)] by (simp_all add: m1_def)
  have g: "?g m1 = Some (set_entry None m1)" by (simp add: m1_def m)
  have up: "decr y \<noteq> None" if "strict_prefix ts path" "node_at n ts = Some y" for ts y
    using decr_path(1) [OF wf e _ that(2)] that(1) by (metis option.discI prefix_order.less_imp_le)
  obtain n' where n': "update_path decr ?g path n = Some n'"
    using update_path_exists [where g = ?g, OF keeps_shape_decr m(1) d(1) g] up by blast
  obtain m2 where m2: "node_at n' path = Some m2" "m2 = set_entry None m1"
    using update_path_node [OF keeps_shape_decr n'] m(1) d(1) g by (metis option.inject)
  have wm: "trie_wf m" by (rule trie_wf_node_at [OF wf m(1)])
  have w2: "trie_wf m2" "int (subtree_entries m2) = int (subtree_entries m) + (-1)"
    using wm [unfolded trie_wf_iff [of m]] m(2) d(2)
    by (auto simp: m2(2) set_entry_def m1_def trie_wf_TrieNode)
  have "trie_wf n'" using update_path_wf [OF keeps_shape_decr n' wf m(1) m2(1) w2] by simp
  moreover have "entry_at n' p = ((entry_at n)(path := None)) p" for p
  proof (cases "prefix path p")
    case True
    then obtain q where q: "p = path @ q" by (rule prefixE)
    have "entry_at n' p = entry_at m2 q" "entry_at n p = entry_at m q"
      using entry_at_append m2(1) m(1) q by simp_all
    then show ?thesis by (cases q) (auto simp: q m2(2) set_entry_def m1_def)
  next
    case False
    then have "p \<noteq> path" by auto
    then show ?thesis using update_path_other [OF keeps_shape_decr n' False] by simp
  qed
  moreover have "node_at n' k \<noteq> None" if "node_at n k \<noteq> None" for k
  proof (cases "prefix path k")
    case True
    then obtain q where q: "k = path @ q" by (rule prefixE)
    have "node_at m q \<noteq> None" using that m(1) by (simp add: q node_at_append)
    then have "node_at m2 q \<noteq> None" by (cases q) (auto simp: m2(2) set_entry_def m1_def)
    then show ?thesis using m2(1) by (simp add: q node_at_append)
  next
    case False
    then show ?thesis using update_path_other [OF keeps_shape_decr n' False] that by simp
  qed
  ultimately have "removed_from n path n'" unfolding removed_from_def by (blast intro: ext)
  then show thesis using that n' by blast
qed

lemma drop_chain:
  assumes wf: "trie_wf n" and e: "entry_at n path = Some e"
    and j: "1 \<le> j" "j \<le> length path" and x: "node_at n (take j path) = Some x" "chain (drop j path) x"
  obtains n' where
    "update_path decr (drop_child (path ! (j - 1))) (take (j - 1) path) n = Some n'"
    "removed_from n path n'"
proof -
  let ?t = "path ! (j - 1)" and ?up = "take (j - 1) path"
  have split: "take j path = ?up @ [?t]" "path = ?up @ ?t # drop j path"
    using j by (metis Suc_diff_1 less_eq_Suc_le One_nat_def take_Suc_conv_app_nth le_simps(2) Suc_le_eq,
        metis Suc_diff_1 less_eq_Suc_le One_nat_def id_take_nth_drop Suc_le_eq)
  obtain m where m: "node_at n ?up = Some m" using x(1) node_at_take [of n "take j path" x "j - 1"] by force
  have mx: "map_of (children m) ?t = Some x"
    using x(1) m by (auto simp: split(1) node_at_append split: option.splits)
  have pre: "prefix ?up path" by (rule take_is_prefix)
  define m1 where "m1 = TrieNode (children m) (entry m) (subtree_entries m - 1)"
  define m2 where "m2 = TrieNode (bt_remove ?t (children m)) (entry m) (subtree_entries m - 1)"
  have d: "decr m = Some m1" "0 < subtree_entries m"
    using decr_path [OF wf e pre m] by (simp_all add: m1_def)
  have g: "drop_child ?t m1 = Some m2" using mx by (simp add: drop_child_def m1_def m2_def)
  have up: "decr y \<noteq> None" if "strict_prefix ts ?up" "node_at n ts = Some y" for ts y
    using decr_path(1) [OF wf e _ that(2)] that(1) pre
    by (metis option.discI prefix_order.less_imp_le prefix_order.trans)
  obtain n' where n': "update_path decr (drop_child ?t) ?up n = Some n'"
    using update_path_exists [where g = "drop_child ?t", OF keeps_shape_decr m d(1) g] up by blast
  have nm2: "node_at n' ?up = Some m2"
    using update_path_node [OF keeps_shape_decr n'] m d(1) g by (metis option.inject)
  have wm: "trie_wf m" by (rule trie_wf_node_at [OF wf m])
  have ex: "entry_at x (drop j path) \<noteq> None"
    using e entry_at_append [OF x(1), of "drop j path"] by (cases "entry_at x (drop j path)") simp_all
  have sx: "subtree_entries x = 1"
    by (rule chain_count [OF x(2) trie_wf_node_at [OF wf x(1)] ex])
  note um = wm [unfolded trie_wf_iff [of m]]
  have "bt_sum subtree_entries (bt_remove ?t (children m)) + 1 = bt_sum subtree_entries (children m)"
    using bt_sum_remove [OF _ mx, of subtree_entries] um sx by (simp add: sorted_fst_distinct)
  then have w2: "trie_wf m2" "int (subtree_entries m2) = int (subtree_entries m) + (-1)"
    using um d(2) set_bt_remove [of ?t "children m"]
    by (auto simp: m2_def trie_wf_TrieNode sorted_bt_remove)
  have "trie_wf n'" using update_path_wf [OF keeps_shape_decr n' wf m nm2 w2] by simp
  moreover have "entry_at n' p = ((entry_at n)(path := None)) p" for p
  proof (cases "prefix ?up p")
    case True
    then obtain q where q: "p = ?up @ q" by (rule prefixE)
    have eq: "entry_at n' p = entry_at m2 q" "entry_at n p = entry_at m q"
      unfolding q by (rule entry_at_append [OF nm2], rule entry_at_append [OF m])
    have neq: "p = path \<longleftrightarrow> q = ?t # drop j path" using q split(2) by (metis same_append_eq)
    show ?thesis
    proof (cases q)
      case Nil
      then show ?thesis using eq neq by (simp add: m2_def)
    next
      case (Cons u us)
      show ?thesis
      proof (cases "u = ?t")
        case True
        then have "entry_at m q = entry_at x us" using mx by (simp add: Cons)
        moreover have "entry_at m2 q = None" by (simp add: Cons True m2_def)
        moreover have "entry_at x us = None" if "us \<noteq> drop j path" by (rule chain_only [OF x(2) that])
        ultimately show ?thesis using eq neq True Cons by auto
      next
        case False
        then show ?thesis using eq neq by (simp add: Cons m2_def)
      qed
    qed
  next
    case False
    then have "p \<noteq> path" using pre by auto
    then show ?thesis using update_path_other [OF keeps_shape_decr n' False] by simp
  qed
  moreover have "node_at n' k \<noteq> None" if k: "node_at n k \<noteq> None" "\<not> prefix k path" for k
  proof (cases "prefix ?up k")
    case True
    then obtain q where q: "k = ?up @ q" by (rule prefixE)
    have mq: "node_at m q \<noteq> None" using k(1) m by (simp add: q node_at_append)
    have "node_at m2 q \<noteq> None"
    proof (cases q)
      case (Cons u us)
      have "u \<noteq> ?t"
      proof
        assume u: "u = ?t"
        then have "node_at x us \<noteq> None" using mq mx by (simp add: Cons)
        then have "prefix us (drop j path)" by (rule chain_node [OF x(2)])
        then have "prefix k path" unfolding q Cons u by (subst split(2)) simp
        then show False using k(2) by simp
      qed
      then show ?thesis using mq by (simp add: Cons m2_def)
    qed (simp add: m2_def)
    then show ?thesis using nm2 by (simp add: q node_at_append)
  next
    case False
    then show ?thesis using update_path_other [OF keeps_shape_decr n' False] k(1) by simp
  qed
  ultimately have "removed_from n path n'" unfolding removed_from_def by (blast intro: ext)
  then show thesis using that n' by blast
qed

text \<open>Removal of an entry.\<close>

lemma remove_entry_spec:
  assumes wf: "trie_wf (root c)" and e: "entry_at (root c) path = Some e" and ne: "path \<noteq> []"
    and counts: "e_pages e \<le> cached_pages c" "1 \<le> n_entries c"
  obtains r where "remove_entry_at c path = Some (\<lparr>ev_base_page = e_base_page e, ev_pages = e_pages e\<rparr>,
      c\<lparr>root := r, cached_pages := cached_pages c - e_pages e, n_entries := n_entries c - 1\<rparr>)"
    "removed_from (root c) path r"
proof -
  let ?n = "root c" and ?k = "length path"
  obtain m where m: "node_at ?n path = Some m" "entry m = Some e"
    using e by (auto simp: entry_at_def split: option.splits)
  define tf where "tf = trim_loop (shapes ?n path) (?k - 1) (children m = [])
      (if children m = [] then Some ?k else None)"
  define root' where "root' = (case tf of
      Some j \<Rightarrow> (if j = 0 then None
                 else update_path decr (drop_child (path ! (j - 1))) (take (j - 1) path) ?n)
    | None \<Rightarrow> update_path decr (\<lambda>m. if entry m = None then None else Some (set_entry None m)) path ?n)"
  have "\<exists>r. root' = Some r \<and> removed_from ?n path r"
  proof (cases "children m = []")
    case True
    have k: "?k - 1 < ?k" "Suc (?k - 1) = ?k" using ne by simp_all
    have "tf = trim_loop (shapes ?n path) (?k - 1) True (Some (Suc (?k - 1)))"
      using True k by (simp add: tf_def)
    then obtain j x where j: "tf = Some j" "1 \<le> j" "j \<le> ?k" "node_at ?n (take j path) = Some x"
      "chain (drop j path) x"
      using trim_loop_chain [OF m(1) k(1), of m] m(1) k True by auto
    obtain r where "update_path decr (drop_child (path ! (j - 1))) (take (j - 1) path) ?n = Some r"
      "removed_from ?n path r"
      using drop_chain [OF wf e j(2-5)] by blast
    then show ?thesis using j(1,2) by (simp add: root'_def)
  next
    case False
    then have "tf = None" by (simp add: tf_def trim_loop_False)
    then show ?thesis using clear_in_place [OF wf e] by (metis root'_def option.case(1))
  qed
  then obtain r where r: "root' = Some r" "removed_from ?n path r" by blast
  have "remove_entry_at c path = Option.bind root' (\<lambda>r.
      Option.bind (chk_sub (cached_pages c) (e_pages e)) (\<lambda>cp.
      Option.bind (chk_sub (n_entries c) 1) (\<lambda>ne.
        Some (\<lparr>ev_base_page = e_base_page e, ev_pages = e_pages e\<rparr>,
          c\<lparr>root := r, cached_pages := cp, n_entries := ne\<rparr>))))"
    by (simp add: remove_entry_at_def Let_def m root'_def tf_def)
  then show thesis using that r counts by (simp add: chk_sub_def)
qed

end
