(* ===== verification/Radix_Spec.thy ===== *)
theory Radix_Spec
  imports Radix_Update
begin

text \<open>
  The invariant of the token-prefix cache, the behaviour of its operations on the partial map
  from keys to entries, and its properties.
\<close>

section \<open>The invariant\<close>

definition entries_ok :: "nat \<Rightarrow> nat \<Rightarrow> (nat list \<rightharpoonup> Entry) \<Rightarrow> bool" where
  "entries_ok block stamp m \<longleftrightarrow> (\<forall>p e. m p = Some e \<longrightarrow>
     length p = e_pages e * block \<and> 1 \<le> e_pages e \<and> e_stamp e \<le> stamp)"

definition stamps_unique :: "(nat list \<rightharpoonup> Entry) \<Rightarrow> bool" where
  "stamps_unique m \<longleftrightarrow> (\<forall>p e p' e'. m p = Some e \<and> m p' = Some e' \<and> e_stamp e = e_stamp e' \<longrightarrow> p = p')"

definition cache_inv :: "TokenRadixCache \<Rightarrow> bool" where
  "cache_inv c \<longleftrightarrow> trie_wf (root c) \<and> 1 \<le> rc_block c
     \<and> entries_ok (rc_block c) (rc_stamp c) (entry_at (root c)) \<and> stamps_unique (entry_at (root c))
     \<and> cached_pages c = (\<Sum>x\<in>ents (root c). e_pages (snd x))
     \<and> n_entries c = card (ents (root c))
     \<and> cached_pages c \<le> rc_max_pages c \<and> 2 * rc_max_pages c \<le> u64_max"

lemma entries_ok_upd:
  "entries_ok b s m \<Longrightarrow> s \<le> s' \<Longrightarrow> length p = e_pages e * b \<Longrightarrow> 1 \<le> e_pages e \<Longrightarrow> e_stamp e \<le> s' \<Longrightarrow>
    entries_ok b s' (m(p \<mapsto> e))"
  by (fastforce simp: entries_ok_def)

lemma entries_ok_del: "entries_ok b s m \<Longrightarrow> entries_ok b s (m(p := None))"
  by (auto simp: entries_ok_def)

lemma stamps_unique_upd:
  "stamps_unique m \<Longrightarrow> entries_ok b s m \<Longrightarrow> s < e_stamp e \<Longrightarrow> stamps_unique (m(p \<mapsto> e))"
  unfolding stamps_unique_def entries_ok_def by (auto simp: not_le [symmetric] split: if_splits) fastforce+

lemma stamps_unique_del: "stamps_unique m \<Longrightarrow> stamps_unique (m(p := None))"
  unfolding stamps_unique_def by (auto split: if_splits)

definition ev_of :: "Entry \<Rightarrow> Evicted" where
  "ev_of e = \<lparr>ev_base_page = e_base_page e, ev_pages = e_pages e\<rparr>"

lemma ev_pages_ev_of [simp]: "ev_pages (ev_of e) = e_pages e"
  by (simp add: ev_of_def)

lemma cache_invD:
  assumes "cache_inv c"
  shows "trie_wf (root c)" "1 \<le> rc_block c"
    "entry_at (root c) p = Some e \<Longrightarrow> length p = e_pages e * rc_block c \<and> 1 \<le> e_pages e \<and> e_stamp e \<le> rc_stamp c"
    "entry_at (root c) p = Some e \<Longrightarrow> entry_at (root c) p' = Some e' \<Longrightarrow> e_stamp e = e_stamp e' \<Longrightarrow> p = p'"
    "cached_pages c = (\<Sum>x\<in>ents (root c). e_pages (snd x))" "n_entries c = card (ents (root c))"
    "cached_pages c \<le> rc_max_pages c" "2 * rc_max_pages c \<le> u64_max"
  using assms unfolding cache_inv_def entries_ok_def stamps_unique_def by blast+

lemma cache_inv_path: "cache_inv c \<Longrightarrow> entry_at (root c) p = Some e \<Longrightarrow> p \<noteq> []"
  using cache_invD(2) [of c] cache_invD(3) [of c p e] by auto

lemma cache_inv_pages:
  assumes "cache_inv c" "entry_at (root c) p = Some e"
  shows "e_pages e \<le> cached_pages c" "1 \<le> n_entries c"
proof -
  have fin: "finite (ents (root c))" by (rule finite_ents [OF cache_invD(1) [OF assms(1)]])
  have mem: "(p, e) \<in> ents (root c)" using assms(2) by simp
  show "e_pages e \<le> cached_pages c"
    unfolding cache_invD(5) [OF assms(1)] using member_le_sum [OF mem _ fin, of "\<lambda>x. e_pages (snd x)"] by simp
  show "1 \<le> n_entries c"
    unfolding cache_invD(6) [OF assms(1)] using mem fin by (metis One_nat_def Suc_leI card_gt_0_iff empty_iff)
qed

text \<open>The consistency assertions of the code hold in every state that satisfies the invariant.\<close>

lemma cache_inv_consistent:
  assumes inv: "cache_inv c"
  shows "assert_consistent c"
proof -
  note wf = cache_invD(1) [OF inv]
  have set: "set (collect_entries c) = ents (root c)" by (rule collect_set [OF wf])
  have ent: "case x of (path, e) \<Rightarrow> length path = e_pages e * rc_block c \<and> 1 \<le> e_pages e \<and> e_pages e \<le> rc_max_pages c"
    if xin: "x \<in> ents (root c)" for x
  proof -
    obtain p e where x: "x = (p, e)" "entry_at (root c) p = Some e" using xin by (cases x) auto
    then show ?thesis
      using cache_invD(3) [OF inv x(2)] cache_inv_pages(1) [OF inv x(2)] cache_invD(7) [OF inv] by auto
  qed
  have "inj_on (e_stamp \<circ> snd) (ents (root c))"
  proof (rule inj_onI)
    fix x y assume xy: "x \<in> ents (root c)" "y \<in> ents (root c)" "(e_stamp \<circ> snd) x = (e_stamp \<circ> snd) y"
    obtain p e where x: "x = (p, e)" "entry_at (root c) p = Some e" using xy(1) by (cases x) auto
    obtain p' e' where y: "y = (p', e')" "entry_at (root c) p' = Some e'" using xy(2) by (cases y) auto
    have "p = p'" by (rule cache_invD(4) [OF inv x(2) y(2)]) (use xy(3) x(1) y(1) in simp)
    then show "x = y" using x y by simp
  qed
  then have "distinct (map (e_stamp \<circ> snd) (collect_entries c))"
    using collect_distinct' [OF wf] set by (simp add: distinct_map)
  moreover have "sum_list (map (e_pages \<circ> snd) (collect_entries c)) = cached_pages c"
    using sum_collect [OF wf, of "e_pages \<circ> snd"] cache_invD(5) [OF inv] by simp
  moreover have "length (collect_entries c) = n_entries c" "subtree_entries (root c) = n_entries c"
    using length_collect [OF wf] card_ents [OF wf] cache_invD(6) [OF inv] by simp_all
  ultimately show ?thesis
    using ent cache_invD(7) [OF inv] unfolding assert_consistent_def list_all_iff set by blast
qed

lemma cache_inv_new: "new_with_block max_pages block = Some c \<Longrightarrow> 2 * max_pages \<le> u64_max \<Longrightarrow> cache_inv c"
  by (auto simp: new_with_block_def cache_inv_def ents_def entries_ok_def stamps_unique_def split: if_splits)

text \<open>Only the trie changes, and it keeps its entries.\<close>

lemma cache_inv_same_entries:
  assumes "cache_inv c" "trie_wf r" "entry_at r = entry_at (root c)"
  shows "cache_inv (c\<lparr>root := r\<rparr>)"
proof -
  have "ents r = ents (root c)" using assms(3) by (simp add: ents_def)
  then show ?thesis using assms unfolding cache_inv_def by simp
qed

section \<open>Removal and eviction\<close>

lemma remove_inv:
  assumes inv: "cache_inv c" and e: "entry_at (root c) path = Some e"
  obtains r where "remove_entry_at c path = Some (ev_of e,
      c\<lparr>root := r, cached_pages := cached_pages c - e_pages e, n_entries := n_entries c - 1\<rparr>)"
    "removed_from (root c) path r"
    "cache_inv (c\<lparr>root := r, cached_pages := cached_pages c - e_pages e, n_entries := n_entries c - 1\<rparr>)"
proof -
  obtain r where r: "remove_entry_at c path = Some (ev_of e,
      c\<lparr>root := r, cached_pages := cached_pages c - e_pages e, n_entries := n_entries c - 1\<rparr>)"
    "removed_from (root c) path r"
    using remove_entry_spec [OF cache_invD(1) [OF inv] e cache_inv_path [OF inv e] cache_inv_pages [OF inv e]]
    unfolding ev_of_def by blast
  have ents: "ents r = ents (root c) - {(path, e)}"
    using r(2) e by (auto simp: removed_from_def ents_def split: if_splits)
  have fin: "finite (ents (root c))" by (rule finite_ents [OF cache_invD(1) [OF inv]])
  have mem: "(path, e) \<in> ents (root c)" using e by simp
  have "(\<Sum>x\<in>ents r. e_pages (snd x)) = cached_pages c - e_pages e"
    using cache_invD(5) [OF inv] sum.remove [OF fin mem, of "\<lambda>x. e_pages (snd x)"] by (simp add: ents)
  moreover have "card (ents r) = n_entries c - 1"
    using cache_invD(6) [OF inv] fin mem by (simp add: ents)
  ultimately have "cache_inv (c\<lparr>root := r, cached_pages := cached_pages c - e_pages e, n_entries := n_entries c - 1\<rparr>)"
    using inv r(2) le_trans [OF diff_le_self cache_invD(7) [OF inv], of "e_pages e"]
    unfolding cache_inv_def removed_from_def by (simp add: entries_ok_del stamps_unique_del)
  then show thesis using that r by blast
qed

lemma sum_list_mset_cong: "mset xs = mset ys \<Longrightarrow> sum_list xs = sum_list (ys :: nat list)"
  by (metis sum_mset_sum_list)

definition cand_pages :: "(nat list \<times> nat \<times> Evicted) list \<Rightarrow> nat" where
  "cand_pages cs = sum_list (map (\<lambda>x. ev_pages (snd (snd x))) cs)"

lemma cand_pages_simps [simp]:
  "cand_pages [] = 0" "cand_pages (x # xs) = ev_pages (snd (snd x)) + cand_pages xs"
  by (simp_all add: cand_pages_def)

definition cands_ok :: "TokenRadixCache \<Rightarrow> (nat list \<times> nat \<times> Evicted) list \<Rightarrow> bool" where
  "cands_ok c cs \<longleftrightarrow> distinct (map fst cs)
     \<and> (\<forall>x\<in>set cs. \<exists>e. entry_at (root c) (fst x) = Some e \<and> snd (snd x) = ev_of e)"

lemma evict_loop_spec:
  assumes "cache_inv c" "cands_ok c cs" "surplus \<le> cand_pages cs"
  shows "\<exists>m c'. evict_loop cs surplus c acc = Some (0, c', acc @ map (\<lambda>x. snd (snd x)) (take m cs))
    \<and> m \<le> length cs \<and> cache_inv c'
    \<and> entry_at (root c') = (\<lambda>p. if p \<in> fst ` set (take m cs) then None else entry_at (root c) p)
    \<and> rc_stamp c' = rc_stamp c \<and> rc_block c' = rc_block c \<and> rc_max_pages c' = rc_max_pages c
    \<and> cached_pages c' + cand_pages (take m cs) = cached_pages c
    \<and> surplus \<le> cand_pages (take m cs) \<and> (0 < m \<longrightarrow> cand_pages (take (m - 1) cs) < surplus)
    \<and> (\<forall>k. node_at (root c) k \<noteq> None \<and> (\<forall>x\<in>set cs. \<not> prefix k (fst x)) \<longrightarrow> node_at (root c') k \<noteq> None)"
  using assms
proof (induction cs arbitrary: surplus c acc)
  case Nil
  then show ?case by simp
next
  case (Cons x cs)
  show ?case
  proof (cases "surplus = 0")
    case True
    then show ?thesis using Cons.prems by (cases x) (auto intro!: exI [of _ 0])
  next
    case False
    obtain path s ev where x: "x = (path, s, ev)" by (cases x)
    obtain e where e: "entry_at (root c) path = Some e" "ev = ev_of e"
      using Cons.prems(2) by (auto simp: cands_ok_def x)
    obtain r where r: "remove_entry_at c path = Some (ev_of e,
        c\<lparr>root := r, cached_pages := cached_pages c - e_pages e, n_entries := n_entries c - 1\<rparr>)"
      "removed_from (root c) path r"
      "cache_inv (c\<lparr>root := r, cached_pages := cached_pages c - e_pages e, n_entries := n_entries c - 1\<rparr>)"
      using remove_inv [OF Cons.prems(1) e(1)] by blast
    define c1 where "c1 = c\<lparr>root := r, cached_pages := cached_pages c - e_pages e, n_entries := n_entries c - 1\<rparr>"
    have ok: "cands_ok c1 cs"
      using Cons.prems(2) r(2) unfolding cands_ok_def c1_def x removed_from_def by (auto; metis image_eqI)
    have "surplus - e_pages e \<le> cand_pages cs" using Cons.prems(3) e(2) by (simp add: x)
    then obtain m c' where IH: "evict_loop cs (surplus - e_pages e) c1 (acc @ [ev])
          = Some (0, c', (acc @ [ev]) @ map (\<lambda>x. snd (snd x)) (take m cs))"
      "m \<le> length cs" "cache_inv c'"
      "entry_at (root c') = (\<lambda>p. if p \<in> fst ` set (take m cs) then None else entry_at (root c1) p)"
      "rc_stamp c' = rc_stamp c1" "rc_block c' = rc_block c1" "rc_max_pages c' = rc_max_pages c1"
      "cached_pages c' + cand_pages (take m cs) = cached_pages c1"
      "surplus - e_pages e \<le> cand_pages (take m cs)"
      "0 < m \<longrightarrow> cand_pages (take (m - 1) cs) < surplus - e_pages e"
      "\<forall>k. node_at (root c1) k \<noteq> None \<and> (\<forall>x\<in>set cs. \<not> prefix k (fst x)) \<longrightarrow> node_at (root c') k \<noteq> None"
      using Cons.IH [OF r(3) [folded c1_def] ok, of "surplus - e_pages e" "acc @ [ev]"] by blast
    have ev: "evict_loop (x # cs) surplus c acc
        = Some (0, c', acc @ map (\<lambda>x. snd (snd x)) (take (Suc m) (x # cs)))"
      using False r(1) IH(1) e(2) by (simp add: x c1_def)
    have pg: "e_pages e \<le> cached_pages c" by (rule cache_inv_pages(1) [OF Cons.prems(1) e(1)])
    have ent: "entry_at (root c') = (\<lambda>p. if p \<in> fst ` set (take (Suc m) (x # cs)) then None else entry_at (root c) p)"
      using r(2) by (auto simp: IH(4) c1_def removed_from_def x)
    have min: "0 < Suc m \<longrightarrow> cand_pages (take (Suc m - 1) (x # cs)) < surplus"
      using False IH(10) e(2) by (cases m) (auto simp: x)
    have nodes: "node_at (root c') k \<noteq> None"
      if "node_at (root c) k \<noteq> None" "\<forall>y\<in>set (x # cs). \<not> prefix k (fst y)" for k
      using that r(2) IH(11) unfolding removed_from_def c1_def x by simp
    have counts: "Suc m \<le> length (x # cs)" "rc_stamp c' = rc_stamp c" "rc_block c' = rc_block c"
      "rc_max_pages c' = rc_max_pages c" "cached_pages c' + cand_pages (take (Suc m) (x # cs)) = cached_pages c"
      "surplus \<le> cand_pages (take (Suc m) (x # cs))"
      using IH(2,5-9) e(2) pg by (simp_all add: c1_def x)
    show ?thesis using ev IH(3) ent min nodes counts by blast
  qed
qed

text \<open>The candidates are all the entries, oldest first.\<close>

lemma eviction_candidates_spec:
  assumes inv: "cache_inv c"
  shows "cands_ok c (eviction_candidates c)" "sorted (map (\<lambda>x. fst (snd x)) (eviction_candidates c))"
    "set (eviction_candidates c) = (\<lambda>(p, e). (p, e_stamp e, ev_of e)) ` ents (root c)"
    "cand_pages (eviction_candidates c) = cached_pages c"
proof -
  note wf = cache_invD(1) [OF inv]
  let ?f = "\<lambda>(p, e). (p, e_stamp e, ev_of e)"
  have eq: "eviction_candidates c = sort_key (\<lambda>x. fst (snd x)) (map ?f (collect_entries c))"
    by (simp add: eviction_candidates_def ev_of_def)
  have fst: "map fst (map ?f xs) = map fst xs" for xs by (induction xs) auto
  have m: "mset (eviction_candidates c) = mset (map ?f (collect_entries c))" by (simp add: eq)
  show set: "set (eviction_candidates c) = ?f ` ents (root c)"
    using collect_set [OF wf] by (simp add: eq)
  show "sorted (map (\<lambda>x. fst (snd x)) (eviction_candidates c))" by (simp add: eq)
  have d: "distinct (map fst (map ?f (collect_entries c)))" unfolding fst by (rule collect_distinct [OF wf])
  have "mset (map fst (eviction_candidates c)) = mset (map fst (map ?f (collect_entries c)))"
    by (simp only: mset_map m)
  from mset_eq_imp_distinct_iff [THEN iffD2, OF this d]
  have "distinct (map fst (eviction_candidates c))" .
  moreover have "\<exists>e. entry_at (root c) (fst x) = Some e \<and> snd (snd x) = ev_of e"
    if x: "x \<in> set (eviction_candidates c)" for x
  proof -
    obtain y where y: "y \<in> ents (root c)" "x = ?f y" using x unfolding set by blast
    then show ?thesis by (cases y) auto
  qed
  ultimately show "cands_ok c (eviction_candidates c)" unfolding cands_ok_def by blast
  have "cand_pages (eviction_candidates c) = sum_list (map (\<lambda>x. ev_pages (snd (snd x))) (map ?f (collect_entries c)))"
    unfolding cand_pages_def by (rule sum_list_mset_cong) (simp only: mset_map m)
  also have "map (\<lambda>x. ev_pages (snd (snd x))) (map ?f (collect_entries c)) = map (\<lambda>x. e_pages (snd x)) (collect_entries c)"
    by (simp add: case_prod_unfold comp_def)
  also have "sum_list \<dots> = cached_pages c"
    using sum_collect [OF wf, of "\<lambda>x. e_pages (snd x)"] cache_invD(5) [OF inv] by simp
  finally show "cand_pages (eviction_candidates c) = cached_pages c" .
qed

section \<open>Setting an entry\<close>

lemma set_entry_path:
  assumes f: "keeps_shape d f" and u: "update_path f g path n = Some n'" and wf: "trie_wf n"
    and g: "\<And>m1 m2. g m1 = Some m2 \<Longrightarrow> m2 = set_entry (Some (h m1)) m1"
    and d: "\<And>m. node_at n path = Some m \<Longrightarrow> d = 1 - of_bool (entry m \<noteq> None)"
  obtains m m1 where "node_at n path = Some m" "f m = Some m1" "g m1 \<noteq> None" "trie_wf n'"
    "entry_at n' = (entry_at n)(path \<mapsto> h m1)"
proof -
  obtain m m1 m2 where m: "node_at n path = Some m" "f m = Some m1" "g m1 = Some m2"
    "node_at n' path = Some m2"
    using update_path_node [OF f u] by metis
  note k = keeps_shapeD [OF f m(2)]
  have m2: "m2 = TrieNode (children m) (Some (h m1)) (subtree_entries m1)"
    using g [OF m(3)] k by (simp add: set_entry_def)
  note wm = trie_wf_node_at [OF wf m(1), unfolded trie_wf_iff [of m]]
  have "int (subtree_entries m2) = int (subtree_entries m) + d" using k by (simp add: m2)
  moreover have "trie_wf m2"
    using wm k d [OF m(1)] by (cases "entry m") (auto simp: m2 trie_wf_TrieNode)
  ultimately have "trie_wf n'" using update_path_wf [OF f u wf m(1,4)] by blast
  moreover have "entry_at n' p = ((entry_at n)(path \<mapsto> h m1)) p" for p
  proof (cases "prefix path p")
    case True
    then obtain q where q: "p = path @ q" by (rule prefixE)
    have "entry_at n' p = entry_at m2 q" "entry_at n p = entry_at m q"
      using entry_at_append m(1,4) q by simp_all
    then show ?thesis by (cases q) (auto simp: q m2)
  next
    case False
    then have "p \<noteq> path" by auto
    then show ?thesis using update_path_other [OF f u False] by simp
  qed
  ultimately show thesis using that [of m m1] m(1-3) by blast
qed

lemma ents_upd: "entry_at n' = (entry_at n)(p \<mapsto> e) \<Longrightarrow>
    ents n' = insert (p, e) (ents n - {x. fst x = p})"
  by (auto simp: ents_def split: if_splits)

text \<open>A new stamp for an entry: the map changes in that stamp only.\<close>

lemma restamp_inv:
  assumes inv: "cache_inv c" and e: "entry_at (root c) path = Some e"
  obtains r where "update_path Some (restamp (rc_stamp c + 1)) path (root c) = Some r"
    "entry_at r = (entry_at (root c))(path \<mapsto> e\<lparr>e_stamp := rc_stamp c + 1\<rparr>)"
    "cache_inv (c\<lparr>rc_stamp := rc_stamp c + 1, root := r\<rparr>)"
proof -
  let ?s = "rc_stamp c + 1" and ?e = "e\<lparr>e_stamp := rc_stamp c + 1\<rparr>"
  note wf = cache_invD(1) [OF inv]
  obtain m where m: "node_at (root c) path = Some m" "entry m = Some e"
    using e by (auto simp: entry_at_def split: option.splits)
  have g: "restamp ?s m = Some (set_entry (Some ?e) m)" by (simp add: restamp_def m)
  obtain r where r: "update_path Some (restamp ?s) path (root c) = Some r"
    using update_path_exists [where g = "restamp ?s", OF keeps_shape_Some m(1) _ g] by blast
  obtain m' m1 where r2: "node_at (root c) path = Some m'" "Some m' = Some m1" "trie_wf r"
    "entry_at r = (entry_at (root c))(path \<mapsto> (the (entry m1))\<lparr>e_stamp := ?s\<rparr>)"
    by (rule set_entry_path [OF keeps_shape_Some r wf, of "\<lambda>m. (the (entry m))\<lparr>e_stamp := ?s\<rparr>"])
      (use m in \<open>auto simp: restamp_def bind_eq_Some_conv\<close>)
  then have ent: "entry_at r = (entry_at (root c))(path \<mapsto> ?e)" using m by simp
  have old: "length path = e_pages e * rc_block c" "1 \<le> e_pages e"
    using cache_invD(3) [OF inv e] by auto
  have fin: "finite (ents (root c))" by (rule finite_ents [OF wf])
  have mem: "(path, e) \<in> ents (root c)" using e by simp
  have rest: "ents (root c) - {x. fst x = path} = ents (root c) - {(path, e)}"
    using e by (auto simp: ents_def)
  have new: "(path, ?e) \<notin> ents (root c) - {(path, e)}" using e by (auto simp: ents_def)
  have "(\<Sum>x\<in>ents r. e_pages (snd x)) = cached_pages c" "card (ents r) = n_entries c"
    using sum.remove [OF fin mem, of "\<lambda>x. e_pages (snd x)"] card.remove [OF fin mem]
      cache_invD(5,6) [OF inv] fin new
    by (simp_all add: ents_upd [OF ent] rest)
  then have "cache_inv (c\<lparr>rc_stamp := ?s, root := r\<rparr>)"
    using inv r2(3) old unfolding cache_inv_def
    by (simp add: ent entries_ok_upd [of _ "rc_stamp c"] stamps_unique_upd [of _ "rc_block c" "rc_stamp c"])
  then show thesis using that r ent by blast
qed

text \<open>Admitting a new entry.\<close>

lemma admit_inv:
  fixes e :: Entry
  assumes inv: "cache_inv c" and new: "entry_at (root c) key = None"
    and u: "update_path incr (\<lambda>n. Some (set_entry (Some e) n)) key (root c) = Some r"
    and e: "length key = e_pages e * rc_block c" "1 \<le> e_pages e" "e_stamp e = rc_stamp c + 1"
    and fit: "cached_pages c + e_pages e \<le> rc_max_pages c"
  shows "entry_at r = (entry_at (root c))(key \<mapsto> e)"
    "cache_inv (c\<lparr>root := r, rc_stamp := rc_stamp c + 1, cached_pages := cached_pages c + e_pages e,
       n_entries := n_entries c + 1\<rparr>)"
proof -
  note wf = cache_invD(1) [OF inv]
  obtain m m1 where r: "node_at (root c) key = Some m" "trie_wf r"
    "entry_at r = (entry_at (root c))(key \<mapsto> e)"
    by (rule set_entry_path [OF keeps_shape_incr u wf, of "\<lambda>_. e"])
      (use new in \<open>auto simp: entry_at_def\<close>)
  show ent: "entry_at r = (entry_at (root c))(key \<mapsto> e)" by (rule r(3))
  have "ents (root c) - {x. fst x = key} = ents (root c)" using new by (auto simp: ents_def)
  then have ents: "ents r = insert (key, e) (ents (root c))" using ents_upd [OF ent] by simp
  have "finite (ents (root c))" "(key, e) \<notin> ents (root c)" using finite_ents [OF wf] new by simp_all
  then have "(\<Sum>x\<in>ents r. e_pages (snd x)) = cached_pages c + e_pages e" "card (ents r) = n_entries c + 1"
    using cache_invD(5,6) [OF inv] by (simp_all add: ents)
  then show "cache_inv (c\<lparr>root := r, rc_stamp := rc_stamp c + 1, cached_pages := cached_pages c + e_pages e,
       n_entries := n_entries c + 1\<rparr>)"
    using inv r(2) e fit unfolding cache_inv_def
    by (simp add: ent entries_ok_upd [of _ "rc_stamp c"] stamps_unique_upd [of _ "rc_block c" "rc_stamp c"])
qed

end
