(* ===== verification/Radix_Ops.thy ===== *)
theory Radix_Ops
  imports Radix_Spec
begin

text \<open>
  Lookup, touch, insertion and clearing of the token-prefix cache: what each does to the partial
  map from keys to entries, in every state that satisfies the invariant, and the states reachable
  from a new cache.
\<close>

section \<open>The walks\<close>

text \<open>The deepest path of a set, the smallest in lexicographic order among those of its length.\<close>

definition deepest :: "nat list set \<Rightarrow> nat list \<Rightarrow> bool" where
  "deepest P p \<longleftrightarrow> p \<in> P
     \<and> (\<forall>q\<in>P. length q < length p \<or> (length q = length p \<and> p \<le> q))"

definition best_paths :: "(nat \<times> nat list) option \<Rightarrow> nat list set" where
  "best_paths b = (case b of None \<Rightarrow> {} | Some (l, p) \<Rightarrow> {p})"

lemma best_paths_simps [simp]: "best_paths None = {}" "best_paths (Some (l, p)) = {p}"
  by (simp_all add: best_paths_def)

definition best_ok :: "nat list set \<Rightarrow> (nat \<times> nat list) option \<Rightarrow> bool" where
  "best_ok P b \<longleftrightarrow> (case b of None \<Rightarrow> P = {} | Some (l, p) \<Rightarrow> l = length p \<and> deepest P p)"

lemma deepest_insert_better:
  "deepest Q p \<Longrightarrow> length p < length path \<or> (length path = length p \<and> path < p) \<Longrightarrow>
    deepest (insert path Q) path"
  by (auto simp: deepest_def)

lemma deepest_insert_worse:
  "deepest Q p \<Longrightarrow> \<not> (length p < length path \<or> (length path = length p \<and> path < p)) \<Longrightarrow>
    deepest (insert path Q) p"
  by (auto simp: deepest_def)

text \<open>Folding a list of paths into the best one.\<close>

definition better_path :: "(nat \<times> nat list) option \<Rightarrow> nat list \<Rightarrow> (nat \<times> nat list) option" where
  "better_path best path =
     (if (case best of Some (bd, bp) \<Rightarrow> bd < length path \<or> (length path = bd \<and> path < bp) | None \<Rightarrow> True)
      then Some (length path, path) else best)"

lemma better_path_ok:
  "best_ok Q best \<Longrightarrow> best_ok (insert path Q) (better_path best path)"
proof (cases best)
  case None
  then show "best_ok Q best \<Longrightarrow> ?thesis" by (simp add: best_ok_def better_path_def deepest_def)
next
  case (Some b)
  obtain l p where b: "b = (l, p)" by (cases b)
  show "best_ok Q best \<Longrightarrow> ?thesis"
    using deepest_insert_better [of Q p path] deepest_insert_worse [of Q p path]
    by (auto simp: best_ok_def better_path_def Some b)
qed

definition work_paths :: "(TrieNode \<times> nat list) list \<Rightarrow> nat list set" where
  "work_paths work = fst ` set_mset (work_ents work)"

lemma work_paths_push:
  "(if entry n = None then {} else {path}) \<union> work_paths (push_children n path work)
   = work_paths ((n, path) # work)"
  unfolding work_paths_def work_ents_push [of path n work, symmetric]
  by (cases "entry n") (auto simp: image_Un)

lemma deepest_loop_step:
  "deepest_loop ((n, path) # work) best
   = deepest_loop (push_children n path work) (if entry n = None then best else better_path best path)"
  by (auto simp: better_path_def Let_def)

lemma deepest_loop_spec: "best_ok Q best \<Longrightarrow> best_ok (work_paths work \<union> Q) (deepest_loop work best)"
proof (induction work best arbitrary: Q rule: deepest_loop.induct)
  case (1 best)
  then show ?case by (simp add: work_paths_def work_ents_def)
next
  case (2 n path work best)
  let ?b = "if entry n = None then best else better_path best path"
  let ?Q = "(if entry n = None then {} else {path}) \<union> Q"
  have b: "best_ok ?Q ?b" using 2(2) better_path_ok [of Q best path] by simp
  have eq: "?b = (if entry n \<noteq> None \<and> (case best of Some (bd, bp) \<Rightarrow> bd < length path \<or> (length path = bd \<and> path < bp)
          | None \<Rightarrow> True) then Some (length path, path) else best)"
    by (auto simp: better_path_def)
  have "best_ok (work_paths (push_children n path work) \<union> ?Q) (deepest_loop (push_children n path work) ?b)"
    by (rule 2(1) [OF refl, unfolded Let_def, OF refl, folded eq, OF b])
  moreover have "work_paths (push_children n path work) \<union> ?Q = work_paths ((n, path) # work) \<union> Q"
    unfolding work_paths_push [of n path work, symmetric] by blast
  ultimately show ?case unfolding deepest_loop_step by (simp only:)
qed

text \<open>A key is covered when some entry extends it.\<close>

definition covered :: "TrieNode \<Rightarrow> nat list \<Rightarrow> bool" where
  "covered n k \<longleftrightarrow> (\<exists>q. entry_at n (k @ q) \<noteq> None)"

lemma covered_Cons [simp]:
  "covered n (t # k) \<longleftrightarrow> (case map_of (children n) t of None \<Rightarrow> False | Some c \<Rightarrow> covered c k)"
  by (simp add: covered_def split: option.split)

lemma covered_Nil: "trie_wf n \<Longrightarrow> covered n [] \<longleftrightarrow> 0 < subtree_entries n"
proof -
  assume wf: "trie_wf n"
  have "covered n [] \<longleftrightarrow> ents n \<noteq> {}" by (auto simp: covered_def ents_def)
  then show ?thesis using card_ents [OF wf] finite_ents [OF wf] by (metis card_gt_0_iff)
qed

definition aligned_hit :: "nat \<Rightarrow> TrieNode \<Rightarrow> nat \<Rightarrow> nat list \<Rightarrow> nat \<Rightarrow> bool" where
  "aligned_hit block n i ts k \<longleftrightarrow>
     0 < k \<and> k \<le> length ts \<and> (i + k) mod block = 0 \<and> covered n (take k ts)"

lemma aligned_hit_Cons:
  assumes "trie_wf n" "map_of (children n) t = Some c"
  shows "aligned_hit block n i (t # ts) (Suc k) \<longleftrightarrow>
    (if k = 0 then (i + 1) mod block = 0 \<and> 0 < subtree_entries c else aligned_hit block c (i + 1) ts k)"
  using assms covered_Nil [OF trie_wf_child [OF assms]] by (auto simp: aligned_hit_def)

lemma walk1_spec:
  "trie_wf n \<Longrightarrow>
    (walk1 block n i ts best = best \<and> (\<forall>k. \<not> aligned_hit block n i ts k)) \<or>
    (\<exists>k. aligned_hit block n i ts k \<and> walk1 block n i ts best = Some (i + k)
       \<and> (\<forall>k'. aligned_hit block n i ts k' \<longrightarrow> k' \<le> k))"
proof (induction ts arbitrary: n i best)
  case Nil
  have "\<not> aligned_hit block n i [] k" for k by (auto simp: aligned_hit_def)
  then show ?case by simp
next
  case (Cons t ts)
  show ?case
  proof (cases "map_of (children n) t")
    case None
    then have "\<not> aligned_hit block n i (t # ts) k" for k by (cases k) (auto simp: aligned_hit_def)
    then show ?thesis using None by simp
  next
    case (Some c)
    let ?hit = "(i + 1) mod block = 0 \<and> 0 < subtree_entries c"
    let ?best = "if ?hit then Some (i + 1) else best"
    have w: "walk1 block n i (t # ts) best = walk1 block c (i + 1) ts ?best"
      by (simp add: Some Let_def)
    have zero: "\<not> aligned_hit block m j us 0" for m j us by (simp add: aligned_hit_def)
    note step = aligned_hit_Cons [OF Cons.prems Some, of block i ts]
    consider (no) "walk1 block c (i + 1) ts ?best = ?best" "\<forall>k. \<not> aligned_hit block c (i + 1) ts k"
      | (yes) k where "aligned_hit block c (i + 1) ts k" "walk1 block c (i + 1) ts ?best = Some (i + 1 + k)"
        "\<forall>k'. aligned_hit block c (i + 1) ts k' \<longrightarrow> k' \<le> k"
      using Cons.IH [OF trie_wf_child [OF Cons.prems Some], of "i + 1" ?best] by blast
    then show ?thesis
    proof cases
      case no
      have only: "aligned_hit block n i (t # ts) k \<longleftrightarrow> k = 1 \<and> ?hit" for k
        using no(2) step zero by (cases k) auto
      show ?thesis unfolding w no(1) only by auto
    next
      case yes
      have k: "0 < k" using yes(1) by (simp add: aligned_hit_def)
      have "aligned_hit block n i (t # ts) (Suc k)" using yes(1) k by (simp add: step)
      moreover have "k' \<le> Suc k" if "aligned_hit block n i (t # ts) k'" for k'
        using that yes(3) step zero by (cases k') (auto split: if_splits)
      ultimately show ?thesis unfolding w using yes(2) by (intro disjI2 exI [of _ "Suc k"]) simp
    qed
  qed
qed

text \<open>Both walks together.\<close>

lemma deepest_hit_path_spec:
  assumes inv: "cache_inv c"
  shows "case deepest_hit_path c ids of
      None \<Rightarrow> (\<forall>k. \<not> aligned_hit (rc_block c) (root c) 0 ids k)
    | Some (d, path) \<Rightarrow> aligned_hit (rc_block c) (root c) 0 ids d
        \<and> (\<forall>k. aligned_hit (rc_block c) (root c) 0 ids k \<longrightarrow> k \<le> d)
        \<and> deepest {p. prefix (take d ids) p \<and> entry_at (root c) p \<noteq> None} path"
proof -
  note wf = cache_invD(1) [OF inv]
  let ?hit = "aligned_hit (rc_block c) (root c) 0 ids"
  consider (no) "walk1 (rc_block c) (root c) 0 ids None = None" "\<forall>k. \<not> ?hit k"
    | (yes) d where "?hit d" "walk1 (rc_block c) (root c) 0 ids None = Some d" "\<forall>k. ?hit k \<longrightarrow> k \<le> d"
    using walk1_spec [OF wf, of "rc_block c" 0 ids None] by auto
  then show ?thesis
  proof cases
    case no
    then show ?thesis by (simp add: deepest_hit_path_def)
  next
    case yes
    obtain q e where e: "entry_at (root c) (take d ids @ q) = Some e"
      using yes(1) by (auto simp: aligned_hit_def covered_def)
    then obtain n where n: "node_at (root c) (take d ids) = Some n"
      by (auto simp: entry_at_def node_at_append split: option.splits bind_splits)
    note wfn = trie_wf_node_at [OF wf n]
    have paths: "work_paths [(n, take d ids)] = {p. prefix (take d ids) p \<and> entry_at (root c) p \<noteq> None}"
    proof -
      have "work_paths [(n, take d ids)] = (\<lambda>(p, e). take d ids @ p) ` ents n"
        using set_enum [OF wfn] by (force simp: work_paths_def work_ents_def prefixed_def)
      also have "\<dots> = {p. prefix (take d ids) p \<and> entry_at (root c) p \<noteq> None}"
        using entry_at_append [OF n] by (force simp: ents_def prefix_def)
      finally show ?thesis .
    qed
    have ne: "take d ids @ q \<in> work_paths [(n, take d ids)]" using e by (simp add: paths)
    have "best_ok (work_paths [(n, take d ids)] \<union> {}) (deepest_loop [(n, take d ids)] None)"
      by (rule deepest_loop_spec) (simp add: best_ok_def)
    then obtain path where "deepest_loop [(n, take d ids)] None = Some (length path, path)"
      "deepest (work_paths [(n, take d ids)]) path"
      using ne by (auto simp: best_ok_def split: option.splits)
    then show ?thesis using yes n by (simp add: deepest_hit_path_def paths del: deepest_loop.simps)
  qed
qed

section \<open>The cache as a queue, oldest entry first\<close>

abbreviation cand :: "nat list \<times> Entry \<Rightarrow> nat list \<times> nat \<times> Evicted" where
  "cand \<equiv> (\<lambda>(p, e). (p, e_stamp e, ev_of e))"

abbreviation cand_stamp :: "nat list \<times> nat \<times> Evicted \<Rightarrow> nat" where
  "cand_stamp \<equiv> (\<lambda>x. fst (snd x))"

lemma ev_of_restamp [simp]: "ev_of (e\<lparr>e_stamp := s\<rparr>) = ev_of e"
  by (simp add: ev_of_def)

lemma cand_stamp_inj: "cache_inv c \<Longrightarrow> inj_on cand_stamp (cand ` ents (root c))"
  unfolding inj_on_def using cache_invD(4) [of c] by fastforce

lemma cands_strict:
  assumes inv: "cache_inv c"
  shows "sorted_wrt (<) (map cand_stamp (eviction_candidates c))"
proof -
  have "distinct (eviction_candidates c)"
    using eviction_candidates_spec(1) [OF inv] by (simp add: cands_ok_def distinct_map)
  then have "distinct (map cand_stamp (eviction_candidates c))"
    using cand_stamp_inj [OF inv] by (simp add: distinct_map eviction_candidates_spec(3) [OF inv])
  then show ?thesis using eviction_candidates_spec(2) [OF inv] by (simp add: strict_sorted_iff)
qed

lemma cands_unique:
  assumes inv: "cache_inv c" and set: "set L = cand ` ents (root c)"
    and sorted: "sorted_wrt (<) (map cand_stamp L)"
  shows "eviction_candidates c = L"
proof (rule map_sorted_distinct_set_unique [of cand_stamp])
  show "inj_on cand_stamp (set (eviction_candidates c) \<union> set L)"
    using cand_stamp_inj [OF inv] by (simp add: set eviction_candidates_spec(3) [OF inv])
qed (use cands_strict [OF inv] sorted in \<open>simp_all add: strict_sorted_iff set eviction_candidates_spec(3) [OF inv]\<close>)

lemma cand_stamp_le:
  "cache_inv c \<Longrightarrow> x \<in> set (eviction_candidates c) \<Longrightarrow> cand_stamp x \<le> rc_stamp c"
  using cache_invD(3) [of c] by (fastforce simp: eviction_candidates_spec(3))

lemma strict_filter: "sorted_wrt (<) (map f xs) \<Longrightarrow> sorted_wrt (<) (map f (filter P xs))"
  by (induction xs) auto

lemma strict_drop: "sorted_wrt (<) (map f xs) \<Longrightarrow> sorted_wrt (<) (map f (drop m xs))"
  by (simp add: sorted_wrt_drop drop_map [symmetric])

text \<open>The three changes of the entry map, as changes of the queue.\<close>

lemma cands_restamp:
  assumes inv: "cache_inv c" "cache_inv c'" and e: "entry_at (root c) path = Some e"
    and upd: "entry_at (root c') = (entry_at (root c))(path \<mapsto> e\<lparr>e_stamp := rc_stamp c + 1\<rparr>)"
  shows "eviction_candidates c'
    = filter (\<lambda>x. fst x \<noteq> path) (eviction_candidates c) @ [(path, rc_stamp c + 1, ev_of e)]"
proof (rule cands_unique [OF inv(2)])
  show "set (filter (\<lambda>x. fst x \<noteq> path) (eviction_candidates c) @ [(path, rc_stamp c + 1, ev_of e)])
      = cand ` ents (root c')"
    by (auto simp: ents_upd [OF upd] eviction_candidates_spec(3) [OF inv(1)])
  show "sorted_wrt (<) (map cand_stamp
      (filter (\<lambda>x. fst x \<noteq> path) (eviction_candidates c) @ [(path, rc_stamp c + 1, ev_of e)]))"
    using strict_filter [OF cands_strict [OF inv(1)]] cand_stamp_le [OF inv(1)]
    by (auto simp: sorted_wrt_append less_Suc_eq_le)
qed

lemma cands_admit:
  assumes inv: "cache_inv c" "cache_inv c'" and e: "e_stamp e = rc_stamp c + 1"
    and new: "entry_at (root c) key = None" and upd: "entry_at (root c') = (entry_at (root c))(key \<mapsto> e)"
  shows "eviction_candidates c' = eviction_candidates c @ [(key, rc_stamp c + 1, ev_of e)]"
proof (rule cands_unique [OF inv(2)])
  have "ents (root c) - {x. fst x = key} = ents (root c)" using new by (auto simp: ents_def)
  then show "set (eviction_candidates c @ [(key, rc_stamp c + 1, ev_of e)]) = cand ` ents (root c')"
    by (auto simp: ents_upd [OF upd] eviction_candidates_spec(3) [OF inv(1)] e)
  show "sorted_wrt (<) (map cand_stamp (eviction_candidates c @ [(key, rc_stamp c + 1, ev_of e)]))"
    using cands_strict [OF inv(1)] cand_stamp_le [OF inv(1)]
    by (auto simp: sorted_wrt_append less_Suc_eq_le)
qed

lemma filter_image: "(\<And>x. fst (f x) = fst x) \<Longrightarrow> {y \<in> f ` S. fst y \<notin> X} = f ` {x \<in> S. fst x \<notin> X}"
  by auto

lemma cands_evict:
  assumes inv: "cache_inv c" "cache_inv c'"
    and ent: "entry_at (root c') = (\<lambda>p. if p \<in> fst ` set (take m (eviction_candidates c)) then None
        else entry_at (root c) p)"
  shows "eviction_candidates c' = drop m (eviction_candidates c)"
proof (rule cands_unique [OF inv(2) _ strict_drop [OF cands_strict [OF inv(1)]]])
  let ?C = "eviction_candidates c"
  have d: "distinct (map fst ?C)" using eviction_candidates_spec(1) [OF inv(1)] by (simp add: cands_ok_def)
  then have "distinct (map fst (take m ?C) @ map fst (drop m ?C))"
    by (metis append_take_drop_id map_append)
  then have "fst ` set (take m ?C) \<inter> fst ` set (drop m ?C) = {}" by simp
  then have "x \<in> set (drop m ?C) \<longleftrightarrow> x \<in> set ?C \<and> fst x \<notin> fst ` set (take m ?C)" for x
    using set_append [of "take m ?C" "drop m ?C"] by auto
  then have eq: "set (drop m ?C) = {x \<in> set ?C. fst x \<notin> fst ` set (take m ?C)}" by blast
  have "x \<in> ents (root c') \<longleftrightarrow> x \<in> ents (root c) \<and> fst x \<notin> fst ` set (take m ?C)" for x
    by (cases x) (simp add: ent del: set_take_subset)
  then have mem: "ents (root c') = {x \<in> ents (root c). fst x \<notin> fst ` set (take m ?C)}" by blast
  have fst: "fst (cand x) = fst x" for x by (cases x) simp
  show "set (drop m ?C) = cand ` ents (root c')"
    unfolding eq mem eviction_candidates_spec(3) [OF inv(1)] by (rule filter_image) (rule fst)
qed

text \<open>
  The specification: the cached runs with their keys, least recently used first. Insertion
  evicts from the front until the new run fits and appends it.
\<close>

definition lru :: "TokenRadixCache \<Rightarrow> (nat list \<times> Evicted) list" where
  "lru c = map (\<lambda>(p, s, ev). (p, ev)) (eviction_candidates c)"

fun evict_oldest :: "nat \<Rightarrow> (nat list \<times> Evicted) list \<Rightarrow> Evicted list \<times> (nat list \<times> Evicted) list" where
  "evict_oldest s [] = ([], [])"
| "evict_oldest s ((k, ev) # q) =
     (if s = 0 then ([], (k, ev) # q)
      else let (es, q') = evict_oldest (s - ev_pages ev) q in (ev # es, q'))"

definition to_back :: "nat list \<Rightarrow> (nat list \<times> Evicted) list \<Rightarrow> (nat list \<times> Evicted) list" where
  "to_back k q = filter (\<lambda>x. fst x \<noteq> k) q @ filter (\<lambda>x. fst x = k) q"

definition queue_pages :: "(nat list \<times> Evicted) list \<Rightarrow> nat" where
  "queue_pages q = sum_list (map (\<lambda>x. ev_pages (snd x)) q)"

definition lru_insert ::
  "nat \<Rightarrow> nat list \<Rightarrow> Evicted \<Rightarrow> (nat list \<times> Evicted) list \<Rightarrow> (nat list \<times> Evicted) list \<times> Evicted list"
where
  "lru_insert cap k ev q =
     (if k \<in> fst ` set q then (to_back k q, [])
      else let (es, q') = evict_oldest (queue_pages q + ev_pages ev - cap) q in (q' @ [(k, ev)], es))"

lemma evict_oldest_minimal:
  assumes "m \<le> length q" "s \<le> queue_pages (take m q)" "0 < m \<longrightarrow> queue_pages (take (m - 1) q) < s"
  shows "evict_oldest s q = (map snd (take m q), drop m q)"
  using assms
proof (induction q arbitrary: s m)
  case (Cons x q)
  show ?case
  proof (cases m)
    case (Suc m')
    have "0 < s" using Cons.prems(3) Suc by (cases m') (auto simp: queue_pages_def)
    moreover have "evict_oldest (s - ev_pages (snd x)) q = (map snd (take m' q), drop m' q)"
      using Cons.prems by (intro Cons.IH) (cases m'; auto simp: Suc queue_pages_def)+
    ultimately show ?thesis by (cases x) (simp add: Suc)
  qed (use Cons.prems in \<open>cases x; simp add: queue_pages_def\<close>)
qed simp

lemma lru_append [simp]: "map (\<lambda>(p, s, ev). (p, ev)) (xs @ [(k, s, ev)]) = map (\<lambda>(p, s, ev). (p, ev)) xs @ [(k, ev)]"
  by simp

lemma length_lru [simp]: "length (lru c) = length (eviction_candidates c)"
  by (simp add: lru_def)

lemma set_lru: "cache_inv c \<Longrightarrow> (k, ev) \<in> set (lru c) \<longleftrightarrow> (\<exists>e. entry_at (root c) k = Some e \<and> ev = ev_of e)"
  by (force simp: lru_def eviction_candidates_spec(3))

lemma keys_lru: "cache_inv c \<Longrightarrow> k \<in> fst ` set (lru c) \<longleftrightarrow> entry_at (root c) k \<noteq> None"
proof -
  assume inv: "cache_inv c"
  have "k \<in> fst ` set (lru c) \<longleftrightarrow> (\<exists>ev. (k, ev) \<in> set (lru c))" by force
  then show ?thesis by (auto simp: set_lru [OF inv])
qed

lemma distinct_lru:
  assumes "cache_inv c" shows "distinct (map fst (lru c))"
proof -
  have "map fst (lru c) = map fst (eviction_candidates c)" by (simp add: lru_def case_prod_unfold comp_def)
  then show ?thesis using eviction_candidates_spec(1) [OF assms] by (simp add: cands_ok_def)
qed

lemma queue_pages_lru: "cache_inv c \<Longrightarrow> queue_pages (lru c) = cached_pages c"
  using eviction_candidates_spec(4) [of c]
  by (simp add: queue_pages_def lru_def cand_pages_def comp_def case_prod_unfold)

section \<open>Touch and insertion against the queue\<close>

lemma filter_map_lru: "filter (\<lambda>x. P (fst x)) (map (\<lambda>(p, s, ev). (p, ev)) xs)
    = map (\<lambda>(p, s, ev). (p, ev)) (filter (\<lambda>x. P (fst x)) xs)"
  by (induction xs) auto

lemma filter_key:
  "distinct (map fst q) \<Longrightarrow> (k, v) \<in> set q \<Longrightarrow> filter (\<lambda>x. fst x = k) q = [(k, v)]"
proof (induction q)
  case (Cons x q)
  show ?case
  proof (cases "fst x = k")
    case True
    then have "k \<notin> fst ` set q" using Cons.prems(1) by auto
    then have "filter (\<lambda>x. fst x = k) q = []" "(k, v) \<notin> set q" by (auto simp: filter_empty_conv image_iff)
    then show ?thesis using Cons.prems True by auto
  qed (use Cons in auto)
qed simp

lemma lru_restamp:
  assumes inv: "cache_inv c" "cache_inv c'" and e: "entry_at (root c) path = Some e"
    and upd: "entry_at (root c') = (entry_at (root c))(path \<mapsto> e\<lparr>e_stamp := rc_stamp c + 1\<rparr>)"
  shows "lru c' = to_back path (lru c)"
proof -
  have "(path, ev_of e) \<in> set (lru c)" using e by (simp add: set_lru [OF inv(1)])
  note one = filter_key [OF distinct_lru [OF inv(1)] this]
  show ?thesis
    unfolding to_back_def one unfolding lru_def cands_restamp [OF inv e upd]
    by (simp only: filter_map_lru [of "\<lambda>x. x \<noteq> path"] lru_append)
qed

text \<open>A touch moves the entry that would serve the key to the back of the queue.\<close>

lemma touch_spec:
  assumes inv: "cache_inv c"
  shows "case deepest_hit_path c key of
      None \<Rightarrow> touch c key = (c, False)
    | Some (d, path) \<Rightarrow> (\<exists>c'. touch c key = (c', True) \<and> cache_inv c' \<and> lru c' = to_back path (lru c)
        \<and> rc_block c' = rc_block c \<and> rc_max_pages c' = rc_max_pages c)"
proof (cases "deepest_hit_path c key")
  case None
  then show ?thesis by (simp add: touch_def)
next
  case (Some dp)
  obtain d path where dp: "dp = (d, path)" by (cases dp)
  obtain e where e: "entry_at (root c) path = Some e"
    using deepest_hit_path_spec [OF inv, of key] by (auto simp: Some dp deepest_def)
  obtain r where r: "update_path Some (restamp (rc_stamp c + 1)) path (root c) = Some r"
    "entry_at r = (entry_at (root c))(path \<mapsto> e\<lparr>e_stamp := rc_stamp c + 1\<rparr>)"
    "cache_inv (c\<lparr>rc_stamp := rc_stamp c + 1, root := r\<rparr>)"
    by (rule restamp_inv [OF inv e])
  have "lru (c\<lparr>rc_stamp := rc_stamp c + 1, root := r\<rparr>) = to_back path (lru c)"
    by (rule lru_restamp [OF inv r(3) e]) (simp add: r(2))
  then show ?thesis using r by (simp add: Some dp touch_def)
qed

text \<open>The arguments that the first five tests of the code let through.\<close>

definition insertable :: "TokenRadixCache \<Rightarrow> nat list \<Rightarrow> nat \<Rightarrow> bool" where
  "insertable c key pages \<longleftrightarrow> key \<noteq> [] \<and> 1 \<le> pages \<and> pages * rc_block c \<le> length key \<and> pages \<le> rc_max_pages c"

definition run_of :: "nat \<Rightarrow> nat \<Rightarrow> Evicted" where
  "run_of base pages = \<lparr>ev_base_page = base, ev_pages = pages\<rparr>"

lemma insert_create:
  assumes inv: "cache_inv c"
  shows "cache_inv (c\<lparr>root := create_path k (root c)\<rparr>)" "lru (c\<lparr>root := create_path k (root c)\<rparr>) = lru c"
proof -
  have ent: "entry_at (create_path k (root c)) = entry_at (root c)" by (rule ext) simp
  show inv': "cache_inv (c\<lparr>root := create_path k (root c)\<rparr>)"
    by (rule cache_inv_same_entries [OF inv create_path_wf [OF cache_invD(1) [OF inv], THEN conjunct1] ent])
  have "eviction_candidates (c\<lparr>root := create_path k (root c)\<rparr>) = eviction_candidates c"
    by (rule cands_unique [OF inv' _ cands_strict [OF inv]])
      (simp add: eviction_candidates_spec(3) [OF inv] ents_def ent)
  then show "lru (c\<lparr>root := create_path k (root c)\<rparr>) = lru c" by (simp add: lru_def)
qed

text \<open>The eviction loop takes the runs the specification takes.\<close>

lemma evict_refines:
  assumes inv: "cache_inv c" and s: "s \<le> cached_pages c"
  obtains c' es m where "evict_loop (eviction_candidates c) s c [] = Some (0, c', es)" "cache_inv c'"
    "evict_oldest s (lru c) = (es, lru c')" "rc_stamp c' = rc_stamp c" "rc_block c' = rc_block c"
    "rc_max_pages c' = rc_max_pages c" "cached_pages c' + s \<le> cached_pages c"
    "\<And>k. entry_at (root c) k = None \<Longrightarrow> entry_at (root c') k = None"
    "\<And>k. node_at (root c) k \<noteq> None \<Longrightarrow> (\<And>p. entry_at (root c) p \<noteq> None \<Longrightarrow> \<not> prefix k p)
      \<Longrightarrow> node_at (root c') k \<noteq> None"
proof -
  let ?C = "eviction_candidates c"
  have "cands_ok c ?C" "s \<le> cand_pages ?C"
    using eviction_candidates_spec(1,4) [OF inv] s by simp_all
  from evict_loop_spec [OF inv this, of "[]"]
  obtain m c' where r: "evict_loop ?C s c [] = Some (0, c', [] @ map (\<lambda>x. snd (snd x)) (take m ?C))"
    "m \<le> length ?C" "cache_inv c'"
    "entry_at (root c') = (\<lambda>p. if p \<in> fst ` set (take m ?C) then None else entry_at (root c) p)"
    "rc_stamp c' = rc_stamp c" "rc_block c' = rc_block c" "rc_max_pages c' = rc_max_pages c"
    "cached_pages c' + cand_pages (take m ?C) = cached_pages c"
    "s \<le> cand_pages (take m ?C)" "0 < m \<longrightarrow> cand_pages (take (m - 1) ?C) < s"
    "\<forall>k. node_at (root c) k \<noteq> None \<and> (\<forall>x\<in>set ?C. \<not> prefix k (fst x)) \<longrightarrow> node_at (root c') k \<noteq> None"
    by blast
  have pages: "queue_pages (take n (lru c)) = cand_pages (take n ?C)" for n
    by (simp add: queue_pages_def cand_pages_def lru_def take_map comp_def case_prod_unfold)
  have "evict_oldest s (lru c) = (map snd (take m (lru c)), drop m (lru c))"
    by (rule evict_oldest_minimal) (use r(2,9,10) in \<open>simp_all only: pages length_lru\<close>)
  moreover have "map snd (take m (lru c)) = map (\<lambda>x. snd (snd x)) (take m ?C)"
    by (simp add: lru_def take_map comp_def case_prod_unfold)
  moreover have "drop m (lru c) = lru c'"
    using cands_evict [OF inv r(3,4)] by (simp add: lru_def drop_map)
  ultimately have ev: "evict_oldest s (lru c) = (map (\<lambda>x. snd (snd x)) (take m ?C), lru c')" by simp
  have keep: "entry_at (root c') k = None" if none: "entry_at (root c) k = None" for k
    using none by (simp add: r(4))
  have nodes: "node_at (root c') k \<noteq> None"
    if n: "node_at (root c) k \<noteq> None" "\<And>p. entry_at (root c) p \<noteq> None \<Longrightarrow> \<not> prefix k p" for k
  proof -
    have "\<not> prefix k (fst x)" if x: "x \<in> set ?C" for x
      using n(2) [of "fst x"] x by (auto simp: eviction_candidates_spec(3) [OF inv])
    then show ?thesis using r(11) n(1) by blast
  qed
  have "cached_pages c' + s \<le> cached_pages c" using r(8,9) by linarith
  then show thesis using r(1) by (intro that [of c' "map (\<lambda>x. snd (snd x)) (take m ?C)"])
    (simp_all only: append_Nil r(3,5,6,7) ev keep nodes not_False_eq_True)
qed

text \<open>Insertion past the five tests, with the trie and the eviction as equations.\<close>

lemma radix_insert_insertable:
  assumes "insertable c key pages"
  shows "radix_insert c key base pages =
    (let k = take (pages * rc_block c) key; r1 = create_path k (root c);
         c1 = c\<lparr>root := r1\<rparr>; surplus = sat_add (cached_pages c) pages - rc_max_pages c;
         e = (\<lambda>s. \<lparr>e_base_page = base, e_pages = pages, e_stamp = s\<rparr>)
     in if entry_at r1 k \<noteq> None
        then (case update_path Some (restamp (rc_stamp c + 1)) k r1 of None \<Rightarrow> Panic
              | Some r2 \<Rightarrow> Ok (c\<lparr>rc_stamp := rc_stamp c + 1, root := r2\<rparr>, []))
        else case (if 0 < surplus then evict_loop (eviction_candidates c1) surplus c1 [] else Some (0, c1, [])) of
            None \<Rightarrow> Panic
          | Some (left, c2, evicted) \<Rightarrow>
              if left \<noteq> 0 then Panic
              else (case update_path incr (\<lambda>n. Some (set_entry (Some (e (rc_stamp c2 + 1))) n)) k (root c2) of
                  None \<Rightarrow> Panic
                | Some r3 \<Rightarrow> Ok (c2\<lparr>root := r3, rc_stamp := rc_stamp c2 + 1,
                    cached_pages := cached_pages c2 + pages, n_entries := n_entries c2 + 1\<rparr>, evicted)))"
  using assms unfolding radix_insert_def insertable_def Let_def by (simp add: not_less [symmetric])

lemma radix_insert_known:
  assumes inv: "cache_inv c" and ok: "insertable c key pages"
    and e: "entry_at (root c) (take (pages * rc_block c) key) = Some e"
  obtains c' where "radix_insert c key base pages = Ok (c', [])" "cache_inv c'"
    "lru c' = to_back (take (pages * rc_block c) key) (lru c)"
    "rc_block c' = rc_block c" "rc_max_pages c' = rc_max_pages c"
proof -
  let ?k = "take (pages * rc_block c) key" and ?c1 = "c\<lparr>root := create_path (take (pages * rc_block c) key) (root c)\<rparr>"
  note inv1 = insert_create(1) [OF inv, of ?k]
  have e1: "entry_at (root ?c1) ?k = Some e" using e by simp
  obtain r where r: "update_path Some (restamp (rc_stamp ?c1 + 1)) ?k (root ?c1) = Some r"
    "entry_at r = (entry_at (root ?c1))(?k \<mapsto> e\<lparr>e_stamp := rc_stamp ?c1 + 1\<rparr>)"
    "cache_inv (?c1\<lparr>rc_stamp := rc_stamp ?c1 + 1, root := r\<rparr>)"
    by (rule restamp_inv [OF inv1 e1])
  have "lru (?c1\<lparr>rc_stamp := rc_stamp ?c1 + 1, root := r\<rparr>) = to_back ?k (lru ?c1)"
    by (rule lru_restamp [OF inv1 r(3) e1]) (simp add: r(2))
  then have lru: "lru (c\<lparr>rc_stamp := rc_stamp c + 1, root := r\<rparr>) = to_back ?k (lru c)"
    by (simp add: insert_create(2) [OF inv])
  show thesis
    by (rule that [of "c\<lparr>rc_stamp := rc_stamp c + 1, root := r\<rparr>"])
      (use r e lru in \<open>simp_all add: radix_insert_insertable [OF ok]\<close>)
qed

lemma radix_insert_new:
  assumes inv: "cache_inv c" and args: "insertable c key pages"
    and none: "entry_at (root c) (take (pages * rc_block c) key) = None"
  obtains (ok) c' es where "radix_insert c key base pages = Ok (c', es)" "cache_inv c'"
      "lru_insert (rc_max_pages c) (take (pages * rc_block c) key) (run_of base pages) (lru c) = (lru c', es)"
      "rc_block c' = rc_block c" "rc_max_pages c' = rc_max_pages c"
  | (panic) p where "radix_insert c key base pages = Panic" "entry_at (root c) p \<noteq> None"
      "strict_prefix (take (pages * rc_block c) key) p" "rc_max_pages c < cached_pages c + pages"
proof -
  define k where "k = take (pages * rc_block c) key"
  define c1 where "c1 = c\<lparr>root := create_path k (root c)\<rparr>"
  define s where "s = cached_pages c + pages - rc_max_pages c"
  have len: "length k = pages * rc_block c" using args by (simp add: k_def insertable_def)
  have "cached_pages c + pages \<le> u64_max"
    using cache_invD(7,8) [OF inv] args by (simp add: insertable_def)
  then have sat: "sat_add (cached_pages c) pages - rc_max_pages c = s" by (simp add: sat_add_def s_def)
  have inv1: "cache_inv c1" "lru c1 = lru c" using insert_create [OF inv] by (simp_all add: c1_def)
  have "pages \<le> rc_max_pages c" using args by (simp add: insertable_def)
  then have "s \<le> cached_pages c" unfolding s_def by linarith
  then have s1: "s \<le> cached_pages c1" by (simp add: c1_def)
  obtain c2 es where r: "evict_loop (eviction_candidates c1) s c1 [] = Some (0, c2, es)" "cache_inv c2"
    "evict_oldest s (lru c1) = (es, lru c2)" "rc_stamp c2 = rc_stamp c1" "rc_block c2 = rc_block c1"
    "rc_max_pages c2 = rc_max_pages c1" "cached_pages c2 + s \<le> cached_pages c1"
    "\<And>k. entry_at (root c1) k = None \<Longrightarrow> entry_at (root c2) k = None"
    "\<And>k. node_at (root c1) k \<noteq> None \<Longrightarrow> (\<And>p. entry_at (root c1) p \<noteq> None \<Longrightarrow> \<not> prefix k p)
      \<Longrightarrow> node_at (root c2) k \<noteq> None"
    using evict_refines [OF inv1(1) s1] by metis
  have ev0: "s = 0 \<Longrightarrow> evict_loop (eviction_candidates c1) s c1 [] = Some (0, c1, [])"
    by (cases "eviction_candidates c1") auto
  define e where "e = \<lparr>e_base_page = base, e_pages = pages, e_stamp = rc_stamp c2 + 1\<rparr>"
  let ?up = "update_path incr (\<lambda>n. Some (set_entry (Some e) n)) k (root c2)"
  have ins: "radix_insert c key base pages = (case ?up of None \<Rightarrow> Panic
      | Some r3 \<Rightarrow> Ok (c2\<lparr>root := r3, rc_stamp := rc_stamp c2 + 1,
          cached_pages := cached_pages c2 + pages, n_entries := n_entries c2 + 1\<rparr>, es))"
  proof -
    have "(if 0 < s then evict_loop (eviction_candidates c1) s c1 [] else Some (0, c1, [])) = Some (0, c2, es)"
      using r(1) ev0 by (cases "s = 0") simp_all
    then show ?thesis
      unfolding radix_insert_insertable [OF args] k_def [symmetric] Let_def c1_def [symmetric] sat
      using none by (simp add: k_def [symmetric] e_def)
  qed
  have new: "entry_at (root c2) k = None" using none r(8) by (simp add: c1_def k_def)
  have run: "ev_of e = run_of base pages" by (simp add: e_def ev_of_def run_of_def)
  show thesis
  proof (cases ?up)
    case (Some r3)
    let ?c' = "c2\<lparr>root := r3, rc_stamp := rc_stamp c2 + 1, cached_pages := cached_pages c2 + e_pages e,
       n_entries := n_entries c2 + 1\<rparr>"
    have fit: "cached_pages c2 + e_pages e \<le> rc_max_pages c2"
      using r(6,7) args s1 by (simp add: e_def s_def c1_def insertable_def)
    note adm = admit_inv [OF r(2) new Some _ _ _ fit]
    have a: "length k = e_pages e * rc_block c2" "1 \<le> e_pages e" "e_stamp e = rc_stamp c2 + 1"
      using args len r(5) by (simp_all add: e_def c1_def insertable_def)
    have inv': "cache_inv ?c'" by (rule adm(2) [OF a])
    have "eviction_candidates ?c' = eviction_candidates c2 @ [(k, rc_stamp c2 + 1, ev_of e)]"
      by (rule cands_admit [OF r(2) inv' a(3) new]) (simp add: adm(1) [OF a])
    then have "lru ?c' = lru c2 @ [(k, run_of base pages)]" by (simp add: lru_def run)
    moreover have "k \<notin> fst ` set (lru c)" using none by (simp add: keys_lru [OF inv] k_def)
    ultimately have "lru_insert (rc_max_pages c) k (run_of base pages) (lru c) = (lru ?c', es)"
      using r(3) by (simp add: lru_insert_def queue_pages_lru [OF inv] inv1(2) s_def run_of_def)
    then show thesis
      using ok [of ?c' es] ins Some inv' r(5,6) by (simp add: e_def c1_def k_def)
  next
    case None
    have "node_at (root c2) k = None"
    proof (rule ccontr)
      assume "node_at (root c2) k \<noteq> None"
      then obtain m where m: "node_at (root c2) k = Some m" by blast
      have "\<exists>n'. ?up = Some n'"
        using update_path_exists [where g = "\<lambda>n. Some (set_entry (Some e) n)", OF keeps_shape_incr m]
        by (simp add: incr_def)
      then show False using None by simp
    qed
    moreover have "node_at (root c1) k \<noteq> None" by (simp add: c1_def node_at_create)
    ultimately obtain p where p: "entry_at (root c1) p \<noteq> None" "prefix k p" using r(9) by blast
    then have p': "entry_at (root c) p \<noteq> None" by (simp add: c1_def)
    then have "strict_prefix k p" using p(2) none by (auto simp: strict_prefix_def k_def)
    moreover have "0 < s"
    proof (rule ccontr)
      assume "\<not> 0 < s"
      then have "c2 = c1" using ev0 r(1) by simp
      then show False using \<open>node_at (root c2) k = None\<close> \<open>node_at (root c1) k \<noteq> None\<close> by simp
    qed
    ultimately show thesis using panic [of p] ins None p' by (simp add: s_def k_def)
  qed
qed

lemma radix_insert_rejects:
  "\<not> insertable c key pages \<Longrightarrow> \<exists>e. radix_insert c key base pages = Err e"
  by (simp add: radix_insert_def insertable_def Let_def) (metis One_nat_def Suc_leI neq0_conv not_le)

section \<open>Clearing\<close>

lemma radix_clear_spec:
  assumes inv: "cache_inv c"
  shows "cache_inv (fst (radix_clear c))" "lru (fst (radix_clear c)) = []"
    "mset (snd (radix_clear c)) = mset (map snd (lru c))"
proof -
  show "cache_inv (fst (radix_clear c))"
    using inv by (auto simp: cache_inv_def radix_clear_def ents_def entries_ok_def stamps_unique_def)
  show "lru (fst (radix_clear c)) = []"
    by (simp add: lru_def eviction_candidates_def collect_entries_def radix_clear_def push_children_def empty_node_def)
  have eq: "snd (radix_clear c) = map (\<lambda>x. ev_of (snd x)) (collect_entries c)"
    by (simp add: radix_clear_def ev_of_def case_prod_unfold)
  have "mset (eviction_candidates c) = mset (map (\<lambda>(path, e). (path, e_stamp e, ev_of e)) (collect_entries c))"
    by (simp add: eviction_candidates_def ev_of_def)
  then have "mset (map (\<lambda>x. snd (snd x)) (eviction_candidates c))
      = mset (map (\<lambda>x. snd (snd x)) (map (\<lambda>(path, e). (path, e_stamp e, ev_of e)) (collect_entries c)))"
    by (simp only: mset_map)
  moreover have "map (\<lambda>x. snd (snd x)) (map (\<lambda>(path, e). (path, e_stamp e, ev_of e)) xs) = map (\<lambda>x. ev_of (snd x)) xs" for xs :: "(nat list \<times> Entry) list"
    by (induction xs) auto
  moreover have "map snd (lru c) = map (\<lambda>x. snd (snd x)) (eviction_candidates c)"
    by (simp add: lru_def case_prod_unfold comp_def)
  ultimately show "mset (snd (radix_clear c)) = mset (map snd (lru c))" by (simp only: eq)
qed

section \<open>Reachable caches\<close>

text \<open>
  The caches a client can build from a new one with the operations that change it. An insertion
  that returns an error leaves the cache as it was; after a panic there is no cache.
\<close>

inductive radix_reach :: "nat \<Rightarrow> nat \<Rightarrow> TokenRadixCache \<Rightarrow> bool" for cap block where
  reach_new: "new_with_block cap block = Some c \<Longrightarrow> radix_reach cap block c"
| reach_touch: "radix_reach cap block c \<Longrightarrow> radix_reach cap block (fst (touch c key))"
| reach_insert: "radix_reach cap block c \<Longrightarrow> radix_insert c key base pages = Ok (c', es) \<Longrightarrow> radix_reach cap block c'"
| reach_clear: "radix_reach cap block c \<Longrightarrow> radix_reach cap block (fst (radix_clear c))"

lemma radix_insert_Ok_inv:
  assumes inv: "cache_inv c" and ins: "radix_insert c key base pages = Ok (c', es)"
  shows "cache_inv c' \<and> rc_block c' = rc_block c \<and> rc_max_pages c' = rc_max_pages c"
proof -
  have args: "insertable c key pages"
    using radix_insert_rejects [of c key pages base] ins by fastforce
  show ?thesis
  proof (cases "entry_at (root c) (take (pages * rc_block c) key)")
    case None
    show ?thesis by (rule radix_insert_new [OF inv args None, where base = base]) (use ins in simp_all)
  next
    case (Some e)
    show ?thesis by (rule radix_insert_known [OF inv args Some, where base = base]) (use ins in simp_all)
  qed
qed

lemma radix_reach_inv:
  "radix_reach cap block c \<Longrightarrow> 2 * cap \<le> u64_max \<Longrightarrow>
    cache_inv c \<and> rc_block c = block \<and> rc_max_pages c = cap"
proof (induction rule: radix_reach.induct)
  case (reach_new c)
  then show ?case using cache_inv_new [OF reach_new] by (auto simp: new_with_block_def split: if_splits)
next
  case (reach_touch c key)
  then show ?case using touch_spec [of c key] by (auto split: option.splits)
next
  case (reach_insert c key base pages c' es)
  then show ?case using radix_insert_Ok_inv by metis
next
  case (reach_clear c)
  then show ?case using radix_clear_spec(1) [of c] by (simp add: radix_clear_def)
qed

section \<open>Properties\<close>

definition demo_cache :: "TokenRadixCache" where
  "demo_cache = \<lparr>rc_block = 2, rc_max_pages = 3, cached_pages = 3, n_entries = 2, rc_stamp = 2,
     root = TrieNode
       [(1, TrieNode [(2, TrieNode [(3, TrieNode [(4, TrieNode [] (Some \<lparr>e_base_page = 10, e_pages = 2, e_stamp = 1\<rparr>) 1)]
          None 1)] None 1)] None 1),
        (9, TrieNode [(8, TrieNode [] (Some \<lparr>e_base_page = 20, e_pages = 1, e_stamp = 2\<rparr>) 1)] None 1)] None 2\<rparr>"

lemmas radix_eval = Let_def new_with_block_def radix_insert_def sat_add_def u64_max_def entry_at_def
  empty_node_def restamp_def set_entry_def incr_def decr_def eviction_candidates_def collect_entries_def
  push_children_def remove_entry_at_def drop_child_def bt_remove_def touch_def deepest_hit_path_def
  lookup_def chk_sub_def

lemma demo_cache_reach: "radix_reach 3 2 demo_cache"
proof -
  define c0 where "c0 = the (new_with_block 3 2)"
  have c0: "new_with_block 3 2 = Some c0" by (simp add: c0_def new_with_block_def)
  define c1 where "c1 = (case radix_insert c0 [1, 2, 3, 4] 10 2 of Ok (c, es) \<Rightarrow> c)"
  have c1: "radix_insert c0 [1, 2, 3, 4] 10 2 = Ok (c1, [])"
    by (simp add: c1_def c0_def radix_eval)
  have c2: "radix_insert c1 [9, 8] 20 1 = Ok (demo_cache, [])"
    by (simp add: c1_def c0_def demo_cache_def radix_eval)
  show ?thesis
    by (rule reach_insert [OF reach_insert [OF reach_new [OF c0] c1] c2])
qed

lemma reach_facts:
  assumes "radix_reach cap block c" "2 * cap \<le> u64_max"
  shows "assert_consistent c" "queue_pages (lru c) = cached_pages c \<and> cached_pages c \<le> cap"
    "distinct (map fst (lru c))"
    "(k, ev) \<in> set (lru c) \<Longrightarrow> 1 \<le> ev_pages ev \<and> length k = ev_pages ev * block"
proof -
  have inv: "cache_inv c" "rc_block c = block" "rc_max_pages c = cap"
    using radix_reach_inv [OF assms] by auto
  show "assert_consistent c" by (rule cache_inv_consistent [OF inv(1)])
  show "queue_pages (lru c) = cached_pages c \<and> cached_pages c \<le> cap"
    using queue_pages_lru [OF inv(1)] cache_invD(7) [OF inv(1)] inv(3) by simp
  show "distinct (map fst (lru c))" by (rule distinct_lru [OF inv(1)])
  show "1 \<le> ev_pages ev \<and> length k = ev_pages ev * block" if kv: "(k, ev) \<in> set (lru c)"
    using cache_invD(3) [OF inv(1), of k] kv inv(2) by (auto simp: set_lru [OF inv(1)])
qed

text \<open>
  C25: Every cache reachable from a new one by lookups, touches, insertions and clears passes the
  consistency assertions of the code: keys are whole pages, stamps are unique, the page and entry
  counters are the sums over the trie, and the cached pages stay within the budget. No key is
  stored twice, and every stored key is exactly as long as its pages.
\<close>

theorem radix_reach_consistent:
  assumes "radix_reach cap block c" "2 * cap \<le> u64_max"
  shows "assert_consistent c \<and> queue_pages (lru c) = cached_pages c \<and> cached_pages c \<le> cap
    \<and> distinct (map fst (lru c))
    \<and> (\<forall>(k, ev)\<in>set (lru c). 1 \<le> ev_pages ev \<and> length k = ev_pages ev * block)"
  using reach_facts [OF assms] by blast

theorem radix_reach_consistent_witness:
  "assert_consistent demo_cache \<and> queue_pages (lru demo_cache) = 3 \<and> distinct (map fst (lru demo_cache))"
  using radix_reach_consistent [OF demo_cache_reach] by (simp add: u64_max_def demo_cache_def)

text \<open>The aligned depths at which a stored key extends the prompt.\<close>

definition hit_depth :: "nat \<Rightarrow> (nat list \<times> Evicted) list \<Rightarrow> nat list \<Rightarrow> nat \<Rightarrow> bool" where
  "hit_depth block q ids d \<longleftrightarrow>
     0 < d \<and> d \<le> length ids \<and> d mod block = 0 \<and> (\<exists>p\<in>fst ` set q. prefix (take d ids) p)"

lemma lookup_longest:
  assumes "radix_reach cap block c" "2 * cap \<le> u64_max"
  shows "case lookup c ids of
      None \<Rightarrow> (\<forall>d. \<not> hit_depth block (lru c) ids d) \<and> touch c ids = (c, False)
    | Some h \<Rightarrow> hit_depth block (lru c) ids (hit_key_len h)
        \<and> (\<forall>d. hit_depth block (lru c) ids d \<longrightarrow> d \<le> hit_key_len h)
        \<and> hit_pages h * block = hit_key_len h
        \<and> (\<exists>p ev. (p, ev) \<in> set (lru c) \<and> prefix (take (hit_key_len h) ids) p
            \<and> hit_base_page h = ev_base_page ev \<and> hit_pages h \<le> ev_pages ev
            \<and> (\<exists>c'. touch c ids = (c', True) \<and> lru c' = to_back p (lru c)))"
proof -
  let ?hit = "hit_depth block (lru c) ids"
  have inv: "cache_inv c" "rc_block c = block" "rc_max_pages c = cap"
    using radix_reach_inv [OF assms(1,2)] by auto
  have cov: "covered (root c) k \<longleftrightarrow> (\<exists>p\<in>fst ` set (lru c). prefix k p)" for k
  proof -
    have "fst ` set (lru c) = {p. entry_at (root c) p \<noteq> None}" using keys_lru [OF inv(1)] by blast
    then show ?thesis unfolding covered_def prefix_def by (auto simp only: mem_Collect_eq)
  qed
  have hit: "aligned_hit (rc_block c) (root c) 0 ids d \<longleftrightarrow> ?hit d" for d
    by (simp add: aligned_hit_def hit_depth_def cov inv(2))
  note spec = deepest_hit_path_spec [OF inv(1), of ids, unfolded hit] touch_spec [OF inv(1), of ids]
  show ?thesis
  proof (cases "deepest_hit_path c ids")
    case None
    then show ?thesis using spec by (simp add: lookup_def)
  next
    case (Some dp)
    obtain d path where dp: "dp = (d, path)" by (cases dp)
    have d: "?hit d" "\<forall>k. ?hit k \<longrightarrow> k \<le> d" using spec(1) by (simp_all add: Some dp)
    obtain e where e: "entry_at (root c) path = Some e" "prefix (take d ids) path"
      using spec(1) by (auto simp: Some dp deepest_def)
    have len: "d = (d div block) * block" using d(1) by (auto simp: hit_depth_def)
    have "d \<le> e_pages e * block"
      using cache_invD(3) [OF inv(1) e(1)] prefix_length_le [OF e(2)] d(1) inv(2) by (simp add: hit_depth_def)
    then have "d div block \<le> e_pages e"
      using cache_invD(2) [OF inv(1)] inv(2) len by (metis div_le_mono div_mult_self_is_m less_le_trans zero_less_one)
    moreover have "(path, ev_of e) \<in> set (lru c)" using e(1) by (auto simp: set_lru [OF inv(1)])
    moreover have "\<exists>c'. touch c ids = (c', True) \<and> lru c' = to_back path (lru c)"
      using spec(2) by (auto simp: Some dp)
    ultimately have "\<exists>p ev. (p, ev) \<in> set (lru c) \<and> prefix (take d ids) p
        \<and> e_base_page e = ev_base_page ev \<and> d div block \<le> ev_pages ev
        \<and> (\<exists>c'. touch c ids = (c', True) \<and> lru c' = to_back p (lru c))"
      using e(2) by (intro exI [of _ path] exI [of _ "ev_of e"]) (simp add: ev_of_def)
    then show ?thesis
      using d e(1) len by (simp add: lookup_def Some dp inv(2))
  qed
qed

text \<open>
  C24: A lookup returns the longest page-aligned prefix of the prompt that some cached key extends,
  as whole pages at the front of that key's run: nothing is returned exactly when no aligned
  prefix is covered, the depth returned is the largest covered one, and the run it points into
  belongs to a cached key extending the prefix and is at least as long. A touch of the same prompt
  moves exactly that key to the back of the eviction order and reports whether there was one.
\<close>

theorem radix_lookup_longest:
  assumes "radix_reach cap block c" "2 * cap \<le> u64_max"
  shows "case lookup c ids of
      None \<Rightarrow> (\<forall>d. \<not> hit_depth block (lru c) ids d) \<and> touch c ids = (c, False)
    | Some h \<Rightarrow> hit_depth block (lru c) ids (hit_key_len h)
        \<and> (\<forall>d. hit_depth block (lru c) ids d \<longrightarrow> d \<le> hit_key_len h)
        \<and> hit_pages h * block = hit_key_len h
        \<and> (\<exists>p ev. (p, ev) \<in> set (lru c) \<and> prefix (take (hit_key_len h) ids) p
            \<and> hit_base_page h = ev_base_page ev \<and> hit_pages h \<le> ev_pages ev
            \<and> (\<exists>c'. touch c ids = (c', True) \<and> lru c' = to_back p (lru c)))"
  by (rule lookup_longest [OF assms])

text \<open>Two full pages of the first run are a hit for a prompt that starts with its key.\<close>

theorem radix_lookup_longest_witness:
  "\<exists>p ev. (p, ev) \<in> set (lru demo_cache) \<and> prefix [1, 2] p \<and> ev_base_page ev = 10
    \<and> (\<exists>c'. touch demo_cache [1, 2, 3, 5, 9] = (c', True) \<and> lru c' = to_back p (lru demo_cache))"
proof -
  have look: "lookup demo_cache [1, 2, 3, 5, 9] = Some \<lparr>hit_base_page = 10, hit_pages = 1, hit_key_len = 2\<rparr>"
    by (simp add: demo_cache_def radix_eval)
  show ?thesis
    using radix_lookup_longest [OF demo_cache_reach, of "[1, 2, 3, 5, 9]", unfolded look]
    by (simp add: u64_max_def) metis
qed

lemma radix_insert_cases:
  assumes inv: "cache_inv c"
  obtains (rejected) e where "\<not> insertable c key pages" "radix_insert c key base pages = Err e"
  | (stored) c2 es2 where "insertable c key pages" "radix_insert c key base pages = Ok (c2, es2)"
      "lru_insert (rc_max_pages c) (take (pages * rc_block c) key) (run_of base pages) (lru c) = (lru c2, es2)"
  | (panic) p where "insertable c key pages" "radix_insert c key base pages = Panic"
      "entry_at (root c) p \<noteq> None" "strict_prefix (take (pages * rc_block c) key) p"
      "entry_at (root c) (take (pages * rc_block c) key) = None" "rc_max_pages c < cached_pages c + pages"
proof (cases "insertable c key pages")
  case False
  then show thesis using rejected radix_insert_rejects [OF False, of base] by metis
next
  case True
  show thesis
  proof (cases "entry_at (root c) (take (pages * rc_block c) key)")
    case (Some e)
    then have in_q: "take (pages * rc_block c) key \<in> fst ` set (lru c)" using keys_lru [OF inv] by simp
    obtain c2 where c2: "radix_insert c key base pages = Ok (c2, [])"
      "lru c2 = to_back (take (pages * rc_block c) key) (lru c)"
      by (rule radix_insert_known [OF inv True Some, of base])
    then show thesis using stored [OF True, of c2 "[]"] in_q by (simp add: lru_insert_def)
  next
    case None
    show thesis
    proof (rule radix_insert_new [OF inv True None, of base])
      fix c2 es2 assume "radix_insert c key base pages = Ok (c2, es2)"
        "lru_insert (rc_max_pages c) (take (pages * rc_block c) key) (run_of base pages) (lru c) = (lru c2, es2)"
      then show thesis using stored [OF True, of c2 es2] by simp
    next
      fix p assume "radix_insert c key base pages = Panic" "entry_at (root c) p \<noteq> None"
        "strict_prefix (take (pages * rc_block c) key) p" "rc_max_pages c < cached_pages c + pages"
      then show thesis using panic [OF True] None by simp
    qed
  qed
qed

lemma insert_refines_lru:
  assumes reach: "radix_reach cap block c" and cap: "2 * cap \<le> u64_max"
    and result: "radix_insert c key base pages = r"
  defines "k \<equiv> take (pages * block) key"
  shows "(\<exists>e. r = Err e) \<longleftrightarrow> key = [] \<or> pages = 0 \<or> length key < pages * block \<or> cap < pages"
    "r = Ok (c', es) \<Longrightarrow> lru_insert cap k (run_of base pages) (lru c) = (lru c', es)"
    "r = Panic \<Longrightarrow> (\<exists>p\<in>fst ` set (lru c). strict_prefix k p) \<and> k \<notin> fst ` set (lru c)
       \<and> cap < queue_pages (lru c) + pages"
proof -
  have inv: "cache_inv c" "rc_block c = block" "rc_max_pages c = cap"
    using radix_reach_inv [OF reach cap] by auto
  have args: "insertable c key pages \<longleftrightarrow> \<not> (key = [] \<or> pages = 0 \<or> length key < pages * block \<or> cap < pages)"
    by (auto simp: insertable_def inv not_less)
  note outcome = radix_insert_cases [OF inv(1), of key pages base, unfolded inv(2,3) result, folded k_def]
  show "(\<exists>e. r = Err e) \<longleftrightarrow> key = [] \<or> pages = 0 \<or> length key < pages * block \<or> cap < pages"
    unfolding args [THEN arg_cong [where f = Not], unfolded not_not, symmetric] by (rule outcome) auto
  show "lru_insert cap k (run_of base pages) (lru c) = (lru c', es)" if "r = Ok (c', es)"
    by (rule outcome) (use that in auto)
  show "(\<exists>p\<in>fst ` set (lru c). strict_prefix k p) \<and> k \<notin> fst ` set (lru c) \<and> cap < queue_pages (lru c) + pages"
    if panic: "r = Panic"
  proof (rule outcome)
    fix p assume p: "entry_at (root c) p \<noteq> None" "strict_prefix k p" "entry_at (root c) k = None"
      "cap < cached_pages c + pages"
    then have "p \<in> fst ` set (lru c)" "k \<notin> fst ` set (lru c)" using keys_lru [OF inv(1)] by simp_all
    then show ?thesis using p by (auto simp only: queue_pages_lru [OF inv(1)])
  qed (use panic in simp_all)
qed

text \<open>
  C23: Insertion refines the least-recently-used queue: it rejects exactly the arguments that name no
  whole page, no key, too short a key or a run beyond the budget; a key already stored keeps its run
  and moves to the back; a new key is appended after the shortest oldest part of the queue whose
  removal makes room, and those runs are returned in that order. The only other outcome is a panic,
  and only when the new key is a strict prefix of a stored one and room has to be made.
\<close>

theorem radix_insert_lru:
  assumes "radix_reach cap block c" and "2 * cap \<le> u64_max"
    and "radix_insert c key base pages = r" and "k = take (pages * block) key"
  shows "((\<exists>e. r = Err e) \<longleftrightarrow> key = [] \<or> pages = 0 \<or> length key < pages * block \<or> cap < pages)
    \<and> (\<forall>c' es. r = Ok (c', es) \<longrightarrow> lru_insert cap k (run_of base pages) (lru c) = (lru c', es))
    \<and> (r = Panic \<longrightarrow> (\<exists>p\<in>fst ` set (lru c). strict_prefix k p) \<and> k \<notin> fst ` set (lru c)
          \<and> cap < queue_pages (lru c) + pages)"
  unfolding assms(4) using insert_refines_lru [OF assms(1-3)] by blast

text \<open>A third run evicts the oldest one.\<close>

theorem radix_insert_lru_witness:
  "\<exists>c'. radix_insert demo_cache [5, 6] 30 1 = Ok (c', [run_of 10 2])
    \<and> lru_insert 3 [5, 6] (run_of 30 1) (lru demo_cache) = (lru c', [run_of 10 2])"
proof -
  define r where "r = radix_insert demo_cache [5, 6] 30 1"
  have "\<exists>c'. r = Ok (c', [run_of 10 2])" by (simp add: r_def demo_cache_def run_of_def radix_eval)
  then obtain c' where c': "r = Ok (c', [run_of 10 2])" by blast
  have "lru_insert 3 (take (1 * 2) [5, 6]) (run_of 30 1) (lru demo_cache) = (lru c', [run_of 10 2])"
    using radix_insert_lru [OF demo_cache_reach _ r_def [symmetric] refl] c' by (simp add: u64_max_def)
  then show ?thesis using c' by (simp add: r_def)
qed

text \<open>
  Insertion does panic on a strict prefix of a stored key when room has to be made: eviction
  prunes the node that was just created for the new key together with the longer entry.
\<close>

theorem radix_insert_prefix_panics:
  "\<exists>c c1. new_with_block 3 2 = Some c \<and> radix_insert c [1, 2, 3, 4, 5, 6] 0 3 = Ok (c1, [])
     \<and> radix_insert c1 [1, 2, 3, 4] 10 2 = Panic"
  by (simp add: new_with_block_def radix_eval)

end
