(* ===== verification/Replay.thy ===== *)
theory Replay
  imports Req Batch Admission Ordered_Map "HOL-Library.AList" "HOL-Library.Monad_Syntax"
begin

text \<open>
  The scheduler pipeline of \<^verbatim>\<open>crates/scheduler/src/replay.rs\<close>: a stream of arrivals driven
  step by step through admission, batch selection, the request state machine and a deterministic
  token policy, recording a trace. This theory holds the state and the operations; the proofs are
  in \<open>Replay_Inv\<close>.

  The ordered map of requests is sorted by id; the hash maps are association lists. One of them is
  iterated (the estimates), in an order the source does not fix: it is the argument \<open>iter\<close>, a
  function of the step and of the contents. Token counters are unbounded; \<open>None\<close> is a panic.
\<close>

section \<open>Data\<close>

datatype GenPolicy = Greedy | Sample

record SchedConfig =
  base_seed :: u64
  vocab :: u32
  sc_eos_id :: "nat option"
  gen_policy :: GenPolicy
  step_budget :: nat
  kv_floor :: nat
  sc_chunk_size :: nat
  schedule :: SchedulePolicy
  max_steps :: nat
  max_total_tokens :: nat
  admission :: AdmissionConfig

record Arrival =
  at_step :: nat
  ar_prompt_len :: nat
  ar_max_output :: nat
  chunked :: bool
  stop_patterns :: "nat list list"
  abort_at_step :: "nat option"
  preempt_at_step :: "nat option"

datatype Event =
    ArrivedEv | AdmittedEv | WaitedEv | PrefillStartEv | ChunkDoneEv | PrefillDoneEv
  | DecodeTokenEv nat | StoppedEv | EosEv | MaxOutputEv | AbortedEv | PreemptedEv | PreemptInjectedEv

record TraceEntry =
  te_step :: nat
  te_req :: u64
  te_event :: Event
  te_cached_len :: nat
  te_device_len :: nat

record Meta =
  mt_prompt_len :: nat
  mt_max_output :: nat
  mt_chunked :: bool
  mt_abort_at :: "nat option"
  mt_preempt_at :: "nat option"

record Replay =
  reqs :: "(u64 \<times> Req) list"
  metas :: "(u64 \<times> Meta) list"
  waitq :: "u64 list"
  decoding :: "u64 list"
  estimates :: "(u64 \<times> RequestEstimate) list"
  ema_out :: EmaTracker
  arrival_idx :: nat
  rp_arrival_seq :: u64
  step_first_chunk_sum :: nat
  rp_step :: nat
  rp_trace :: "TraceEntry list"
  dispatched :: nat
  returned :: nat
  high_water :: nat

record ReplayOutcome =
  out_trace :: "TraceEntry list"
  finals :: "(u64 \<times> ReqState \<times> nat \<times> nat) list"
  out_high_water :: nat
  out_steps :: nat
  total_dispatched :: nat
  total_returned :: nat

text \<open>\<open>None\<close> is the assertion that arrivals come in the order of their steps.\<close>

definition replay_new :: "Arrival list \<Rightarrow> Replay option" where
  "replay_new arrivals =
     (if sorted (map at_step arrivals)
      then Some \<lparr>reqs = [], metas = [], waitq = [], decoding = [], estimates = [], ema_out = ema_new,
        arrival_idx = 0, rp_arrival_seq = 0, step_first_chunk_sum = 0, rp_step = 0, rp_trace = [],
        dispatched = 0, returned = 0, high_water = 0\<rparr>
      else None)"

section \<open>Small operations\<close>

definition is_terminal :: "Req \<Rightarrow> bool" where
  "is_terminal r \<longleftrightarrow> rq_state r = Done \<or> rq_state r = Aborted"

definition is_finished :: "Replay \<Rightarrow> bool" where
  "is_finished s \<longleftrightarrow> list_all (\<lambda>(i, r). is_terminal r) (reqs s)"

definition put_req :: "u64 \<Rightarrow> Req \<Rightarrow> Replay \<Rightarrow> Replay" where
  "put_req i r s = s\<lparr>reqs := bt_insert i r (reqs s)\<rparr>"

definition trace :: "u64 \<Rightarrow> Event \<Rightarrow> Replay \<Rightarrow> Replay option" where
  "trace i ev s = do {
     r \<leftarrow> map_of (reqs s) i;
     Some (s\<lparr>rp_trace := rp_trace s @ [\<lparr>te_step = rp_step s, te_req = i, te_event = ev,
       te_cached_len = cached_len r, te_device_len = device_len r\<rparr>]\<rparr>)}"

definition kv_usage_tokens :: "Replay \<Rightarrow> nat" where
  "kv_usage_tokens s = sum_list (map (\<lambda>(i, r). device_len r) (reqs s))"

definition busy_now :: "SchedConfig \<Rightarrow> Replay \<Rightarrow> bool" where
  "busy_now cfg s = is_busy (kv_usage_tokens s) (max_total_tokens cfg) (router_token_ratio (admission cfg))"

definition current_estimate :: "SchedConfig \<Rightarrow> u64 \<Rightarrow> Replay \<Rightarrow> RequestEstimate option" where
  "current_estimate cfg i s = do {
     r \<leftarrow> map_of (reqs s) i;
     m \<leftarrow> map_of (metas s) i;
     estimate \<lparr>input_len = mt_prompt_len m, max_new_tokens = mt_max_output m,
       has_out_len = output_tokens r, shm_kv_len = 0,
       chunked_remaining = (if mt_chunked m then prompt_len r - cached_len r else 0),
       chunk_size = sc_chunk_size cfg, busy = busy_now cfg s,
       ema_req_out_len = to_u64 (round_half_up (ema (ema_out s))),
       max_waiting_tokens = cfg_max_waiting_tokens (admission cfg)\<rparr>}"

definition remove_from_waiting :: "u64 \<Rightarrow> Replay \<Rightarrow> Replay" where
  "remove_from_waiting i s = s\<lparr>waitq := filter (\<lambda>x. x \<noteq> i) (waitq s)\<rparr>"

definition remove_from_decoding :: "u64 \<Rightarrow> Replay \<Rightarrow> Replay" where
  "remove_from_decoding i s = s\<lparr>decoding := filter (\<lambda>x. x \<noteq> i) (decoding s)\<rparr>"

definition add_to_decoding :: "u64 \<Rightarrow> Replay \<Rightarrow> Replay" where
  "add_to_decoding i s = (if i \<in> set (decoding s) then s else s\<lparr>decoding := decoding s @ [i]\<rparr>)"

definition record_high_water :: "Replay \<Rightarrow> Replay" where
  "record_high_water s = s\<lparr>high_water := max (high_water s) (kv_usage_tokens s)\<rparr>"

section \<open>Token policies\<close>

definition pseudo_logit :: "u64 \<Rightarrow> nat \<Rightarrow> nat \<Rightarrow> u64" where
  "pseudo_logit seed pos v =
     (let h = of_nat pos * GOLDEN_RATIO_64 + of_nat v * 0x94D049BB133111EB
      in splitmix64 (seed XOR h))"

fun greedy_loop :: "u64 \<Rightarrow> nat \<Rightarrow> nat list \<Rightarrow> nat \<Rightarrow> u64 \<Rightarrow> nat" where
  "greedy_loop seed pos [] best best_logit = best"
| "greedy_loop seed pos (v # vs) best best_logit =
     (let l = pseudo_logit seed pos v in
      if best_logit \<le> l then greedy_loop seed pos vs v l else greedy_loop seed pos vs best best_logit)"

definition gen_token :: "SchedConfig \<Rightarrow> u64 \<Rightarrow> nat \<Rightarrow> nat option" where
  "gen_token cfg seed pos =
     (case gen_policy cfg of
        Sample \<Rightarrow> rng_usize seed pos (vocab cfg) (unat (vocab cfg))
      | Greedy \<Rightarrow> Some (greedy_loop seed pos [0..<unat (vocab cfg)] 0 0))"

section \<open>The phases of a step\<close>

definition arrive_one :: "SchedConfig \<Rightarrow> Arrival \<Rightarrow> Replay \<Rightarrow> Replay option" where
  "arrive_one cfg a s =
     (let i = derive (base_seed cfg) (rp_arrival_seq s);
          r = req_new i (base_seed cfg) (rp_arrival_seq s) (stop_patterns a) (sc_eos_id cfg);
          m = \<lparr>mt_prompt_len = ar_prompt_len a, mt_max_output = ar_max_output a, mt_chunked = chunked a,
               mt_abort_at = abort_at_step a, mt_preempt_at = preempt_at_step a\<rparr>
      in do {
        s \<leftarrow> trace i ArrivedEv (put_req i r s);
        let s = s\<lparr>metas := AList.update i m (metas s)\<rparr>;
        e \<leftarrow> current_estimate cfg i s;
        Some (s\<lparr>estimates := AList.update i e (estimates s), waitq := waitq s @ [i],
                arrival_idx := arrival_idx s + 1, rp_arrival_seq := rp_arrival_seq s + 1\<rparr>)})"

fun arrive_loop :: "SchedConfig \<Rightarrow> Arrival list \<Rightarrow> Replay \<Rightarrow> Replay option" where
  "arrive_loop cfg [] s = Some s"
| "arrive_loop cfg (a # as) s =
     (if at_step a \<le> rp_step s then Option.bind (arrive_one cfg a s) (arrive_loop cfg as) else Some s)"

definition arrive :: "SchedConfig \<Rightarrow> Arrival list \<Rightarrow> Replay \<Rightarrow> Replay option" where
  "arrive cfg arrivals s = arrive_loop cfg (drop (arrival_idx s) arrivals) s"

definition abort_one :: "u64 \<Rightarrow> Replay \<Rightarrow> Replay option" where
  "abort_one i s = do {
     m \<leftarrow> map_of (metas s) i;
     if mt_abort_at m = Some (rp_step s) then do {
       r \<leftarrow> map_of (reqs s) i;
       if is_terminal r then Some s
       else let s = put_req i (fst (abort r)) s;
                s = s\<lparr>returned := returned s + device_len r, estimates := AList.delete i (estimates s)\<rparr>
            in trace i AbortedEv (remove_from_waiting i s)}
     else Some s}"

definition abort_injected :: "Replay \<Rightarrow> Replay option" where
  "abort_injected s = fold_opt abort_one (map fst (reqs s)) s"

text \<open>Preempting a request; \<open>None\<close> is the \<^verbatim>\<open>expect\<close> that the transition is legal.\<close>

definition preempt_req :: "u64 \<Rightarrow> Event \<Rightarrow> Replay \<Rightarrow> Replay option" where
  "preempt_req i ev s = do {
     r \<leftarrow> map_of (reqs s) i;
     r' \<leftarrow> (case preempt r of Ok r' \<Rightarrow> Some r' | _ \<Rightarrow> None);
     let s = put_req i r' s;
     s \<leftarrow> trace i ev (s\<lparr>returned := returned s + device_len r\<rparr>);
     let s = remove_from_decoding i s;
     Some (s\<lparr>waitq := i # waitq s\<rparr>)}"

definition preempt_one :: "u64 \<Rightarrow> Replay \<Rightarrow> Replay option" where
  "preempt_one i s = do {
     m \<leftarrow> map_of (metas s) i;
     if mt_preempt_at m = Some (rp_step s) then do {
       r \<leftarrow> map_of (reqs s) i;
       if rq_state r \<noteq> Decode then Some s else preempt_req i PreemptInjectedEv s}
     else Some s}"

definition preempt_injected :: "Replay \<Rightarrow> Replay option" where
  "preempt_injected s = fold_opt preempt_one (decoding s) s"

text \<open>Admission of one queued request, with the list of the eligible ones.\<close>

definition admit_one ::
  "(nat \<Rightarrow> (u64 \<times> RequestEstimate) list \<Rightarrow> (u64 \<times> RequestEstimate) list) \<Rightarrow> SchedConfig \<Rightarrow> u64
     \<Rightarrow> Replay \<times> WaitingReq list \<Rightarrow> (Replay \<times> WaitingReq list) option" where
  "admit_one iter cfg i = (\<lambda>(s, eligible). do {
     est \<leftarrow> current_estimate cfg i s;
     let working = AList.update i est (iter (rp_step s) (estimates s));
     r \<leftarrow> map_of (reqs s) i;
     m \<leftarrow> map_of (metas s) i;
     let first_chunk = (if rq_state r = Waiting then Some (min (sc_chunk_size cfg) (mt_prompt_len m)) else None);
     v \<leftarrow> check_admission working first_chunk (step_first_chunk_sum s) (busy_now cfg s) (admission cfg);
     (case v of
        Admitted \<Rightarrow> do {
          let s = s\<lparr>step_first_chunk_sum := step_first_chunk_sum s
                      + (case first_chunk of Some fc \<Rightarrow> fc | None \<Rightarrow> 0),
                    estimates := AList.update i est (estimates s)\<rparr>;
          let w = \<lparr>w_id = i, w_arrival_seq = arrival_seq r, w_resume = resume r, prefix_id = None,
                   w_prompt_len = max (prompt_len r) (mt_prompt_len m), w_cached_len = cached_len r,
                   max_chunk = sc_chunk_size cfg\<rparr>;
          s \<leftarrow> trace i AdmittedEv s;
          Some (s, eligible @ [w])}
      | Denied d \<Rightarrow> do {s \<leftarrow> trace i WaitedEv s; Some (s, eligible)})})"

definition decoding_req :: "Replay \<Rightarrow> u64 \<Rightarrow> DecodingReq option" where
  "decoding_req s i = do {
     r \<leftarrow> map_of (reqs s) i;
     Some \<lparr>d_id = i, d_arrival_seq = arrival_seq r, d_resume = resume r\<rparr>}"

text \<open>One prefill assignment: the chunk is dispatched, then confirmed.\<close>

definition dispatch_one :: "u64 \<Rightarrow> nat \<Rightarrow> nat \<Rightarrow> Replay \<Rightarrow> Replay option" where
  "dispatch_one i chunk_end chunk_tokens s = do {
     r \<leftarrow> map_of (reqs s) i;
     if rq_state r = Waiting \<or> rq_state r = Preempted then do {
       m \<leftarrow> map_of (metas s) i;
       (case start_prefill r (mt_prompt_len m) (mt_max_output m) chunk_tokens of
          Ok r' \<Rightarrow> trace i PrefillStartEv (put_req i r' s)
        | _ \<Rightarrow> None)}
     else if rq_state r = Chunked then
       (case dispatch_chunk r chunk_end of Ok r' \<Rightarrow> Some (put_req i r' s) | _ \<Rightarrow> None)
     else None}"

definition confirm_one :: "u64 \<Rightarrow> Replay \<Rightarrow> Replay option" where
  "confirm_one i s = do {
     r \<leftarrow> map_of (reqs s) i;
     (r', ev) \<leftarrow> confirm r;
     let s = put_req i r' s;
     (case ev of
        ChunkConfirmed \<Rightarrow> trace i ChunkDoneEv s
      | PrefillDone \<Rightarrow> do {
          s \<leftarrow> trace i PrefillDoneEv s;
          Some (remove_from_waiting i (add_to_decoding i s))}
      | _ \<Rightarrow> None)}"

definition prefill_one :: "u64 \<times> nat \<times> nat \<Rightarrow> Replay \<Rightarrow> Replay option" where
  "prefill_one = (\<lambda>(i, start, chunk_end) s. do {
     r \<leftarrow> map_of (reqs s) i;
     _ \<leftarrow> (if start = cached_len r then Some () else None);
     let chunk_tokens = chunk_end - start;
     s \<leftarrow> dispatch_one i chunk_end chunk_tokens s;
     confirm_one i (s\<lparr>dispatched := dispatched s + chunk_tokens\<rparr>)})"

definition schedule_step ::
  "(nat \<Rightarrow> (u64 \<times> RequestEstimate) list \<Rightarrow> (u64 \<times> RequestEstimate) list) \<Rightarrow> SchedConfig
     \<Rightarrow> Replay \<Rightarrow> Replay option" where
  "schedule_step iter cfg s = do {
     let s = s\<lparr>step_first_chunk_sum := 0\<rparr>;
     (s, eligible) \<leftarrow> fold_opt (admit_one iter cfg) (waitq s) (s, []);
     let budget = min (step_budget cfg) (max_total_tokens cfg - kv_usage_tokens s);
     ds \<leftarrow> those (map (decoding_req s) (decoding s));
     let sel = select_batch eligible ds budget (kv_floor cfg) (schedule cfg);
     s \<leftarrow> fold_opt (\<lambda>i. preempt_req i PreemptedEv) (sel_preempted sel) s;
     fold_opt prefill_one (sel_prefill sel) s}"

definition terminal_req :: "u64 \<Rightarrow> Replay \<Rightarrow> Replay option" where
  "terminal_req i s = do {
     r \<leftarrow> map_of (reqs s) i;
     let s = put_req i (fst (take_release r)) (s\<lparr>returned := returned s + device_len r\<rparr>);
     let out = f64 (of_nat (output_tokens r));
     let s = s\<lparr>ema_out := fst (ema_update (ema_out s) out), estimates := AList.delete i (estimates s)\<rparr>;
     Some (remove_from_waiting i (remove_from_decoding i s))}"

definition decode_one :: "SchedConfig \<Rightarrow> u64 \<Rightarrow> Replay \<Rightarrow> Replay option" where
  "decode_one cfg i s = do {
     r \<leftarrow> map_of (reqs s) i;
     if rq_state r \<noteq> Decode then Some s
     else do {
       token \<leftarrow> gen_token cfg (seed_i r) (cached_len r);
       let s = s\<lparr>dispatched := dispatched s + 1\<rparr>;
       (r', ev) \<leftarrow> decode_step r token;
       let s = put_req i r' s;
       (case ev of
          DecodeConfirmed t \<Rightarrow> trace i (DecodeTokenEv t) s
        | Stopped \<Rightarrow> do {s \<leftarrow> trace i StoppedEv s; terminal_req i s}
        | Eos \<Rightarrow> do {s \<leftarrow> trace i EosEv s; terminal_req i s}
        | MaxOutput \<Rightarrow> do {s \<leftarrow> trace i MaxOutputEv s; terminal_req i s}
        | _ \<Rightarrow> None)}}"

definition decode_phase :: "SchedConfig \<Rightarrow> Replay \<Rightarrow> Replay option" where
  "decode_phase cfg s =
     (let s = s\<lparr>decoding := sort (decoding s)\<rparr> in fold_opt (decode_one cfg) (decoding s) s)"

section \<open>The driver\<close>

definition replay_step ::
  "(nat \<Rightarrow> (u64 \<times> RequestEstimate) list \<Rightarrow> (u64 \<times> RequestEstimate) list) \<Rightarrow> SchedConfig
     \<Rightarrow> Arrival list \<Rightarrow> Replay \<Rightarrow> Replay option" where
  "replay_step iter cfg arrivals s = do {
     s \<leftarrow> arrive cfg arrivals s;
     s \<leftarrow> abort_injected s;
     s \<leftarrow> preempt_injected s;
     s \<leftarrow> schedule_step iter cfg s;
     s \<leftarrow> decode_phase cfg s;
     let s = record_high_water s;
     Some (s\<lparr>rp_step := rp_step s + 1\<rparr>)}"

text \<open>
  The loop. Each round increments the step, so \<open>max_steps\<close> rounds are enough; the first argument
  counts the rounds left.
\<close>

fun replay_loop ::
  "nat \<Rightarrow> (nat \<Rightarrow> (u64 \<times> RequestEstimate) list \<Rightarrow> (u64 \<times> RequestEstimate) list) \<Rightarrow> SchedConfig
     \<Rightarrow> Arrival list \<Rightarrow> Replay \<Rightarrow> Replay option" where
  "replay_loop 0 iter cfg arrivals s = Some s"
| "replay_loop (Suc n) iter cfg arrivals s =
     (if arrival_idx s < length arrivals \<or> \<not> is_finished s
      then Option.bind (replay_step iter cfg arrivals s) (replay_loop n iter cfg arrivals)
      else Some s)"

definition replay_outcome :: "Replay \<Rightarrow> ReplayOutcome" where
  "replay_outcome s = \<lparr>out_trace = rp_trace s,
     finals = map (\<lambda>(i, r). (i, rq_state r, cached_len r, device_len r)) (reqs s),
     out_high_water = high_water s, out_steps = rp_step s, total_dispatched = dispatched s,
     total_returned = returned s\<rparr>"

definition replay ::
  "(nat \<Rightarrow> (u64 \<times> RequestEstimate) list \<Rightarrow> (u64 \<times> RequestEstimate) list) \<Rightarrow> SchedConfig
     \<Rightarrow> Arrival list \<Rightarrow> ReplayOutcome option" where
  "replay iter cfg arrivals = do {
     s \<leftarrow> replay_new arrivals;
     s \<leftarrow> replay_loop (max_steps cfg) iter cfg arrivals s;
     Some (replay_outcome s)}"

end
