(* ===== verification/Replay_Inv.thy ===== *)
theory Replay_Inv
  imports Replay
begin

text \<open>
  The invariant of the scheduler pipeline and its preservation by every phase of a step: the
  request table, the token accounting, the queue discipline, and the tokens of the trace.
\<close>

section \<open>Requests between two operations\<close>

definition queued :: "Req \<Rightarrow> bool" where
  "queued r \<longleftrightarrow> rq_state r = Waiting \<or> rq_state r = Chunked \<or> rq_state r = Preempted"

definition live_len :: "Req \<Rightarrow> nat" where
  "live_len r = (if is_terminal r then 0 else device_len r)"

text \<open>What the table knows of a request with parameters \<open>m\<close>, whenever no operation is running.\<close>

definition meta_ok :: "Meta \<Rightarrow> Req \<Rightarrow> bool" where
  "meta_ok m r \<longleftrightarrow> (case rq_state r of
       Waiting \<Rightarrow> prompt_len r = 0
     | Prefill \<Rightarrow> False
     | Chunked \<Rightarrow> prompt_len r = mt_prompt_len m \<and> max_output r = mt_max_output m \<and> device_len r = cached_len r
     | Decode \<Rightarrow> prompt_len r = mt_prompt_len m \<and> max_output r = mt_max_output m
     | Preempted \<Rightarrow> prompt_len r = mt_prompt_len m
     | _ \<Rightarrow> True)"

definition req_ok :: "u64 \<Rightarrow> u64 \<Rightarrow> Meta \<Rightarrow> Req \<Rightarrow> bool" where
  "req_ok b i m r \<longleftrightarrow> (\<exists>pats eos h n. req_inv pats eos r h n) \<and> meta_ok m r \<and> seed_i r = splitmix64 (b XOR i)"

lemma req_okD:
  assumes "req_ok b i m r"
  shows "rq_state r = Waiting \<Longrightarrow> cached_len r = 0 \<and> device_len r = 0 \<and> prompt_len r = 0"
    "rq_state r = Preempted \<Longrightarrow> cached_len r = 0 \<and> device_len r = 0 \<and> prompt_len r = mt_prompt_len m"
    "rq_state r = Chunked \<Longrightarrow> device_len r = cached_len r \<and> cached_len r < mt_prompt_len m
       \<and> prompt_len r = mt_prompt_len m \<and> max_output r = mt_max_output m"
    "rq_state r = Decode \<Longrightarrow> cached_len r = device_len r \<and> prompt_len r \<le> cached_len r
       \<and> cached_len r \<le> prompt_len r + max_output r
       \<and> prompt_len r = mt_prompt_len m \<and> max_output r = mt_max_output m"
    "rq_state r \<noteq> Prefill" "seed_i r = splitmix64 (b XOR i)"
proof -
  obtain pats eos h n where inv: "req_inv pats eos r h n" and m: "meta_ok m r"
    using assms by (auto simp: req_ok_def)
  show "rq_state r = Waiting \<Longrightarrow> cached_len r = 0 \<and> device_len r = 0 \<and> prompt_len r = 0"
    "rq_state r = Preempted \<Longrightarrow> cached_len r = 0 \<and> device_len r = 0 \<and> prompt_len r = mt_prompt_len m"
    "rq_state r = Chunked \<Longrightarrow> device_len r = cached_len r \<and> cached_len r < mt_prompt_len m
       \<and> prompt_len r = mt_prompt_len m \<and> max_output r = mt_max_output m"
    "rq_state r = Decode \<Longrightarrow> cached_len r = device_len r \<and> prompt_len r \<le> cached_len r
       \<and> cached_len r \<le> prompt_len r + max_output r
       \<and> prompt_len r = mt_prompt_len m \<and> max_output r = mt_max_output m"
    using inv m by (auto simp: req_inv_simps meta_ok_def)
  show "rq_state r \<noteq> Prefill" using m by (auto simp: meta_ok_def)
  show "seed_i r = splitmix64 (b XOR i)" using assms by (simp add: req_ok_def)
qed

section \<open>The operations of a request\<close>

lemma req_ok_new: "req_ok b i m (req_new i b a pats eos)" "live_len (req_new i b a pats eos) = 0"
  "rq_state (req_new i b a pats eos) = Waiting"
  using req_inv_new [of pats eos i b a]
  by (auto simp: req_ok_def meta_ok_def req_new_def live_len_def)

lemma req_ok_abort:
  assumes "req_ok b i m r" "\<not> is_terminal r"
  shows "req_ok b i m (fst (abort r))" "rq_state (fst (abort r)) = Aborted"
    "device_len (fst (abort r)) = device_len r"
proof -
  obtain pats eos h n where "req_inv pats eos r h n" using assms by (auto simp: req_ok_def)
  then have "req_inv pats eos (fst (abort r)) h n" using req_inv_abort by (metis prod.collapse)
  then show "req_ok b i m (fst (abort r))" "rq_state (fst (abort r)) = Aborted"
    "device_len (fst (abort r)) = device_len r"
    using assms by (auto simp: req_ok_def abort_def arm_release_def meta_ok_def is_terminal_def)
qed

lemma req_ok_preempt:
  assumes "req_ok b i m r" "preempt r = Ok r'"
  shows "req_ok b i m r'" "rq_state r' = Preempted" "device_len r' = 0"
proof -
  obtain pats eos h n where "req_inv pats eos r h n" using assms by (auto simp: req_ok_def)
  then have inv: "req_inv pats eos r' [] n" using req_inv_preempt assms(2) by metis
  have st: "rq_state r = Chunked \<or> rq_state r = Decode"
    using assms req_okD(5) [OF assms(1)] by (auto simp: preempt_def split: if_splits)
  have r': "r' = r\<lparr>rq_state := Preempted, cached_len := 0, device_len := 0, resume := True, stop := sm_reset (stop r)\<rparr>"
    using assms(2) by (auto simp: preempt_def split: if_splits)
  have "prompt_len r = mt_prompt_len m" using st req_okD(3,4) [OF assms(1)] by auto
  then show "req_ok b i m r'" "rq_state r' = Preempted" "device_len r' = 0"
    using inv assms(1) by (auto simp: req_ok_def meta_ok_def r')
qed

text \<open>A chunk, dispatched and confirmed in one go.\<close>

lemma confirm_ok:
  assumes inv: "req_inv pats eos r h n" and "is_prefilling r" "prompt_len r = mt_prompt_len m"
    "max_output r = mt_max_output m" "seed_i r = splitmix64 (b XOR i)"
  shows "\<exists>r' ev. confirm r = Some (r', ev) \<and> req_ok b i m r' \<and> device_len r' = device_len r
    \<and> (ev = ChunkConfirmed \<and> rq_state r' = Chunked \<or> ev = PrefillDone \<and> rq_state r' = Decode)"
proof -
  obtain r' ev where c: "confirm r = Some (r', ev)" using assms(2)
    by (cases "prompt_len r \<le> device_len r") (auto simp: confirm_def Let_def)
  have inv': "req_inv pats eos r' h n" by (rule req_inv_confirm [OF inv c])
  have "rq_state r = Prefill \<Longrightarrow> device_len r = prompt_len r" using inv by (simp add: req_inv_simps)
  then show ?thesis using c inv' assms(2-)
    by (auto simp: confirm_def is_prefilling_def Let_def req_ok_def meta_ok_def split: if_splits)
qed

lemma start_prefill_ok:
  assumes ok: "req_ok b i m r" and "rq_state r = Waiting \<or> rq_state r = Preempted"
    and "0 < c" "c \<le> mt_prompt_len m"
  shows "\<exists>r1 r' ev. start_prefill r (mt_prompt_len m) (mt_max_output m) c = Ok r1 \<and> device_len r1 = c
    \<and> confirm r1 = Some (r', ev) \<and> req_ok b i m r' \<and> device_len r' = c
    \<and> (ev = ChunkConfirmed \<and> rq_state r' = Chunked \<or> ev = PrefillDone \<and> rq_state r' = Decode)"
proof -
  obtain pats eos h n where inv: "req_inv pats eos r h n" using ok by (auto simp: req_ok_def)
  obtain r1 where r1: "start_prefill r (mt_prompt_len m) (mt_max_output m) c = Ok r1" "device_len r1 = c"
      "is_prefilling r1" "prompt_len r1 = mt_prompt_len m" "max_output r1 = mt_max_output m" "seed_i r1 = seed_i r"
    using assms(2-) by (cases "mt_prompt_len m \<le> c")
      (auto simp: start_prefill_def Let_def cursors_valid_def is_prefilling_def)
  have "req_inv pats eos r1 [] n" by (rule req_inv_start [OF inv r1(1)])
  from confirm_ok [OF this r1(3-5), of b i] show ?thesis
    using r1(1,2,6) req_okD(6) [OF ok] by auto
qed

lemma dispatch_chunk_ok:
  assumes ok: "req_ok b i m r" and "rq_state r = Chunked" and "cached_len r < e" "e \<le> mt_prompt_len m"
  shows "\<exists>r1 r' ev. dispatch_chunk r e = Ok r1 \<and> device_len r1 = e
    \<and> confirm r1 = Some (r', ev) \<and> req_ok b i m r' \<and> device_len r' = e
    \<and> (ev = ChunkConfirmed \<and> rq_state r' = Chunked \<or> ev = PrefillDone \<and> rq_state r' = Decode)"
proof -
  obtain pats eos h n where inv: "req_inv pats eos r h n" using ok by (auto simp: req_ok_def)
  note st = req_okD(3) [OF ok assms(2)]
  obtain r1 where r1: "dispatch_chunk r e = Ok r1" "device_len r1 = e" "is_prefilling r1"
      "prompt_len r1 = mt_prompt_len m" "max_output r1 = mt_max_output m" "seed_i r1 = seed_i r"
    using assms(2-) st by (auto simp: dispatch_chunk_def Let_def cursors_valid_def is_prefilling_def)
  have "req_inv pats eos r1 h n" by (rule req_inv_dispatch [OF inv r1(1)])
  from confirm_ok [OF this r1(3-5), of b i] show ?thesis
    using r1(1,2,6) req_okD(6) [OF ok] by auto
qed

lemma decode_step_fields:
  "decode_step r t = Some (r', ev) \<Longrightarrow> device_len r' = cached_len r + 1 \<and> seed_i r' = seed_i r
    \<and> prompt_len r' = prompt_len r \<and> max_output r' = max_output r
    \<and> (ev = DecodeConfirmed t \<and> rq_state r' = Decode \<and> cached_len r' = cached_len r + 1
       \<or> ev \<in> {Stopped, Eos, MaxOutput} \<and> rq_state r' = Done)"
  by (auto simp: decode_step_def Let_def set_done_def arm_release_def bind_eq_Some_conv
      split: if_splits prod.splits StopOutcome.splits)

lemma decode_step_ok:
  assumes ok: "req_ok b i m r" and d: "decode_step r t = Some (r', ev)"
  shows "req_ok b i m r'"
proof -
  obtain pats eos h n where inv: "req_inv pats eos r h n" using ok by (auto simp: req_ok_def)
  have "\<exists>h'. req_inv pats eos r' h' n" using decode_step_cases [OF inv d] by (auto split: ConfirmEvent.splits)
  then show ?thesis
    using decode_step_fields [OF d] req_okD(4) [OF ok decode_step_Some [OF d]] req_okD(6) [OF ok]
    by (auto simp: req_ok_def meta_ok_def)
qed

lemma take_release_ok:
  assumes "req_ok b i m r" shows "req_ok b i m (fst (take_release r))"
proof -
  obtain pats eos h n where "req_inv pats eos r h n" using assms by (auto simp: req_ok_def)
  then have "\<exists>n'. req_inv pats eos (fst (take_release r)) h n'" using req_inv_release by (metis prod.collapse)
  then show ?thesis using assms
    by (cases "rq_state r") (auto simp: req_ok_def meta_ok_def take_release_def)
qed

section \<open>The table and the accounting\<close>

text \<open>
  \<open>core_inv b rs ms n d t\<close>: the table holds exactly the ids of the first \<open>n\<close> arrivals, each with
  its parameters and a consistent request, and the tokens dispatched are those returned plus those
  the live requests hold.
\<close>

definition core_inv ::
  "u64 \<Rightarrow> (u64 \<times> Req) list \<Rightarrow> (u64 \<times> Meta) list \<Rightarrow> nat \<Rightarrow> nat \<Rightarrow> nat \<Rightarrow> bool" where
  "core_inv b rs ms n d t \<longleftrightarrow> sorted_wrt (<) (map fst rs)
     \<and> (\<forall>i. map_of rs i \<noteq> None \<longleftrightarrow> (\<exists>k<n. i = derive b (of_nat k)))
     \<and> (\<forall>i r. map_of rs i = Some r \<longrightarrow> (\<exists>m. map_of ms i = Some m \<and> req_ok b i m r))
     \<and> d = t + bt_sum live_len rs"

lemma core_invD:
  assumes "core_inv b rs ms n d t"
  shows "sorted_wrt (<) (map fst rs)" "map_of rs i = Some r \<Longrightarrow> \<exists>m. map_of ms i = Some m \<and> req_ok b i m r"
    "d = t + bt_sum live_len rs" "map_of rs i \<noteq> None \<longleftrightarrow> (\<exists>k<n. i = derive b (of_nat k))"
  using assms by (auto simp: core_inv_def)

lemma core_put:
  assumes inv: "core_inv b rs ms n d t" and r: "map_of rs i = Some r" and m: "map_of ms i = Some m"
    and r': "req_ok b i m r'" and acc: "d' + t + live_len r = t' + d + live_len r'"
  shows "core_inv b (bt_insert i r' rs) ms n d' t'"
proof -
  have "bt_sum live_len (bt_insert i r' rs) + live_len r = bt_sum live_len rs + live_len r'"
    by (rule bt_sum_insert_old [OF core_invD(1) [OF inv] r])
  then have "d' = t' + bt_sum live_len (bt_insert i r' rs)"
    using acc core_invD(3) [OF inv] by linarith
  then show ?thesis using inv r m r' unfolding core_inv_def by (auto simp: sorted_bt_insert)
qed

lemma derive_inj: "derive b x = derive b y \<longleftrightarrow> x = y"
  by (simp add: derive_def xor_cancel_left inj_eq [OF inj_splitmix64])

lemma of_nat_u64_inj: "k < 2 ^ 64 \<Longrightarrow> l < 2 ^ 64 \<Longrightarrow> (of_nat k :: u64) = of_nat l \<longleftrightarrow> k = l"
  by (simp add: word_of_nat_eq_iff take_bit_eq_mod)

lemma core_fresh:
  assumes "core_inv b rs ms n d t" "n < 2 ^ 64"
  shows "map_of rs (derive b (of_nat n)) = None"
proof (rule ccontr)
  assume "map_of rs (derive b (of_nat n)) \<noteq> None"
  then obtain k where k: "k < n" "derive b (of_nat n) = derive b (of_nat k)"
    using core_invD(4) [OF assms(1)] by blast
  then have "(of_nat n :: u64) = of_nat k" by (simp only: derive_inj)
  then show False using k(1) assms(2) of_nat_u64_inj [of n k] by simp
qed

lemma core_new:
  assumes inv: "core_inv b rs ms n d t" and n: "n < 2 ^ 64" and i: "i = derive b (of_nat n)"
    and r: "req_ok b i m r" "live_len r = 0"
  shows "core_inv b (bt_insert i r rs) (AList.update i m ms) (Suc n) d t"
proof -
  have "map_of rs i = None" using core_fresh [OF inv n] i by simp
  then have "bt_sum live_len (bt_insert i r rs) = bt_sum live_len rs"
    using r(2) by (simp add: bt_sum_insert_new)
  moreover have "(\<exists>k<Suc n. j = derive b (of_nat k)) \<longleftrightarrow> j = i \<or> (\<exists>k<n. j = derive b (of_nat k))" for j
    by (auto simp: i less_Suc_eq)
  ultimately show ?thesis
    using inv r unfolding core_inv_def by (auto simp: sorted_bt_insert update_conv')
qed

lemma core_length:
  assumes "core_inv b rs ms n d t"
  shows "card (fst ` set rs) \<le> n"
proof -
  have "fst ` set rs = {i. map_of rs i \<noteq> None}" using dom_map_of_conv_image_fst [of rs] by (simp add: dom_def)
  then have "fst ` set rs \<subseteq> (\<lambda>k. derive b (of_nat k)) ` {..<n}"
    using core_invD(4) [OF assms] by blast
  then have "card (fst ` set rs) \<le> card ((\<lambda>k. derive b (of_nat k)) ` {..<n})" by (intro card_mono) auto
  also have "\<dots> \<le> n" using card_image_le [of "{..<n}" "\<lambda>k. derive b (of_nat k)"] by simp
  finally show ?thesis .
qed

section \<open>The queues\<close>

text \<open>A request is in the waiting queue exactly while it is queued, and decodes only from its list.\<close>

definition queue_inv :: "(u64 \<rightharpoonup> Req) \<Rightarrow> u64 list \<Rightarrow> u64 list \<Rightarrow> bool" where
  "queue_inv M W D \<longleftrightarrow> distinct W \<and> distinct D
     \<and> (\<forall>i. i \<in> set W \<longleftrightarrow> (\<exists>r. M i = Some r \<and> queued r))
     \<and> (\<forall>i\<in>set D. \<exists>r. M i = Some r \<and> (rq_state r = Decode \<or> rq_state r = Aborted))
     \<and> (\<forall>i r. M i = Some r \<longrightarrow> rq_state r = Decode \<longrightarrow> i \<in> set D)"

lemma queue_invD:
  assumes "queue_inv M W D"
  shows "distinct W" "distinct D" "i \<in> set W \<Longrightarrow> \<exists>r. M i = Some r \<and> queued r"
    "i \<in> set D \<Longrightarrow> \<exists>r. M i = Some r \<and> (rq_state r = Decode \<or> rq_state r = Aborted)"
    "M i = Some r \<Longrightarrow> queued r \<Longrightarrow> i \<in> set W" "M i = Some r \<Longrightarrow> rq_state r = Decode \<Longrightarrow> i \<in> set D"
  using assms by (auto simp: queue_inv_def)

lemma queue_same:
  assumes "queue_inv M W D" "M i = Some r" "queued r' \<longleftrightarrow> queued r"
    "rq_state r' = Decode \<longleftrightarrow> rq_state r = Decode" "rq_state r' = Aborted \<longleftrightarrow> rq_state r = Aborted"
  shows "queue_inv (M(i \<mapsto> r')) W D"
  using assms by (auto simp: queue_inv_def)

lemma queue_new:
  assumes "queue_inv M W D" "M i = None" "rq_state r = Waiting"
  shows "queue_inv (M(i \<mapsto> r)) (W @ [i]) D"
  using assms by (auto simp: queue_inv_def queued_def)

lemma queue_abort:
  assumes "queue_inv M W D" "M i = Some r" "rq_state r' = Aborted"
  shows "queue_inv (M(i \<mapsto> r')) (filter (\<lambda>x. x \<noteq> i) W) D"
  using assms by (auto simp: queue_inv_def queued_def)

lemma queue_preempt:
  assumes "queue_inv M W D" "M i = Some r" "\<not> queued r" "rq_state r' = Preempted"
  shows "queue_inv (M(i \<mapsto> r')) (i # W) (filter (\<lambda>x. x \<noteq> i) D)"
  using assms by (auto simp: queue_inv_def queued_def)

lemma queue_decode:
  assumes "queue_inv M W D" "M i = Some r" "queued r" "rq_state r' = Decode"
  shows "queue_inv (M(i \<mapsto> r')) (filter (\<lambda>x. x \<noteq> i) W) (if i \<in> set D then D else D @ [i])"
  using assms by (auto simp: queue_inv_def queued_def)

lemma queue_done:
  assumes "queue_inv M W D" "M i = Some r" "rq_state r' = Done"
  shows "queue_inv (M(i \<mapsto> r')) (filter (\<lambda>x. x \<noteq> i) W) (filter (\<lambda>x. x \<noteq> i) D)"
  using assms by (auto simp: queue_inv_def queued_def)

lemma queue_perm: "queue_inv M W D \<Longrightarrow> mset D' = mset D \<Longrightarrow> queue_inv M W D'"
  unfolding queue_inv_def using mset_eq_imp_distinct_iff mset_eq_setD by blast

section \<open>The invariant of the pipeline\<close>

text \<open>Every token of the trace is the one the policy draws for its request at its position.\<close>

definition tokens_ok :: "SchedConfig \<Rightarrow> TraceEntry list \<Rightarrow> bool" where
  "tokens_ok cfg tr \<longleftrightarrow> (\<forall>e\<in>set tr. \<forall>t. te_event e = DecodeTokenEv t \<longrightarrow> 0 < te_cached_len e
     \<and> gen_token cfg (splitmix64 (base_seed cfg XOR te_req e)) (te_cached_len e - 1) = Some t)"

lemma tokens_ok_snoc [simp]:
  "tokens_ok cfg (tr @ [e]) \<longleftrightarrow> tokens_ok cfg tr \<and> (\<forall>t. te_event e = DecodeTokenEv t \<longrightarrow> 0 < te_cached_len e
     \<and> gen_token cfg (splitmix64 (base_seed cfg XOR te_req e)) (te_cached_len e - 1) = Some t)"
  by (auto simp: tokens_ok_def)

definition replay_inv :: "SchedConfig \<Rightarrow> Replay \<Rightarrow> bool" where
  "replay_inv cfg s \<longleftrightarrow>
     core_inv (base_seed cfg) (reqs s) (metas s) (arrival_idx s) (dispatched s) (returned s)
     \<and> queue_inv (map_of (reqs s)) (waitq s) (decoding s)
     \<and> distinct (map fst (estimates s)) \<and> rp_arrival_seq s = of_nat (arrival_idx s)
     \<and> tokens_ok cfg (rp_trace s)"

lemma replay_invD:
  assumes "replay_inv cfg s"
  shows "core_inv (base_seed cfg) (reqs s) (metas s) (arrival_idx s) (dispatched s) (returned s)"
    "queue_inv (map_of (reqs s)) (waitq s) (decoding s)" "distinct (map fst (estimates s))"
    "rp_arrival_seq s = of_nat (arrival_idx s)" "tokens_ok cfg (rp_trace s)"
  using assms by (simp_all add: replay_inv_def)

lemma replay_inv_req:
  assumes "replay_inv cfg s" "map_of (reqs s) i = Some r"
  obtains m where "map_of (metas s) i = Some m" "req_ok (base_seed cfg) i m r"
  using core_invD(2) [OF replay_invD(1) [OF assms(1)] assms(2)] by blast

lemma case_res_Some [simp]:
  "(case x of Ok r \<Rightarrow> f r | Err e \<Rightarrow> None | Panic \<Rightarrow> None) = Some y \<longleftrightarrow> (\<exists>r. x = Ok r \<and> f r = Some y)"
  by (cases x) auto

lemma trace_Some [simp]:
  "trace i ev s = Some s' \<longleftrightarrow> (\<exists>r. map_of (reqs s) i = Some r \<and>
     s' = s\<lparr>rp_trace := rp_trace s @ [\<lparr>te_step = rp_step s, te_req = i, te_event = ev,
       te_cached_len = cached_len r, te_device_len = device_len r\<rparr>]\<rparr>)"
  by (auto simp: trace_def bind_eq_Some_conv)

text \<open>What an operation leaves alone.\<close>

definition frame :: "u64 set \<Rightarrow> Replay \<Rightarrow> Replay \<Rightarrow> bool" where
  "frame I s s' \<longleftrightarrow> metas s' = metas s \<and> arrival_idx s' = arrival_idx s \<and> rp_step s' = rp_step s
     \<and> (\<forall>j. map_of (reqs s') j \<noteq> None \<longleftrightarrow> map_of (reqs s) j \<noteq> None)
     \<and> (\<forall>j. j \<notin> I \<longrightarrow> map_of (reqs s') j = map_of (reqs s) j)
     \<and> set (estimates s') \<subseteq> set (estimates s)
     \<and> (\<forall>j r'. map_of (reqs s') j = Some r' \<longrightarrow> rq_state r' = Aborted \<longrightarrow>
          (\<exists>r. map_of (reqs s) j = Some r \<and> rq_state r = Aborted))"

lemma frame_refl [simp]: "frame I s s"
  by (simp add: frame_def)

lemma frame_trans: "frame I s t \<Longrightarrow> frame J t u \<Longrightarrow> frame (I \<union> J) s u"
proof -
  assume a: "frame I s t" and b: "frame J t u"
  have "set (estimates u) \<subseteq> set (estimates s)" using a b unfolding frame_def by blast
  moreover have "\<exists>r. map_of (reqs s) j = Some r \<and> rq_state r = Aborted"
    if r': "map_of (reqs u) j = Some r'" "rq_state r' = Aborted" for j r'
  proof -
    have "\<exists>r. map_of (reqs t) j = Some r \<and> rq_state r = Aborted" using b r' unfolding frame_def by blast
    then show ?thesis using a unfolding frame_def by blast
  qed
  ultimately show ?thesis using a b unfolding frame_def by simp
qed

lemma set_delete_subset: "set (AList.delete k xs) \<subseteq> set xs"
  by (induction xs) (auto simp: AList.delete_eq)

lemma frame_mono: "frame I s t \<Longrightarrow> I \<subseteq> J \<Longrightarrow> frame J s t"
  unfolding frame_def by blast

subsection \<open>Arrivals\<close>

lemma arrive_one_inv:
  assumes inv: "replay_inv cfg s" and n: "arrival_idx s < 2 ^ 64" and op: "arrive_one cfg a s = Some s'"
  shows "replay_inv cfg s' \<and> arrival_idx s' = Suc (arrival_idx s) \<and> rp_step s' = rp_step s"
proof -
  define i where "i = derive (base_seed cfg) (rp_arrival_seq s)"
  define r where "r = req_new i (base_seed cfg) (rp_arrival_seq s) (stop_patterns a) (sc_eos_id cfg)"
  define m where "m = \<lparr>mt_prompt_len = ar_prompt_len a, mt_max_output = ar_max_output a, mt_chunked = chunked a,
               mt_abort_at = abort_at_step a, mt_preempt_at = preempt_at_step a\<rparr>"
  have i: "i = derive (base_seed cfg) (of_nat (arrival_idx s))" by (simp add: i_def replay_invD(4) [OF inv])
  obtain e where s': "reqs s' = bt_insert i r (reqs s)" "metas s' = AList.update i m (metas s)"
      "estimates s' = AList.update i e (estimates s)" "waitq s' = waitq s @ [i]" "decoding s' = decoding s"
      "arrival_idx s' = arrival_idx s + 1" "rp_arrival_seq s' = rp_arrival_seq s + 1" "rp_step s' = rp_step s"
      "dispatched s' = dispatched s" "returned s' = returned s"
      "rp_trace s' = rp_trace s @ [\<lparr>te_step = rp_step s, te_req = i, te_event = ArrivedEv,
         te_cached_len = cached_len r, te_device_len = device_len r\<rparr>]"
    using op unfolding arrive_one_def Let_def i_def [symmetric] r_def [symmetric] m_def [symmetric]
    by (auto simp: bind_eq_Some_conv put_req_def)
  have fresh: "map_of (reqs s) i = None" using core_fresh [OF replay_invD(1) [OF inv] n] i by simp
  have r: "req_ok (base_seed cfg) i m r" "live_len r = 0" "rq_state r = Waiting"
    unfolding r_def by (rule req_ok_new)+
  show ?thesis
    using core_new [OF replay_invD(1) [OF inv] n i r(1,2)] queue_new [OF replay_invD(2) [OF inv] fresh r(3)]
      replay_invD(3-5) [OF inv]
    by (simp add: replay_inv_def s' distinct_update)
qed

lemma arrive_loop_inv:
  "arrive_loop cfg as s = Some s' \<Longrightarrow> replay_inv cfg s \<Longrightarrow> arrival_idx s + length as < 2 ^ 64 \<Longrightarrow>
    replay_inv cfg s' \<and> rp_step s' = rp_step s \<and> arrival_idx s' \<le> arrival_idx s + length as"
proof (induction as arbitrary: s)
  case (Cons a as)
  show ?case
  proof (cases "at_step a \<le> rp_step s")
    case True
    then obtain t where t: "arrive_one cfg a s = Some t" "arrive_loop cfg as t = Some s'"
      using Cons.prems(1) by (auto simp: bind_eq_Some_conv)
    have inv: "replay_inv cfg t" "arrival_idx t = Suc (arrival_idx s)" "rp_step t = rp_step s"
      using arrive_one_inv [OF Cons.prems(2) _ t(1)] Cons.prems(3) by simp_all
    show ?thesis using Cons.IH [OF t(2) inv(1)] Cons.prems(3) inv(2,3) by simp
  qed (use Cons.prems in simp)
qed simp

subsection \<open>Injected aborts and preemptions\<close>

lemma abort_one_inv:
  assumes inv: "replay_inv cfg s" and op: "abort_one i s = Some s'"
  shows "replay_inv cfg s' \<and> arrival_idx s' = arrival_idx s \<and> rp_step s' = rp_step s"
proof -
  consider "s' = s" | m r where "map_of (metas s) i = Some m" "map_of (reqs s) i = Some r" "\<not> is_terminal r"
    "s' = s\<lparr>reqs := bt_insert i (fst (abort r)) (reqs s), returned := returned s + device_len r,
       estimates := AList.delete i (estimates s), waitq := filter (\<lambda>x. x \<noteq> i) (waitq s),
       rp_trace := rp_trace s @ [\<lparr>te_step = rp_step s, te_req = i, te_event = AbortedEv,
         te_cached_len = cached_len (fst (abort r)), te_device_len = device_len (fst (abort r))\<rparr>]\<rparr>"
    using op unfolding abort_one_def Let_def
    by (auto simp: bind_eq_Some_conv put_req_def remove_from_waiting_def split: if_splits)
  then show ?thesis
  proof cases
    case 2
    obtain m' where m': "map_of (metas s) i = Some m'" "req_ok (base_seed cfg) i m' r"
      by (rule replay_inv_req [OF inv 2(2)])
    note ab = req_ok_abort [OF m'(2) 2(3)]
    have "core_inv (base_seed cfg) (bt_insert i (fst (abort r)) (reqs s)) (metas s) (arrival_idx s)
        (dispatched s) (returned s + device_len r)"
      by (rule core_put [OF replay_invD(1) [OF inv] 2(2) m'(1) ab(1)])
        (use 2(3) ab(2,3) in \<open>simp add: live_len_def is_terminal_def\<close>)
    then show ?thesis
      using queue_abort [OF replay_invD(2) [OF inv] 2(2) ab(2)] replay_invD(3-5) [OF inv] 2(2)
      by (simp add: replay_inv_def 2(4) distinct_delete frame_def)
  qed (use inv in simp)
qed

lemma preempt_req_inv:
  assumes inv: "replay_inv cfg s" and i: "i \<in> set (decoding s)" and ev: "\<And>t. ev \<noteq> DecodeTokenEv t"
    and op: "preempt_req i ev s = Some s'"
  shows "replay_inv cfg s' \<and> frame {i} s s' \<and> decoding s' = filter (\<lambda>x. x \<noteq> i) (decoding s)"
proof -
  obtain r r' where r: "map_of (reqs s) i = Some r" "preempt r = Ok r'"
    "s' = s\<lparr>reqs := bt_insert i r' (reqs s), returned := returned s + device_len r,
       rp_trace := rp_trace s @ [\<lparr>te_step = rp_step s, te_req = i, te_event = ev,
         te_cached_len = cached_len r', te_device_len = device_len r'\<rparr>],
       decoding := filter (\<lambda>x. x \<noteq> i) (decoding s), waitq := i # waitq s\<rparr>"
    using op unfolding preempt_req_def Let_def
    by (auto simp: bind_eq_Some_conv put_req_def remove_from_decoding_def)
  obtain m where m: "map_of (metas s) i = Some m" "req_ok (base_seed cfg) i m r"
    by (rule replay_inv_req [OF inv r(1)])
  note pr = req_ok_preempt [OF m(2) r(2)]
  have st: "rq_state r = Decode"
    using queue_invD(4) [OF replay_invD(2) [OF inv] i] r(1,2) by (auto simp: preempt_def)
  have "core_inv (base_seed cfg) (bt_insert i r' (reqs s)) (metas s) (arrival_idx s)
      (dispatched s) (returned s + device_len r)"
    by (rule core_put [OF replay_invD(1) [OF inv] r(1) m(1) pr(1)])
      (use st pr(2,3) in \<open>simp add: live_len_def is_terminal_def\<close>)
  then show ?thesis
    using queue_preempt [OF replay_invD(2) [OF inv] r(1) _ pr(2)] replay_invD(3-5) [OF inv] r(1) st ev pr(2)
    by (simp add: replay_inv_def r(3) frame_def queued_def)
qed

lemma preempt_one_inv:
  assumes inv: "replay_inv cfg s" and op: "preempt_one i s = Some s'"
  shows "replay_inv cfg s' \<and> frame {i} s s'"
proof -
  consider "s' = s" | r where "map_of (reqs s) i = Some r" "rq_state r = Decode"
    "preempt_req i PreemptInjectedEv s = Some s'"
    using op unfolding preempt_one_def by (auto simp: bind_eq_Some_conv split: if_splits)
  then show ?thesis
  proof cases
    case 2
    have "i \<in> set (decoding s)" by (rule queue_invD(6) [OF replay_invD(2) [OF inv] 2(1,2)])
    then show ?thesis using preempt_req_inv [OF inv _ _ 2(3)] by simp
  qed (use inv in simp)
qed

subsection \<open>Admission\<close>

text \<open>What the batch selector is told about a queued request.\<close>

definition view_ok :: "Replay \<Rightarrow> WaitingReq \<Rightarrow> bool" where
  "view_ok s w \<longleftrightarrow> (\<exists>r m. map_of (reqs s) (w_id w) = Some r \<and> map_of (metas s) (w_id w) = Some m
     \<and> queued r \<and> w_cached_len w = cached_len r \<and> w_prompt_len w = mt_prompt_len m)"

lemma view_ok_cong: "reqs t = reqs s \<Longrightarrow> metas t = metas s \<Longrightarrow> view_ok t w = view_ok s w"
  by (simp add: view_ok_def)

lemma admit_one_fields:
  assumes inv: "replay_inv cfg s" and i: "i \<in> set (waitq s)" and op: "admit_one iter cfg i (s, el) = Some (s', el')"
  shows "reqs s' = reqs s \<and> metas s' = metas s \<and> waitq s' = waitq s \<and> decoding s' = decoding s
    \<and> arrival_idx s' = arrival_idx s \<and> rp_step s' = rp_step s \<and> replay_inv cfg s'
    \<and> (el' = el \<or> (\<exists>w. el' = el @ [w] \<and> w_id w = i \<and> view_ok s w \<and> max_chunk w = sc_chunk_size cfg))"
proof -
  obtain r where r: "map_of (reqs s) i = Some r" "queued r"
    using queue_invD(3) [OF replay_invD(2) [OF inv] i] by blast
  obtain m where m: "map_of (metas s) i = Some m" "req_ok (base_seed cfg) i m r"
    by (rule replay_inv_req [OF inv r(1)])
  have len: "max (prompt_len r) (mt_prompt_len m) = mt_prompt_len m"
    using r(2) req_okD(1-3) [OF m(2)] by (auto simp: queued_def)
  define fc where "fc = (if rq_state r = Waiting then Some (min (sc_chunk_size cfg) (mt_prompt_len m)) else None)"
  obtain est where est: "current_estimate cfg i s = Some est"
    using op by (cases "current_estimate cfg i s") (auto simp: admit_one_def)
  obtain v where v: "check_admission (AList.update i est (iter (rp_step s) (estimates s))) fc
      (step_first_chunk_sum s) (busy_now cfg s) (admission cfg) = Some v"
    using op est by (cases "check_admission (AList.update i est (iter (rp_step s) (estimates s))) fc
      (step_first_chunk_sum s) (busy_now cfg s) (admission cfg)") (auto simp: admit_one_def r m fc_def Let_def)
  note op' = op [unfolded admit_one_def prod.case, simplified est r(1) m(1) bind.bind_lunit Let_def, folded fc_def,
      simplified v bind.bind_lunit]
  show ?thesis
  proof (cases v)
    case Admitted
    then show ?thesis using op' r m(1) replay_invD [OF inv]
      by (auto simp: replay_inv_def view_ok_def len distinct_update bind_eq_Some_conv)
  next
    case (Denied d)
    then show ?thesis using op' r(1) replay_invD [OF inv] by (auto simp: replay_inv_def bind_eq_Some_conv)
  qed
qed

lemma admit_fold:
  assumes "fold_opt (admit_one iter cfg) xs (s, el) = Some (s', el')" "replay_inv cfg s"
    "set xs \<subseteq> set (waitq s)" "distinct (map w_id el @ xs)" "\<forall>w\<in>set el. view_ok s w \<and> max_chunk w = sc_chunk_size cfg"
  shows "replay_inv cfg s' \<and> reqs s' = reqs s \<and> metas s' = metas s \<and> decoding s' = decoding s
    \<and> arrival_idx s' = arrival_idx s \<and> rp_step s' = rp_step s
    \<and> distinct (map w_id el') \<and> (\<forall>w\<in>set el'. view_ok s' w \<and> max_chunk w = sc_chunk_size cfg)"
  using assms
proof (induction xs arbitrary: s el)
  case (Cons i xs)
  obtain t el1 where t: "admit_one iter cfg i (s, el) = Some (t, el1)"
    "fold_opt (admit_one iter cfg) xs (t, el1) = Some (s', el')"
    using Cons.prems(1) by (auto simp: bind_eq_Some_conv)
  have "i \<in> set (waitq s)" using Cons.prems(3) by simp
  note f = admit_one_fields [OF Cons.prems(2) this t(1)]
  have "distinct (map w_id el1 @ xs)" using Cons.prems(4) f by (auto; blast)
  moreover have "\<forall>w\<in>set el1. view_ok t w \<and> max_chunk w = sc_chunk_size cfg"
    using Cons.prems(5) f view_ok_cong [of t s] by auto
  ultimately have "replay_inv cfg s' \<and> reqs s' = reqs t \<and> metas s' = metas t \<and> decoding s' = decoding t
    \<and> arrival_idx s' = arrival_idx t \<and> rp_step s' = rp_step t
    \<and> distinct (map w_id el') \<and> (\<forall>w\<in>set el'. view_ok s' w \<and> max_chunk w = sc_chunk_size cfg)"
    using Cons.prems(3) f by (intro Cons.IH [OF t(2)]) auto
  then show ?case using f by simp
qed simp

subsection \<open>Victims and prefill assignments\<close>

lemma preempt_fold:
  assumes "fold_opt (\<lambda>i. preempt_req i PreemptedEv) xs s = Some s'" "replay_inv cfg s"
    "set xs \<subseteq> set (decoding s)" "distinct xs"
  shows "replay_inv cfg s' \<and> frame (set xs) s s'"
  using assms
proof (induction xs arbitrary: s)
  case (Cons i xs)
  obtain t where t: "preempt_req i PreemptedEv s = Some t" "fold_opt (\<lambda>i. preempt_req i PreemptedEv) xs t = Some s'"
    using Cons.prems(1) by (auto simp: bind_eq_Some_conv)
  have p: "replay_inv cfg t \<and> frame {i} s t \<and> decoding t = filter (\<lambda>x. x \<noteq> i) (decoding s)"
    by (rule preempt_req_inv [OF Cons.prems(2) _ _ t(1)]) (use Cons.prems(3) in simp_all)
  then have "replay_inv cfg s' \<and> frame (set xs) t s'"
    using Cons.prems(3,4) by (intro Cons.IH [OF t(2)]) auto
  then show ?case using p frame_trans [of "{i}" s t "set xs" s'] by simp
qed simp

definition assignment_ok :: "Replay \<Rightarrow> u64 \<times> nat \<times> nat \<Rightarrow> bool" where
  "assignment_ok s p \<longleftrightarrow> (\<exists>r m. map_of (reqs s) (fst p) = Some r \<and> map_of (metas s) (fst p) = Some m
     \<and> queued r \<and> fst (snd p) = cached_len r \<and> fst (snd p) < snd (snd p) \<and> snd (snd p) \<le> mt_prompt_len m)"

lemma assignment_ok_frame:
  "frame I s t \<Longrightarrow> fst p \<notin> I \<Longrightarrow> assignment_ok s p \<Longrightarrow> assignment_ok t p"
  unfolding frame_def assignment_ok_def by simp

text \<open>An assignment the selector may make is carried out without a panic.\<close>

lemma prefill_one_ok:
  assumes inv: "replay_inv cfg s" and ok: "assignment_ok s (i, a, e)"
  shows "\<exists>s'. prefill_one (i, a, e) s = Some s' \<and> replay_inv cfg s' \<and> frame {i} s s'"
proof -
  obtain r m where r: "map_of (reqs s) i = Some r" "queued r" "a = cached_len r" "a < e"
      "e \<le> mt_prompt_len m" and ms: "map_of (metas s) i = Some m"
    using ok by (auto simp: assignment_ok_def)
  have m: "req_ok (base_seed cfg) i m r" using replay_inv_req [OF inv r(1)] ms by (metis option.inject)
  have dev: "device_len r = a" "is_terminal r = False"
    using r(2,3) req_okD(1-3) [OF m] by (auto simp: queued_def is_terminal_def)
  \<comment> \<open>the request after the dispatch, and after its confirmation\<close>
  obtain r1 r' ev ev1 where step: "if rq_state r = Waiting \<or> rq_state r = Preempted
      then start_prefill r (mt_prompt_len m) (mt_max_output m) (e - a) = Ok r1
      else rq_state r = Chunked \<and> dispatch_chunk r e = Ok r1"
    "confirm r1 = Some (r', ev)" "req_ok (base_seed cfg) i m r'" "device_len r' = e"
    "ev = ChunkConfirmed \<and> rq_state r' = Chunked \<or> ev = PrefillDone \<and> rq_state r' = Decode"
  proof (cases "rq_state r = Waiting \<or> rq_state r = Preempted")
    case True
    then have "a = 0" using r(3) req_okD(1,2) [OF m] by auto
    then show thesis using start_prefill_ok [OF m True, of "e - a"] r(4,5) that True by auto
  next
    case False
    then have "rq_state r = Chunked" using r(2) by (auto simp: queued_def)
    then show thesis using dispatch_chunk_ok [OF m, of e] r(3-5) that False by auto
  qed
  have core: "core_inv (base_seed cfg) (bt_insert i r' (bt_insert i r1 (reqs s))) (metas s) (arrival_idx s)
      (dispatched s + (e - a)) (returned s)"
  proof -
    have "core_inv (base_seed cfg) (bt_insert i r' (reqs s)) (metas s) (arrival_idx s)
      (dispatched s + (e - a)) (returned s)"
      by (rule core_put [OF replay_invD(1) [OF inv] r(1) ms step(3)])
        (use step(4,5) dev r(4) in \<open>auto simp: live_len_def is_terminal_def\<close>)
    moreover have "bt_insert i r' (bt_insert i r1 xs) = bt_insert i r' xs" for xs :: "(u64 \<times> Req) list"
      by (induction i r1 xs rule: bt_insert.induct) auto
    ultimately show ?thesis by simp
  qed
  have q1: "queue_inv ((map_of (reqs s))(i \<mapsto> r')) (waitq s) (decoding s)" if "rq_state r' = Chunked"
    by (rule queue_same [OF replay_invD(2) [OF inv] r(1)]) (use r(2) that in \<open>auto simp: queued_def\<close>)
  have q2: "queue_inv ((map_of (reqs s))(i \<mapsto> r')) (filter (\<lambda>x. x \<noteq> i) (waitq s))
      (if i \<in> set (decoding s) then decoding s else decoding s @ [i])" if "rq_state r' = Decode"
    by (rule queue_decode [OF replay_invD(2) [OF inv] r(1,2) that])
  \<comment> \<open>the two halves of the operation\<close>
  obtain s1 where s1: "dispatch_one i e (e - a) s = Some s1" "reqs s1 = bt_insert i r1 (reqs s)"
    "metas s1 = metas s" "arrival_idx s1 = arrival_idx s" "rp_step s1 = rp_step s" "waitq s1 = waitq s"
    "decoding s1 = decoding s" "estimates s1 = estimates s" "dispatched s1 = dispatched s"
    "returned s1 = returned s" "rp_arrival_seq s1 = rp_arrival_seq s" "tokens_ok cfg (rp_trace s1)"
    using step(1) r(1) ms replay_invD(5) [OF inv]
    by (cases "rq_state r = Waiting \<or> rq_state r = Preempted") (auto simp: dispatch_one_def put_req_def trace_def)
  define s2 where "s2 = s1\<lparr>dispatched := dispatched s1 + (e - a)\<rparr>"
  obtain s3 where s3: "confirm_one i s2 = Some s3" "reqs s3 = bt_insert i r' (reqs s1)"
    "metas s3 = metas s" "arrival_idx s3 = arrival_idx s" "rp_step s3 = rp_step s"
    "waitq s3 = (if rq_state r' = Decode then filter (\<lambda>x. x \<noteq> i) (waitq s) else waitq s)"
    "decoding s3 = (if rq_state r' = Decode \<and> i \<notin> set (decoding s) then decoding s @ [i] else decoding s)"
    "estimates s3 = estimates s" "dispatched s3 = dispatched s + (e - a)" "returned s3 = returned s"
    "rp_arrival_seq s3 = rp_arrival_seq s" "tokens_ok cfg (rp_trace s3)"
    using step(2,5) s1(2-) by (cases "i \<in> set (decoding s)")
    (auto simp: Let_def confirm_one_def s2_def put_req_def trace_def remove_from_waiting_def add_to_decoding_def)
  have "prefill_one (i, a, e) s = Some s3"
    using r(1,3) s1(1) s3(1) by (simp add: prefill_one_def s2_def)
  moreover have "replay_inv cfg s3"
    using core q1 q2 step(5) s3(2-) replay_invD(3,4) [OF inv] s1(2) by (auto simp: replay_inv_def)
  moreover have "frame {i} s s3" using s3(2-5,8) s1(2) r(1) step(5) by (auto simp: frame_def)
  ultimately show ?thesis by blast
qed

lemma prefill_fold:
  "replay_inv cfg s \<Longrightarrow> \<forall>p\<in>set ps. assignment_ok s p \<Longrightarrow> distinct (map fst ps) \<Longrightarrow>
    \<exists>s'. fold_opt prefill_one ps s = Some s' \<and> replay_inv cfg s' \<and> frame (fst ` set ps) s s'"
proof (induction ps arbitrary: s)
  case (Cons p ps)
  obtain i a e where p: "p = (i, a, e)" by (cases p)
  obtain t where t: "prefill_one p s = Some t" "replay_inv cfg t" "frame {i} s t"
    using prefill_one_ok [OF Cons.prems(1), of i a e] Cons.prems(2) p by auto
  have "\<forall>q\<in>set ps. assignment_ok t q"
  proof
    fix q assume q: "q \<in> set ps"
    then have "fst q \<noteq> i" using Cons.prems(3) p by auto
    then show "assignment_ok t q" using assignment_ok_frame [OF t(3), of q] Cons.prems(2) q by simp
  qed
  then obtain u where "fold_opt prefill_one ps t = Some u" "replay_inv cfg u" "frame (fst ` set ps) t u"
    using Cons.IH [OF t(2)] Cons.prems(3) by auto
  then show ?case using t frame_trans [OF t(3), of "fst ` set ps" u] by (simp add: p)
qed simp

text \<open>What the selector promises about its victims and its assignments.\<close>

lemma select_batch_victims:
  assumes "distinct (map d_id ds)"
  shows "distinct (sel_preempted (select_batch ws ds budget flr pol))"
    "set (sel_preempted (select_batch ws ds budget flr pol)) \<subseteq> set (map d_id ds)"
proof -
  let ?cut = "length ds - min (length ds) (budget - flr)" and ?f = "\<lambda>i. d_id (ds ! i)"
  have sel: "sel_preempted (select_batch ws ds budget flr pol) = map ?f (take ?cut (order_victims ds))"
    by (simp add: select_batch_def Let_def split: prod.split)
  have m: "mset (map ?f (take ?cut (order_victims ds))) + mset (map ?f (drop ?cut (order_victims ds))) = mset (map d_id ds)"
    by (rule victims.mset_split_served)
  then have "mset (map ?f (take ?cut (order_victims ds)) @ map ?f (drop ?cut (order_victims ds))) = mset (map d_id ds)"
    by simp
  from mset_eq_imp_distinct_iff [OF this] assms
  show "distinct (sel_preempted (select_batch ws ds budget flr pol))" unfolding sel by simp
  have "set_mset (mset (map ?f (take ?cut (order_victims ds)))) \<subseteq> set_mset (mset (map d_id ds))"
    unfolding m [symmetric] by simp
  then show "set (sel_preempted (select_batch ws ds budget flr pol)) \<subseteq> set (map d_id ds)"
    unfolding sel by (simp only: set_mset_mset)
qed

lemma select_batch_assignments:
  assumes "distinct (map w_id ws)"
  shows "distinct (map fst (sel_prefill (select_batch ws ds budget flr pol)))"
    "p \<in> set (sel_prefill (select_batch ws ds budget flr pol)) \<Longrightarrow> \<exists>w\<in>set ws. chunk_ok w p"
proof -
  obtain ps ks where f: "fill_prefill ws (budget - flr - min (length ds) (budget - flr)) (order_waiting ws pol) = (ps, ks)"
    by fastforce
  have sel: "sel_prefill (select_batch ws ds budget flr pol) = ps"
    using f by (simp add: select_batch_def Let_def)
  have "mset (map fst ps @ ks) = mset (map w_id ws)" using fill_waiting_spec(1) [OF f] by simp
  from mset_eq_imp_distinct_iff [OF this] assms
  show "distinct (map fst (sel_prefill (select_batch ws ds budget flr pol)))" unfolding sel by simp
  show "\<exists>w\<in>set ws. chunk_ok w p" if "p \<in> set (sel_prefill (select_batch ws ds budget flr pol))"
    using fill_waiting_spec(3) [OF f] that unfolding sel by blast
qed

lemma those_ids: "those (map (decoding_req s) is) = Some ds \<Longrightarrow> map d_id ds = is"
proof (induction "is" arbitrary: ds)
  case (Cons i "is")
  then show ?case by (auto simp: decoding_req_def bind_eq_Some_conv split: option.splits)
qed simp

text \<open>The schedule phase: admission, victims, assignments.\<close>

lemma schedule_step_inv:
  assumes inv: "replay_inv cfg s" and op: "schedule_step iter cfg s = Some s'"
  shows "replay_inv cfg s' \<and> arrival_idx s' = arrival_idx s \<and> rp_step s' = rp_step s"
proof -
  let ?s0 = "s\<lparr>step_first_chunk_sum := 0\<rparr>"
  obtain s1 el ds s2 where
    1: "fold_opt (admit_one iter cfg) (waitq s) (?s0, []) = Some (s1, el)" and
    2: "those (map (decoding_req s1) (decoding s1)) = Some ds" and
    3: "fold_opt (\<lambda>i. preempt_req i PreemptedEv) (sel_preempted (select_batch el ds
          (min (step_budget cfg) (max_total_tokens cfg - kv_usage_tokens s1)) (kv_floor cfg) (schedule cfg))) s1 = Some s2" and
    4: "fold_opt prefill_one (sel_prefill (select_batch el ds
          (min (step_budget cfg) (max_total_tokens cfg - kv_usage_tokens s1)) (kv_floor cfg) (schedule cfg))) s2 = Some s'"
    using op unfolding schedule_step_def Let_def by (auto simp: bind_eq_Some_conv)
  let ?sel = "select_batch el ds (min (step_budget cfg) (max_total_tokens cfg - kv_usage_tokens s1)) (kv_floor cfg) (schedule cfg)"
  have inv0: "replay_inv cfg ?s0" using inv by (simp add: replay_inv_def)
  have a: "replay_inv cfg s1 \<and> reqs s1 = reqs ?s0 \<and> metas s1 = metas ?s0 \<and> decoding s1 = decoding ?s0
    \<and> arrival_idx s1 = arrival_idx ?s0 \<and> rp_step s1 = rp_step ?s0
    \<and> distinct (map w_id el) \<and> (\<forall>w\<in>set el. view_ok s1 w \<and> max_chunk w = sc_chunk_size cfg)"
    by (rule admit_fold [OF 1 inv0]) (use queue_invD(1) [OF replay_invD(2) [OF inv]] in simp_all)
  have ids: "map d_id ds = decoding s1" by (rule those_ids [OF 2])
  have d: "distinct (map d_id ds)" using queue_invD(2) a replay_invD(2) unfolding ids by blast
  have b: "replay_inv cfg s2 \<and> frame (set (sel_preempted ?sel)) s1 s2"
    using preempt_fold [OF 3 _ select_batch_victims(2) [OF d, unfolded ids] select_batch_victims(1) [OF d]] a by blast
  have asg: "assignment_ok s2 p" if p: "p \<in> set (sel_prefill ?sel)" for p
  proof -
    obtain w where w: "w \<in> set el" "chunk_ok w p"
      using select_batch_assignments(2) [of el p] a p by blast
    then obtain r m where r: "map_of (reqs s1) (w_id w) = Some r" "map_of (metas s1) (w_id w) = Some m"
      "queued r" "w_cached_len w = cached_len r" "w_prompt_len w = mt_prompt_len m"
      using a by (auto simp: view_ok_def)
    then have ok: "assignment_ok s1 p" using w(2) by (auto simp: assignment_ok_def chunk_ok_def)
    have nd: "w_id w \<notin> set (decoding s1)"
      using queue_invD(4) [OF replay_invD(2), of cfg s1 "w_id w"] a r(1,3) by (auto simp: queued_def)
    have "fst p \<notin> set (sel_preempted ?sel)"
    proof
      assume "fst p \<in> set (sel_preempted ?sel)"
      then have "fst p \<in> set (decoding s1)" using subsetD [OF select_batch_victims(2) [OF d]] unfolding ids by blast
      then show False using nd w(2) by (simp add: chunk_ok_def)
    qed
    then show ?thesis using assignment_ok_frame [OF _ _ ok] b by blast
  qed
  obtain s3 where "fold_opt prefill_one (sel_prefill ?sel) s2 = Some s3" "replay_inv cfg s3"
    "frame (fst ` set (sel_prefill ?sel)) s2 s3"
    using prefill_fold [of cfg s2 "sel_prefill ?sel"] asg b select_batch_assignments(1) a by blast
  then show ?thesis using 4 a b by (auto simp: frame_def)
qed

subsection \<open>Decoding\<close>

lemma decode_one_inv:
  assumes inv: "replay_inv cfg s" and op: "decode_one cfg i s = Some s'"
  shows "replay_inv cfg s' \<and> frame {i} s s'"
proof -
  obtain r where r: "map_of (reqs s) i = Some r" using op by (auto simp: decode_one_def bind_eq_Some_conv)
  obtain m where m: "map_of (metas s) i = Some m" "req_ok (base_seed cfg) i m r"
    by (rule replay_inv_req [OF inv r])
  show ?thesis
  proof (cases "rq_state r = Decode")
    case False
    then have "s' = s" using op r by (simp add: decode_one_def)
    then show ?thesis using inv by simp
  next
    case True
    obtain tok r' ev where tok: "gen_token cfg (seed_i r) (cached_len r) = Some tok" "decode_step r tok = Some (r', ev)"
      using op True r by (auto simp: decode_one_def bind_eq_Some_conv)
    note f = decode_step_fields [OF tok(2)] and ok = decode_step_ok [OF m(2) tok(2)]
    have dev: "live_len r = cached_len r" using req_okD(4) [OF m(2) True] True by (simp add: live_len_def is_terminal_def)
    show ?thesis
    proof (cases "rq_state r' = Decode")
      case going: True
      have ev: "ev = DecodeConfirmed tok" using f going by auto
      have s': "reqs s' = bt_insert i r' (reqs s)" "metas s' = metas s" "arrival_idx s' = arrival_idx s"
        "rp_step s' = rp_step s" "waitq s' = waitq s" "decoding s' = decoding s" "estimates s' = estimates s"
        "dispatched s' = dispatched s + 1" "returned s' = returned s" "rp_arrival_seq s' = rp_arrival_seq s"
        "rp_trace s' = rp_trace s @ [\<lparr>te_step = rp_step s, te_req = i, te_event = DecodeTokenEv tok,
           te_cached_len = cached_len r', te_device_len = device_len r'\<rparr>]"
        using op r True tok ev by (auto simp: decode_one_def Let_def put_req_def)
      have "core_inv (base_seed cfg) (bt_insert i r' (reqs s)) (metas s) (arrival_idx s) (dispatched s + 1) (returned s)"
        by (rule core_put [OF replay_invD(1) [OF inv] r m(1) ok])
          (use f going dev in \<open>simp add: live_len_def is_terminal_def\<close>)
      moreover have "queue_inv ((map_of (reqs s))(i \<mapsto> r')) (waitq s) (decoding s)"
        by (rule queue_same [OF replay_invD(2) [OF inv] r]) (use True going in \<open>auto simp: queued_def\<close>)
      moreover have "gen_token cfg (splitmix64 (base_seed cfg XOR i)) (cached_len r' - 1) = Some tok" "0 < cached_len r'"
        using tok(1) f ev req_okD(6) [OF m(2)] by auto
      ultimately show ?thesis using replay_invD(3-5) [OF inv] r going by (simp add: replay_inv_def s' frame_def)
    next
      case False
      then have fin: "rq_state r' = Done" "ev \<in> {Stopped, Eos, MaxOutput}" using f by auto
      let ?r = "fst (take_release r')"
      have s': "reqs s' = bt_insert i ?r (bt_insert i r' (reqs s))" "metas s' = metas s" "arrival_idx s' = arrival_idx s"
        "rp_step s' = rp_step s" "waitq s' = filter (\<lambda>x. x \<noteq> i) (waitq s)" "decoding s' = filter (\<lambda>x. x \<noteq> i) (decoding s)"
        "estimates s' = AList.delete i (estimates s)" "dispatched s' = dispatched s + 1"
        "returned s' = returned s + device_len r'" "rp_arrival_seq s' = rp_arrival_seq s"
        "tokens_ok cfg (rp_trace s')"
        using op r True tok fin replay_invD(5) [OF inv]
        by (auto simp: decode_one_def Let_def put_req_def terminal_req_def bind_eq_Some_conv remove_from_waiting_def remove_from_decoding_def)
      have c1: "core_inv (base_seed cfg) (bt_insert i r' (reqs s)) (metas s) (arrival_idx s) (dispatched s + 1)
          (returned s + device_len r')"
        by (rule core_put [OF replay_invD(1) [OF inv] r m(1) ok])
          (use f fin dev in \<open>simp add: live_len_def is_terminal_def\<close>)
      have rd: "rq_state ?r = Done" "req_ok (base_seed cfg) i m ?r"
        using fin take_release_ok [OF ok] by (simp_all add: take_release_def)
      have "core_inv (base_seed cfg) (bt_insert i ?r (bt_insert i r' (reqs s))) (metas s) (arrival_idx s)
          (dispatched s + 1) (returned s + device_len r')"
        by (rule core_put [OF c1 _ m(1) rd(2), of r'])
          (use fin rd in \<open>simp_all add: live_len_def is_terminal_def\<close>)
      moreover have "queue_inv ((map_of (reqs s))(i \<mapsto> ?r)) (filter (\<lambda>x. x \<noteq> i) (waitq s)) (filter (\<lambda>x. x \<noteq> i) (decoding s))"
        by (rule queue_done [OF replay_invD(2) [OF inv] r rd(1)])
      ultimately show ?thesis using replay_invD(3,4) [OF inv] r rd(1)
        by (simp add: replay_inv_def s' frame_def distinct_delete set_delete_subset)
    qed
  qed
qed

subsection \<open>A step and a run\<close>

lemma replay_inv_new: "replay_new arrivals = Some s \<Longrightarrow> replay_inv cfg s \<and> arrival_idx s = 0 \<and> rp_step s = 0"
  by (auto simp: replay_new_def replay_inv_def core_inv_def queue_inv_def bt_sum_def tokens_ok_def split: if_splits)

lemma replay_step_inv:
  assumes inv: "replay_inv cfg s" and len: "length arrivals < 2 ^ 63" "arrival_idx s \<le> length arrivals"
    and op: "replay_step iter cfg arrivals s = Some s'"
  shows "replay_inv cfg s' \<and> arrival_idx s' \<le> length arrivals \<and> rp_step s' = Suc (rp_step s)"
proof -
  obtain s1 s2 s3 s4 s5 where
    1: "arrive cfg arrivals s = Some s1" and 2: "abort_injected s1 = Some s2" and
    3: "preempt_injected s2 = Some s3" and 4: "schedule_step iter cfg s3 = Some s4" and
    5: "decode_phase cfg s4 = Some s5" and s': "s' = record_high_water s5\<lparr>rp_step := rp_step s5 + 1\<rparr>"
    using op unfolding replay_step_def Let_def
    by (auto simp: bind_eq_Some_conv record_high_water_def)
  have a: "replay_inv cfg s1 \<and> rp_step s1 = rp_step s \<and> arrival_idx s1 \<le> length arrivals"
    using arrive_loop_inv [OF 1 [unfolded arrive_def] inv] len by simp
  have same: "P (arrival_idx u) (rp_step u) \<Longrightarrow> frame I u v \<Longrightarrow> P (arrival_idx v) (rp_step v)" for P u v I
    by (simp add: frame_def)
  let ?P = "\<lambda>t. replay_inv cfg t \<and> rp_step t = rp_step s \<and> arrival_idx t \<le> length arrivals"
  have b: "?P s2"
    by (rule fold_opt_inv [OF 2 [unfolded abort_injected_def], where P = ?P])
      (use a abort_one_inv in \<open>auto simp: frame_def\<close>)
  have c: "?P s3"
    by (rule fold_opt_inv [OF 3 [unfolded preempt_injected_def], where P = ?P])
      (use b preempt_one_inv in \<open>auto simp: frame_def\<close>)
  have d: "?P s4" using schedule_step_inv [OF _ 4] c by auto
  have "replay_inv cfg (s4\<lparr>decoding := sort (decoding s4)\<rparr>)"
    using d queue_perm [of "map_of (reqs s4)" "waitq s4" "decoding s4" "sort (decoding s4)"]
    by (simp add: replay_inv_def)
  then have "?P s5"
    by (intro fold_opt_inv [OF 5 [unfolded decode_phase_def Let_def], where P = ?P])
      (use d decode_one_inv in \<open>auto simp: frame_def\<close>)
  then show ?thesis by (simp add: s' replay_inv_def record_high_water_def)
qed

lemma replay_loop_inv:
  "replay_loop n iter cfg arrivals s = Some s' \<Longrightarrow> replay_inv cfg s \<Longrightarrow> length arrivals < 2 ^ 63 \<Longrightarrow>
    arrival_idx s \<le> length arrivals \<Longrightarrow> replay_inv cfg s' \<and> arrival_idx s' \<le> length arrivals
      \<and> rp_step s' \<le> rp_step s + n \<and> (rp_step s' = rp_step s + n \<or> (arrival_idx s' = length arrivals \<and> is_finished s'))"
proof (induction n arbitrary: s)
  case (Suc n)
  show ?case
  proof (cases "arrival_idx s < length arrivals \<or> \<not> is_finished s")
    case True
    then obtain t where t: "replay_step iter cfg arrivals s = Some t" "replay_loop n iter cfg arrivals t = Some s'"
      using Suc.prems(1) by (auto simp: bind_eq_Some_conv)
    note st = replay_step_inv [OF Suc.prems(2-4) t(1)]
    then show ?thesis using Suc.IH [OF t(2)] Suc.prems(3) by auto
  qed (use Suc.prems in auto)
qed simp

lemma replay_reach:
  assumes "replay iter cfg arrivals = Some out" "length arrivals < 2 ^ 63"
  obtains s where "replay_inv cfg s" "out = replay_outcome s" "rp_step s \<le> max_steps cfg"
    "rp_step s = max_steps cfg \<or> (arrival_idx s = length arrivals \<and> is_finished s)"
proof -
  obtain s0 s where s: "replay_new arrivals = Some s0" "replay_loop (max_steps cfg) iter cfg arrivals s0 = Some s"
    "out = replay_outcome s"
    using assms(1) by (auto simp: replay_def bind_eq_Some_conv)
  note n = replay_inv_new [OF s(1), of cfg]
  have "replay_inv cfg s \<and> arrival_idx s \<le> length arrivals \<and> rp_step s \<le> rp_step s0 + max_steps cfg
      \<and> (rp_step s = rp_step s0 + max_steps cfg \<or> (arrival_idx s = length arrivals \<and> is_finished s))"
    by (rule replay_loop_inv [OF s(2) _ assms(2)]) (use n in simp_all)
  then show thesis using that [of s] s(3) n by auto
qed

end
