(* ===== verification/Replay_Total.thy ===== *)
theory Replay_Total
  imports Replay_Props
begin

text \<open>
  The scheduler pipeline does not panic: with arrivals in order, no injected abort, a non-empty
  vocabulary and sizes whose sums stay within the machine integers, every phase of every step
  returns. The bound \<open>B\<close> is one per-request bound on the estimates of admission.
\<close>

section \<open>Bounds\<close>

definition meta_fits :: "SchedConfig \<Rightarrow> nat \<Rightarrow> Meta \<Rightarrow> bool" where
  "meta_fits cfg B m \<longleftrightarrow> mt_abort_at m = None
     \<and> mt_prompt_len m + mt_max_output m + ADDED_OUTPUT_LEN + 1
         + mt_prompt_len m * (cfg_max_waiting_tokens (admission cfg) + 1) \<le> B"

definition arrival_fits :: "SchedConfig \<Rightarrow> nat \<Rightarrow> Arrival \<Rightarrow> bool" where
  "arrival_fits cfg B a \<longleftrightarrow> abort_at_step a = None
     \<and> ar_prompt_len a + ar_max_output a + ADDED_OUTPUT_LEN + 1
         + ar_prompt_len a * (cfg_max_waiting_tokens (admission cfg) + 1) \<le> B"

definition config_fits :: "SchedConfig \<Rightarrow> nat \<Rightarrow> nat \<Rightarrow> bool" where
  "config_fits cfg B n \<longleftrightarrow> 0 < unat (vocab cfg) \<and> B \<le> u64_max \<and> n * B \<le> u64_max \<and> n < 2 ^ 63
     \<and> cfg_max_waiting_tokens (admission cfg) + 1 \<le> u64_max
     \<and> max_total_pages (admission cfg) * page_size (admission cfg) \<le> u64_max"

text \<open>What the estimates and the table satisfy in such a run.\<close>

definition bound_inv :: "SchedConfig \<Rightarrow> nat \<Rightarrow> Replay \<Rightarrow> bool" where
  "bound_inv cfg B s \<longleftrightarrow> (\<forall>x\<in>set (estimates s). map_of (reqs s) (fst x) \<noteq> None \<and> est_a (snd x) \<le> B \<and> est_b (snd x) \<le> B)
     \<and> (\<forall>i m. map_of (reqs s) i \<noteq> None \<longrightarrow> map_of (metas s) i = Some m \<longrightarrow> meta_fits cfg B m)
     \<and> (\<forall>i r. map_of (reqs s) i = Some r \<longrightarrow> rq_state r \<noteq> Aborted)"

lemma bound_invD:
  assumes "bound_inv cfg B s"
  shows "x \<in> set (estimates s) \<Longrightarrow> map_of (reqs s) (fst x) \<noteq> None \<and> est_a (snd x) \<le> B \<and> est_b (snd x) \<le> B"
    "map_of (reqs s) i = Some r \<Longrightarrow> map_of (metas s) i = Some m \<Longrightarrow> meta_fits cfg B m"
    "map_of (reqs s) i = Some r \<Longrightarrow> rq_state r \<noteq> Aborted"
  using assms unfolding bound_inv_def by blast+

lemma bound_frame: "frame I s t \<Longrightarrow> bound_inv cfg B s \<Longrightarrow> bound_inv cfg B t"
  unfolding frame_def bound_inv_def by (simp, blast)

section \<open>Estimates and admission\<close>

lemma div_ceil_le: "div_ceil a b \<le> a"
proof (cases "b = 0")
  case False
  then show ?thesis by (simp add: div_ceil_le_iff)
qed (auto simp: div_ceil_def)

lemma estimate_total:
  assumes fits: "meta_fits cfg B m" "B \<le> u64_max" "cfg_max_waiting_tokens (admission cfg) + 1 \<le> u64_max"
    and rem: "rm \<le> mt_prompt_len m"
  shows "\<exists>e. estimate \<lparr>input_len = mt_prompt_len m, max_new_tokens = mt_max_output m,
       has_out_len = 0, shm_kv_len = 0, chunked_remaining = rm,
       chunk_size = ch, busy = bz, ema_req_out_len = em,
       max_waiting_tokens = cfg_max_waiting_tokens (admission cfg)\<rparr> = Some e \<and> est_a e \<le> B \<and> est_b e \<le> B"
proof -
  let ?w = "cfg_max_waiting_tokens (admission cfg)"
  have b: "mt_prompt_len m + mt_max_output m + ADDED_OUTPUT_LEN + 1 + mt_prompt_len m * (?w + 1) \<le> B"
    using fits(1) by (simp add: meta_fits_def)
  have "sat_mul (div_ceil rm ch) (?w + 1) \<le> mt_prompt_len m * (?w + 1)"
    unfolding sat_mul_def using div_ceil_le [of rm ch] rem by (meson le_trans min.cobounded1 mult_le_mono1)
  then have s: "sat_add (sat_add x ADDED_OUTPUT_LEN) (sat_mul (div_ceil rm ch) (?w + 1)) \<le> B"
      "sat_add x ADDED_OUTPUT_LEN \<le> B" if "x \<le> mt_max_output m" for x
    using b that unfolding sat_add_def by linarith+
  have "mt_prompt_len m + 1 \<le> u64_max" "max (Suc (mt_prompt_len m)) 1 \<le> B" using b fits(2) by linarith+
  then show ?thesis using s fits(3) by (auto simp: estimate_def Let_def chk_add_def)
qed

lemma queued_output: "req_ok b i m r \<Longrightarrow> queued r \<Longrightarrow> output_tokens r = 0 \<and> prompt_len r - cached_len r \<le> mt_prompt_len m"
  using req_okD(1-3) [of b i m r] by (auto simp: queued_def output_tokens_def)

lemma current_estimate_total:
  assumes r: "map_of (reqs s) i = Some r" "queued r" and m: "map_of (metas s) i = Some m" "req_ok b i m r"
    and fits: "meta_fits cfg B m" "config_fits cfg B n"
  shows "\<exists>e. current_estimate cfg i s = Some e \<and> est_a e \<le> B \<and> est_b e \<le> B"
proof -
  note q = queued_output [OF m(2) r(2)]
  have c: "B \<le> u64_max" "cfg_max_waiting_tokens (admission cfg) + 1 \<le> u64_max"
    using fits(2) by (simp_all add: config_fits_def)
  show ?thesis unfolding current_estimate_def
    using estimate_total [OF fits(1) c, of "if mt_chunked m then prompt_len r - cached_len r else 0"] q
    by (simp add: r(1) m(1))
qed

lemma check_admission_total:
  assumes "max_total_pages config * page_size config \<le> u64_max"
    "sum_list (map (est_a \<circ> snd) ws) \<le> u64_max" "sum_list (map (est_b \<circ> snd) ws) \<le> u64_max"
  shows "\<exists>v. check_admission ws fc sm b config = Some v"
proof -
  have p: "peak_tokens ws = Some (if mset ws = {#} then 0 else Max (peak_at (image_mset snd (mset ws)) ` snd ` set ws))"
    using assms(2) by (simp add: peak_tokens_spec peak_spec_def image_mset.compositionality sum_mset_sum_list [symmetric] comp_def)
  have c: "chk_mul (max_total_pages config) (page_size config) = Some (max_total_pages config * page_size config)"
    "chk_sum 0 (map (est_a \<circ> snd) ws) = Some (sum_list (map (est_a \<circ> snd) ws))"
    "chk_sum 0 (map (est_b \<circ> snd) ws) = Some (sum_list (map (est_b \<circ> snd) ws))"
    using assms by (simp_all add: chk_mul_def chk_sum_eq)
  show ?thesis unfolding check_admission_def c p by (simp add: Let_def split: option.split)
qed

lemma sum_list_bound: "(\<And>x. x \<in> set xs \<Longrightarrow> f x \<le> (B :: nat)) \<Longrightarrow> sum_list (map f xs) \<le> length xs * B"
proof (induction xs)
  case (Cons x xs)
  have "f x \<le> B" "sum_list (map f xs) \<le> length xs * B" using Cons by simp_all
  then show ?case by simp
qed simp

lemma set_update_subset: "set (AList.update k v xs) \<subseteq> insert (k, v) (set xs)"
  by (induction xs) auto

text \<open>The working set holds at most one estimate per arrival.\<close>

lemma working_bound:
  assumes inv: "replay_inv cfg s" and bnd: "bound_inv cfg B s" and it: "hash_order iter"
    and i: "map_of (reqs s) i \<noteq> None" and e: "est_a e \<le> B" "est_b e \<le> B" and n: "arrival_idx s \<le> n"
  shows "sum_list (map (est_a \<circ> snd) (AList.update i e (iter k (estimates s)))) \<le> n * B
    \<and> sum_list (map (est_b \<circ> snd) (AList.update i e (iter k (estimates s)))) \<le> n * B"
proof -
  let ?ws = "AList.update i e (iter k (estimates s))"
  have m: "mset (iter k (estimates s)) = mset (estimates s)" using it by (simp add: hash_order_def)
  then have "mset (map fst (iter k (estimates s))) = mset (map fst (estimates s))" by simp
  then have "distinct (map fst (iter k (estimates s)))"
    using replay_invD(3) [OF inv] mset_eq_imp_distinct_iff by blast
  then have d: "distinct (map fst ?ws)" by (rule distinct_update)
  have set: "set ?ws \<subseteq> insert (i, e) (set (estimates s))"
    using set_update_subset [of i e "iter k (estimates s)"] mset_eq_setD [OF m] by simp
  have keys: "fst ` set ?ws \<subseteq> fst ` set (reqs s)"
  proof
    fix j assume "j \<in> fst ` set ?ws"
    then have "map_of (reqs s) j \<noteq> None" using set i bound_invD(1) [OF bnd] by force
    then show "j \<in> fst ` set (reqs s)" by (simp add: map_of_eq_None_iff)
  qed
  have "length ?ws = card (fst ` set ?ws)" using d distinct_card by fastforce
  also have "\<dots> \<le> card (fst ` set (reqs s))" by (rule card_mono [OF _ keys]) simp
  also have "\<dots> \<le> arrival_idx s" by (rule core_length [OF replay_invD(1) [OF inv]])
  finally have len: "length ?ws * B \<le> n * B" using n by simp
  have each: "(est_a \<circ> snd) x \<le> B \<and> (est_b \<circ> snd) x \<le> B" if "x \<in> set ?ws" for x
  proof -
    have "x = (i, e) \<or> x \<in> set (estimates s)" using subsetD [OF set that] by simp
    then show ?thesis using e bound_invD(1) [OF bnd, of x] by auto
  qed
  have "sum_list (map (est_a \<circ> snd) ?ws) \<le> length ?ws * B" "sum_list (map (est_b \<circ> snd) ?ws) \<le> length ?ws * B"
    by (rule sum_list_bound; use each in blast)+
  then show ?thesis using len by linarith
qed

section \<open>The phases return\<close>

lemma arrive_one_total:
  assumes inv: "replay_inv cfg s" and bnd: "bound_inv cfg B s" and fits: "config_fits cfg B n" "arrival_fits cfg B a"
    and n: "arrival_idx s < n"
  shows "\<exists>s'. arrive_one cfg a s = Some s' \<and> bound_inv cfg B s'"
proof -
  define i where "i = derive (base_seed cfg) (rp_arrival_seq s)"
  define r where "r = req_new i (base_seed cfg) (rp_arrival_seq s) (stop_patterns a) (sc_eos_id cfg)"
  define m where "m = \<lparr>mt_prompt_len = ar_prompt_len a, mt_max_output = ar_max_output a, mt_chunked = chunked a,
               mt_abort_at = abort_at_step a, mt_preempt_at = preempt_at_step a\<rparr>"
  define s1 where "s1 = put_req i r s\<lparr>rp_trace := rp_trace s @ [\<lparr>te_step = rp_step s, te_req = i, te_event = ArrivedEv,
       te_cached_len = cached_len r, te_device_len = device_len r\<rparr>], metas := AList.update i m (metas s)\<rparr>"
  have r: "req_ok (base_seed cfg) i m r" "rq_state r = Waiting" unfolding r_def by (rule req_ok_new)+
  have q: "queued r" using r(2) by (simp add: queued_def)
  have mf: "meta_fits cfg B m" using fits(2) by (simp add: meta_fits_def arrival_fits_def m_def)
  have "map_of (reqs s1) i = Some r" "map_of (metas s1) i = Some m"
    by (simp_all add: s1_def put_req_def update_conv')
  from current_estimate_total [OF this(1) q this(2) r(1) mf fits(1)]
  obtain e where e: "current_estimate cfg i s1 = Some e" "est_a e \<le> B" "est_b e \<le> B" by blast
  have eq: "arrive_one cfg a s = Some (s1\<lparr>estimates := AList.update i e (estimates s1), waitq := waitq s1 @ [i],
      arrival_idx := arrival_idx s1 + 1, rp_arrival_seq := rp_arrival_seq s1 + 1\<rparr>)"
    using e(1) unfolding arrive_one_def Let_def i_def [symmetric] r_def [symmetric] m_def [symmetric]
    by (simp add: trace_def put_req_def s1_def)
  have "map_of (reqs s) i = None"
    using core_fresh [OF replay_invD(1) [OF inv]] n fits(1) replay_invD(4) [OF inv]
    by (simp add: i_def config_fits_def)
  moreover have "\<forall>x\<in>set (AList.update i e (estimates s)). map_of (bt_insert i r (reqs s)) (fst x) \<noteq> None
      \<and> est_a (snd x) \<le> B \<and> est_b (snd x) \<le> B"
  proof
    fix x assume "x \<in> set (AList.update i e (estimates s))"
    then have "x = (i, e) \<or> x \<in> set (estimates s)" using set_update_subset by fastforce
    then show "map_of (bt_insert i r (reqs s)) (fst x) \<noteq> None \<and> est_a (snd x) \<le> B \<and> est_b (snd x) \<le> B"
      using bound_invD(1) [OF bnd, of x] e(2,3) by auto
  qed
  ultimately have "bound_inv cfg B (s1\<lparr>estimates := AList.update i e (estimates s1), waitq := waitq s1 @ [i],
      arrival_idx := arrival_idx s1 + 1, rp_arrival_seq := rp_arrival_seq s1 + 1\<rparr>)"
    using bound_invD(2,3) [OF bnd] mf r(2)
    unfolding bound_inv_def by (simp add: s1_def put_req_def update_conv' del: map_of_eq_None_iff) blast
  then show ?thesis using eq by blast
qed

lemma arrive_loop_total:
  "replay_inv cfg s \<Longrightarrow> bound_inv cfg B s \<Longrightarrow> config_fits cfg B n \<Longrightarrow> \<forall>a\<in>set as. arrival_fits cfg B a \<Longrightarrow>
    arrival_idx s + length as \<le> n \<Longrightarrow> \<exists>s'. arrive_loop cfg as s = Some s' \<and> bound_inv cfg B s'"
proof (induction as arbitrary: s)
  case (Cons a as)
  obtain t where t: "arrive_one cfg a s = Some t" "bound_inv cfg B t"
    using arrive_one_total [OF Cons.prems(1-3), of a] Cons.prems(4,5) by auto
  have "arrival_idx s < 2 ^ 64" using Cons.prems(3,5) by (simp add: config_fits_def)
  from arrive_one_inv [OF Cons.prems(1) this t(1)] show ?case
    using Cons.IH [of t] t Cons.prems by auto
qed simp

lemma abort_injected_none:
  assumes inv: "replay_inv cfg s" and bnd: "bound_inv cfg B s"
  shows "abort_injected s = Some s"
proof -
  have one: "abort_one i s = Some s" if i: "map_of (reqs s) i \<noteq> None" for i
  proof -
    obtain r where r: "map_of (reqs s) i = Some r" using i by blast
    obtain m where m: "map_of (metas s) i = Some m" by (rule replay_inv_req [OF inv r])
    then show ?thesis using bound_invD(2) [OF bnd r m] by (simp add: abort_one_def meta_fits_def)
  qed
  have "\<exists>t. fold_opt abort_one (map fst (reqs s)) s = Some t \<and> t = s"
    by (rule fold_opt_total) (use one in \<open>auto simp: map_of_eq_None_iff image_iff\<close>)
  then show ?thesis by (simp add: abort_injected_def)
qed

lemma preempt_req_total:
  assumes inv: "replay_inv cfg s" and bnd: "bound_inv cfg B s" and i: "i \<in> set (decoding s)"
  shows "\<exists>s'. preempt_req i ev s = Some s'"
proof -
  obtain r where r: "map_of (reqs s) i = Some r" "rq_state r = Decode"
    using queue_invD(4) [OF replay_invD(2) [OF inv] i] bound_invD(3) [OF bnd] by blast
  then show ?thesis by (simp add: preempt_req_def preempt_def put_req_def trace_def Let_def)
qed

lemma preempt_one_total:
  assumes inv: "replay_inv cfg s" and bnd: "bound_inv cfg B s" and i: "map_of (reqs s) i \<noteq> None"
  shows "\<exists>s'. preempt_one i s = Some s'"
proof -
  obtain r where r: "map_of (reqs s) i = Some r" using i by blast
  obtain m where m: "map_of (metas s) i = Some m" by (rule replay_inv_req [OF inv r])
  have "rq_state r = Decode \<Longrightarrow> i \<in> set (decoding s)" by (rule queue_invD(6) [OF replay_invD(2) [OF inv] r])
  then show ?thesis using r m preempt_req_total [OF inv bnd] by (auto simp: preempt_one_def)
qed

lemma preempt_injected_total:
  assumes inv: "replay_inv cfg s" and bnd: "bound_inv cfg B s"
  shows "\<exists>s'. preempt_injected s = Some s' \<and> replay_inv cfg s' \<and> bound_inv cfg B s' \<and> frame UNIV s s'"
proof -
  let ?P = "\<lambda>t. replay_inv cfg t \<and> bound_inv cfg B t \<and> frame UNIV s t"
  have dec: "map_of (reqs s) i \<noteq> None" if "i \<in> set (decoding s)" for i
    using queue_invD(4) [OF replay_invD(2) [OF inv] that] by auto
  have "\<exists>t. fold_opt preempt_one (decoding s) s = Some t \<and> ?P t"
  proof (rule fold_opt_total [where P = ?P])
    fix i t assume i: "i \<in> set (decoding s)" and t: "?P t"
    have "map_of (reqs t) i \<noteq> None" using dec [OF i] t by (simp add: frame_def)
    then obtain u where u: "preempt_one i t = Some u" using preempt_one_total t by blast
    then have "replay_inv cfg u \<and> frame {i} t u" using preempt_one_inv t by blast
    then show "\<exists>u. preempt_one i t = Some u \<and> ?P u"
      using u t bound_frame frame_trans [of UNIV s t "{i}" u] by auto
  qed (use inv bnd in simp)
  then show ?thesis by (simp add: preempt_injected_def)
qed

lemma admit_one_total:
  assumes inv: "replay_inv cfg s" and bnd: "bound_inv cfg B s" and i: "i \<in> set (waitq s)" and it: "hash_order iter"
    and fits: "config_fits cfg B n" "arrival_idx s \<le> n"
  shows "\<exists>s' el'. admit_one iter cfg i (s, el) = Some (s', el') \<and> bound_inv cfg B s'"
proof -
  obtain r where r: "map_of (reqs s) i = Some r" "queued r"
    using queue_invD(3) [OF replay_invD(2) [OF inv] i] by blast
  obtain m where m: "map_of (metas s) i = Some m" "req_ok (base_seed cfg) i m r"
    by (rule replay_inv_req [OF inv r(1)])
  obtain e where e: "current_estimate cfg i s = Some e" "est_a e \<le> B" "est_b e \<le> B"
    using current_estimate_total [OF r m bound_invD(2) [OF bnd r(1) m(1)] fits(1)] by blast
  have i': "map_of (reqs s) i \<noteq> None" using r(1) by simp
  have n: "n * B \<le> u64_max" using fits(1) by (simp add: config_fits_def)
  define fc where "fc = (if rq_state r = Waiting then Some (min (sc_chunk_size cfg) (mt_prompt_len m)) else None)"
  have "\<exists>v. check_admission (AList.update i e (iter (rp_step s) (estimates s))) fc (step_first_chunk_sum s)
      (busy_now cfg s) (admission cfg) = Some v"
    by (rule check_admission_total)
      (use working_bound [OF inv bnd it i' e(2,3) fits(2), of "rp_step s"] n fits(1) in \<open>auto simp: config_fits_def\<close>)
  then obtain v where v: "check_admission (AList.update i e (iter (rp_step s) (estimates s))) fc (step_first_chunk_sum s)
      (busy_now cfg s) (admission cfg) = Some v" by blast
  have up: "\<forall>x\<in>set (AList.update i e (estimates s)). map_of (reqs s) (fst x) \<noteq> None \<and> est_a (snd x) \<le> B \<and> est_b (snd x) \<le> B"
  proof
    fix x assume "x \<in> set (AList.update i e (estimates s))"
    then have "x = (i, e) \<or> x \<in> set (estimates s)" using set_update_subset by fastforce
    then show "map_of (reqs s) (fst x) \<noteq> None \<and> est_a (snd x) \<le> B \<and> est_b (snd x) \<le> B"
      using bound_invD(1) [OF bnd, of x] e(2,3) i' by auto
  qed
  show ?thesis
    using e(1) r(1) m(1) v up bnd
    by (cases v) (auto simp: admit_one_def Let_def fc_def [symmetric] trace_def bound_inv_def)
qed

lemma admit_fold_total:
  assumes "hash_order iter" "config_fits cfg B n"
  shows "replay_inv cfg s \<Longrightarrow> bound_inv cfg B s \<Longrightarrow> set xs \<subseteq> set (waitq s) \<Longrightarrow> arrival_idx s \<le> n \<Longrightarrow>
    \<exists>s' el'. fold_opt (admit_one iter cfg) xs (s, el) = Some (s', el') \<and> bound_inv cfg B s'"
proof (induction xs arbitrary: s el)
  case (Cons i xs)
  have i: "i \<in> set (waitq s)" using Cons.prems(3) by simp
  obtain t el1 where t: "admit_one iter cfg i (s, el) = Some (t, el1)" "bound_inv cfg B t"
    using admit_one_total [OF Cons.prems(1,2) i assms Cons.prems(4)] by blast
  from admit_one_fields [OF Cons.prems(1) i t(1)] show ?case
    using Cons.IH [of t el1] t Cons.prems(3,4) by auto
qed auto

lemma preempt_fold_total:
  "replay_inv cfg s \<Longrightarrow> bound_inv cfg B s \<Longrightarrow> set xs \<subseteq> set (decoding s) \<Longrightarrow> distinct xs \<Longrightarrow>
    \<exists>s'. fold_opt (\<lambda>i. preempt_req i PreemptedEv) xs s = Some s'"
proof (induction xs arbitrary: s)
  case (Cons i xs)
  have i: "i \<in> set (decoding s)" using Cons.prems(3) by simp
  obtain t where t: "preempt_req i PreemptedEv s = Some t"
    using preempt_req_total [OF Cons.prems(1,2) i] by blast
  have p: "replay_inv cfg t \<and> frame {i} s t \<and> decoding t = filter (\<lambda>x. x \<noteq> i) (decoding s)"
    by (rule preempt_req_inv [OF Cons.prems(1) i _ t]) simp
  have "set xs \<subseteq> set (decoding t)" using p Cons.prems(3,4) by auto
  then show ?case using Cons.IH [of t] p t Cons.prems(2,4) bound_frame by auto
qed simp

lemma those_total: "(\<And>i. i \<in> set is \<Longrightarrow> f i \<noteq> None) \<Longrightarrow> \<exists>xs. those (map f is) = Some xs"
proof (induction "is")
  case (Cons i "is")
  obtain x where "f i = Some x" using Cons.prems [of i] by auto
  moreover obtain xs where "those (map f is) = Some xs" using Cons by auto
  ultimately show ?case by simp
qed simp

lemma schedule_step_total:
  assumes inv: "replay_inv cfg s" and bnd: "bound_inv cfg B s" and it: "hash_order iter"
    and fits: "config_fits cfg B n" "arrival_idx s \<le> n"
  shows "\<exists>s'. schedule_step iter cfg s = Some s' \<and> bound_inv cfg B s'"
proof -
  let ?s0 = "s\<lparr>step_first_chunk_sum := 0\<rparr>"
  have inv0: "replay_inv cfg ?s0" "bound_inv cfg B ?s0" using inv bnd by (simp_all add: replay_inv_def bound_inv_def)
  obtain s1 el where 1: "fold_opt (admit_one iter cfg) (waitq s) (?s0, []) = Some (s1, el)" "bound_inv cfg B s1"
    using admit_fold_total [OF it fits(1) inv0, of "waitq s" "[]"] fits(2) by auto
  have a: "replay_inv cfg s1 \<and> reqs s1 = reqs ?s0 \<and> metas s1 = metas ?s0 \<and> decoding s1 = decoding ?s0
    \<and> arrival_idx s1 = arrival_idx ?s0 \<and> rp_step s1 = rp_step ?s0
    \<and> distinct (map w_id el) \<and> (\<forall>w\<in>set el. view_ok s1 w \<and> max_chunk w = sc_chunk_size cfg)"
    by (rule admit_fold [OF 1(1) inv0(1)]) (use queue_invD(1) [OF replay_invD(2) [OF inv]] in simp_all)
  have inv1: "replay_inv cfg s1" using a by blast
  have "decoding_req s1 i \<noteq> None" if "i \<in> set (decoding s1)" for i
    using queue_invD(4) [OF replay_invD(2) [OF inv1] that] by (auto simp: decoding_req_def)
  then obtain ds where ds: "those (map (decoding_req s1) (decoding s1)) = Some ds"
    using those_total [of "decoding s1" "decoding_req s1"] by blast
  define sel where "sel = select_batch el ds (min (step_budget cfg) (max_total_tokens cfg - kv_usage_tokens s1))
      (kv_floor cfg) (schedule cfg)"
  have ids: "map d_id ds = decoding s1" by (rule those_ids [OF ds])
  have d: "distinct (map d_id ds)" using queue_invD(2) [OF replay_invD(2) [OF inv1]] by (simp add: ids)
  have vic: "set (sel_preempted sel) \<subseteq> set (decoding s1)" "distinct (sel_preempted sel)"
    using select_batch_victims [OF d] unfolding ids sel_def by blast+
  obtain s2 where s2: "fold_opt (\<lambda>i. preempt_req i PreemptedEv) (sel_preempted sel) s1 = Some s2"
    using preempt_fold_total [OF inv1 1(2) vic] by blast
  have b: "replay_inv cfg s2 \<and> frame (set (sel_preempted sel)) s1 s2" by (rule preempt_fold [OF s2 inv1 vic])
  have asg: "assignment_ok s2 p" if p: "p \<in> set (sel_prefill sel)" for p
  proof -
    obtain w where w: "w \<in> set el" "chunk_ok w p"
      using select_batch_assignments(2) [of el p] a p unfolding sel_def by blast
    then obtain r m where r: "map_of (reqs s1) (w_id w) = Some r" "map_of (metas s1) (w_id w) = Some m"
      "queued r" "w_cached_len w = cached_len r" "w_prompt_len w = mt_prompt_len m"
      using a by (auto simp: view_ok_def)
    then have ok: "assignment_ok s1 p" using w(2) by (auto simp: assignment_ok_def chunk_ok_def)
    have nd: "w_id w \<notin> set (decoding s1)"
      using queue_invD(4) [OF replay_invD(2) [OF inv1], of "w_id w"] r(1,3) by (auto simp: queued_def)
    have "fst p \<notin> set (sel_preempted sel)" using nd vic(1) w(2) by (auto simp: chunk_ok_def)
    then show ?thesis using assignment_ok_frame [OF _ _ ok] b by blast
  qed
  have dp: "distinct (map fst (sel_prefill sel))" using select_batch_assignments(1) a unfolding sel_def by blast
  obtain s3 where s3: "fold_opt prefill_one (sel_prefill sel) s2 = Some s3" "frame (fst ` set (sel_prefill sel)) s2 s3"
    using prefill_fold [OF _ _ dp] asg b by blast
  have "schedule_step iter cfg s = Some s3"
    using 1(1) ds s2 s3(1) unfolding schedule_step_def sel_def by simp
  moreover have "bound_inv cfg B s3" using bound_frame 1(2) b s3(2) by blast
  ultimately show ?thesis by blast
qed

lemma gen_token_total: "0 < unat (vocab cfg) \<Longrightarrow> \<exists>t. gen_token cfg seed pos = Some t"
  by (cases "gen_policy cfg") (simp_all add: gen_token_def rng_usize_def)

lemma decode_one_total:
  assumes inv: "replay_inv cfg s" and bnd: "bound_inv cfg B s" and fits: "config_fits cfg B n"
    and i: "map_of (reqs s) i \<noteq> None"
  shows "\<exists>s'. decode_one cfg i s = Some s'"
proof -
  obtain r where r: "map_of (reqs s) i = Some r" using i by blast
  obtain m where m: "map_of (metas s) i = Some m" "req_ok (base_seed cfg) i m r" by (rule replay_inv_req [OF inv r])
  show ?thesis
  proof (cases "rq_state r = Decode")
    case True
    obtain pats eos h k where ri: "req_inv pats eos r h k" using m(2) by (auto simp: req_ok_def)
    have "prompt_len r + max_output r < u64_max"
      using bound_invD(2) [OF bnd r m(1)] req_okD(4) [OF m(2) True] fits
      by (simp add: meta_fits_def config_fits_def ADDED_OUTPUT_LEN_def)
    note total = decode_step_total [OF ri True this]
    obtain tok where tok: "gen_token cfg (seed_i r) (cached_len r) = Some tok"
      using gen_token_total [of cfg] fits by (auto simp: config_fits_def)
    obtain r' ev where d: "decode_step r tok = Some (r', ev)" by (rule total)
    have "ev = DecodeConfirmed tok \<or> ev \<in> {Stopped, Eos, MaxOutput}" using decode_step_fields [OF d] by auto
    then show ?thesis using r True tok d
      by (auto simp: decode_one_def put_req_def trace_def terminal_req_def Let_def)
  qed (simp add: decode_one_def r)
qed

lemma decode_phase_total:
  assumes inv: "replay_inv cfg s" and bnd: "bound_inv cfg B s" and fits: "config_fits cfg B n"
  shows "\<exists>s'. decode_phase cfg s = Some s' \<and> bound_inv cfg B s'"
proof -
  let ?s = "s\<lparr>decoding := sort (decoding s)\<rparr>"
  have inv': "replay_inv cfg ?s"
    using inv queue_perm [of "map_of (reqs s)" "waitq s" "decoding s" "sort (decoding s)"] by (simp add: replay_inv_def)
  let ?P = "\<lambda>t. replay_inv cfg t \<and> bound_inv cfg B t \<and> frame UNIV s t"
  have dec: "map_of (reqs s) i \<noteq> None" if "i \<in> set (decoding s)" for i
    using queue_invD(4) [OF replay_invD(2) [OF inv] that] by auto
  have "\<exists>t. fold_opt (decode_one cfg) (sort (decoding s)) ?s = Some t \<and> ?P t"
  proof (rule fold_opt_total [where P = ?P])
    show "?P ?s" using inv' bnd by (simp add: bound_inv_def frame_def)
    fix i t assume i: "i \<in> set (sort (decoding s))" and t: "?P t"
    have "map_of (reqs t) i \<noteq> None" using dec i t by (simp add: frame_def)
    then obtain u where u: "decode_one cfg i t = Some u" using decode_one_total [OF _ _ fits] t by blast
    then have "replay_inv cfg u \<and> frame {i} t u" using decode_one_inv t by blast
    then show "\<exists>u. decode_one cfg i t = Some u \<and> ?P u"
      using u t bound_frame frame_trans [of UNIV s t "{i}" u] by auto
  qed
  then show ?thesis by (auto simp: decode_phase_def Let_def)
qed

lemma replay_step_total:
  assumes inv: "replay_inv cfg s" and bnd: "bound_inv cfg B s" and it: "hash_order iter"
    and fits: "config_fits cfg B (length arrivals)" "\<forall>a\<in>set arrivals. arrival_fits cfg B a"
    and len: "arrival_idx s \<le> length arrivals"
  shows "\<exists>s'. replay_step iter cfg arrivals s = Some s' \<and> bound_inv cfg B s'"
proof -
  have n: "length arrivals < 2 ^ 63" using fits(1) by (simp add: config_fits_def)
  have "\<forall>a\<in>set (drop (arrival_idx s) arrivals). arrival_fits cfg B a" using fits(2) in_set_dropD by fast
  then obtain s1 where 1: "arrive cfg arrivals s = Some s1" "bound_inv cfg B s1"
    using arrive_loop_total [OF inv bnd fits(1), of "drop (arrival_idx s) arrivals"] len by (auto simp: arrive_def)
  have a: "replay_inv cfg s1 \<and> rp_step s1 = rp_step s \<and> arrival_idx s1 \<le> length arrivals"
    using arrive_loop_inv [OF 1(1) [unfolded arrive_def] inv] len n by simp
  have 2: "abort_injected s1 = Some s1" using abort_injected_none a 1(2) by blast
  obtain s3 where 3: "preempt_injected s1 = Some s3" "replay_inv cfg s3" "bound_inv cfg B s3" "frame UNIV s1 s3"
    using preempt_injected_total a 1(2) by blast
  have l3: "arrival_idx s3 \<le> length arrivals" using 3(4) a by (simp add: frame_def)
  obtain s4 where 4: "schedule_step iter cfg s3 = Some s4" "bound_inv cfg B s4"
    using schedule_step_total [OF 3(2,3) it fits(1) l3] by blast
  have inv4: "replay_inv cfg s4" using schedule_step_inv [OF 3(2) 4(1)] by blast
  obtain s5 where 5: "decode_phase cfg s4 = Some s5" "bound_inv cfg B s5"
    using decode_phase_total [OF inv4 4(2) fits(1)] by blast
  have "replay_step iter cfg arrivals s = Some (record_high_water s5\<lparr>rp_step := rp_step (record_high_water s5) + 1\<rparr>)"
    using 1(1) 2 3(1) 4(1) 5(1) by (simp add: replay_step_def Let_def)
  moreover have "bound_inv cfg B (record_high_water s5\<lparr>rp_step := rp_step (record_high_water s5) + 1\<rparr>)"
    using 5(2) by (simp add: record_high_water_def bound_inv_def)
  ultimately show ?thesis by blast
qed

lemma replay_loop_total:
  assumes "hash_order iter" "config_fits cfg B (length arrivals)" "\<forall>a\<in>set arrivals. arrival_fits cfg B a"
  shows "replay_inv cfg s \<Longrightarrow> bound_inv cfg B s \<Longrightarrow> arrival_idx s \<le> length arrivals \<Longrightarrow>
    \<exists>s'. replay_loop n iter cfg arrivals s = Some s'"
proof (induction n arbitrary: s)
  case (Suc n)
  obtain t where t: "replay_step iter cfg arrivals s = Some t" "bound_inv cfg B t"
    using replay_step_total [OF Suc.prems(1,2) assms Suc.prems(3)] by blast
  have "length arrivals < 2 ^ 63" using assms(2) by (simp add: config_fits_def)
  from replay_step_inv [OF Suc.prems(1) this Suc.prems(3) t(1)]
  show ?case using Suc.IH [of t] t by auto
qed simp

end
