(* ===== verification/Replay_Claims.thy ===== *)
theory Replay_Claims
  imports Replay_Total
begin

text \<open>
  The properties of the scheduler pipeline, and the two ways in which it goes wrong: tokens of
  terminated requests count against the budget for ever, and an aborted request can be chosen as a
  victim of preemption.
\<close>

section \<open>A small configuration\<close>

definition small_cfg :: "nat \<Rightarrow> SchedConfig" where
  "small_cfg cap = \<lparr>base_seed = 0, vocab = 1, sc_eos_id = None, gen_policy = Greedy, step_budget = 4, kv_floor = 0,
     sc_chunk_size = 4, schedule = Fcfc, max_steps = Suc (Suc (Suc 0)), max_total_tokens = cap,
     admission = \<lparr>max_total_pages = 1000, page_size = 1, running_max_req_size = 8, batch_max_tokens = 100,
       chunked_budget_multiplier = 1, router_token_ratio = 0, cfg_max_waiting_tokens = 1\<rparr>\<rparr>"

definition small_arrival :: "nat \<Rightarrow> nat \<Rightarrow> nat \<Rightarrow> nat option \<Rightarrow> Arrival" where
  "small_arrival t p m ab = \<lparr>at_step = t, ar_prompt_len = p, ar_max_output = m, chunked = False,
     stop_patterns = [], abort_at_step = ab, preempt_at_step = None\<rparr>"

lemma small_ids: "derive 0 0 = 16294208416658607535" "derive 0 1 = 10451216379200822465"
  by (simp_all add: derive_def splitmix64_def mix_def GOLDEN_RATIO_64_def drop_bit_eq_div)

lemmas replay_eval = replay_new_def replay_step_def arrive_def arrive_one_def trace_def put_req_def
  current_estimate_def req_new_def sm_new_def estimate_def chk_add_def chk_mul_def u64_max_def sat_add_def
  sat_mul_def busy_now_def is_busy_def kv_usage_tokens_def abort_injected_def abort_one_def is_terminal_def
  preempt_injected_def preempt_one_def preempt_req_def preempt_def sm_reset_def schedule_step_def
  admit_one_def check_admission_def peak_tokens_def decoding_req_def select_batch_def prefill_one_def
  dispatch_one_def start_prefill_def cursors_valid_def confirm_one_def confirm_def is_prefilling_def
  dispatch_chunk_def decode_phase_def decode_one_def gen_token_def terminal_req_def record_high_water_def
  Let_def output_tokens_def remove_from_waiting_def remove_from_decoding_def add_to_decoding_def
  small_cfg_def small_arrival_def ADDED_OUTPUT_LEN_def order_waiting_def order_victims_def fcfs_key_def
  victim_key_def decode_step_def sm_push_def abort_def arm_release_def set_done_def take_release_def
  small_ids is_finished_def

text \<open>One request that ends with its first token, at a capacity of two tokens; a second one after it.\<close>

definition small_run :: "ReplayOutcome option" where
  "small_run = replay (\<lambda>n xs. xs) (small_cfg 2) [small_arrival 0 1 0 None, small_arrival 1 1 0 None]"

lemma small_run_eval: "\<exists>out. small_run = Some out \<and> out_steps out = 3 \<and> total_dispatched out = 2 \<and> total_returned out = 2
    \<and> finals out = [(10451216379200822465, Waiting, 0, 0), (16294208416658607535, Done, 1, 2)]"
  by (simp add: small_run_def replay_def replay_outcome_def replay_eval)

section \<open>Properties\<close>

text \<open>
  C37: The outcome of a replay does not depend on the iteration order of the hash map of estimates,
  whatever that order is and however it changes between steps: the trace, the final cursors, the
  counters and the panics are the same. Two replays of the same configuration and arrivals are
  therefore identical.
\<close>

theorem replay_order_independent:
  assumes "hash_order it" "hash_order it'" "length arrivals < 2 ^ 63"
  shows "replay it cfg arrivals = replay it' cfg arrivals"
  unfolding replay_def
proof (rule bind_cong_Some)
  fix s assume "replay_new arrivals = Some s"
  from replay_inv_new [OF this, of cfg]
  show "replay_loop (max_steps cfg) it cfg arrivals s \<bind> (\<lambda>s. Some (replay_outcome s))
      = replay_loop (max_steps cfg) it' cfg arrivals s \<bind> (\<lambda>s. Some (replay_outcome s))"
    using replay_loop_order [OF assms, of cfg s "max_steps cfg"] by simp
qed

theorem replay_order_independent_witness:
  "small_run = replay (\<lambda>n. rev) (small_cfg 2) [small_arrival 0 1 0 None, small_arrival 1 1 0 None]"
  unfolding small_run_def by (rule replay_order_independent) (simp_all add: hash_order_def)

definition held_tokens :: "ReplayOutcome \<Rightarrow> nat" where
  "held_tokens out = sum_list (map (\<lambda>(i, st, c, d). if st = Done \<or> st = Aborted then 0 else d) (finals out))"

text \<open>
  C38: Tokens are conserved: in every outcome the tokens dispatched are the tokens returned plus those
  the unfinished requests still hold, so they are equal once every request has ended; and a run that
  stops before its step limit has ended every request.
\<close>

theorem replay_accounting:
  assumes "replay iter cfg arrivals = Some out" "length arrivals < 2 ^ 63"
  shows "total_dispatched out = total_returned out + held_tokens out \<and> out_steps out \<le> max_steps cfg
    \<and> (out_steps out < max_steps cfg \<longrightarrow>
        (\<forall>f\<in>set (finals out). fst (snd f) = Done \<or> fst (snd f) = Aborted) \<and> held_tokens out = 0)"
proof -
  obtain s where s: "replay_inv cfg s" "out = replay_outcome s" "rp_step s \<le> max_steps cfg"
    "rp_step s = max_steps cfg \<or> (arrival_idx s = length arrivals \<and> is_finished s)"
    by (rule replay_reach [OF assms])
  have held: "held_tokens out = bt_sum live_len (reqs s)"
    by (simp add: held_tokens_def s(2) replay_outcome_def bt_sum_def live_len_def is_terminal_def comp_def
        case_prod_unfold cong: if_cong)
  have acc: "total_dispatched out = total_returned out + held_tokens out"
    using core_invD(3) [OF replay_invD(1) [OF s(1)]] by (simp add: held) (simp add: s(2) replay_outcome_def)
  have steps: "out_steps out = rp_step s" by (simp add: s(2) replay_outcome_def)
  have all: "\<forall>f\<in>set (finals out). fst (snd f) = Done \<or> fst (snd f) = Aborted" if "is_finished s"
    using that by (auto simp: s(2) replay_outcome_def is_finished_def list_all_iff is_terminal_def)
  have "held_tokens out = 0" if "\<forall>f\<in>set (finals out). fst (snd f) = Done \<or> fst (snd f) = Aborted"
    using that by (auto simp: held_tokens_def)
  then show ?thesis using acc steps s(3,4) all by fastforce
qed

theorem replay_accounting_witness:
  "\<exists>out. small_run = Some out \<and> total_dispatched out = total_returned out + held_tokens out"
proof -
  obtain out where "small_run = Some out" using small_run_eval by blast
  then show ?thesis using replay_accounting [of "\<lambda>n xs. xs" "small_cfg 2"] by (auto simp: small_run_def)
qed

text \<open>
  Requests do not influence each other's output: every token of a trace is the one the policy
  draws from the seed of its request at its position, so whatever else arrives, is aborted or
  preempted, two replays of a configuration give a request the same token at the same position.
\<close>

theorem replay_tokens_isolated:
  assumes "replay it cfg arrivals = Some out" "length arrivals < 2 ^ 63"
    and "replay it' cfg arrivals' = Some out'" "length arrivals' < 2 ^ 63"
    and "e \<in> set (out_trace out)" "te_event e = DecodeTokenEv t"
    and "e' \<in> set (out_trace out')" "te_event e' = DecodeTokenEv t'"
    and "te_req e = te_req e'" "te_cached_len e = te_cached_len e'"
  shows "t = t' \<and> gen_token cfg (splitmix64 (base_seed cfg XOR te_req e)) (te_cached_len e - 1) = Some t"
proof -
  have tok: "gen_token cfg (splitmix64 (base_seed cfg XOR te_req e)) (te_cached_len e - 1) = Some t"
    if r: "replay it cfg arrivals = Some out" "length arrivals < 2 ^ 63" and
      e: "e \<in> set (out_trace out)" "te_event e = DecodeTokenEv t" for it arrivals out e t
  proof -
    obtain s where s: "replay_inv cfg s" "out = replay_outcome s" by (rule replay_reach [OF r])
    have "tokens_ok cfg (out_trace out)" using replay_invD(5) [OF s(1)] by (simp add: s(2) replay_outcome_def)
    then show ?thesis using e by (auto simp: tokens_ok_def)
  qed
  show ?thesis using tok [OF assms(1,2,5,6)] tok [OF assms(3,4,7,8)] assms(9,10) by simp
qed

definition small_token :: "TraceEntry" where
  "small_token = \<lparr>te_step = 0, te_req = 16294208416658607535, te_event = DecodeTokenEv 0,
     te_cached_len = 2, te_device_len = 2\<rparr>"

lemma small_token_runs:
  "\<exists>out. replay (\<lambda>n xs. xs) (small_cfg 9) [small_arrival 0 1 1 None] = Some out \<and> small_token \<in> set (out_trace out)"
  "\<exists>out. replay (\<lambda>n xs. xs) (small_cfg 9) [small_arrival 0 1 1 None, small_arrival 0 1 1 (Some 1)] = Some out
    \<and> small_token \<in> set (out_trace out)"
  by (simp_all add: small_token_def replay_def replay_outcome_def replay_eval)

theorem replay_tokens_isolated_witness:
  "gen_token (small_cfg 9) (splitmix64 16294208416658607535) 1 = Some 0"
proof -
  obtain out out' where o: "replay (\<lambda>n xs. xs) (small_cfg 9) [small_arrival 0 1 1 None] = Some out"
    "replay (\<lambda>n xs. xs) (small_cfg 9) [small_arrival 0 1 1 None, small_arrival 0 1 1 (Some 1)] = Some out'"
    "small_token \<in> set (out_trace out)" "small_token \<in> set (out_trace out')"
    using small_token_runs by blast
  have t: "te_event small_token = DecodeTokenEv 0" by (simp add: small_token_def)
  have "gen_token (small_cfg 9) (splitmix64 (base_seed (small_cfg 9) XOR te_req small_token)) (te_cached_len small_token - 1) = Some 0"
    using replay_tokens_isolated [OF o(1) _ o(2) _ o(3) t o(4) t] by simp
  then show ?thesis by (simp add: small_token_def small_cfg_def)
qed

text \<open>
  C39: A replay does not panic: with arrivals in the order of their steps and none of them aborted, a
  non-empty vocabulary, and a bound \<open>B\<close> on the estimate of each request whose multiple by the number
  of arrivals fits in 64 bits, every assertion, \<open>expect\<close> and checked sum of the pipeline
  succeeds and the replay returns within its step limit.
\<close>

theorem replay_returns:
  assumes "sorted (map at_step arrivals)" "\<forall>a\<in>set arrivals. arrival_fits cfg B a"
    and "config_fits cfg B (length arrivals)" "hash_order iter"
  shows "\<exists>out. replay iter cfg arrivals = Some out \<and> out_steps out \<le> max_steps cfg"
proof -
  obtain s0 where s0: "replay_new arrivals = Some s0" using assms(1) by (simp add: replay_new_def)
  note n = replay_inv_new [OF s0, of cfg]
  have b: "bound_inv cfg B s0" using s0 by (auto simp: replay_new_def bound_inv_def split: if_splits)
  obtain s where s: "replay_loop (max_steps cfg) iter cfg arrivals s0 = Some s"
    using replay_loop_total [OF assms(4,3,2) _ b] n by auto
  have len: "length arrivals < 2 ^ 63" using assms(3) by (simp add: config_fits_def)
  have "rp_step s \<le> rp_step s0 + max_steps cfg" using replay_loop_inv [OF s _ len] n by auto
  then show ?thesis using s0 s n by (simp add: replay_def replay_outcome_def)
qed

theorem replay_returns_witness:
  "\<exists>out. replay (\<lambda>n. rev) (small_cfg 9) [small_arrival 0 3 5 None, small_arrival 2 100 7 None] = Some out
    \<and> out_steps out \<le> max_steps (small_cfg 9)"
  by (rule replay_returns [of _ _ 1000])
    (simp_all add: small_arrival_def small_cfg_def arrival_fits_def config_fits_def hash_order_def
      ADDED_OUTPUT_LEN_def u64_max_def)

text \<open>
  An injected abort can make the pipeline panic: aborting a decoding request leaves it in the list
  of decoding requests, where it can be chosen as a victim, whose preemption is then not a legal
  transition.
\<close>

theorem replay_abort_panics:
  "replay (\<lambda>n xs. xs) (small_cfg 3) [small_arrival 0 2 9 (Some 1)] = None"
  by (simp add: replay_def replay_eval)

section \<open>Starvation\<close>

definition dead_len :: "Req \<Rightarrow> nat" where
  "dead_len r = (if is_terminal r then device_len r else 0)"

definition terminated_len :: "Replay \<Rightarrow> nat" where
  "terminated_len s = bt_sum dead_len (reqs s)"

lemma terminated_le_usage: "terminated_len s \<le> kv_usage_tokens s"
proof -
  have "bt_sum dead_len xs \<le> sum_list (map (\<lambda>(i, r). device_len r) xs)" for xs :: "(u64 \<times> Req) list"
    by (induction xs) (auto simp: dead_len_def)
  then show ?thesis by (simp add: terminated_len_def kv_usage_tokens_def)
qed

lemma dead_put:
  assumes "sorted_wrt (<) (map fst rs)" "map_of rs i = Some r" "\<not> is_terminal r"
  shows "bt_sum dead_len rs \<le> bt_sum dead_len (bt_insert i r' rs)"
  using bt_sum_insert_old [OF assms(1,2), of dead_len r'] assms(3) by (simp add: dead_len_def)

text \<open>Until the decode phase, no operation dispatches a token except the prefill assignments.\<close>

definition idle :: "Replay \<Rightarrow> Replay \<Rightarrow> bool" where
  "idle s s' \<longleftrightarrow> dispatched s' = dispatched s \<and> terminated_len s \<le> terminated_len s'"

lemma idle_refl [simp]: "idle s s"
  by (simp add: idle_def)

lemma idle_trans: "idle s t \<Longrightarrow> idle t u \<Longrightarrow> idle s u"
  by (simp add: idle_def)

lemma arrive_one_idle:
  assumes inv: "replay_inv cfg s" and n: "arrival_idx s < 2 ^ 64" and op: "arrive_one cfg a s = Some s'"
  shows "idle s s'"
proof -
  define i where "i = derive (base_seed cfg) (rp_arrival_seq s)"
  define r where "r = req_new i (base_seed cfg) (rp_arrival_seq s) (stop_patterns a) (sc_eos_id cfg)"
  have s': "reqs s' = bt_insert i r (reqs s)" "dispatched s' = dispatched s"
    using op unfolding arrive_one_def Let_def i_def [symmetric] r_def [symmetric]
    by (auto simp: bind_eq_Some_conv put_req_def)
  have "map_of (reqs s) i = None"
    using core_fresh [OF replay_invD(1) [OF inv] n] replay_invD(4) [OF inv] by (simp add: i_def)
  then show ?thesis by (simp add: idle_def terminated_len_def s' bt_sum_insert_new)
qed

lemma arrive_loop_idle:
  "arrive_loop cfg as s = Some s' \<Longrightarrow> replay_inv cfg s \<Longrightarrow> arrival_idx s + length as < 2 ^ 64 \<Longrightarrow> idle s s'"
proof (induction as arbitrary: s)
  case (Cons a as)
  show ?case
  proof (cases "at_step a \<le> rp_step s")
    case True
    then obtain t where t: "arrive_one cfg a s = Some t" "arrive_loop cfg as t = Some s'"
      using Cons.prems(1) by (auto simp: bind_eq_Some_conv)
    have n: "arrival_idx s < 2 ^ 64" using Cons.prems(3) by simp
    from arrive_one_inv [OF Cons.prems(2) n t(1)] show ?thesis
      using Cons.IH [OF t(2)] Cons.prems(3) idle_trans [OF arrive_one_idle [OF Cons.prems(2) n t(1)]] by simp
  qed (use Cons.prems in simp)
qed simp

lemma abort_one_idle:
  assumes inv: "replay_inv cfg s" and op: "abort_one i s = Some s'"
  shows "idle s s'"
proof -
  have "s' = s \<or> (\<exists>r. map_of (reqs s) i = Some r \<and> \<not> is_terminal r
      \<and> reqs s' = bt_insert i (fst (abort r)) (reqs s) \<and> dispatched s' = dispatched s)"
    using op unfolding abort_one_def Let_def
    by (auto simp: bind_eq_Some_conv put_req_def remove_from_waiting_def split: if_splits)
  then show ?thesis
    using dead_put [OF core_invD(1) [OF replay_invD(1) [OF inv]]] by (auto simp: idle_def terminated_len_def)
qed

lemma preempt_req_idle:
  assumes inv: "replay_inv cfg s" and op: "preempt_req i ev s = Some s'"
  shows "idle s s'"
proof -
  have "\<exists>r r'. map_of (reqs s) i = Some r \<and> preempt r = Ok r'
      \<and> reqs s' = bt_insert i r' (reqs s) \<and> dispatched s' = dispatched s"
    using op unfolding preempt_req_def Let_def
    by (auto simp: bind_eq_Some_conv put_req_def remove_from_decoding_def)
  moreover have "\<not> is_terminal r" if "preempt r = Ok r'" for r r'
    using that by (auto simp: preempt_def is_terminal_def split: if_splits)
  ultimately show ?thesis
    using dead_put [OF core_invD(1) [OF replay_invD(1) [OF inv]]] by (auto simp: idle_def terminated_len_def)
qed

lemma preempt_one_idle:
  assumes "replay_inv cfg s" "preempt_one i s = Some s'"
  shows "idle s s'"
  using assms(2) preempt_req_idle [OF assms(1)]
  by (auto simp: preempt_one_def bind_eq_Some_conv split: if_splits)

lemma preempt_fold_idle:
  "fold_opt (\<lambda>i. preempt_req i PreemptedEv) xs s = Some s' \<Longrightarrow> replay_inv cfg s \<Longrightarrow> set xs = set (decoding s) \<Longrightarrow>
    distinct xs \<Longrightarrow> idle s s' \<and> decoding s' = []"
proof (induction xs arbitrary: s)
  case (Cons i xs)
  obtain t where t: "preempt_req i PreemptedEv s = Some t" "fold_opt (\<lambda>i. preempt_req i PreemptedEv) xs t = Some s'"
    using Cons.prems(1) by (auto simp: bind_eq_Some_conv)
  have p: "replay_inv cfg t \<and> frame {i} s t \<and> decoding t = filter (\<lambda>x. x \<noteq> i) (decoding s)"
    by (rule preempt_req_inv [OF Cons.prems(2) _ _ t(1)]) (use Cons.prems(3) in auto)
  have "set xs = set (decoding t)" using p Cons.prems(3,4) by auto
  then have "idle t s' \<and> decoding s' = []" using Cons.IH [OF t(2)] p Cons.prems(4) by simp
  then show ?case using idle_trans [OF preempt_req_idle [OF Cons.prems(2) t(1)]] by simp
qed simp

lemma admit_fold_dispatched:
  "fold_opt (admit_one iter cfg) xs (s, el) = Some (s', el') \<Longrightarrow> dispatched s' = dispatched s"
proof (induction xs arbitrary: s el)
  case (Cons i xs)
  obtain t el1 where t: "admit_one iter cfg i (s, el) = Some (t, el1)" "fold_opt (admit_one iter cfg) xs (t, el1) = Some (s', el')"
    using Cons.prems by (auto simp: bind_eq_Some_conv)
  have "dispatched t = dispatched s"
    using t(1) by (auto simp: admit_one_def Let_def bind_eq_Some_conv split: AdmissionVerdict.split_asm)
      (metis AdmissionVerdict.exhaust)
  then show ?case using Cons.IH [OF t(2)] by simp
qed simp

lemma schedule_step_idle:
  assumes inv: "replay_inv cfg s" and full: "max_total_tokens cfg \<le> terminated_len s"
    and op: "schedule_step iter cfg s = Some s'"
  shows "idle s s' \<and> decoding s' = []"
proof -
  let ?s0 = "s\<lparr>step_first_chunk_sum := 0\<rparr>"
  obtain s1 el ds s2 where
    1: "fold_opt (admit_one iter cfg) (waitq s) (?s0, []) = Some (s1, el)" and
    2: "those (map (decoding_req s1) (decoding s1)) = Some ds" and
    3: "fold_opt (\<lambda>i. preempt_req i PreemptedEv) (sel_preempted (select_batch el ds
          (min (step_budget cfg) (max_total_tokens cfg - kv_usage_tokens s1)) (kv_floor cfg) (schedule cfg))) s1 = Some s2" and
    4: "fold_opt prefill_one (sel_prefill (select_batch el ds
          (min (step_budget cfg) (max_total_tokens cfg - kv_usage_tokens s1)) (kv_floor cfg) (schedule cfg))) s2 = Some s'"
    using op unfolding schedule_step_def Let_def by (auto simp: bind_eq_Some_conv)
  have inv0: "replay_inv cfg ?s0" using inv by (simp add: replay_inv_def)
  have a: "replay_inv cfg s1 \<and> reqs s1 = reqs ?s0 \<and> metas s1 = metas ?s0 \<and> decoding s1 = decoding ?s0
    \<and> arrival_idx s1 = arrival_idx ?s0 \<and> rp_step s1 = rp_step ?s0
    \<and> distinct (map w_id el) \<and> (\<forall>w\<in>set el. view_ok s1 w \<and> max_chunk w = sc_chunk_size cfg)"
    by (rule admit_fold [OF 1 inv0]) (use queue_invD(1) [OF replay_invD(2) [OF inv]] in simp_all)
  have inv1: "replay_inv cfg s1" using a by blast
  have t1: "idle s s1" using a admit_fold_dispatched [OF 1] by (simp add: idle_def terminated_len_def)
  then have zero: "min (step_budget cfg) (max_total_tokens cfg - kv_usage_tokens s1) = 0"
    using full terminated_le_usage [of s1] by (simp add: idle_def)
  have ids: "map d_id ds = decoding s1" by (rule those_ids [OF 2])
  have d: "distinct (map d_id ds)" using queue_invD(2) [OF replay_invD(2) [OF inv1]] by (simp add: ids)
  have ids': "d_id ` set ds = set (decoding s1)" using arg_cong [OF ids, of set] by simp
  have "idle s1 s2 \<and> decoding s2 = []"
    by (rule preempt_fold_idle [OF 3 inv1])
      (use select_batch_no_budget(1) select_batch_victims(1) [OF d] ids' in \<open>simp_all add: zero\<close>)
  moreover have "s' = s2" using 4 by (simp add: zero select_batch_no_budget(2))
  ultimately show ?thesis using idle_trans [OF t1] by blast
qed

lemma replay_step_idle:
  assumes inv: "replay_inv cfg s" and len: "length arrivals < 2 ^ 63" "arrival_idx s \<le> length arrivals"
    and full: "max_total_tokens cfg \<le> terminated_len s" and op: "replay_step iter cfg arrivals s = Some s'"
  shows "idle s s'"
proof -
  obtain s1 s2 s3 s4 s5 where
    1: "arrive cfg arrivals s = Some s1" and 2: "abort_injected s1 = Some s2" and
    3: "preempt_injected s2 = Some s3" and 4: "schedule_step iter cfg s3 = Some s4" and
    5: "decode_phase cfg s4 = Some s5" and s': "s' = record_high_water s5\<lparr>rp_step := rp_step s5 + 1\<rparr>"
    using op unfolding replay_step_def Let_def
    by (auto simp: bind_eq_Some_conv record_high_water_def)
  have inv1: "replay_inv cfg s1" using arrive_loop_inv [OF 1 [unfolded arrive_def] inv] len by simp
  have a: "idle s s1" using arrive_loop_idle [OF 1 [unfolded arrive_def] inv] len by simp
  let ?P = "\<lambda>t. replay_inv cfg t \<and> idle s t"
  have b: "?P s2"
    by (rule fold_opt_inv [OF 2 [unfolded abort_injected_def], where P = ?P])
      (use a inv1 abort_one_inv abort_one_idle idle_trans in blast)+
  have c: "?P s3"
    by (rule fold_opt_inv [OF 3 [unfolded preempt_injected_def], where P = ?P])
      (use b preempt_one_inv preempt_one_idle idle_trans in blast)+
  have d: "idle s3 s4 \<and> decoding s4 = []"
    by (rule schedule_step_idle [OF _ _ 4]) (use c full in \<open>simp_all add: idle_def\<close>)
  have "s5 = s4\<lparr>decoding := []\<rparr>" using 5 d by (simp add: decode_phase_def)
  then show ?thesis using c d by (simp add: s' idle_def record_high_water_def terminated_len_def)
qed

text \<open>
  Terminated requests starve the rest: the token budget of a step counts the tokens of requests
  that have ended, which are never removed from the table. Once those reach the capacity, no token
  is ever dispatched again, however long the pipeline runs: every decoding request is preempted and
  no waiting request is prefilled, although the pool holds nothing.
\<close>

theorem replay_starves:
  assumes "replay_new arrivals = Some s0" "length arrivals < 2 ^ 63"
    and "replay_loop k iter cfg arrivals s0 = Some s" "max_total_tokens cfg \<le> terminated_len s"
    and "replay_loop n iter cfg arrivals s = Some s'"
  shows "dispatched s' = dispatched s"
proof -
  have "replay_inv cfg s \<and> arrival_idx s \<le> length arrivals"
    using replay_loop_inv [OF assms(3) _ assms(2)] replay_inv_new [OF assms(1), of cfg] by simp
  then have "replay_inv cfg s" "arrival_idx s \<le> length arrivals" by simp_all
  then show ?thesis using assms(4,5)
  proof (induction n arbitrary: s)
    case (Suc n)
    show ?case
    proof (cases "arrival_idx s < length arrivals \<or> \<not> is_finished s")
      case True
      then obtain t where t: "replay_step iter cfg arrivals s = Some t" "replay_loop n iter cfg arrivals t = Some s'"
        using Suc.prems(4) by (auto simp: bind_eq_Some_conv)
      have "idle s t" by (rule replay_step_idle [OF Suc.prems(1) assms(2) Suc.prems(2,3) t(1)])
      then show ?thesis
        using Suc.IH [of t] t(2) replay_step_inv [OF Suc.prems(1) assms(2) Suc.prems(2) t(1)] Suc.prems(3)
        by (simp add: idle_def)
    qed (use Suc.prems(4) in simp)
  qed simp
qed

text \<open>The second request of the small run needs two tokens of an empty pool and never gets one.\<close>

definition small_loop :: "nat \<Rightarrow> Replay option" where
  "small_loop n = Option.bind (replay_new [small_arrival 0 1 0 None, small_arrival 1 1 0 None])
     (replay_loop n (\<lambda>n xs. xs) (small_cfg 2) [small_arrival 0 1 0 None, small_arrival 1 1 0 None])"

lemma small_loop_full: "\<exists>s. small_loop (Suc 0) = Some s \<and> terminated_len s = 2 \<and> dispatched s = 2"
  by (simp add: small_loop_def replay_eval terminated_len_def bt_sum_def dead_len_def)

lemma small_loop_more:
  "\<exists>s s'. small_loop (Suc 0) = Some s \<and> replay_loop (Suc (Suc 0)) (\<lambda>n xs. xs) (small_cfg 2)
    [small_arrival 0 1 0 None, small_arrival 1 1 0 None] s = Some s' \<and> waitq s' \<noteq> []"
  by (simp add: small_loop_def replay_eval)

theorem replay_starves_witness:
  "\<exists>s s'. small_loop (Suc 0) = Some s \<and> replay_loop (Suc (Suc 0)) (\<lambda>n xs. xs) (small_cfg 2)
    [small_arrival 0 1 0 None, small_arrival 1 1 0 None] s = Some s' \<and> waitq s' \<noteq> [] \<and> dispatched s' = dispatched s"
proof -
  let ?as = "[small_arrival 0 1 0 None, small_arrival 1 1 0 None]"
  obtain s s' where s: "small_loop (Suc 0) = Some s" "waitq s' \<noteq> []"
    "replay_loop (Suc (Suc 0)) (\<lambda>n xs. xs) (small_cfg 2) ?as s = Some s'" using small_loop_more by blast
  obtain s0 where s0: "replay_new ?as = Some s0" "replay_loop (Suc 0) (\<lambda>n xs. xs) (small_cfg 2) ?as s0 = Some s"
    using s(1) unfolding small_loop_def bind_eq_Some_conv by blast
  have "max_total_tokens (small_cfg 2) \<le> terminated_len s"
    using small_loop_full s(1) by (simp add: small_cfg_def)
  then have "dispatched s' = dispatched s" using replay_starves [OF s0(1) _ s0(2) _ s(3)] by simp
  then show ?thesis using s by blast
qed

end
