(* ===== verification/Gguf_Schema.thy ===== *)
theory Gguf_Schema
  imports Prelude
begin

text \<open>
  The types of the GGUF file format (\<^verbatim>\<open>crates/gguf/src/schema.rs\<close>): tensor data types with
  their codes and sizes, metadata values, tensor descriptions and errors.

  A \<^verbatim>\<open>String\<close> is the list of its UTF-8 bytes; the fixed texts inside errors are HOL strings.
  Values read from the file keep their width as words: the signed integers are the words read
  by \<^const>\<open>sint\<close> (\<^verbatim>\<open>as i8\<close> keeps the bits), the floating-point values are their bit patterns.
  Codes, counts, dimensions and offsets are \<^typ>\<open>nat\<close>, with the checks of the code against
  the largest \<^verbatim>\<open>u64\<close>.
\<close>

type_synonym u8 = "8 word"
type_synonym str = "8 word list"

section \<open>Data types of tensors\<close>

definition GGUF_ALIGNMENT :: nat where "GGUF_ALIGNMENT = 32"

definition HEADER_SIZE :: nat where "HEADER_SIZE = 24"

datatype GgufDtype =
    D_F32 | D_F16 | D_Q4_0 | D_Q4_1 | D_Q5_0 | D_Q5_1 | D_Q8_0 | D_Q8_1 | D_Q2_K | D_Q3_K
  | D_Q4_K | D_Q5_K | D_Q6_K | D_Q8_K | D_I8 | D_I16 | D_I32 | D_IQ2_XXS | D_IQ2_XS
  | D_IQ3_XXS | D_IQ1_S | D_IQ4_NL | D_IQ3_S | D_IQ2_S | D_IQ4_XS | D_I64 | D_BF16 | D_IQ1_M
  | D_IQ4_L | D_F64 | D_IQ2_M | D_IQ3_M | D_IQ3_XS | D_IQ1_SN | D_Other nat

text \<open>\<^verbatim>\<open>GgufDtype::from_code\<close>: the match of the code as a table, unknown codes kept.\<close>

definition dtype_codes :: "(nat \<times> GgufDtype) list" where
  "dtype_codes =
  [(0, D_F32), (1, D_F16), (2, D_Q4_0), (3, D_Q4_1), (6, D_Q5_0), (7, D_Q5_1), (8, D_Q8_0)
   , (9, D_Q8_1), (10, D_Q2_K), (11, D_Q3_K), (12, D_Q4_K), (13, D_Q5_K), (14, D_Q6_K)
   , (15, D_Q8_K), (16, D_I8), (17, D_I16), (18, D_I32), (19, D_IQ2_XXS), (20, D_IQ2_XS)
   , (21, D_IQ3_XXS), (22, D_IQ1_S), (23, D_IQ4_NL), (24, D_IQ3_S), (25, D_IQ2_S)
   , (26, D_IQ4_XS), (27, D_I64), (28, D_BF16), (29, D_IQ1_M), (30, D_IQ4_L), (31, D_F64)
   , (32, D_IQ2_M), (33, D_IQ3_M), (34, D_IQ3_XS), (35, D_IQ1_SN)]"

definition from_code :: "nat \<Rightarrow> GgufDtype" where
  "from_code code = (case map_of dtype_codes code of Some d \<Rightarrow> d | None \<Rightarrow> D_Other code)"

fun type_code :: "GgufDtype \<Rightarrow> nat" where
  "type_code D_F32 = 0"
| "type_code D_F16 = 1"
| "type_code D_Q4_0 = 2"
| "type_code D_Q4_1 = 3"
| "type_code D_Q5_0 = 6"
| "type_code D_Q5_1 = 7"
| "type_code D_Q8_0 = 8"
| "type_code D_Q8_1 = 9"
| "type_code D_Q2_K = 10"
| "type_code D_Q3_K = 11"
| "type_code D_Q4_K = 12"
| "type_code D_Q5_K = 13"
| "type_code D_Q6_K = 14"
| "type_code D_Q8_K = 15"
| "type_code D_I8 = 16"
| "type_code D_I16 = 17"
| "type_code D_I32 = 18"
| "type_code D_IQ2_XXS = 19"
| "type_code D_IQ2_XS = 20"
| "type_code D_IQ3_XXS = 21"
| "type_code D_IQ1_S = 22"
| "type_code D_IQ4_NL = 23"
| "type_code D_IQ3_S = 24"
| "type_code D_IQ2_S = 25"
| "type_code D_IQ4_XS = 26"
| "type_code D_I64 = 27"
| "type_code D_BF16 = 28"
| "type_code D_IQ1_M = 29"
| "type_code D_IQ4_L = 30"
| "type_code D_F64 = 31"
| "type_code D_IQ2_M = 32"
| "type_code D_IQ3_M = 33"
| "type_code D_IQ3_XS = 34"
| "type_code D_IQ1_SN = 35"
| "type_code (D_Other c) = c"

fun dtype_name :: "GgufDtype \<Rightarrow> string" where
  "dtype_name D_F32 = ''f32''"
| "dtype_name D_F16 = ''f16''"
| "dtype_name D_Q4_0 = ''q4_0''"
| "dtype_name D_Q4_1 = ''q4_1''"
| "dtype_name D_Q5_0 = ''q5_0''"
| "dtype_name D_Q5_1 = ''q5_1''"
| "dtype_name D_Q8_0 = ''q8_0''"
| "dtype_name D_Q8_1 = ''q8_1''"
| "dtype_name D_Q2_K = ''q2_k''"
| "dtype_name D_Q3_K = ''q3_k''"
| "dtype_name D_Q4_K = ''q4_k''"
| "dtype_name D_Q5_K = ''q5_k''"
| "dtype_name D_Q6_K = ''q6_k''"
| "dtype_name D_Q8_K = ''q8_k''"
| "dtype_name D_I8 = ''i8''"
| "dtype_name D_I16 = ''i16''"
| "dtype_name D_I32 = ''i32''"
| "dtype_name D_IQ2_XXS = ''iq2_xxs''"
| "dtype_name D_IQ2_XS = ''iq2_xs''"
| "dtype_name D_IQ3_XXS = ''iq3_xxs''"
| "dtype_name D_IQ1_S = ''iq1_s''"
| "dtype_name D_IQ4_NL = ''iq4_nl''"
| "dtype_name D_IQ3_S = ''iq3_s''"
| "dtype_name D_IQ2_S = ''iq2_s''"
| "dtype_name D_IQ4_XS = ''iq4_xs''"
| "dtype_name D_I64 = ''i64''"
| "dtype_name D_BF16 = ''bf16''"
| "dtype_name D_IQ1_M = ''iq1_m''"
| "dtype_name D_IQ4_L = ''iq4_l''"
| "dtype_name D_F64 = ''f64''"
| "dtype_name D_IQ2_M = ''iq2_m''"
| "dtype_name D_IQ3_M = ''iq3_m''"
| "dtype_name D_IQ3_XS = ''iq3_xs''"
| "dtype_name D_IQ1_SN = ''iq1_sn''"
| "dtype_name (D_Other c) = ''unknown''"

definition size_known :: "GgufDtype \<Rightarrow> bool" where
  "size_known d \<longleftrightarrow> d \<in> {D_F32, D_F16, D_Q4_0, D_Q4_1, D_Q5_0, D_Q5_1, D_Q8_0, D_Q8_1,
     D_I8, D_I16, D_I32, D_I64, D_BF16, D_F64}"

text \<open>\<^verbatim>\<open>size_bytes\<close>: the closure \<^verbatim>\<open>block\<close> first, then the match.\<close>

definition block_size :: "nat \<Rightarrow> nat \<Rightarrow> nat \<Rightarrow> nat option" where
  "block_size n block_elems block_bytes =
     (if n mod block_elems \<noteq> 0 then None else chk_mul (n div block_elems) block_bytes)"

fun size_bytes :: "GgufDtype \<Rightarrow> nat \<Rightarrow> nat option" where
  "size_bytes D_F32 n = chk_mul n 4"
| "size_bytes D_F16 n = chk_mul n 2"
| "size_bytes D_BF16 n = chk_mul n 2"
| "size_bytes D_F64 n = chk_mul n 8"
| "size_bytes D_I8 n = chk_mul n 1"
| "size_bytes D_I16 n = chk_mul n 2"
| "size_bytes D_I32 n = chk_mul n 4"
| "size_bytes D_I64 n = chk_mul n 8"
| "size_bytes D_Q4_0 n = block_size n 32 18"
| "size_bytes D_Q4_1 n = block_size n 32 20"
| "size_bytes D_Q5_0 n = block_size n 32 22"
| "size_bytes D_Q5_1 n = block_size n 32 24"
| "size_bytes D_Q8_0 n = block_size n 32 34"
| "size_bytes D_Q8_1 n = block_size n 32 36"
| "size_bytes _ n = None"

section \<open>Metadata values\<close>

datatype ArrayValue =
    A_U8 "u8 list" | A_I8 "u8 list" | A_U16 "16 word list" | A_I16 "16 word list"
  | A_U32 "32 word list" | A_I32 "32 word list" | A_F32 "32 word list" | A_Bool "bool list"
  | A_Str "str list" | A_U64 "64 word list" | A_I64 "64 word list" | A_F64 "64 word list"
  | A_Nested "ArrayValue list"

datatype MetaValue =
    M_U8 u8 | M_I8 u8 | M_U16 "16 word" | M_I16 "16 word" | M_U32 "32 word" | M_I32 "32 word"
  | M_F32 "32 word" | M_Bool bool | M_Str str | M_Array ArrayValue | M_U64 "64 word"
  | M_I64 "64 word" | M_F64 "64 word"

section \<open>Tensor descriptions and errors\<close>

record GgufTensor =
  t_name :: str
  t_shape :: "nat list"
  t_dtype :: GgufDtype
  t_offset :: nat
  t_length :: nat

definition element_count :: "GgufTensor \<Rightarrow> nat option" where
  "element_count t = fold_opt (\<lambda>d acc. chk_mul acc d) (t_shape t) 1"

definition offset_aligned :: "GgufTensor \<Rightarrow> bool" where
  "offset_aligned t \<longleftrightarrow> t_offset t mod GGUF_ALIGNMENT = 0"

datatype GgufError =
    Io
  | BadMagic "u8 list"
  | UnsupportedVersion nat
  | Truncated (e_at: nat) (e_needed: nat)
  | Malformed string nat
  | Oversized (e_tensor: str) (e_offset: nat) (e_length: nat) (e_limit: nat)
  | InvalidTensor str string
  | InvalidMetadata str string
  | BadData string nat
  | UnsupportedDtype GgufDtype

text \<open>Every error of this layer is reported to the execution layer as fatal.\<close>

datatype LaunchError = Oom | Driver | Fatal

fun launch_error_from :: "GgufError \<Rightarrow> LaunchError" where
  "launch_error_from _ = Fatal"

fun retryable :: "LaunchError \<Rightarrow> bool" where
  "retryable Oom = True"
| "retryable Driver = True"
| "retryable Fatal = False"

section \<open>Codes and sizes\<close>

text \<open>The values of the enum the parser can produce: \<open>D_Other\<close> only for a code without a name.\<close>

definition canonical :: "GgufDtype \<Rightarrow> bool" where
  "canonical d \<longleftrightarrow> (\<forall>c. d = D_Other c \<longrightarrow> map_of dtype_codes c = None)"

lemma type_code_from_code [simp]: "type_code (from_code c) = c"
proof (cases "map_of dtype_codes c")
  case (Some d)
  have "\<forall>(c, d)\<in>set dtype_codes. type_code d = c" by (simp add: dtype_codes_def)
  then show ?thesis using map_of_SomeD [OF Some] Some by (auto simp: from_code_def)
qed (simp add: from_code_def)

lemma from_code_type_code_iff: "from_code (type_code d) = d \<longleftrightarrow> canonical d"
proof (cases d)
  case (D_Other c)
  have "\<forall>(c, d)\<in>set dtype_codes. \<forall>c'. d \<noteq> D_Other c'" by (simp add: dtype_codes_def)
  then show ?thesis using D_Other
    by (auto simp: from_code_def canonical_def split: option.splits dest: map_of_SomeD)
qed (simp_all add: from_code_def canonical_def dtype_codes_def)

lemma canonical_from_code: "canonical (from_code c)"
  by (simp flip: from_code_type_code_iff)

lemma size_bytes_None: "\<not> size_known d \<Longrightarrow> size_bytes d n = None"
  by (cases d) (simp_all add: size_known_def)

lemma fold_chk_mul:
  "fold_opt (\<lambda>d acc. chk_mul acc d) ds a = Some n \<Longrightarrow> a \<le> u64_max \<Longrightarrow> n = a * prod_list ds \<and> n \<le> u64_max"
proof (induction ds arbitrary: a)
  case (Cons d ds)
  then show ?case using Cons.IH [of "a * d"] by (simp add: bind_eq_Some_conv mult.assoc)
qed simp

lemma element_count_Some:
  "element_count t = Some n \<Longrightarrow> n = prod_list (t_shape t) \<and> n \<le> u64_max"
  unfolding element_count_def by (drule fold_chk_mul) (simp_all add: u64_max_def)

end
