(* ===== verification/Gguf_Reader.thy ===== *)
theory Gguf_Reader
  imports Gguf_Schema Ordered_Map "HOL-Library.List_Lexorder"
begin

text \<open>
  The GGUF parser and the lazy reader (\<^verbatim>\<open>crates/gguf/src/reader.rs\<close>).

  A source is the function \<^verbatim>\<open>read_at\<close> of the data source: for an offset and the length of the
  buffer, the bytes read (possibly fewer than asked for, none at the end of the file) or
  \<open>None\<close> for an I/O error. For a buffer in memory it is \<open>mem_read_at\<close>; for a file it
  is the operating system's, a parameter of the model.

  The parsing functions take the growing buffer \<open>RegionBuf\<close> and the cursor \<^verbatim>\<open>pos\<close> and return
  both updated: this is the type \<open>'a reader\<close>. An error or a panic ends the whole parse, so it
  carries no state. \<open>usize\<close> is 64 bits wide; the additions \<^verbatim>\<open>*pos + n\<close> are checked.
  Allocation failure is not modelled.
\<close>

section \<open>Sources\<close>

type_synonym source = "nat \<Rightarrow> nat \<Rightarrow> u8 list option"

definition mem_read_at :: "u8 list \<Rightarrow> source" where
  "mem_read_at bytes offset n =
     Some (if length bytes \<le> offset then [] else take n (drop offset bytes))"

text \<open>
  The loop that fills a buffer of \<open>want\<close> bytes starting at offset \<open>base\<close> of the source;
  \<open>got\<close> is the filled part. It stops early, with a short buffer, at the end of the file.
\<close>

function fill :: "source \<Rightarrow> nat \<Rightarrow> nat \<Rightarrow> u8 list \<Rightarrow> (u8 list, GgufError) res" where
  "fill rd base want got =
     (if length got < want
      then case rd (base + length got) (want - length got) of
          None \<Rightarrow> Err Io
        | Some bs \<Rightarrow> if bs = [] then Ok got
            else fill rd base want (got @ take (want - length got) bs)
      else Ok got)"
  by pat_completeness auto
termination by (relation "measure (\<lambda>(rd, base, want, got). want - length got)")
  (auto intro!: diff_less_mono2 simp: min_def simp flip: length_greater_0_conv)

declare fill.simps [simp del]

section \<open>The prefix buffer\<close>

definition READ_CHUNK :: nat where "READ_CHUNK = 256 * 1024"

definition MAX_ARRAY_DEPTH :: nat where "MAX_ARRAY_DEPTH = 8"

record RegionBuf =
  rg_source :: source
  rg_file_len :: nat
  rg_buf :: "u8 list"

definition read_exact :: "nat \<Rightarrow> RegionBuf \<Rightarrow> (RegionBuf, GgufError) res" where
  "read_exact want rg =
     (if want \<le> length (rg_buf rg) then Ok rg
      else res_bind (fill (rg_source rg) 0 want (rg_buf rg)) (\<lambda>buf.
        if length buf < want then Err (Truncated (length buf) want)
        else Ok (rg\<lparr>rg_buf := buf\<rparr>)))"

definition need :: "nat \<Rightarrow> RegionBuf \<Rightarrow> (RegionBuf, GgufError) res" where
  "need n rg =
     (if n \<le> length (rg_buf rg) then Ok rg
      else if rg_file_len rg < n then Err (Truncated (rg_file_len rg) n)
      else read_exact (min (max n (length (rg_buf rg) + READ_CHUNK)) (rg_file_len rg)) rg)"

section \<open>Readers\<close>

type_synonym 'a reader = "RegionBuf \<Rightarrow> nat \<Rightarrow> ('a \<times> RegionBuf \<times> nat, GgufError) res"

definition ret :: "'a \<Rightarrow> 'a reader" where
  "ret x rg pos = Ok (x, rg, pos)"

definition throw :: "GgufError \<Rightarrow> 'a reader" where
  "throw e rg pos = Err e"

definition rbind :: "'a reader \<Rightarrow> ('a \<Rightarrow> 'b reader) \<Rightarrow> 'b reader" where
  "rbind m f rg pos = res_bind (m rg pos) (\<lambda>(x, rg', pos'). f x rg' pos')"

definition rmap :: "('a \<Rightarrow> 'b) \<Rightarrow> 'a reader \<Rightarrow> 'b reader" where
  "rmap f m = rbind m (\<lambda>x. ret (f x))"

text \<open>The cursor (\<^verbatim>\<open>*pos\<close>) and the file length, as a reader can look at them.\<close>

definition with_pos :: "(nat \<Rightarrow> 'a reader) \<Rightarrow> 'a reader" where
  "with_pos f rg pos = f pos rg pos"

definition with_file_len :: "(nat \<Rightarrow> 'a reader) \<Rightarrow> 'a reader" where
  "with_file_len f rg pos = f (rg_file_len rg) rg pos"

text \<open>\<^verbatim>\<open>for _ in 0..n { v.push(m?) }\<close>\<close>

fun rep :: "nat \<Rightarrow> 'a reader \<Rightarrow> 'a list reader" where
  "rep 0 m = ret []"
| "rep (Suc n) m = rbind m (\<lambda>x. rbind (rep n m) (\<lambda>xs. ret (x # xs)))"

text \<open>\<^verbatim>\<open>need(*pos + n)?; buf[*pos..*pos + n]; *pos += n\<close>\<close>

definition take_n :: "nat \<Rightarrow> u8 list reader" where
  "take_n n rg pos = (case chk_add pos n of
       None \<Rightarrow> Panic
     | Some e \<Rightarrow> res_bind (need e rg) (\<lambda>rg'. Ok (take n (drop pos (rg_buf rg')), rg', e)))"

section \<open>Little-endian numbers and strings\<close>

fun from_le :: "u8 list \<Rightarrow> nat" where
  "from_le [] = 0"
| "from_le (b # bs) = unat b + 256 * from_le bs"

definition le_u8 :: "u8 reader" where
  "le_u8 = rmap (\<lambda>bs. word_of_nat (from_le bs)) (take_n 1)"

definition le_u16 :: "16 word reader" where
  "le_u16 = rmap (\<lambda>bs. word_of_nat (from_le bs)) (take_n 2)"

definition le_u32 :: "32 word reader" where
  "le_u32 = rmap (\<lambda>bs. word_of_nat (from_le bs)) (take_n 4)"

definition le_f32 :: "32 word reader" where
  "le_f32 = le_u32"

definition le_u64 :: "64 word reader" where
  "le_u64 = rmap (\<lambda>bs. word_of_nat (from_le bs)) (take_n 8)"

definition le_f64 :: "64 word reader" where
  "le_f64 = le_u64"

definition le_u32_buf :: "u8 list \<Rightarrow> nat \<Rightarrow> nat" where
  "le_u32_buf buf i = from_le (take 4 (drop i buf))"

definition le_u64_buf :: "u8 list \<Rightarrow> nat \<Rightarrow> nat" where
  "le_u64_buf buf i = from_le (take 8 (drop i buf))"

text \<open>
  \<^verbatim>\<open>std::str::from_utf8\<close>: the well-formed byte sequences of the Unicode standard (no overlong
  forms, no surrogates, nothing above U+10FFFF).
\<close>

definition cont :: "u8 \<Rightarrow> bool" where
  "cont b \<longleftrightarrow> 0x80 \<le> b \<and> b \<le> 0xBF"

fun utf8_valid :: "u8 list \<Rightarrow> bool" where
  "utf8_valid [] = True"
| "utf8_valid (b # bs) =
     (if b \<le> 0x7F then utf8_valid bs
      else if 0xC2 \<le> b \<and> b \<le> 0xDF then
        (case bs of c # r \<Rightarrow> cont c \<and> utf8_valid r | _ \<Rightarrow> False)
      else if 0xE0 \<le> b \<and> b \<le> 0xEF then
        (case bs of c # d # r \<Rightarrow> cont c \<and> cont d \<and> (b = 0xE0 \<longrightarrow> 0xA0 \<le> c)
           \<and> (b = 0xED \<longrightarrow> c \<le> 0x9F) \<and> utf8_valid r | _ \<Rightarrow> False)
      else if 0xF0 \<le> b \<and> b \<le> 0xF4 then
        (case bs of c # d # e # r \<Rightarrow> cont c \<and> cont d \<and> cont e \<and> (b = 0xF0 \<longrightarrow> 0x90 \<le> c)
           \<and> (b = 0xF4 \<longrightarrow> c \<le> 0x8F) \<and> utf8_valid r | _ \<Rightarrow> False)
      else False)"

definition parse_string :: "string \<Rightarrow> str reader" where
  "parse_string what = rbind le_u64 (\<lambda>len. with_pos (\<lambda>pos. rbind (take_n (unat len)) (\<lambda>bytes.
     if utf8_valid bytes then ret bytes else throw (Malformed what pos))))"

section \<open>Header\<close>

text \<open>\<^verbatim>\<open>b"GGUF"\<close>\<close>

definition GGUF_MAGIC :: "u8 list" where
  "GGUF_MAGIC = [0x47, 0x47, 0x55, 0x46]"

definition parse_header :: "RegionBuf \<Rightarrow> ((nat \<times> nat) \<times> RegionBuf, GgufError) res" where
  "parse_header rg = res_bind (need HEADER_SIZE rg) (\<lambda>rg'.
     let buf = take HEADER_SIZE (rg_buf rg'); magic = take 4 buf; version = le_u32_buf buf 4;
       n_tensors = le_u64_buf buf 8; n_kv = le_u64_buf buf 16
     in if magic \<noteq> GGUF_MAGIC then Err (BadMagic magic)
        else if version \<noteq> 2 \<and> version \<noteq> 3 then Err (UnsupportedVersion version)
        else if rg_file_len rg' div 13 < n_kv then Err (Malformed ''metadata kv count implausible'' 16)
        else if rg_file_len rg' div 32 < n_tensors then Err (Malformed ''tensor count implausible'' 8)
        else Ok ((n_tensors, n_kv), rg'))"

section \<open>Metadata\<close>

text \<open>The type codes of the metadata values (\<^verbatim>\<open>schema::type_code\<close>).\<close>

abbreviation (input) TC_U8 :: nat where "TC_U8 \<equiv> 0"
abbreviation (input) TC_I8 :: nat where "TC_I8 \<equiv> 1"
abbreviation (input) TC_U16 :: nat where "TC_U16 \<equiv> 2"
abbreviation (input) TC_I16 :: nat where "TC_I16 \<equiv> 3"
abbreviation (input) TC_U32 :: nat where "TC_U32 \<equiv> 4"
abbreviation (input) TC_I32 :: nat where "TC_I32 \<equiv> 5"
abbreviation (input) TC_F32 :: nat where "TC_F32 \<equiv> 6"
abbreviation (input) TC_BOOL :: nat where "TC_BOOL \<equiv> 7"
abbreviation (input) TC_STR :: nat where "TC_STR \<equiv> 8"
abbreviation (input) TC_ARRAY :: nat where "TC_ARRAY \<equiv> 9"
abbreviation (input) TC_U64 :: nat where "TC_U64 \<equiv> 10"
abbreviation (input) TC_I64 :: nat where "TC_I64 \<equiv> 11"
abbreviation (input) TC_F64 :: nat where "TC_F64 \<equiv> 12"

function parse_array :: "nat \<Rightarrow> ArrayValue reader" where
  "parse_array depth =
     (if MAX_ARRAY_DEPTH \<le> depth then with_pos (\<lambda>pos. throw (Malformed ''array nesting too deep'' pos))
      else rbind (rmap unat le_u32) (\<lambda>elem. rbind (rmap unat le_u64) (\<lambda>count.
        with_file_len (\<lambda>file_len. with_pos (\<lambda>pos.
          if file_len < count then throw (Malformed ''array count implausible'' (pos - 8))
          else if elem = TC_U8 then rmap A_U8 (rep count le_u8)
            else if elem = TC_I8 then rmap A_I8 (rep count le_u8)
            else if elem = TC_U16 then rmap A_U16 (rep count le_u16)
            else if elem = TC_I16 then rmap A_I16 (rep count le_u16)
            else if elem = TC_U32 then rmap A_U32 (rep count le_u32)
            else if elem = TC_I32 then rmap A_I32 (rep count le_u32)
            else if elem = TC_F32 then rmap A_F32 (rep count le_f32)
            else if elem = TC_BOOL then rmap A_Bool (rep count (rmap (\<lambda>b. b \<noteq> 0) le_u8))
            else if elem = TC_STR then rmap A_Str (rep count (parse_string ''array string item''))
            else if elem = TC_U64 then rmap A_U64 (rep count le_u64)
            else if elem = TC_I64 then rmap A_I64 (rep count le_u64)
            else if elem = TC_F64 then rmap A_F64 (rep count le_f64)
            else if elem = TC_ARRAY then rmap A_Nested (rep count (parse_array (depth + 1)))
            else throw (Malformed ''unknown array element type'' (pos - 4)))))))"
  by pat_completeness auto
termination by (relation "measure (\<lambda>depth. MAX_ARRAY_DEPTH - depth)") auto

declare parse_array.simps [simp del]

definition parse_value :: "nat \<Rightarrow> MetaValue reader" where
  "parse_value code =
     (if code = TC_U8 then rmap M_U8 le_u8
      else if code = TC_I8 then rmap M_I8 le_u8
      else if code = TC_U16 then rmap M_U16 le_u16
      else if code = TC_I16 then rmap M_I16 le_u16
      else if code = TC_U32 then rmap M_U32 le_u32
      else if code = TC_I32 then rmap M_I32 le_u32
      else if code = TC_F32 then rmap M_F32 le_f32
      else if code = TC_BOOL then rmap (\<lambda>b. M_Bool (b \<noteq> 0)) le_u8
      else if code = TC_STR then rmap M_Str (parse_string ''metadata string'')
      else if code = TC_ARRAY then rmap M_Array (parse_array 0)
      else if code = TC_U64 then rmap M_U64 le_u64
      else if code = TC_I64 then rmap M_I64 le_u64
      else if code = TC_F64 then rmap M_F64 le_f64
      else with_pos (\<lambda>pos. throw (Malformed ''unknown metadata value type'' (pos - 4))))"

text \<open>\<^verbatim>\<open>ModelMeta\<close> is the ordered map of the key-value pairs; a repeated key keeps the last value.\<close>

type_synonym ModelMeta = "(str \<times> MetaValue) list"

fun meta_loop :: "nat \<Rightarrow> ModelMeta \<Rightarrow> ModelMeta reader" where
  "meta_loop 0 kvs = ret kvs"
| "meta_loop (Suc n) kvs = rbind (parse_string ''metadata key'') (\<lambda>key.
     rbind (rmap unat le_u32) (\<lambda>code. rbind (parse_value code) (\<lambda>v.
       meta_loop n (bt_insert key v kvs))))"

definition parse_metadata :: "nat \<Rightarrow> RegionBuf \<Rightarrow> (ModelMeta \<times> RegionBuf \<times> nat, GgufError) res" where
  "parse_metadata n_kv rg = meta_loop n_kv [] rg HEADER_SIZE"

section \<open>Tensors\<close>

definition parse_tensor :: "GgufTensor reader" where
  "parse_tensor = rbind (parse_string ''tensor name'') (\<lambda>name.
     if name = [] then with_pos (\<lambda>pos. throw (Malformed ''empty tensor name'' pos))
     else rbind (rmap unat le_u32) (\<lambda>n_dims.
       if n_dims = 0 then throw (InvalidTensor name ''zero dimensions'')
       else if 8 < n_dims then throw (InvalidTensor name ''too many dimensions'')
       else rbind (rep n_dims (rmap unat le_u64)) (\<lambda>shape.
         rbind (rmap (\<lambda>c. from_code (unat c)) le_u32) (\<lambda>dtype.
           rbind (rmap unat le_u64) (\<lambda>offset.
             ret \<lparr>t_name = name, t_shape = shape, t_dtype = dtype, t_offset = offset, t_length = 0\<rparr>)))))"

text \<open>
  One round of \<^verbatim>\<open>finalize_tensor_lengths\<close>; \<open>limit\<close> is the offset of the next tensor or the
  file length. A round changes the length of its own tensor only, so the loop is the recursion
  over the list.
\<close>

definition finalize_one :: "nat \<Rightarrow> nat \<Rightarrow> GgufTensor \<Rightarrow> (GgufTensor, GgufError) res" where
  "finalize_one file_len limit t =
     (let name = t_name t; dtype = t_dtype t; offset = t_offset t in
      if offset mod GGUF_ALIGNMENT \<noteq> 0 then Err (Malformed ''tensor data not 32-byte aligned'' offset)
      else if file_len < offset then Err (Oversized name offset 0 file_len)
      else case element_count t of
        None \<Rightarrow> Err (InvalidTensor name ''shape element count overflow'')
      | Some elems \<Rightarrow>
          if size_known dtype then
            (case size_bytes dtype elems of
               None \<Rightarrow> Err (InvalidTensor name ''element count not compatible with dtype block size'')
             | Some len \<Rightarrow> (case chk_add offset len of
                 None \<Rightarrow> Err (Oversized name offset len file_len)
               | Some e \<Rightarrow> if limit < e then Err (Oversized name offset len limit)
                   else Ok (t\<lparr>t_length := len\<rparr>)))
          else (case chk_sub limit offset of
              None \<Rightarrow> Err (Oversized name offset 0 limit)
            | Some len \<Rightarrow> Ok (t\<lparr>t_length := len\<rparr>)))"

fun finalize_tensor_lengths :: "nat \<Rightarrow> GgufTensor list \<Rightarrow> (GgufTensor list, GgufError) res" where
  "finalize_tensor_lengths file_len [] = Ok []"
| "finalize_tensor_lengths file_len (t # ts) =
     res_bind (finalize_one file_len (case ts of [] \<Rightarrow> file_len | n # _ \<Rightarrow> t_offset n) t) (\<lambda>t'.
       res_bind (finalize_tensor_lengths file_len ts) (\<lambda>ts'. Ok (t' # ts')))"

definition parse_tensors :: "nat \<Rightarrow> GgufTensor list reader" where
  "parse_tensors n = rbind (rep n parse_tensor) (\<lambda>ts. with_file_len (\<lambda>file_len rg pos.
     res_bind (finalize_tensor_lengths file_len ts) (\<lambda>ts'. Ok (ts', rg, pos))))"

section \<open>The reader\<close>

text \<open>The index of a tensor is kept as \<^verbatim>\<open>u32\<close>.\<close>

record GgufReader =
  gr_source :: source
  gr_file_len :: nat
  gr_meta :: ModelMeta
  gr_tensors :: "GgufTensor list"
  gr_by_name :: "str \<rightharpoonup> nat"

fun index_names :: "nat \<Rightarrow> GgufTensor list \<Rightarrow> (str \<rightharpoonup> nat) \<Rightarrow> (str \<rightharpoonup> nat, GgufError) res" where
  "index_names i [] m = Ok m"
| "index_names i (t # ts) m =
     (if m (t_name t) \<noteq> None then Err (InvalidTensor (t_name t) ''duplicate tensor name'')
      else index_names (i + 1) ts (m(t_name t \<mapsto> i mod 2 ^ 32)))"

definition gguf_parse :: "source \<Rightarrow> nat \<Rightarrow> (GgufReader, GgufError) res" where
  "gguf_parse source file_len =
     res_bind (parse_header \<lparr>rg_source = source, rg_file_len = file_len, rg_buf = []\<rparr>)
       (\<lambda>((n_tensors, n_kv), rg). res_bind (parse_metadata n_kv rg)
         (\<lambda>(meta, rg, pos). res_bind (parse_tensors n_tensors rg pos)
           (\<lambda>(tensors, rg, pos). res_bind (index_names 0 tensors Map.empty)
             (\<lambda>by_name. Ok \<lparr>gr_source = source, gr_file_len = file_len, gr_meta = meta,
                gr_tensors = tensors, gr_by_name = by_name\<rparr>))))"

definition from_bytes :: "u8 list \<Rightarrow> (GgufReader, GgufError) res" where
  "from_bytes bytes = gguf_parse (mem_read_at bytes) (length bytes)"

definition tensor :: "GgufReader \<Rightarrow> str \<Rightarrow> GgufTensor option" where
  "tensor r name = map_option (\<lambda>i. gr_tensors r ! i) (gr_by_name r name)"

definition tensor_data :: "GgufReader \<Rightarrow> GgufTensor \<Rightarrow> (u8 list, GgufError) res" where
  "tensor_data r t = (case chk_add (t_offset t) (t_length t) of
       None \<Rightarrow> Err (Oversized (t_name t) (t_offset t) (t_length t) (gr_file_len r))
     | Some e \<Rightarrow>
         if gr_file_len r < e then Err (Oversized (t_name t) (t_offset t) (t_length t) (gr_file_len r))
         else res_bind (fill (gr_source r) (t_offset t) (t_length t) []) (\<lambda>out.
           if length out < t_length t then Err (Truncated (t_offset t + length out) e) else Ok out))"

section \<open>Metadata access\<close>

definition from_kvs :: "(str \<times> MetaValue) list \<Rightarrow> ModelMeta" where
  "from_kvs kvs = fold (\<lambda>(k, v). bt_insert k v) kvs []"

definition meta_get :: "ModelMeta \<Rightarrow> str \<Rightarrow> MetaValue option" where
  "meta_get kvs key = map_of kvs key"

definition typed :: "ModelMeta \<Rightarrow> str \<Rightarrow> string \<Rightarrow> (MetaValue \<Rightarrow> 'a option) \<Rightarrow> ('a option, GgufError) res" where
  "typed kvs key why pick = (case map_of kvs key of
       None \<Rightarrow> Ok None
     | Some v \<Rightarrow> (case pick v of Some x \<Rightarrow> Ok (Some x) | None \<Rightarrow> Err (InvalidMetadata key why)))"

definition meta_str :: "ModelMeta \<Rightarrow> str \<Rightarrow> (str option, GgufError) res" where
  "meta_str kvs key = typed kvs key ''expected string'' (\<lambda>v. case v of M_Str s \<Rightarrow> Some s | _ \<Rightarrow> None)"

definition meta_u32 :: "ModelMeta \<Rightarrow> str \<Rightarrow> (32 word option, GgufError) res" where
  "meta_u32 kvs key = typed kvs key ''expected u32'' (\<lambda>v. case v of M_U32 x \<Rightarrow> Some x | _ \<Rightarrow> None)"

definition meta_f32 :: "ModelMeta \<Rightarrow> str \<Rightarrow> (32 word option, GgufError) res" where
  "meta_f32 kvs key = typed kvs key ''expected f32'' (\<lambda>v. case v of M_F32 x \<Rightarrow> Some x | _ \<Rightarrow> None)"

definition meta_array_str :: "ModelMeta \<Rightarrow> str \<Rightarrow> (str list option, GgufError) res" where
  "meta_array_str kvs key = typed kvs key ''expected string array''
     (\<lambda>v. case v of M_Array (A_Str xs) \<Rightarrow> Some xs | _ \<Rightarrow> None)"

definition meta_bytes :: "ModelMeta \<Rightarrow> str \<Rightarrow> (u8 list option, GgufError) res" where
  "meta_bytes kvs key = typed kvs key ''expected byte array''
     (\<lambda>v. case v of M_Array (A_U8 xs) \<Rightarrow> Some xs | _ \<Rightarrow> None)"

text \<open>The loop over the items of a nested array.\<close>

fun f32_rows :: "str \<Rightarrow> ArrayValue list \<Rightarrow> (32 word list list, GgufError) res" where
  "f32_rows key [] = Ok []"
| "f32_rows key (item # items) = (case item of
       A_F32 v \<Rightarrow> res_bind (f32_rows key items) (\<lambda>rows. Ok (v # rows))
     | _ \<Rightarrow> Err (InvalidMetadata key ''expected nested f32 arrays''))"

definition meta_nested_f32 :: "ModelMeta \<Rightarrow> str \<Rightarrow> (32 word list list option, GgufError) res" where
  "meta_nested_f32 kvs key = (case map_of kvs key of
       None \<Rightarrow> Ok None
     | Some (M_Array (A_F32 v)) \<Rightarrow> Ok (Some [v])
     | Some (M_Array (A_Nested items)) \<Rightarrow> res_bind (f32_rows key items) (\<lambda>rows. Ok (Some rows))
     | Some _ \<Rightarrow> Err (InvalidMetadata key ''expected f32 array or nested f32 arrays''))"

end
