(* ===== verification/Gguf_Source.thy ===== *)
theory Gguf_Source
  imports Gguf_Reader
begin

text \<open>
  What the parser relies on in a data source, and what follows for the readers.

  The locale \<open>byte_source\<close> is the documented behaviour of \<^verbatim>\<open>FileExt::read_at\<close> on a file that
  nobody changes: before the end of the file a call with a non-empty buffer reads at least one
  byte and possibly fewer than asked for, at or after the end it reads none. The in-memory source
  provides it. Two relations carry the proofs about the parser: \<open>stable\<close> (the outcome of a
  reader is a function of the file's contents and the cursor, whatever the source and the state
  of the buffer) and \<open>parses\<close> (a reader consumes exactly the given bytes and returns the value).
\<close>

section \<open>Sources that deliver a file\<close>

locale byte_source =
  fixes rd :: source and contents :: "u8 list"
  assumes read_some: "off < length contents \<Longrightarrow> 0 < n \<Longrightarrow>
      \<exists>k. 0 < k \<and> k \<le> n \<and> rd off n = Some (take k (drop off contents))"
    and read_end: "length contents \<le> off \<Longrightarrow> rd off n = Some []"
begin

text \<open>However short the reads are, the filling loop returns the bytes up to the wanted length.\<close>

lemma fill_contents:
  assumes "got = take (length got) (drop base contents)" "length got \<le> want"
  shows "fill rd base want got = Ok (take want (drop base contents))"
  using assms
proof (induction "want - length got" arbitrary: got rule: less_induct)
  case less
  have got: "got = take (length got) (drop base contents)" and le: "length got \<le> want"
    using less.prems by auto
  show ?case
  proof (cases "length got < want")
    case False
    then show ?thesis using got le by (simp add: fill.simps)
  next
    case True
    show ?thesis
    proof (cases "base + length got < length contents")
      case False
      then have "rd (base + length got) (want - length got) = Some []" by (intro read_end) simp
      moreover have "take want (drop base contents) = got"
      proof -
        have "length (drop base contents) \<le> length got" using False by simp
        then have "take (length got) (drop base contents) = drop base contents"
          "take want (drop base contents) = drop base contents" using le by simp_all
        then show ?thesis using got by (simp only:)
      qed
      ultimately show ?thesis using True by (simp add: fill.simps)
    next
      case inside: True
      have "0 < want - length got" using True by simp
      then obtain k where k: "0 < k" "k \<le> want - length got"
        and read: "rd (base + length got) (want - length got) = Some (take k (drop (base + length got) contents))"
        using read_some [OF inside] by blast
      let ?bs = "take k (drop (base + length got) contents)"
      have ne: "?bs \<noteq> []" using k(1) inside by simp
      have short: "take (want - length got) ?bs = ?bs" using k(2) by simp
      have "got @ ?bs = take (length got) (drop base contents) @ take k (drop (length got) (drop base contents))"
        using got by (simp add: add.commute)
      then have joined: "got @ ?bs = take (length got + k) (drop base contents)" by (simp only: take_add)
      have len: "length (got @ ?bs) \<le> want" "length got < length (got @ ?bs)"
        using k(2) le ne by auto
      have "got @ ?bs = take (length (got @ ?bs)) (drop base contents)"
        by (subst joined, subst joined) (simp add: min_def)
      then have "fill rd base want (got @ ?bs) = Ok (take want (drop base contents))"
        using less.hyps [OF diff_less_mono2 [OF len(2) True] _ len(1)] by blast
      then show ?thesis using True by (subst fill.simps) (simp only: read ne short option.case if_True if_False)
    qed
  qed
qed

end

interpretation mem: byte_source "mem_read_at bytes" bytes
proof
  fix off n :: nat
  assume "off < length bytes" "0 < n"
  then show "\<exists>k. 0 < k \<and> k \<le> n \<and> mem_read_at bytes off n = Some (take k (drop off bytes))"
    by (auto simp: mem_read_at_def)
qed (simp add: mem_read_at_def)

section \<open>The buffer\<close>

text \<open>A buffer in good state: its source delivers the file \<open>c\<close>, it holds a prefix of it.\<close>

definition rg_ok :: "u8 list \<Rightarrow> RegionBuf \<Rightarrow> bool" where
  "rg_ok c rg \<longleftrightarrow> byte_source (rg_source rg) c \<and> rg_file_len rg = length c \<and> length c \<le> u64_max
     \<and> (\<exists>m. rg_buf rg = take m c)"

lemma rg_okD:
  assumes "rg_ok c rg"
  shows "byte_source (rg_source rg) c" "rg_file_len rg = length c" "length c \<le> u64_max"
    "length (rg_buf rg) \<le> length c" "rg_buf rg = take (length (rg_buf rg)) c"
proof -
  obtain m where m: "rg_buf rg = take m c" using assms by (auto simp: rg_ok_def)
  show "length (rg_buf rg) \<le> length c" unfolding m by simp
  show "rg_buf rg = take (length (rg_buf rg)) c" unfolding m by (simp add: min_def)
qed (use assms in \<open>simp_all add: rg_ok_def\<close>)

lemma need_ok:
  assumes ok: "rg_ok c rg" and n: "n \<le> length c"
  obtains rg' where "need n rg = Ok rg'" "rg_ok c rg'" "take n (rg_buf rg') = take n c"
proof (cases "n \<le> length (rg_buf rg)")
  case True
  have "take n (rg_buf rg) = take n c" using arg_cong [OF rg_okD(5) [OF ok], of "take n"] True by simp
  then show thesis using that [of rg] ok True by (simp add: need_def)
next
  case False
  define want where "want = min (max n (length (rg_buf rg) + READ_CHUNK)) (length c)"
  have want: "length (rg_buf rg) < want" "n \<le> want" "want \<le> length c" using False n by (auto simp: want_def)
  have "rg_buf rg = take (length (rg_buf rg)) (drop 0 c)" using rg_okD(5) [OF ok] by simp
  then have "fill (rg_source rg) 0 want (rg_buf rg) = Ok (take want c)"
    using byte_source.fill_contents [OF rg_okD(1) [OF ok], of "rg_buf rg" 0 want] want by force
  then have "need n rg = Ok (rg\<lparr>rg_buf := take want c\<rparr>)"
    using False n want rg_okD(2) [OF ok] by (simp add: need_def read_exact_def flip: want_def)
  moreover have "rg_ok c (rg\<lparr>rg_buf := take want c\<rparr>)" using ok by (auto simp: rg_ok_def)
  ultimately show thesis using that want by simp
qed

lemma need_short: "rg_ok c rg \<Longrightarrow> length c < n \<Longrightarrow> need n rg = Err (Truncated (length c) n)"
  using rg_okD(2,4) [of c rg] by (simp add: need_def)

lemma take_n_cases:
  assumes ok: "rg_ok c rg"
  obtains (overflow) "u64_max < pos + n" "length c < pos + n" "take_n n rg pos = Panic"
  | (short) "pos + n \<le> u64_max" "length c < pos + n" "take_n n rg pos = Err (Truncated (length c) (pos + n))"
  | (read) rg' where "pos + n \<le> length c" "rg_ok c rg'" "take_n n rg pos = Ok (take n (drop pos c), rg', pos + n)"
proof (cases "pos + n \<le> length c")
  case True
  obtain rg' where rg': "need (pos + n) rg = Ok rg'" "rg_ok c rg'" "take (pos + n) (rg_buf rg') = take (pos + n) c"
    using need_ok [OF ok True] by blast
  have "take n (drop pos (rg_buf rg')) = take n (drop pos c)"
    using arg_cong [OF rg'(3), of "drop pos"] by (simp add: take_drop add.commute)
  moreover have "pos + n \<le> u64_max" using True ok by (auto simp: rg_ok_def)
  ultimately show thesis using read [OF True rg'(2)] rg'(1) by (simp add: take_n_def chk_add_def)
next
  case False
  then have short_file: "length c < pos + n" by simp
  show thesis
  proof (cases "pos + n \<le> u64_max")
    case True
    then show thesis using short [OF True short_file] need_short [OF ok short_file]
      by (simp add: take_n_def chk_add_def)
  next
    case False
    then show thesis using overflow short_file by (simp add: take_n_def chk_add_def)
  qed
qed

section \<open>Readers whose outcome depends on the contents only\<close>

named_theorems stable \<open>readers whose outcome does not depend on the source\<close>

fun same :: "u8 list \<Rightarrow> ('a \<times> RegionBuf \<times> nat, GgufError) res \<Rightarrow> ('a \<times> RegionBuf \<times> nat, GgufError) res \<Rightarrow> bool" where
  "same c (Ok (x, g, p)) (Ok (y, h, q)) \<longleftrightarrow> x = y \<and> p = q \<and> rg_ok c g \<and> rg_ok c h"
| "same c (Err e) (Err e') \<longleftrightarrow> e = e'"
| "same c Panic Panic \<longleftrightarrow> True"
| "same c _ _ \<longleftrightarrow> False"

definition stable_on :: "u8 list \<Rightarrow> 'a reader \<Rightarrow> bool" where
  "stable_on c m \<longleftrightarrow> (\<forall>g h pos. rg_ok c g \<longrightarrow> rg_ok c h \<longrightarrow> same c (m g pos) (m h pos))"

lemma stable_onD: "stable_on c m \<Longrightarrow> rg_ok c g \<Longrightarrow> rg_ok c h \<Longrightarrow> same c (m g pos) (m h pos)"
  by (simp add: stable_on_def)

lemma stable_ret [stable]: "stable_on c (ret x)"
  by (simp add: stable_on_def ret_def)

lemma stable_throw [stable]: "stable_on c (throw e)"
  by (simp add: stable_on_def throw_def)

lemma stable_rbind [stable]:
  assumes m: "stable_on c m" and f: "\<And>x. stable_on c (f x)"
  shows "stable_on c (rbind m f)"
  unfolding stable_on_def
proof (intro allI impI)
  fix g h pos assume gh: "rg_ok c g" "rg_ok c h"
  have eq: "same c (m g pos) (m h pos)" by (rule stable_onD [OF m gh])
  show "same c (rbind m f g pos) (rbind m f h pos)"
  proof (cases "m g pos")
    case (Ok r)
    obtain x g' p where r: "r = (x, g', p)" by (cases r)
    obtain h' where h': "m h pos = Ok (x, h', p)" "rg_ok c g'" "rg_ok c h'"
      using eq Ok r by (cases "m h pos") auto
    then show ?thesis using Ok r stable_onD [OF f h'(2,3)] by (simp add: rbind_def)
  qed (use eq in \<open>cases "m h pos"; simp add: rbind_def\<close>)+
qed

lemma stable_rmap [stable]: "stable_on c m \<Longrightarrow> stable_on c (rmap f m)"
  by (simp add: rmap_def stable)

lemma stable_with_pos [stable]: "(\<And>p. stable_on c (f p)) \<Longrightarrow> stable_on c (with_pos f)"
  by (simp add: stable_on_def with_pos_def)

lemma stable_with_file_len [stable]: "(\<And>n. stable_on c (f n)) \<Longrightarrow> stable_on c (with_file_len f)"
  by (simp add: stable_on_def with_file_len_def rg_okD(2))

lemma stable_if [stable]: "stable_on c m \<Longrightarrow> stable_on c n \<Longrightarrow> stable_on c (if b then m else n)"
  by simp

lemma stable_rep [stable]: "stable_on c m \<Longrightarrow> stable_on c (rep n m)"
  by (induction n) (simp_all add: stable)

lemma stable_take_n [stable]: "stable_on c (take_n n)"
  unfolding stable_on_def
proof (intro allI impI)
  fix g h pos assume g: "rg_ok c g" and h: "rg_ok c h"
  show "same c (take_n n g pos) (take_n n h pos)"
    by (rule take_n_cases [OF g, of pos n]; rule take_n_cases [OF h, of pos n]) auto
qed

lemma stable_numbers [stable]:
  "stable_on c le_u8" "stable_on c le_u16" "stable_on c le_u32" "stable_on c le_f32"
  "stable_on c le_u64" "stable_on c le_f64"
  by (simp_all add: le_u8_def le_u16_def le_u32_def le_f32_def le_u64_def le_f64_def stable)

lemma stable_parse_string [stable]: "stable_on c (parse_string what)"
  by (simp add: parse_string_def stable)

lemma stable_parse_array [stable]: "stable_on c (parse_array depth)"
proof (induction depth rule: parse_array.induct)
  case (1 depth)
  show ?case
  proof (cases "MAX_ARRAY_DEPTH \<le> depth")
    case False
    have rec: "stable_on c (parse_array (depth + 1))" by (rule 1 [OF False, of 0 0 9]) simp_all
    show ?thesis by (subst parse_array.simps) (intro stable rec)
  qed (subst parse_array.simps, simp add: stable)
qed

lemma stable_parse_value [stable]: "stable_on c (parse_value code)"
  by (simp add: parse_value_def stable)

lemma stable_meta_loop [stable]: "stable_on c (meta_loop n kvs)"
  by (induction n arbitrary: kvs) (simp_all add: stable)

lemma stable_parse_tensor [stable]: "stable_on c parse_tensor"
  by (simp add: parse_tensor_def stable)

lemma stable_finalize [stable]:
  "stable_on c (\<lambda>rg pos. res_bind r (\<lambda>x. Ok (x, rg, pos)))"
  by (cases r) (simp_all add: stable_on_def)

lemma stable_parse_tensors [stable]: "stable_on c (parse_tensors n)"
  by (simp add: parse_tensors_def stable)

section \<open>The header and the whole parse\<close>

lemma parse_header_stable:
  assumes g: "rg_ok c g" and h: "rg_ok c h"
  shows "(\<exists>e. parse_header g = Err e \<and> parse_header h = Err e)
    \<or> (\<exists>x g' h'. parse_header g = Ok (x, g') \<and> parse_header h = Ok (x, h') \<and> rg_ok c g' \<and> rg_ok c h')"
proof (cases "HEADER_SIZE \<le> length c")
  case True
  obtain g' where g': "need HEADER_SIZE g = Ok g'" "rg_ok c g'" "take HEADER_SIZE (rg_buf g') = take HEADER_SIZE c"
    using need_ok [OF g True] by blast
  obtain h' where h': "need HEADER_SIZE h = Ok h'" "rg_ok c h'" "take HEADER_SIZE (rg_buf h') = take HEADER_SIZE c"
    using need_ok [OF h True] by blast
  show ?thesis
    unfolding parse_header_def g'(1) h'(1) res_bind.simps g'(3) h'(3) rg_okD(2) [OF g'(2)] rg_okD(2) [OF h'(2)] Let_def
    using g'(2) h'(2) by simp
next
  case False
  then show ?thesis using need_short [OF g] need_short [OF h] by (simp add: parse_header_def)
qed

definition reader_view :: "GgufReader \<Rightarrow> nat \<times> ModelMeta \<times> GgufTensor list \<times> (str \<rightharpoonup> nat)" where
  "reader_view r = (gr_file_len r, gr_meta r, gr_tensors r, gr_by_name r)"

lemma rg_ok_start: "byte_source rd c \<Longrightarrow> length c \<le> u64_max \<Longrightarrow>
    rg_ok c \<lparr>rg_source = rd, rg_file_len = length c, rg_buf = []\<rparr>"
  by (auto simp: rg_ok_def intro: exI [of _ 0])

lemma same_cases:
  assumes "same c r s"
  obtains (Ok) x g h p where "r = Ok (x, g, p)" "s = Ok (x, h, p)" "rg_ok c g" "rg_ok c h"
  | (Err) e where "r = Err e" "s = Err e"
  | (Panic) "r = Panic" "s = Panic"
  using assms by (cases r; cases s) auto

lemma parse_same:
  assumes "byte_source rd c" "byte_source rd' c" "length c \<le> u64_max"
  shows "map_res reader_view id (gguf_parse rd (length c)) = map_res reader_view id (gguf_parse rd' (length c))"
proof -
  define g h where "g = \<lparr>rg_source = rd, rg_file_len = length c, rg_buf = []\<rparr>"
    and "h = \<lparr>rg_source = rd', rg_file_len = length c, rg_buf = []\<rparr>"
  have start: "rg_ok c g" "rg_ok c h" using rg_ok_start assms by (simp_all add: g_def h_def)
  note parse = gguf_parse_def [of rd "length c", folded g_def] gguf_parse_def [of rd' "length c", folded h_def]
  consider (Err) e where "parse_header g = Err e" "parse_header h = Err e"
    | (Ok) nt nk g1 h1 where "parse_header g = Ok ((nt, nk), g1)" "parse_header h = Ok ((nt, nk), h1)"
        "rg_ok c g1" "rg_ok c h1"
    using parse_header_stable [OF start] by auto
  then show ?thesis
  proof cases
    case head: Ok
    have "same c (parse_metadata nk g1) (parse_metadata nk h1)"
      unfolding parse_metadata_def by (rule stable_onD [OF stable_meta_loop head(3,4)])
    then show ?thesis
    proof (cases rule: same_cases)
      case meta: (Ok m g2 h2 p)
      have "same c (parse_tensors nt g2 p) (parse_tensors nt h2 p)"
        by (rule stable_onD [OF stable_parse_tensors meta(3,4)])
      then show ?thesis
      proof (cases rule: same_cases)
        case ts: (Ok ts g3 h3 q)
        then show ?thesis using head meta
          by (cases "index_names 0 ts Map.empty") (simp_all add: parse reader_view_def)
      qed (use head meta in \<open>simp_all add: parse\<close>)
    qed (use head in \<open>simp_all add: parse\<close>)
  qed (simp add: parse)
qed

section \<open>Readers that consume exactly the given bytes\<close>

definition parses :: "'a reader \<Rightarrow> u8 list \<Rightarrow> 'a \<Rightarrow> bool" where
  "parses m bs x \<longleftrightarrow> (\<forall>c rg pre post. c = pre @ bs @ post \<longrightarrow> rg_ok c rg \<longrightarrow>
     (\<exists>rg'. rg_ok c rg' \<and> m rg (length pre) = Ok (x, rg', length pre + length bs)))"

named_theorems parses \<open>readers and the bytes they consume\<close>

lemma parsesD:
  "parses m bs x \<Longrightarrow> rg_ok (pre @ bs @ post) rg \<Longrightarrow>
    \<exists>rg'. rg_ok (pre @ bs @ post) rg' \<and> m rg (length pre) = Ok (x, rg', length pre + length bs)"
  unfolding parses_def by blast

lemma parses_ret [parses]: "parses (ret x) [] x"
  by (simp add: parses_def ret_def)

lemma parses_rbind:
  assumes "parses m bs x" "parses (f x) cs y"
  shows "parses (rbind m f) (bs @ cs) y"
  unfolding parses_def
proof (intro allI impI)
  fix c rg pre post assume c: "c = pre @ (bs @ cs) @ post" and ok: "rg_ok c rg"
  obtain g where g: "rg_ok c g" "m rg (length pre) = Ok (x, g, length pre + length bs)"
    using parsesD [OF assms(1), of pre "cs @ post"] c ok by auto
  obtain h where "rg_ok c h" "f x g (length (pre @ bs)) = Ok (y, h, length (pre @ bs) + length cs)"
    using parsesD [OF assms(2), of "pre @ bs" post g] c g(1) by auto
  then show "\<exists>rg'. rg_ok c rg' \<and> rbind m f rg (length pre) = Ok (y, rg', length pre + length (bs @ cs))"
    using g(2) by (simp add: rbind_def)
qed

lemma parses_last: "parses m bs x \<Longrightarrow> parses (f x) [] y \<Longrightarrow> parses (rbind m f) bs y"
  using parses_rbind [of m bs x f "[]" y] by simp

lemma parses_rmap: "parses m bs x \<Longrightarrow> parses (rmap f m) bs (f x)"
  using parses_rbind [of m bs x "\<lambda>x. ret (f x)" "[]" "f x"] by (simp add: rmap_def parses_ret)

lemma parses_with_pos: "(\<And>p. parses (f p) bs x) \<Longrightarrow> parses (with_pos f) bs x"
  by (simp add: parses_def with_pos_def)

text \<open>The file length is at least the length of the bytes still to be consumed.\<close>

lemma parses_with_file_len: "(\<And>n. length bs \<le> n \<Longrightarrow> parses (f n) bs x) \<Longrightarrow> parses (with_file_len f) bs x"
  unfolding parses_def with_file_len_def by (auto simp: rg_okD(2))

lemma parses_take_n: "parses (take_n (length bs)) bs bs"
  unfolding parses_def
proof (intro allI impI)
  fix c rg pre post assume c: "c = pre @ bs @ post" and ok: "rg_ok c rg"
  show "\<exists>rg'. rg_ok c rg' \<and> take_n (length bs) rg (length pre) = Ok (bs, rg', length pre + length bs)"
    by (rule take_n_cases [OF ok, of "length pre" "length bs"]) (use c in auto)
qed

lemma parses_rep:
  "list_all2 (\<lambda>bs x. parses m bs x) bss xs \<Longrightarrow> parses (rep (length xs) m) (concat bss) xs"
proof (induction bss xs rule: list_all2_induct)
  case (Cons bs bss x xs)
  have "parses (rbind (rep (length xs) m) (\<lambda>xs. ret (x # xs))) (concat bss @ []) (x # xs)"
    by (rule parses_rbind [OF Cons(3) parses_ret])
  then show ?case using parses_rbind [OF Cons(1)] by simp
qed (simp add: parses_ret)

end
