(* ===== verification/Gguf_Tensors.thy ===== *)
theory Gguf_Tensors
  imports Gguf_Source
begin

text \<open>
  What a successful parse guarantees about the tensor table, and the reading of tensor data.
\<close>

section \<open>What the values returned by readers satisfy\<close>

definition yields :: "'a reader \<Rightarrow> ('a \<Rightarrow> bool) \<Rightarrow> bool" where
  "yields m P \<longleftrightarrow> (\<forall>rg pos x rg' pos'. m rg pos = Ok (x, rg', pos') \<longrightarrow> P x)"

named_theorems yields \<open>postconditions of readers\<close>

lemma yieldsD: "yields m P \<Longrightarrow> m rg pos = Ok (x, rg', pos') \<Longrightarrow> P x"
  unfolding yields_def by blast

lemma yields_ret [yields]: "P x \<Longrightarrow> yields (ret x) P"
  by (simp add: yields_def ret_def)

lemma yields_throw [yields]: "yields (throw e) P"
  by (simp add: yields_def throw_def)

lemma yields_rbind: "yields m Q \<Longrightarrow> (\<And>x. Q x \<Longrightarrow> yields (f x) P) \<Longrightarrow> yields (rbind m f) P"
  unfolding yields_def rbind_def by (auto split: prod.splits) blast

lemma yields_True [yields]: "yields m (\<lambda>_. True)"
  by (simp add: yields_def)

lemma yields_rmap: "(\<And>x. P (f x)) \<Longrightarrow> yields (rmap f m) P"
  unfolding rmap_def by (rule yields_rbind [OF yields_True]) (rule yields_ret)

lemma yields_with_pos [yields]: "(\<And>p. yields (f p) P) \<Longrightarrow> yields (with_pos f) P"
  by (simp add: yields_def with_pos_def)

lemma yields_if [yields]: "(b \<Longrightarrow> yields m P) \<Longrightarrow> (\<not> b \<Longrightarrow> yields n P) \<Longrightarrow> yields (if b then m else n) P"
  by simp

lemma yields_rep: "yields m P \<Longrightarrow> yields (rep n m) (\<lambda>xs. length xs = n \<and> (\<forall>x\<in>set xs. P x))"
proof (induction n)
  case (Suc n)
  show ?case unfolding rep.simps
    by (rule yields_rbind [OF Suc.prems], rule yields_rbind [OF Suc.IH [OF Suc.prems]], rule yields_ret) simp
qed (simp add: yields_ret)

lemma yields_parse_string: "yields (parse_string what) utf8_valid"
  unfolding parse_string_def
  by (rule yields_rbind [OF yields_True], rule yields_with_pos, rule yields_rbind [OF yields_True])
    (simp add: yields)

lemma unat_u64_max: "unat (w :: 64 word) \<le> u64_max"
  using unsigned_less [of w, where 'a = nat] by (simp add: u64_max_def)

text \<open>A tensor record as the table parser builds it, before its length is known.\<close>

definition raw_tensor :: "GgufTensor \<Rightarrow> bool" where
  "raw_tensor t \<longleftrightarrow> t_name t \<noteq> [] \<and> utf8_valid (t_name t) \<and> 1 \<le> length (t_shape t) \<and> length (t_shape t) \<le> 8
     \<and> (\<forall>d\<in>set (t_shape t). d \<le> u64_max) \<and> canonical (t_dtype t)"

lemma yields_parse_tensor: "yields parse_tensor raw_tensor"
  unfolding parse_tensor_def
proof (rule yields_rbind [OF yields_parse_string], intro yields_if yields_with_pos yields_throw)
  fix name assume name: "utf8_valid name" "name \<noteq> []"
  show "yields (rbind (rmap unat le_u32) (\<lambda>n_dims.
       if n_dims = 0 then throw (InvalidTensor name ''zero dimensions'')
       else if 8 < n_dims then throw (InvalidTensor name ''too many dimensions'')
       else rbind (rep n_dims (rmap unat le_u64)) (\<lambda>shape.
         rbind (rmap (\<lambda>c. from_code (unat c)) le_u32) (\<lambda>dtype.
           rbind (rmap unat le_u64) (\<lambda>offset.
             ret \<lparr>t_name = name, t_shape = shape, t_dtype = dtype, t_offset = offset, t_length = 0\<rparr>))))) raw_tensor"
  proof (rule yields_rbind [OF yields_True], intro yields_if yields_throw)
    fix n :: nat assume n: "n \<noteq> 0" "\<not> 8 < n"
    show "yields (rbind (rep n (rmap unat le_u64)) (\<lambda>shape.
         rbind (rmap (\<lambda>c. from_code (unat c)) le_u32) (\<lambda>dtype.
           rbind (rmap unat le_u64) (\<lambda>offset.
             ret \<lparr>t_name = name, t_shape = shape, t_dtype = dtype, t_offset = offset, t_length = 0\<rparr>)))) raw_tensor"
      by (rule yields_rbind [OF yields_rep [where P = "\<lambda>d. d \<le> u64_max"]],
          rule yields_rmap, rule unat_u64_max,
          rule yields_rbind [where Q = canonical], rule yields_rmap, rule canonical_from_code,
          rule yields_rbind [OF yields_True], rule yields_ret)
        (use name n in \<open>auto simp: raw_tensor_def\<close>)
  qed
qed

section \<open>The lengths and the name index\<close>

text \<open>A tensor of a parsed file of \<open>n\<close> bytes.\<close>

definition tensor_ok :: "nat \<Rightarrow> GgufTensor \<Rightarrow> bool" where
  "tensor_ok n t \<longleftrightarrow> raw_tensor t \<and> offset_aligned t \<and> t_offset t + t_length t \<le> n
     \<and> (\<exists>elems. element_count t = Some elems
          \<and> (size_known (t_dtype t) \<longrightarrow> size_bytes (t_dtype t) elems = Some (t_length t)))"

definition before :: "GgufTensor \<Rightarrow> GgufTensor \<Rightarrow> bool" where
  "before t u \<longleftrightarrow> t_offset t + t_length t \<le> t_offset u"

lemma finalize_one_Ok:
  assumes "finalize_one n limit t = Ok t'"
  shows "\<exists>len elems. t' = t\<lparr>t_length := len\<rparr> \<and> offset_aligned t \<and> t_offset t \<le> n \<and> t_offset t + len \<le> limit
     \<and> element_count t = Some elems \<and> (size_known (t_dtype t) \<longrightarrow> size_bytes (t_dtype t) elems = Some len)"
  using assms by (auto simp: finalize_one_def Let_def offset_aligned_def split: if_splits option.splits)

lemma element_count_length [simp]: "element_count (t\<lparr>t_length := len\<rparr>) = element_count t"
  "offset_aligned (t\<lparr>t_length := len\<rparr>) = offset_aligned t"
  by (simp_all add: element_count_def offset_aligned_def)

lemma finalize_Ok:
  assumes "finalize_tensor_lengths n ts = Ok ts'"
  shows "map t_name ts' = map t_name ts" "map t_offset ts' = map t_offset ts"
    "\<forall>t\<in>set ts. raw_tensor t \<Longrightarrow> \<forall>t\<in>set ts'. tensor_ok n t"
    "sorted_wrt before ts'"
  using assms
proof (atomize (full), induction ts arbitrary: ts')
  case (Cons t ts)
  define limit where "limit = (case ts of [] \<Rightarrow> n | u # _ \<Rightarrow> t_offset u)"
  from Cons.prems obtain t' us where one: "finalize_one n limit t = Ok t'"
    and rest: "finalize_tensor_lengths n ts = Ok us" and ts': "ts' = t' # us"
    by (auto simp: limit_def)
  note ih = Cons.IH [OF rest]
  obtain len elems where t': "t' = t\<lparr>t_length := len\<rparr>" "offset_aligned t" "t_offset t \<le> n"
    "t_offset t + len \<le> limit" "element_count t = Some elems"
    "size_known (t_dtype t) \<longrightarrow> size_bytes (t_dtype t) elems = Some len"
    using finalize_one_Ok [OF one] by blast
  have us: "map t_offset us = map t_offset ts" "sorted_wrt before us" using ih by auto
  have limit: "limit \<le> n"
  proof (cases ts)
    case (Cons u vs)
    obtain w ws where w: "us = w # ws" using us(1) Cons by (cases us) auto
    have "finalize_one n (case vs of [] \<Rightarrow> n | u # _ \<Rightarrow> t_offset u) u = Ok w" using rest Cons w by auto
    from finalize_one_Ok [OF this] show ?thesis using Cons by (auto simp: limit_def)
  qed (simp add: limit_def)
  have first: "before t' u" if u: "u \<in> set us" for u
  proof (cases us)
    case (Cons w ws)
    then have "limit = t_offset w" using us(1) by (cases ts) (auto simp: limit_def)
    moreover have "t_offset w \<le> t_offset u" using u us(2) Cons by (auto simp: before_def)
    ultimately show ?thesis using t' by (simp add: before_def)
  qed (use u in simp)
  show ?case
  proof (intro conjI impI)
    assume raw: "\<forall>x\<in>set (t # ts). raw_tensor x"
    then have "tensor_ok n t'" using t' limit by (auto simp: tensor_ok_def raw_tensor_def)
    then show "\<forall>x\<in>set ts'. tensor_ok n x" using ih raw ts' by simp
  qed (use ih ts' t'(1) first in auto)
qed simp

lemma index_names_Ok:
  "index_names i ts m = Ok m' \<Longrightarrow>
     distinct (map t_name ts) \<and> (\<forall>t\<in>set ts. m (t_name t) = None)
     \<and> (\<forall>k<length ts. m' (t_name (ts ! k)) = Some ((i + k) mod 2 ^ 32))
     \<and> (\<forall>s. s \<notin> t_name ` set ts \<longrightarrow> m' s = m s)"
proof (induction ts arbitrary: i m)
  case (Cons t ts)
  have new: "m (t_name t) = None" and rest: "index_names (i + 1) ts (m(t_name t \<mapsto> i mod 2 ^ 32)) = Ok m'"
    using Cons.prems by (auto split: if_splits)
  note ih = Cons.IH [OF rest]
  have fresh: "t_name t \<notin> t_name ` set ts" using ih by (auto split: if_splits)
  then have old: "m (t_name u) = None" if "u \<in> set ts" for u using ih that by (auto split: if_splits)
  have "m' (t_name t) = Some (i mod 2 ^ 32)" using ih fresh by auto
  then have "m' (t_name ((t # ts) ! k)) = Some ((i + k) mod 2 ^ 32)" if "k < length (t # ts)" for k
    using ih that by (cases k) auto
  then show ?case using ih fresh new old by auto
qed simp

lemma index_names_ok:
  "distinct (map t_name ts) \<Longrightarrow> (\<forall>t\<in>set ts. m (t_name t) = None) \<Longrightarrow> \<exists>m'. index_names i ts m = Ok m'"
proof (induction ts arbitrary: i m)
  case (Cons t ts)
  have "\<forall>u\<in>set ts. (m(t_name t \<mapsto> i mod 2 ^ 32)) (t_name u) = None"
    using Cons.prems by (auto simp: image_iff)
  then have "\<exists>m'. index_names (i + 1) ts (m(t_name t \<mapsto> i mod 2 ^ 32)) = Ok m'"
    by (intro Cons.IH) (use Cons.prems in simp_all)
  then show ?case using Cons.prems by simp
qed simp

section \<open>Parsed files\<close>

lemma stable_keeps: "stable_on c m \<Longrightarrow> rg_ok c g \<Longrightarrow> m g pos = Ok (x, g', pos') \<Longrightarrow> rg_ok c g'"
  using stable_onD [of c m g g pos] by simp

lemma parse_OkE:
  assumes src: "byte_source rd c" "length c \<le> u64_max" and ok: "gguf_parse rd (length c) = Ok r"
  obtains ts where "\<forall>t\<in>set ts. raw_tensor t" "finalize_tensor_lengths (length c) ts = Ok (gr_tensors r)"
    "index_names 0 (gr_tensors r) Map.empty = Ok (gr_by_name r)" "gr_source r = rd" "gr_file_len r = length c"
    "length (gr_tensors r) \<le> length c div 32"
proof -
  from ok obtain nt nk g m g1 p g2 q ts by_name where
    head: "parse_header \<lparr>rg_source = rd, rg_file_len = length c, rg_buf = []\<rparr> = Ok ((nt, nk), g)"
    and meta: "parse_metadata nk g = Ok (m, g1, p)" and ts: "parse_tensors nt g1 p = Ok (ts, g2, q)"
    and idx: "index_names 0 ts Map.empty = Ok by_name"
    and r: "r = \<lparr>gr_source = rd, gr_file_len = length c, gr_meta = m, gr_tensors = ts, gr_by_name = by_name\<rparr>"
    unfolding gguf_parse_def by auto
  have g: "rg_ok c g" using parse_header_stable [OF rg_ok_start rg_ok_start, OF src src] head by auto
  have g1: "rg_ok c g1" by (rule stable_keeps [OF stable_meta_loop g meta [unfolded parse_metadata_def]])
  have nt: "nt \<le> length c div 32"
    using head rg_okD(2) [OF g] by (auto simp: parse_header_def Let_def split: if_splits)
  from ts obtain raw g' pos where raw: "rep nt parse_tensor g1 p = Ok (raw, g', pos)"
    and fin: "finalize_tensor_lengths (rg_file_len g') raw = Ok ts"
    by (auto simp: parse_tensors_def rbind_def with_file_len_def)
  have "rg_ok c g'" by (rule stable_keeps [OF stable_rep [OF stable_parse_tensor] g1 raw])
  then have fin: "finalize_tensor_lengths (length c) raw = Ok ts" using fin by (simp add: rg_okD(2))
  have y: "length raw = nt \<and> (\<forall>t\<in>set raw. raw_tensor t)"
    using yieldsD [OF yields_rep [OF yields_parse_tensor] raw] by simp
  moreover have "length ts = length raw" using finalize_Ok(1) [OF fin] by (metis length_map)
  ultimately show thesis using that [of raw] fin idx r nt by simp
qed

lemma tensor_data_slice:
  assumes src: "byte_source (gr_source r) c" "length c \<le> u64_max" "gr_file_len r = length c"
    and inside: "t_offset t + t_length t \<le> length c"
  shows "tensor_data r t = Ok (take (t_length t) (drop (t_offset t) c))"
proof -
  have "fill (gr_source r) (t_offset t) (t_length t) [] = Ok (take (t_length t) (drop (t_offset t) c))"
    by (rule byte_source.fill_contents [OF src(1)]) simp_all
  then show ?thesis using src inside by (simp add: tensor_data_def chk_add_def)
qed

end
