(* ===== verification/Gguf_Fixture.thy ===== *)
theory Gguf_Fixture
  imports Gguf_Tensors
begin

text \<open>
  The GGUF writer of the test suite (\<^verbatim>\<open>crates/gguf/src/fixture.rs\<close>). A function that appends to
  the vector \<^verbatim>\<open>w\<close> is modelled by the bytes it appends; \<open>pad_to\<close> and the data area look at
  the length of the vector and take it as an argument.
\<close>

section \<open>Model\<close>

record FixtureTensor =
  f_name :: str
  f_shape :: "nat list"
  f_dtype :: GgufDtype
  f_data :: "u8 list"

definition align32 :: "nat \<Rightarrow> nat" where
  "align32 n = (n + GGUF_ALIGNMENT - 1) div GGUF_ALIGNMENT * GGUF_ALIGNMENT"

definition pad_to :: "u8 list \<Rightarrow> nat \<Rightarrow> u8 list" where
  "pad_to w n = w @ replicate (max n (length w) - length w) 0"

definition str_len :: "str \<Rightarrow> nat" where
  "str_len s = 8 + length s"

text \<open>\<^verbatim>\<open>to_le_bytes\<close>, with the truncation of \<^verbatim>\<open>as u32\<close> where the code casts.\<close>

fun to_le :: "nat \<Rightarrow> nat \<Rightarrow> u8 list" where
  "to_le 0 n = []"
| "to_le (Suc k) n = word_of_nat (n mod 256) # to_le k (n div 256)"

definition push_u16 :: "nat \<Rightarrow> u8 list" where
  "push_u16 v = to_le 2 v"

definition push_u32 :: "nat \<Rightarrow> u8 list" where
  "push_u32 v = to_le 4 v"

definition push_u64 :: "nat \<Rightarrow> u8 list" where
  "push_u64 v = to_le 8 v"

definition push_str :: "str \<Rightarrow> u8 list" where
  "push_str s = push_u64 (length s) @ s"

fun array_len :: "ArrayValue \<Rightarrow> nat" where
  "array_len (A_U8 v) = 4 + 8 + length v"
| "array_len (A_I8 v) = 4 + 8 + length v"
| "array_len (A_U16 v) = 4 + 8 + 2 * length v"
| "array_len (A_I16 v) = 4 + 8 + 2 * length v"
| "array_len (A_U32 v) = 4 + 8 + 4 * length v"
| "array_len (A_I32 v) = 4 + 8 + 4 * length v"
| "array_len (A_F32 v) = 4 + 8 + 4 * length v"
| "array_len (A_Bool v) = 4 + 8 + length v"
| "array_len (A_Str v) = 4 + 8 + sum_list (map str_len v)"
| "array_len (A_U64 v) = 4 + 8 + 8 * length v"
| "array_len (A_I64 v) = 4 + 8 + 8 * length v"
| "array_len (A_F64 v) = 4 + 8 + 8 * length v"
| "array_len (A_Nested v) = 4 + 8 + sum_list (map array_len v)"

fun value_len :: "MetaValue \<Rightarrow> nat" where
  "value_len (M_U8 x) = 4 + 1"
| "value_len (M_I8 x) = 4 + 1"
| "value_len (M_U16 x) = 4 + 2"
| "value_len (M_I16 x) = 4 + 2"
| "value_len (M_U32 x) = 4 + 4"
| "value_len (M_I32 x) = 4 + 4"
| "value_len (M_F32 x) = 4 + 4"
| "value_len (M_Bool x) = 4 + 1"
| "value_len (M_Str s) = 4 + str_len s"
| "value_len (M_U64 x) = 4 + 8"
| "value_len (M_I64 x) = 4 + 8"
| "value_len (M_F64 x) = 4 + 8"
| "value_len (M_Array a) = 4 + array_len a"

fun push_array :: "ArrayValue \<Rightarrow> u8 list" where
  "push_array (A_U8 v) = push_u32 TC_U8 @ push_u64 (length v) @ v"
| "push_array (A_I8 v) = push_u32 TC_I8 @ push_u64 (length v) @ v"
| "push_array (A_U16 v) = push_u32 TC_U16 @ push_u64 (length v) @ concat (map (\<lambda>x. push_u16 (unat x)) v)"
| "push_array (A_I16 v) = push_u32 TC_I16 @ push_u64 (length v) @ concat (map (\<lambda>x. push_u16 (unat x)) v)"
| "push_array (A_U32 v) = push_u32 TC_U32 @ push_u64 (length v) @ concat (map (\<lambda>x. push_u32 (unat x)) v)"
| "push_array (A_I32 v) = push_u32 TC_I32 @ push_u64 (length v) @ concat (map (\<lambda>x. push_u32 (unat x)) v)"
| "push_array (A_F32 v) = push_u32 TC_F32 @ push_u64 (length v) @ concat (map (\<lambda>x. push_u32 (unat x)) v)"
| "push_array (A_Bool v) = push_u32 TC_BOOL @ push_u64 (length v) @ map of_bool v"
| "push_array (A_Str v) = push_u32 TC_STR @ push_u64 (length v) @ concat (map push_str v)"
| "push_array (A_U64 v) = push_u32 TC_U64 @ push_u64 (length v) @ concat (map (\<lambda>x. push_u64 (unat x)) v)"
| "push_array (A_I64 v) = push_u32 TC_I64 @ push_u64 (length v) @ concat (map (\<lambda>x. push_u64 (unat x)) v)"
| "push_array (A_F64 v) = push_u32 TC_F64 @ push_u64 (length v) @ concat (map (\<lambda>x. push_u64 (unat x)) v)"
| "push_array (A_Nested v) = push_u32 TC_ARRAY @ push_u64 (length v) @ concat (map push_array v)"

fun push_value :: "MetaValue \<Rightarrow> u8 list" where
  "push_value (M_U8 x) = push_u32 TC_U8 @ [x]"
| "push_value (M_I8 x) = push_u32 TC_I8 @ [x]"
| "push_value (M_U16 x) = push_u32 TC_U16 @ push_u16 (unat x)"
| "push_value (M_I16 x) = push_u32 TC_I16 @ push_u16 (unat x)"
| "push_value (M_U32 x) = push_u32 TC_U32 @ push_u32 (unat x)"
| "push_value (M_I32 x) = push_u32 TC_I32 @ push_u32 (unat x)"
| "push_value (M_F32 x) = push_u32 TC_F32 @ push_u32 (unat x)"
| "push_value (M_Bool x) = push_u32 TC_BOOL @ [of_bool x]"
| "push_value (M_Str s) = push_u32 TC_STR @ push_str s"
| "push_value (M_U64 x) = push_u32 TC_U64 @ push_u64 (unat x)"
| "push_value (M_I64 x) = push_u32 TC_I64 @ push_u64 (unat x)"
| "push_value (M_F64 x) = push_u32 TC_F64 @ push_u64 (unat x)"
| "push_value (M_Array a) = push_u32 TC_ARRAY @ push_array a"

text \<open>The table of the tensors laid out from \<open>offset\<close>, and their data.\<close>

fun tensor_table :: "nat \<Rightarrow> FixtureTensor list \<Rightarrow> u8 list" where
  "tensor_table offset [] = []"
| "tensor_table offset (t # ts) =
     push_str (f_name t) @ push_u32 (length (f_shape t)) @ concat (map push_u64 (f_shape t))
     @ push_u32 (type_code (f_dtype t)) @ push_u64 offset
     @ tensor_table (align32 (offset + length (f_data t))) ts"

fun data_area :: "u8 list \<Rightarrow> FixtureTensor list \<Rightarrow> u8 list" where
  "data_area w [] = w"
| "data_area w (t # ts) = data_area (pad_to (w @ f_data t) (align32 (length (w @ f_data t)))) ts"

definition build_gguf :: "nat \<Rightarrow> (str \<times> MetaValue) list \<Rightarrow> FixtureTensor list \<Rightarrow> u8 list" where
  "build_gguf version kvs tensors =
     (let meta_len = sum_list (map (\<lambda>(k, v). str_len k + 4 + value_len v) kvs);
        info_len = sum_list (map (\<lambda>t. str_len (f_name t) + 4 + 8 * length (f_shape t) + 4 + 8) tensors);
        data_start = align32 (HEADER_SIZE + meta_len + info_len);
        w = GGUF_MAGIC @ push_u32 version @ push_u64 (length tensors) @ push_u64 (length kvs)
          @ concat (map (\<lambda>(k, v). push_str k @ push_value v) kvs) @ tensor_table data_start tensors
      in data_area (pad_to w data_start) tensors)"

section \<open>Numbers and strings\<close>

lemma length_to_le [simp]: "length (to_le k n) = k"
  by (induction k n rule: to_le.induct) auto

lemma length_push [simp]: "length (push_u16 n) = 2" "length (push_u32 n) = 4" "length (push_u64 n) = 8"
  "length (push_str s) = str_len s"
  by (simp_all add: push_u16_def push_u32_def push_u64_def push_str_def str_len_def)

lemma from_le_to_le: "from_le (to_le k n) = n mod 256 ^ k"
proof (induction k n rule: to_le.induct)
  case (2 k n)
  have "unat (word_of_nat (n mod 256) :: u8) = n mod 256"
    by (simp add: unat_of_nat)
  then show ?case using 2 by (simp add: mod_mult2_eq)
qed simp

lemma parses_number:
  assumes "unat (w :: 'a::len word) < 256 ^ k"
  shows "parses (rmap (\<lambda>bs. word_of_nat (from_le bs)) (take_n k)) (to_le k (unat w)) w"
proof -
  have "word_of_nat (from_le (to_le k (unat w))) = w" using assms by (simp add: from_le_to_le)
  then show ?thesis
    using parses_rmap [OF parses_take_n [of "to_le k (unat w)"], of "\<lambda>bs. word_of_nat (from_le bs) :: 'a word"]
    by simp
qed

lemma unat_bounds: "unat (w :: 8 word) < 256 ^ 1" "unat (w2 :: 16 word) < 256 ^ 2"
  "unat (w4 :: 32 word) < 256 ^ 4" "unat (w8 :: 64 word) < 256 ^ 8"
  using unsigned_less [of w, where 'a = nat] unsigned_less [of w2, where 'a = nat]
    unsigned_less [of w4, where 'a = nat] unsigned_less [of w8, where 'a = nat] by simp_all

lemma to_le_1: "to_le 1 (unat w) = [w]" for w :: u8
  using unat_bounds(1) [of w] by (simp add: One_nat_def)

lemma parses_words [parses]:
  "parses le_u8 [b] b" "parses le_u16 (push_u16 (unat w2)) w2" "parses le_u32 (push_u32 (unat w4)) w4"
  "parses le_f32 (push_u32 (unat w4)) w4" "parses le_u64 (push_u64 (unat w8)) w8"
  "parses le_f64 (push_u64 (unat w8)) w8"
  unfolding le_u8_def le_u16_def le_u32_def le_f32_def le_u64_def le_f64_def push_u16_def push_u32_def push_u64_def
  by (rule parses_number [OF unat_bounds(1), of b, unfolded to_le_1]
      parses_number [OF unat_bounds(2)] parses_number [OF unat_bounds(3)] parses_number [OF unat_bounds(4)])+

lemma parses_nat32 [parses]: "n < 2 ^ 32 \<Longrightarrow> parses (rmap unat le_u32) (push_u32 n) n"
  using parses_rmap [OF parses_words(3), of unat "word_of_nat n"] by (simp add: unat_of_nat)

lemma parses_nat64 [parses]: "n \<le> u64_max \<Longrightarrow> parses (rmap unat le_u64) (push_u64 n) n"
  using parses_rmap [OF parses_words(5), of unat "word_of_nat n"] by (simp add: unat_of_nat u64_max_def)

text \<open>A Rust \<^verbatim>\<open>String\<close>: well-formed UTF-8, of a length that fits \<^verbatim>\<open>usize\<close>.\<close>

definition str_wf :: "str \<Rightarrow> bool" where
  "str_wf s \<longleftrightarrow> utf8_valid s \<and> length s \<le> u64_max"

lemma parses_str [parses]:
  assumes "str_wf s"
  shows "parses (parse_string what) (push_str s) s"
proof -
  have len: "unat (word_of_nat (length s) :: 64 word) = length s"
    using assms by (simp add: str_wf_def unat_of_nat u64_max_def)
  have "parses (rbind (take_n (length s)) (\<lambda>bytes.
      if utf8_valid bytes then ret bytes else throw (Malformed what pos))) s s" for pos
    by (rule parses_last [OF parses_take_n]) (use assms in \<open>simp add: str_wf_def parses_ret\<close>)
  then have "parses (with_pos (\<lambda>pos. rbind (take_n (length s)) (\<lambda>bytes.
      if utf8_valid bytes then ret bytes else throw (Malformed what pos)))) s s"
    by (rule parses_with_pos)
  note tail = this
  show ?thesis
    unfolding parse_string_def push_str_def
    by (rule parses_rbind [OF parses_words(5) [of "word_of_nat (length s)", unfolded len]])
      (unfold len, rule tail)
qed

end
