(* ===== verification/Gguf_Roundtrip.thy ===== *)
theory Gguf_Roundtrip
  imports Gguf_Fixture
begin

text \<open>
  The parser reads back what the writer writes: the metadata values, the tensor table with its
  lengths, and the data of every tensor.
\<close>

section \<open>Arrays and values\<close>

text \<open>
  The values of the language: strings are well-formed, vector lengths fit \<^verbatim>\<open>usize\<close>, and arrays
  are nested no deeper than the parser accepts.
\<close>

fun array_wf :: "nat \<Rightarrow> ArrayValue \<Rightarrow> bool" where
  "array_wf depth (A_Str v) \<longleftrightarrow> depth < MAX_ARRAY_DEPTH \<and> length v \<le> u64_max \<and> (\<forall>s\<in>set v. str_wf s)"
| "array_wf depth (A_Nested v) \<longleftrightarrow>
     depth < MAX_ARRAY_DEPTH \<and> length v \<le> u64_max \<and> (\<forall>a\<in>set v. array_wf (depth + 1) a)"
| "array_wf depth (A_U8 v) \<longleftrightarrow> depth < MAX_ARRAY_DEPTH \<and> length v \<le> u64_max"
| "array_wf depth (A_I8 v) \<longleftrightarrow> depth < MAX_ARRAY_DEPTH \<and> length v \<le> u64_max"
| "array_wf depth (A_U16 v) \<longleftrightarrow> depth < MAX_ARRAY_DEPTH \<and> length v \<le> u64_max"
| "array_wf depth (A_I16 v) \<longleftrightarrow> depth < MAX_ARRAY_DEPTH \<and> length v \<le> u64_max"
| "array_wf depth (A_U32 v) \<longleftrightarrow> depth < MAX_ARRAY_DEPTH \<and> length v \<le> u64_max"
| "array_wf depth (A_I32 v) \<longleftrightarrow> depth < MAX_ARRAY_DEPTH \<and> length v \<le> u64_max"
| "array_wf depth (A_F32 v) \<longleftrightarrow> depth < MAX_ARRAY_DEPTH \<and> length v \<le> u64_max"
| "array_wf depth (A_Bool v) \<longleftrightarrow> depth < MAX_ARRAY_DEPTH \<and> length v \<le> u64_max"
| "array_wf depth (A_U64 v) \<longleftrightarrow> depth < MAX_ARRAY_DEPTH \<and> length v \<le> u64_max"
| "array_wf depth (A_I64 v) \<longleftrightarrow> depth < MAX_ARRAY_DEPTH \<and> length v \<le> u64_max"
| "array_wf depth (A_F64 v) \<longleftrightarrow> depth < MAX_ARRAY_DEPTH \<and> length v \<le> u64_max"

fun value_wf :: "MetaValue \<Rightarrow> bool" where
  "value_wf (M_Str s) = str_wf s"
| "value_wf (M_Array a) = array_wf 0 a"
| "value_wf _ = True"

lemma parses_items:
  assumes "\<And>x. x \<in> set xs \<Longrightarrow> parses m (enc x) x"
  shows "parses (rep (length xs) m) (concat (map enc xs)) xs"
  by (rule parses_rep) (simp add: list_all2_conv_all_nth assms)

lemma length_items: "(\<And>x. x \<in> set xs \<Longrightarrow> 1 \<le> length (enc x)) \<Longrightarrow> length xs \<le> length (concat (map enc xs))"
proof (induction xs)
  case (Cons x xs)
  then have "1 \<le> length (enc x)" "length xs \<le> length (concat (map enc xs))" by simp_all
  then show ?case by simp
qed simp

text \<open>The part of the array parser after the element code and the count.\<close>

definition array_body :: "nat \<Rightarrow> nat \<Rightarrow> nat \<Rightarrow> nat \<Rightarrow> nat \<Rightarrow> ArrayValue reader" where
  "array_body depth elem n file_len pos =
     (if file_len < n then throw (Malformed ''array count implausible'' (pos - 8))
      else if elem = TC_U8 then rmap A_U8 (rep n le_u8)
      else if elem = TC_I8 then rmap A_I8 (rep n le_u8)
      else if elem = TC_U16 then rmap A_U16 (rep n le_u16)
      else if elem = TC_I16 then rmap A_I16 (rep n le_u16)
      else if elem = TC_U32 then rmap A_U32 (rep n le_u32)
      else if elem = TC_I32 then rmap A_I32 (rep n le_u32)
      else if elem = TC_F32 then rmap A_F32 (rep n le_f32)
      else if elem = TC_BOOL then rmap A_Bool (rep n (rmap (\<lambda>b. b \<noteq> 0) le_u8))
      else if elem = TC_STR then rmap A_Str (rep n (parse_string ''array string item''))
      else if elem = TC_U64 then rmap A_U64 (rep n le_u64)
      else if elem = TC_I64 then rmap A_I64 (rep n le_u64)
      else if elem = TC_F64 then rmap A_F64 (rep n le_f64)
      else if elem = TC_ARRAY then rmap A_Nested (rep n (parse_array (depth + 1)))
      else throw (Malformed ''unknown array element type'' (pos - 4)))"

lemma parse_array_body:
  "depth < MAX_ARRAY_DEPTH \<Longrightarrow> parse_array depth =
     rbind (rmap unat le_u32) (\<lambda>elem. rbind (rmap unat le_u64) (\<lambda>n.
       with_file_len (\<lambda>file_len. with_pos (\<lambda>pos. array_body depth elem n file_len pos))))"
  by (subst parse_array.simps) (simp only: array_body_def [abs_def] not_le [symmetric] if_not_P if_False)

lemma parses_array:
  assumes depth: "depth < MAX_ARRAY_DEPTH" and code: "code < 2 ^ 32" and len: "length xs \<le> u64_max"
    and enc: "\<And>x. x \<in> set xs \<Longrightarrow> parses m (enc x) x" "\<And>x. x \<in> set xs \<Longrightarrow> 1 \<le> length (enc x)"
    and body: "\<And>fl pos. length xs \<le> fl \<Longrightarrow> array_body depth code (length xs) fl pos = rmap con (rep (length xs) m)"
  shows "parses (parse_array depth) (push_u32 code @ push_u64 (length xs) @ concat (map enc xs)) (con xs)"
proof -
  have l: "length xs \<le> length (concat (map enc xs))" using enc(2) by (rule length_items)
  have items: "parses (rmap con (rep (length xs) m)) (concat (map enc xs)) (con xs)"
    by (intro parses_rmap parses_items enc(1))
  show ?thesis
    unfolding parse_array_body [OF depth]
    by (rule parses_rbind [OF parses_nat32 [OF code]], rule parses_rbind [OF parses_nat64 [OF len]],
        rule parses_with_file_len, rule parses_with_pos, subst body) (use l items in simp_all)
qed

lemma length_push_array: "12 \<le> length (push_array a)"
  by (cases a) simp_all

lemma concat_singletons: "concat (map (\<lambda>x. [f x]) xs) = map f xs"
  by (induction xs) simp_all

lemma parses_bool: "parses (rmap (\<lambda>b. b \<noteq> 0) le_u8) [of_bool x] x"
  using parses_rmap [OF parses_words(1) [of "of_bool x"], of "\<lambda>b. b \<noteq> 0"] by simp

lemma parses_push_array: "array_wf depth a \<Longrightarrow> parses (parse_array depth) (push_array a) a"
proof (induction a arbitrary: depth)
  case (A_U8 v)
  then show ?case using parses_array [of depth TC_U8 v le_u8 "\<lambda>x. [x]" A_U8]
    by (simp add: parses_words array_body_def concat_singletons)
next
  case (A_I8 v)
  then show ?case using parses_array [of depth TC_I8 v le_u8 "\<lambda>x. [x]" A_I8]
    by (simp add: parses_words array_body_def concat_singletons)
next
  case (A_Bool v)
  then show ?case using parses_array [of depth TC_BOOL v "rmap (\<lambda>b. b \<noteq> 0) le_u8" "\<lambda>x. [of_bool x]" A_Bool]
    by (simp add: parses_bool array_body_def concat_singletons)
next
  case (A_Str v)
  then show ?case using parses_array [of depth TC_STR v "parse_string ''array string item''" push_str A_Str]
    by (simp add: parses_str array_body_def str_len_def)
next
  case (A_Nested v)
  have "1 \<le> length (push_array a)" for a using length_push_array [of a] by linarith
  then show ?case
    using A_Nested parses_array [of depth TC_ARRAY v "parse_array (depth + 1)" push_array A_Nested]
    by (simp add: array_body_def)
qed (simp_all add: parses_array [where enc = "\<lambda>x. push_u16 (unat x)" and m = le_u16]
    parses_array [where enc = "\<lambda>x. push_u32 (unat x)" and m = le_u32]
    parses_array [where enc = "\<lambda>x. push_u32 (unat x)" and m = le_f32]
    parses_array [where enc = "\<lambda>x. push_u64 (unat x)" and m = le_u64]
    parses_array [where enc = "\<lambda>x. push_u64 (unat x)" and m = le_f64]
    parses_words array_body_def)

lemma push_value_split:
  assumes "value_wf v"
  obtains code body where "push_value v = push_u32 code @ body" "code < 2 ^ 32" "parses (parse_value code) body v"
proof (cases v)
  case (M_Array a)
  then show thesis using assms that [of TC_ARRAY "push_array a"] parses_rmap [OF parses_push_array [of 0 a], of M_Array]
    by (simp add: parse_value_def)
next
  case (M_Bool b)
  then show thesis using that [of TC_BOOL "[of_bool b]"] parses_rmap [OF parses_words(1) [of "of_bool b"], of "\<lambda>b. M_Bool (b \<noteq> 0)"]
    by (simp add: parse_value_def)
qed (use assms in \<open>auto intro!: that parses_rmap parses_words parses_str simp: parse_value_def\<close>)

lemma parses_meta_loop:
  "\<forall>(k, v)\<in>set kvs. str_wf k \<and> value_wf v \<Longrightarrow>
   parses (meta_loop (length kvs) m) (concat (map (\<lambda>(k, v). push_str k @ push_value v) kvs))
     (fold (\<lambda>(k, v). bt_insert k v) kvs m)"
proof (induction kvs arbitrary: m)
  case (Cons kv kvs)
  obtain k v where kv: "kv = (k, v)" by (cases kv)
  have wf: "str_wf k" "value_wf v" "\<forall>(k, v)\<in>set kvs. str_wf k \<and> value_wf v" using Cons.prems kv by auto
  obtain code body where v: "push_value v = push_u32 code @ body" "code < 2 ^ 32" "parses (parse_value code) body v"
    using push_value_split [OF wf(2)] by blast
  have bytes: "concat (map (\<lambda>(k, v). push_str k @ push_value v) (kv # kvs)) =
      push_str k @ push_u32 code @ body @ concat (map (\<lambda>(k, v). push_str k @ push_value v) kvs)"
    using kv v(1) by simp
  show ?case
    unfolding bytes list.size(4) add_0_right add_Suc_right One_nat_def meta_loop.simps
    by (rule parses_rbind [OF parses_str [OF wf(1)]], rule parses_rbind [OF parses_nat32 [OF v(2)]],
        rule parses_rbind [OF v(3)]) (use Cons.IH [OF wf(3), of "bt_insert k v m"] kv in simp)
qed (simp add: parses_ret)

section \<open>The tensor table\<close>

definition fixture_wf :: "FixtureTensor \<Rightarrow> bool" where
  "fixture_wf t \<longleftrightarrow> str_wf (f_name t) \<and> f_name t \<noteq> [] \<and> 1 \<le> length (f_shape t) \<and> length (f_shape t) \<le> 8
     \<and> (\<forall>d\<in>set (f_shape t). d \<le> u64_max) \<and> canonical (f_dtype t) \<and> type_code (f_dtype t) < 2 ^ 32
     \<and> (case fold_opt (\<lambda>d acc. chk_mul acc d) (f_shape t) 1 of None \<Rightarrow> False
        | Some n \<Rightarrow> size_known (f_dtype t) \<longrightarrow> size_bytes (f_dtype t) n = Some (length (f_data t)))"

text \<open>The tensors with the offsets the writer gives them, as the parser describes them.\<close>

fun placed :: "nat \<Rightarrow> FixtureTensor list \<Rightarrow> (nat \<times> FixtureTensor) list" where
  "placed offset [] = []"
| "placed offset (t # ts) = (offset, t) # placed (align32 (offset + length (f_data t))) ts"

fun area_end :: "nat \<Rightarrow> FixtureTensor list \<Rightarrow> nat" where
  "area_end offset [] = offset"
| "area_end offset (t # ts) = area_end (align32 (offset + length (f_data t))) ts"

definition stored_length :: "FixtureTensor \<Rightarrow> nat" where
  "stored_length t = (if size_known (f_dtype t) then length (f_data t) else align32 (length (f_data t)))"

definition described :: "nat \<Rightarrow> FixtureTensor \<Rightarrow> nat \<Rightarrow> GgufTensor" where
  "described offset t len = \<lparr>t_name = f_name t, t_shape = f_shape t, t_dtype = f_dtype t, t_offset = offset, t_length = len\<rparr>"

lemma parses_tensor_entry:
  assumes "fixture_wf t" "offset \<le> u64_max"
  shows "parses parse_tensor (push_str (f_name t) @ push_u32 (length (f_shape t)) @ concat (map push_u64 (f_shape t))
     @ push_u32 (type_code (f_dtype t)) @ push_u64 offset) (described offset t 0)"
proof -
  note wf = assms [unfolded fixture_wf_def]
  have dims: "parses (rmap unat le_u32) (push_u32 (length (f_shape t))) (length (f_shape t))"
    using wf by (intro parses_nat32) simp
  have shape: "parses (rep (length (f_shape t)) (rmap unat le_u64)) (concat (map push_u64 (f_shape t))) (f_shape t)"
    using wf by (intro parses_items parses_nat64) simp
  have dtype: "parses (rmap (\<lambda>c. from_code (unat c)) le_u32) (push_u32 (type_code (f_dtype t))) (f_dtype t)"
  proof -
    have "parses (rmap (\<lambda>c. from_code (unat c)) le_u32) (push_u32 (unat (word_of_nat (type_code (f_dtype t)) :: 32 word)))
        (from_code (unat (word_of_nat (type_code (f_dtype t)) :: 32 word)))"
      by (rule parses_rmap [OF parses_words(3)])
    moreover have "unat (word_of_nat (type_code (f_dtype t)) :: 32 word) = type_code (f_dtype t)"
      using wf by (simp add: unat_of_nat)
    moreover have "from_code (type_code (f_dtype t)) = f_dtype t" using wf by (simp add: from_code_type_code_iff)
    ultimately show ?thesis by (simp only:)
  qed
  show ?thesis
    unfolding parse_tensor_def
    by (rule parses_rbind [OF parses_str], use wf in simp,
        simp only: wf if_False, rule parses_rbind [OF dims])
      (use wf in \<open>auto intro!: parses_rbind [OF shape] parses_rbind [OF dtype] parses_last [OF parses_nat64] parses_ret
         simp: described_def\<close>)
qed

lemma parses_tensor_table:
  assumes "\<forall>t\<in>set ts. fixture_wf t" "\<forall>(offset, t)\<in>set (placed offset ts). offset \<le> u64_max"
  shows "parses (rep (length ts) parse_tensor) (tensor_table offset ts) (map (\<lambda>(offset, t). described offset t 0) (placed offset ts))"
  using assms
proof (induction ts arbitrary: offset)
  case (Cons t ts)
  let ?next = "align32 (offset + length (f_data t))"
  have entry: "parses parse_tensor (push_str (f_name t) @ push_u32 (length (f_shape t)) @ concat (map push_u64 (f_shape t))
     @ push_u32 (type_code (f_dtype t)) @ push_u64 offset) (described offset t 0)"
    using Cons.prems by (intro parses_tensor_entry) auto
  have "parses (rep (length ts) parse_tensor) (tensor_table ?next ts) (map (\<lambda>(offset, t). described offset t 0) (placed ?next ts))"
    using Cons.prems by (intro Cons.IH) auto
  then show ?case
    using parses_rbind [OF entry parses_last [OF _ parses_ret]] by fastforce
qed (simp add: parses_ret)

section \<open>Layout\<close>

lemma align32_props: "align32 n mod 32 = 0" "n \<le> align32 n" "m mod 32 = 0 \<Longrightarrow> align32 (m + n) = m + align32 n"
proof -
  show "align32 n mod 32 = 0" "n \<le> align32 n" by (simp_all add: align32_def GGUF_ALIGNMENT_def)
  assume "m mod 32 = 0"
  then obtain k where "m = 32 * k" by auto
  then have "(m + n + 31) div 32 * 32 = m + (n + 31) div 32 * 32"
    using div_mult_self1 [of 32 "n + 31" k] by (simp add: algebra_simps)
  then show "align32 (m + n) = m + align32 n"
    by (simp add: align32_def GGUF_ALIGNMENT_def add.commute add.left_commute)
qed

lemma area_end_ge: "offset \<le> area_end offset ts"
proof (induction ts arbitrary: offset)
  case (Cons t ts)
  show ?case using Cons [of "align32 (offset + length (f_data t))"] align32_props(2) [of "offset + length (f_data t)"]
    by simp
qed simp

lemma placed_bounds:
  "offset mod 32 = 0 \<Longrightarrow> (x, t) \<in> set (placed offset ts) \<Longrightarrow>
     x mod 32 = 0 \<and> offset \<le> x \<and> x + align32 (length (f_data t)) \<le> area_end offset ts"
proof (induction ts arbitrary: offset)
  case (Cons u ts)
  let ?next = "align32 (offset + length (f_data u))"
  have nxt: "?next = offset + align32 (length (f_data u))" using align32_props(3) Cons.prems by simp
  show ?case
  proof (cases "(x, t) \<in> set (placed ?next ts)")
    case True
    show ?thesis using Cons.IH [OF align32_props(1) True] nxt by simp
  next
    case False
    then have "x = offset" "t = u" using Cons.prems by auto
    then show ?thesis using Cons.prems nxt area_end_ge [of ?next ts] by simp
  qed
qed simp

lemma map_snd_placed [simp]: "map snd (placed offset ts) = ts"
  by (induction offset ts rule: placed.induct) simp_all

lemma length_placed [simp]: "length (placed offset ts) = length ts"
  by (induction offset ts rule: placed.induct) simp_all

text \<open>The bytes of the data area: every tensor's data followed by zeros up to the alignment.\<close>

definition padded :: "u8 list \<Rightarrow> u8 list" where
  "padded bs = bs @ replicate (align32 (length bs) - length bs) 0"

lemma length_padded [simp]: "length (padded bs) = align32 (length bs)"
  using align32_props(2) [of "length bs"] by (simp add: padded_def)

lemma pad_step:
  "length w mod 32 = 0 \<Longrightarrow> pad_to (w @ bs) (align32 (length (w @ bs))) = w @ padded bs"
  using align32_props(2) [of "length bs"] align32_props(3) [of "length w" "length bs"]
  by (simp add: pad_to_def padded_def)

lemma length_pad_step:
  "length w mod 32 = 0 \<Longrightarrow> length (w @ padded bs) mod 32 = 0 \<and> length (w @ padded bs) = align32 (length w + length bs)"
  using align32_props(3) [of "length w" "length bs"] align32_props(1) [of "length w + length bs"] by simp

lemma data_area_step:
  "length w mod 32 = 0 \<Longrightarrow> data_area w (t # ts) = data_area (w @ padded (f_data t)) ts"
  by (simp only: data_area.simps pad_step)

lemma data_area_padded:
  "length w mod 32 = 0 \<Longrightarrow> data_area w ts = w @ concat (map (\<lambda>t. padded (f_data t)) ts)"
proof (induction ts arbitrary: w)
  case (Cons t ts)
  have "length (w @ padded (f_data t)) mod 32 = 0" using length_pad_step [OF Cons.prems] by blast
  then show ?case unfolding data_area_step [OF Cons.prems] by (subst Cons.IH) simp_all
qed simp

lemma length_data_area:
  "length w mod 32 = 0 \<Longrightarrow> length (data_area w ts) = area_end (length w) ts"
proof (induction ts arbitrary: w)
  case (Cons t ts)
  have len: "length (w @ padded (f_data t)) mod 32 = 0"
    "length (w @ padded (f_data t)) = align32 (length w + length (f_data t))"
    using length_pad_step [OF Cons.prems] by blast+
  show ?case unfolding data_area_step [OF Cons.prems] Cons.IH [OF len(1)] area_end.simps len(2) ..
qed simp

lemma data_at:
  assumes "length w mod 32 = 0" "(x, t) \<in> set (placed (length w) ts)"
  shows "take (align32 (length (f_data t))) (drop x (data_area w ts)) = padded (f_data t)"
  using assms
proof (induction ts arbitrary: w)
  case (Cons u ts)
  let ?v = "w @ padded (f_data u)"
  have v: "length ?v mod 32 = 0" "length ?v = align32 (length w + length (f_data u))"
    using length_pad_step [OF Cons.prems(1)] by blast+
  show ?case
  proof (cases "(x, t) \<in> set (placed (length ?v) ts)")
    case True
    show ?thesis unfolding data_area_step [OF Cons.prems(1)] by (rule Cons.IH [OF v(1) True])
  next
    case False
    then have xt: "x = length w" "t = u" using Cons.prems(2) v(2) by auto
    have "drop x (data_area w (u # ts)) = padded (f_data u) @ concat (map (\<lambda>t. padded (f_data t)) ts)"
      unfolding data_area_padded [OF Cons.prems(1)] xt by simp
    then show ?thesis using xt by simp
  qed
qed simp

section \<open>The lengths\<close>

lemma finalize_placed:
  assumes "offset mod 32 = 0" "area_end offset ts = n" "n \<le> u64_max" "\<forall>t\<in>set ts. fixture_wf t"
  shows "finalize_tensor_lengths n (map (\<lambda>(x, t). described x t 0) (placed offset ts)) =
    Ok (map (\<lambda>(x, t). described x t (stored_length t)) (placed offset ts))"
  using assms
proof (induction ts arbitrary: offset)
  case (Cons t ts)
  let ?next = "align32 (offset + length (f_data t))"
  have limit: "(case map (\<lambda>(x, t). described x t 0) (placed ?next ts) of [] \<Rightarrow> n | u # _ \<Rightarrow> t_offset u) = ?next"
    using Cons.prems(2) by (cases ts) (simp_all add: described_def)
  have nxt: "?next = offset + align32 (length (f_data t))" using align32_props(3) Cons.prems by simp
  have bound: "?next \<le> n" using area_end_ge [of ?next ts] Cons.prems(2) by simp
  have le: "length (f_data t) \<le> align32 (length (f_data t))" by (rule align32_props)
  have "finalize_one n ?next (described offset t 0) = Ok (described offset t (stored_length t))"
  proof -
    obtain elems where elems: "fold_opt (\<lambda>d acc. chk_mul acc d) (f_shape t) 1 = Some elems"
      "size_known (f_dtype t) \<longrightarrow> size_bytes (f_dtype t) elems = Some (length (f_data t))"
      using Cons.prems(4) by (auto simp: fixture_wf_def split: option.splits)
    have ec: "element_count (described offset t 0) = Some elems" using elems(1) by (simp add: element_count_def described_def)
    show ?thesis
      using Cons.prems(1,3) elems(2) nxt bound le
      by (simp add: finalize_one_def ec Let_def)
        (simp add: described_def stored_length_def GGUF_ALIGNMENT_def chk_add_def chk_sub_def)
  qed
  moreover have "finalize_tensor_lengths n (map (\<lambda>(x, t). described x t 0) (placed ?next ts)) =
      Ok (map (\<lambda>(x, t). described x t (stored_length t)) (placed ?next ts))"
    by (rule Cons.IH [OF align32_props(1)]) (use Cons.prems in simp_all)
  ultimately show ?case using limit by simp
qed simp

section \<open>The whole file\<close>

lemma length_push_array_eq: "length (push_array a) = array_len a"
proof (induction a)
  case (A_Nested v)
  then have "sum_list (map (\<lambda>x. length (push_array x)) v) = sum_list (map array_len v)"
    by (intro arg_cong [where f = sum_list] map_cong) auto
  then show ?case by (simp add: length_concat comp_def)
qed (simp_all add: length_concat comp_def sum_list_triv)

lemma length_push_value: "length (push_value v) = value_len v"
  by (cases v) (simp_all add: length_push_array_eq)

lemma value_len_ge: "5 \<le> value_len v"
proof (cases v)
  case (M_Array a)
  then show ?thesis using length_push_array [of a] by (simp add: length_push_array_eq)
qed (simp_all add: str_len_def)

lemma length_tensor_table:
  "length (tensor_table offset ts) = sum_list (map (\<lambda>t. str_len (f_name t) + 4 + 8 * length (f_shape t) + 4 + 8) ts)"
proof (induction ts arbitrary: offset)
  case (Cons t ts)
  have "length (concat (map push_u64 (f_shape t))) = 8 * length (f_shape t)"
    by (simp add: length_concat comp_def sum_list_triv)
  then show ?case using Cons by simp
qed simp

definition kv_bytes :: "(str \<times> MetaValue) list \<Rightarrow> u8 list" where
  "kv_bytes kvs = concat (map (\<lambda>(k, v). push_str k @ push_value v) kvs)"

lemma length_kv_bytes:
  "13 * length kvs \<le> length (kv_bytes kvs)
   \<and> length (kv_bytes kvs) \<le> sum_list (map (\<lambda>(k, v). str_len k + 4 + value_len v) kvs)"
proof (induction kvs)
  case (Cons kv kvs)
  obtain k v where "kv = (k, v)" by (cases kv)
  then show ?case using Cons value_len_ge [of v] by (simp add: kv_bytes_def str_len_def length_push_value)
qed (simp add: kv_bytes_def)

lemma length_table_ge:
  "\<forall>t\<in>set ts. fixture_wf t \<Longrightarrow> 32 * length ts \<le> length (tensor_table offset ts)"
  unfolding length_tensor_table
proof (induction ts)
  case (Cons t ts)
  then have "1 \<le> length (f_name t)" "1 \<le> length (f_shape t)" by (auto simp: fixture_wf_def Suc_le_eq)
  then show ?case using Cons by (simp add: str_len_def)
qed simp

definition header_bytes :: "nat \<Rightarrow> nat \<Rightarrow> nat \<Rightarrow> u8 list" where
  "header_bytes version n_tensors n_kv = GGUF_MAGIC @ push_u32 version @ push_u64 n_tensors @ push_u64 n_kv"

lemma length_header [simp]: "length (header_bytes v nt nk) = HEADER_SIZE"
  by (simp add: header_bytes_def GGUF_MAGIC_def HEADER_SIZE_def)

lemma parse_header_bytes:
  assumes c: "c = header_bytes version nt nk @ post" and ok: "rg_ok c rg"
    and v: "version = 2 \<or> version = 3" and nk: "nk \<le> length c div 13" and nt: "nt \<le> length c div 32"
  obtains rg' where "parse_header rg = Ok ((nt, nk), rg')" "rg_ok c rg'"
proof -
  have "HEADER_SIZE \<le> length c" using c by simp
  then obtain g where g: "need HEADER_SIZE rg = Ok g" "rg_ok c g" "take HEADER_SIZE (rg_buf g) = take HEADER_SIZE c"
    using need_ok [OF ok] by blast
  have buf: "take HEADER_SIZE c = header_bytes version nt nk" using c by simp
  have le: "nt \<le> u64_max" "nk \<le> u64_max" using nt nk rg_okD(3) [OF ok] by (meson div_le_dividend le_trans)+
  have fields: "take 4 (header_bytes version nt nk) = GGUF_MAGIC" "le_u32_buf (header_bytes version nt nk) 4 = version"
    "le_u64_buf (header_bytes version nt nk) 8 = nt" "le_u64_buf (header_bytes version nt nk) 16 = nk"
    using v le by (auto simp: header_bytes_def GGUF_MAGIC_def le_u32_buf_def le_u64_buf_def from_le_to_le
        push_u32_def push_u64_def u64_max_def)
  have "parse_header rg = Ok ((nt, nk), g)"
    unfolding parse_header_def g(1) res_bind.simps g(3) buf Let_def fields rg_okD(2) [OF g(2)]
    using v nk nt by auto
  then show thesis using that g(2) by blast
qed

lemma build_gguf_shape:
  obtains start pad where
    "build_gguf version kvs ts = data_area (header_bytes version (length ts) (length kvs) @ kv_bytes kvs @ tensor_table start ts @ pad) ts"
    "length (header_bytes version (length ts) (length kvs) @ kv_bytes kvs @ tensor_table start ts @ pad) = start"
    "start mod 32 = 0"
proof -
  define n where "n = HEADER_SIZE + sum_list (map (\<lambda>(k, v). str_len k + 4 + value_len v) kvs)
    + sum_list (map (\<lambda>t. str_len (f_name t) + 4 + 8 * length (f_shape t) + 4 + 8) ts)"
  define w where "w = header_bytes version (length ts) (length kvs) @ kv_bytes kvs @ tensor_table (align32 n) ts"
  have build: "build_gguf version kvs ts = data_area (pad_to w (align32 n)) ts"
    by (simp add: build_gguf_def Let_def w_def n_def header_bytes_def kv_bytes_def)
  have "length w \<le> n" using length_kv_bytes [of kvs] by (simp add: w_def n_def length_tensor_table)
  then have le: "length w \<le> align32 n" using align32_props(2) [of n] by linarith
  have "build_gguf version kvs ts = data_area (w @ replicate (align32 n - length w) 0) ts"
    unfolding build using le by (simp add: pad_to_def max_def)
  then show thesis
    using that [of "align32 n" "replicate (align32 n - length w) 0"] le align32_props(1) [of n] by (simp add: w_def)
qed

lemma map_placed: "map (\<lambda>(x, t). f t) (placed offset ts) = map f ts"
  by (induction offset ts rule: placed.induct) simp_all

lemma roundtrip_main:
  assumes version: "version = 2 \<or> version = 3" and kvs: "\<forall>(k, v)\<in>set kvs. str_wf k \<and> value_wf v"
    and ts: "\<forall>t\<in>set ts. fixture_wf t" and names: "distinct (map f_name ts)"
    and size: "length (build_gguf version kvs ts) \<le> u64_max"
  obtains r start where "from_bytes (build_gguf version kvs ts) = Ok r" "gr_meta r = from_kvs kvs"
    "gr_tensors r = map (\<lambda>(x, t). described x t (stored_length t)) (placed start ts)"
    "\<And>x t. (x, t) \<in> set (placed start ts) \<Longrightarrow>
       tensor_data r (described x t (stored_length t)) = Ok (take (stored_length t) (padded (f_data t)))"
proof -
  define c where "c = build_gguf version kvs ts"
  obtain start pad where build: "c = data_area (header_bytes version (length ts) (length kvs) @ kv_bytes kvs @ tensor_table start ts @ pad) ts"
    and start: "length (header_bytes version (length ts) (length kvs) @ kv_bytes kvs @ tensor_table start ts @ pad) = start" "start mod 32 = 0"
    unfolding c_def by (rule build_gguf_shape [of version kvs ts])
  define w where "w = header_bytes version (length ts) (length kvs) @ kv_bytes kvs @ tensor_table start ts @ pad"
  have w: "length w = start" "length w mod 32 = 0" and cw: "c = data_area w ts" using start build by (simp_all add: w_def)
  define post where "post = pad @ concat (map (\<lambda>t. padded (f_data t)) ts)"
  have c: "c = header_bytes version (length ts) (length kvs) @ kv_bytes kvs @ tensor_table start ts @ post"
    unfolding cw data_area_padded [OF w(2)] by (simp add: w_def post_def)
  have len: "length c \<le> u64_max" "area_end start ts = length c"
    using size length_data_area [OF w(2), of ts] w(1) cw by (simp_all add: c_def)
  have bounds: "x mod 32 = 0 \<and> x + align32 (length (f_data t)) \<le> length c" if "(x, t) \<in> set (placed start ts)" for x t
    using placed_bounds [OF start(2) that] len(2) by simp
  define rg0 where "rg0 = \<lparr>rg_source = mem_read_at c, rg_file_len = length c, rg_buf = []\<rparr>"
  have ok0: "rg_ok c rg0" unfolding rg0_def by (rule rg_ok_start [OF mem.byte_source_axioms len(1)])
  have "length (kv_bytes kvs) \<le> length c" "length (tensor_table start ts) \<le> length c" using c by simp_all
  then have counts: "length kvs \<le> length c div 13" "length ts \<le> length c div 32"
    using conjunct1 [OF length_kv_bytes [of kvs]] length_table_ge [OF ts, of start] by simp_all
  obtain rg1 where rg1: "parse_header rg0 = Ok ((length ts, length kvs), rg1)" "rg_ok c rg1"
    using parse_header_bytes [OF c ok0 version counts] by blast
  obtain rg2 where rg2: "rg_ok c rg2" "parse_metadata (length kvs) rg1 = Ok (from_kvs kvs, rg2, HEADER_SIZE + length (kv_bytes kvs))"
    using parsesD [OF parses_meta_loop [OF kvs, of "[]", folded kv_bytes_def],
        of "header_bytes version (length ts) (length kvs)" "tensor_table start ts @ post" rg1] rg1(2) c
    by (auto simp: parse_metadata_def from_kvs_def)
  have offs: "\<forall>(x, t)\<in>set (placed start ts). x \<le> u64_max" using bounds len(1) by fastforce
  obtain rg3 pos where rg3: "rg_ok c rg3" "rep (length ts) parse_tensor rg2 (HEADER_SIZE + length (kv_bytes kvs)) =
      Ok (map (\<lambda>(x, t). described x t 0) (placed start ts), rg3, pos)"
    using parsesD [OF parses_tensor_table [OF ts offs],
        of "header_bytes version (length ts) (length kvs) @ kv_bytes kvs" "post" rg2] rg2(1) c by auto
  define fin where "fin = map (\<lambda>(x, t). described x t (stored_length t)) (placed start ts)"
  have "finalize_tensor_lengths (length c) (map (\<lambda>(x, t). described x t 0) (placed start ts)) = Ok fin"
    unfolding fin_def by (rule finalize_placed [OF start(2) len(2,1) ts])
  then have tensors: "parse_tensors (length ts) rg2 (HEADER_SIZE + length (kv_bytes kvs)) = Ok (fin, rg3, pos)"
    using rg3 by (simp add: parse_tensors_def rbind_def with_file_len_def rg_okD(2))
  have "map t_name fin = map f_name ts"
    unfolding fin_def map_map map_placed [of f_name start ts, symmetric] by (auto simp: described_def)
  then obtain m where m: "index_names 0 fin Map.empty = Ok m"
    using index_names_ok [of fin Map.empty 0] names by auto
  define r where "r = \<lparr>gr_source = mem_read_at c, gr_file_len = length c, gr_meta = from_kvs kvs, gr_tensors = fin, gr_by_name = m\<rparr>"
  have "from_bytes c = Ok r"
    unfolding from_bytes_def gguf_parse_def rg0_def [symmetric] using rg1(1) rg2(2) tensors m by (simp add: r_def)
  moreover have "tensor_data r (described x t (stored_length t)) = Ok (take (stored_length t) (padded (f_data t)))"
    if xt: "(x, t) \<in> set (placed start ts)" for x t
  proof -
    have le: "stored_length t \<le> align32 (length (f_data t))" using align32_props(2) by (simp add: stored_length_def)
    have "tensor_data r (described x t (stored_length t)) = Ok (take (stored_length t) (drop x c))"
      using tensor_data_slice [of r c "described x t (stored_length t)"] bounds [OF xt] le len(1)
      by (simp add: r_def described_def mem.byte_source_axioms)
    also have "take (stored_length t) (drop x c) = take (stored_length t) (take (align32 (length (f_data t))) (drop x c))"
      using le by (simp add: min_def)
    also have "\<dots> = take (stored_length t) (padded (f_data t))"
      using data_at [OF w(2), of x t ts] xt w(1) cw by simp
    finally show ?thesis .
  qed
  ultimately show thesis using that [of r start] by (simp add: r_def fin_def c_def)
qed

end
