(* ===== verification/Gguf_Claims.thy ===== *)
theory Gguf_Claims
  imports Gguf_Roundtrip
begin

text \<open>
  The properties of the GGUF reader: the round trip with the writer, the tensor table of a parsed
  file, the independence of the way the source delivers the bytes, and the overflow of a string
  length.
\<close>

section \<open>A small file\<close>

definition demo_kvs :: "(str \<times> MetaValue) list" where
  "demo_kvs = [([0x61], M_U8 7), ([0x62], M_Array (A_Nested [A_Str [[0x78]], A_Bool [True]])), ([0x61], M_I16 5)]"

definition demo_tensors :: "FixtureTensor list" where
  "demo_tensors =
    [\<lparr>f_name = [0x74], f_shape = [2], f_dtype = D_F16, f_data = [1, 2, 3, 4]\<rparr>,
     \<lparr>f_name = [0x75], f_shape = [7], f_dtype = D_Q4_K, f_data = [9]\<rparr>]"

lemmas demo_eval = demo_kvs_def demo_tensors_def str_wf_def cont_def u64_max_def MAX_ARRAY_DEPTH_def
  fixture_wf_def canonical_def dtype_codes_def size_known_def chk_mul_def

lemma demo_wf: "\<forall>(k, v)\<in>set demo_kvs. str_wf k \<and> value_wf v" "\<forall>t\<in>set demo_tensors. fixture_wf t"
  "distinct (map f_name demo_tensors)"
  by (simp_all add: demo_eval)

lemma demo_size: "length (build_gguf 3 demo_kvs demo_tensors) = 256"
  by (simp add: build_gguf_def Let_def demo_eval str_len_def align32_def GGUF_ALIGNMENT_def HEADER_SIZE_def
      GGUF_MAGIC_def pad_to_def)

lemma demo_file: "length (build_gguf 3 demo_kvs demo_tensors) \<le> u64_max"
  by (simp add: demo_size u64_max_def)

section \<open>Round trip\<close>

lemma meta_get_from_kvs: "meta_get (from_kvs kvs) key = map_of (rev kvs) key"
proof -
  have "map_of (fold (\<lambda>(k, v). bt_insert k v) kvs m) = map_of m ++ map_of (rev kvs)" for m
    by (induction kvs arbitrary: m) (auto simp: map_add_def split: option.splits)
  then show ?thesis by (simp add: meta_get_def from_kvs_def)
qed

text \<open>
  C26: The parser reads back every file the writer produces. For key-value pairs, strings and arrays
  (nested within the depth limit) of any content, and for tensors whose data has the length their
  type and shape prescribe, the metadata lookups return the last value written under each key, the
  table lists the tensors in order with name, shape and type, and reading a tensor returns its data;
  a type without a size formula is returned with the padding that follows it.
\<close>

theorem gguf_roundtrip:
  assumes "version = 2 \<or> version = 3" "\<forall>(k, v)\<in>set kvs. str_wf k \<and> value_wf v"
    and "\<forall>t\<in>set ts. fixture_wf t" "distinct (map f_name ts)" "length (build_gguf version kvs ts) \<le> u64_max"
  shows "\<exists>r. from_bytes (build_gguf version kvs ts) = Ok r
    \<and> meta_get (gr_meta r) = map_of (rev kvs)
    \<and> map (\<lambda>t. (t_name t, t_shape t, t_dtype t)) (gr_tensors r) = map (\<lambda>t. (f_name t, f_shape t, f_dtype t)) ts
    \<and> map (tensor_data r) (gr_tensors r) =
        map (\<lambda>t. Ok (if size_known (f_dtype t) then f_data t else padded (f_data t))) ts"
proof -
  obtain r start where r: "from_bytes (build_gguf version kvs ts) = Ok r" "gr_meta r = from_kvs kvs"
    "gr_tensors r = map (\<lambda>(x, t). described x t (stored_length t)) (placed start ts)"
    and data: "\<And>x t. (x, t) \<in> set (placed start ts) \<Longrightarrow>
       tensor_data r (described x t (stored_length t)) = Ok (take (stored_length t) (padded (f_data t)))"
    by (rule roundtrip_main [OF assms]) blast
  have "meta_get (gr_meta r) = map_of (rev kvs)" by (rule ext) (simp add: r(2) meta_get_from_kvs)
  moreover have "map (\<lambda>t. (t_name t, t_shape t, t_dtype t)) (gr_tensors r) = map (\<lambda>t. (f_name t, f_shape t, f_dtype t)) ts"
    unfolding r(3) map_map map_placed [of "\<lambda>t. (f_name t, f_shape t, f_dtype t)" start ts, symmetric]
    by (auto simp: described_def)
  moreover have "take (stored_length t) (padded (f_data t)) = (if size_known (f_dtype t) then f_data t else padded (f_data t))" for t
    by (simp add: stored_length_def) (simp add: padded_def)
  then have "map (tensor_data r) (gr_tensors r) =
        map (\<lambda>t. Ok (if size_known (f_dtype t) then f_data t else padded (f_data t))) ts"
    unfolding r(3) map_map map_placed [of "\<lambda>t. Ok (if size_known (f_dtype t) then f_data t else padded (f_data t))" start ts, symmetric]
    by (auto simp: data)
  ultimately show ?thesis using r(1) by blast
qed

theorem gguf_roundtrip_witness:
  "\<exists>r. from_bytes (build_gguf 3 demo_kvs demo_tensors) = Ok r
    \<and> meta_get (gr_meta r) [0x61] = Some (M_I16 5)
    \<and> map (tensor_data r) (gr_tensors r) = [Ok [1, 2, 3, 4], Ok (padded [9])]"
proof -
  obtain r where "from_bytes (build_gguf 3 demo_kvs demo_tensors) = Ok r"
    "meta_get (gr_meta r) = map_of (rev demo_kvs)"
    "map (tensor_data r) (gr_tensors r) =
        map (\<lambda>t. Ok (if size_known (f_dtype t) then f_data t else padded (f_data t))) demo_tensors"
    using gguf_roundtrip [OF _ demo_wf demo_file] by auto
  then show ?thesis by (simp add: demo_kvs_def demo_tensors_def size_known_def)
qed

lemma demo_parse: "\<exists>r. gguf_parse (mem_read_at (build_gguf 3 demo_kvs demo_tensors)) 256 = Ok r \<and> length (gr_tensors r) = 2"
proof -
  obtain r start where r: "from_bytes (build_gguf 3 demo_kvs demo_tensors) = Ok r"
    "gr_tensors r = map (\<lambda>(x, t). described x t (stored_length t)) (placed start demo_tensors)"
    by (rule roundtrip_main [OF disjI2 [OF refl] demo_wf demo_file]) blast
  have "length (gr_tensors r) = length demo_tensors"
    by (simp add: r(2))
  moreover have "length demo_tensors = 2" by (simp add: demo_tensors_def)
  ultimately show ?thesis using r(1) by (auto simp: from_bytes_def demo_size)
qed

lemma demo_parse_first:
  "\<exists>r t. gguf_parse (mem_read_at (build_gguf 3 demo_kvs demo_tensors)) 256 = Ok r
     \<and> t \<in> set (gr_tensors r) \<and> t_dtype t = D_F16 \<and> t_shape t = [2]"
proof -
  obtain r start where r: "from_bytes (build_gguf 3 demo_kvs demo_tensors) = Ok r"
    "gr_tensors r = map (\<lambda>(x, t). described x t (stored_length t)) (placed start demo_tensors)"
    by (rule roundtrip_main [OF disjI2 [OF refl] demo_wf demo_file]) blast
  have "\<exists>t\<in>set (gr_tensors r). t_dtype t = D_F16 \<and> t_shape t = [2]"
    by (simp add: r(2)) (simp add: demo_tensors_def described_def)
  then show ?thesis using r(1) by (auto simp: from_bytes_def demo_size)
qed

section \<open>The tensor table of any parsed file\<close>

lemma parsed_tensors:
  assumes "byte_source rd c" "length c \<le> u64_max" "gguf_parse rd (length c) = Ok r"
  shows "(\<forall>t\<in>set (gr_tensors r). tensor_ok (length c) t
          \<and> tensor_data r t = Ok (take (t_length t) (drop (t_offset t) c)))
    \<and> sorted_wrt before (gr_tensors r) \<and> distinct (map t_name (gr_tensors r))
    \<and> (length c < 2 ^ 37 \<longrightarrow> (\<forall>i<length (gr_tensors r). tensor r (t_name (gr_tensors r ! i)) = Some (gr_tensors r ! i)))
    \<and> (\<forall>s. s \<notin> t_name ` set (gr_tensors r) \<longrightarrow> tensor r s = None)"
proof -
  obtain ts where ts: "\<forall>t\<in>set ts. raw_tensor t" "finalize_tensor_lengths (length c) ts = Ok (gr_tensors r)"
    and idx: "index_names 0 (gr_tensors r) Map.empty = Ok (gr_by_name r)"
    and src: "gr_source r = rd" "gr_file_len r = length c"
    and len: "length (gr_tensors r) \<le> length c div 32"
    by (rule parse_OkE [OF assms]) blast
  note fin = finalize_Ok [OF ts(2)]
  have ok: "\<forall>t\<in>set (gr_tensors r). tensor_ok (length c) t" by (rule fin(3) [OF ts(1)])
  moreover have "tensor_data r t = Ok (take (t_length t) (drop (t_offset t) c))" if "t \<in> set (gr_tensors r)" for t
    by (rule tensor_data_slice) (use assms src ok that in \<open>auto simp: tensor_ok_def\<close>)
  moreover have "tensor r (t_name (gr_tensors r ! i)) = Some (gr_tensors r ! i)"
    if "length c < 2 ^ 37" "i < length (gr_tensors r)" for i
  proof -
    have "length c div 32 < 2 ^ 32" using that(1) by (simp add: less_mult_imp_div_less)
    then have "i < 2 ^ 32" using that(2) len by linarith
    then show ?thesis using index_names_Ok [OF idx] that(2) by (simp add: tensor_def)
  qed
  ultimately show ?thesis using fin(4) index_names_Ok [OF idx] by (simp add: tensor_def)
qed

text \<open>
  C27: What a successful parse of any file guarantees. Every tensor has a non-empty well-formed name,
  one to eight dimensions, an aligned offset and a range inside the file, as long as its type and
  shape prescribe where the type has a size; the ranges are in file order and never overlap; the
  names are distinct, a lookup by name finds exactly its tensor (for files below 128 GiB, so that the
  index fits) and no other name is found; and reading a tensor succeeds, however short the reads of
  the source are, with exactly the bytes of its range, counted from the start of the file.
\<close>

theorem gguf_parsed_tensors:
  assumes "byte_source rd c" "length c \<le> u64_max" "gguf_parse rd (length c) = Ok r"
  shows "(\<forall>t\<in>set (gr_tensors r). tensor_ok (length c) t
          \<and> tensor_data r t = Ok (take (t_length t) (drop (t_offset t) c)))
    \<and> sorted_wrt before (gr_tensors r) \<and> distinct (map t_name (gr_tensors r))
    \<and> (length c < 2 ^ 37 \<longrightarrow> (\<forall>i<length (gr_tensors r). tensor r (t_name (gr_tensors r ! i)) = Some (gr_tensors r ! i)))
    \<and> (\<forall>s. s \<notin> t_name ` set (gr_tensors r) \<longrightarrow> tensor r s = None)"
  by (rule parsed_tensors [OF assms])

theorem gguf_parsed_tensors_witness:
  "\<exists>r. gguf_parse (mem_read_at (build_gguf 3 demo_kvs demo_tensors)) 256 = Ok r
    \<and> length (gr_tensors r) = 2 \<and> sorted_wrt before (gr_tensors r)"
proof -
  obtain r where "gguf_parse (mem_read_at (build_gguf 3 demo_kvs demo_tensors)) 256 = Ok r" "length (gr_tensors r) = 2"
    using demo_parse by blast
  then show ?thesis using gguf_parsed_tensors [OF mem.byte_source_axioms demo_file] by (simp add: demo_size)
qed

section \<open>The source\<close>

text \<open>A source that delivers one byte per call.\<close>

definition one_byte_source :: "u8 list \<Rightarrow> source" where
  "one_byte_source c offset n = Some (take (min n 1) (drop offset c))"

interpretation one_byte: byte_source "one_byte_source c" c
proof
  fix off n :: nat assume "off < length c" "0 < n"
  then show "\<exists>k. 0 < k \<and> k \<le> n \<and> one_byte_source c off n = Some (take k (drop off c))"
    by (intro exI [of _ 1]) (simp add: one_byte_source_def min_absorb2 Suc_leI)
qed (simp add: one_byte_source_def)

text \<open>
  C28: The block-wise buffer is transparent: whatever positive number of bytes each call of the source
  delivers, parsing gives the same outcome (the same reader, the same error, or a panic alike) as
  parsing the same bytes from memory.
\<close>

theorem gguf_source_independent:
  assumes "byte_source rd c" "length c \<le> u64_max"
  shows "map_res reader_view id (gguf_parse rd (length c)) = map_res reader_view id (from_bytes c)"
  unfolding from_bytes_def by (rule parse_same [OF assms(1) mem.byte_source_axioms assms(2)])

theorem gguf_source_independent_witness:
  "\<exists>r. gguf_parse (one_byte_source (build_gguf 3 demo_kvs demo_tensors)) 256 = Ok r \<and> length (gr_tensors r) = 2"
proof -
  let ?c = "build_gguf 3 demo_kvs demo_tensors"
  have eq: "map_res reader_view id (gguf_parse (one_byte_source ?c) 256) = map_res reader_view id (from_bytes ?c)"
    using gguf_source_independent [OF one_byte.byte_source_axioms demo_file] by (simp add: demo_size)
  obtain r where r: "from_bytes ?c = Ok r" "length (gr_tensors r) = 2"
    using demo_parse by (auto simp: from_bytes_def demo_size)
  then obtain r' where "gguf_parse (one_byte_source ?c) 256 = Ok r'" "reader_view r' = reader_view r"
    using eq by (cases "gguf_parse (one_byte_source ?c) 256") auto
  then show ?thesis using r by (auto simp: reader_view_def)
qed

section \<open>Overflow\<close>

text \<open>
  A string length near the largest \<^verbatim>\<open>u64\<close> makes the loader panic instead of reporting a malformed
  file: the end of the string is computed as \<^verbatim>\<open>*pos + len\<close> before it is compared with the file.
  Thirty-two bytes suffice.
\<close>

theorem gguf_length_overflow_panics:
  assumes "version = 2 \<or> version = 3" "0 < n_kv" "c = header_bytes version 0 n_kv @ push_u64 len @ post"
    and "n_kv \<le> length c div 13" "length c \<le> u64_max" "len \<le> u64_max" "u64_max < 32 + len"
  shows "from_bytes c = Panic"
proof -
  define rg0 where "rg0 = \<lparr>rg_source = mem_read_at c, rg_file_len = length c, rg_buf = []\<rparr>"
  have ok0: "rg_ok c rg0" unfolding rg0_def by (rule rg_ok_start [OF mem.byte_source_axioms assms(5)])
  obtain rg1 where rg1: "parse_header rg0 = Ok ((0, n_kv), rg1)" "rg_ok c rg1"
    using parse_header_bytes [OF assms(3) ok0 assms(1,4)] by auto
  obtain n where n: "n_kv = Suc n" using assms(2) by (cases n_kv) auto
  have l: "unat (word_of_nat len :: 64 word) = len" using assms(6) by (simp add: unat_of_nat u64_max_def)
  obtain rg2 where rg2: "rg_ok c rg2" "le_u64 rg1 HEADER_SIZE = Ok (word_of_nat len, rg2, 32)"
    using parsesD [OF parses_words(5) [of "word_of_nat len", unfolded l], of "header_bytes version 0 n_kv" post rg1]
      rg1(2) assms(3) by (auto simp: HEADER_SIZE_def)
  have "take_n len rg2 32 = Panic" using assms(7) by (simp add: take_n_def chk_add_def)
  then have "parse_metadata n_kv rg1 = Panic"
    by (simp add: parse_metadata_def n parse_string_def rbind_def with_pos_def rg2(2) l)
  then show ?thesis unfolding from_bytes_def gguf_parse_def rg0_def [symmetric] using rg1(1) by simp
qed

theorem gguf_length_overflow_panics_witness:
  "from_bytes (header_bytes 3 0 1 @ push_u64 (2 ^ 64 - 1) @ []) = Panic"
  by (rule gguf_length_overflow_panics [where n_kv = 1 and version = 3 and len = "2 ^ 64 - 1" and post = "[]"])
    (simp_all add: u64_max_def HEADER_SIZE_def)

text \<open>
  The type codes round-trip: every code of the file is kept, and exactly the data types that do
  not hide a named type behind \<^verbatim>\<open>Other\<close> come back from their code.
\<close>

theorem dtype_code_roundtrip:
  "type_code (from_code c) = c \<and> (from_code (type_code d) = d \<longleftrightarrow> canonical d)"
  by (simp add: from_code_type_code_iff)

end
