(* ===== verification/Gguf_Codes.thy ===== *)
theory Gguf_Codes
  imports Gguf_Tensors Float_Round "HOL-Library.While_Combinator"
begin

unbundle bit_operations_syntax

text \<open>
  The decoding of tensor data (\<^verbatim>\<open>crates/gguf/src/codes.rs\<close>): half precision, blocks of eight-bit
  integers with a half-precision scale, and plain single precision.

  \<open>f16_to_f32\<close> works on bit patterns as the code does. What a pattern denotes is an \<open>fval\<close>: a
  sign and a magnitude, an infinity, or not a number (whose payload the language leaves open).
  The single-precision product is rounded to nearest, ties to even, with gradual underflow
  and overflow to infinity. Buffers of \<^verbatim>\<open>f32\<close> are lists of such values.
\<close>

section \<open>Floating-point values\<close>

datatype fval = Fin bool rat | Inf bool | NaN

text \<open>The value of a pattern with \<open>p\<close> fraction bits and exponent bias \<open>b\<close>.\<close>

definition decode :: "nat \<Rightarrow> nat \<Rightarrow> bool \<Rightarrow> nat \<Rightarrow> nat \<Rightarrow> fval" where
  "decode p b s e m =
     (if e = 2 * b + 1 then (if m = 0 then Inf s else NaN)
      else if e = 0 then Fin s (of_nat m * exp2 (1 - int b - int p))
      else Fin s (of_nat (2 ^ p + m) * exp2 (int e - int b - int p)))"

definition f32_value :: "32 word \<Rightarrow> fval" where
  "f32_value w = decode 23 127 (bit w 31) (unat (take_bit 8 (drop_bit 23 w))) (unat (take_bit 23 w))"

definition f16_value :: "16 word \<Rightarrow> fval" where
  "f16_value w = decode 10 15 (bit w 15) (unat (take_bit 5 (drop_bit 10 w))) (unat (take_bit 10 w))"

definition f32_round :: "bool \<Rightarrow> rat \<Rightarrow> fval" where
  "f32_round s x = (if x = 0 then Fin s 0
     else let r = rnd_at (max (ilog2 x - 23) (- 149)) x in if 2 ^ 128 \<le> r then Inf s else Fin s r)"

fun f32_mul :: "fval \<Rightarrow> fval \<Rightarrow> fval" where
  "f32_mul (Fin s x) (Fin t y) = f32_round (s \<noteq> t) (x * y)"
| "f32_mul (Inf s) (Fin t y) = (if y = 0 then NaN else Inf (s \<noteq> t))"
| "f32_mul (Fin s x) (Inf t) = (if x = 0 then NaN else Inf (s \<noteq> t))"
| "f32_mul (Inf s) (Inf t) = Inf (s \<noteq> t)"
| "f32_mul NaN _ = NaN"
| "f32_mul _ NaN = NaN"

text \<open>\<^verbatim>\<open>f32::from(b as i8)\<close>\<close>

definition i8_value :: "u8 \<Rightarrow> fval" where
  "i8_value b = Fin (sint b < 0) (of_int \<bar>sint b\<bar>)"

section \<open>Half to single precision\<close>

text \<open>The loop that normalises a subnormal fraction; it does not end when started on zero.\<close>

definition normalise :: "32 word \<Rightarrow> (32 word \<times> 32 word) option" where
  "normalise man = while_option (\<lambda>(m, s). m AND 0x0400 = 0) (\<lambda>(m, s). (push_bit 1 m, s + 1)) (man, 0)"

definition f16_to_f32 :: "16 word \<Rightarrow> 32 word option" where
  "f16_to_f32 bits =
     (let sign = push_bit 31 (ucast (drop_bit 15 bits)) :: 32 word;
        e = ucast (drop_bit 10 bits AND 0x1f) :: 32 word;
        man = ucast (bits AND 0x03ff) :: 32 word
      in if e = 0 \<and> man = 0 then Some sign
         else if e = 0 then map_option (\<lambda>(m, s).
           sign OR push_bit 23 (113 - s) OR push_bit 13 (m AND 0x03ff)) (normalise man)
         else if e = 0x1f then Some (sign OR 0x7f800000 OR push_bit 13 man)
         else Some (sign OR push_bit 23 (e + 112) OR push_bit 13 man))"

section \<open>Dequantization\<close>

definition QK8_0 :: nat where "QK8_0 = 32"

definition Q8_0_BLOCK_BYTES :: nat where "Q8_0_BLOCK_BYTES = QK8_0 + 2"

text \<open>\<^verbatim>\<open>as_chunks\<close>, the remainder dropped.\<close>

function chunks :: "nat \<Rightarrow> 'a list \<Rightarrow> 'a list list" where
  "chunks n xs = (if n = 0 \<or> length xs < n then [] else take n xs # chunks n (drop n xs))"
  by pat_completeness auto
termination by (relation "measure (\<lambda>(n, xs). length xs)") auto

declare chunks.simps [simp del]

text \<open>
  \<^verbatim>\<open>f16_to_f32(u16::from_le_bytes([b0, b1]))\<close> as a value; \<open>Panic\<close> stands for the conversion not
  returning, which never happens (\<open>f16_exact\<close> below).
\<close>

definition half_at :: "u8 list \<Rightarrow> (fval, GgufError) res" where
  "half_at bs = (case f16_to_f32 (word_of_nat (from_le (take 2 bs))) of
     None \<Rightarrow> Panic | Some w \<Rightarrow> Ok (f32_value w))"

fun q8_0_blocks :: "nat \<Rightarrow> u8 list list \<Rightarrow> fval list \<Rightarrow> (fval list, GgufError) res" where
  "q8_0_blocks block_idx [] out = Ok out"
| "q8_0_blocks block_idx (block # blocks) out = res_bind (half_at block) (\<lambda>scale.
     let base = block_idx * QK8_0 in
     q8_0_blocks (block_idx + 1) blocks
       (fold (\<lambda>j out. out[base + j := f32_mul scale (i8_value (block ! (2 + j)))]) [0..<QK8_0] out))"

definition dequantize_q8_0 :: "u8 list \<Rightarrow> fval list \<Rightarrow> (fval list, GgufError) res" where
  "dequantize_q8_0 blob out =
     (if length blob mod Q8_0_BLOCK_BYTES \<noteq> 0
      then Err (BadData ''q8_0 blob length must be a multiple of 34'' (length blob))
      else let elems = length blob div Q8_0_BLOCK_BYTES * QK8_0 in
        if length out < elems
        then Err (BadData ''output buffer too small for q8_0 dequantization'' elems)
        else q8_0_blocks 0 (chunks Q8_0_BLOCK_BYTES blob) out)"

fun f16_pairs :: "nat \<Rightarrow> u8 list list \<Rightarrow> fval list \<Rightarrow> (fval list, GgufError) res" where
  "f16_pairs i [] out = Ok out"
| "f16_pairs i (pair # pairs) out =
     res_bind (half_at pair) (\<lambda>x. f16_pairs (i + 1) pairs (out[i := x]))"

definition dequantize_f16 :: "u8 list \<Rightarrow> fval list \<Rightarrow> (fval list, GgufError) res" where
  "dequantize_f16 blob out =
     (if length blob mod 2 \<noteq> 0 then Err (BadData ''f16 blob length must be even'' (length blob))
      else let elems = length blob div 2 in
        if length out < elems then Err (BadData ''output buffer too small for f16 dequantization'' elems)
        else f16_pairs 0 (chunks 2 blob) out)"

fun f32_words :: "nat \<Rightarrow> u8 list list \<Rightarrow> fval list \<Rightarrow> fval list" where
  "f32_words i [] out = out"
| "f32_words i (w # ws) out = f32_words (i + 1) ws (out[i := f32_value (word_of_nat (from_le w))])"

definition dequantize_tensor :: "GgufReader \<Rightarrow> GgufTensor \<Rightarrow> (fval list, GgufError) res" where
  "dequantize_tensor reader t =
     (if t_dtype t \<notin> {D_F32, D_F16, D_Q8_0} then Err (UnsupportedDtype (t_dtype t))
      else case element_count t of
        None \<Rightarrow> Err (InvalidTensor (t_name t) ''shape product overflows u64'')
      | Some n \<Rightarrow> (case size_bytes (t_dtype t) n of
          None \<Rightarrow> Err (InvalidTensor (t_name t) ''element count violates dtype block alignment'')
        | Some expected \<Rightarrow> res_bind (tensor_data reader t) (\<lambda>blob.
            if length blob \<noteq> expected
            then Err (BadData ''tensor data length does not match dtype x shape'' (length blob))
            else let out = replicate n (Fin False 0) in
              if t_dtype t = D_F32 then Ok (f32_words 0 (chunks 4 blob) out)
              else if t_dtype t = D_F16 then dequantize_f16 blob out
              else dequantize_q8_0 blob out)))"

section \<open>The conversion is exact\<close>

text \<open>The three fields of a single-precision pattern put together.\<close>

lemma fields:
  fixes sign :: bool and e m :: "32 word"
  assumes "take_bit 8 e = e" "take_bit 23 m = m"
  defines "w \<equiv> push_bit 31 (of_bool sign) OR push_bit 23 e OR m"
  shows "bit w 31 = sign" "take_bit 8 (drop_bit 23 w) = e" "take_bit 23 w = m"
proof -
  have e: "\<not> bit e n" if "8 \<le> n" for n using that assms(1) by (metis bit_take_bit_iff not_less)
  have m: "\<not> bit m n" if "23 \<le> n" for n using that assms(2) by (metis bit_take_bit_iff not_less)
  show "bit w 31 = sign" by (simp add: w_def bit_simps e m)
  show "take_bit 8 (drop_bit 23 w) = e"
    by (rule bit_word_eqI) (use e m in \<open>auto simp: w_def bit_simps\<close>)
  show "take_bit 23 w = m" by (rule bit_word_eqI) (use m in \<open>auto simp: w_def bit_simps\<close>)
qed

lemma f32_value_fields:
  assumes "unat e < 2 ^ 8" "unat m < 2 ^ 23"
  shows "f32_value (push_bit 31 (of_bool sign) OR push_bit 23 e OR m) = decode 23 127 sign (unat e) (unat m)"
proof -
  have "take_bit 8 e = e" "take_bit 23 m = m"
    using assms by (simp_all add: word_unat_eq_iff unsigned_take_bit_eq take_bit_nat_eq_self)
  from fields [OF this, of sign] show ?thesis by (simp only: f32_value_def)
qed

lemma unat_take_bit: "unat (take_bit n w) = unat w mod 2 ^ n"
  unfolding unsigned_take_bit_eq by (simp add: take_bit_eq_mod)

lemma unat_push_bit: "unat m * 2 ^ n < 2 ^ LENGTH('a) \<Longrightarrow> unat (push_bit n (m :: 'a::len word)) = unat m * 2 ^ n"
  unfolding unsigned_push_bit_eq by (simp add: push_bit_eq_mult take_bit_nat_eq_self)

lemma unat_ucast16: "unat (ucast (x :: 16 word) :: 32 word) = unat x"
  using unsigned_less [of x, where 'a = nat] unfolding unsigned_ucast_eq by (simp add: take_bit_nat_eq_self)

lemma normalise_step:
  assumes "unat m < 2 ^ 11"
  shows "m AND 0x0400 = 0 \<longleftrightarrow> unat (m :: 32 word) < 2 ^ 10"
proof -
  have "(0x0400 :: 32 word) = 2 ^ 10" by simp
  then have "m AND 0x0400 = 0 \<longleftrightarrow> \<not> bit m 10" by (simp only: and_exp_eq_0_iff_not_bit)
  also have "bit m 10 \<longleftrightarrow> bit (unat m) 10" by (simp add: bit_unsigned_iff)
  also have "\<dots> \<longleftrightarrow> odd (unat m div 2 ^ 10)" by (rule bit_iff_odd)
  also have "\<not> odd (unat m div 2 ^ 10) \<longleftrightarrow> unat m < 2 ^ 10"
  proof -
    have "unat m div 2 ^ 10 < 2" using assms by (simp add: less_mult_imp_div_less)
    then have "odd (unat m div 2 ^ 10) \<longleftrightarrow> unat m div 2 ^ 10 \<noteq> 0" by (cases "unat m div 2 ^ 10") auto
    then show ?thesis by (simp add: div_eq_0_iff)
  qed
  finally show ?thesis .
qed

lemma normalise_loop:
  fixes m s :: "32 word"
  assumes "0 < k" "unat m = k * 2 ^ n" "unat s = n" "unat m < 2 ^ 11"
  shows "\<exists>m' s'. while_option (\<lambda>(m, s). m AND 0x0400 = 0) (\<lambda>(m, s). (push_bit 1 m, s + 1)) (m, s) = Some (m', s')
    \<and> unat m' = k * 2 ^ unat s' \<and> 2 ^ 10 \<le> unat m' \<and> unat m' < 2 ^ 11"
  using assms
proof (induction "2 ^ 11 - unat m" arbitrary: m s n rule: less_induct)
  case less
  show ?case
  proof (cases "unat m < 2 ^ 10")
    case True
    have n: "n < 2 ^ 10"
      using less.prems(1,2) True less_exp [of n] by (metis le_less_trans mult_le_mono1 nat_mult_1 Suc_leI One_nat_def less_trans)
    have m1: "unat (push_bit 1 m) = k * 2 ^ (n + 1)"
      using unat_push_bit [of m 1] True less.prems(2) by simp
    have s1: "unat (s + 1) = n + 1"
      using n less.prems(3) by (simp add: unat_word_ariths)
    have "unat (push_bit 1 m) = 2 * unat m" "0 < unat m" using m1 less.prems(1,2) by simp_all
    then have "2 ^ 11 - unat (push_bit 1 m) < 2 ^ 11 - unat m" "unat (push_bit 1 m) < 2 ^ 11"
      using True by simp_all
    from less.hyps [OF this(1) less.prems(1) m1 s1 this(2)] show ?thesis
      using normalise_step [OF less.prems(4)] True by (subst while_option_unfold) simp
  next
    case False
    then show ?thesis using normalise_step [OF less.prems(4)] less.prems
      by (subst while_option_unfold) auto
  qed
qed

lemma normalise_Some:
  assumes "0 < unat man" "unat man < 2 ^ 10"
  obtains m s where "normalise man = Some (m, s)" "unat m = unat man * 2 ^ unat s"
    "2 ^ 10 \<le> unat m" "unat m < 2 ^ 11" "unat s \<le> 10"
proof -
  obtain m s where ms: "normalise man = Some (m, s)" "unat m = unat man * 2 ^ unat s" "2 ^ 10 \<le> unat m" "unat m < 2 ^ 11"
    using normalise_loop [of "unat man" man 0 0] assms by (auto simp: normalise_def)
  have "2 ^ unat s < (2::nat) ^ 11" using ms(2,4) assms(1) by (metis le_less_trans mult_le_mono1 nat_mult_1 Suc_leI One_nat_def)
  then have "unat s < 11" by (simp only: power_strict_increasing_iff)
  then show thesis using that ms by simp
qed

lemma f16_exact_lemma: "\<exists>w. f16_to_f32 bits = Some w \<and> f32_value w = f16_value bits"
proof -
  define sign where "sign = bit bits 15"
  define e where "e = (ucast (drop_bit 10 bits AND 0x1f) :: 32 word)"
  define man where "man = (ucast (bits AND 0x03ff) :: 32 word)"
  have sgn: "push_bit 31 (ucast (drop_bit 15 bits)) = push_bit 31 (of_bool sign :: 32 word)"
    by (rule bit_word_eqI) (auto simp: bit_simps sign_def dest: bit_imp_le_length)
  have c5: "(0x1f :: 16 word) = mask 5" and c10: "(0x03ff :: 16 word) = mask 10" and d10: "(0x03ff :: 32 word) = mask 10"
    by (simp_all add: mask_eq_exp_minus_1)
  have ue: "unat e = unat (take_bit 5 (drop_bit 10 bits))" "unat e < 2 ^ 5"
    by (simp_all add: e_def c5 unat_ucast16 unat_take_bit flip: take_bit_eq_mask)
  have um: "unat man = unat (take_bit 10 bits)" "unat man < 2 ^ 10"
    by (simp_all add: man_def c10 unat_ucast16 unat_take_bit flip: take_bit_eq_mask)
  have v: "f16_value bits = decode 10 15 sign (unat e) (unat man)"
    by (simp add: f16_value_def ue um sign_def)
  have pm: "unat (push_bit 13 man) = unat man * 2 ^ 13" "unat (push_bit 13 man) < 2 ^ 23"
    using um unat_push_bit [of man 13] by simp_all
  define S where "S = push_bit 31 (of_bool sign :: 32 word)"
  have unf: "f16_to_f32 bits =
        (if e = 0 \<and> man = 0 then Some S
         else if e = 0 then map_option (\<lambda>(m, s). S OR push_bit 23 (113 - s) OR push_bit 13 (m AND 0x03ff)) (normalise man)
         else if e = 0x1f then Some (S OR push_bit 23 255 OR push_bit 13 man)
         else Some (S OR push_bit 23 (e + 112) OR push_bit 13 man))"
    by (simp add: f16_to_f32_def Let_def sgn e_def man_def S_def)
  have val: "f32_value (S OR push_bit 23 x OR y) = decode 23 127 sign (unat x) (unat y)"
    if "unat x < 2 ^ 8" "unat y < 2 ^ 23" for x y
    using f32_value_fields [OF that] by (simp only: S_def)
  consider (zero) "e = 0" "man = 0" | (subnormal) "e = 0" "man \<noteq> 0" | (special) "e = 0x1f" | (normal) "e \<noteq> 0" "e \<noteq> 0x1f"
    by blast
  then show ?thesis
  proof cases
    case zero
    then show ?thesis using val [of 0 0] unf v by (simp add: decode_def)
  next
    case subnormal
    have "0 < unat man" using subnormal(2) by (simp add: unat_gt_0)
    then obtain m s where ms: "normalise man = Some (m, s)" "unat m = unat man * 2 ^ unat s"
      "2 ^ 10 \<le> unat m" "unat m < 2 ^ 11" "unat s \<le> 10"
      using normalise_Some [OF _ um(2)] by blast
    have "unat (m AND 0x03ff) = unat m mod 2 ^ 10" unfolding d10 by (simp only: unat_take_bit flip: take_bit_eq_mask)
    also have "\<dots> = unat m - 2 ^ 10" using ms(3,4) by (simp add: mod_if le_mod_geq)
    finally have frac: "unat (m AND 0x03ff) = unat m - 2 ^ 10" .
    then have y: "unat (push_bit 13 (m AND 0x03ff)) = (unat m - 2 ^ 10) * 2 ^ 13"
      using unat_push_bit [of "m AND 0x03ff" 13] ms(4) by simp
    have x: "unat (113 - s) = 113 - unat s"
      using ms(5) by (simp add: unat_sub word_le_nat_alt)
    have w: "f16_to_f32 bits = Some (S OR push_bit 23 (113 - s) OR push_bit 13 (m AND 0x03ff))"
      using unf subnormal ms(1) by simp
    have "f32_value (S OR push_bit 23 (113 - s) OR push_bit 13 (m AND 0x03ff)) =
        decode 23 127 sign (113 - unat s) ((unat m - 2 ^ 10) * 2 ^ 13)"
      using val [of "113 - s" "push_bit 13 (m AND 0x03ff)"] x y ms(4) by simp
    also have "\<dots> = Fin sign (of_nat (2 ^ 23 + (unat m - 2 ^ 10) * 2 ^ 13) * exp2 (int (113 - unat s) - 150))"
      using ms(5) by (simp add: decode_def)
    also have "2 ^ 23 + (unat m - 2 ^ 10) * 2 ^ 13 = unat man * 2 ^ (unat s + 13)"
      using ms(2,3) by (simp add: diff_mult_distrib power_add)
    also have "of_nat (unat man * 2 ^ (unat s + 13)) * exp2 (int (113 - unat s) - 150) = of_nat (unat man) * exp2 (- 24)"
    proof -
      have "exp2 (int (unat s + 13)) * exp2 (int (113 - unat s) - 150) = exp2 (- 24)"
        using ms(5) by (simp only: exp2_add [symmetric]) (simp add: of_nat_diff)
      then show ?thesis by (simp only: of_nat_mult exp2_nat of_nat_power of_nat_numeral mult.assoc)
    qed
    also have "Fin sign (of_nat (unat man) * exp2 (- 24)) = f16_value bits"
      using v subnormal by (simp add: decode_def)
    finally show ?thesis using w by simp
  next
    case special
    then show ?thesis using val [of 255 "push_bit 13 man"] unf v pm by (auto simp: decode_def)
  next
    case normal
    have "unat e = 0 \<Longrightarrow> e = 0" "unat e = 31 \<Longrightarrow> e = 0x1f"
      by (simp_all only: word_unat_eq_iff) simp_all
    then have ne: "unat e \<noteq> 0" "unat e \<noteq> 31" using normal by blast+
    have x: "unat (e + 112) = unat e + 112" using ue(2) by (simp add: unat_word_ariths)
    have "f32_value (S OR push_bit 23 (e + 112) OR push_bit 13 man) = decode 23 127 sign (unat e + 112) (unat man * 2 ^ 13)"
      using val [of "e + 112" "push_bit 13 man"] x pm ue(2) by simp
    also have "\<dots> = Fin sign (of_nat (2 ^ 23 + unat man * 2 ^ 13) * exp2 (int (unat e) - 38))"
      using ne ue(2) by (simp add: decode_def)
    also have "of_nat (2 ^ 23 + unat man * 2 ^ 13) * exp2 (int (unat e) - 38) = of_nat (2 ^ 10 + unat man) * exp2 (int (unat e) - 25)"
      using exp2_add [of 13 "int (unat e) - 38"] exp2_nat [of 13] by (simp add: algebra_simps)
    also have "Fin sign \<dots> = f16_value bits" using v ne by (simp add: decode_def)
    finally show ?thesis using unf normal by simp
  qed
qed

end
