(* ===== verification/Gguf_Decode.thy ===== *)
theory Gguf_Decode
  imports Gguf_Codes Gguf_Claims
begin

text \<open>
  What decoding tensor data computes: the half-precision conversion is exact, the product of a
  scale and a quantised value never rounds, and decoding a tensor of a parsed file never fails.
\<close>

section \<open>Products that do not round\<close>

lemma f32_round_exact:
  assumes x: "x = of_nat n * exp2 k" and n: "n < 2 ^ 24" and k: "- 149 \<le> k" "x < 2 ^ 128"
  shows "f32_round s x = Fin s x"
proof (cases "n = 0")
  case True
  then show ?thesis unfolding x f32_round_def by simp
next
  case False
  define e where "e = max (ilog2 x - 23) (- 149)"
  have pos: "0 < x" using False x by simp
  have "(of_nat n :: rat) < of_nat (2 ^ 24)" using n by (simp only: of_nat_less_iff)
  then have "x < exp2 24 * exp2 k" using x exp2_nat [of 24] by simp
  then have "ilog2 x < 24 + k" using pos by (intro ilog2_less) (simp_all add: exp2_add)
  then have ek: "e \<le> k" using k by (simp add: e_def)
  have "x = of_int (int n * 2 ^ nat (k - e)) * exp2 e"
    unfolding x exp2_split [OF ek] by simp
  then have "rnd_at e x = x" using rnd_at_multiple by metis
  then show ?thesis using pos k(2) by (simp add: f32_round_def Let_def e_def [symmetric] not_le)
qed

lemma f16_value_Fin:
  assumes "f16_value w = Fin s x"
  obtains n k where "x = of_nat n * exp2 k" "n < 2 ^ 11" "- 24 \<le> k" "k \<le> 5"
proof -
  define e m where "e = unat (take_bit 5 (drop_bit 10 w))" and "m = unat (take_bit 10 w)"
  have v: "decode 10 15 (bit w 15) e m = Fin s x" using assms by (simp add: f16_value_def e_def m_def)
  have bounds: "e < 32" "m < 2 ^ 10" by (simp_all add: e_def m_def unat_take_bit)
  show thesis
  proof (cases "e = 0")
    case True
    then show thesis using that [of m "- 24"] v bounds by (simp add: decode_def)
  next
    case False
    then have "e \<noteq> 31" "x = of_nat (2 ^ 10 + m) * exp2 (int e - 25)"
      using v by (auto simp: decode_def split: if_splits)
    then show thesis using that [of "2 ^ 10 + m" "int e - 25"] False bounds by simp
  qed
qed

text \<open>The exact product of a scale and a quantised value: the reference.\<close>

fun exact_product :: "fval \<Rightarrow> int \<Rightarrow> fval" where
  "exact_product (Fin s x) q = Fin (s \<noteq> (q < 0)) (x * of_int \<bar>q\<bar>)"
| "exact_product (Inf s) q = (if q = 0 then NaN else Inf (s \<noteq> (q < 0)))"
| "exact_product NaN q = NaN"

lemma scale_product: "f32_mul (f16_value w) (i8_value b) = exact_product (f16_value w) (sint b)"
proof (cases "f16_value w")
  case (Fin s x)
  obtain n k where x: "x = of_nat n * exp2 k" "n < 2 ^ 11" "- 24 \<le> k" "k \<le> 5"
    by (rule f16_value_Fin [OF Fin])
  have q: "\<bar>sint b\<bar> \<le> 128"
    using sint_greater_eq [of b] sint_less [of b] by simp
  have nq: "n * nat \<bar>sint b\<bar> < 2 ^ 19"
  proof -
    have "n * nat \<bar>sint b\<bar> \<le> 2 ^ 11 * 128" using q x(2) by (intro mult_le_mono) auto
    then show ?thesis by simp
  qed
  have prod: "x * of_int \<bar>sint b\<bar> = of_nat (n * nat \<bar>sint b\<bar>) * exp2 k"
    using x(1) by (simp add: of_nat_nat)
  have "x * of_int \<bar>sint b\<bar> < 2 ^ 128"
  proof -
    have "(of_nat (n * nat \<bar>sint b\<bar>) :: rat) < of_nat (2 ^ 19)" using nq by (simp only: of_nat_less_iff)
    moreover have "exp2 k \<le> exp2 5" using x(4) by simp
    ultimately have "of_nat (n * nat \<bar>sint b\<bar>) * exp2 k \<le> of_nat (2 ^ 19) * exp2 5"
      by (intro mult_mono) (auto intro: less_imp_le)
    then show ?thesis unfolding prod using exp2_nat [of 5] by simp
  qed
  then have "f32_round r (x * of_int \<bar>sint b\<bar>) = Fin r (x * of_int \<bar>sint b\<bar>)" for r
    using f32_round_exact [OF prod] nq x(3) by simp
  then show ?thesis using Fin by (simp add: i8_value_def)
next
  case (Inf s)
  have "(of_int \<bar>q\<bar> = (0 :: rat)) = (q = 0)" for q by simp
  then show ?thesis by (simp only: Inf i8_value_def f32_mul.simps exact_product.simps)
qed (simp add: i8_value_def)

section \<open>The loops\<close>

lemma half_at_eq: "half_at bs = Ok (f16_value (word_of_nat (from_le (take 2 bs))))"
  using f16_exact_lemma [of "word_of_nat (from_le (take 2 bs))"] by (auto simp: half_at_def)

lemma chunks_nth:
  "0 < n \<Longrightarrow> length (chunks n xs) = length xs div n \<and> (\<forall>i<length xs div n. chunks n xs ! i = take n (drop (i * n) xs))"
proof (induction "length xs" arbitrary: xs rule: less_induct)
  case less
  show ?case
  proof (cases "length xs < n")
    case True
    then show ?thesis by (simp add: chunks.simps)
  next
    case False
    have ih: "length (chunks n (drop n xs)) = (length xs - n) div n"
      "\<forall>i<(length xs - n) div n. chunks n (drop n xs) ! i = take n (drop (i * n) (drop n xs))"
      using less.hyps [of "drop n xs"] less.prems False by auto
    have c: "chunks n xs = take n xs # chunks n (drop n xs)" using False less.prems by (subst chunks.simps) simp
    have d: "length xs div n = Suc ((length xs - n) div n)" using False less.prems by (simp add: le_div_geq)
    have "chunks n xs ! i = take n (drop (i * n) xs)" if "i < length xs div n" for i
      using ih(2) that unfolding c d by (cases i) (auto simp: add.commute)
    then show ?thesis using c d ih(1) by simp
  qed
qed

lemma length_fold_update [simp]: "length (fold (\<lambda>j out. out[base + j := f j]) js out) = length out"
  by (induction js arbitrary: out) simp_all

lemma fold_update:
  "base + n \<le> length out \<Longrightarrow> i < length out \<Longrightarrow>
   fold (\<lambda>j out. out[base + j := f j]) [0..<n] out ! i =
     (if base \<le> i \<and> i < base + n then f (i - base) else out ! i)"
proof (induction n)
  case (Suc n)
  then show ?case by (cases "i = base + n") (auto simp: nth_list_update)
qed auto

lemma q8_0_blocks_nth:
  assumes "(idx + length blocks) * 32 \<le> length out"
  shows "\<exists>out'. q8_0_blocks idx blocks out = Ok out' \<and> length out' = length out
    \<and> (\<forall>i<length out. out' ! i = (if idx * 32 \<le> i \<and> i < (idx + length blocks) * 32
        then f32_mul (f16_value (word_of_nat (from_le (take 2 (blocks ! (i div 32 - idx))))))
               (i8_value (blocks ! (i div 32 - idx) ! (2 + i mod 32)))
        else out ! i))"
  using assms
proof (induction blocks arbitrary: idx out)
  case (Cons block blocks)
  define scale where "scale = f16_value (word_of_nat (from_le (take 2 block)))"
  define mid where "mid = fold (\<lambda>j out. out[idx * 32 + j := f32_mul scale (i8_value (block ! (2 + j)))]) [0..<32] out"
  have fits: "idx * 32 + 32 \<le> length out" using Cons.prems by simp
  have mid: "mid ! i = (if idx * 32 \<le> i \<and> i < idx * 32 + 32
      then f32_mul scale (i8_value (block ! (2 + (i - idx * 32)))) else out ! i)" if "i < length out" for i
    unfolding mid_def by (rule fold_update [OF fits that])
  have len: "length mid = length out" by (simp add: mid_def)
  have step: "q8_0_blocks idx (block # blocks) out = q8_0_blocks (idx + 1) blocks mid"
    by (simp add: half_at_eq Let_def mid_def scale_def QK8_0_def)
  obtain out' where out': "q8_0_blocks (idx + 1) blocks mid = Ok out'" "length out' = length mid"
    "\<forall>i<length mid. out' ! i = (if (idx + 1) * 32 \<le> i \<and> i < (idx + 1 + length blocks) * 32
        then f32_mul (f16_value (word_of_nat (from_le (take 2 (blocks ! (i div 32 - (idx + 1)))))))
               (i8_value (blocks ! (i div 32 - (idx + 1)) ! (2 + i mod 32)))
        else mid ! i)"
    using Cons.IH [of "idx + 1" mid] Cons.prems len by auto
  have "out' ! i = (if idx * 32 \<le> i \<and> i < (idx + length (block # blocks)) * 32
        then f32_mul (f16_value (word_of_nat (from_le (take 2 ((block # blocks) ! (i div 32 - idx))))))
               (i8_value ((block # blocks) ! (i div 32 - idx) ! (2 + i mod 32)))
        else out ! i)" if i: "i < length out" for i
  proof -
    consider (before) "i < idx * 32" | (here) "i div 32 = idx" | (later) "(idx + 1) * 32 \<le> i"
      by (metis add.commute div_less_iff_less_mult less_mult_imp_div_less linorder_not_less
          mult.commute plus_1_eq_Suc Suc_leI le_antisym less_eq_div_iff_mult_less_eq zero_less_numeral)
    then show ?thesis
    proof cases
      case before
      then show ?thesis using out'(3) i len by (simp add: mid)
    next
      case here
      then have "idx * 32 \<le> i" "i < idx * 32 + 32" "i - idx * 32 = i mod 32"
        by (auto simp: minus_mult_div_eq_mod [symmetric] mult.commute)
      then show ?thesis using out'(3) i len here by (simp add: mid scale_def)
    next
      case later
      then have "i div 32 - idx = Suc (i div 32 - (idx + 1))"
        by (metis Suc_diff_le add.commute diff_Suc_Suc less_eq_div_iff_mult_less_eq plus_1_eq_Suc zero_less_numeral)
      then show ?thesis using out'(3) i len later by (simp add: mid)
    qed
  qed
  then show ?case using out'(1,2) step len by auto
qed auto

lemma f16_pairs_nth:
  assumes "idx + length pairs \<le> length out"
  shows "\<exists>out'. f16_pairs idx pairs out = Ok out' \<and> length out' = length out
    \<and> (\<forall>i<length out. out' ! i = (if idx \<le> i \<and> i < idx + length pairs
        then f16_value (word_of_nat (from_le (take 2 (pairs ! (i - idx))))) else out ! i))"
  using assms
proof (induction pairs arbitrary: idx out)
  case (Cons pair pairs)
  let ?x = "f16_value (word_of_nat (from_le (take 2 pair)))"
  obtain out' where out': "f16_pairs (idx + 1) pairs (out[idx := ?x]) = Ok out'" "length out' = length out"
    "\<forall>i<length out. out' ! i = (if idx + 1 \<le> i \<and> i < idx + 1 + length pairs
        then f16_value (word_of_nat (from_le (take 2 (pairs ! (i - (idx + 1)))))) else out[idx := ?x] ! i)"
    using Cons.IH [of "idx + 1" "out[idx := ?x]"] Cons.prems by auto
  have "out' ! i = (if idx \<le> i \<and> i < idx + length (pair # pairs)
        then f16_value (word_of_nat (from_le (take 2 ((pair # pairs) ! (i - idx))))) else out ! i)"
    if i: "i < length out" for i
    using out'(3) i by (cases "i = idx") (auto simp: nth_Cons')
  then show ?case using out'(1,2) by (simp add: half_at_eq)
qed auto

lemma length_f32_words [simp]: "length (f32_words i ws out) = length out"
  by (induction i ws out rule: f32_words.induct) simp_all

section \<open>Properties\<close>

text \<open>
  C30: The half-precision conversion always returns, and the single-precision pattern it builds denotes
  the value of the half-precision pattern exactly: normal and subnormal numbers, both zeros,
  infinities and not-a-numbers alike.
\<close>

theorem f16_exact: "\<exists>w. f16_to_f32 bits = Some w \<and> f32_value w = f16_value bits"
  by (rule f16_exact_lemma)

text \<open>
  C29: Decoding blocks of eight-bit integers never rounds. With a blob of whole blocks and room for the
  result it returns, element \<open>i\<close> is the exact product of the scale of block \<open>i div 32\<close> and the
  signed byte \<open>i mod 32\<close> of that block, with the sign of a zero and the products with an infinite
  scale as IEEE prescribes, and the rest of the buffer is unchanged.
\<close>

theorem q8_0_exact:
  assumes "length blob mod 34 = 0" "length blob div 34 * 32 \<le> length out"
  shows "\<exists>out'. dequantize_q8_0 blob out = Ok out' \<and> length out' = length out
    \<and> (\<forall>i<length out. out' ! i = (if i < length blob div 34 * 32
        then exact_product (f16_value (word_of_nat (from_le (take 2 (drop (i div 32 * 34) blob)))))
               (sint (blob ! (i div 32 * 34 + 2 + i mod 32)))
        else out ! i))"
proof -
  note ch = chunks_nth [of 34 blob, simplified]
  obtain out' where out': "q8_0_blocks 0 (chunks 34 blob) out = Ok out'" "length out' = length out"
    "\<forall>i<length out. out' ! i = (if i < length (chunks 34 blob) * 32
        then f32_mul (f16_value (word_of_nat (from_le (take 2 (chunks 34 blob ! (i div 32))))))
               (i8_value (chunks 34 blob ! (i div 32) ! (2 + i mod 32)))
        else out ! i)"
    using q8_0_blocks_nth [of 0 "chunks 34 blob" out] assms ch by auto
  have "dequantize_q8_0 blob out = Ok out'"
    using assms out'(1) by (simp add: dequantize_q8_0_def Q8_0_BLOCK_BYTES_def QK8_0_def Let_def not_less)
  moreover have "out' ! i = (if i < length blob div 34 * 32
        then exact_product (f16_value (word_of_nat (from_le (take 2 (drop (i div 32 * 34) blob)))))
               (sint (blob ! (i div 32 * 34 + 2 + i mod 32)))
        else out ! i)" if i: "i < length out" for i
  proof (cases "i < length blob div 34 * 32")
    case True
    then have b: "i div 32 < length blob div 34" by (simp add: div_less_iff_less_mult)
    then have "chunks 34 blob ! (i div 32) = take 34 (drop (i div 32 * 34) blob)" using ch by simp
    moreover have "i div 32 * 34 \<le> length blob"
      using b by (metis less_imp_le_nat div_times_less_eq_dividend le_trans mult_le_mono1)
    moreover have "i mod 32 < 32" by simp
    ultimately show ?thesis using out'(3) i True ch by (simp add: scale_product add.assoc min_def)
  qed (use out'(3) i ch in simp)
  ultimately show ?thesis using out'(2) by blast
qed

theorem q8_0_exact_witness:
  "\<exists>x. dequantize_q8_0 (0 # 0x3C # 0xFF # replicate 31 3) (replicate 32 NaN) = Ok x
    \<and> x ! 0 = Fin True 1 \<and> x ! 31 = Fin False 3"
proof -
  let ?blob = "0 # 0x3C # 0xFF # replicate 31 3 :: u8 list"
  obtain x where x: "dequantize_q8_0 ?blob (replicate 32 NaN) = Ok x"
    "\<forall>i<32. x ! i = exact_product (f16_value (word_of_nat (from_le (take 2 (drop (i div 32 * 34) ?blob)))))
               (sint (?blob ! (i div 32 * 34 + 2 + i mod 32)))"
    using q8_0_exact [of ?blob "replicate 32 NaN"] by auto
  have scale: "f16_value (word_of_nat (from_le (take 2 ?blob))) = Fin False 1"
    by (simp add: f16_value_def decode_def exp2_def)
  have "x ! 0 = Fin True 1" using x(2) [rule_format, of 0] scale by simp
  moreover have "x ! 31 = Fin False 3" using x(2) [rule_format, of 31] scale by simp
  ultimately show ?thesis using x(1) by blast
qed

text \<open>
  Decoding any supported tensor of a parsed file succeeds and returns as many values as the shape
  says: the checks the decoder makes defensively are implied by what the parser has checked.
\<close>

theorem dequantize_parsed:
  assumes "byte_source rd c" "length c \<le> u64_max" "gguf_parse rd (length c) = Ok r"
    and "t \<in> set (gr_tensors r)" "t_dtype t \<in> {D_F32, D_F16, D_Q8_0}"
  shows "\<exists>out. dequantize_tensor r t = Ok out \<and> length out = prod_list (t_shape t)"
proof -
  have ok: "tensor_ok (length c) t" and data: "tensor_data r t = Ok (take (t_length t) (drop (t_offset t) c))"
    using parsed_tensors [OF assms(1-3)] assms(4) by auto
  define blob where "blob = take (t_length t) (drop (t_offset t) c)"
  obtain n where n: "element_count t = Some n" "size_bytes (t_dtype t) n = Some (t_length t)"
  proof -
    have "size_known (t_dtype t)" using assms(5) by (auto simp: size_known_def)
    then show thesis using that ok unfolding tensor_ok_def by blast
  qed
  have "t_offset t + t_length t \<le> length c" using ok by (simp add: tensor_ok_def)
  then have "t_length t \<le> length c - t_offset t" by simp
  then have len: "length blob = t_length t" by (simp add: blob_def)
  have shape: "n = prod_list (t_shape t)" using element_count_Some [OF n(1)] by simp
  have unf: "dequantize_tensor r t = (if t_dtype t = D_F32 then Ok (f32_words 0 (chunks 4 blob) (replicate n (Fin False 0)))
      else if t_dtype t = D_F16 then dequantize_f16 blob (replicate n (Fin False 0))
      else dequantize_q8_0 blob (replicate n (Fin False 0)))"
    using assms(5) n data len by (simp add: dequantize_tensor_def blob_def Let_def)
  consider "t_dtype t = D_F32" | "t_dtype t = D_F16" | "t_dtype t = D_Q8_0" using assms(5) by blast
  then show ?thesis
  proof cases
    case 1
    then show ?thesis using unf shape by simp
  next
    case 2
    then have l: "length blob = n * 2" using n(2) len by simp
    then obtain out' where "f16_pairs 0 (chunks 2 blob) (replicate n (Fin False 0)) = Ok out'" "length out' = n"
      using f16_pairs_nth [of 0 "chunks 2 blob" "replicate n (Fin False 0)"] chunks_nth [of 2 blob] by auto
    then show ?thesis using 2 unf shape l by (simp add: dequantize_f16_def Let_def)
  next
    case 3
    then have "n mod 32 = 0" "length blob = n div 32 * 34"
      using n(2) len by (auto simp: block_size_def split: if_splits)
    then have "length blob mod 34 = 0" "length blob div 34 * 32 = n" by auto
    then have "\<exists>out'. dequantize_q8_0 blob (replicate n (Fin False 0)) = Ok out' \<and> length out' = n"
      using q8_0_blocks_nth [of 0 "chunks 34 blob" "replicate n (Fin False 0)"] chunks_nth [of 34 blob]
      by (auto simp: dequantize_q8_0_def Q8_0_BLOCK_BYTES_def QK8_0_def Let_def)
    then show ?thesis using 3 unf shape by auto
  qed
qed

theorem dequantize_parsed_witness:
  "\<exists>r t out. gguf_parse (mem_read_at (build_gguf 3 demo_kvs demo_tensors)) 256 = Ok r
    \<and> t \<in> set (gr_tensors r) \<and> dequantize_tensor r t = Ok out \<and> length out = 2"
proof -
  obtain r t where r: "gguf_parse (mem_read_at (build_gguf 3 demo_kvs demo_tensors)) 256 = Ok r"
    "t \<in> set (gr_tensors r)" "t_dtype t = D_F16" "t_shape t = [2]"
    using demo_parse_first by blast
  then show ?thesis
    using dequantize_parsed [OF mem.byte_source_axioms demo_file, of r t] by (fastforce simp: demo_size)
qed

end
