(* ===== verification/Tok_Text.thy ===== *)
theory Tok_Text
  imports Gguf_Reader
begin

text \<open>
  Text for the tokenizers (\<^verbatim>\<open>crates/tokenizer/src/unicode.rs\<close> and the parts of the standard
  library it rests on). A \<^verbatim>\<open>char\<close> is represented by its UTF-8 bytes, a string is the list of its
  bytes, and \<open>chars\<close> cuts a string before every leading byte, as \<^verbatim>\<open>str::chars\<close> does on
  well-formed text.
\<close>

type_synonym uchar = "u8 list"

section \<open>Characters of a string\<close>

text \<open>The number of bytes announced by a leading byte.\<close>

definition char_width :: "u8 \<Rightarrow> nat" where
  "char_width b = (if b \<le> 0x7F then 1 else if b \<le> 0xDF then 2 else if b \<le> 0xEF then 3 else 4)"

function chars :: "str \<Rightarrow> uchar list" where
  "chars [] = []"
| "chars (b # bs) = (b # take (char_width b - 1) bs) # chars (drop (char_width b - 1) bs)"
  by pat_completeness auto
termination by (relation "measure length") auto

text \<open>\<^verbatim>\<open>char::len_utf8\<close> is the length of the representation; \<^verbatim>\<open>chars[i] == 'x'\<close> compares bytes.\<close>

lemma concat_chars [simp]: "concat (chars s) = s"
  by (induction s rule: chars.induct) simp_all

lemma chars_nonempty: "c \<in> set (chars s) \<Longrightarrow> c \<noteq> []"
  by (induction s rule: chars.induct) auto

lemma chars_eq_Nil [simp]: "chars s = [] \<longleftrightarrow> s = []"
  by (cases s) auto

section \<open>The byte alphabet\<close>

text \<open>\<^verbatim>\<open>missing_rank\<close>: the rank of a byte without a printable character of its own.\<close>

definition missing_rank :: "u8 \<Rightarrow> nat" where
  "missing_rank b = (if b \<le> 0x20 then unat b
     else if 0x7F \<le> b \<and> b \<le> 0x80 then 33 + unat (b - 0x7F)
     else if 0x81 \<le> b \<and> b \<le> 0xA0 then 35 + unat (b - 0x81)
     else 67)"

text \<open>The UTF-8 encoding of a code point below 0x800.\<close>

definition encode_char :: "nat \<Rightarrow> uchar" where
  "encode_char n = (if n < 0x80 then [word_of_nat n]
     else [word_of_nat (0xC0 + n div 64), word_of_nat (0x80 + n mod 64)])"

definition code_point :: "u8 \<Rightarrow> nat" where
  "code_point b = (if (0x21 \<le> b \<and> b \<le> 0x7E) \<or> (0xA1 \<le> b \<and> b \<le> 0xAC) \<or> 0xAE \<le> b
     then unat b else 0x100 + missing_rank b)"

text \<open>The table is a function of the byte that indexes it.\<close>

definition byte_to_unicode :: "u8 \<Rightarrow> uchar" where
  "byte_to_unicode b = encode_char (code_point b)"

definition unicode_to_byte :: "uchar \<rightharpoonup> u8" where
  "unicode_to_byte = map_of (rev (map (\<lambda>n. (byte_to_unicode (word_of_nat n), word_of_nat n)) [0..<256]))"

text \<open>The inverse of the code points.\<close>

definition point_byte :: "nat \<Rightarrow> nat" where
  "point_byte n = (if n < 0x100 then n else if n < 0x121 then n - 0x100
     else if n < 0x123 then n - 0x121 + 0x7F else if n < 0x143 then n - 0x123 + 0x81 else 0xAD)"

lemma unat_sub_ge: "a \<le> b \<Longrightarrow> unat (b - a) = unat b - unat a"
  by (simp add: unat_sub)

lemma point_byte_code_point: "point_byte (code_point b) = unat b"
proof -
  have lt: "unat b < 256" using unsigned_less [of b, where 'a = nat] by simp
  show ?thesis
    unfolding code_point_def missing_rank_def point_byte_def
    using lt by (auto simp: word_le_nat_alt unat_sub_ge not_le not_less)
qed

lemma code_point_bound: "code_point b < 0x144" "code_point b < 0x80 \<or> 0xA1 \<le> code_point b"
proof -
  have lt: "unat b < 256" using unsigned_less [of b, where 'a = nat] by simp
  show "code_point b < 0x144"
    unfolding code_point_def missing_rank_def using lt
    by (auto simp: word_le_nat_alt unat_sub_ge)
  show "code_point b < 0x80 \<or> 0xA1 \<le> code_point b"
    unfolding code_point_def by (auto simp: word_le_nat_alt)
qed

lemma encode_char_inj: "m < 0x800 \<Longrightarrow> n < 0x800 \<Longrightarrow> encode_char m = encode_char n \<Longrightarrow> m = n"
proof -
  assume mn: "m < 0x800" "n < 0x800" and eq: "encode_char m = encode_char n"
  have inj: "x = y" if "(word_of_nat x :: u8) = word_of_nat y" "x < 256" "y < 256" for x y
    using arg_cong [OF that(1), of unat] that(2,3) by (simp add: unat_of_nat)
  show ?thesis
  proof (cases "m < 0x80")
    case True
    then show ?thesis using eq inj [of m n] by (auto simp: encode_char_def split: if_splits)
  next
    case False
    then have n: "\<not> n < 0x80" using eq by (auto simp: encode_char_def split: if_splits)
    have "0xC0 + m div 64 < 256" "0xC0 + n div 64 < 256" "0x80 + m mod 64 < 256" "0x80 + n mod 64 < 256"
      using mn mod_less_divisor [of 64 m] mod_less_divisor [of 64 n] by simp_all
    then have "m div 64 = n div 64" "m mod 64 = n mod 64"
      using eq n False inj [of "0xC0 + m div 64" "0xC0 + n div 64"] inj [of "0x80 + m mod 64" "0x80 + n mod 64"]
      by (auto simp: encode_char_def)
    then show ?thesis by (metis div_mult_mod_eq)
  qed
qed

lemma byte_to_unicode_inj: "byte_to_unicode a = byte_to_unicode b \<Longrightarrow> a = b"
proof -
  assume "byte_to_unicode a = byte_to_unicode b"
  then have "code_point a = code_point b"
    using code_point_bound(1) [of a] code_point_bound(1) [of b]
    by (intro encode_char_inj) (simp_all add: byte_to_unicode_def)
  then have "unat a = unat b" by (metis point_byte_code_point)
  then show ?thesis by (simp only: unsigned_word_eqI)
qed

lemma unicode_to_byte_inverse [simp]: "unicode_to_byte (byte_to_unicode b) = Some b"
proof -
  let ?xs = "rev (map (\<lambda>n. (byte_to_unicode (word_of_nat n), word_of_nat n :: u8)) [0..<256])"
  have "(byte_to_unicode b, b) \<in> set ?xs"
    using unsigned_less [of b, where 'a = nat] by (auto intro!: image_eqI [of _ _ "unat b"])
  then obtain v where v: "map_of ?xs (byte_to_unicode b) = Some v"
    using weak_map_of_SomeI [of "byte_to_unicode b" b ?xs] by blast
  from map_of_SomeD [OF v] have "byte_to_unicode v = byte_to_unicode b" by auto
  then show ?thesis using v byte_to_unicode_inj unfolding unicode_to_byte_def by blast
qed

text \<open>Every character of the alphabet is one character of well-formed text.\<close>

lemma encode_char_wf:
  assumes "n < 0x80 \<or> 0x80 \<le> n \<and> n < 0x800"
  shows "utf8_valid (encode_char n @ s) = utf8_valid s" "chars (encode_char n @ s) = encode_char n # chars s"
proof -
  have le: "(word_of_nat x :: u8) \<le> word_of_nat y \<longleftrightarrow> x \<le> y" if "x < 256" "y < 256" for x y
    using that by (simp add: word_le_nat_alt unat_of_nat)
  have "utf8_valid (encode_char n @ s) = utf8_valid s \<and> chars (encode_char n @ s) = encode_char n # chars s"
  proof (cases "n < 0x80")
    case True
    then have "(word_of_nat n :: u8) \<le> 0x7F" using le [of "n" "0x7F"] by simp
    then show ?thesis using True by (simp add: encode_char_def char_width_def)
  next
    case False
    define q r where "q = 0xC0 + n div 64" and "r = 0x80 + n mod 64"
    have b: "0xC2 \<le> q" "q \<le> 0xDF" "0x80 \<le> r" "r \<le> 0xBF"
      using False assms by (auto simp: q_def r_def)
    then have w: "\<not> (word_of_nat q :: u8) \<le> 0x7F" "(0xC2 :: u8) \<le> word_of_nat q" "(word_of_nat q :: u8) \<le> 0xDF"
      "cont (word_of_nat r)"
      using le [of "q" "0x7F"] le [of "0xC2" "q"] le [of "q" "0xDF"] le [of "0x80" "r"] le [of "r" "0xBF"] by (simp_all add: cont_def)
    have e: "encode_char n = [word_of_nat q, word_of_nat r]" using False by (simp add: encode_char_def q_def r_def)
    show ?thesis using w by (simp add: e char_width_def)
  qed
  then show "utf8_valid (encode_char n @ s) = utf8_valid s" "chars (encode_char n @ s) = encode_char n # chars s"
    by blast+
qed

lemma byte_to_unicode_wf:
  "utf8_valid (byte_to_unicode b @ s) = utf8_valid s" "chars (byte_to_unicode b @ s) = byte_to_unicode b # chars s"
  "byte_to_unicode b \<noteq> []"
proof -
  have "code_point b < 0x80 \<or> 0x80 \<le> code_point b \<and> code_point b < 0x800"
    using code_point_bound [of b] by linarith
  from encode_char_wf [OF this] show "utf8_valid (byte_to_unicode b @ s) = utf8_valid s"
    "chars (byte_to_unicode b @ s) = byte_to_unicode b # chars s"
    unfolding byte_to_unicode_def by simp_all
  show "byte_to_unicode b \<noteq> []" by (simp add: byte_to_unicode_def encode_char_def)
qed

lemma chars_encoded: "chars (concat (map byte_to_unicode bs)) = map byte_to_unicode bs"
  by (induction bs) (simp_all add: byte_to_unicode_wf)

lemma utf8_valid_encoded: "utf8_valid (concat (map byte_to_unicode bs))"
  by (induction bs) (simp_all add: byte_to_unicode_wf)

end
