(* ===== verification/Tok_Decode.thy ===== *)
theory Tok_Decode
  imports Tok_Text
begin

text \<open>
  The incremental UTF-8 decoder (\<^verbatim>\<open>crates/tokenizer/src/decode.rs\<close>): bytes are pushed in any
  chunks, complete sequences are taken out, each maximal invalid sequence becoming one U+FFFD.
\<close>

section \<open>Model\<close>

text \<open>
  One step of \<^verbatim>\<open>std::str::from_utf8\<close> on non-empty input: a character of some width, an invalid
  sequence of some length (\<^verbatim>\<open>error_len\<close>), or an incomplete one at the end.
\<close>

datatype scan = Char nat | Bad nat | Short

definition second_ok :: "u8 \<Rightarrow> u8 \<Rightarrow> bool" where
  "second_ok b c \<longleftrightarrow> cont c \<and> (b = 0xE0 \<longrightarrow> 0xA0 \<le> c) \<and> (b = 0xED \<longrightarrow> c \<le> 0x9F)
     \<and> (b = 0xF0 \<longrightarrow> 0x90 \<le> c) \<and> (b = 0xF4 \<longrightarrow> c \<le> 0x8F)"

fun scan1 :: "u8 list \<Rightarrow> scan" where
  "scan1 [] = Short"
| "scan1 (b # bs) =
     (if b \<le> 0x7F then Char 1
      else if 0xC2 \<le> b \<and> b \<le> 0xDF then
        (case bs of [] \<Rightarrow> Short | c # _ \<Rightarrow> if cont c then Char 2 else Bad 1)
      else if 0xE0 \<le> b \<and> b \<le> 0xEF then
        (case bs of [] \<Rightarrow> Short | c # cs \<Rightarrow> if \<not> second_ok b c then Bad 1
           else case cs of [] \<Rightarrow> Short | d # _ \<Rightarrow> if cont d then Char 3 else Bad 2)
      else if 0xF0 \<le> b \<and> b \<le> 0xF4 then
        (case bs of [] \<Rightarrow> Short | c # cs \<Rightarrow> if \<not> second_ok b c then Bad 1
           else case cs of [] \<Rightarrow> Short | d # ds \<Rightarrow> if \<not> cont d then Bad 2
             else case ds of [] \<Rightarrow> Short | e # _ \<Rightarrow> if cont e then Char 4 else Bad 3)
      else Bad 1)"

lemma scan1_bounds:
  "scan1 bs = Char k \<Longrightarrow> 0 < k \<and> k \<le> length bs" "scan1 bs = Bad n \<Longrightarrow> 0 < n \<and> n \<le> length bs"
  by (cases bs; auto split: if_splits list.splits)+

text \<open>\<^verbatim>\<open>from_utf8\<close>: \<open>None\<close> for valid text, otherwise \<^verbatim>\<open>valid_up_to\<close> and \<^verbatim>\<open>error_len\<close>.\<close>

function utf8_error :: "u8 list \<Rightarrow> (nat \<times> nat option) option" where
  "utf8_error bs =
     (if bs = [] then None
      else case scan1 bs of
        Char k \<Rightarrow> map_option (\<lambda>(v, e). (k + v, e)) (utf8_error (drop k bs))
      | Bad n \<Rightarrow> Some (0, Some n)
      | Short \<Rightarrow> Some (0, None))"
  by pat_completeness auto
termination by (relation "measure length") (auto dest: scan1_bounds)

declare utf8_error.simps [simp del]

lemma utf8_error_bounds:
  "utf8_error bs = Some (v, Some n) \<Longrightarrow> 0 < n \<and> v + n \<le> length bs"
proof (induction bs arbitrary: v rule: utf8_error.induct)
  case (1 bs)
  show ?case
  proof (cases "scan1 bs")
    case (Char k)
    have ne: "bs \<noteq> []" using "1.prems" by (auto simp: utf8_error.simps)
    then obtain w where w: "utf8_error (drop k bs) = Some (w, Some n)" "v = k + w"
      using "1.prems" Char by (subst (asm) utf8_error.simps) auto
    have "w + n \<le> length bs - k \<and> 0 < n" using "1.IH" [OF ne Char w(1)] by simp
    then show ?thesis using w(2) scan1_bounds(1) [OF Char] by linarith
  next
    case (Bad m)
    then show ?thesis using "1.prems" scan1_bounds(2) [OF Bad] by (subst (asm) utf8_error.simps) (auto split: if_splits)
  next
    case Short
    then show ?thesis using "1.prems" by (subst (asm) utf8_error.simps) (auto split: if_splits)
  qed
qed

text \<open>U+FFFD.\<close>

definition REPLACEMENT :: str where
  "REPLACEMENT = [0xEF, 0xBF, 0xBD]"

record IncrementalDecoder =
  pending :: "u8 list"

definition dec_new :: IncrementalDecoder where
  "dec_new = \<lparr>pending = []\<rparr>"

definition dec_push :: "u8 list \<Rightarrow> IncrementalDecoder \<Rightarrow> IncrementalDecoder" where
  "dec_push bytes d = d\<lparr>pending := pending d @ bytes\<rparr>"

text \<open>The loop of \<^verbatim>\<open>take\<close>: the text taken out and the bytes left in the buffer.\<close>

function take_loop :: "u8 list \<Rightarrow> nat \<Rightarrow> str \<Rightarrow> str \<times> u8 list" where
  "take_loop pend start out = (case utf8_error (drop start pend) of
       None \<Rightarrow> (out @ drop start pend, [])
     | Some (valid, err) \<Rightarrow>
         let out = out @ take valid (drop start pend) in
         (case err of
            Some n \<Rightarrow> take_loop pend (start + valid + n) (out @ REPLACEMENT)
          | None \<Rightarrow> (out, drop (start + valid) pend)))"
  by pat_completeness auto
termination
  by (relation "measure (\<lambda>(pend, start, out). length pend - start)") (auto dest: utf8_error_bounds)

declare take_loop.simps [simp del]

definition dec_take :: "IncrementalDecoder \<Rightarrow> str \<times> IncrementalDecoder" where
  "dec_take d = (let (out, rest) = take_loop (pending d) 0 [] in (out, d\<lparr>pending := rest\<rparr>))"

definition dec_flush :: "IncrementalDecoder \<Rightarrow> str \<times> IncrementalDecoder" where
  "dec_flush d =
     (if pending d = [] then ([], d)
      else let (out, d) = dec_take d in
        if pending d \<noteq> [] then (out @ REPLACEMENT, d\<lparr>pending := []\<rparr>) else (out, d))"

section \<open>Decoding at once\<close>

text \<open>\<^verbatim>\<open>String::from_utf8_lossy\<close>: the reference.\<close>

function lossy :: "u8 list \<Rightarrow> str" where
  "lossy bs =
     (if bs = [] then []
      else case scan1 bs of
        Char k \<Rightarrow> take k bs @ lossy (drop k bs)
      | Bad n \<Rightarrow> REPLACEMENT @ lossy (drop n bs)
      | Short \<Rightarrow> REPLACEMENT)"
  by pat_completeness auto
termination by (relation "measure length") (auto dest: scan1_bounds)

declare lossy.simps [simp del]

text \<open>The complete sequences of a buffer and what remains.\<close>

function emit :: "u8 list \<Rightarrow> str \<times> u8 list" where
  "emit bs =
     (if bs = [] then ([], [])
      else case scan1 bs of
        Char k \<Rightarrow> map_prod (\<lambda>out. take k bs @ out) id (emit (drop k bs))
      | Bad n \<Rightarrow> map_prod (\<lambda>out. REPLACEMENT @ out) id (emit (drop n bs))
      | Short \<Rightarrow> ([], bs))"
  by pat_completeness auto
termination by (relation "measure length") (auto dest: scan1_bounds)

declare emit.simps [simp del]

lemma emit_Nil [simp]: "emit [] = ([], [])"
  by (simp add: emit.simps)

lemma emit_step:
  "scan1 bs = Char k \<Longrightarrow> emit bs = (take k bs @ fst (emit (drop k bs)), snd (emit (drop k bs)))"
  "scan1 bs = Bad n \<Longrightarrow> emit bs = (REPLACEMENT @ fst (emit (drop n bs)), snd (emit (drop n bs)))"
  "scan1 bs = Short \<Longrightarrow> emit bs = ([], bs)"
  by (auto simp: emit.simps [of bs] map_prod_def case_prod_unfold)

lemma lossy_step:
  "scan1 bs = Char k \<Longrightarrow> lossy bs = take k bs @ lossy (drop k bs)"
  "scan1 bs = Bad n \<Longrightarrow> lossy bs = REPLACEMENT @ lossy (drop n bs)"
  "scan1 bs = Short \<Longrightarrow> lossy bs = (if bs = [] then [] else REPLACEMENT)"
  by (auto simp: lossy.simps [of bs])

lemma utf8_error_step:
  "scan1 bs = Char k \<Longrightarrow> utf8_error bs = map_option (\<lambda>(v, e). (k + v, e)) (utf8_error (drop k bs))"
  "scan1 bs = Bad n \<Longrightarrow> utf8_error bs = Some (0, Some n)"
  "scan1 bs = Short \<Longrightarrow> utf8_error bs = (if bs = [] then None else Some (0, None))"
  by (auto simp: utf8_error.simps [of bs])

text \<open>Induction over the sequences of a buffer.\<close>

lemma scan_induct [case_names Char Bad Short]:
  assumes "\<And>bs k. scan1 bs = Char k \<Longrightarrow> P (drop k bs) \<Longrightarrow> P bs"
    and "\<And>bs n. scan1 bs = Bad n \<Longrightarrow> P (drop n bs) \<Longrightarrow> P bs"
    and "\<And>bs. scan1 bs = Short \<Longrightarrow> P bs"
  shows "P bs"
proof (induction bs rule: lossy.induct)
  case (1 bs)
  have "bs \<noteq> [] \<or> scan1 bs = Short" by auto
  then show ?case using 1 assms by (cases "scan1 bs") auto
qed

lemma emit_valid:
  "(utf8_error bs = None \<longrightarrow> emit bs = (bs, []))
   \<and> (utf8_error bs = Some (v, Some n) \<longrightarrow>
     emit bs = (take v bs @ REPLACEMENT @ fst (emit (drop (v + n) bs)), snd (emit (drop (v + n) bs))))
   \<and> (utf8_error bs = Some (v, None) \<longrightarrow> emit bs = (take v bs, drop v bs))"
proof (induction bs arbitrary: v rule: scan_induct)
  case (Char bs k)
  have split: "take (k + w) bs = take k bs @ take w (drop k bs)" for w by (simp add: take_add)
  have "(utf8_error bs = None \<longrightarrow> emit bs = (bs, []))"
    using Char(2) by (simp add: utf8_error_step(1) [OF Char(1)] emit_step(1) [OF Char(1)])
  moreover have "emit bs = (take (k + w) bs @ REPLACEMENT @ fst (emit (drop (k + w + n) bs)), snd (emit (drop (k + w + n) bs)))"
    if "utf8_error (drop k bs) = Some (w, Some n)" for w
    using Char(2) [of w] that by (simp add: emit_step(1) [OF Char(1)] split ac_simps)
  moreover have "emit bs = (take (k + w) bs, drop (k + w) bs)"
    if "utf8_error (drop k bs) = Some (w, None)" for w
    using Char(2) [of w] that by (simp add: emit_step(1) [OF Char(1)] split ac_simps)
  ultimately show ?case by (auto simp: utf8_error_step(1) [OF Char(1)])
next
  case (Bad bs m)
  then show ?case by (auto simp: utf8_error_step(2) emit_step(2))
next
  case (Short bs)
  then show ?case by (auto simp: utf8_error_step(3) emit_step(3))
qed

lemma take_loop_emit:
  "take_loop pend start out = (out @ fst (emit (drop start pend)), snd (emit (drop start pend)))"
proof (induction pend start out rule: take_loop.induct)
  case (1 pend start out)
  show ?case
  proof (cases "utf8_error (drop start pend)")
    case None
    then show ?thesis by (simp add: take_loop.simps [of pend start] emit_valid)
  next
    case (Some p)
    obtain v err where p: "p = (v, err)" by (cases p)
    show ?thesis
    proof (cases err)
      case None
      then show ?thesis
        using Some p emit_valid [of "drop start pend" v]
        by (simp add: take_loop.simps [of pend start] add.commute)
    next
      case (Some n)
      have e: "utf8_error (drop start pend) = Some (v, Some n)" using \<open>utf8_error _ = Some p\<close> p Some by simp
      have eq: "drop (v + n) (drop start pend) = drop (start + v + n) pend" by (simp add: ac_simps)
      have em: "emit (drop start pend) = (take v (drop start pend) @ REPLACEMENT @ fst (emit (drop (start + v + n) pend)),
          snd (emit (drop (start + v + n) pend)))"
        using emit_valid [of "drop start pend" v n] unfolding eq using e by simp
      have "take_loop pend start out = take_loop pend (start + v + n) ((out @ take v (drop start pend)) @ REPLACEMENT)"
        by (simp add: take_loop.simps [of pend start] e)
      also have "\<dots> = (((out @ take v (drop start pend)) @ REPLACEMENT) @ fst (emit (drop (start + v + n) pend)),
          snd (emit (drop (start + v + n) pend)))"
        using "1.IH" [OF \<open>utf8_error _ = Some p\<close> p [symmetric] refl Some] by simp
      finally show ?thesis by (simp only: em fst_conv snd_conv append_assoc)
    qed
  qed
qed

text \<open>A sequence that is complete or invalid stays so when more bytes follow.\<close>

lemma scan1_append: "scan1 bs \<noteq> Short \<Longrightarrow> scan1 (bs @ cs) = scan1 bs"
proof -
  have "scan1 bs = Short \<or> scan1 (bs @ cs) = scan1 bs"
    by (cases bs; cases "tl bs"; cases "tl (tl bs)"; cases "tl (tl (tl bs))"; simp)
  then show "scan1 bs \<noteq> Short \<Longrightarrow> scan1 (bs @ cs) = scan1 bs" by blast
qed

lemma emit_append:
  "emit (bs @ cs) = (fst (emit bs) @ fst (emit (snd (emit bs) @ cs)), snd (emit (snd (emit bs) @ cs)))"
proof (induction bs rule: scan_induct)
  case (Char bs k)
  then have same: "scan1 (bs @ cs) = Char k" using scan1_append [of bs cs] by simp
  show ?case
    using Char(2) scan1_bounds(1) [OF Char(1)]
    by (simp add: emit_step(1) [OF Char(1)] emit_step(1) [OF same])
next
  case (Bad bs n)
  then have same: "scan1 (bs @ cs) = Bad n" using scan1_append [of bs cs] by simp
  show ?case
    using Bad(2) scan1_bounds(2) [OF Bad(1)]
    by (simp add: emit_step(2) [OF Bad(1)] emit_step(2) [OF same])
qed (simp add: emit_step)

lemma lossy_emit: "lossy bs = fst (emit bs) @ (if snd (emit bs) = [] then [] else REPLACEMENT)"
  by (induction bs rule: scan_induct) (simp_all add: lossy_step emit_step)

section \<open>Well-formed output\<close>

lemma scan1_valid:
  "scan1 bs = Char k \<Longrightarrow> utf8_valid bs = utf8_valid (drop k bs) \<and> utf8_valid (take k bs @ cs) = utf8_valid cs"
  "scan1 bs = Bad n \<Longrightarrow> \<not> utf8_valid bs" "bs \<noteq> [] \<Longrightarrow> scan1 bs = Short \<Longrightarrow> \<not> utf8_valid bs"
proof -
  have "case scan1 bs of Char k \<Rightarrow> utf8_valid bs = utf8_valid (drop k bs) \<and> utf8_valid (take k bs @ cs) = utf8_valid cs
      | Bad n \<Rightarrow> \<not> utf8_valid bs | Short \<Rightarrow> bs = [] \<or> \<not> utf8_valid bs"
  proof (cases bs)
    case (Cons b r)
    consider "b \<le> 0x7F" | "\<not> b \<le> 0x7F" "0xC2 \<le> b \<and> b \<le> 0xDF" | "\<not> b \<le> 0x7F" "\<not> (0xC2 \<le> b \<and> b \<le> 0xDF)" "0xE0 \<le> b \<and> b \<le> 0xEF"
      | "\<not> b \<le> 0x7F" "\<not> (0xC2 \<le> b \<and> b \<le> 0xDF)" "\<not> (0xE0 \<le> b \<and> b \<le> 0xEF)" by blast
    then show ?thesis
    proof cases
      case 1
      then show ?thesis using Cons by simp
    next
      case 2
      have v: "utf8_valid (b # x) = (case x of c # x \<Rightarrow> cont c \<and> utf8_valid x | _ \<Rightarrow> False)"
        and s: "scan1 (b # x) = (case x of [] \<Rightarrow> Short | c # _ \<Rightarrow> if cont c then Char 2 else Bad 1)" for x
        by (simp_all only: utf8_valid.simps scan1.simps 2 if_True if_False simp_thms)
      show ?thesis unfolding Cons by (cases r) (simp_all add: v s del: utf8_valid.simps(2) scan1.simps(2))
    next
      case 3
      then have "b \<noteq> 0xF0" "b \<noteq> 0xF4" by auto
      then have ok: "second_ok b c \<longleftrightarrow> cont c \<and> (b = 0xE0 \<longrightarrow> 0xA0 \<le> c) \<and> (b = 0xED \<longrightarrow> c \<le> 0x9F)" for c
        by (simp add: second_ok_def)
      have v: "utf8_valid (b # x) = (case x of c # d # x \<Rightarrow> second_ok b c \<and> cont d \<and> utf8_valid x | _ \<Rightarrow> False)" for x
        by (simp only: utf8_valid.simps 3 if_True if_False simp_thms ok) (simp add: conj_ac split: list.splits)
      have s: "scan1 (b # x) = (case x of [] \<Rightarrow> Short | c # cs \<Rightarrow> if \<not> second_ok b c then Bad 1
          else case cs of [] \<Rightarrow> Short | d # _ \<Rightarrow> if cont d then Char 3 else Bad 2)" for x
        by (simp only: scan1.simps 3 if_True if_False simp_thms)
      show ?thesis unfolding Cons
        by (simp add: v s del: utf8_valid.simps(2) scan1.simps(2) split: list.split)
    next
      case 4
      then have "b \<noteq> 0xE0" "b \<noteq> 0xED" by auto
      then have ok: "second_ok b c \<longleftrightarrow> cont c \<and> (b = 0xF0 \<longrightarrow> 0x90 \<le> c) \<and> (b = 0xF4 \<longrightarrow> c \<le> 0x8F)" for c
        by (simp add: second_ok_def)
      have v: "utf8_valid (b # x) = ((0xF0 \<le> b \<and> b \<le> 0xF4) \<and> (case x of c # d # e # x \<Rightarrow>
          second_ok b c \<and> cont d \<and> cont e \<and> utf8_valid x | _ \<Rightarrow> False))" for x
        by (cases "0xF0 \<le> b \<and> b \<le> 0xF4"; simp only: utf8_valid.simps 4 if_False if_True simp_thms ok)
          (simp add: conj_ac split: list.splits)
      have s: "scan1 (b # x) = (if 0xF0 \<le> b \<and> b \<le> 0xF4 then
          (case x of [] \<Rightarrow> Short | c # cs \<Rightarrow> if \<not> second_ok b c then Bad 1
           else case cs of [] \<Rightarrow> Short | d # ds \<Rightarrow> if \<not> cont d then Bad 2
             else case ds of [] \<Rightarrow> Short | e # _ \<Rightarrow> if cont e then Char 4 else Bad 3)
          else Bad 1)" for x
        by (simp only: scan1.simps 4 if_False)
      show ?thesis unfolding Cons
        by (cases "0xF0 \<le> b \<and> b \<le> 0xF4")
          (auto simp: v s simp del: utf8_valid.simps(2) scan1.simps(2) split: list.split)
    qed
  qed simp
  then show "scan1 bs = Char k \<Longrightarrow> utf8_valid bs = utf8_valid (drop k bs) \<and> utf8_valid (take k bs @ cs) = utf8_valid cs"
    "scan1 bs = Bad n \<Longrightarrow> \<not> utf8_valid bs" "bs \<noteq> [] \<Longrightarrow> scan1 bs = Short \<Longrightarrow> \<not> utf8_valid bs"
    by auto
qed

lemma REPLACEMENT_valid [simp]: "utf8_valid (REPLACEMENT @ s) = utf8_valid s"
  by (simp add: REPLACEMENT_def cont_def)

lemma utf8_valid_emit: "utf8_valid (fst (emit bs))"
  by (induction bs rule: scan_induct) (simp_all add: emit_step scan1_valid(1))

lemma valid_induct [consumes 1, case_names Nil Char]:
  assumes "utf8_valid bs" "P []" "\<And>bs k. scan1 bs = Char k \<Longrightarrow> utf8_valid (drop k bs) \<Longrightarrow> P (drop k bs) \<Longrightarrow> P bs"
  shows "P bs"
  using assms(1)
proof (induction bs rule: scan_induct)
  case (Char bs k)
  then have "utf8_valid (drop k bs)" using scan1_valid(1) [OF Char(1)] by blast
  then show ?case using assms(3) [OF Char(1)] Char(2) by blast
next
  case (Bad bs n)
  then show ?case using scan1_valid(2) [OF Bad(1)] by blast
next
  case (Short bs)
  then have "bs = []" using scan1_valid(3) [of bs] by auto
  then show ?case using assms(2) by simp
qed

lemma emit_of_valid: "utf8_valid bs \<Longrightarrow> emit bs = (bs, [])"
  by (induction bs rule: valid_induct) (simp_all add: emit_step)

lemma utf8_valid_append: "utf8_valid bs \<Longrightarrow> utf8_valid (bs @ cs) = utf8_valid cs"
proof (induction bs rule: valid_induct)
  case (Char bs k)
  have "utf8_valid (take k bs @ (drop k bs @ cs)) = utf8_valid (drop k bs @ cs)"
    using scan1_valid(1) [OF Char(1), of "drop k bs @ cs"] by blast
  then show ?case using Char(3) by (simp flip: append_assoc)
qed simp

text \<open>Well-formed text may be cut before every byte that is not a continuation byte.\<close>

lemma second_ok_cont: "second_ok b c \<Longrightarrow> cont c"
  by (simp add: second_ok_def)

lemma scan1_head:
  assumes "scan1 bs = Char k"
  shows "\<not> cont (bs ! 0)" "0 < i \<Longrightarrow> i < k \<Longrightarrow> cont (bs ! i)"
proof -
  obtain b r where bs: "bs = b # r" using assms by (cases bs) auto
  have "b \<le> 0x7F \<or> 0xC2 \<le> b" using assms by (auto simp: bs word_le_nat_alt split: if_splits)
  then show "\<not> cont (bs ! 0)" by (auto simp: bs cont_def word_le_nat_alt)
  have "k \<le> 1 \<or> (k = 2 \<and> (\<exists>c s. r = c # s \<and> cont c)) \<or> (k = 3 \<and> (\<exists>c d s. r = c # d # s \<and> cont c \<and> cont d))
      \<or> (k = 4 \<and> (\<exists>c d e s. r = c # d # e # s \<and> cont c \<and> cont d \<and> cont e))"
    using assms by (auto simp: bs second_ok_cont split: if_splits list.splits)
  then show "0 < i \<Longrightarrow> i < k \<Longrightarrow> cont (bs ! i)" by (auto simp: bs nth_Cons' less_Suc_eq numeral_eq_Suc)
qed

lemma utf8_valid_cut:
  assumes "utf8_valid bs" "p < length bs" "\<not> cont (bs ! p)"
  shows "utf8_valid (take p bs) \<and> utf8_valid (drop p bs)"
  using assms
proof (induction bs arbitrary: p rule: valid_induct)
  case (Char bs k)
  show ?case
  proof (cases "p = 0")
    case True
    then show ?thesis using Char(1,2) scan1_valid(1) [OF Char(1)] by simp
  next
    case False
    then have p: "k \<le> p" using scan1_head(2) [OF Char(1), of p] Char(5) by force
    then have "utf8_valid (take (p - k) (drop k bs)) \<and> utf8_valid (drop (p - k) (drop k bs))"
      using Char(3) [of "p - k"] Char(4,5) by (simp add: add.commute)
    moreover have "take p bs = take k bs @ take (p - k) (drop k bs)" using p by (simp flip: take_add)
    ultimately show ?thesis using p scan1_valid(1) [OF Char(1)] by (simp add: add.commute)
  qed
qed simp

lemma utf8_valid_hd: "utf8_valid bs \<Longrightarrow> bs \<noteq> [] \<Longrightarrow> \<not> cont (bs ! 0)"
  by (induction bs rule: valid_induct) (use scan1_head(1) in auto)

lemma lossy_of_valid: "utf8_valid bs \<Longrightarrow> lossy bs = bs"
  by (simp add: lossy_emit emit_of_valid)

section \<open>Properties\<close>

lemma dec_take_emit: "dec_take d = (fst (emit (pending d)), d\<lparr>pending := snd (emit (pending d))\<rparr>)"
  by (simp add: dec_take_def take_loop_emit case_prod_unfold Let_def)

lemma dec_flush_lossy: "dec_flush d = (lossy (pending d), d\<lparr>pending := []\<rparr>)"
  by (cases d) (auto simp: dec_flush_def dec_take_emit lossy_emit)

text \<open>Any use of a decoder: bytes are pushed and text is taken in any order.\<close>

datatype dec_op = Push "u8 list" | Take

fun dec_run :: "dec_op list \<Rightarrow> IncrementalDecoder \<Rightarrow> str \<times> IncrementalDecoder" where
  "dec_run [] d = ([], d)"
| "dec_run (Push bs # ops) d = dec_run ops (dec_push bs d)"
| "dec_run (Take # ops) d = (let (out, d) = dec_take d; (outs, d) = dec_run ops d in (out @ outs, d))"

fun pushed :: "dec_op list \<Rightarrow> u8 list" where
  "pushed [] = []"
| "pushed (Push bs # ops) = bs @ pushed ops"
| "pushed (Take # ops) = pushed ops"

lemma dec_run_lossy:
  "fst (dec_run ops d) @ lossy (pending (snd (dec_run ops d))) = lossy (pending d @ pushed ops)"
proof (induction ops d rule: dec_run.induct)
  case (3 ops d)
  let ?d = "d\<lparr>pending := snd (emit (pending d))\<rparr>"
  have "fst (dec_run ops ?d) @ lossy (pending (snd (dec_run ops ?d))) = lossy (snd (emit (pending d)) @ pushed ops)"
    using 3 by (simp add: dec_take_emit)
  moreover have "lossy (pending d @ pushed ops) = fst (emit (pending d)) @ lossy (snd (emit (pending d)) @ pushed ops)"
    unfolding lossy_emit emit_append [of "pending d" "pushed ops"] by simp
  ultimately show ?case by (simp add: dec_take_emit Let_def case_prod_unfold)
qed (simp_all add: dec_push_def)

lemma dec_run_valid: "utf8_valid (fst (dec_run ops d))"
proof (induction ops d rule: dec_run.induct)
  case (3 ops d)
  then show ?case by (simp add: dec_take_emit Let_def case_prod_unfold utf8_valid_append [OF utf8_valid_emit])
qed simp_all

end
