(* ===== verification/Tok_Bpe.thy ===== *)
theory Tok_Bpe
  imports Tok_Decode "HOL-Library.Product_Lexorder"
begin

text \<open>
  The byte-level BPE tokenizer (\<^verbatim>\<open>crates/tokenizer/src/bpe.rs\<close>): construction from the three
  tables, cutting of the text at the special tokens, merging of one word with a priority queue,
  and decoding. A \<^verbatim>\<open>HashMap\<close> is a partial map; token ids and ranks are naturals cast to 32 bits
  where the code casts.
\<close>

section \<open>Strings and errors\<close>

definition ascii :: "string \<Rightarrow> str" where
  "ascii s = map of_char s"

datatype TokenizerError =
    MissingMetadata str
  | InvalidMeta str string
  | UnsupportedModel str
  | CorruptMerges nat str
  | MissingSpecial string
  | CorruptSpm string
  | SpmEncodeUnimplemented
  | Gguf GgufError

text \<open>The \<^verbatim>\<open>?\<close> operator on a metadata access.\<close>

fun from_gguf_error :: "('a, GgufError) res \<Rightarrow> ('a, TokenizerError) res" where
  "from_gguf_error (Ok x) = Ok x"
| "from_gguf_error (Err e) = Err (Gguf e)"
| "from_gguf_error Panic = Panic"

fun ok_or :: "'e \<Rightarrow> 'a option \<Rightarrow> ('a, 'e) res" where
  "ok_or e (Some x) = Ok x"
| "ok_or e None = Err e"

definition as_u32 :: "nat \<Rightarrow> nat" where
  "as_u32 n = n mod 2 ^ 32"

abbreviation (input) TYPE_UNDEFINED :: nat where "TYPE_UNDEFINED \<equiv> 0"
abbreviation (input) TYPE_NORMAL :: nat where "TYPE_NORMAL \<equiv> 1"
abbreviation (input) TYPE_UNKNOWN :: nat where "TYPE_UNKNOWN \<equiv> 2"
abbreviation (input) TYPE_CONTROL :: nat where "TYPE_CONTROL \<equiv> 3"
abbreviation (input) TYPE_USER_DEFINED :: nat where "TYPE_USER_DEFINED \<equiv> 4"
abbreviation (input) TYPE_UNUSED :: nat where "TYPE_UNUSED \<equiv> 5"
abbreviation (input) TYPE_BYTE :: nat where "TYPE_BYTE \<equiv> 6"

section \<open>The tokenizer and its construction\<close>

type_synonym merges_by_id = "nat \<times> nat \<rightharpoonup> nat"
type_synonym merges_by_text = "str \<rightharpoonup> (str \<rightharpoonup> nat)"

record BpeTokenizer =
  pieces :: "str list"
  types :: "nat list"
  text_to_id :: "str \<rightharpoonup> nat"
  byte_to_id :: "u8 \<rightharpoonup> nat"
  by_id :: merges_by_id
  by_text :: merges_by_text
  specials :: "nat list"
  tok_unk :: "nat option"
  tok_bos :: "nat option"
  tok_eos :: "nat option"
  add_bos :: bool
  add_eos :: bool

definition text_ids :: "str list \<Rightarrow> str \<rightharpoonup> nat" where
  "text_ids ps = map_of (rev (map (\<lambda>(i, p). (p, as_u32 i)) (List.enumerate 0 ps)))"

text \<open>\<^verbatim>\<open>str::find(' ')\<close>\<close>

definition find_space :: "str \<Rightarrow> nat option" where
  "find_space m = (let i = length (takeWhile (\<lambda>b. b \<noteq> 0x20) m) in if i < length m then Some i else None)"

fun add_merges :: "(str \<rightharpoonup> nat) \<Rightarrow> nat \<Rightarrow> str list \<Rightarrow> merges_by_id \<Rightarrow> merges_by_text
    \<Rightarrow> (merges_by_id \<times> merges_by_text, TokenizerError) res" where
  "add_merges ids i [] mi mt = Ok (mi, mt)"
| "add_merges ids i (m # ms) mi mt = (case find_space m of
       None \<Rightarrow> Err (CorruptMerges i m)
     | Some sp \<Rightarrow>
         let left = take sp m; right = drop (sp + 1) m in
         (case (ids left, ids right) of
            (Some l, Some r) \<Rightarrow> add_merges ids (i + 1) ms (mi((l, r) \<mapsto> as_u32 i)) mt
          | _ \<Rightarrow> add_merges ids (i + 1) ms mi
              (mt(left \<mapsto> ((case mt left of None \<Rightarrow> Map.empty | Some inner \<Rightarrow> inner)(right \<mapsto> as_u32 i))))))"

text \<open>
  The ids of the special types in order of length (longest first), then id; the comparison of two
  ids outside the piece table panics.
\<close>

definition special_ids :: "str list \<Rightarrow> nat list \<Rightarrow> (nat list, TokenizerError) res" where
  "special_ids ps ts =
     (let sp = map (\<lambda>(i, t). as_u32 i) (filter (\<lambda>(i, t). t \<in> {TYPE_CONTROL, TYPE_USER_DEFINED, TYPE_UNKNOWN})
        (List.enumerate 0 ts))
      in if 2 \<le> length sp \<and> (\<exists>i\<in>set sp. length ps \<le> i) then Panic
         else Ok (sort_key (\<lambda>i. (- int (length (ps ! i)), i)) sp))"

definition from_parts :: "str list \<Rightarrow> nat list \<Rightarrow> str list \<Rightarrow> nat option \<Rightarrow> nat option \<Rightarrow> nat option
    \<Rightarrow> bool \<Rightarrow> bool \<Rightarrow> (BpeTokenizer, TokenizerError) res" where
  "from_parts ps ts merges bos eos unk ab ae =
     (let ids = text_ids ps in
      res_bind (add_merges ids 0 merges Map.empty Map.empty) (\<lambda>(mi, mt).
      res_bind (special_ids ps ts) (\<lambda>sp.
      Ok \<lparr>pieces = ps, types = ts, text_to_id = ids, byte_to_id = (\<lambda>b. ids (byte_to_unicode b)),
          by_id = mi, by_text = mt, specials = sp, tok_unk = unk, tok_bos = bos, tok_eos = eos,
          add_bos = ab, add_eos = ae\<rparr>)))"

text \<open>\<^verbatim>\<open>meta_bool\<close>, \<^verbatim>\<open>meta_special_id\<close> and the token types, shared with the SentencePiece side.\<close>

definition meta_bool :: "ModelMeta \<Rightarrow> str \<Rightarrow> bool \<Rightarrow> (bool, TokenizerError) res" where
  "meta_bool meta key dflt = (case meta_get meta key of
       None \<Rightarrow> Ok dflt
     | Some (M_Bool b) \<Rightarrow> Ok b
     | Some _ \<Rightarrow> Err (InvalidMeta key ''expected bool''))"

text \<open>\<^verbatim>\<open>pieces.iter().position(|p| p == name)\<close>\<close>

definition position_id :: "str \<Rightarrow> str list \<Rightarrow> nat option" where
  "position_id name ps = (let i = length (takeWhile (\<lambda>p. p \<noteq> name) ps)
     in if i < length ps then Some (as_u32 i) else None)"

definition meta_special_id :: "ModelMeta \<Rightarrow> str \<Rightarrow> str \<Rightarrow> str list \<Rightarrow> (nat option, TokenizerError) res" where
  "meta_special_id meta key name ps = (case meta_get meta key of
       None \<Rightarrow> Ok (position_id name ps)
     | Some (M_U32 v) \<Rightarrow> Ok (Some (unat v))
     | Some _ \<Rightarrow> Err (InvalidMeta key ''expected u32''))"

definition token_types :: "ModelMeta \<Rightarrow> str list \<Rightarrow> (nat list, TokenizerError) res" where
  "token_types meta ps =
     (let key = ascii ''tokenizer.ggml.token_type'' in
      case meta_get meta key of
        None \<Rightarrow> Ok (replicate (length ps) TYPE_NORMAL)
      | Some (M_Array (A_U32 xs)) \<Rightarrow>
          if length xs < length ps then Err (InvalidMeta key ''token_type shorter than tokens'')
          else Ok (map unat (take (length ps) xs))
      | Some (M_Array (A_I32 xs)) \<Rightarrow>
          if length xs < length ps then Err (InvalidMeta key ''token_type shorter than tokens'')
          else Ok (map unat (take (length ps) xs))
      | Some _ \<Rightarrow> Err (InvalidMeta key ''expected u32/i32 array''))"

text \<open>\<^verbatim>\<open>meta.meta_array_str(key)?.ok_or_else(MissingMetadata)?\<close>\<close>

definition required_strings :: "ModelMeta \<Rightarrow> str \<Rightarrow> (str list, TokenizerError) res" where
  "required_strings meta key =
     res_bind (from_gguf_error (meta_array_str meta key)) (ok_or (MissingMetadata key))"

definition required_model :: "ModelMeta \<Rightarrow> (str, TokenizerError) res" where
  "required_model meta = (let key = ascii ''tokenizer.ggml.model'' in
     res_bind (from_gguf_error (meta_str meta key)) (ok_or (MissingMetadata key)))"

definition bpe_from_meta :: "ModelMeta \<Rightarrow> (BpeTokenizer, TokenizerError) res" where
  "bpe_from_meta meta =
     res_bind (required_model meta) (\<lambda>model.
     if model \<noteq> ascii ''gpt2'' then Err (UnsupportedModel model) else
     res_bind (required_strings meta (ascii ''tokenizer.ggml.tokens'')) (\<lambda>ps.
     res_bind (token_types meta ps) (\<lambda>ts.
     res_bind (required_strings meta (ascii ''tokenizer.ggml.merges'')) (\<lambda>merges.
     res_bind (meta_special_id meta (ascii ''tokenizer.ggml.bos_token_id'') (ascii ''<s>'') ps) (\<lambda>bos.
     res_bind (meta_special_id meta (ascii ''tokenizer.ggml.eos_token_id'') (ascii ''</s>'') ps) (\<lambda>eos.
     res_bind (meta_special_id meta (ascii ''tokenizer.ggml.unknown_token_id'') (ascii ''<unk>'') ps) (\<lambda>unk.
     res_bind (meta_bool meta (ascii ''tokenizer.ggml.add_bos_token'') False) (\<lambda>ab.
     res_bind (meta_bool meta (ascii ''tokenizer.ggml.add_eos_token'') False) (\<lambda>ae.
     from_parts ps ts merges bos eos unk ab ae)))))))))"

section \<open>Cutting at the special tokens\<close>

datatype Fragment = Raw str | Token nat

definition memmem :: "u8 list \<Rightarrow> u8 list \<Rightarrow> nat option" where
  "memmem haystack needle =
     (if length haystack < length needle then None
      else find (\<lambda>i. take (length needle) (drop i haystack) = needle) [0..<length haystack - length needle + 1])"

text \<open>A byte index of a string at which it may be cut; \<^verbatim>\<open>&text[a..b]\<close> panics elsewhere.\<close>

definition boundary :: "str \<Rightarrow> nat \<Rightarrow> bool" where
  "boundary s i \<longleftrightarrow> i = length s \<or> (i < length s \<and> \<not> cont (s ! i))"

definition best_step :: "str \<Rightarrow> str list \<Rightarrow> nat \<Rightarrow> nat \<Rightarrow> (nat \<times> nat \<times> nat) option \<Rightarrow> (nat \<times> nat \<times> nat) option" where
  "best_step text ps pos sid best =
     (let stext = ps ! sid in
      if stext = [] then best
      else case memmem (drop pos text) stext of
        None \<Rightarrow> best
      | Some rel \<Rightarrow> let start = pos + rel in
          (case best of
             None \<Rightarrow> Some (start, length stext, sid)
           | Some (bs, bl, bid) \<Rightarrow>
               if start < bs \<or> (start = bs \<and> (bl < length stext \<or> (length stext = bl \<and> sid < bid)))
               then Some (start, length stext, sid) else best))"

definition best_special :: "str \<Rightarrow> nat list \<Rightarrow> str list \<Rightarrow> nat \<Rightarrow> (nat \<times> nat \<times> nat) option" where
  "best_special text sp ps pos = fold (best_step text ps pos) sp None"

text \<open>Where a special text occurs from a position on, and the order in which occurrences are taken.\<close>

definition occurs :: "str \<Rightarrow> str list \<Rightarrow> nat \<Rightarrow> nat \<Rightarrow> nat \<Rightarrow> bool" where
  "occurs text ps pos s p \<longleftrightarrow> ps ! s \<noteq> [] \<and> pos \<le> p \<and> p + length (ps ! s) \<le> length text
     \<and> take (length (ps ! s)) (drop p text) = ps ! s"

definition taken_first :: "nat \<times> nat \<times> nat \<Rightarrow> nat \<times> nat \<times> nat \<Rightarrow> bool" where
  "taken_first = (\<lambda>(start, len, sid) (p, l, s).
     start < p \<or> (start = p \<and> (l < len \<or> (l = len \<and> sid \<le> s))))"

lemma memmem_Some: "memmem h n = Some i \<Longrightarrow>
    i + length n \<le> length h \<and> take (length n) (drop i h) = n \<and> (\<forall>j<i. take (length n) (drop j h) \<noteq> n)"
  by (auto simp: memmem_def find_Some_iff nth_upt simp del: upt_Suc split: if_splits)

lemma memmem_None: "memmem h n = None \<Longrightarrow> i + length n \<le> length h \<Longrightarrow> take (length n) (drop i h) \<noteq> n"
  by (auto simp: memmem_def find_None_iff simp del: upt_Suc split: if_splits)

lemma memmem_occurs:
  assumes "ps ! s \<noteq> []" "pos \<le> length text"
  shows "case memmem (drop pos text) (ps ! s) of
      None \<Rightarrow> \<forall>p. \<not> occurs text ps pos s p
    | Some rel \<Rightarrow> occurs text ps pos s (pos + rel) \<and> (\<forall>p. occurs text ps pos s p \<longrightarrow> pos + rel \<le> p)"
proof (cases "memmem (drop pos text) (ps ! s)")
  case None
  have "\<not> occurs text ps pos s p" for p
  proof
    assume "occurs text ps pos s p"
    moreover from this have "p - pos + length (ps ! s) \<le> length (drop pos text)" "pos + (p - pos) = p"
      by (auto simp: occurs_def)
    ultimately show False using memmem_None [OF None, of "p - pos"] by (auto simp: occurs_def add.commute)
  qed
  then show ?thesis using None by simp
next
  case (Some rel)
  note m = memmem_Some [OF Some]
  have "rel + length (ps ! s) \<le> length text - pos" "take (length (ps ! s)) (drop (pos + rel) text) = ps ! s"
    using m by (simp_all add: add.commute)
  then have "occurs text ps pos s (pos + rel)" using assms unfolding occurs_def by linarith
  moreover have "pos + rel \<le> p" if "occurs text ps pos s p" for p
  proof (rule ccontr)
    assume "\<not> pos + rel \<le> p"
    then have "p - pos < rel" "pos + (p - pos) = p" using that by (auto simp: occurs_def)
    then show False using m that by (auto simp: occurs_def add.commute)
  qed
  ultimately show ?thesis using Some by simp
qed

text \<open>The chosen occurrence: none other is taken before it.\<close>

lemma best_special_spec:
  assumes "pos \<le> length text"
  shows "case best_special text sp ps pos of
      None \<Rightarrow> \<forall>s\<in>set sp. \<forall>p. \<not> occurs text ps pos s p
    | Some (start, len, sid) \<Rightarrow> sid \<in> set sp \<and> len = length (ps ! sid) \<and> occurs text ps pos sid start
        \<and> (\<forall>s\<in>set sp. \<forall>p. occurs text ps pos s p \<longrightarrow> taken_first (start, len, sid) (p, length (ps ! s), s))"
  unfolding best_special_def
proof (induction sp rule: rev_induct)
  case (snoc s sp)
  let ?b = "fold (best_step text ps pos) sp None"
  show ?case
  proof (cases "ps ! s = []")
    case True
    then have "\<not> occurs text ps pos s p" for p by (simp add: occurs_def)
    then show ?thesis using snoc True by (auto simp: best_step_def split: option.splits)
  next
    case False
    note m = memmem_occurs [OF False assms]
    show ?thesis
    proof (cases "memmem (drop pos text) (ps ! s)")
      case None
      then show ?thesis using snoc m False by (auto simp: best_step_def split: option.splits)
    next
      case (Some rel)
      then have o: "occurs text ps pos s (pos + rel)" and least: "\<And>p. occurs text ps pos s p \<Longrightarrow> pos + rel \<le> p"
        using m by auto
      have step: "best_step text ps pos s ?b = (case ?b of None \<Rightarrow> Some (pos + rel, length (ps ! s), s)
          | Some (bs, bl, bid) \<Rightarrow> if pos + rel < bs \<or> (pos + rel = bs \<and> (bl < length (ps ! s) \<or> (length (ps ! s) = bl \<and> s < bid)))
               then Some (pos + rel, length (ps ! s), s) else ?b)"
        using Some False by (simp add: best_step_def Let_def)
      have self: "taken_first (pos + rel, length (ps ! s), s) (p, length (ps ! s), s)" if "occurs text ps pos s p" for p
        using least [OF that] by (auto simp: taken_first_def)
      show ?thesis
      proof (cases ?b)
        case None
        then show ?thesis using snoc step o self by auto
      next
        case (Some b)
        obtain bs bl bid where b: "b = (bs, bl, bid)" by (cases b)
        note ih = snoc [unfolded Some b option.case prod.case]
        show ?thesis
        proof (cases "pos + rel < bs \<or> (pos + rel = bs \<and> (bl < length (ps ! s) \<or> (length (ps ! s) = bl \<and> s < bid)))")
          case True
          have "taken_first (pos + rel, length (ps ! s), s) (p, length (ps ! t), t)"
            if "t \<in> set sp" "occurs text ps pos t p" for t p
            using ih that True by (fastforce simp: taken_first_def)
          moreover have "fold (best_step text ps pos) (sp @ [s]) None = Some (pos + rel, length (ps ! s), s)"
            using True step Some b by simp
          ultimately show ?thesis using o self by auto
        next
          case False
          have "taken_first (bs, bl, bid) (p, length (ps ! s), s)" if "occurs text ps pos s p" for p
            using least [OF that] False by (auto simp: taken_first_def)
          moreover have "fold (best_step text ps pos) (sp @ [s]) None = Some (bs, bl, bid)"
            using False step Some b by auto
          ultimately show ?thesis using ih by auto
        qed
      qed
    qed
  qed
qed simp

lemma best_special_bounds:
  assumes "pos \<le> length text" "best_special text sp ps pos = Some (start, len, sid)"
  shows "sid \<in> set sp \<and> pos \<le> start \<and> 0 < len \<and> start + len \<le> length text
     \<and> len = length (ps ! sid) \<and> take len (drop start text) = ps ! sid"
  using best_special_spec [OF assms(1), of sp ps] assms(2) by (auto simp: occurs_def)

function partition_loop :: "str \<Rightarrow> nat list \<Rightarrow> str list \<Rightarrow> nat \<Rightarrow> (Fragment list, TokenizerError) res" where
  "partition_loop text sp ps pos =
     (if length text \<le> pos then Ok []
      else if \<exists>sid\<in>set sp. length ps \<le> sid then Panic
      else case best_special text sp ps pos of
        None \<Rightarrow> if boundary text pos then Ok [Raw (drop pos text)] else Panic
      | Some (start, len, sid) \<Rightarrow>
          if pos < start \<and> \<not> (boundary text pos \<and> boundary text start) then Panic
          else res_bind (partition_loop text sp ps (start + len)) (\<lambda>frags.
            Ok ((if pos < start then [Raw (take (start - pos) (drop pos text))] else []) @ Token sid # frags)))"
  by pat_completeness auto
termination
proof (relation "measure (\<lambda>(text, sp, ps, pos). length text - pos)", goal_cases)
  case (2 t sp ps pos p start q len sid)
  then have "pos \<le> start \<and> 0 < len \<and> start + len \<le> length t \<and> pos < length t"
    using best_special_bounds [of pos t sp ps start len sid] by auto
  then show ?case by simp arith
qed simp

declare partition_loop.simps [simp del]

definition partition_special :: "str \<Rightarrow> nat list \<Rightarrow> str list \<Rightarrow> (Fragment list, TokenizerError) res" where
  "partition_special text sp ps = partition_loop text sp ps 0"

section \<open>Properties of the cutting\<close>

fun fragment_text :: "str list \<Rightarrow> Fragment \<Rightarrow> str" where
  "fragment_text ps (Raw s) = s"
| "fragment_text ps (Token i) = ps ! i"

fun fragment_ok :: "nat list \<Rightarrow> Fragment \<Rightarrow> bool" where
  "fragment_ok sp (Raw s) \<longleftrightarrow> s \<noteq> [] \<and> utf8_valid s"
| "fragment_ok sp (Token i) \<longleftrightarrow> i \<in> set sp"

lemma boundary_of_valid:
  assumes "utf8_valid (drop p s)" "p \<le> length s" shows "boundary s p"
proof (cases "p = length s")
  case False
  then have "drop p s \<noteq> []" using assms(2) by simp
  from utf8_valid_hd [OF assms(1) this] False assms(2) show ?thesis by (simp add: boundary_def)
qed (simp add: boundary_def)

lemma partition_loop_total:
  assumes ps: "\<forall>p\<in>set ps. utf8_valid p" and sp: "\<forall>s\<in>set sp. s < length ps"
    and "utf8_valid (drop pos t)" "pos \<le> length t"
  shows "\<exists>frags. partition_loop t sp ps pos = Ok frags
     \<and> concat (map (fragment_text ps) frags) = drop pos t \<and> (\<forall>f\<in>set frags. fragment_ok sp f)"
  using assms(3,4)
proof (induction "length t - pos" arbitrary: pos rule: less_induct)
  case less
  show ?case
  proof (cases "pos = length t")
    case True
    then show ?thesis by (simp add: partition_loop.simps)
  next
    case False
    then have lt: "\<not> length t \<le> pos" and sp': "\<not> (\<exists>s\<in>set sp. length ps \<le> s)" using less.prems sp by auto
    have b: "boundary t pos" using boundary_of_valid less.prems by blast
    show ?thesis
    proof (cases "best_special t sp ps pos")
      case None
      then show ?thesis using lt sp' b less.prems by (simp add: partition_loop.simps [of t sp ps pos])
    next
      case (Some x)
      obtain start len sid where x: "x = (start, len, sid)" by (cases x)
      note m = best_special_bounds [OF less.prems(2) Some [unfolded x]]
      have "drop start t = ps ! sid @ drop (start + len) t"
        by (metis m append_take_drop_id drop_drop add.commute)
      moreover have piece: "utf8_valid (ps ! sid)" using m ps sp by simp
      ultimately have v: "utf8_valid (drop start t) = utf8_valid (drop (start + len) t)"
        by (simp add: utf8_valid_append)
      have "\<not> cont (t ! start)"
        using utf8_valid_hd [OF piece] m by (metis add.right_neutral length_greater_0_conv nth_drop nth_take
          add_leD1 order_less_le_trans less_add_same_cancel1)
      moreover have "start - pos < length t - pos" using m by (elim conjE) arith
      ultimately have "utf8_valid (take (start - pos) (drop pos t)) \<and> utf8_valid (drop start t)"
        using utf8_valid_cut [OF less.prems(1), of "start - pos"] m by simp
      moreover from this have "boundary t start" using m boundary_of_valid by simp
      moreover have "length t - (start + len) < length t - pos" using m lt by (elim conjE) arith
      moreover obtain frags where "partition_loop t sp ps (start + len) = Ok frags"
        "concat (map (fragment_text ps) frags) = drop (start + len) t" "\<forall>f\<in>set frags. fragment_ok sp f"
        using less.hyps [of "start + len"] m v calculation by auto
      moreover have "drop pos t = take (start - pos) (drop pos t) @ ps ! sid @ drop (start + len) t"
        using \<open>drop start t = _\<close> append_take_drop_id [of "start - pos" "drop pos t"] m by simp
      ultimately show ?thesis
        using Some x m lt sp' b by (auto simp: partition_loop.simps [of t sp ps pos])
    qed
  qed
qed

lemma partition_total:
  assumes "\<forall>p\<in>set ps. utf8_valid p" "\<forall>s\<in>set sp. s < length ps" "utf8_valid t"
  shows "\<exists>frags. partition_special t sp ps = Ok frags
     \<and> concat (map (fragment_text ps) frags) = t \<and> (\<forall>f\<in>set frags. fragment_ok sp f)"
  using partition_loop_total [OF assms(1,2), of 0 t] assms(3) by (simp add: partition_special_def)

end
