(* ===== verification/Tok_Merge.thy ===== *)
theory Tok_Merge
  imports Tok_Bpe
begin

text \<open>
  Merging one word (\<^verbatim>\<open>encode_word\<close> and \<^verbatim>\<open>add_new_bigram\<close> of \<^verbatim>\<open>crates/tokenizer/src/bpe.rs\<close>): the
  linked symbols, the priority queue of bigrams with its stale entries, and the proof that the
  loop computes the greedy merge of the leftmost pair of least rank.
\<close>

section \<open>Symbols and the queue\<close>

record Sym =
  sm_start :: nat
  sm_len :: nat
  sm_prev :: int
  sm_next :: int

record Bigram =
  bg_rank :: nat
  bg_left :: nat
  bg_right :: nat
  bg_l_start :: nat
  bg_l_len :: nat
  bg_r_start :: nat
  bg_r_len :: nat

text \<open>\<^verbatim>\<open>&encoded[start..start + len]\<close>\<close>

definition text_slice :: "str \<Rightarrow> nat \<Rightarrow> nat \<Rightarrow> str" where
  "text_slice s start len = take len (drop start s)"

text \<open>The rank of a pair of texts: by ids when both are pieces, by text otherwise.\<close>

definition pair_rank :: "BpeTokenizer \<Rightarrow> str \<Rightarrow> str \<Rightarrow> nat option" where
  "pair_rank tok l r = (case (text_to_id tok l, text_to_id tok r) of
       (Some li, Some ri) \<Rightarrow> by_id tok (li, ri)
     | _ \<Rightarrow> (case by_text tok l of None \<Rightarrow> None | Some inner \<Rightarrow> inner r))"

definition add_new_bigram :: "BpeTokenizer \<Rightarrow> int \<Rightarrow> int \<Rightarrow> str \<Rightarrow> Sym list \<Rightarrow> Bigram list \<Rightarrow> Bigram list" where
  "add_new_bigram tok left right encoded symbols queue =
     (if left < 0 \<or> right < 0 then queue
      else let l = nat left; r = nat right in
        if length symbols \<le> l \<or> length symbols \<le> r then queue
        else let ls = symbols ! l; rs = symbols ! r in
          if sm_len ls = 0 \<or> sm_len rs = 0 then queue
          else case pair_rank tok (text_slice encoded (sm_start ls) (sm_len ls)) (text_slice encoded (sm_start rs) (sm_len rs)) of
            None \<Rightarrow> queue
          | Some rank \<Rightarrow> queue @ [\<lparr>bg_rank = rank, bg_left = l, bg_right = r, bg_l_start = sm_start ls,
              bg_l_len = sm_len ls, bg_r_start = sm_start rs, bg_r_len = sm_len rs\<rparr>])"

text \<open>
  \<^verbatim>\<open>BinaryHeap::pop\<close>: an element of least rank and left index. \<^verbatim>\<open>Ord\<close> compares nothing else, so the
  choice among the least ones is left to an arbitrary function \<open>tie\<close> of the queue.
\<close>

definition bigram_le :: "Bigram \<Rightarrow> Bigram \<Rightarrow> bool" where
  "bigram_le a b \<longleftrightarrow> bg_rank a < bg_rank b \<or> (bg_rank a = bg_rank b \<and> bg_left a \<le> bg_left b)"

definition heap_pop :: "(Bigram list \<Rightarrow> nat) \<Rightarrow> Bigram list \<Rightarrow> (Bigram \<times> Bigram list) option" where
  "heap_pop tie q =
     (if q = [] then None
      else let least = filter (\<lambda>b. \<forall>b'\<in>set q. bigram_le b b') q; b = least ! (tie q mod length least)
        in Some (b, remove1 b q))"

text \<open>The chain of symbols, one per character.\<close>

fun symbol_chain :: "uchar list \<Rightarrow> nat \<Rightarrow> nat \<Rightarrow> Sym list" where
  "symbol_chain [] i start = []"
| "symbol_chain (c # cs) i start =
     \<lparr>sm_start = start, sm_len = length c, sm_prev = int i - 1, sm_next = (if cs = [] then -1 else int i + 1)\<rparr>
     # symbol_chain cs (i + 1) (start + length c)"

definition stale :: "Bigram \<Rightarrow> Sym list \<Rightarrow> bool" where
  "stale b symbols \<longleftrightarrow> (let left = symbols ! bg_left b; right = symbols ! bg_right b in
     sm_len left = 0 \<or> sm_len right = 0 \<or> sm_start left \<noteq> bg_l_start b \<or> sm_len left \<noteq> bg_l_len b
     \<or> sm_start right \<noteq> bg_r_start b \<or> sm_len right \<noteq> bg_r_len b)"

text \<open>The writes of one merge, in the order of the code.\<close>

definition merge_symbols :: "Bigram \<Rightarrow> Sym list \<Rightarrow> Sym list" where
  "merge_symbols b symbols =
     (let right = symbols ! bg_right b; right_len = sm_len right; right_next = sm_next right;
        symbols = symbols[bg_left b := (symbols ! bg_left b)\<lparr>sm_len := sm_len (symbols ! bg_left b) + right_len\<rparr>];
        symbols = symbols[bg_left b := (symbols ! bg_left b)\<lparr>sm_next := right_next\<rparr>];
        symbols = symbols[bg_right b := (symbols ! bg_right b)\<lparr>sm_len := 0\<rparr>]
      in if 0 \<le> right_next
         then symbols[nat right_next := (symbols ! nat right_next)\<lparr>sm_prev := int (bg_left b)\<rparr>]
         else symbols)"

section \<open>The loop\<close>

text \<open>The number of symbols still in the chain: each merge takes one out.\<close>

definition live_count :: "Sym list \<Rightarrow> nat" where
  "live_count symbols = length (filter (\<lambda>s. sm_len s \<noteq> 0) symbols)"

lemma live_count_update:
  assumes "i < length xs"
  shows "live_count (xs[i := s]) + (if sm_len (xs ! i) \<noteq> 0 then 1 else 0)
    = live_count xs + (if sm_len s \<noteq> 0 then 1 else 0)"
  using assms
proof (induction xs arbitrary: i)
  case (Cons x xs)
  then show ?case by (cases i) (auto simp: live_count_def)
qed simp

lemma live_count_same: "(sm_len s = 0) = (sm_len (xs ! i) = 0) \<Longrightarrow> live_count (xs[i := s]) = live_count xs"
  using live_count_update [of i xs s] by (cases "i < length xs") (auto simp: list_update_beyond split: if_splits)

lemma live_count_merge:
  assumes "bg_left b < length symbols" "bg_right b < length symbols"
    and "nat (sm_next (symbols ! bg_right b)) < length symbols" "\<not> stale b symbols"
  shows "live_count (merge_symbols b symbols) < live_count symbols"
proof -
  let ?l = "bg_left b" and ?r = "bg_right b"
  define s1 where "s1 = symbols[?l := (symbols ! ?l)\<lparr>sm_len := sm_len (symbols ! ?l) + sm_len (symbols ! ?r)\<rparr>]"
  define s2 where "s2 = s1[?l := (s1 ! ?l)\<lparr>sm_next := sm_next (symbols ! ?r)\<rparr>]"
  define s3 where "s3 = s2[?r := (s2 ! ?r)\<lparr>sm_len := 0\<rparr>]"
  have ne: "sm_len (symbols ! ?l) \<noteq> 0" "sm_len (symbols ! ?r) \<noteq> 0" using assms(4) by (auto simp: stale_def Let_def)
  have len: "length s1 = length symbols" "length s2 = length symbols" "length s3 = length symbols"
    by (simp_all add: s1_def s2_def s3_def)
  have "live_count s1 = live_count symbols" unfolding s1_def by (rule live_count_same) (use ne in simp)
  moreover have "live_count s2 = live_count s1" unfolding s2_def by (rule live_count_same) simp
  moreover have "sm_len (s2 ! ?r) \<noteq> 0" using ne assms(1,2) by (simp add: s2_def s1_def nth_list_update)
  moreover have "live_count s3 + (if sm_len (s2 ! ?r) \<noteq> 0 then 1 else 0) = live_count s2"
    using live_count_update [of ?r s2] assms(2) len by (simp add: s3_def)
  ultimately have "live_count s3 < live_count symbols" by simp
  moreover have "live_count (s3[i := (s3 ! i)\<lparr>sm_prev := p\<rparr>]) = live_count s3" for i p
    by (rule live_count_same) simp
  ultimately show ?thesis
    by (simp add: merge_symbols_def Let_def flip: s1_def s2_def s3_def)
qed

lemma bigram_least: "q \<noteq> [] \<Longrightarrow> \<exists>b\<in>set q. \<forall>b'\<in>set q. bigram_le b b'"
proof (induction q rule: list_nonempty_induct)
  case (cons x xs)
  then obtain b where b: "b \<in> set xs" "\<forall>b'\<in>set xs. bigram_le b b'" by blast
  show ?case
  proof (cases "bigram_le b x")
    case False
    then have "\<forall>b'\<in>set xs. bigram_le x b'" using b(2) by (fastforce simp: bigram_le_def)
    then show ?thesis by (auto simp: bigram_le_def)
  qed (use b in auto)
qed (simp add: bigram_le_def)

lemma heap_pop_None [simp]: "heap_pop tie q = None \<longleftrightarrow> q = []"
  by (simp add: heap_pop_def Let_def)

lemma heap_pop_Some:
  assumes "heap_pop tie q = Some (b, q')"
  shows "b \<in> set q \<and> (\<forall>b'\<in>set q. bigram_le b b') \<and> q' = remove1 b q"
proof -
  let ?least = "filter (\<lambda>b. \<forall>b'\<in>set q. bigram_le b b') q"
  have q: "q \<noteq> []" "b = ?least ! (tie q mod length ?least)" "q' = remove1 b q"
    using assms by (auto simp: heap_pop_def Let_def split: if_splits)
  have "0 < length ?least" using bigram_least [OF q(1)] by (auto simp: filter_empty_conv)
  then have "tie q mod length ?least < length ?least" by (rule mod_less_divisor)
  then have "b \<in> set ?least" unfolding q(2) by (rule nth_mem)
  then show ?thesis using q(3) by simp
qed

lemma add_new_bigram_length: "length (add_new_bigram tok l r e syms q) \<le> Suc (length q)"
  by (simp add: add_new_bigram_def Let_def split: option.splits)

text \<open>\<open>None\<close> when an index of the queue or of a link is out of range (a panic of the code).\<close>

function merge_loop :: "BpeTokenizer \<Rightarrow> (Bigram list \<Rightarrow> nat) \<Rightarrow> str \<Rightarrow> Sym list \<Rightarrow> Bigram list \<Rightarrow> Sym list option" where
  "merge_loop tok tie encoded symbols queue = (case heap_pop tie queue of
       None \<Rightarrow> Some symbols
     | Some (b, queue) \<Rightarrow>
         if length symbols \<le> bg_left b \<or> length symbols \<le> bg_right b then None
         else if stale b symbols then merge_loop tok tie encoded symbols queue
         else if length symbols \<le> nat (sm_next (symbols ! bg_right b)) then None
         else
           let right_next = sm_next (symbols ! bg_right b);
             symbols = merge_symbols b symbols;
             queue = add_new_bigram tok (sm_prev (symbols ! bg_left b)) (int (bg_left b)) encoded symbols queue;
             queue = add_new_bigram tok (int (bg_left b)) right_next encoded symbols queue
           in merge_loop tok tie encoded symbols queue)"
  by pat_completeness auto
termination
proof (relation "measure (\<lambda>(tok, tie, e, symbols, q). 2 * live_count symbols + length q)", goal_cases)
  case (2 tok tie e symbols q p b q')
  then have "q' = remove1 b q \<and> b \<in> set q" using heap_pop_Some [of tie q b q'] by simp
  then show ?case by (simp add: length_remove1) (cases q, auto)
next
  case (3 tok tie e symbols q p b q' nx symbols' q1 q2)
  have pop: "q' = remove1 b q \<and> b \<in> set q" using 3 heap_pop_Some [of tie q b q'] by simp
  have "live_count symbols' < live_count symbols"
    using live_count_merge [of b symbols] 3 by (simp add: not_le)
  moreover have "length q2 \<le> Suc (Suc (length q'))"
    using add_new_bigram_length [of tok "sm_prev (symbols' ! bg_left b)" "int (bg_left b)" e symbols' q']
      add_new_bigram_length [of tok "int (bg_left b)" nx e symbols' q1] 3 by simp
  moreover have "length q' < length q" using pop by (simp add: length_remove1) (cases q, auto)
  ultimately show ?case by simp
qed simp

declare merge_loop.simps [simp del]

section \<open>Encoding a word\<close>

definition symbol_tokens :: "BpeTokenizer \<Rightarrow> str \<Rightarrow> nat list" where
  "symbol_tokens tok t = (case text_to_id tok t of Some i \<Rightarrow> [i] | None \<Rightarrow> List.map_filter (byte_to_id tok) t)"

definition finalise :: "BpeTokenizer \<Rightarrow> str \<Rightarrow> Sym list \<Rightarrow> nat list" where
  "finalise tok encoded symbols = concat (map (\<lambda>s. if sm_len s = 0 then []
     else symbol_tokens tok (text_slice encoded (sm_start s) (sm_len s))) symbols)"

definition initial_queue :: "BpeTokenizer \<Rightarrow> str \<Rightarrow> Sym list \<Rightarrow> Bigram list" where
  "initial_queue tok encoded symbols =
     fold (\<lambda>i q. add_new_bigram tok (int i - 1) (int i) encoded symbols q) [1..<length symbols] []"

definition encode_word :: "BpeTokenizer \<Rightarrow> (Bigram list \<Rightarrow> nat) \<Rightarrow> str \<Rightarrow> nat list option" where
  "encode_word tok tie word =
     (let encoded = concat (map byte_to_unicode word) in
      if encoded = [] then Some []
      else let symbols = symbol_chain (chars encoded) 0 0 in
        map_option (finalise tok encoded)
          (merge_loop tok tie encoded symbols (initial_queue tok encoded symbols)))"

section \<open>The reference: greedy merging of a list of texts\<close>

type_synonym ranks = "str \<Rightarrow> str \<Rightarrow> nat option"

definition candidates :: "ranks \<Rightarrow> str list \<Rightarrow> (nat \<times> nat) list" where
  "candidates rank ps = concat (map (\<lambda>j. case rank (ps ! j) (ps ! Suc j) of None \<Rightarrow> [] | Some r \<Rightarrow> [(r, j)])
     [0..<length ps - 1])"

definition merge_at :: "nat \<Rightarrow> str list \<Rightarrow> str list" where
  "merge_at j ps = take j ps @ (ps ! j @ ps ! Suc j) # drop (Suc (Suc j)) ps"

lemma candidates_iff:
  "(r, j) \<in> set (candidates rank ps) \<longleftrightarrow> Suc j < length ps \<and> rank (ps ! j) (ps ! Suc j) = Some r"
  by (auto simp: candidates_def split: option.splits)

text \<open>As long as some adjacent pair has a rank, the one of least rank, leftmost, is joined.\<close>

function merge_all :: "ranks \<Rightarrow> str list \<Rightarrow> str list" where
  "merge_all rank ps =
     (if candidates rank ps = [] then ps
      else merge_all rank (merge_at (snd (Min (set (candidates rank ps)))) ps))"
  by pat_completeness auto
termination
proof (relation "measure (\<lambda>(rank, ps). length ps)", goal_cases)
  case (2 rank ps)
  then have "Min (set (candidates rank ps)) \<in> set (candidates rank ps)" by (intro Min_in) auto
  then have "Suc (snd (Min (set (candidates rank ps)))) < length ps"
    by (metis candidates_iff prod.collapse)
  then show ?case by (simp add: merge_at_def)
qed simp

declare merge_all.simps [simp del]

definition encode_word_spec :: "BpeTokenizer \<Rightarrow> str \<Rightarrow> nat list" where
  "encode_word_spec tok word = concat (map (symbol_tokens tok)
     (merge_all (pair_rank tok) (map byte_to_unicode word)))"

section \<open>The chain of the symbols still in place\<close>

definition chain :: "Sym list \<Rightarrow> nat list \<Rightarrow> bool" where
  "chain S L \<longleftrightarrow> sorted_wrt (<) L \<and> (\<forall>i. i \<in> set L \<longleftrightarrow> i < length S \<and> sm_len (S ! i) \<noteq> 0)
     \<and> (\<forall>j<length L. sm_prev (S ! (L ! j)) = (if j = 0 then -1 else int (L ! (j - 1)))
          \<and> sm_next (S ! (L ! j)) = (if Suc j < length L then int (L ! Suc j) else -1))
     \<and> (\<forall>j. Suc j < length L \<longrightarrow> sm_start (S ! (L ! Suc j)) = sm_start (S ! (L ! j)) + sm_len (S ! (L ! j)))"

definition text_at :: "str \<Rightarrow> Sym list \<Rightarrow> nat \<Rightarrow> str" where
  "text_at e S i = text_slice e (sm_start (S ! i)) (sm_len (S ! i))"

definition entry_ok :: "BpeTokenizer \<Rightarrow> str \<Rightarrow> nat \<Rightarrow> Bigram \<Rightarrow> bool" where
  "entry_ok tok e n b \<longleftrightarrow> bg_left b < n \<and> bg_right b < n \<and> bg_r_start b = bg_l_start b + bg_l_len b
     \<and> pair_rank tok (text_slice e (bg_l_start b) (bg_l_len b)) (text_slice e (bg_r_start b) (bg_r_len b)) = Some (bg_rank b)"

definition covered :: "BpeTokenizer \<Rightarrow> str \<Rightarrow> Sym list \<Rightarrow> nat list \<Rightarrow> nat \<Rightarrow> Bigram list \<Rightarrow> bool" where
  "covered tok e S L j q \<longleftrightarrow> (\<forall>r. pair_rank tok (text_at e S (L ! j)) (text_at e S (L ! Suc j)) = Some r
     \<longrightarrow> (\<exists>b\<in>set q. bg_left b = L ! j \<and> bg_right b = L ! Suc j \<and> bg_rank b = r \<and> \<not> stale b S))"

lemma chain_nth: "chain S L \<Longrightarrow> j < length L \<Longrightarrow> L ! j < length S \<and> sm_len (S ! (L ! j)) \<noteq> 0"
  by (auto simp: chain_def)

lemma chain_less: "chain S L \<Longrightarrow> j < k \<Longrightarrow> k < length L \<Longrightarrow> L ! j < L ! k"
  by (simp add: chain_def sorted_wrt_iff_nth_less)

lemma chain_le: "chain S L \<Longrightarrow> j < length L \<Longrightarrow> k < length L \<Longrightarrow> L ! j \<le> L ! k \<longleftrightarrow> j \<le> k"
  using chain_less [of S L j k] chain_less [of S L k j] by (cases j k rule: linorder_cases) auto

lemma chain_eq: "chain S L \<Longrightarrow> j < length L \<Longrightarrow> k < length L \<Longrightarrow> L ! j = L ! k \<longleftrightarrow> j = k"
  using chain_less [of S L j k] chain_less [of S L k j] by (cases j k rule: linorder_cases) auto

lemma chain_starts:
  assumes "chain S L" "j < k" "k < length L"
  shows "sm_start (S ! (L ! j)) + sm_len (S ! (L ! j)) \<le> sm_start (S ! (L ! k))"
  using assms(2,3)
proof (induction k)
  case (Suc k)
  have s: "sm_start (S ! (L ! Suc k)) = sm_start (S ! (L ! k)) + sm_len (S ! (L ! k))"
    using assms(1) Suc.prems by (simp add: chain_def)
  show ?case
  proof (cases "j = k")
    case False
    then show ?thesis using Suc s by simp
  qed (use s in simp)
qed simp

text \<open>An entry that is not stale describes two adjacent symbols.\<close>

lemma entry_adjacent:
  assumes c: "chain S L" and b: "entry_ok tok e (length S) b" "\<not> stale b S"
  obtains j where "Suc j < length L" "L ! j = bg_left b" "L ! Suc j = bg_right b"
proof -
  have live: "bg_left b \<in> set L" "bg_right b \<in> set L"
    using c b by (auto simp: chain_def entry_ok_def stale_def Let_def)
  then obtain j k where j: "j < length L" "L ! j = bg_left b" and k: "k < length L" "L ! k = bg_right b"
    by (auto simp: in_set_conv_nth)
  have starts: "sm_start (S ! (L ! k)) = sm_start (S ! (L ! j)) + sm_len (S ! (L ! j))"
    using b j k by (auto simp: entry_ok_def stale_def Let_def)
  have pos: "0 < sm_len (S ! (L ! i))" if "i < length L" for i using chain_nth [OF c that] by simp
  have "\<not> k < j" using chain_starts [OF c _ j(1), of k] starts pos [OF j(1)] by force
  moreover have "k \<noteq> j" using starts pos [OF j(1)] by auto
  moreover have "\<not> Suc j < k"
  proof
    assume "Suc j < k"
    moreover from this have "sm_start (S ! (L ! Suc j)) = sm_start (S ! (L ! k))"
      using c k(1) starts by (simp add: chain_def)
    ultimately show False using chain_starts [OF c _ k(1), of "Suc j"] pos [of "Suc j"] k(1) by simp
  qed
  ultimately have "k = Suc j" by simp
  then show thesis using that j k by simp
qed

section \<open>One merge\<close>

definition drop_nth :: "nat \<Rightarrow> nat list \<Rightarrow> nat list" where
  "drop_nth j L = take j L @ drop (Suc j) L"

lemma length_drop_nth: "j < length L \<Longrightarrow> length (drop_nth j L) = length L - 1"
  by (simp add: drop_nth_def)

lemma nth_drop_nth: "j < length L \<Longrightarrow> Suc k < length L \<Longrightarrow> drop_nth j L ! k = (if k < j then L ! k else L ! Suc k)"
  by (auto simp: drop_nth_def nth_append min_def)

text \<open>The entry \<open>b\<close> describes the symbols at the positions \<open>j\<close> and \<open>Suc j\<close> of the chain.\<close>

definition describes :: "Sym list \<Rightarrow> nat list \<Rightarrow> nat \<Rightarrow> Bigram \<Rightarrow> bool" where
  "describes S L j b \<longleftrightarrow> chain S L \<and> Suc j < length L \<and> L ! j = bg_left b \<and> L ! Suc j = bg_right b"

lemma describesD:
  "describes S L j b \<Longrightarrow> chain S L" "describes S L j b \<Longrightarrow> Suc j < length L"
  "describes S L j b \<Longrightarrow> bg_left b = L ! j" "describes S L j b \<Longrightarrow> bg_right b = L ! Suc j"
  by (simp_all add: describes_def)

lemma chain_links:
  assumes "chain S L" "j < length L"
  shows "sm_prev (S ! (L ! j)) = (if j = 0 then -1 else int (L ! (j - 1)))"
    "sm_next (S ! (L ! j)) = (if Suc j < length L then int (L ! Suc j) else -1)"
    "Suc j < length L \<Longrightarrow> sm_start (S ! (L ! Suc j)) = sm_start (S ! (L ! j)) + sm_len (S ! (L ! j))"
  using assms by (simp_all add: chain_def)

lemma ends_differ:
  assumes "describes S L j b"
  shows "bg_left b \<noteq> bg_right b" "bg_left b < length S" "bg_right b < length S"
  using describesD [OF assms] chain_eq [of S L j "Suc j"] chain_nth [of S L j] chain_nth [of S L "Suc j"] by simp_all

lemma next_symbol:
  assumes "describes S L j b"
  shows "sm_next (S ! bg_right b) = int i \<longleftrightarrow> Suc (Suc j) < length L \<and> i = L ! Suc (Suc j)"
  using describesD [OF assms] chain_links(2) [of S L "Suc j"] by auto

lemma next_differs:
  assumes d: "describes S L j b" and n: "sm_next (S ! bg_right b) = int i"
  shows "i \<noteq> bg_left b \<and> i \<noteq> bg_right b \<and> i < length S"
proof -
  have i: "Suc (Suc j) < length L" "i = L ! Suc (Suc j)" using next_symbol [OF d] n by auto
  then show ?thesis
    using describesD [OF d] chain_eq [of S L "Suc (Suc j)" j] chain_eq [of S L "Suc (Suc j)" "Suc j"]
      chain_nth [of S L "Suc (Suc j)"] by simp
qed

lemma merge_length [simp]: "length (merge_symbols b S) = length S"
  by (simp add: merge_symbols_def Let_def)

lemma merge_nth:
  assumes "describes S L j b" "i < length S"
  shows "merge_symbols b S ! i = (if i = bg_left b
       then (S ! i)\<lparr>sm_len := sm_len (S ! i) + sm_len (S ! bg_right b), sm_next := sm_next (S ! bg_right b)\<rparr>
     else if i = bg_right b then (S ! i)\<lparr>sm_len := 0\<rparr>
     else if sm_next (S ! bg_right b) = int i then (S ! i)\<lparr>sm_prev := int (bg_left b)\<rparr> else S ! i)"
  using assms(2) ends_differ [OF assms(1)] next_differs [OF assms(1), of "nat (sm_next (S ! bg_right b))"]
  by (auto simp: merge_symbols_def Let_def nth_list_update)

lemma set_drop_nth:
  assumes "distinct L" "j < length L"
  shows "i \<in> set (drop_nth j L) \<longleftrightarrow> i \<in> set L \<and> i \<noteq> L ! j"
proof -
  have L: "L = take j L @ L ! j # drop (Suc j) L" using assms(2) by (simp add: id_take_nth_drop)
  then have "L ! j \<notin> set (take j L) \<union> set (drop (Suc j) L)"
    using assms(1) by (metis Un_iff distinct.simps(2) distinct_append disjoint_iff list.set_intros(1))
  then show ?thesis unfolding drop_nth_def by (subst (2) L) auto
qed

text \<open>The symbols of the new chain.\<close>

lemma merge_symbol:
  assumes d: "describes S L j b" and k: "k < length (drop_nth (Suc j) L)"
  shows "merge_symbols b S ! (drop_nth (Suc j) L ! k) =
     (if k = j then (S ! (L ! j))\<lparr>sm_len := sm_len (S ! (L ! j)) + sm_len (S ! (L ! Suc j)),
        sm_next := sm_next (S ! (L ! Suc j))\<rparr>
      else if k = Suc j then (S ! (L ! Suc (Suc j)))\<lparr>sm_prev := int (L ! j)\<rparr>
      else S ! (L ! (if k \<le> j then k else Suc k)))"
proof -
  note c = describesD(1) [OF d] and j = describesD(2) [OF d]
  let ?i = "if k \<le> j then k else Suc k"
  have i: "drop_nth (Suc j) L ! k = L ! ?i" "?i < length L" "?i \<noteq> Suc j" "?i = j \<longleftrightarrow> k = j"
    "?i = Suc (Suc j) \<longleftrightarrow> k = Suc j"
    using nth_drop_nth [OF j, of k] k by (auto simp: length_drop_nth [OF j])
  have "L ! ?i = bg_left b \<longleftrightarrow> k = j" "L ! ?i \<noteq> bg_right b"
    using chain_eq [OF c i(2), of j] chain_eq [OF c i(2), of "Suc j"] i(3,4) j by (simp_all add: describesD(3,4) [OF d])
  moreover have "sm_next (S ! bg_right b) = int (L ! ?i) \<longleftrightarrow> k = Suc j"
  proof -
    have "sm_next (S ! bg_right b) = int (L ! ?i) \<longleftrightarrow> Suc (Suc j) < length L \<and> L ! ?i = L ! Suc (Suc j)"
      by (rule next_symbol [OF d])
    also have "\<dots> \<longleftrightarrow> ?i = Suc (Suc j)" using chain_eq [OF c i(2), of "Suc (Suc j)"] i(2) by auto
    finally show ?thesis using i(5) by simp
  qed
  moreover have "L ! ?i < length S" using chain_nth [OF c i(2)] by simp
  ultimately show ?thesis unfolding i(1) by (simp add: merge_nth [OF d] describesD(3,4) [OF d])
qed

lemma chain_merge:
  assumes d: "describes S L j b"
  shows "chain (merge_symbols b S) (drop_nth (Suc j) L)"
proof -
  note c = describesD(1) [OF d] and j = describesD(2) [OF d]
  let ?S = "merge_symbols b S" and ?L = "drop_nth (Suc j) L"
  have ne: "L \<noteq> []" using j by auto
  have len: "length ?L = length L - 1" using j by (simp add: length_drop_nth)
  have nth: "?L ! k = L ! (if k \<le> j then k else Suc k)" if "k < length ?L" for k
    using nth_drop_nth [OF j, of k] that len by (simp add: less_Suc_eq_le)
  have "sorted_wrt (<) ?L"
    unfolding sorted_wrt_iff_nth_less using chain_less [OF c] len by (auto simp: nth)
  moreover have "i \<in> set ?L \<longleftrightarrow> i < length ?S \<and> sm_len (?S ! i) \<noteq> 0" for i
  proof -
    have "distinct L" using c by (simp add: chain_def strict_sorted_iff)
    then have "i \<in> set ?L \<longleftrightarrow> i \<in> set L \<and> i \<noteq> L ! Suc j" using set_drop_nth j by blast
    moreover have "i < length S \<Longrightarrow> sm_len (?S ! i) \<noteq> 0 \<longleftrightarrow> sm_len (S ! i) \<noteq> 0 \<and> i \<noteq> L ! Suc j"
      using ends_differ [OF d] chain_nth [OF c, of j] j by (auto simp: merge_nth [OF d] describesD(3,4) [OF d])
    ultimately show ?thesis using c by (auto simp: chain_def)
  qed
  moreover have "sm_prev (?S ! (?L ! k)) = (if k = 0 then -1 else int (?L ! (k - 1)))" if k: "k < length ?L" for k
    unfolding merge_symbol [OF d k] using chain_links(1) [OF c, of k] chain_links(1) [OF c, of "Suc k"] k len j ne
    by (auto simp: nth)
  moreover have "sm_next (?S ! (?L ! k)) = (if Suc k < length ?L then int (?L ! Suc k) else -1)" if k: "k < length ?L" for k
    unfolding merge_symbol [OF d k] using chain_links(2) [OF c, of k] chain_links(2) [OF c, of "Suc k"] k len j
    by (auto simp: nth)
  moreover have "sm_start (?S ! (?L ! Suc k)) = sm_start (?S ! (?L ! k)) + sm_len (?S ! (?L ! k))"
    if k: "Suc k < length ?L" for k
  proof -
    have k': "k < length ?L" using k by simp
    show ?thesis
      unfolding merge_symbol [OF d k] merge_symbol [OF d k']
      using chain_links(3) [OF c, of k] chain_links(3) [OF c, of "Suc k"] k len j by auto
  qed
  ultimately show ?thesis unfolding chain_def by blast
qed

text \<open>The texts of the chain after the merge.\<close>

lemma slice_append: "text_slice e s (m + n) = text_slice e s m @ text_slice e (s + m) n"
  by (simp add: text_slice_def take_add add.commute)

lemma nth_merge_at:
  "Suc j < length ps \<Longrightarrow> k < length ps - 1 \<Longrightarrow>
     merge_at j ps ! k = (if k < j then ps ! k else if k = j then ps ! j @ ps ! Suc j else ps ! Suc k)"
  by (auto simp: merge_at_def nth_append nth_Cons' min_def)

lemma texts_merge:
  assumes d: "describes S L j b"
  shows "map (text_at e (merge_symbols b S)) (drop_nth (Suc j) L) = merge_at j (map (text_at e S) L)"
proof (rule nth_equalityI)
  note c = describesD(1) [OF d] and j = describesD(2) [OF d]
  show "length (map (text_at e (merge_symbols b S)) (drop_nth (Suc j) L)) = length (merge_at j (map (text_at e S) L))"
    using j by (simp add: merge_at_def length_drop_nth)
  fix k
  assume k: "k < length (map (text_at e (merge_symbols b S)) (drop_nth (Suc j) L))"
  then have k': "k < length (drop_nth (Suc j) L)" "k < length L - 1" by (simp_all add: length_drop_nth [OF j])
  have "sm_start (S ! (L ! Suc j)) = sm_start (S ! (L ! j)) + sm_len (S ! (L ! j))"
    using chain_links(3) [OF c] j by simp
  then show "map (text_at e (merge_symbols b S)) (drop_nth (Suc j) L) ! k = merge_at j (map (text_at e S) L) ! k"
    using k' j by (auto simp: text_at_def merge_symbol [OF d k'(1)] nth_merge_at slice_append)
qed

section \<open>The queue\<close>

text \<open>What one call of \<open>add_new_bigram\<close> adds.\<close>

lemma add_new_bigram_set: "set q \<subseteq> set (add_new_bigram tok l r e S q)"
  by (auto simp: add_new_bigram_def Let_def split: option.splits)

lemma add_new_bigram_minus [simp]: "add_new_bigram tok (-1) r e S q = q" "add_new_bigram tok l (-1) e S q = q"
  by (simp_all add: add_new_bigram_def)

lemma add_new_bigram_ok:
  assumes c: "chain S L" and k: "Suc k < length L" and q: "\<forall>b\<in>set q. entry_ok tok e (length S) b"
  shows "\<forall>b\<in>set (add_new_bigram tok (int (L ! k)) (int (L ! Suc k)) e S q). entry_ok tok e (length S) b"
proof -
  have "L ! k < length S" "L ! Suc k < length S" using chain_nth [OF c] k by auto
  then show ?thesis
    using q chain_links(3) [OF c, of k] k
    by (auto simp: add_new_bigram_def entry_ok_def Let_def split: option.splits)
qed

lemma add_new_bigram_covers:
  assumes c: "chain S L" and k: "Suc k < length L"
  shows "covered tok e S L k (add_new_bigram tok (int (L ! k)) (int (L ! Suc k)) e S q)"
proof -
  have "L ! k < length S" "L ! Suc k < length S" "sm_len (S ! (L ! k)) \<noteq> 0" "sm_len (S ! (L ! Suc k)) \<noteq> 0"
    using chain_nth [OF c] k by auto
  then show ?thesis
    by (auto simp: covered_def add_new_bigram_def text_at_def stale_def Let_def)
qed

lemma covered_mono: "covered tok e S L k q \<Longrightarrow> set q \<subseteq> set q' \<Longrightarrow> covered tok e S L k q'"
  unfolding covered_def by blast

text \<open>The invariant of the loop.\<close>

definition loop_inv :: "BpeTokenizer \<Rightarrow> str \<Rightarrow> Sym list \<Rightarrow> nat list \<Rightarrow> Bigram list \<Rightarrow> bool" where
  "loop_inv tok e S L q \<longleftrightarrow> chain S L \<and> (\<forall>b\<in>set q. entry_ok tok e (length S) b)
     \<and> (\<forall>k. Suc k < length L \<longrightarrow> covered tok e S L k q)"

lemma loop_inv_skip:
  assumes "loop_inv tok e S L q" "stale b S" shows "loop_inv tok e S L (remove1 b q)"
proof -
  have "covered tok e S L k (remove1 b q)" if cov: "covered tok e S L k q" for k
    unfolding covered_def
  proof (intro allI impI)
    fix r
    assume "pair_rank tok (text_at e S (L ! k)) (text_at e S (L ! Suc k)) = Some r"
    then obtain b' where b': "b' \<in> set q" "bg_left b' = L ! k \<and> bg_right b' = L ! Suc k \<and> bg_rank b' = r \<and> \<not> stale b' S"
      using cov unfolding covered_def by blast
    then have "b' \<noteq> b" using assms(2) by blast
    then have "b' \<in> set (remove1 b q)" using b'(1) by simp
    then show "\<exists>b'\<in>set (remove1 b q). bg_left b' = L ! k \<and> bg_right b' = L ! Suc k \<and> bg_rank b' = r \<and> \<not> stale b' S"
      using b'(2) by blast
  qed
  then show ?thesis using assms(1) notin_set_remove1 unfolding loop_inv_def by fast
qed

text \<open>An entry of least rank and left index that is not stale is the next merge of the reference.\<close>

lemma popped_is_best:
  assumes inv: "loop_inv tok e S L q" and b: "b \<in> set q" "\<forall>b'\<in>set q. bigram_le b b'" "\<not> stale b S"
  obtains j where "describes S L j b"
    "Min (set (candidates (pair_rank tok) (map (text_at e S) L))) = (bg_rank b, j)"
    "candidates (pair_rank tok) (map (text_at e S) L) \<noteq> []"
proof -
  let ?C = "candidates (pair_rank tok) (map (text_at e S) L)"
  have c: "chain S L" and ok: "entry_ok tok e (length S) b" using inv b(1) by (auto simp: loop_inv_def)
  obtain j where j: "Suc j < length L" "L ! j = bg_left b" "L ! Suc j = bg_right b"
    using entry_adjacent [OF c ok b(3)] .
  have d: "describes S L j b" using c j by (simp add: describes_def)
  have mem: "(bg_rank b, j) \<in> set ?C"
  proof -
    have "text_at e S (L ! j) = text_slice e (bg_l_start b) (bg_l_len b)"
      "text_at e S (L ! Suc j) = text_slice e (bg_r_start b) (bg_r_len b)"
      using b(3) unfolding j(2,3) by (auto simp: text_at_def stale_def Let_def)
    then show ?thesis using ok j(1) unfolding candidates_iff entry_ok_def by auto
  qed
  have "(bg_rank b, j) \<le> (r, k)" if "(r, k) \<in> set ?C" for r k
  proof -
    have k: "Suc k < length L" and r: "pair_rank tok (text_at e S (L ! k)) (text_at e S (L ! Suc k)) = Some r"
      using that by (auto simp: candidates_iff)
    have "covered tok e S L k q" using inv k by (simp add: loop_inv_def)
    then obtain b' where b': "b' \<in> set q" "bg_left b' = L ! k" "bg_rank b' = r"
      using r unfolding covered_def by blast
    then have "bigram_le b b'" using b(2) by blast
    then show ?thesis
      using chain_le [OF c, of j k] j k b' by (auto simp: bigram_le_def less_eq_prod_def)
  qed
  then have "Min (set ?C) = (bg_rank b, j)" using mem by (intro Min_eqI) auto
  then show thesis using that d mem by (metis empty_iff empty_set)
qed

lemma covered_merge:
  assumes d: "describes S L j b" and cov: "covered tok e S L i q" and i: "Suc i < length L"
    and k: "Suc k < length L - 1" "L ! i = drop_nth (Suc j) L ! k" "L ! Suc i = drop_nth (Suc j) L ! Suc k"
    and far: "i \<noteq> j" "Suc i \<noteq> j"
  shows "covered tok e (merge_symbols b S) (drop_nth (Suc j) L) k (remove1 b q)"
proof -
  note c = describesD(1) [OF d] and j = describesD(2) [OF d]
  let ?S = "merge_symbols b S"
  have ne: "L ! x \<noteq> bg_left b \<and> L ! x \<noteq> bg_right b \<and> L ! x < length S" if "x = i \<or> x = Suc i" for x
  proof -
    have "x < length L" "x \<noteq> j" using that i far by auto
    moreover have "x \<noteq> Suc j"
    proof
      assume x: "x = Suc j"
      have "L ! Suc j \<notin> set (drop_nth (Suc j) L)" using set_drop_nth c j by (auto simp: chain_def strict_sorted_iff)
      moreover have "L ! x \<in> set (drop_nth (Suc j) L)"
        using that k nth_mem [of k "drop_nth (Suc j) L"] nth_mem [of "Suc k" "drop_nth (Suc j) L"]
        by (auto simp: length_drop_nth [OF j])
      ultimately show False using x by simp
    qed
    ultimately show ?thesis
      using chain_eq [OF c, of x j] chain_eq [OF c, of x "Suc j"] chain_nth [OF c, of x] j
      by (simp add: describesD(3,4) [OF d])
  qed
  have same: "sm_start (?S ! (L ! x)) = sm_start (S ! (L ! x)) \<and> sm_len (?S ! (L ! x)) = sm_len (S ! (L ! x))"
    if "x = i \<or> x = Suc i" for x
    using ne [OF that] by (simp add: merge_nth [OF d])
  have same_text: "text_at e ?S (L ! x) = text_at e S (L ! x)" if "x = i \<or> x = Suc i" for x
    using same [OF that] by (simp add: text_at_def)
  show ?thesis
    unfolding covered_def k(2,3) [symmetric]
  proof (intro allI impI)
    fix r
    assume "pair_rank tok (text_at e ?S (L ! i)) (text_at e ?S (L ! Suc i)) = Some r"
    then obtain b' where b': "b' \<in> set q" "bg_left b' = L ! i" "bg_right b' = L ! Suc i" "bg_rank b' = r" "\<not> stale b' S"
      using cov unfolding covered_def same_text [of i, simplified] same_text [of "Suc i", simplified] by blast
    then have "b' \<noteq> b" using ne [of i] by auto
    moreover have "\<not> stale b' ?S"
      using b' same [of i] same [of "Suc i"] by (simp add: stale_def Let_def)
    ultimately show "\<exists>b'\<in>set (remove1 b q). bg_left b' = L ! i \<and> bg_right b' = L ! Suc i \<and> bg_rank b' = r \<and> \<not> stale b' ?S"
      using b' by (intro bexI [of _ b']) simp_all
  qed
qed

text \<open>The two calls of \<open>add_new_bigram\<close> after a merge restore the invariant.\<close>

lemma loop_inv_merge:
  assumes inv: "loop_inv tok e S L q" and d: "describes S L j b"
  defines "S' \<equiv> merge_symbols b S"
  defines "q1 \<equiv> add_new_bigram tok (sm_prev (S' ! bg_left b)) (int (bg_left b)) e S' (remove1 b q)"
  defines "q2 \<equiv> add_new_bigram tok (int (bg_left b)) (sm_next (S ! bg_right b)) e S' q1"
  shows "loop_inv tok e S' (drop_nth (Suc j) L) q2"
proof -
  note c = describesD(1) [OF d] and j = describesD(2) [OF d]
  let ?L = "drop_nth (Suc j) L"
  have c': "chain S' ?L" unfolding S'_def by (rule chain_merge [OF d])
  have len: "length ?L = length L - 1" using j by (simp add: length_drop_nth)
  have nth: "?L ! k = L ! (if k \<le> j then k else Suc k)" if "k < length ?L" for k
    using nth_drop_nth [OF j, of k] that len by (simp add: less_Suc_eq_le)
  have left: "bg_left b = ?L ! j" using nth [of j] j len by (simp add: describesD(3) [OF d])
  have prev: "sm_prev (S' ! bg_left b) = (if j = 0 then -1 else int (?L ! (j - 1)))"
    unfolding left using chain_links(1) [OF c', of j] j len by simp
  have nx: "sm_next (S ! bg_right b) = (if Suc j < length ?L then int (?L ! Suc j) else -1)"
    using chain_links(2) [OF c, of "Suc j"] nth [of "Suc j"] j len by (auto simp: describesD(4) [OF d])
  have q1: "q1 = (if j = 0 then remove1 b q
      else add_new_bigram tok (int (?L ! (j - 1))) (int (?L ! j)) e S' (remove1 b q))"
    unfolding q1_def prev by (simp add: left)
  have q2: "q2 = (if Suc j < length ?L then add_new_bigram tok (int (?L ! j)) (int (?L ! Suc j)) e S' q1 else q1)"
    unfolding q2_def nx by (simp add: left)
  have "\<forall>b'\<in>set (remove1 b q). entry_ok tok e (length S') b'"
    using inv notin_set_remove1 unfolding loop_inv_def S'_def merge_length by fast
  then have "\<forall>b'\<in>set q1. entry_ok tok e (length S') b'"
    using add_new_bigram_ok [OF c', of "j - 1" "remove1 b q"] j len
    by (cases "j = 0") (simp_all add: q1)
  then have "\<forall>b'\<in>set q2. entry_ok tok e (length S') b'"
    using add_new_bigram_ok [OF c', of j q1] by (cases "Suc j < length ?L") (simp_all add: q2)
  moreover have "covered tok e S' ?L k q2" if k: "Suc k < length ?L" for k
  proof -
    have q1q2: "set q1 \<subseteq> set q2" "set (remove1 b q) \<subseteq> set q2"
      using add_new_bigram_set unfolding q1_def q2_def by blast+
    consider "k = j" | "Suc k = j" | "Suc k < j" | "j < k" by linarith
    then show ?thesis
    proof cases
      case 1
      then show ?thesis using add_new_bigram_covers [OF c' k, of tok e q1] k by (simp add: q2)
    next
      case 2
      then have "covered tok e S' ?L k q1"
        using add_new_bigram_covers [OF c' k, of tok e "remove1 b q"] by (auto simp: q1)
      then show ?thesis by (rule covered_mono [OF _ q1q2(1)])
    next
      case 3
      have cov: "covered tok e S L k q" using inv k len by (simp add: loop_inv_def)
      have "covered tok e S' ?L k (remove1 b q)"
        unfolding S'_def by (rule covered_merge [OF d cov]) (use 3 k len j in \<open>simp_all add: nth\<close>)
      then show ?thesis by (rule covered_mono [OF _ q1q2(2)])
    next
      case 4
      have cov: "covered tok e S L (Suc k) q" using inv k len by (simp add: loop_inv_def)
      have "covered tok e S' ?L k (remove1 b q)"
        unfolding S'_def by (rule covered_merge [OF d cov]) (use 4 k len j in \<open>simp_all add: nth\<close>)
      then show ?thesis by (rule covered_mono [OF _ q1q2(2)])
    qed
  qed
  ultimately show ?thesis using c' by (simp add: loop_inv_def)
qed

section \<open>The loop computes the reference\<close>

lemma no_candidates:
  assumes "loop_inv tok e S L []" shows "candidates (pair_rank tok) (map (text_at e S) L) = []"
proof -
  have "x \<notin> set (candidates (pair_rank tok) (map (text_at e S) L))" for x
    using assms by (cases x) (auto simp: loop_inv_def covered_def candidates_iff)
  then show ?thesis by (metis list.set_intros(1) neq_Nil_conv)
qed

lemma merge_loop_spec:
  assumes "loop_inv tok e S L q"
  shows "\<exists>S' L'. merge_loop tok tie e S q = Some S' \<and> chain S' L'
    \<and> map (text_at e S') L' = merge_all (pair_rank tok) (map (text_at e S) L)"
  using assms
proof (induction "2 * live_count S + length q" arbitrary: S L q rule: less_induct)
  case less
  show ?case
  proof (cases "heap_pop tie q")
    case None
    then have "q = []" by simp
    then have "candidates (pair_rank tok) (map (text_at e S) L) = []" using no_candidates less.prems by simp
    moreover have "merge_loop tok tie e S q = Some S" by (subst merge_loop.simps) (simp add: None)
    moreover have "chain S L" using less.prems by (simp add: loop_inv_def)
    ultimately show ?thesis by (intro exI [of _ S] exI [of _ L]) (simp add: merge_all.simps)
  next
    case (Some p)
    obtain b q' where p: "p = (b, q')" by (cases p)
    have b: "b \<in> set q" "\<forall>b'\<in>set q. bigram_le b b'" and q': "q' = remove1 b q"
      using heap_pop_Some [OF Some [unfolded p]] by auto
    have inv: "\<not> length S \<le> bg_left b" "\<not> length S \<le> bg_right b"
      using less.prems b(1) by (auto simp: loop_inv_def entry_ok_def)
    have shorter: "length q' < length q" using b(1) q' by (simp add: length_remove1) (cases q, auto)
    show ?thesis
    proof (cases "stale b S")
      case True
      have "merge_loop tok tie e S q = merge_loop tok tie e S q'"
        using Some p inv True by (simp add: merge_loop.simps [of tok tie e S q])
      moreover have "loop_inv tok e S L q'" unfolding q' by (rule loop_inv_skip [OF less.prems True])
      ultimately show ?thesis using less.hyps [of S q' L] shorter by simp
    next
      case False
      obtain j where d: "describes S L j b"
        and best: "Min (set (candidates (pair_rank tok) (map (text_at e S) L))) = (bg_rank b, j)"
          "candidates (pair_rank tok) (map (text_at e S) L) \<noteq> []"
        using popped_is_best [OF less.prems b False] .
      define S' where "S' = merge_symbols b S"
      define q1 where "q1 = add_new_bigram tok (sm_prev (S' ! bg_left b)) (int (bg_left b)) e S' q'"
      define q2 where "q2 = add_new_bigram tok (int (bg_left b)) (sm_next (S ! bg_right b)) e S' q1"
      have "nat (sm_next (S ! bg_right b)) < length S"
        using next_differs [OF d, of "nat (sm_next (S ! bg_right b))"] ends_differ [OF d]
        by (cases "0 \<le> sm_next (S ! bg_right b)") auto
      note nx = this
      have step: "merge_loop tok tie e S q = merge_loop tok tie e S' q2"
        using Some p inv False nx by (simp add: merge_loop.simps [of tok tie e S q] Let_def S'_def q1_def q2_def)
      have "loop_inv tok e S' (drop_nth (Suc j) L) q2"
        unfolding S'_def q1_def q2_def q' by (rule loop_inv_merge [OF less.prems d])
      moreover have "2 * live_count S' + length q2 < 2 * live_count S + length q"
        using live_count_merge [OF ends_differ(2,3) [OF d] nx False] shorter
          add_new_bigram_length [of tok "sm_prev (S' ! bg_left b)" "int (bg_left b)" e S' q']
          add_new_bigram_length [of tok "int (bg_left b)" "sm_next (S ! bg_right b)" e S' q1]
        by (simp add: q1_def q2_def S'_def)
      moreover have "map (text_at e S') (drop_nth (Suc j) L) = merge_at j (map (text_at e S) L)"
        unfolding S'_def by (rule texts_merge [OF d])
      moreover have "merge_all (pair_rank tok) (map (text_at e S) L) =
          merge_all (pair_rank tok) (merge_at j (map (text_at e S) L))"
        using best by (simp add: merge_all.simps [of _ "map (text_at e S) L"])
      ultimately show ?thesis using step less.hyps [of S' q2 "drop_nth (Suc j) L"] by simp
    qed
  qed
qed

section \<open>From a word to its tokens\<close>

lemma length_symbol_chain [simp]: "length (symbol_chain cs i start) = length cs"
  by (induction cs arbitrary: i start) simp_all

lemma nth_symbol_chain:
  "k < length cs \<Longrightarrow> symbol_chain cs i start ! k =
     \<lparr>sm_start = start + length (concat (take k cs)), sm_len = length (cs ! k), sm_prev = int (i + k) - 1,
      sm_next = (if Suc k < length cs then int (i + k) + 1 else -1)\<rparr>"
proof (induction cs arbitrary: i start k)
  case (Cons c cs)
  then show ?case by (cases k) auto
qed simp

lemma initial_chain:
  assumes "\<forall>c\<in>set cs. c \<noteq> []" shows "chain (symbol_chain cs 0 0) [0..<length cs]"
proof -
  have "sm_len (symbol_chain cs 0 0 ! k) \<noteq> 0" if "k < length cs" for k
    using that assms by (simp add: nth_symbol_chain)
  then show ?thesis by (auto simp: chain_def nth_symbol_chain take_Suc_conv_app_nth sorted_wrt_upt)
qed

lemma initial_texts: "map (text_at (concat cs) (symbol_chain cs 0 0)) [0..<length cs] = cs"
proof (rule nth_equalityI)
  fix k
  assume "k < length (map (text_at (concat cs) (symbol_chain cs 0 0)) [0..<length cs])"
  then have k: "k < length cs" by simp
  have "concat cs = concat (take k cs) @ cs ! k @ concat (drop (Suc k) cs)"
    using id_take_nth_drop [OF k] by (metis concat.simps(2) concat_append)
  then have "take (length (cs ! k)) (drop (length (concat (take k cs))) (concat cs)) = cs ! k" by (metis append_eq_conv_conj)
  then show "map (text_at (concat cs) (symbol_chain cs 0 0)) [0..<length cs] ! k = cs ! k"
    using k by (simp add: text_at_def text_slice_def nth_symbol_chain)
qed simp

lemma initial_inv:
  assumes c: "chain S [0..<length S]" shows "loop_inv tok e S [0..<length S] (initial_queue tok e S)"
proof -
  let ?q = "\<lambda>n. fold (\<lambda>i q. add_new_bigram tok (int i - 1) (int i) e S q) [1..<n] []"
  have "n \<le> length S \<Longrightarrow> (\<forall>b\<in>set (?q n). entry_ok tok e (length S) b)
      \<and> (\<forall>k. Suc k < n \<longrightarrow> covered tok e S [0..<length S] k (?q n))" for n
  proof (induction n)
    case (Suc n)
    show ?case
    proof (cases "n = 0")
      case False
      then obtain m where n: "n = Suc m" by (cases n) auto
      then have m: "Suc m < length [0..<length S]" using Suc.prems by simp
      have q: "?q (Suc n) = add_new_bigram tok (int ([0..<length S] ! m)) (int ([0..<length S] ! Suc m)) e S (?q n)"
        using m n by simp
      have "covered tok e S [0..<length S] k (?q (Suc n))" if "Suc k < Suc n" for k
      proof (cases "k = m")
        case True
        then show ?thesis unfolding q using add_new_bigram_covers [OF c m] by simp
      next
        case False
        then have "covered tok e S [0..<length S] k (?q n)" using Suc that n by simp
        then show ?thesis unfolding q by (rule covered_mono) (rule add_new_bigram_set)
      qed
      moreover have "\<forall>b\<in>set (?q (Suc n)). entry_ok tok e (length S) b"
        unfolding q by (rule add_new_bigram_ok [OF c m]) (use Suc in simp)
      ultimately show ?thesis by blast
    qed simp
  qed simp
  from this [of "length S"] show ?thesis using c by (simp add: loop_inv_def initial_queue_def)
qed

lemma live_indices:
  assumes "chain S L" shows "filter (\<lambda>i. sm_len (S ! i) \<noteq> 0) [0..<length S] = L"
proof (rule sorted_distinct_set_unique)
  show "set (filter (\<lambda>i. sm_len (S ! i) \<noteq> 0) [0..<length S]) = set L" using assms by (auto simp: chain_def)
qed (use assms in \<open>auto simp: chain_def strict_sorted_iff sorted_wrt_filter\<close>)

lemma concat_map_filter: "concat (map (\<lambda>x. if P x then f x else []) xs) = concat (map f (filter P xs))"
  by (induction xs) auto

lemma finalise_chain:
  assumes "chain S L" shows "finalise tok e S = concat (map (symbol_tokens tok) (map (text_at e S) L))"
proof -
  have "finalise tok e S = concat (map (\<lambda>i. if sm_len (S ! i) \<noteq> 0 then symbol_tokens tok (text_at e S i) else []) [0..<length S])"
    unfolding finalise_def by (rule arg_cong [where f = concat], rule nth_equalityI) (auto simp: text_at_def)
  also have "\<dots> = concat (map (\<lambda>i. symbol_tokens tok (text_at e S i)) L)"
    unfolding concat_map_filter live_indices [OF assms] ..
  finally show ?thesis by (simp add: comp_def)
qed

text \<open>The queue, its ties and its stale entries do not show in the result.\<close>

lemma encode_word_refines: "encode_word tok tie word = Some (encode_word_spec tok word)"
proof -
  define e where "e = concat (map byte_to_unicode word)"
  define S where "S = symbol_chain (chars e) 0 0"
  show ?thesis
  proof (cases "e = []")
    case True
    then have "word = []" using byte_to_unicode_wf(3) by (cases word) (auto simp: e_def)
    then show ?thesis by (simp add: encode_word_def encode_word_spec_def merge_all.simps candidates_def)
  next
    case False
    have c: "chain S [0..<length S]" unfolding S_def using initial_chain chars_nonempty by simp
    have t: "map (text_at e S) [0..<length S] = map byte_to_unicode word"
      using initial_texts [of "chars e"] chars_encoded [of word] by (simp add: S_def e_def)
    obtain S' L' where "merge_loop tok tie e S (initial_queue tok e S) = Some S'" "chain S' L'"
      "map (text_at e S') L' = merge_all (pair_rank tok) (map byte_to_unicode word)"
      using merge_loop_spec [where tok = tok and e = e and tie = tie, OF initial_inv [OF c]] unfolding t by blast
    then show ?thesis
      using False finalise_chain [of S' L' tok e]
      by (simp add: encode_word_def encode_word_spec_def Let_def flip: e_def S_def)
  qed
qed

end
