(* ===== verification/Tok_Pre.thy ===== *)
theory Tok_Pre
  imports Tok_Bpe
begin

text \<open>
  The pre-split of a text before merging (\<^verbatim>\<open>qwen2_fragments\<close> and \<^verbatim>\<open>scan_fragment\<close> of
  \<^verbatim>\<open>crates/tokenizer/src/bpe.rs\<close>): a hand-written scanner for a regular expression. The expression
  the comments give is modelled with ordered choice and greedy repetition, and the scanner is
  compared with it.
\<close>

section \<open>Character classes\<close>

text \<open>
  \<^verbatim>\<open>char::is_alphabetic\<close> and \<^verbatim>\<open>char::is_numeric\<close> are the tables of the Unicode version of the
  standard library and stay parameters; \<^verbatim>\<open>char::is_whitespace\<close> is the property \<^verbatim>\<open>White_Space\<close>.
\<close>

record CharClass =
  alphabetic :: "uchar \<Rightarrow> bool"
  numeric :: "uchar \<Rightarrow> bool"

definition white_space :: "uchar list" where
  "white_space = [[0x09], [0x0A], [0x0B], [0x0C], [0x0D], [0x20], [0xC2, 0x85], [0xC2, 0xA0], [0xE1, 0x9A, 0x80]]
     @ map (\<lambda>b. [0xE2, 0x80, b]) [0x80, 0x81, 0x82, 0x83, 0x84, 0x85, 0x86, 0x87, 0x88, 0x89, 0x8A, 0xA8, 0xA9, 0xAF]
     @ [[0xE2, 0x81, 0x9F], [0xE3, 0x80, 0x80]]"

definition is_cpt_ws :: "uchar \<Rightarrow> bool" where
  "is_cpt_ws c \<longleftrightarrow> c \<in> set white_space"

definition is_cpt_letter :: "CharClass \<Rightarrow> uchar \<Rightarrow> bool" where
  "is_cpt_letter cl c = alphabetic cl c"

definition is_cpt_digit :: "CharClass \<Rightarrow> uchar \<Rightarrow> bool" where
  "is_cpt_digit cl c = numeric cl c"

definition one_of :: "string \<Rightarrow> uchar \<Rightarrow> bool" where
  "one_of s c \<longleftrightarrow> c \<in> set (map (\<lambda>x. [of_char x]) s)"

text \<open>\<^verbatim>\<open>c == '\r' || c == '\n'\<close>\<close>

definition newline :: "uchar \<Rightarrow> bool" where
  "newline c \<longleftrightarrow> c = [0x0D] \<or> c = [0x0A]"

section \<open>The scanner\<close>

text \<open>\<^verbatim>\<open>while k < n && p(chars[k]) { k += 1 }\<close>\<close>

definition scan_while :: "(uchar \<Rightarrow> bool) \<Rightarrow> uchar list \<Rightarrow> nat \<Rightarrow> nat" where
  "scan_while p cs k = k + length (takeWhile p (drop k cs))"

text \<open>One definition per block of \<^verbatim>\<open>scan_fragment\<close>: the length it returns, if it returns.\<close>

definition scan_A :: "uchar list \<Rightarrow> nat \<Rightarrow> nat option" where
  "scan_A cs pos =
     (let n = length cs in
      if pos + 1 < n \<and> cs ! pos = [0x27] then
        let c2 = cs ! (pos + 1);
          ok2 = one_of ''sStTmMdD'' c2;
          ok3 = (pos + 3 \<le> n \<and> one_of ''rRvVlL'' c2 \<and> one_of ''eE'' (cs ! (pos + 2)))
        in if ok2 then Some 2 else if ok3 then Some 3 else None
      else None)"

definition scan_B :: "CharClass \<Rightarrow> uchar list \<Rightarrow> nat \<Rightarrow> nat option" where
  "scan_B cl cs pos =
     (let n = length cs; c0 = cs ! pos in
      if is_cpt_letter cl c0 then Some (scan_while (is_cpt_letter cl) cs (pos + 1) - pos)
      else if \<not> is_cpt_letter cl c0 \<and> \<not> is_cpt_digit cl c0 \<and> c0 \<noteq> [0x0D] \<and> c0 \<noteq> [0x0A]
        \<and> pos + 1 < n \<and> is_cpt_letter cl (cs ! (pos + 1))
      then Some (scan_while (is_cpt_letter cl) cs (pos + 2) - pos)
      else None)"

definition scan_C :: "CharClass \<Rightarrow> uchar list \<Rightarrow> nat \<Rightarrow> nat option" where
  "scan_C cl cs pos = (if is_cpt_digit cl (cs ! pos) then Some 1 else None)"

definition scan_D :: "CharClass \<Rightarrow> uchar list \<Rightarrow> nat \<Rightarrow> nat option" where
  "scan_D cl cs pos =
     (let start = (if cs ! pos = [0x20] then pos + 1 else pos);
        k = scan_while (\<lambda>c. \<not> is_cpt_ws c \<and> \<not> is_cpt_letter cl c \<and> \<not> is_cpt_digit cl c) cs start
      in if start < k then Some (scan_while newline cs k - pos) else None)"

definition scan_E :: "uchar list \<Rightarrow> nat \<Rightarrow> nat option" where
  "scan_E cs pos =
     (let m = scan_while (\<lambda>c. \<not> newline c) cs pos in
      if m < length cs \<and> list_all is_cpt_ws (take (m - pos) (drop pos cs))
      then Some (scan_while newline cs m - pos) else None)"

definition scan_FG :: "uchar list \<Rightarrow> nat \<Rightarrow> nat option" where
  "scan_FG cs pos =
     (if is_cpt_ws (cs ! pos) then
        let e = scan_while is_cpt_ws cs pos; run = e - pos in
        if e < length cs then (if 1 < run then Some (run - 1) else Some 1) else Some run
      else None)"

fun or_else :: "'a option \<Rightarrow> 'a option \<Rightarrow> 'a option" where
  "or_else (Some x) y = Some x"
| "or_else None y = y"

text \<open>\<open>None\<close> is \<^verbatim>\<open>(0, false)\<close>.\<close>

definition scan_fragment :: "CharClass \<Rightarrow> uchar list \<Rightarrow> nat \<Rightarrow> nat option" where
  "scan_fragment cl cs pos =
     or_else (scan_A cs pos) (or_else (scan_B cl cs pos) (or_else (scan_C cl cs pos)
       (or_else (scan_D cl cs pos) (or_else (scan_E cs pos) (scan_FG cs pos)))))"

definition byte_pos :: "uchar list \<Rightarrow> nat \<Rightarrow> nat" where
  "byte_pos cs i = sum_list (map length (take i cs))"

lemma scan_while_bounds: "k \<le> scan_while p cs k" "k \<le> length cs \<Longrightarrow> scan_while p cs k \<le> length cs"
  using length_takeWhile_le [of p "drop k cs"] by (simp_all add: scan_while_def)

lemma scan_while_first: "k < length cs \<Longrightarrow> p (cs ! k) \<Longrightarrow> k < scan_while p cs k"
  by (simp add: scan_while_def flip: Cons_nth_drop_Suc)

lemma scan_while_stop: "scan_while p cs k < length cs \<Longrightarrow> k \<le> length cs \<Longrightarrow> \<not> p (cs ! scan_while p cs k)"
  using nth_length_takeWhile [of p "drop k cs"] by (simp add: scan_while_def)

definition fits :: "uchar list \<Rightarrow> nat \<Rightarrow> nat option \<Rightarrow> bool" where
  "fits cs pos r \<longleftrightarrow> (\<forall>len. r = Some len \<longrightarrow> 0 < len \<and> pos + len \<le> length cs)"

lemma fits_or_else: "fits cs pos x \<Longrightarrow> fits cs pos y \<Longrightarrow> fits cs pos (or_else x y)"
  by (cases x) simp_all

lemma scan_blocks_fit:
  assumes "pos < length cs"
  shows "fits cs pos (scan_A cs pos)" "fits cs pos (scan_B cl cs pos)" "fits cs pos (scan_C cl cs pos)"
    "fits cs pos (scan_D cl cs pos)" "fits cs pos (scan_E cs pos)" "fits cs pos (scan_FG cs pos)"
proof -
  show "fits cs pos (scan_A cs pos)" by (auto simp: fits_def scan_A_def Let_def split: if_splits)
  show "fits cs pos (scan_B cl cs pos)"
    using scan_while_bounds [where k = "pos + 1" and cs = cs and p = "is_cpt_letter cl"]
      scan_while_bounds [where k = "pos + 2" and cs = cs and p = "is_cpt_letter cl"] assms
    by (auto simp: fits_def scan_B_def Let_def split: if_splits)
  show "fits cs pos (scan_C cl cs pos)" using assms by (auto simp: fits_def scan_C_def)
  show "fits cs pos (scan_D cl cs pos)"
  proof -
    define start where "start = (if cs ! pos = [0x20] then pos + 1 else pos)"
    define k where "k = scan_while (\<lambda>c. \<not> is_cpt_ws c \<and> \<not> is_cpt_letter cl c \<and> \<not> is_cpt_digit cl c) cs start"
    have "pos \<le> start" "start \<le> length cs" using assms by (auto simp: start_def)
    then have "k \<le> length cs" unfolding k_def by (intro scan_while_bounds)
    then show ?thesis
      using \<open>pos \<le> start\<close> scan_while_bounds [where k = k and cs = cs and p = newline]
      by (auto simp: fits_def scan_D_def Let_def simp flip: start_def k_def)
  qed
  show "fits cs pos (scan_E cs pos)"
  proof -
    define m where "m = scan_while (\<lambda>c. \<not> newline c) cs pos"
    have "pos \<le> m" unfolding m_def by (rule scan_while_bounds)
    moreover have "m < scan_while newline cs m" if "m < length cs"
      using scan_while_first [OF that, of newline] scan_while_stop [of "\<lambda>c. \<not> newline c" cs pos] that assms
      by (simp add: m_def)
    ultimately show ?thesis
      using scan_while_bounds(2) [where k = m and cs = cs and p = newline]
      by (auto simp: fits_def scan_E_def Let_def simp flip: m_def)
  qed
  show "fits cs pos (scan_FG cs pos)"
    using scan_while_bounds(2) [where k = pos and cs = cs and p = is_cpt_ws] scan_while_first [OF assms, of is_cpt_ws] assms
    by (auto simp: fits_def scan_FG_def Let_def split: if_splits)
qed

lemma scan_fragment_bounds:
  assumes "pos < length cs" "scan_fragment cl cs pos = Some len"
  shows "0 < len \<and> pos + len \<le> length cs"
proof -
  have "fits cs pos (scan_fragment cl cs pos)"
    unfolding scan_fragment_def using scan_blocks_fit [OF assms(1)] by (intro fits_or_else)
  then show ?thesis using assms(2) by (simp add: fits_def)
qed

function fragment_loop :: "CharClass \<Rightarrow> str \<Rightarrow> uchar list \<Rightarrow> nat \<Rightarrow> str list" where
  "fragment_loop cl s cs pos =
     (if length cs \<le> pos then []
      else let b0 = byte_pos cs pos in
        case scan_fragment cl cs pos of
          None \<Rightarrow> take (byte_pos cs (pos + 1) - b0) (drop b0 s) # fragment_loop cl s cs (pos + 1)
        | Some len \<Rightarrow> take (byte_pos cs (pos + len) - b0) (drop b0 s) # fragment_loop cl s cs (pos + len))"
  by pat_completeness auto
termination
proof (relation "measure (\<lambda>(cl, s, cs, pos). length cs - pos)", goal_cases)
  case (3 cl s cs pos b0 len)
  then show ?case using scan_fragment_bounds [of pos cs cl len] by auto
qed auto

declare fragment_loop.simps [simp del]

definition qwen2_fragments :: "CharClass \<Rightarrow> str \<Rightarrow> str list" where
  "qwen2_fragments cl s = fragment_loop cl s (chars s) 0"

section \<open>The regular expression\<close>

text \<open>
  The alternatives of a match in the order a backtracking matcher tries them, each by its length;
  the match is the first.
\<close>

datatype rx =
    Cls "uchar \<Rightarrow> bool"
  | Many "uchar \<Rightarrow> bool"
  | Empty
  | End_or "uchar \<Rightarrow> bool"
  | Seq rx rx
  | Alt rx rx

fun matches :: "rx \<Rightarrow> uchar list \<Rightarrow> nat list" where
  "matches (Cls p) xs = (case xs of c # _ \<Rightarrow> if p c then [1] else [] | [] \<Rightarrow> [])"
| "matches (Many p) xs = rev [0..<Suc (length (takeWhile p xs))]"
| "matches Empty xs = [0]"
| "matches (End_or p) xs = (case xs of c # _ \<Rightarrow> if p c then [0] else [] | [] \<Rightarrow> [0])"
| "matches (Seq a b) xs = concat (map (\<lambda>i. map (\<lambda>j. i + j) (matches b (drop i xs))) (matches a xs))"
| "matches (Alt a b) xs = matches a xs @ matches b xs"

definition first_match :: "rx \<Rightarrow> uchar list \<Rightarrow> nat option" where
  "first_match r xs = (case matches r xs of [] \<Rightarrow> None | n # _ \<Rightarrow> Some n)"

abbreviation (input) plus :: "(uchar \<Rightarrow> bool) \<Rightarrow> rx" where
  "plus p \<equiv> Seq (Cls p) (Many p)"

fun alts :: "rx list \<Rightarrow> rx" where
  "alts [r] = r"
| "alts (r # rs) = Alt r (alts rs)"
| "alts [] = Cls (\<lambda>_. False)"

text \<open>
  The classes of the expression are those of its text: \<^verbatim>\<open>\p{L}\<close> and \<^verbatim>\<open>\p{N}\<close>, the general
  categories letter and number. They are parameters of their own: \<^verbatim>\<open>char::is_alphabetic\<close> is the
  wider property \<^verbatim>\<open>Alphabetic\<close>, which also holds of vowel signs (Devanagari U+093F, category Mc)
  and of letter numbers.
\<close>

record UnicodeCat =
  letter :: "uchar \<Rightarrow> bool"
  number :: "uchar \<Rightarrow> bool"

text \<open>
  The expression of the comments: contractions; letters with an optional other character; a digit;
  other characters with an optional space and line ends; space up to line ends; space not before a
  word; space.
\<close>

definition rx_A :: rx where
  "rx_A = Seq (Cls (one_of [CHR 0x27])) (alts [Cls (one_of ''sS''), Cls (one_of ''tT''),
     Seq (Cls (one_of ''rR'')) (Cls (one_of ''eE'')), Seq (Cls (one_of ''vV'')) (Cls (one_of ''eE'')),
     Cls (one_of ''mM''), Seq (Cls (one_of ''lL'')) (Cls (one_of ''lL'')), Cls (one_of ''dD'')])"

definition rx_B :: "UnicodeCat \<Rightarrow> rx" where
  "rx_B cat = Seq (Alt (Cls (\<lambda>c. \<not> newline c \<and> \<not> letter cat c \<and> \<not> number cat c)) Empty)
     (plus (letter cat))"

definition rx_C :: "UnicodeCat \<Rightarrow> rx" where
  "rx_C cat = Cls (number cat)"

definition rx_D :: "UnicodeCat \<Rightarrow> rx" where
  "rx_D cat = Seq (Alt (Cls (one_of '' '')) Empty)
     (Seq (plus (\<lambda>c. \<not> is_cpt_ws c \<and> \<not> letter cat c \<and> \<not> number cat c)) (Many newline))"

definition rx_E :: rx where
  "rx_E = Seq (Many is_cpt_ws) (plus newline)"

definition rx_F :: rx where
  "rx_F = Seq (plus is_cpt_ws) (End_or is_cpt_ws)"

definition rx_G :: rx where
  "rx_G = plus is_cpt_ws"

definition qwen2_pattern :: "UnicodeCat \<Rightarrow> rx" where
  "qwen2_pattern cat = alts [rx_A, rx_B cat, rx_C cat, rx_D cat, rx_E, rx_F, rx_G]"

section \<open>Matching\<close>

definition first :: "nat list \<Rightarrow> nat option" where
  "first ns = (case ns of [] \<Rightarrow> None | n # _ \<Rightarrow> Some n)"

lemma first_simps [simp]: "first [] = None" "first (n # ns) = Some n"
  "first (xs @ ys) = or_else (first xs) (first ys)" "first (map f ns) = map_option f (first ns)"
  "first ns = None \<longleftrightarrow> ns = []"
  by (simp_all add: first_def split: list.split)

lemma plus_simps [simp]: "map_option ((+) 0) x = x" "map_option ((+) (Suc 0)) x = map_option Suc x" for x :: "nat option"
  by (cases x; simp)+

lemma first_match_first: "first_match r xs = first (matches r xs)"
  by (simp add: first_match_def first_def)

lemma first_longest:
  "k \<le> n \<Longrightarrow> f k \<noteq> [] \<Longrightarrow> \<forall>i. k < i \<and> i \<le> n \<longrightarrow> f i = [] \<Longrightarrow> first (concat (map f (rev [0..<Suc n]))) = first (f k)"
proof (induction n)
  case (Suc n)
  show ?case
  proof (cases "k = Suc n")
    case True
    then show ?thesis using Suc.prems by (cases "f k") simp_all
  next
    case False
    then have "first (concat (map f (rev [0..<Suc n]))) = first (f k)" using Suc by simp
    then show ?thesis using Suc.prems False by simp
  qed
qed (auto simp: first_def split: list.split)

lemma first_none: "\<forall>i\<le>n. f i = [] \<Longrightarrow> first (concat (map f (rev [0..<Suc n]))) = None"
  by (auto simp: less_Suc_eq_le)

lemma first_match_Alt: "first_match (Alt a b) xs = or_else (first_match a xs) (first_match b xs)"
  by (simp add: first_match_first)

lemma first_match_Cls [simp]:
  "first_match (Cls p) [] = None" "first_match (Cls p) (c # xs) = (if p c then Some 1 else None)"
  by (simp_all add: first_match_first)

lemma first_match_Many [simp]: "first_match (Many p) xs = Some (length (takeWhile p xs))"
  by (simp add: first_match_first)

lemma matches_Many_ne [simp]: "matches (Many p) xs \<noteq> []"
  by simp

lemma first_match_Seq_Cls [simp]: "first_match (Seq (Cls p) r) [] = None"
  "first_match (Seq (Cls p) r) (c # xs) = (if p c then map_option Suc (first_match r xs) else None)"
  by (simp_all add: first_match_first)

lemma first_match_Seq_assoc: "first_match (Seq (Seq a b) r) xs = first_match (Seq a (Seq b r)) xs"
proof -
  have "concat (map (\<lambda>k. map ((+) k) (matches r (drop k xs))) (map ((+) i) ms))
      = map ((+) i) (concat (map (\<lambda>j. map ((+) j) (matches r (drop j (drop i xs)))) ms))" for i ms
    by (induction ms) (simp_all add: comp_def ac_simps)
  note inner = this
  have "matches (Seq (Seq a b) r) xs = matches (Seq a (Seq b r)) xs"
  proof -
    have "concat (map (\<lambda>k. map ((+) k) (matches r (drop k xs))) (concat (map (\<lambda>i. map ((+) i) (matches b (drop i xs))) is)))
        = concat (map (\<lambda>i. map ((+) i) (matches (Seq b r) (drop i xs))) is)" for "is"
      by (induction "is") (simp_all only: list.map concat.simps map_append concat_append inner matches.simps)
    then show ?thesis by simp
  qed
  then show ?thesis by (simp only: first_match_first)
qed

lemma first_match_Seq_Alt: "first_match (Seq (Alt a b) r) xs = or_else (first_match (Seq a r) xs) (first_match (Seq b r) xs)"
  by (simp add: first_match_first)

lemma first_match_Seq_Empty [simp]: "first_match (Seq Empty r) xs = first_match r xs"
  by (simp add: first_match_first)

lemma first_match_Many_Many:
  "first_match (Seq (Many p) (Many q)) xs
     = Some (length (takeWhile p xs) + length (takeWhile q (drop (length (takeWhile p xs)) xs)))"
  unfolding first_match_first matches.simps(2,5)
  by (subst first_longest [of "length (takeWhile p xs)"]) simp_all

section \<open>The scanner and the expression\<close>

text \<open>
  Where the two part: the third letter of a contraction, white space over several lines, and
  characters whose classes differ. \<open>class_of\<close> is the scanner with the classes of the expression.
\<close>

definition l_contraction :: "uchar list \<Rightarrow> bool" where
  "l_contraction xs \<longleftrightarrow> 2 < length xs \<and> xs ! 0 = [0x27] \<and> one_of ''lL'' (xs ! 1) \<and> one_of ''eElL'' (xs ! 2)"

definition lines_apart :: "uchar list \<Rightarrow> bool" where
  "lines_apart xs \<longleftrightarrow> list_ex newline (dropWhile newline (dropWhile (\<lambda>c. \<not> newline c) (takeWhile is_cpt_ws xs)))"

definition same_class :: "CharClass \<Rightarrow> UnicodeCat \<Rightarrow> uchar \<Rightarrow> bool" where
  "same_class cl cat c \<longleftrightarrow> (alphabetic cl c \<longleftrightarrow> letter cat c) \<and> (numeric cl c \<longleftrightarrow> number cat c)"

definition class_of :: "UnicodeCat \<Rightarrow> CharClass" where
  "class_of cat = \<lparr>alphabetic = letter cat, numeric = number cat\<rparr>"

lemma class_of_simps [simp]:
  "is_cpt_letter (class_of cat) = letter cat" "is_cpt_digit (class_of cat) = number cat"
  by (simp_all add: fun_eq_iff class_of_def is_cpt_letter_def is_cpt_digit_def)

lemma scan_while_drop: "pos \<le> k \<Longrightarrow> scan_while p cs k - pos = k - pos + length (takeWhile p (drop (k - pos) (drop pos cs)))"
  by (simp add: scan_while_def)

lemma newline_ws: "newline c \<Longrightarrow> is_cpt_ws c"
  by (auto simp: newline_def is_cpt_ws_def white_space_def)

lemma at_suffix:
  assumes "drop pos cs = c # ys"
  shows "cs ! pos = c" "length cs = pos + 1 + length ys" "i < length ys \<Longrightarrow> cs ! Suc (pos + i) = ys ! i"
    "drop (pos + 1) cs = ys" "drop (pos + 2) cs = tl ys"
proof -
  have p: "pos < length cs" using assms by (cases "pos < length cs") auto
  show "cs ! pos = c" using assms p by (metis Cons_nth_drop_Suc list.inject)
  show "length cs = pos + 1 + length ys" using arg_cong [OF assms, of length] p by simp
  have d: "drop (pos + 1) cs = ys" using assms p by (metis Cons_nth_drop_Suc Suc_eq_plus1 list.inject)
  then show "drop (pos + 1) cs = ys" .
  show "drop (pos + 2) cs = tl ys" unfolding d [symmetric] by (simp add: tl_drop drop_Suc)
  show "i < length ys \<Longrightarrow> cs ! Suc (pos + i) = ys ! i" using d p by (auto simp flip: d)
qed

lemma scan_A_match:
  assumes xs: "drop pos cs = c # ys" and l: "\<not> l_contraction (c # ys)"
  shows "scan_A cs pos = first_match rx_A (c # ys)"
proof (cases ys)
  case Nil
  then show ?thesis
    using at_suffix(2) [OF xs] by (simp add: scan_A_def rx_A_def first_match_Alt)
next
  case (Cons d zs)
  have n: "pos + 1 < length cs" "cs ! (pos + 1) = d"
    using at_suffix(2,3) [OF xs] Cons by (auto simp: at_suffix(3) [OF xs, of 0, simplified])
  show ?thesis
  proof (cases zs)
    case Nil
    then show ?thesis
      using at_suffix(1,2) [OF xs] n Cons by (auto simp: scan_A_def rx_A_def first_match_Alt one_of_def)
  next
    case z: (Cons e zs')
    have "cs ! (pos + 2) = e" "pos + 3 \<le> length cs"
      using at_suffix(2,3) [OF xs] Cons z by (auto simp: at_suffix(3) [OF xs, of 1, simplified])
    then show ?thesis
      using at_suffix(1,2) [OF xs] n l Cons z
      by (auto simp: scan_A_def rx_A_def first_match_Alt one_of_def l_contraction_def)
  qed
qed

lemma scan_B_match:
  assumes xs: "drop pos cs = c # ys"
  shows "scan_B (class_of cat) cs pos = first_match (rx_B cat) (c # ys)"
proof -
  note at = at_suffix [OF xs]
  have w1: "scan_while p cs (pos + 1) - pos = Suc (length (takeWhile p ys))" for p
    unfolding scan_while_def at(4) by simp
  have w2: "scan_while p cs (pos + 2) - pos = Suc (Suc (length (takeWhile p (tl ys))))" for p
    unfolding scan_while_def at(5) by simp
  show ?thesis
    unfolding scan_B_def Let_def w1 w2 using at(3) [of 0]
    by (cases ys) (simp_all add: rx_B_def at(1,2) first_match_Seq_Alt newline_def)
qed

lemma scan_C_match:
  assumes xs: "drop pos cs = c # ys" shows "scan_C (class_of cat) cs pos = first_match (rx_C cat) (c # ys)"
  using at_suffix [OF xs] by (simp add: scan_C_def rx_C_def)

lemma scan_D_match:
  assumes xs: "drop pos cs = c # ys"
  shows "scan_D (class_of cat) cs pos = first_match (rx_D cat) (c # ys)"
proof -
  note at = at_suffix [OF xs]
  define p where "p = (\<lambda>c. \<not> is_cpt_ws c \<and> \<not> letter cat c \<and> \<not> number cat c)"
  define start where "start = (if c = [0x20] then pos + 1 else pos)"
  define zs where "zs = (if c = [0x20] then ys else c # ys)"
  have zs: "drop start cs = zs" using xs at(4) by (simp add: start_def zs_def)
  have k: "scan_while p cs start = start + length (takeWhile p zs)" by (simp add: scan_while_def zs)
  have k2: "scan_while newline cs (start + n) - pos = start - pos + n + length (takeWhile newline (drop n zs))" for n
    by (simp add: scan_while_def start_def add.commute flip: zs)
  have code: "scan_D (class_of cat) cs pos = (if takeWhile p zs = [] then None
      else Some (start - pos + length (takeWhile p zs) + length (takeWhile newline (drop (length (takeWhile p zs)) zs))))"
    unfolding scan_D_def at(1) Let_def class_of_simps p_def [symmetric] start_def [symmetric] k k2 by simp
  have run: "first_match (Seq (plus p) (Many newline)) zs = (if takeWhile p zs = [] then None
      else Some (length (takeWhile p zs) + length (takeWhile newline (drop (length (takeWhile p zs)) zs))))" for zs
    by (cases zs) (simp_all add: first_match_Seq_assoc first_match_Many_Many)
  have sp: "one_of '' '' c \<longleftrightarrow> c = [0x20]" for c by (simp add: one_of_def)
  have "\<not> p [0x20]" by (simp add: p_def is_cpt_ws_def white_space_def)
  then have "first_match (rx_D cat) (c # ys) = map_option ((+) (start - pos)) (first_match (Seq (plus p) (Many newline)) zs)"
    unfolding rx_D_def p_def [symmetric]
    by (cases "c = [0x20]") (simp_all add: first_match_Seq_Alt sp start_def zs_def run)
  then show ?thesis unfolding code run by simp
qed

text \<open>The runs at the front of a text whose first line end comes after white space only.\<close>

lemma first_line:
  assumes "list_ex newline (takeWhile is_cpt_ws xs)" "\<not> lines_apart xs"
  obtains u N w rest where "xs = u @ N @ w @ rest" "takeWhile is_cpt_ws xs = u @ N @ w" "N \<noteq> []"
    "\<forall>c\<in>set (u @ w). is_cpt_ws c \<and> \<not> newline c" "\<forall>c\<in>set N. newline c"
    "rest = [] \<or> \<not> is_cpt_ws (hd rest)"
proof -
  define run where "run = takeWhile is_cpt_ws xs"
  define v where "v = dropWhile (\<lambda>c. \<not> newline c) run"
  have ws: "\<forall>c\<in>set run. is_cpt_ws c" by (metis run_def set_takeWhileD)
  define u N w where "u = takeWhile (\<lambda>c. \<not> newline c) run" and "N = takeWhile newline v" and "w = dropWhile newline v"
  have run: "run = u @ N @ w" by (simp add: u_def N_def w_def v_def)
  have "v \<noteq> []" using assms(1) by (simp add: v_def list_ex_iff flip: run_def)
  then have "newline (hd v)" unfolding v_def using hd_dropWhile [of "\<lambda>c. \<not> newline c" run] by simp
  then have N: "N \<noteq> []" using \<open>v \<noteq> []\<close> by (cases v) (auto simp: N_def)
  have xs: "xs = (u @ N @ w) @ dropWhile is_cpt_ws xs" unfolding run [symmetric] by (simp add: run_def)
  have "\<not> list_ex newline w" using assms(2) unfolding lines_apart_def w_def v_def run_def .
  then have w: "\<forall>c\<in>set w. \<not> newline c" by (simp add: list_ex_iff)
  have "\<forall>c\<in>set u. \<not> newline c" "\<forall>c\<in>set N. newline c"
    unfolding u_def N_def using set_takeWhileD by metis+
  moreover have "dropWhile is_cpt_ws xs = [] \<or> \<not> is_cpt_ws (hd (dropWhile is_cpt_ws xs))"
    using hd_dropWhile by blast
  moreover have "\<forall>c\<in>set (u @ N @ w). is_cpt_ws c" using ws unfolding run .
  ultimately show thesis
    using run w N xs by (intro that [of u N w "dropWhile is_cpt_ws xs"]) (auto simp flip: run_def)
qed

lemma takeWhile_stop: "\<forall>c\<in>set xs. P c \<Longrightarrow> ys = [] \<or> \<not> P (hd ys) \<Longrightarrow> takeWhile P (xs @ ys) = xs"
  by (cases ys) simp_all

lemma scan_E_match:
  assumes xs: "drop pos cs = c # ys" and one: "\<not> lines_apart (c # ys)"
  shows "scan_E cs pos = first_match rx_E (c # ys)"
proof -
  define xs where "xs = c # ys"
  define f where "f = (\<lambda>i. map ((+) i) (matches (plus newline) (drop i xs)))"
  have d: "drop pos cs = xs" and n: "length cs = pos + length xs"
    using xs at_suffix(2) [OF xs] by (simp_all add: xs_def)
  define m where "m = length (takeWhile (\<lambda>c. \<not> newline c) xs)"
  have code: "scan_E cs pos = (if m < length xs \<and> list_all is_cpt_ws (take m xs)
      then Some (m + length (takeWhile newline (drop m xs))) else None)"
  proof -
    have "drop (pos + i) cs = drop i xs" for i using d by (simp add: add.commute flip: drop_drop)
    then show ?thesis by (simp add: scan_E_def Let_def scan_while_def d n m_def add.assoc)
  qed
  have rx: "first_match rx_E xs = first (concat (map f (rev [0..<Suc (length (takeWhile is_cpt_ws xs))])))"
    by (simp only: first_match_first rx_E_def matches.simps(2,5) f_def)
  have f: "f i = [] \<longleftrightarrow> \<not> (i < length xs \<and> newline (xs ! i))" for i
    by (cases "i < length xs") (auto simp: f_def simp flip: Cons_nth_drop_Suc)
  show ?thesis
  proof (cases "list_ex newline (takeWhile is_cpt_ws xs)")
    case False
    have "f i = []" if "i \<le> length (takeWhile is_cpt_ws xs)" for i
    proof (cases "i < length (takeWhile is_cpt_ws xs)")
      case True
      then show ?thesis using False nth_mem [OF True] takeWhile_nth [OF True] by (auto simp: f list_ex_iff)
    next
      case False
      then have "i = length (takeWhile is_cpt_ws xs)" using that by simp
      then show ?thesis using nth_length_takeWhile [of is_cpt_ws xs] newline_ws by (auto simp: f)
    qed
    then have "first_match rx_E xs = None" unfolding rx by (intro first_none) blast
    moreover have "\<not> (m < length xs \<and> list_all is_cpt_ws (take m xs))"
    proof
      assume a: "m < length xs \<and> list_all is_cpt_ws (take m xs)"
      then have nl: "newline (xs ! m)" using nth_length_takeWhile [of "\<lambda>c. \<not> newline c" xs] by (simp add: m_def)
      have "takeWhile is_cpt_ws (take m xs @ xs ! m # drop (Suc m) xs)
          = take m xs @ xs ! m # takeWhile is_cpt_ws (drop (Suc m) xs)"
        using a newline_ws [OF nl] by (subst takeWhile_append2) (auto simp: list_all_iff)
      then have "xs ! m \<in> set (takeWhile is_cpt_ws xs)" using a by (simp flip: id_take_nth_drop)
      then show False using False nl by (auto simp: list_ex_iff)
    qed
    ultimately show ?thesis unfolding code by (simp flip: xs_def)
  next
    case True
    obtain u N w rest where s: "xs = u @ N @ w @ rest" "takeWhile is_cpt_ws xs = u @ N @ w" "N \<noteq> []"
      "\<forall>c\<in>set (u @ w). is_cpt_ws c \<and> \<not> newline c" "\<forall>c\<in>set N. newline c" "rest = [] \<or> \<not> is_cpt_ws (hd rest)"
      using first_line [OF True] one unfolding xs_def [symmetric] by blast
    have hdN: "newline (hd N)" using s(3,5) by simp
    have stop: "w @ rest = [] \<or> \<not> newline (hd (w @ rest))"
      using s(4,6) newline_ws by (cases w) auto
    have m: "m = length u" unfolding m_def s(1)
      using takeWhile_stop [of u "\<lambda>c. \<not> newline c" "N @ w @ rest"] s(3,4) hdN by (cases N) auto
    have N: "takeWhile newline (drop m xs) = N" "takeWhile newline (N @ w @ rest) = N"
      using takeWhile_stop [of N newline "w @ rest"] s(1,5) stop by (simp_all add: m)
    have code': "scan_E cs pos = Some (length u + length N)"
      unfolding code N(1) using s(1,3,4) by (simp add: m list_all_iff)
    obtain N' a where N': "N = N' @ [a]" using s(3) by (cases N rule: rev_cases) auto
    define k where "k = length u + length N'"
    have xsk: "xs = (u @ N') @ a # w @ rest" "drop k xs = a # w @ rest" using s(1) N' by (simp_all add: k_def)
    have "newline a" using s(5) N' by simp
    have fk: "first (f k) = Some (Suc k)"
      using takeWhile_stop [of "[]" newline "w @ rest"] stop \<open>newline a\<close>
      unfolding f_def first_simps(4) first_match_first [symmetric] xsk(2) by simp
    have "first (concat (map f (rev [0..<Suc (length (takeWhile is_cpt_ws xs))]))) = first (f k)"
    proof (rule first_longest)
      show "k \<le> length (takeWhile is_cpt_ws xs)" unfolding s(2) by (simp add: k_def N')
      show "f k \<noteq> []" using fk by auto
      show "\<forall>i. k < i \<and> i \<le> length (takeWhile is_cpt_ws xs) \<longrightarrow> f i = []"
      proof (intro allI impI)
        fix i
        assume i: "k < i \<and> i \<le> length (takeWhile is_cpt_ws xs)"
        then have "i - Suc k \<le> length w" unfolding s(2) by (auto simp: k_def N')
        moreover have "xs ! i = (w @ rest) ! (i - Suc k)"
        proof -
          have "i = length (u @ N') + Suc (i - Suc k)" using i by (simp add: k_def)
          then show ?thesis unfolding xsk(1) by (metis nth_Cons_Suc nth_append_length_plus)
        qed
        moreover have "\<not> newline ((w @ rest) ! (i - Suc k))" if "i - Suc k < length (w @ rest)"
          using calculation(1) s(4,6) newline_ws that
          by (cases "i - Suc k < length w") (auto simp: nth_append hd_conv_nth)
        moreover have "i < length xs \<longleftrightarrow> i - Suc k < length (w @ rest)"
          using i unfolding xsk(1) by (auto simp: k_def)
        ultimately show "f i = []" by (auto simp: f)
      qed
    qed
    then show ?thesis unfolding xs_def [symmetric] rx fk code' by (simp add: k_def N')
  qed
qed

lemma scan_FG_match:
  assumes xs: "drop pos cs = c # ys"
  shows "scan_FG cs pos = first_match (Alt rx_F rx_G) (c # ys)"
proof (cases "is_cpt_ws c")
  case True
  define r where "r = length (takeWhile is_cpt_ws ys)"
  define f where "f = (\<lambda>i. map ((+) i) (matches (End_or is_cpt_ws) (drop i ys)))"
  have F: "first_match rx_F (c # ys) = map_option Suc (first (concat (map f (rev [0..<Suc r]))))"
    using True unfolding rx_F_def first_match_Seq_assoc
    by (simp add: first_match_first f_def r_def del: upt_Suc)
  have e: "scan_while is_cpt_ws cs pos = pos + Suc r" using True by (simp add: scan_while_def xs r_def)
  have code: "scan_FG cs pos = Some (if r < length ys \<and> 0 < r then r else Suc r)"
    using True at_suffix(1,2) [OF xs] by (simp add: scan_FG_def e Let_def)
  have f: "f i = (if i < length ys \<and> \<not> is_cpt_ws (ys ! i) then [] else [i])" for i
    by (cases "i < length ys") (simp_all add: f_def flip: Cons_nth_drop_Suc)
  have inside: "f i = [i]" if "i < r" for i
  proof -
    have "is_cpt_ws (ys ! i)" using that nth_mem [of i "takeWhile is_cpt_ws ys"]
      takeWhile_nth [of i is_cpt_ws ys] set_takeWhileD [of "takeWhile is_cpt_ws ys ! i" is_cpt_ws ys] by (simp add: r_def)
    then show ?thesis by (simp add: f)
  qed
  show ?thesis
  proof (cases "r < length ys")
    case False
    then have "f r = [r]" by (simp add: f)
    then have "first (concat (map f (rev [0..<Suc r]))) = Some r" using first_longest [of r r f] by simp
    then show ?thesis using code False F by (simp add: first_match_Alt)
  next
    case lt: True
    then have fr: "f r = []" using nth_length_takeWhile [of is_cpt_ws ys] by (simp add: f r_def)
    show ?thesis
    proof (cases r)
      case 0
      then have "first (concat (map f (rev [0..<Suc r]))) = None" using fr by simp
      then show ?thesis using code lt F True 0 by (simp add: first_match_Alt rx_G_def r_def)
    next
      case (Suc q)
      then have "first (concat (map f (rev [0..<Suc r]))) = first (f q)"
        using inside fr by (intro first_longest) (auto simp: le_Suc_eq)
      then show ?thesis using code lt F Suc inside by (simp add: first_match_Alt)
    qed
  qed
next
  case False
  then show ?thesis using at_suffix(1) [OF xs]
    by (simp add: scan_FG_def first_match_Alt rx_F_def rx_G_def first_match_Seq_assoc)
qed

lemma or_else_assoc: "or_else (or_else x y) z = or_else x (or_else y z)"
  by (cases x) simp_all

text \<open>The scanner looks at the classes of the characters from the position on.\<close>

lemma scan_while_cong:
  assumes "\<forall>c\<in>set (drop pos cs). p c = q c" "pos \<le> k"
  shows "scan_while p cs k = scan_while q cs k"
proof -
  have "set (drop k cs) \<subseteq> set (drop pos cs)" using assms(2) by (rule set_drop_subset_set_drop)
  then have "takeWhile p (drop k cs) = takeWhile q (drop k cs)" using assms(1) by (intro takeWhile_cong) auto
  then show ?thesis by (simp add: scan_while_def)
qed

lemma scan_fragment_cong:
  assumes pos: "pos < length cs" and same: "\<forall>c\<in>set (drop pos cs). same_class cl cat c"
  shows "scan_fragment cl cs pos = scan_fragment (class_of cat) cs pos"
proof -
  have at: "cs ! (pos + i) \<in> set (drop pos cs)" if "pos + i < length cs" for i
    using nth_mem [of i "drop pos cs"] that by (simp add: less_diff_conv add.commute)
  have cls: "is_cpt_letter cl c = letter cat c \<and> is_cpt_digit cl c = number cat c" if "c \<in> set (drop pos cs)" for c
    using same that by (simp add: same_class_def is_cpt_letter_def is_cpt_digit_def)
  note c0 = cls [OF at [of 0]]
  note w = scan_while_cong [where cs = cs and pos = pos]
  have letters: "scan_while (is_cpt_letter cl) cs k = scan_while (letter cat) cs k" if "pos \<le> k" for k
    using cls that by (intro w) auto
  have others: "scan_while (\<lambda>c. \<not> is_cpt_ws c \<and> \<not> is_cpt_letter cl c \<and> \<not> is_cpt_digit cl c) cs k
      = scan_while (\<lambda>c. \<not> is_cpt_ws c \<and> \<not> letter cat c \<and> \<not> number cat c) cs k" if "pos \<le> k" for k
    using cls that by (intro w) auto
  have "scan_B cl cs pos = scan_B (class_of cat) cs pos"
    using c0 pos cls [OF at [of 1]] by (auto simp: scan_B_def Let_def letters)
  moreover have "scan_C cl cs pos = scan_C (class_of cat) cs pos" using c0 pos by (simp add: scan_C_def)
  moreover have "scan_D cl cs pos = scan_D (class_of cat) cs pos" by (simp add: scan_D_def Let_def others)
  ultimately show ?thesis by (simp add: scan_fragment_def)
qed

text \<open>On texts without the three departures the scanner takes the match of the expression.\<close>

lemma scan_fragment_match:
  assumes "pos < length cs" "\<not> l_contraction (drop pos cs)" "\<not> lines_apart (drop pos cs)"
    and same: "\<forall>c\<in>set (drop pos cs). same_class cl cat c"
  shows "scan_fragment cl cs pos = first_match (qwen2_pattern cat) (drop pos cs)"
proof -
  obtain c ys where xs: "drop pos cs = c # ys" using Cons_nth_drop_Suc [OF assms(1)] by metis
  have "first_match (qwen2_pattern cat) (c # ys) = or_else (first_match rx_A (c # ys)) (or_else (first_match (rx_B cat) (c # ys))
      (or_else (first_match (rx_C cat) (c # ys)) (or_else (first_match (rx_D cat) (c # ys)) (or_else (first_match rx_E (c # ys))
        (first_match (Alt rx_F rx_G) (c # ys))))))"
    unfolding qwen2_pattern_def alts.simps first_match_Alt ..
  then show ?thesis
    unfolding scan_fragment_cong [OF assms(1) same]
    using scan_A_match [OF xs] scan_B_match [OF xs] scan_C_match [OF xs] scan_D_match [OF xs] scan_E_match [OF xs]
      scan_FG_match [OF xs] assms(2,3) by (simp add: scan_fragment_def xs)
qed

text \<open>The third departure: a mark that is alphabetic but no letter ends the run of the expression.\<close>

lemma scan_alphabetic_mark:
  assumes "alphabetic cl c" "alphabetic cl m" "letter cat c" "\<not> letter cat m" "c \<noteq> [0x27]"
  shows "scan_fragment cl [c, m] 0 = Some 2" "first_match (qwen2_pattern cat) [c, m] = Some 1"
proof -
  have "scan_A [c, m] 0 = None" using assms by (simp add: scan_A_def)
  moreover have "scan_B cl [c, m] 0 = Some 2"
    using assms by (simp add: scan_B_def is_cpt_letter_def scan_while_def)
  ultimately show "scan_fragment cl [c, m] 0 = Some 2" by (simp add: scan_fragment_def)
  have "first_match rx_A [c, m] = None" using assms by (simp add: rx_A_def one_of_def)
  moreover have "first_match (rx_B cat) [c, m] = Some 1"
    using assms by (simp add: rx_B_def first_match_Seq_Alt)
  ultimately show "first_match (qwen2_pattern cat) [c, m] = Some 1"
    by (simp add: qwen2_pattern_def first_match_Alt)
qed

section \<open>The fragments\<close>

lemma byte_pos_take: "take (byte_pos cs i) (concat cs) = concat (take i cs)" "drop (byte_pos cs i) (concat cs) = concat (drop i cs)"
proof -
  have "concat cs = concat (take i cs) @ concat (drop i cs)" by (metis append_take_drop_id concat_append)
  moreover have "byte_pos cs i = length (concat (take i cs))" by (simp add: byte_pos_def length_concat)
  ultimately show "take (byte_pos cs i) (concat cs) = concat (take i cs)"
    "drop (byte_pos cs i) (concat cs) = concat (drop i cs)" by simp_all
qed

lemma byte_pos_slice:
  "take (byte_pos cs (i + k) - byte_pos cs i) (drop (byte_pos cs i) (concat cs)) = concat (take k (drop i cs))"
proof -
  have "byte_pos cs (i + k) - byte_pos cs i = byte_pos (drop i cs) k" by (simp add: byte_pos_def take_add)
  then show ?thesis by (simp add: byte_pos_take)
qed

text \<open>The fragments are runs of whole characters that make up the text.\<close>

lemma fragment_loop_concat:
  "concat (fragment_loop cl (concat cs) cs pos) = concat (drop pos cs)"
proof (induction "length cs - pos" arbitrary: pos rule: less_induct)
  case less
  show ?case
  proof (cases "length cs \<le> pos")
    case False
    define k where "k = (case scan_fragment cl cs pos of None \<Rightarrow> 1 | Some len \<Rightarrow> len)"
    have k: "0 < k" using False scan_fragment_bounds [of pos cs cl] by (auto simp: k_def split: option.splits)
    have "fragment_loop cl (concat cs) cs pos = concat (take k (drop pos cs)) # fragment_loop cl (concat cs) cs (pos + k)"
      using False byte_pos_slice [of cs pos k]
      by (auto simp: fragment_loop.simps [of cl "concat cs" cs pos] k_def Let_def split: option.splits)
    moreover have "concat (fragment_loop cl (concat cs) cs (pos + k)) = concat (drop (pos + k) cs)"
      using less [of "pos + k"] k False by simp
    moreover have "concat (drop pos cs) = concat (take k (drop pos cs)) @ concat (drop (pos + k) cs)"
      by (metis add.commute append_take_drop_id concat_append drop_drop)
    ultimately show ?thesis by simp
  qed (simp add: fragment_loop.simps)
qed

lemma qwen2_fragments_concat: "concat (qwen2_fragments cl s) = s"
  using fragment_loop_concat [of cl "chars s" 0] by (simp add: qwen2_fragments_def)

text \<open>The guard of the loop is never needed.\<close>

lemma or_else_None [simp]: "or_else x y = None \<longleftrightarrow> x = None \<and> y = None"
  by (cases x) simp_all

lemma scan_fragment_total:
  assumes "pos < length cs" shows "scan_fragment cl cs pos \<noteq> None"
proof -
  define c where "c = cs ! pos"
  consider "is_cpt_letter cl c" | "is_cpt_digit cl c" | "is_cpt_ws c"
    | "\<not> is_cpt_letter cl c" "\<not> is_cpt_digit cl c" "\<not> is_cpt_ws c" by blast
  then show ?thesis
  proof cases
    case 1
    then show ?thesis by (simp add: scan_fragment_def scan_B_def Let_def c_def)
  next
    case 2
    then show ?thesis by (simp add: scan_fragment_def scan_C_def c_def)
  next
    case 3
    then show ?thesis by (simp add: scan_fragment_def scan_FG_def Let_def c_def)
  next
    case 4
    then have "c \<noteq> [0x20]" by (auto simp: is_cpt_ws_def white_space_def)
    then show ?thesis
      using 4 scan_while_first [OF assms, of "\<lambda>c. \<not> is_cpt_ws c \<and> \<not> is_cpt_letter cl c \<and> \<not> is_cpt_digit cl c"]
      by (simp add: scan_fragment_def scan_D_def Let_def c_def)
  qed
qed

end
