(* ===== verification/Tok_Encode.thy ===== *)
theory Tok_Encode
  imports Tok_Merge Tok_Pre
begin

text \<open>
  Encoding and decoding of whole texts (\<^verbatim>\<open>encode\<close>, \<^verbatim>\<open>piece_bytes\<close>, \<^verbatim>\<open>decode_all\<close> of
  \<^verbatim>\<open>crates/tokenizer/src/bpe.rs\<close>), and the round trip through a vocabulary that has every byte and
  every product of its merges.
\<close>

section \<open>Encoding\<close>

text \<open>The pieces of one raw segment, each merged on its own; \<open>Panic\<close> if one of them panics.\<close>

fun encode_pieces :: "BpeTokenizer \<Rightarrow> (Bigram list \<Rightarrow> nat) \<Rightarrow> str list \<Rightarrow> (nat list, TokenizerError) res" where
  "encode_pieces tok tie [] = Ok []"
| "encode_pieces tok tie (p # ps) = (case encode_word tok tie p of
       None \<Rightarrow> Panic
     | Some ids \<Rightarrow> res_bind (encode_pieces tok tie ps) (\<lambda>rest. Ok (ids @ rest)))"

fun encode_fragments :: "BpeTokenizer \<Rightarrow> CharClass \<Rightarrow> (Bigram list \<Rightarrow> nat) \<Rightarrow> Fragment list
    \<Rightarrow> (nat list, TokenizerError) res" where
  "encode_fragments tok cl tie [] = Ok []"
| "encode_fragments tok cl tie (Raw seg # fs) =
     res_bind (encode_pieces tok tie (qwen2_fragments cl seg)) (\<lambda>ids.
     res_bind (encode_fragments tok cl tie fs) (\<lambda>rest. Ok (ids @ rest)))"
| "encode_fragments tok cl tie (Token i # fs) =
     res_bind (encode_fragments tok cl tie fs) (\<lambda>rest. Ok (i # rest))"

definition active_specials :: "BpeTokenizer \<Rightarrow> bool \<Rightarrow> nat list" where
  "active_specials tok parse_special =
     (if parse_special then specials tok else filter (\<lambda>i. types tok ! i = TYPE_USER_DEFINED) (specials tok))"

definition encode :: "BpeTokenizer \<Rightarrow> CharClass \<Rightarrow> (Bigram list \<Rightarrow> nat) \<Rightarrow> str \<Rightarrow> bool
    \<Rightarrow> (nat list, TokenizerError) res" where
  "encode tok cl tie s parse_special =
     res_bind (if add_bos tok then res_bind (ok_or (MissingSpecial ''bos'') (tok_bos tok)) (\<lambda>i. Ok [i]) else Ok []) (\<lambda>bos.
     res_bind (if s = [] then Ok [] else
        res_bind (partition_special s (active_specials tok parse_special) (pieces tok)) (encode_fragments tok cl tie)) (\<lambda>ids.
     res_bind (if add_eos tok then res_bind (ok_or (MissingSpecial ''eos'') (tok_eos tok)) (\<lambda>i. Ok [i]) else Ok []) (\<lambda>eos.
     Ok (bos @ ids @ eos))))"

section \<open>Decoding\<close>

definition hex_digit :: "nat \<Rightarrow> u8" where
  "hex_digit n = (if n < 10 then 0x30 + of_nat n else 0x61 + of_nat (n - 10))"

text \<open>\<^verbatim>\<open>{b:02x}\<close>\<close>

definition hex_byte :: "u8 \<Rightarrow> str" where
  "hex_byte b = [hex_digit (unat b div 16), hex_digit (unat b mod 16)]"

definition decode_normal_piece :: "str \<Rightarrow> u8 list" where
  "decode_normal_piece piece = concat (map (\<lambda>c. case unicode_to_byte c of
       Some b \<Rightarrow> [b]
     | None \<Rightarrow> ascii ''[UNK_BYTE_0x'' @ concat (map hex_byte c) @ piece @ ascii '']'') (chars piece))"

definition hex_value :: "u8 \<Rightarrow> nat option" where
  "hex_value b = (if 0x30 \<le> b \<and> b \<le> 0x39 then Some (unat (b - 0x30))
     else if 0x61 \<le> b \<and> b \<le> 0x66 then Some (unat (b - 0x61) + 10)
     else if 0x41 \<le> b \<and> b \<le> 0x46 then Some (unat (b - 0x41) + 10) else None)"

text \<open>\<^verbatim>\<open>u8::from_str_radix(s, 16)\<close> on two characters, of which the first may be a plus sign.\<close>

definition radix_two :: "u8 \<Rightarrow> u8 \<Rightarrow> u8 option" where
  "radix_two a b =
     (if a = 0x2B then map_option of_nat (hex_value b)
      else case (hex_value a, hex_value b) of
        (Some x, Some y) \<Rightarrow> Some (of_nat (16 * x + y))
      | _ \<Rightarrow> None)"

definition byte_from_hex_piece :: "str \<Rightarrow> u8" where
  "byte_from_hex_piece piece =
     (if 5 \<le> length piece \<and> take 3 piece = ascii ''<0x'' \<and> last piece = 0x3E then
        (case drop 3 (butlast piece) of
           [a, b] \<Rightarrow> (case radix_two a b of Some v \<Rightarrow> v | None \<Rightarrow> 0)
         | _ \<Rightarrow> 0)
      else 0)"

definition piece_bytes :: "BpeTokenizer \<Rightarrow> nat \<Rightarrow> bool \<Rightarrow> u8 list option" where
  "piece_bytes tok i special =
     (if length (pieces tok) \<le> i then None
      else let piece = pieces tok ! i; t = (if i < length (types tok) then types tok ! i else TYPE_NORMAL) in
        if t = TYPE_CONTROL \<or> t = TYPE_UNKNOWN then Some (if special then piece else [])
        else if t = TYPE_USER_DEFINED then Some piece
        else if t = TYPE_NORMAL then Some (decode_normal_piece piece)
        else if t = TYPE_BYTE then Some [byte_from_hex_piece piece]
        else Some [])"

text \<open>The loop of \<^verbatim>\<open>decode_all\<close>, for any table of piece bytes.\<close>

definition decode_ids :: "(nat \<Rightarrow> u8 list option) \<Rightarrow> nat list \<Rightarrow> str" where
  "decode_ids bytes ids = fst (dec_flush (fold (\<lambda>i d. dec_push
     (case bytes i of Some bs \<Rightarrow> bs | None \<Rightarrow> ascii ''[UNK]'') d) ids dec_new))"

definition decode_all :: "BpeTokenizer \<Rightarrow> nat list \<Rightarrow> str" where
  "decode_all tok ids = decode_ids (\<lambda>i. piece_bytes tok i False) ids"

section \<open>Construction\<close>

text \<open>What \<open>from_parts\<close> builds.\<close>

lemma from_parts_fields:
  assumes "from_parts ps ts ms bos eos unk ab ae = Ok tok"
  shows "pieces tok = ps" "types tok = ts" "text_to_id tok = text_ids ps"
    "byte_to_id tok = (\<lambda>b. text_ids ps (byte_to_unicode b))" "special_ids ps ts = Ok (specials tok)"
    "tok_bos tok = bos" "tok_eos tok = eos" "add_bos tok = ab" "add_eos tok = ae" "tok_unk tok = unk"
    "add_merges (text_ids ps) 0 ms Map.empty Map.empty = Ok (by_id tok, by_text tok)"
  using assms by (auto simp: from_parts_def Let_def)

lemma special_ids_props:
  assumes "special_ids ps ts = Ok sp" "length ts \<le> 2 ^ 32"
  shows "set sp = {i. i < length ts \<and> ts ! i \<in> {TYPE_CONTROL, TYPE_USER_DEFINED, TYPE_UNKNOWN}}"
    "sorted_wrt (\<lambda>i j. length (ps ! j) < length (ps ! i) \<or> (length (ps ! j) = length (ps ! i) \<and> i \<le> j)) sp"
proof -
  have sp: "sp = sort_key (\<lambda>i. (- int (length (ps ! i)), i)) (map (\<lambda>(i, t). as_u32 i)
      (filter (\<lambda>(i, t). t \<in> {TYPE_CONTROL, TYPE_USER_DEFINED, TYPE_UNKNOWN}) (List.enumerate 0 ts)))"
    using assms(1) by (auto simp: special_ids_def Let_def split: if_splits)
  have small: "as_u32 i = i" if "i < length ts" for i
    using that assms(2) by (simp add: as_u32_def)
  show "set sp = {i. i < length ts \<and> ts ! i \<in> {TYPE_CONTROL, TYPE_USER_DEFINED, TYPE_UNKNOWN}}"
    unfolding sp using small by (auto simp: in_set_enumerate_eq image_iff) (metis small)+
  have "sorted (map (\<lambda>i. (- int (length (ps ! i)), i)) sp)" unfolding sp by (rule sorted_sort_key)
  then show "sorted_wrt (\<lambda>i j. length (ps ! j) < length (ps ! i) \<or> (length (ps ! j) = length (ps ! i) \<and> i \<le> j)) sp"
    by (auto simp: sorted_wrt_map less_eq_prod_def elim!: sorted_wrt_mono_rel [rotated])
qed

lemma text_ids_Some:
  assumes "text_ids ps t = Some i" "length ps \<le> 2 ^ 32" shows "i < length ps \<and> ps ! i = t"
proof -
  have "(t, i) \<in> set (rev (map (\<lambda>(i, p). (p, as_u32 i)) (List.enumerate 0 ps)))"
    using assms(1) unfolding text_ids_def by (rule map_of_SomeD)
  then show ?thesis using assms(2) by (auto simp: in_set_enumerate_eq as_u32_def)
qed

section \<open>Decoding what was merged\<close>

lemma decode_ids_lossy:
  "decode_ids f ids = lossy (concat (map (\<lambda>i. case f i of Some bs \<Rightarrow> bs | None \<Rightarrow> ascii ''[UNK]'') ids))"
proof -
  have "pending (fold (\<lambda>i. dec_push (g i)) ids d) = pending d @ concat (map g ids)" for g d
    by (induction ids arbitrary: d) (simp_all add: dec_push_def)
  then show ?thesis by (simp add: decode_ids_def dec_flush_lossy dec_new_def)
qed

definition alphabet_text :: "str \<Rightarrow> bool" where
  "alphabet_text t \<longleftrightarrow> (\<exists>bs. t = concat (map byte_to_unicode bs))"

lemma decode_encoded: "decode_normal_piece (concat (map byte_to_unicode bs)) = bs"
proof -
  have "concat (map (\<lambda>c. case unicode_to_byte c of Some b \<Rightarrow> [b] | None \<Rightarrow> e c) (map byte_to_unicode bs)) = bs" for e
    by (induction bs) simp_all
  then show ?thesis unfolding decode_normal_piece_def chars_encoded .
qed

lemma decode_parts:
  assumes "\<forall>p\<in>set ps. alphabet_text p"
  shows "concat (map decode_normal_piece ps) = decode_normal_piece (concat ps)"
proof -
  have "\<exists>bss. ps = map (\<lambda>bs. concat (map byte_to_unicode bs)) bss"
    using assms by (induction ps) (auto simp: alphabet_text_def Cons_eq_map_conv)
  then obtain bss where ps: "ps = map (\<lambda>bs. concat (map byte_to_unicode bs)) bss" ..
  have "concat ps = concat (map byte_to_unicode (concat bss))" unfolding ps by (induction bss) simp_all
  moreover have "concat (map decode_normal_piece ps) = concat bss" unfolding ps by (simp add: comp_def decode_encoded)
  ultimately show ?thesis by (simp only: decode_encoded)
qed

lemma concat_merge_at: "Suc j < length ps \<Longrightarrow> concat (merge_at j ps) = concat ps"
proof -
  assume j: "Suc j < length ps"
  have "ps = take j ps @ ps ! j # ps ! Suc j # drop (Suc (Suc j)) ps"
    using j by (simp add: Cons_nth_drop_Suc id_take_nth_drop [symmetric])
  then have "concat ps = concat (take j ps) @ ps ! j @ ps ! Suc j @ concat (drop (Suc (Suc j)) ps)"
    by (metis concat.simps(2) concat_append)
  then show ?thesis by (simp add: merge_at_def)
qed

text \<open>Merging keeps the text and every property of the parts that the rules keep.\<close>

lemma merge_all_keeps:
  assumes "\<forall>p\<in>set ps. P p" "\<And>l r. rank l r \<noteq> None \<Longrightarrow> P l \<Longrightarrow> P r \<Longrightarrow> P (l @ r)"
  shows "(\<forall>p\<in>set (merge_all rank ps). P p) \<and> concat (merge_all rank ps) = concat ps"
  using assms(1)
proof (induction "length ps" arbitrary: ps rule: less_induct)
  case less
  show ?case
  proof (cases "candidates rank ps = []")
    case False
    obtain r j where rj: "Min (set (candidates rank ps)) = (r, j)" by (meson surj_pair)
    have "(r, j) \<in> set (candidates rank ps)" unfolding rj [symmetric] by (rule Min_in) (use False in auto)
    then have j: "Suc j < length ps" "rank (ps ! j) (ps ! Suc j) \<noteq> None" by (auto simp: candidates_iff)
    have "\<forall>p\<in>set (merge_at j ps). P p"
      using less.prems assms(2) [OF j(2)] j(1) by (auto simp: merge_at_def dest: in_set_takeD in_set_dropD)
    moreover have "length (merge_at j ps) < length ps" using j(1) by (simp add: merge_at_def)
    moreover have "merge_all rank ps = merge_all rank (merge_at j ps)"
      using False rj by (simp add: merge_all.simps [of rank ps])
    ultimately show ?thesis using less.hyps concat_merge_at [OF j(1)] by simp
  qed (use less in \<open>simp add: merge_all.simps\<close>)
qed

section \<open>The round trip\<close>

text \<open>A vocabulary with an ordinary piece for every byte and for the product of every merge rule.\<close>

definition normal_text :: "BpeTokenizer \<Rightarrow> str \<Rightarrow> bool" where
  "normal_text tok t \<longleftrightarrow> (\<exists>i. text_to_id tok t = Some i \<and> types tok ! i = TYPE_NORMAL)"

definition silent :: "BpeTokenizer \<Rightarrow> bool \<Rightarrow> nat option \<Rightarrow> bool" where
  "silent tok on i \<longleftrightarrow> (on \<longrightarrow> (\<exists>k. i = Some k \<and> piece_bytes tok k False = Some []))"

definition complete_vocab :: "BpeTokenizer \<Rightarrow> bool" where
  "complete_vocab tok \<longleftrightarrow> (\<forall>b. normal_text tok (byte_to_unicode b))
     \<and> (\<forall>l r. pair_rank tok l r \<noteq> None \<longrightarrow> normal_text tok (l @ r))
     \<and> silent tok (add_bos tok) (tok_bos tok) \<and> silent tok (add_eos tok) (tok_eos tok)"

text \<open>The pieces are well-formed text and the tables fit in 32 bits.\<close>

definition tables_ok :: "str list \<Rightarrow> nat list \<Rightarrow> bool" where
  "tables_ok ps ts \<longleftrightarrow> (\<forall>p\<in>set ps. utf8_valid p) \<and> length ts = length ps \<and> length ps \<le> 2 ^ 32"

definition output_bytes :: "BpeTokenizer \<Rightarrow> nat list \<Rightarrow> u8 list" where
  "output_bytes tok ids = concat (map (\<lambda>i. case piece_bytes tok i False of Some bs \<Rightarrow> bs | None \<Rightarrow> ascii ''[UNK]'') ids)"

lemma output_bytes_simps [simp]: "output_bytes tok [] = []"
  "output_bytes tok (xs @ ys) = output_bytes tok xs @ output_bytes tok ys"
  by (simp_all add: output_bytes_def)

lemma decode_all_bytes: "decode_all tok ids = lossy (output_bytes tok ids)"
  by (simp only: decode_all_def decode_ids_lossy output_bytes_def)

lemma output_bytes_Cons: "output_bytes tok (i # ys) = output_bytes tok [i] @ output_bytes tok ys"
  by (simp add: output_bytes_def)

lemma word_bytes:
  assumes built: "from_parts ps ts ms bos eos unk ab ae = Ok tok" and ok: "tables_ok ps ts" and v: "complete_vocab tok"
  shows "output_bytes tok (encode_word_spec tok word) = word"
proof -
  note f = from_parts_fields [OF built]
  let ?parts = "merge_all (pair_rank tok) (map byte_to_unicode word)"
  have "(\<forall>p\<in>set ?parts. alphabet_text p \<and> normal_text tok p) \<and> concat ?parts = concat (map byte_to_unicode word)"
  proof (rule merge_all_keeps)
    have "alphabet_text (byte_to_unicode b)" for b
      unfolding alphabet_text_def by (rule exI [of _ "[b]"]) simp
    then show "\<forall>p\<in>set (map byte_to_unicode word). alphabet_text p \<and> normal_text tok p"
      using v by (auto simp: complete_vocab_def)
    show "alphabet_text (l @ r) \<and> normal_text tok (l @ r)"
      if "pair_rank tok l r \<noteq> None" "alphabet_text l \<and> normal_text tok l" "alphabet_text r \<and> normal_text tok r" for l r
      using that v unfolding complete_vocab_def alphabet_text_def by (metis concat_append map_append)
  qed
  then have parts: "\<forall>p\<in>set ?parts. alphabet_text p" "\<forall>p\<in>set ?parts. normal_text tok p"
    "concat ?parts = concat (map byte_to_unicode word)" by auto
  have "output_bytes tok (symbol_tokens tok p) = decode_normal_piece p" if "normal_text tok p" for p
  proof -
    obtain i where i: "text_to_id tok p = Some i" "types tok ! i = TYPE_NORMAL" using \<open>normal_text tok p\<close> by (auto simp: normal_text_def)
    then have "i < length ps \<and> ps ! i = p" using text_ids_Some ok f(3) by (simp add: tables_ok_def)
    then show ?thesis using i ok f(1,2) by (simp add: symbol_tokens_def output_bytes_def piece_bytes_def tables_ok_def Let_def)
  qed
  then have "output_bytes tok (concat (map (symbol_tokens tok) qs)) = concat (map decode_normal_piece qs)"
    if "\<forall>p\<in>set qs. normal_text tok p" for qs
    using that by (induction qs) simp_all
  then have "output_bytes tok (encode_word_spec tok word) = decode_normal_piece (concat ?parts)"
    using parts(1,2) decode_parts by (simp add: encode_word_spec_def)
  then show ?thesis by (simp add: parts(3) decode_encoded)
qed

lemma encode_roundtrip_lemma:
  assumes built: "from_parts ps ts ms bos eos unk ab ae = Ok tok" and ok: "tables_ok ps ts" and v: "complete_vocab tok"
    and s: "utf8_valid s"
  shows "\<exists>ids. encode tok cl tie s False = Ok ids \<and> decode_all tok ids = s"
proof -
  note f = from_parts_fields [OF built]
  let ?sp = "active_specials tok False"
  have sp: "\<forall>i\<in>set ?sp. i < length ps \<and> types tok ! i = TYPE_USER_DEFINED"
    using special_ids_props(1) [OF f(5)] ok f(2) by (auto simp: active_specials_def tables_ok_def)
  have pieces_ok: "\<exists>ids. encode_pieces tok tie qs = Ok ids \<and> output_bytes tok ids = concat qs" for qs
  proof (induction qs)
    case (Cons q qs)
    then show ?case using word_bytes [OF built ok v, of q] by (auto simp: encode_word_refines)
  qed simp
  have frags_ok: "\<exists>ids. encode_fragments tok cl tie fs = Ok ids \<and> output_bytes tok ids = concat (map (fragment_text ps) fs)"
    if "\<forall>x\<in>set fs. fragment_ok ?sp x" for fs
    using that
  proof (induction fs)
    case (Cons x fs)
    show ?case
    proof (cases x)
      case (Raw seg)
      then show ?thesis
        using Cons pieces_ok [of "qwen2_fragments cl seg"] qwen2_fragments_concat [of cl seg] by auto
    next
      case (Token i)
      then have "i < length ps" "types tok ! i = TYPE_USER_DEFINED" using sp Cons.prems by auto
      then have "output_bytes tok [i] = ps ! i"
        using f(1,2) ok by (simp add: output_bytes_def piece_bytes_def tables_ok_def Let_def)
      then have "output_bytes tok (i # rest) = ps ! i @ output_bytes tok rest" for rest
        by (subst output_bytes_Cons) simp
      then show ?thesis using Cons Token by auto
    qed
  qed simp
  obtain fs where fs: "partition_special s ?sp ps = Ok fs" "concat (map (fragment_text ps) fs) = s"
    "\<forall>x\<in>set fs. fragment_ok ?sp x"
    using partition_total [of ps ?sp s] sp ok s by (auto simp: tables_ok_def)
  obtain ids where ids: "encode_fragments tok cl tie fs = Ok ids" "output_bytes tok ids = s"
    using frags_ok [OF fs(3)] fs(2) by auto
  have special: "\<exists>b. (if on then res_bind (ok_or e i) (\<lambda>k. Ok [k]) else Ok []) = Ok b \<and> output_bytes tok b = []"
    if "silent tok on i" for on i and e :: TokenizerError
    using that by (auto simp: silent_def output_bytes_def)
  obtain b e where be: "(if add_bos tok then res_bind (ok_or (MissingSpecial ''bos'') (tok_bos tok)) (\<lambda>i. Ok [i]) else Ok []) = Ok b"
    "(if add_eos tok then res_bind (ok_or (MissingSpecial ''eos'') (tok_eos tok)) (\<lambda>i. Ok [i]) else Ok []) = Ok e"
    "output_bytes tok b = []" "output_bytes tok e = []"
  proof -
    have "silent tok (add_bos tok) (tok_bos tok)" "silent tok (add_eos tok) (tok_eos tok)"
      using v by (simp_all add: complete_vocab_def)
    from special [OF this(1), of "MissingSpecial ''bos''"] special [OF this(2), of "MissingSpecial ''eos''"]
    show thesis using that by blast
  qed
  have "encode tok cl tie s False = Ok (b @ (if s = [] then [] else ids) @ e)"
    unfolding encode_def be(1,2) by (simp add: fs(1) ids(1) f(1))
  moreover have "decode_all tok (b @ (if s = [] then [] else ids) @ e) = lossy s"
    unfolding decode_all_bytes using ids(2) be(3,4) by (cases "s = []") simp_all
  ultimately show ?thesis using lossy_of_valid [OF s] by auto
qed

end
