(* ===== verification/Tok_Spm.thy ===== *)
theory Tok_Spm
  imports Tok_Encode
begin

unbundle bit_operations_syntax

text \<open>
  The SentencePiece container and tokenizer (\<^verbatim>\<open>crates/tokenizer/src/spm.rs\<close>) and the dispatch over
  the two tokenizers (\<^verbatim>\<open>crates/tokenizer/src/tokenizer.rs\<close>).
\<close>

section \<open>Wire format\<close>

type_synonym 'a wire = "('a \<times> nat, TokenizerError) res"

text \<open>The remaining passes of the loop over ten bytes, the number of the pass and the position.\<close>

fun varint_loop :: "u8 list \<Rightarrow> nat \<Rightarrow> nat \<Rightarrow> nat \<Rightarrow> 64 word \<Rightarrow> 64 word wire" where
  "varint_loop bytes 0 i pos v = Err (CorruptSpm ''varint too long'')"
| "varint_loop bytes (Suc n) i pos v =
     (if length bytes \<le> pos then Err (CorruptSpm ''varint truncated'')
      else let b = bytes ! pos; pos = pos + 1 in
        if i = 9 \<and> b AND 0xFE \<noteq> 0 then Err (CorruptSpm ''varint overflow'')
        else let v = v OR push_bit (7 * i) (ucast (b AND 0x7F)) in
          if b AND 0x80 = 0 then Ok (v, pos) else varint_loop bytes n (i + 1) pos v)"

definition read_varint :: "u8 list \<Rightarrow> nat \<Rightarrow> 64 word wire" where
  "read_varint bytes pos = varint_loop bytes 10 0 pos 0"

definition read_key :: "u8 list \<Rightarrow> nat \<Rightarrow> (nat \<times> nat) wire" where
  "read_key bytes pos = res_bind (read_varint bytes pos) (\<lambda>(key, pos).
     Ok ((as_u32 (unat (drop_bit 3 key)), as_u32 (unat (key AND 7))), pos))"

text \<open>\<^verbatim>\<open>pos.checked_add(len).filter(|&e| e <= bytes.len())\<close>\<close>

definition end_of :: "string \<Rightarrow> u8 list \<Rightarrow> nat \<Rightarrow> nat \<Rightarrow> (nat, TokenizerError) res" where
  "end_of why bytes pos len =
     (if 2 ^ 64 \<le> pos + len \<or> length bytes < pos + len then Err (CorruptSpm why) else Ok (pos + len))"

definition skip :: "u8 list \<Rightarrow> nat \<Rightarrow> nat \<Rightarrow> (nat, TokenizerError) res" where
  "skip bytes pos len = end_of ''field truncated'' bytes pos len"

text \<open>The arms that skip a field by its wire type, the same in both loops.\<close>

definition skip_field :: "u8 list \<Rightarrow> nat \<Rightarrow> nat \<Rightarrow> (nat, TokenizerError) res" where
  "skip_field bytes pos wire =
     (if wire = 0 then res_bind (read_varint bytes pos) (\<lambda>(v, pos). Ok pos)
      else if wire = 1 then skip bytes pos 8
      else if wire = 2 then res_bind (read_varint bytes pos) (\<lambda>(len, pos). skip bytes pos (unat len))
      else if wire = 5 then skip bytes pos 4
      else Err (CorruptSpm ''unknown wire type''))"

lemma varint_loop_pos: "varint_loop bytes n i pos v = Ok (w, pos') \<Longrightarrow> pos < pos' \<and> pos' \<le> length bytes"
proof (induction bytes n i pos v rule: varint_loop.induct)
  case (2 bytes n i pos v)
  then show ?case by (fastforce simp: Let_def split: if_splits)
qed simp

lemma read_varint_pos: "read_varint bytes pos = Ok (w, pos') \<Longrightarrow> pos < pos' \<and> pos' \<le> length bytes"
  unfolding read_varint_def by (rule varint_loop_pos)

lemma read_key_pos: "read_key bytes pos = Ok (k, pos') \<Longrightarrow> pos < pos' \<and> pos' \<le> length bytes"
  by (auto simp: read_key_def dest: read_varint_pos)

lemma end_of_pos: "end_of why bytes pos len = Ok e \<Longrightarrow> e = pos + len \<and> e \<le> length bytes"
  by (auto simp: end_of_def split: if_splits)

lemma skip_field_pos: "skip_field bytes pos w = Ok e \<Longrightarrow> pos \<le> e"
  by (auto simp: skip_field_def skip_def dest!: end_of_pos read_varint_pos split: if_splits)

section \<open>Pieces\<close>

text \<open>One pass of the loop of \<^verbatim>\<open>parse_sentence_piece\<close>.\<close>

definition sentence_field :: "u8 list \<Rightarrow> nat \<Rightarrow> str \<times> nat \<Rightarrow> (str \<times> nat) wire" where
  "sentence_field bytes pos = (\<lambda>(piece, kind).
     res_bind (read_key bytes pos) (\<lambda>((field, wire), pos).
       if (field, wire) = (1, 2) then
         res_bind (read_varint bytes pos) (\<lambda>(len, pos).
         res_bind (end_of ''piece truncated'' bytes pos (unat len)) (\<lambda>e.
         let raw = take (e - pos) (drop pos bytes) in
         if utf8_valid raw then Ok ((raw, kind), e) else Err (CorruptSpm ''piece not UTF-8'')))
       else if (field, wire) = (2, 5) then res_bind (skip bytes pos 4) (\<lambda>e. Ok ((piece, kind), e))
       else if (field, wire) = (3, 0) then
         res_bind (read_varint bytes pos) (\<lambda>(v, e). Ok ((piece, as_u32 (unat v)), e))
       else res_bind (skip_field bytes pos wire) (\<lambda>e. Ok ((piece, kind), e))))"

lemma sentence_field_pos: "sentence_field bytes pos st = Ok (st', e) \<Longrightarrow> pos < e"
  by (auto simp: sentence_field_def skip_def Let_def split: if_splits prod.splits
      dest!: read_key_pos read_varint_pos end_of_pos skip_field_pos)

function sentence_loop :: "u8 list \<Rightarrow> nat \<Rightarrow> str \<times> nat \<Rightarrow> (str \<times> nat, TokenizerError) res" where
  "sentence_loop bytes pos st =
     (if length bytes \<le> pos then Ok st
      else case sentence_field bytes pos st of
        Ok (st', e) \<Rightarrow> sentence_loop bytes e st'
      | Err x \<Rightarrow> Err x | Panic \<Rightarrow> Panic)"
  by pat_completeness auto
termination
  by (relation "measure (\<lambda>(bytes, pos, st). length bytes - pos)") (auto dest: sentence_field_pos)

declare sentence_loop.simps [simp del]

lemma sentence_loop_step:
  "pos < length bytes \<Longrightarrow> sentence_field bytes pos st = Ok (st', e) \<Longrightarrow> sentence_loop bytes pos st = sentence_loop bytes e st'"
  by (simp add: sentence_loop.simps [of bytes pos st])

definition parse_sentence_piece :: "u8 list \<Rightarrow> (str \<times> nat, TokenizerError) res" where
  "parse_sentence_piece bytes = sentence_loop bytes 0 ([], TYPE_NORMAL)"

text \<open>One pass of the loop of \<^verbatim>\<open>parse_model_proto\<close>.\<close>

definition proto_field :: "u8 list \<Rightarrow> nat \<Rightarrow> (str \<times> nat) list \<Rightarrow> (str \<times> nat) list wire" where
  "proto_field bytes pos ps =
     res_bind (read_key bytes pos) (\<lambda>((field, wire), pos).
       if (field, wire) = (1, 2) then
         res_bind (read_varint bytes pos) (\<lambda>(len, pos).
         res_bind (end_of ''SentencePiece truncated'' bytes pos (unat len)) (\<lambda>e.
         res_bind (parse_sentence_piece (take (e - pos) (drop pos bytes))) (\<lambda>sp.
         Ok (ps @ [sp], e))))
       else res_bind (skip_field bytes pos wire) (\<lambda>e. Ok (ps, e)))"

lemma proto_field_pos: "proto_field bytes pos st = Ok (st', e) \<Longrightarrow> pos < e"
  by (auto simp: proto_field_def split: if_splits prod.splits
      dest!: read_key_pos read_varint_pos end_of_pos skip_field_pos)

function proto_loop :: "u8 list \<Rightarrow> nat \<Rightarrow> (str \<times> nat) list \<Rightarrow> ((str \<times> nat) list, TokenizerError) res" where
  "proto_loop bytes pos ps =
     (if length bytes \<le> pos then Ok ps
      else case proto_field bytes pos ps of
        Ok (ps', e) \<Rightarrow> proto_loop bytes e ps'
      | Err x \<Rightarrow> Err x | Panic \<Rightarrow> Panic)"
  by pat_completeness auto
termination
  by (relation "measure (\<lambda>(bytes, pos, ps). length bytes - pos)") (auto dest: proto_field_pos)

declare proto_loop.simps [simp del]

lemma proto_loop_step:
  "pos < length bytes \<Longrightarrow> proto_field bytes pos ps = Ok (ps', e) \<Longrightarrow> proto_loop bytes pos ps = proto_loop bytes e ps'"
  by (simp add: proto_loop.simps [of bytes pos ps])

definition parse_model_proto :: "u8 list \<Rightarrow> ((str \<times> nat) list, TokenizerError) res" where
  "parse_model_proto bytes = res_bind (proto_loop bytes 0 [])
     (\<lambda>ps. if ps = [] then Err (CorruptSpm ''empty vocab'') else Ok ps)"

section \<open>The tokenizer\<close>

record SpmTokenizer =
  sp_pieces :: "str list"
  sp_types :: "nat list"
  sp_unk :: "nat option"
  sp_bos :: "nat option"
  sp_eos :: "nat option"
  sp_add_bos :: bool

definition spm_from_meta :: "ModelMeta \<Rightarrow> (SpmTokenizer, TokenizerError) res" where
  "spm_from_meta meta =
     res_bind (required_strings meta (ascii ''tokenizer.ggml.tokens'')) (\<lambda>ps.
     res_bind (token_types meta ps) (\<lambda>ts.
     res_bind (meta_special_id meta (ascii ''tokenizer.ggml.bos_token_id'') (ascii ''<s>'') ps) (\<lambda>bos.
     res_bind (meta_special_id meta (ascii ''tokenizer.ggml.eos_token_id'') (ascii ''</s>'') ps) (\<lambda>eos.
     res_bind (meta_special_id meta (ascii ''tokenizer.ggml.unknown_token_id'') (ascii ''<unk>'') ps) (\<lambda>unk.
     res_bind (meta_bool meta (ascii ''tokenizer.ggml.add_bos_token'') True) (\<lambda>ab.
     Ok \<lparr>sp_pieces = ps, sp_types = ts, sp_unk = unk, sp_bos = bos, sp_eos = eos, sp_add_bos = ab\<rparr>))))))"

definition from_container :: "(str \<times> nat) list \<Rightarrow> SpmTokenizer" where
  "from_container c = (let ps = map fst c in
     \<lparr>sp_pieces = ps, sp_types = map snd c, sp_unk = position_id (ascii ''<unk>'') ps,
      sp_bos = position_id (ascii ''<s>'') ps, sp_eos = position_id (ascii ''</s>'') ps, sp_add_bos = True\<rparr>)"

text \<open>\<^verbatim>\<open>piece.replace('\u{2581}', " ")\<close>\<close>

definition replace_lower_block :: "str \<Rightarrow> str" where
  "replace_lower_block piece = concat (map (\<lambda>c. if c = [0xE2, 0x96, 0x81] then [0x20] else c) (chars piece))"

definition spm_piece_bytes :: "SpmTokenizer \<Rightarrow> nat \<Rightarrow> bool \<Rightarrow> u8 list option" where
  "spm_piece_bytes tok i special =
     (if length (sp_pieces tok) \<le> i then None
      else let piece = sp_pieces tok ! i; t = (if i < length (sp_types tok) then sp_types tok ! i else TYPE_NORMAL) in
        if t = TYPE_UNKNOWN \<or> t = TYPE_CONTROL then Some (if special then piece else [])
        else if t = TYPE_USER_DEFINED then Some piece
        else if t = TYPE_NORMAL then Some (replace_lower_block piece)
        else if t = TYPE_BYTE then Some [byte_from_hex_piece piece]
        else Some [])"

definition spm_decode_all :: "SpmTokenizer \<Rightarrow> nat list \<Rightarrow> str" where
  "spm_decode_all tok ids = decode_ids (\<lambda>i. spm_piece_bytes tok i False) ids"

section \<open>Dispatch\<close>

datatype Tokenizer = Bpe BpeTokenizer | Spm SpmTokenizer

definition from_meta :: "ModelMeta \<Rightarrow> (Tokenizer, TokenizerError) res" where
  "from_meta meta = res_bind (required_model meta) (\<lambda>model.
     if model = ascii ''gpt2'' then res_bind (bpe_from_meta meta) (\<lambda>t. Ok (Bpe t))
     else if model = ascii ''sentencepiece'' then res_bind (spm_from_meta meta) (\<lambda>t. Ok (Spm t))
     else Err (UnsupportedModel model))"

definition from_spm_proto :: "u8 list \<Rightarrow> (Tokenizer, TokenizerError) res" where
  "from_spm_proto bytes = res_bind (parse_model_proto bytes) (\<lambda>c. Ok (Spm (from_container c)))"

fun tok_encode :: "Tokenizer \<Rightarrow> CharClass \<Rightarrow> (Bigram list \<Rightarrow> nat) \<Rightarrow> str \<Rightarrow> bool \<Rightarrow> (nat list, TokenizerError) res" where
  "tok_encode (Bpe b) cl tie s parse_special = encode b cl tie s parse_special"
| "tok_encode (Spm sp) cl tie s parse_special = Err SpmEncodeUnimplemented"

fun tok_decode_all :: "Tokenizer \<Rightarrow> nat list \<Rightarrow> str" where
  "tok_decode_all (Bpe b) ids = decode_all b ids"
| "tok_decode_all (Spm sp) ids = spm_decode_all sp ids"

fun unmatched_token :: "Tokenizer \<Rightarrow> nat option" where
  "unmatched_token (Bpe b) = tok_unk b"
| "unmatched_token (Spm sp) = sp_unk sp"

fun bos_token :: "Tokenizer \<Rightarrow> nat option" where
  "bos_token (Bpe b) = tok_bos b"
| "bos_token (Spm sp) = sp_bos sp"

fun eos_token :: "Tokenizer \<Rightarrow> nat option" where
  "eos_token (Bpe b) = tok_eos b"
| "eos_token (Spm sp) = sp_eos sp"

fun tok_add_bos :: "Tokenizer \<Rightarrow> bool" where
  "tok_add_bos (Bpe b) = add_bos b"
| "tok_add_bos (Spm sp) = sp_add_bos sp"

fun vocab_size :: "Tokenizer \<Rightarrow> nat" where
  "vocab_size (Bpe b) = length (pieces b)"
| "vocab_size (Spm sp) = length (sp_pieces sp)"

section \<open>Writing a container\<close>

text \<open>LEB128, the inverse of \<open>read_varint\<close>.\<close>

function put_varint :: "nat \<Rightarrow> u8 list" where
  "put_varint n = (if n < 128 then [of_nat n] else of_nat (n mod 128 + 128) # put_varint (n div 128))"
  by pat_completeness auto
termination by (relation "measure id") auto

declare put_varint.simps [simp del]

text \<open>
  A message is a list of fields, each a number and a payload of one of the four wire types:
  a varint (0), eight bytes (1), length-delimited bytes (2), four bytes (5).
\<close>

datatype payload = Varint nat | Fixed64 "u8 list" | Delimited "u8 list" | Fixed32 "u8 list"

type_synonym field = "nat \<times> payload"

fun wire_type :: "payload \<Rightarrow> nat" where
  "wire_type (Varint n) = 0"
| "wire_type (Fixed64 b) = 1"
| "wire_type (Delimited b) = 2"
| "wire_type (Fixed32 b) = 5"

fun put_payload :: "payload \<Rightarrow> u8 list" where
  "put_payload (Varint n) = put_varint n"
| "put_payload (Fixed64 b) = b"
| "put_payload (Delimited b) = put_varint (length b) @ b"
| "put_payload (Fixed32 b) = b"

definition put_field :: "field \<Rightarrow> u8 list" where
  "put_field = (\<lambda>(n, p). put_varint (8 * n + wire_type p) @ put_payload p)"

definition put_message :: "field list \<Rightarrow> u8 list" where
  "put_message fs = concat (map put_field fs)"

fun payload_ok :: "payload \<Rightarrow> bool" where
  "payload_ok (Varint n) \<longleftrightarrow> n < 2 ^ 64"
| "payload_ok (Fixed64 b) \<longleftrightarrow> length b = 8"
| "payload_ok (Delimited b) \<longleftrightarrow> True"
| "payload_ok (Fixed32 b) \<longleftrightarrow> length b = 4"

text \<open>Field numbers have at most 29 bits, and fixed payloads their width.\<close>

definition field_ok :: "field \<Rightarrow> bool" where
  "field_ok = (\<lambda>(n, p). n < 2 ^ 29 \<and> payload_ok p)"

text \<open>
  What a \<^verbatim>\<open>SentencePiece\<close> message says: the last text (field 1) and the last type (field 3)
  count, absent ones have the default; the score (field 2, four bytes) and every other field do
  not matter.
\<close>

definition piece_texts :: "field list \<Rightarrow> str list" where
  "piece_texts fs = concat (map (\<lambda>(n, p). case p of Delimited b \<Rightarrow> if n = 1 then [b] else [] | _ \<Rightarrow> []) fs)"

definition piece_kinds :: "field list \<Rightarrow> nat list" where
  "piece_kinds fs = concat (map (\<lambda>(n, p). case p of Varint v \<Rightarrow> if n = 3 then [v] else [] | _ \<Rightarrow> []) fs)"

definition sentence_of :: "field list \<Rightarrow> str \<times> nat" where
  "sentence_of fs = (last ([] # piece_texts fs), last (TYPE_NORMAL # map as_u32 (piece_kinds fs)))"

definition sentence_ok :: "field list \<Rightarrow> bool" where
  "sentence_ok fs \<longleftrightarrow> (\<forall>f\<in>set fs. field_ok f) \<and> (\<forall>t\<in>set (piece_texts fs). utf8_valid t)"

text \<open>
  A \<^verbatim>\<open>ModelProto\<close>: pieces (field 1) among other fields (the trainer and normalizer
  specifications, say), in any order.
\<close>

datatype part = Piece "field list" | Other field

fun part_field :: "part \<Rightarrow> field" where
  "part_field (Piece fs) = (1, Delimited (put_message fs))"
| "part_field (Other f) = f"

fun part_ok :: "part \<Rightarrow> bool" where
  "part_ok (Piece fs) \<longleftrightarrow> sentence_ok fs"
| "part_ok (Other f) \<longleftrightarrow> field_ok f \<and> (fst f = 1 \<longrightarrow> wire_type (snd f) \<noteq> 2)"

definition put_container :: "part list \<Rightarrow> u8 list" where
  "put_container ps = put_message (map part_field ps)"

definition part_pieces :: "part list \<Rightarrow> (str \<times> nat) list" where
  "part_pieces ps = concat (map (\<lambda>p. case p of Piece fs \<Rightarrow> [sentence_of fs] | Other f \<Rightarrow> []) ps)"

section \<open>Reading what was written\<close>

lemma low_seven_bits: "m < 256 \<Longrightarrow> ucast ((of_nat m :: u8) AND 0x7F) = (of_nat (m mod 128) :: 64 word)"
proof -
  assume m: "m < 256"
  have mask: "(0x7F :: u8) = mask 7" by (simp add: mask_eq_exp_minus_1)
  have "unat ((of_nat m :: u8) AND 0x7F) = m mod 128"
    unfolding mask take_bit_eq_mask [symmetric] unsigned_take_bit_eq using m by (simp add: unat_of_nat take_bit_eq_mod)
  then show ?thesis by (metis of_nat_unat)
qed

lemma high_bit: "m < 256 \<Longrightarrow> (of_nat m :: u8) AND 0x80 = 0 \<longleftrightarrow> m < 128"
proof -
  assume m: "m < 256"
  have "(0x80 :: u8) = 2 ^ 7" by simp
  then have "(of_nat m :: u8) AND 0x80 = 0 \<longleftrightarrow> \<not> bit (of_nat m :: u8) 7" by (simp only: and_exp_eq_0_iff_not_bit)
  also have "\<dots> \<longleftrightarrow> even (m div 128)" 
    unfolding bit_of_nat_iff by (simp add: bit_iff_odd)
  also have "\<dots> \<longleftrightarrow> m < 128"
  proof (cases "m < 128")
    case False
    then have "m div 128 = 1" using m by (simp add: div_nat_eqI)
    then show ?thesis using False by simp
  qed simp
  finally show ?thesis .
qed

lemma split_seven: "(of_nat n :: 64 word) = of_nat (n mod 128) OR push_bit 7 (of_nat (n div 128))"
proof -
  have "n = take_bit 7 n OR push_bit 7 (drop_bit 7 n)" 
  proof (rule bit_eqI)
    fix k
    show "bit n k = bit (take_bit 7 n OR push_bit 7 (drop_bit 7 n)) k"
      by (cases "k < 7") (simp_all add: bit_simps not_less)
  qed
  then have "n = (n mod 128) OR push_bit 7 (n div 128)" by (simp add: take_bit_eq_mod drop_bit_eq_div)
  then have "(of_nat n :: 64 word) = of_nat ((n mod 128) OR push_bit 7 (n div 128))" by (rule arg_cong)
  then show ?thesis by (simp only: of_nat_or_eq push_bit_of_nat)
qed

lemma put_varint_nonempty [simp]: "put_varint n \<noteq> []"
  by (subst put_varint.simps) simp

lemma varint_loop_put:
  "i + k = 10 \<Longrightarrow> 0 < k \<Longrightarrow> n < 2 ^ (64 - 7 * i) \<Longrightarrow>
     varint_loop (pre @ put_varint n @ rest) k i (length pre) v
       = Ok (v OR push_bit (7 * i) (of_nat n), length pre + length (put_varint n))"
proof (induction n arbitrary: k i pre v rule: put_varint.induct)
  case (1 n)
  obtain k' where k: "k = Suc k'" using 1(3) by (cases k) auto
  show ?case
  proof (cases "n < 128")
    case True
    have "(of_nat n :: u8) AND 0xFE = 0" if "i = 9"
    proof -
      have "n < 2" using 1(4) that by simp
      then show ?thesis by (auto simp: less_2_cases_iff)
    qed
    then show ?thesis
      using True low_seven_bits [of n] high_bit [of n] by (simp add: k put_varint.simps [of n] nth_append Let_def)
  next
    case False
    have "i \<noteq> 9" using False 1(4) by auto
    have i: "i < 9"
    proof (rule ccontr)
      assume "\<not> i < 9"
      then have "i = 9" using 1(2,3) by simp
      then show False using \<open>i \<noteq> 9\<close> by simp
    qed
    have m: "n mod 128 + 128 < 256" by simp
    have less: "n div 128 < 2 ^ (64 - 7 * Suc i)"
    proof -
      define d where "d = 64 - 7 * Suc i"
      have "64 - 7 * i = d + 7" using i by (simp add: d_def)
      then have "n < 2 ^ (d + 7)" using 1(4) by simp
      then have "n < 2 ^ d * 128" by (simp only: power_add) simp
      then show ?thesis unfolding d_def [symmetric] by (rule less_mult_imp_div_less)
    qed
    have ih: "varint_loop ((pre @ [of_nat (n mod 128 + 128)]) @ put_varint (n div 128) @ rest) k' (Suc i)
        (length (pre @ [of_nat (n mod 128 + 128) :: u8])) (v OR push_bit (7 * i) (of_nat (n mod 128)))
      = Ok ((v OR push_bit (7 * i) (of_nat (n mod 128))) OR push_bit (7 * Suc i) (of_nat (n div 128)),
          length (pre @ [of_nat (n mod 128 + 128) :: u8]) + length (put_varint (n div 128)))"
      by (rule 1(1) [OF False]) (use 1(2) k i less in simp_all)
    have "push_bit (7 * i) (of_nat (n mod 128)) OR push_bit (7 * Suc i) (of_nat (n div 128)) = push_bit (7 * i) (of_nat n :: 64 word)"
      by (subst (3) split_seven) (simp add: push_bit_or add.commute)
    note bits = this
    define b where "b = (of_nat (n mod 128 + 128) :: u8)"
    have b: "b AND 0x80 \<noteq> 0" "ucast (b AND 0x7F) = (of_nat (n mod 128) :: 64 word)"
      using low_seven_bits [OF m] high_bit [OF m] by (simp_all add: b_def)
    have put: "put_varint n = b # put_varint (n div 128)" using False by (subst put_varint.simps) (simp add: b_def)
    have "varint_loop (pre @ (b # put_varint (n div 128)) @ rest) (Suc k') i (length pre) v
        = varint_loop ((pre @ [b]) @ put_varint (n div 128) @ rest) k' (Suc i) (length (pre @ [b]))
            (v OR push_bit (7 * i) (of_nat (n mod 128)))"
      using b \<open>i \<noteq> 9\<close> by (simp add: Let_def nth_append)
    also have "\<dots> = Ok (v OR push_bit (7 * i) (of_nat n), length pre + length (put_varint n))"
      unfolding b_def ih or.assoc bits by (simp add: put)
    finally show ?thesis by (simp only: k put)
  qed
qed

lemma read_varint_put:
  "n < 2 ^ 64 \<Longrightarrow> read_varint (pre @ put_varint n @ rest) (length pre) = Ok (of_nat n, length pre + length (put_varint n))"
  using varint_loop_put [of 0 10 n pre rest 0] by (simp add: read_varint_def)

text \<open>The key of a field.\<close>

lemma read_key_put:
  assumes "n < 2 ^ 29" "w < 8"
  shows "read_key (pre @ put_varint (8 * n + w) @ rest) (length pre)
    = Ok ((n, w), length pre + length (put_varint (8 * n + w)))"
proof -
  let ?k = "8 * n + w"
  have small: "?k < 2 ^ 64" using assms by simp
  have u: "unat (of_nat ?k :: 64 word) = ?k"
    using small unfolding unat_of_nat by simp
  have "unat (drop_bit 3 (of_nat ?k :: 64 word)) = n"
    unfolding unsigned_drop_bit_eq u using assms by (simp add: drop_bit_eq_div take_bit_nat_eq_self)
  moreover have "unat ((of_nat ?k :: 64 word) AND 7) = w"
  proof -
    have mask: "(7 :: 64 word) = mask 3" by (simp add: mask_eq_exp_minus_1)
    show ?thesis
      unfolding mask take_bit_eq_mask [symmetric] unsigned_take_bit_eq u using assms by (simp add: take_bit_eq_mod)
  qed
  ultimately show ?thesis
    using read_varint_put [OF small, of pre rest] assms by (simp add: read_key_def as_u32_def)
qed

lemma read_payload:
  assumes "length (pre @ put_varint (length b) @ b @ rest) < 2 ^ 64"
  shows "read_varint (pre @ put_varint (length b) @ b @ rest) (length pre)
      = Ok (of_nat (length b), length pre + length (put_varint (length b)))"
    "end_of why (pre @ put_varint (length b) @ b @ rest) (length pre + length (put_varint (length b))) (length b)
      = Ok (length pre + length (put_varint (length b)) + length b)"
    "take (length b) (drop (length pre + length (put_varint (length b))) (pre @ put_varint (length b) @ b @ rest)) = b"
    "unat (of_nat (length b) :: 64 word) = length b"
proof -
  have "length b < 2 ^ 64" using assms by simp
  then show "unat (of_nat (length b) :: 64 word) = length b" by (simp add: unat_of_nat)
  show "read_varint (pre @ put_varint (length b) @ b @ rest) (length pre)
      = Ok (of_nat (length b), length pre + length (put_varint (length b)))"
    using \<open>length b < 2 ^ 64\<close> by (rule read_varint_put)
  show "end_of why (pre @ put_varint (length b) @ b @ rest) (length pre + length (put_varint (length b))) (length b)
      = Ok (length pre + length (put_varint (length b)) + length b)"
    using assms by (simp add: end_of_def)
qed simp

text \<open>A payload of any wire type is skipped whole.\<close>

lemma skip_field_put:
  assumes "length (pre @ put_payload p @ rest) < 2 ^ 64" "payload_ok p"
  shows "skip_field (pre @ put_payload p @ rest) (length pre) (wire_type p)
    = Ok (length pre + length (put_payload p))"
proof (cases p)
  case (Varint n)
  then show ?thesis using read_varint_put [of n pre rest] assms by (simp add: skip_field_def)
next
  case (Delimited b)
  then show ?thesis
    using read_payload [of pre b rest] assms by (simp add: skip_field_def skip_def)
qed (use assms in \<open>simp_all add: skip_field_def skip_def end_of_def\<close>)

lemma skip_wire:
  "skip_field bytes pos 5 = skip bytes pos 4"
  "skip_field bytes pos 0 = res_bind (read_varint bytes pos) (\<lambda>(v, pos). Ok pos)"
  by (simp_all add: skip_field_def)

lemma wire_type_eq:
  "wire_type p = 2 \<longleftrightarrow> (\<exists>b. p = Delimited b)" "wire_type p = 5 \<longleftrightarrow> (\<exists>b. p = Fixed32 b)"
  "wire_type p = 0 \<longleftrightarrow> (\<exists>n. p = Varint n)" "wire_type p < 8"
  by (cases p; simp)+

fun sentence_upd :: "str \<times> nat \<Rightarrow> field \<Rightarrow> str \<times> nat" where
  "sentence_upd (t, k) (n, Delimited b) = (if n = 1 then b else t, k)"
| "sentence_upd (t, k) (n, Varint v) = (t, if n = 3 then as_u32 v else k)"
| "sentence_upd st f = st"

lemma sentence_of_foldl: "sentence_of fs = foldl sentence_upd ([], TYPE_NORMAL) fs"
proof (induction fs rule: rev_induct)
  case Nil
  then show ?case by (simp add: sentence_of_def piece_texts_def piece_kinds_def)
next
  case (snoc f fs)
  obtain n p where f: "f = (n, p)" by (cases f)
  show ?case
    unfolding foldl_append snoc [symmetric]
    by (cases p) (simp_all add: f sentence_of_def piece_texts_def piece_kinds_def)
qed

lemma sentence_field_put:
  assumes len: "length (pre @ put_field f @ rest) < 2 ^ 64" and ok: "field_ok f"
    and utf8: "\<forall>t\<in>set (piece_texts [f]). utf8_valid t"
  shows "sentence_field (pre @ put_field f @ rest) (length pre) st
    = Ok (sentence_upd st f, length (pre @ put_field f))"
proof -
  obtain n p where f: "f = (n, p)" by (cases f)
  obtain t k where st: "st = (t, k)" by (cases st)
  let ?key = "put_varint (8 * n + wire_type p)"
  let ?pre = "pre @ ?key"
  have bytes: "pre @ put_field f @ rest = ?pre @ put_payload p @ rest" by (simp add: f put_field_def)
  have key: "read_key (?pre @ put_payload p @ rest) (length pre) = Ok ((n, wire_type p), length ?pre)"
    using read_key_put [of n "wire_type p" pre "put_payload p @ rest"] ok wire_type_eq(4)
    by (simp add: f field_ok_def)
  have len': "length (?pre @ put_payload p @ rest) < 2 ^ 64" using len unfolding bytes .
  have pok: "payload_ok p" using ok by (simp add: f field_ok_def)
  note sk = skip_field_put [OF len' pok]
  have e: "length (pre @ put_field f) = length ?pre + length (put_payload p)" by (simp add: f put_field_def)
  consider (string) b where "p = Delimited b" "n = 1" | (kind) v where "p = Varint v" "n = 3"
    | (skipped) "\<not> (n = 1 \<and> wire_type p = 2)" "\<not> (n = 3 \<and> wire_type p = 0)"
    using wire_type_eq by blast
  then show ?thesis
  proof cases
    case string
    then have "utf8_valid b" using utf8 by (simp add: f piece_texts_def)
    then show ?thesis
      unfolding bytes e sentence_field_def st using key read_payload [of ?pre b rest] len' string
      by (simp add: f Let_def)
  next
    case kind
    then show ?thesis
      unfolding bytes e sentence_field_def st using key read_varint_put [of v ?pre rest] pok
      by (simp add: f Let_def unat_of_nat)
  next
    case skipped
    have upd: "sentence_upd st f = st" using skipped by (cases p) (simp_all add: f st)
    show ?thesis
      unfolding bytes e upd unfolding sentence_field_def st
      using key sk skipped by (auto simp: skip_wire [symmetric])
  qed
qed

lemma put_field_nonempty [simp]: "put_field f \<noteq> []"
  by (cases f) (simp add: put_field_def)

lemma put_message_simps [simp]:
  "put_message [] = []"
  "put_message (f # fs) = put_field f @ put_message fs"
  by (simp_all add: put_message_def)

lemma sentence_loop_put:
  "length (pre @ put_message fs) < 2 ^ 64 \<Longrightarrow> sentence_ok fs \<Longrightarrow>
     sentence_loop (pre @ put_message fs) (length pre) st = Ok (foldl sentence_upd st fs)"
proof (induction fs arbitrary: pre st)
  case Nil
  then show ?case by (subst sentence_loop.simps) simp
next
  case (Cons f fs)
  let ?bytes = "pre @ put_field f @ put_message fs"
  have "sentence_field ?bytes (length pre) st = Ok (sentence_upd st f, length (pre @ put_field f))"
    using Cons.prems by (intro sentence_field_put) (auto simp: sentence_ok_def piece_texts_def)
  moreover have "length pre < length ?bytes" by simp
  ultimately have "sentence_loop ?bytes (length pre) st
      = sentence_loop ((pre @ put_field f) @ put_message fs) (length (pre @ put_field f)) (sentence_upd st f)"
    using sentence_loop_step by simp
  also have "\<dots> = Ok (foldl sentence_upd (sentence_upd st f) fs)"
    using Cons.prems by (intro Cons.IH) (auto simp: sentence_ok_def piece_texts_def)
  finally show ?case by simp
qed

lemma parse_put_sentence:
  "length (put_message fs) < 2 ^ 64 \<Longrightarrow> sentence_ok fs \<Longrightarrow> parse_sentence_piece (put_message fs) = Ok (sentence_of fs)"
  using sentence_loop_put [of "[]" fs] by (simp add: parse_sentence_piece_def sentence_of_foldl)

text \<open>The outer loop.\<close>

lemma proto_field_put:
  assumes len: "length (pre @ put_field (part_field p) @ rest) < 2 ^ 64" and ok: "part_ok p"
  shows "proto_field (pre @ put_field (part_field p) @ rest) (length pre) acc
    = Ok (acc @ part_pieces [p], length (pre @ put_field (part_field p)))"
proof (cases p)
  case (Piece fs)
  let ?m = "put_message fs" and ?key = "put_varint (8 * 1 + 2)"
  have bytes: "pre @ put_field (part_field p) @ rest = (pre @ ?key) @ put_varint (length ?m) @ ?m @ rest"
    by (simp add: Piece put_field_def)
  have "parse_sentence_piece ?m = Ok (sentence_of fs)"
    using len ok by (intro parse_put_sentence) (simp_all add: Piece put_field_def)
  then show ?thesis
    using len read_key_put [of 1 2 pre "put_varint (length ?m) @ ?m @ rest"] read_payload [of "pre @ ?key" ?m rest]
    unfolding bytes by (simp add: proto_field_def Piece part_pieces_def put_field_def)
next
  case (Other f)
  obtain n q where f: "f = (n, q)" by (cases f)
  let ?key = "put_varint (8 * n + wire_type q)"
  have bytes: "pre @ put_field (part_field p) @ rest = (pre @ ?key) @ put_payload q @ rest"
    by (simp add: Other f put_field_def)
  have "read_key ((pre @ ?key) @ put_payload q @ rest) (length pre) = Ok ((n, wire_type q), length (pre @ ?key))"
    using read_key_put [of n "wire_type q" pre "put_payload q @ rest"] ok wire_type_eq(4)
    by (simp add: Other f field_ok_def)
  moreover have "skip_field ((pre @ ?key) @ put_payload q @ rest) (length (pre @ ?key)) (wire_type q)
      = Ok (length (pre @ ?key) + length (put_payload q))"
    using len ok by (intro skip_field_put) (simp_all add: Other f field_ok_def put_field_def)
  ultimately show ?thesis
    using ok unfolding bytes by (auto simp: proto_field_def Other f part_pieces_def put_field_def)
qed

lemma proto_loop_put:
  "length (pre @ put_container ps) < 2 ^ 64 \<Longrightarrow> \<forall>p\<in>set ps. part_ok p \<Longrightarrow>
     proto_loop (pre @ put_container ps) (length pre) acc = Ok (acc @ part_pieces ps)"
proof (induction ps arbitrary: pre acc)
  case Nil
  then show ?case by (subst proto_loop.simps) (simp add: put_container_def part_pieces_def)
next
  case (Cons p ps)
  let ?f = "put_field (part_field p)"
  let ?bytes = "pre @ ?f @ put_container ps"
  have c: "pre @ put_container (p # ps) = ?bytes" by (simp add: put_container_def)
  have "proto_field ?bytes (length pre) acc = Ok (acc @ part_pieces [p], length (pre @ ?f))"
    using Cons.prems unfolding c by (intro proto_field_put) simp_all
  moreover have "length pre < length ?bytes" by simp
  ultimately have "proto_loop ?bytes (length pre) acc
      = proto_loop ((pre @ ?f) @ put_container ps) (length (pre @ ?f)) (acc @ part_pieces [p])"
    using proto_loop_step by simp
  also have "\<dots> = Ok ((acc @ part_pieces [p]) @ part_pieces ps)"
    using Cons.prems unfolding c by (intro Cons.IH) simp_all
  finally show ?case by (simp add: c part_pieces_def)
qed

lemma parse_put_container:
  assumes "part_pieces ps \<noteq> []" "\<forall>p\<in>set ps. part_ok p" "length (put_container ps) < 2 ^ 64"
  shows "parse_model_proto (put_container ps) = Ok (part_pieces ps)"
  using proto_loop_put [of "[]" ps "[]"] assms by (simp add: parse_model_proto_def)

end
