(* ===== verification/Tok_Claims.thy ===== *)
theory Tok_Claims
  imports Tok_Spm
begin

text \<open>
  The properties of the tokenizers, with a small vocabulary on which their hypotheses hold: the 256
  byte characters, one merged piece and one control piece.
\<close>

section \<open>The merge rules\<close>

definition split_merge :: "str \<Rightarrow> str \<times> str" where
  "split_merge m = (let sp = length (takeWhile (\<lambda>b. b \<noteq> 0x20) m) in (take sp m, drop (sp + 1) m))"

text \<open>The ranks of the rules as listed: the index of the last one for a pair of texts.\<close>

definition rule_ranks :: "nat \<Rightarrow> str list \<Rightarrow> str \<times> str \<rightharpoonup> nat" where
  "rule_ranks i ms = map_of (rev (map (\<lambda>(k, m). (split_merge m, as_u32 k)) (List.enumerate i ms)))"

lemma rule_ranks_Cons:
  "rule_ranks i (m # ms) p = (case rule_ranks (Suc i) ms p of Some k \<Rightarrow> Some k
     | None \<Rightarrow> if p = split_merge m then Some (as_u32 i) else None)"
  by (simp add: rule_ranks_def map_add_def split: option.splits)

definition rank_in :: "(str \<rightharpoonup> nat) \<Rightarrow> merges_by_id \<Rightarrow> merges_by_text \<Rightarrow> str \<Rightarrow> str \<Rightarrow> nat option" where
  "rank_in ids mi mt l r = (case (ids l, ids r) of
       (Some li, Some ri) \<Rightarrow> mi (li, ri)
     | _ \<Rightarrow> (case mt l of None \<Rightarrow> None | Some inner \<Rightarrow> inner r))"

lemma add_merges_ranks:
  assumes inj: "\<And>s t i. ids s = Some i \<Longrightarrow> ids t = Some i \<Longrightarrow> s = t"
  shows "add_merges ids i ms mi mt = Ok (mi', mt') \<Longrightarrow>
    rank_in ids mi' mt' l r = (case rule_ranks i ms (l, r) of Some k \<Rightarrow> Some k | None \<Rightarrow> rank_in ids mi mt l r)"
proof (induction ms arbitrary: i mi mt)
  case Nil
  then show ?case by (simp add: rule_ranks_def)
next
  case (Cons m ms)
  obtain sp where sp: "find_space m = Some sp" using Cons.prems by (auto split: option.splits)
  define left right where "left = take sp m" and "right = drop (sp + 1) m"
  have split: "split_merge m = (left, right)"
    using sp by (auto simp: find_space_def split_merge_def left_def right_def Let_def split: if_splits)
  define mi1 where "mi1 = (case (ids left, ids right) of (Some a, Some b) \<Rightarrow> mi((a, b) \<mapsto> as_u32 i) | _ \<Rightarrow> mi)"
  define mt1 where "mt1 = (case (ids left, ids right) of (Some a, Some b) \<Rightarrow> mt
    | _ \<Rightarrow> mt(left \<mapsto> ((case mt left of None \<Rightarrow> Map.empty | Some inner \<Rightarrow> inner)(right \<mapsto> as_u32 i))))"
  have "add_merges ids (Suc i) ms mi1 mt1 = Ok (mi', mt')"
    using Cons.prems sp
    by (simp add: mi1_def mt1_def left_def right_def Let_def split: option.splits)
  then have ih: "rank_in ids mi' mt' l r
      = (case rule_ranks (Suc i) ms (l, r) of Some k \<Rightarrow> Some k | None \<Rightarrow> rank_in ids mi1 mt1 l r)"
    by (rule Cons.IH)
  have "rank_in ids mi1 mt1 l r = (if (l, r) = (left, right) then Some (as_u32 i) else rank_in ids mi mt l r)"
    using inj [of l _ left] inj [of r _ right]
    by (auto simp: rank_in_def mi1_def mt1_def split: option.splits)
  then show ?case unfolding ih rule_ranks_Cons split by (auto split: option.splits)
qed

text \<open>Both indexes together hold exactly the rules, whichever index a rule is filed under.\<close>

lemma pair_rank_rules:
  assumes "from_parts ps ts ms bos eos unk ab ae = Ok tok" "length ps \<le> 2 ^ 32"
  shows "pair_rank tok l r = rule_ranks 0 ms (l, r)"
proof -
  note f = from_parts_fields [OF assms(1)]
  have "s = t" if "text_ids ps s = Some i" "text_ids ps t = Some i" for s t i
    using text_ids_Some [OF that(1) assms(2)] text_ids_Some [OF that(2) assms(2)] by simp
  then have "rank_in (text_ids ps) (by_id tok) (by_text tok) l r
      = (case rule_ranks 0 ms (l, r) of Some k \<Rightarrow> Some k | None \<Rightarrow> rank_in (text_ids ps) Map.empty Map.empty l r)"
    using add_merges_ranks [of "text_ids ps", OF _ f(11)] by blast
  then show ?thesis
    by (auto simp: rank_in_def pair_rank_def f(3) split: option.splits)
qed

section \<open>A small vocabulary\<close>

definition demo_pieces :: "str list" where
  "demo_pieces = map (\<lambda>n. byte_to_unicode (word_of_nat n)) [0..<256] @ [[0x68, 0x69], ascii ''<s>'']"

definition demo_types :: "nat list" where
  "demo_types = replicate 257 TYPE_NORMAL @ [TYPE_CONTROL]"

definition demo_merges :: "str list" where
  "demo_merges = [ascii ''h i'']"

definition demo_class :: CharClass where
  "demo_class = \<lparr>alphabetic = (\<lambda>c. \<exists>b. c = [b] \<and> (0x61 \<le> b \<and> b \<le> 0x7A \<or> 0x41 \<le> b \<and> b \<le> 0x5A)),
     numeric = (\<lambda>c. \<exists>b. c = [b] \<and> 0x30 \<le> b \<and> b \<le> 0x39)\<rparr>"

lemma special_ids_total: "length ts = length ps \<Longrightarrow> \<exists>sp. special_ids ps ts = Ok sp"
proof -
  assume "length ts = length ps"
  moreover have "as_u32 i \<le> i" for i by (simp add: as_u32_def)
  ultimately have "\<not> length ps \<le> as_u32 i" if "i < length ts" for i using that by (metis le_trans not_le)
  then have "\<forall>i\<in>set (map (\<lambda>(i, t). as_u32 i) (filter (\<lambda>(i, t). t \<in> {TYPE_CONTROL, TYPE_USER_DEFINED, TYPE_UNKNOWN})
      (List.enumerate 0 ts))). \<not> length ps \<le> i"
    by (auto simp: in_set_enumerate_eq)
  then show ?thesis by (auto simp: special_ids_def Let_def)
qed

lemma text_ids_distinct:
  assumes "distinct ps" "length ps \<le> 2 ^ 32" "i < length ps" shows "text_ids ps (ps ! i) = Some i"
proof -
  have "(ps ! i, as_u32 i) \<in> set (rev (map (\<lambda>(i, p). (p, as_u32 i)) (List.enumerate 0 ps)))"
    using assms(3) by (auto simp: in_set_enumerate_eq image_iff intro!: bexI [of _ "(i, ps ! i)"])
  then obtain k where "text_ids ps (ps ! i) = Some k" unfolding text_ids_def by (metis weak_map_of_SomeI)
  then show ?thesis using text_ids_Some [of ps "ps ! i" k] assms by (auto simp: nth_eq_iff_index_eq)
qed

lemma demo_distinct: "distinct demo_pieces"
proof -
  have inj: "inj_on (\<lambda>n. byte_to_unicode (word_of_nat n)) {0..<256}"
  proof (rule inj_onI)
    fix m n :: nat
    assume "m \<in> {0..<256}" "n \<in> {0..<256}" "byte_to_unicode (word_of_nat m) = byte_to_unicode (word_of_nat n)"
    then have "unat (word_of_nat m :: u8) = unat (word_of_nat n :: u8)" using byte_to_unicode_inj by metis
    then show "m = n" using \<open>m \<in> _\<close> \<open>n \<in> _\<close> by (simp add: unat_of_nat)
  qed
  have one: "length (chars (byte_to_unicode b)) = 1" for b using byte_to_unicode_wf(2) [of b "[]"] by simp
  have "length (chars [0x68, 0x69 :: u8]) = 2" "length (chars (ascii ''<s>'')) = 3"
    by (simp_all add: char_width_def ascii_def)
  then have "byte_to_unicode b \<noteq> [0x68, 0x69]" "byte_to_unicode b \<noteq> ascii ''<s>''" for b
    using one [of b] by (metis numeral_eq_one_iff semiring_norm(85), metis numeral_eq_one_iff semiring_norm(86))
  then have "[0x68, 0x69] \<notin> range byte_to_unicode" "ascii ''<s>'' \<notin> range byte_to_unicode" by (metis rangeE)+
  then show ?thesis
    using inj by (auto simp: demo_pieces_def distinct_map ascii_def)
qed

lemma demo_length: "length demo_pieces = 258" "length demo_types = 258"
  by (simp_all add: demo_pieces_def demo_types_def del: upt_Suc)

lemma demo_ids:
  "text_ids demo_pieces (byte_to_unicode b) = Some (unat b)" "text_ids demo_pieces [0x68, 0x69] = Some 256"
proof -
  have n: "unat b < 256" using unsigned_less [of b, where 'a = nat] by simp
  then have "demo_pieces ! unat b = byte_to_unicode b" by (simp add: demo_pieces_def nth_append del: upt_Suc)
  then show "text_ids demo_pieces (byte_to_unicode b) = Some (unat b)"
    using text_ids_distinct [OF demo_distinct, of "unat b"] n by (simp add: demo_length)
  have "demo_pieces ! 256 = [0x68, 0x69]" by (simp add: demo_pieces_def nth_append del: upt_Suc)
  then show "text_ids demo_pieces [0x68, 0x69] = Some 256"
    using text_ids_distinct [OF demo_distinct, of 256] by (simp add: demo_length)
qed

lemma demo_merges_split: "split_merge (ascii ''h i'') = ([0x68], [0x69])"
  "byte_to_unicode 0x68 = [0x68]" "byte_to_unicode 0x69 = [0x69]"
  by (simp_all add: split_merge_def ascii_def byte_to_unicode_def code_point_def encode_char_def)

lemma demo_built: "\<exists>tok. from_parts demo_pieces demo_types demo_merges (Some 257) None None True False = Ok tok"
proof -
  obtain sp where sp: "special_ids demo_pieces demo_types = Ok sp"
    using special_ids_total [of demo_types demo_pieces] by (auto simp: demo_length)
  have "find_space (ascii ''h i'') = Some 1" by (simp add: find_space_def ascii_def)
  then have "\<exists>mi mt. add_merges (text_ids demo_pieces) 0 demo_merges Map.empty Map.empty = Ok (mi, mt)"
    by (auto simp: demo_merges_def Let_def split: option.splits)
  then show ?thesis using sp by (auto simp: from_parts_def Let_def)
qed

lemma demo_tables: "tables_ok demo_pieces demo_types"
proof -
  have "utf8_valid (byte_to_unicode b)" for b using byte_to_unicode_wf(1) [of b "[]"] by simp
  then show ?thesis by (auto simp: tables_ok_def demo_length demo_pieces_def ascii_def)
qed

lemma demo_complete:
  assumes "from_parts demo_pieces demo_types demo_merges (Some 257) None None True False = Ok tok"
  shows "complete_vocab tok"
proof -
  note f = from_parts_fields [OF assms]
  have ty: "demo_types ! i = TYPE_NORMAL" if "i < 257" for i using that by (simp add: demo_types_def nth_append)
  have bytes: "normal_text tok (byte_to_unicode b)" for b
  proof -
    have "unat b < 256" using unsigned_less [of b, where 'a = nat] by simp
    then show ?thesis using demo_ids(1) [of b] ty [of "unat b"] f(2,3) by (simp add: normal_text_def)
  qed
  moreover have "normal_text tok (l @ r)" if "pair_rank tok l r \<noteq> None" for l r
  proof -
    have "l = [0x68] \<and> r = [0x69]"
      using that pair_rank_rules [OF assms, of l r]
      by (simp add: demo_length demo_merges_def rule_ranks_Cons rule_ranks_def demo_merges_split split: if_splits)
    then show ?thesis using demo_ids(2) ty [of 256] f(2,3) by (simp add: normal_text_def)
  qed
  moreover have "piece_bytes tok 257 False = Some []"
    using f(1,2) by (simp add: piece_bytes_def demo_length demo_types_def nth_append Let_def)
  ultimately show ?thesis using f(6,7,8,9) by (simp add: complete_vocab_def silent_def)
qed

section \<open>Properties\<close>

text \<open>C31: the priority queue with its stale entries computes greedy merging, whatever the order of its
  ties: a word always encodes, without a panic, to the tokens of the parts left when the leftmost
  pair of least rank is joined until no adjacent pair has a rank.\<close>

lemma bpe_word_greedy: "encode_word tok tie word = Some (encode_word_spec tok word)"
  by (rule encode_word_refines)

text \<open>C32: encoding with \<^verbatim>\<open>parse_special\<close> off and then decoding gives back every well-formed text, when the vocabulary has a normal
  piece for each byte and for each product of a merge rule, and the added BOS and EOS print nothing.\<close>

lemma bpe_roundtrip:
  assumes "from_parts ps ts ms bos eos unk ab ae = Ok tok" "tables_ok ps ts" "complete_vocab tok" "utf8_valid s"
  shows "\<exists>ids. encode tok cl tie s False = Ok ids \<and> decode_all tok ids = s"
  using assms by (rule encode_roundtrip_lemma)

lemma bpe_roundtrip_witness:
  "\<exists>tok ids. from_parts demo_pieces demo_types demo_merges (Some 257) None None True False = Ok tok
     \<and> encode tok demo_class (\<lambda>_. 0) (ascii ''hi there!'') False = Ok ids \<and> decode_all tok ids = ascii ''hi there!''"
proof -
  obtain tok where tok: "from_parts demo_pieces demo_types demo_merges (Some 257) None None True False = Ok tok"
    using demo_built by blast
  have "utf8_valid (ascii ''hi there!'')" by (simp add: ascii_def)
  from bpe_roundtrip [OF tok demo_tables demo_complete [OF tok] this, of demo_class "\<lambda>_. 0"] tok show ?thesis by blast
qed

text \<open>every rule of the merge list is found, under its last rank, whether both its sides are
  pieces (index by ids) or not (index by text), and nothing else is.\<close>

lemma merge_rules_exact:
  assumes "from_parts ps ts ms bos eos unk ab ae = Ok tok" "length ps \<le> 2 ^ 32"
  shows "pair_rank tok l r = rule_ranks 0 ms (l, r)"
  using assms by (rule pair_rank_rules)

lemma merge_rules_exact_witness:
  "\<exists>tok. from_parts demo_pieces demo_types demo_merges (Some 257) None None True False = Ok tok
     \<and> pair_rank tok [0x68] [0x69] = Some 0 \<and> pair_rank tok [0x69] [0x68] = None"
proof -
  obtain tok where tok: "from_parts demo_pieces demo_types demo_merges (Some 257) None None True False = Ok tok"
    using demo_built by blast
  have "length demo_pieces \<le> 2 ^ 32" by (simp add: demo_length)
  then have "pair_rank tok [0x68] [0x69] = Some 0 \<and> pair_rank tok [0x69] [0x68] = None"
    using merge_rules_exact [OF tok, of "[0x68]" "[0x69]"] merge_rules_exact [OF tok, of "[0x69]" "[0x68]"]
    by (simp add: demo_merges_def rule_ranks_Cons rule_ranks_def demo_merges_split as_u32_def)
  then show ?thesis using tok by blast
qed

text \<open>C34: cutting well-formed text at special tokens never slices inside a character, and the raw
  segments and the texts of the tokens make up the input.\<close>

lemma partition_covers:
  assumes "\<forall>p\<in>set ps. utf8_valid p" "\<forall>i\<in>set sp. i < length ps" "utf8_valid s"
  shows "\<exists>frags. partition_special s sp ps = Ok frags
     \<and> concat (map (fragment_text ps) frags) = s \<and> (\<forall>f\<in>set frags. fragment_ok sp f)"
  using assms by (rule partition_total)

lemma partition_covers_witness:
  "\<exists>frags. partition_special (ascii ''a<s>b'') [0] [ascii ''<s>''] = Ok frags
     \<and> concat (map (fragment_text [ascii ''<s>'']) frags) = ascii ''a<s>b'' \<and> (\<forall>f\<in>set frags. fragment_ok [0] f)"
  by (rule partition_covers) (simp_all add: ascii_def)

text \<open>C33: where no character from the position on has other classes for the scanner
  (\<^verbatim>\<open>char::is_alphabetic\<close>, \<^verbatim>\<open>char::is_numeric\<close>) than in the documented expression
  (\<^verbatim>\<open>\p{L}\<close>, \<^verbatim>\<open>\p{N}\<close>), the pre-split scanner takes the match of that expression at every
  position that neither starts a contraction with l nor a run of white space over separated line
  ends.\<close>

lemma scan_matches_expression:
  assumes "pos < length cs" "\<not> l_contraction (drop pos cs)" "\<not> lines_apart (drop pos cs)"
    "\<forall>c\<in>set (drop pos cs). same_class cl cat c"
  shows "scan_fragment cl cs pos = first_match (qwen2_pattern cat) (drop pos cs)"
  using assms by (rule scan_fragment_match)

definition demo_text :: "uchar list" where
  "demo_text = [[0x77], [0x65], [0x27], [0x76], [0x65], [0x20], [0x0A]]"

text \<open>The letters and digits of ASCII.\<close>

definition demo_cat :: UnicodeCat where
  "demo_cat = \<lparr>letter = (\<lambda>c. \<exists>b. c = [b] \<and> (0x61 \<le> b \<and> b \<le> 0x7A \<or> 0x41 \<le> b \<and> b \<le> 0x5A)),
     number = numeric demo_class\<rparr>"

lemma scan_matches_expression_witness:
  "scan_fragment demo_class demo_text 2 = first_match (qwen2_pattern demo_cat) (drop 2 demo_text)"
  by (rule scan_matches_expression)
    (simp_all add: demo_text_def l_contraction_def lines_apart_def one_of_def is_cpt_ws_def white_space_def newline_def
      same_class_def demo_class_def demo_cat_def)

text \<open>The exceptions: the scanner cuts \<^verbatim>\<open>'lemon\<close> after \<^verbatim>\<open>'le\<close> and does not cut \<^verbatim>\<open>'ll\<close> from
  what follows, it stops at the first line end of a run of white space, and it goes on over a vowel
  sign, which is alphabetic but not a letter (\<open>scan_alphabetic_mark\<close>, here U+0915 with U+093F).\<close>

lemma scan_l_contraction:
  "scan_fragment demo_class [[0x27], [0x6C], [0x65], [0x6D]] 0 = Some 3"
  "first_match (qwen2_pattern demo_cat) [[0x27], [0x6C], [0x65], [0x6D]] = Some 4"
  "scan_fragment demo_class [[0x27], [0x6C], [0x6C], [0x61]] 0 = Some 4"
  "first_match (qwen2_pattern demo_cat) [[0x27], [0x6C], [0x6C], [0x61]] = Some 3"
  by (simp_all add: scan_fragment_def scan_A_def scan_B_def one_of_def scan_while_def is_cpt_letter_def is_cpt_digit_def
    demo_class_def demo_cat_def first_match_Alt qwen2_pattern_def rx_A_def rx_B_def first_match_Seq_Alt newline_def Let_def)

lemma scan_lines_apart:
  "scan_fragment demo_class [[0x0A], [0x20], [0x0A]] 0 = Some 1"
  "first_match (qwen2_pattern demo_cat) [[0x0A], [0x20], [0x0A]] = Some 3"
  by (simp_all add: scan_fragment_def scan_A_def scan_B_def scan_C_def scan_D_def scan_E_def one_of_def scan_while_def
    is_cpt_letter_def is_cpt_digit_def is_cpt_ws_def white_space_def demo_class_def demo_cat_def first_match_Alt qwen2_pattern_def
    rx_A_def rx_B_def rx_C_def rx_D_def rx_E_def first_match_Seq_Alt first_match_Seq_assoc newline_def Let_def first_match_first)

lemma scan_vowel_sign:
  assumes "alphabetic cl [0xE0, 0xA4, 0x95]" "alphabetic cl [0xE0, 0xA4, 0xBF]"
    "letter cat [0xE0, 0xA4, 0x95]" "\<not> letter cat [0xE0, 0xA4, 0xBF]"
  shows "scan_fragment cl (chars [0xE0, 0xA4, 0x95, 0xE0, 0xA4, 0xBF]) 0 = Some 2"
    "first_match (qwen2_pattern cat) (chars [0xE0, 0xA4, 0x95, 0xE0, 0xA4, 0xBF]) = Some 1"
  using scan_alphabetic_mark [OF assms] by (simp_all add: char_width_def)

text \<open>C35: however bytes are pushed and text is taken, what the decoder has put out and its final flush
  together are the lossy decoding of all the bytes.\<close>

lemma decoder_chunks_lossy:
  "fst (dec_run ops dec_new) @ fst (dec_flush (snd (dec_run ops dec_new))) = lossy (pushed ops)"
  using dec_run_lossy [of ops dec_new] by (simp add: dec_flush_lossy dec_new_def)

text \<open>C36: the container reader reads back the pieces of every well-formed model: each piece with
  its text and type whatever other fields stand beside them and in whatever order (the score, and
  fields of all four wire types), among any other top-level fields.\<close>

lemma spm_container_roundtrip:
  assumes "part_pieces ps \<noteq> []" "\<forall>p\<in>set ps. part_ok p" "length (put_container ps) < 2 ^ 64"
  shows "parse_model_proto (put_container ps) = Ok (part_pieces ps)"
  using assms by (rule parse_put_container)

text \<open>Two pieces, the second with its type before its text, with scores, an unknown field of eight
  bytes, and a trainer specification between them.\<close>

definition demo_model :: "part list" where
  "demo_model = [Piece [(1, Delimited (ascii ''<s>'')), (2, Fixed32 [0, 0, 0x80, 0xBF]), (3, Varint 3)],
     Other (2, Delimited [0x0A, 0xFF]), Other (15, Fixed64 [1, 2, 3, 4, 5, 6, 7, 8]), Other (7, Fixed32 [1, 2, 3, 4]),
     Piece [(3, Varint 6), (9, Fixed64 [10, 10, 10, 10, 10, 10, 10, 10]), (2, Fixed32 [10, 1, 1, 1]), (1, Delimited (ascii ''<0x41>''))],
     Other (1, Varint 300)]"

lemma spm_container_roundtrip_witness:
  "parse_model_proto (put_container demo_model) = Ok [(ascii ''<s>'', 3), (ascii ''<0x41>'', 6)]"
proof -
  have "part_pieces demo_model = [(ascii ''<s>'', 3), (ascii ''<0x41>'', 6)]"
    by (simp add: demo_model_def part_pieces_def sentence_of_def piece_texts_def piece_kinds_def as_u32_def)
  moreover have "\<forall>p\<in>set demo_model. part_ok p"
    by (simp add: demo_model_def sentence_ok_def field_ok_def piece_texts_def ascii_def)
  moreover have "length (put_container demo_model) < 2 ^ 64"
    by (simp add: demo_model_def put_container_def put_field_def put_varint.simps ascii_def)
  ultimately show ?thesis using spm_container_roundtrip [of demo_model] by simp
qed

end
