(* ===== verification/Returns.thy ===== *)
theory Returns
  imports Prelude
begin

text \<open>
  Total correctness of operations that may panic: \<open>returns m Q\<close> says that \<open>m\<close> does not panic and
  that its result satisfies \<open>Q\<close>. The rules compute it through the constructs of the models, so that
  the proof of an operation follows its code.
\<close>

definition returns :: "'a option \<Rightarrow> ('a \<Rightarrow> bool) \<Rightarrow> bool" where
  "returns m Q \<longleftrightarrow> (case m of None \<Rightarrow> False | Some x \<Rightarrow> Q x)"

lemma returns_simps [simp]:
  "returns (Some x) Q \<longleftrightarrow> Q x" "\<not> returns None Q"
  "returns (Option.bind m f) Q \<longleftrightarrow> returns m (\<lambda>x. returns (f x) Q)"
  "returns (map_option g m) Q \<longleftrightarrow> returns m (\<lambda>x. Q (g x))"
  by (cases m; simp add: returns_def)+

lemma returns_if [simp]:
  "returns (if b then m else m') Q \<longleftrightarrow> (b \<longrightarrow> returns m Q) \<and> (\<not> b \<longrightarrow> returns m' Q)"
  by simp

text \<open>
  \<open>returns_unless B m Q\<close>: when \<open>m\<close> panics then \<open>B\<close> holds, and otherwise its result satisfies \<open>Q\<close>.
  The rules collect the one cause of a panic that is left through the constructs.
\<close>

definition returns_unless :: "bool \<Rightarrow> 'a option \<Rightarrow> ('a \<Rightarrow> bool) \<Rightarrow> bool" where
  "returns_unless B m Q \<longleftrightarrow> (case m of None \<Rightarrow> B | Some x \<Rightarrow> Q x)"

lemma returns_unless_simps [simp]:
  "returns_unless B (Some x) Q \<longleftrightarrow> Q x" "returns_unless B None Q \<longleftrightarrow> B"
  "returns_unless B (Option.bind m f) Q \<longleftrightarrow> returns_unless B m (\<lambda>x. returns_unless B (f x) Q)"
  by (cases m; simp add: returns_unless_def)+

lemma returns_unlessI: "returns m Q \<Longrightarrow> returns_unless B m Q"
  by (cases m) auto

lemma returns_unless_False: "returns_unless False m Q \<longleftrightarrow> returns m Q"
  by (cases m) auto

lemma returns_unless_mono:
  "returns_unless B m P \<Longrightarrow> (m = None \<Longrightarrow> B \<Longrightarrow> C) \<Longrightarrow> (\<And>x. m = Some x \<Longrightarrow> P x \<Longrightarrow> Q x) \<Longrightarrow> returns_unless C m Q"
  by (cases m) auto

lemma returns_unlessD: "returns_unless B m Q \<Longrightarrow> m = Some x \<Longrightarrow> Q x" "returns_unless B m Q \<Longrightarrow> m = None \<Longrightarrow> B"
  by simp_all

lemma returnsD: "returns m Q \<Longrightarrow> \<exists>x. m = Some x \<and> Q x"
  by (cases m) auto

lemma returns_mono [elim?]: "returns m P \<Longrightarrow> (\<And>x. m = Some x \<Longrightarrow> P x \<Longrightarrow> Q x) \<Longrightarrow> returns m Q"
  by (cases m) auto

lemma returns_Some: "m = Some x \<Longrightarrow> Q x \<Longrightarrow> returns m Q"
  by simp

lemma returns_conj: "returns m (\<lambda>x. P x \<and> Q x) \<longleftrightarrow> returns m P \<and> returns m Q"
  by (cases m) auto

text \<open>A loop returns and keeps an invariant when its body does.\<close>

lemma returns_fold:
  "P s \<Longrightarrow> (\<And>x s. x \<in> set xs \<Longrightarrow> P s \<Longrightarrow> returns (f x s) P) \<Longrightarrow> returns (fold_opt f xs s) P"
proof (induction xs arbitrary: s)
  case (Cons x xs)
  have "returns (f x s) P" using Cons.prems by simp
  then show ?case
    by (auto intro!: Cons.IH Cons.prems(2) elim!: returns_mono)
qed simp

text \<open>A loop whose invariant depends on what is left to do.\<close>

lemma returns_fold_rest:
  "P xs s \<Longrightarrow> (\<And>x xs s. P (x # xs) s \<Longrightarrow> returns (f x s) (P xs)) \<Longrightarrow> returns (fold_opt f xs s) (P [])"
proof (induction xs arbitrary: s)
  case (Cons x xs)
  show ?case using Cons.prems(2) [OF Cons.prems(1)]
    by (auto intro!: Cons.IH Cons.prems(2) elim!: returns_mono)
qed simp

end
