(* ===== verification/Sched.thy ===== *)
theory Sched
  imports Replay Radix Segment Tok_Bpe
begin

text \<open>
  The scheduler event loop of \<^verbatim>\<open>bin/reinfer/src/sched_loop.rs\<close>: commands from the clients, the
  admission of waiting requests, prefill and decoding through the executor, sampling, the frames
  sent to the clients, and the release of the pages of a request when it ends. This theory holds
  the state and the operations.

  The executor is the trait \<^verbatim>\<open>BatchExecutor\<close>: a record of functions on a state of its own (the
  implementation for the device is in \<open>Sched_Cuda\<close>). The sampler chain, the rows of logits and the
  sampling options are parameters, as is the fate of a channel: \<open>alive\<close> says from the frames sent so
  far whether the receiver of a channel is still there. \<open>None\<close> is a panic. The counters of tokens
  are unbounded.
\<close>

section \<open>The executor\<close>

record ExecReq =
  xr_id :: u64
  xr_token :: nat
  xr_pos :: nat
  xr_kv_len :: nat
  xr_seg :: KvSegment

datatype ExecError = EngineErr string | PoolErr string | CopyErr string | MsgErr string

text \<open>An operation that may fail returns the state after it in both cases.\<close>

type_synonym ('x, 'a) exec = "('x \<times> (ExecError + 'a)) option"

record ('x, 'l) BatchExecutor =
  ex_alloc_segment :: "nat \<Rightarrow> 'x \<Rightarrow> ('x, KvSegment) exec"
  ex_free_segment :: "KvSegment \<Rightarrow> 'x \<Rightarrow> 'x option"
  ex_prefill :: "nat list \<Rightarrow> 'x \<Rightarrow> ('x, unit) exec"
  ex_prefill_prefix_hit :: "PrefixHit \<Rightarrow> nat list \<Rightarrow> 'x \<Rightarrow> ('x, unit) exec"
  ex_refill_prefix :: "u64 \<Rightarrow> KvSegment \<Rightarrow> nat \<Rightarrow> 'x \<Rightarrow> 'x option"
  ex_unref_prefix :: "nat \<Rightarrow> nat \<Rightarrow> 'x \<Rightarrow> 'x option"
  ex_commit_stage :: "KvSegment \<Rightarrow> nat \<Rightarrow> nat \<Rightarrow> 'x \<Rightarrow> ('x, unit) exec"
  ex_adopt_singleton :: "u64 \<Rightarrow> KvSegment \<Rightarrow> nat \<Rightarrow> nat \<Rightarrow> 'x \<Rightarrow> ('x, unit) exec"
  ex_drop_singleton :: "u64 \<Rightarrow> 'x \<Rightarrow> 'x"
  ex_decode_batch :: "ExecReq list \<Rightarrow> 'x \<Rightarrow> ('x, 'l list) exec"
  ex_pool_stats :: "'x \<Rightarrow> KvPoolStats"

section \<open>Configuration, frames and commands\<close>

record SchedLoopConfig =
  lc_base_seed :: u64
  lc_vocab :: nat
  lc_dev :: nat
  lc_n_layer :: nat
  lc_block_len :: nat
  lc_max_model_len :: nat
  lc_kv_pages :: nat
  lc_max_num_seqs :: nat
  lc_chunk_size :: nat
  lc_max_steps :: nat
  lc_detok :: "nat list \<Rightarrow> str"
  lc_prefix_cache_pages :: nat

definition window_pages :: "SchedLoopConfig \<Rightarrow> nat" where
  "window_pages cfg = lc_n_layer cfg * div_ceil (lc_max_model_len cfg) (lc_block_len cfg)"

text \<open>\<open>None\<close> is the underflow when the pool is smaller than a window, or a division by zero.\<close>

definition pool_tokens :: "SchedLoopConfig \<Rightarrow> nat option" where
  "pool_tokens cfg = do {
     p \<leftarrow> chk_sub (lc_kv_pages cfg) (window_pages cfg);
     chk_mul p (lc_block_len cfg)}"

definition admit_cap :: "SchedLoopConfig \<Rightarrow> nat option" where
  "admit_cap cfg = do {
     p \<leftarrow> chk_sub (lc_kv_pages cfg) (window_pages cfg);
     n \<leftarrow> chk_div p (window_pages cfg);
     Some (min n (lc_max_num_seqs cfg))}"

datatype LoopError =
    EmptyPrompt | SamplerInit string | PrefixHitErr ExecError | PrefillErr ExecError
  | CommitErr ExecError | AdoptErr ExecError | DecodeErr ExecError | OnlyNaN | SamplerErr string

datatype 'o SchedFrame =
    TokenFrame (delta: str) (tok_out: "'o option")
  | DoneFrame (stopped_by_eos: bool) (stopped_by_stop: bool) (done_tokens: nat) (prompt_tokens: nat)
  | ErrorFrame LoopError

record 'p GenParams =
  gp_opts :: 'p
  gp_seed :: "u64 option"

record 'p SubmitRequest =
  sr_ids :: "nat list"
  sr_params :: "'p GenParams"
  sr_eos :: "nat option"
  sr_max_tokens :: nat
  sr_stop :: "nat list list"
  sr_logprobs_top_n :: nat
  sr_token :: u64
  sr_tx :: nat

datatype 'p SchedCmd = Submit "'p SubmitRequest" | AbortCmd u64 | Shutdown

section \<open>The sampler\<close>

text \<open>The fields of \<^verbatim>\<open>SamplerParams\<close> that \<^verbatim>\<open>submit\<close> sets; the options are passed on as they are.\<close>

record 'p SamplerParams =
  smp_opts :: 'p
  smp_repeat_last_n :: nat
  smp_seed :: u64

record ('c, 'l, 'p, 'o) SamplerApi =
  chain_new :: "'p SamplerParams \<Rightarrow> string + 'c"
  chain_sample :: "'p SamplerParams \<Rightarrow> nat \<Rightarrow> nat \<Rightarrow> 'l \<Rightarrow> 'c \<Rightarrow> 'c \<times> (string + nat)"
  all_nan :: "'l \<Rightarrow> bool"
  token_out :: "'l \<Rightarrow> nat \<Rightarrow> nat \<Rightarrow> 'o option"

section \<open>The state\<close>

record ('c, 'p) ReqMeta =
  rm_prompt :: "nat list"
  rm_max_output :: nat
  rm_chain :: 'c
  rm_sampler_params :: "'p SamplerParams"
  rm_cur :: nat
  rm_generated :: "nat list"
  rm_last_len :: nat
  rm_logprobs_top_n :: nat
  rm_tx :: nat

record ('x, 'c, 'p, 'o) SchedLoop =
  sl_exec :: 'x
  sl_reqs :: "(u64 \<times> Req) list"
  sl_meta :: "(u64 \<times> ('c, 'p) ReqMeta) list"
  sl_waiting :: "u64 list"
  sl_decoding :: "u64 list"
  sl_segs :: "(u64 \<times> KvSegment) list"
  sl_token_ids :: "(u64 \<times> u64) list"
  sl_estimates :: "(u64 \<times> RequestEstimate) list"
  sl_ema :: EmaTracker
  sl_arrival_seq :: u64
  sl_step :: nat
  sl_first_chunk_sum :: nat
  sl_trace :: "TraceEntry list"
  sl_dispatched :: nat
  sl_returned :: nat
  sl_cache :: "TokenRadixCache option"
  sl_cache_hits :: nat
  sl_cache_refills :: nat
  sl_frames :: "(nat \<times> 'o SchedFrame) list"

text \<open>What the loop is run with.\<close>

record ('x, 'c, 'l, 'p, 'o) SchedEnv =
  env_cfg :: SchedLoopConfig
  env_exec :: "('x, 'l) BatchExecutor"
  env_sampler :: "('c, 'l, 'p, 'o) SamplerApi"
  env_alive :: "nat \<Rightarrow> (nat \<times> 'o SchedFrame) list \<Rightarrow> bool"

definition loop_new :: "SchedLoopConfig \<Rightarrow> 'x \<Rightarrow> ('x, 'c, 'p, 'o) SchedLoop option" where
  "loop_new cfg x = do {
     c \<leftarrow> (if 0 < lc_prefix_cache_pages cfg then map_option Some (radix_new (lc_prefix_cache_pages cfg)) else Some None);
     Some \<lparr>sl_exec = x, sl_reqs = [], sl_meta = [], sl_waiting = [], sl_decoding = [], sl_segs = [],
       sl_token_ids = [], sl_estimates = [], sl_ema = ema_new, sl_arrival_seq = 0, sl_step = 0,
       sl_first_chunk_sum = 0, sl_trace = [], sl_dispatched = 0, sl_returned = 0, sl_cache = c,
       sl_cache_hits = 0, sl_cache_refills = 0, sl_frames = []\<rparr>}"


section \<open>Small operations\<close>

text \<open>
  \<^verbatim>\<open>blocking_send\<close>: the frame is delivered while the receiver is there; the result says whether
  it was. Waiting for room in the channel is not an event of the model.
\<close>

definition blocking_send :: "('x, 'c, 'l, 'p, 'o) SchedEnv \<Rightarrow> nat \<Rightarrow> 'o SchedFrame
    \<Rightarrow> ('x, 'c, 'p, 'o) SchedLoop \<Rightarrow> ('x, 'c, 'p, 'o) SchedLoop \<times> bool" where
  "blocking_send env tx f s =
     (if env_alive env tx (sl_frames s) then (s\<lparr>sl_frames := sl_frames s @ [(tx, f)]\<rparr>, True)
      else (s, False))"

definition set_req :: "u64 \<Rightarrow> Req \<Rightarrow> ('x, 'c, 'p, 'o) SchedLoop \<Rightarrow> ('x, 'c, 'p, 'o) SchedLoop" where
  "set_req i r s = s\<lparr>sl_reqs := bt_insert i r (sl_reqs s)\<rparr>"

definition loop_trace :: "u64 \<Rightarrow> Event \<Rightarrow> ('x, 'c, 'p, 'o) SchedLoop \<Rightarrow> ('x, 'c, 'p, 'o) SchedLoop option" where
  "loop_trace i ev s = do {
     r \<leftarrow> map_of (sl_reqs s) i;
     Some (s\<lparr>sl_trace := sl_trace s @ [\<lparr>te_step = sl_step s, te_req = i, te_event = ev,
       te_cached_len = cached_len r, te_device_len = device_len r\<rparr>]\<rparr>)}"

definition loop_is_idle :: "('x, 'c, 'p, 'o) SchedLoop \<Rightarrow> bool" where
  "loop_is_idle s \<longleftrightarrow> sl_waiting s = [] \<and> sl_decoding s = []"

definition loop_kv_usage :: "('x, 'c, 'p, 'o) SchedLoop \<Rightarrow> nat" where
  "loop_kv_usage s = sum_list (map (\<lambda>(i, r). device_len r) (sl_reqs s))"

definition loop_busy :: "SchedLoopConfig \<Rightarrow> ('x, 'c, 'p, 'o) SchedLoop \<Rightarrow> bool option" where
  "loop_busy cfg s = do {
     t \<leftarrow> pool_tokens cfg;
     Some (is_busy (loop_kv_usage s) t (f64 (8 / 10)))}"

definition loop_estimate :: "SchedLoopConfig \<Rightarrow> u64 \<Rightarrow> ('x, 'c, 'p, 'o) SchedLoop \<Rightarrow> RequestEstimate option" where
  "loop_estimate cfg i s = do {
     r \<leftarrow> map_of (sl_reqs s) i;
     m \<leftarrow> map_of (sl_meta s) i;
     b \<leftarrow> loop_busy cfg s;
     estimate \<lparr>input_len = length (rm_prompt m), max_new_tokens = rm_max_output m,
       has_out_len = output_tokens r, shm_kv_len = 0,
       chunked_remaining = (if rq_state r = Chunked then prompt_len r - cached_len r else 0),
       chunk_size = lc_chunk_size cfg, busy = b,
       ema_req_out_len = to_u64 (round_half_up (ema (sl_ema s))), max_waiting_tokens = 16\<rparr>}"

definition admission_cfg :: "SchedLoopConfig \<Rightarrow> AdmissionConfig option" where
  "admission_cfg cfg = do {
     p \<leftarrow> chk_sub (lc_kv_pages cfg) (window_pages cfg);
     c \<leftarrow> admit_cap cfg;
     t \<leftarrow> pool_tokens cfg;
     Some \<lparr>max_total_pages = p, page_size = lc_block_len cfg, running_max_req_size = c,
       batch_max_tokens = t, chunked_budget_multiplier = 2, router_token_ratio = f64 (8 / 10),
       cfg_max_waiting_tokens = 16\<rparr>}"

definition leave_decoding :: "u64 \<Rightarrow> ('x, 'c, 'p, 'o) SchedLoop \<Rightarrow> ('x, 'c, 'p, 'o) SchedLoop" where
  "leave_decoding i s = s\<lparr>sl_decoding := filter (\<lambda>x. x \<noteq> i) (sl_decoding s)\<rparr>"

definition leave_waiting :: "u64 \<Rightarrow> ('x, 'c, 'p, 'o) SchedLoop \<Rightarrow> ('x, 'c, 'p, 'o) SchedLoop" where
  "leave_waiting i s = s\<lparr>sl_waiting := filter (\<lambda>x. x \<noteq> i) (sl_waiting s)\<rparr>"

definition join_decoding :: "u64 \<Rightarrow> ('x, 'c, 'p, 'o) SchedLoop \<Rightarrow> ('x, 'c, 'p, 'o) SchedLoop" where
  "join_decoding i s = (if i \<in> set (sl_decoding s) then s else s\<lparr>sl_decoding := sl_decoding s @ [i]\<rparr>)"

text \<open>The end of \<^verbatim>\<open>terminal\<close> and \<^verbatim>\<open>request_abort\<close>: the request leaves every queue and table but its own.\<close>

definition forget_req :: "u64 \<Rightarrow> ('x, 'c, 'p, 'o) SchedLoop \<Rightarrow> ('x, 'c, 'p, 'o) SchedLoop" where
  "forget_req i s =
     (let s = leave_waiting i (leave_decoding i s)
      in s\<lparr>sl_token_ids := filter (\<lambda>p. snd p \<noteq> i) (sl_token_ids s), sl_meta := bt_remove i (sl_meta s)\<rparr>)"

text \<open>\<^verbatim>\<open>if let Some(seg) = self.segs.remove(&id) { self.exec.free_segment(seg) }\<close>\<close>

definition free_held :: "('x, 'c, 'l, 'p, 'o) SchedEnv \<Rightarrow> u64
    \<Rightarrow> ('x, 'c, 'p, 'o) SchedLoop \<Rightarrow> ('x, 'c, 'p, 'o) SchedLoop option" where
  "free_held env i s = (case map_of (sl_segs s) i of
       None \<Rightarrow> Some s
     | Some seg \<Rightarrow> do {
         x \<leftarrow> ex_free_segment (env_exec env) seg (sl_exec s);
         Some (s\<lparr>sl_segs := bt_remove i (sl_segs s), sl_exec := x\<rparr>)})"

definition drop_single :: "('x, 'c, 'l, 'p, 'o) SchedEnv \<Rightarrow> u64
    \<Rightarrow> ('x, 'c, 'p, 'o) SchedLoop \<Rightarrow> ('x, 'c, 'p, 'o) SchedLoop" where
  "drop_single env i s = s\<lparr>sl_exec := ex_drop_singleton (env_exec env) i (sl_exec s)\<rparr>"

text \<open>The chunk end rounded down to a page boundary, except the last one.\<close>

definition align_chunk_end :: "nat \<Rightarrow> nat \<Rightarrow> nat \<Rightarrow> nat option" where
  "align_chunk_end e n block =
     (if n \<le> e then Some n else do {q \<leftarrow> chk_div e block; chk_mul q block})"

section \<open>The end of a request\<close>

definition request_abort :: "('x, 'c, 'l, 'p, 'o) SchedEnv \<Rightarrow> u64 \<Rightarrow> LoopError option
    \<Rightarrow> ('x, 'c, 'p, 'o) SchedLoop \<Rightarrow> ('x, 'c, 'p, 'o) SchedLoop option" where
  "request_abort env i frame s = do {
     r \<leftarrow> map_of (sl_reqs s) i;
     if is_terminal r then Some s
     else do {
       let s = (case frame of
           None \<Rightarrow> s
         | Some msg \<Rightarrow> (case map_of (sl_meta s) i of
             None \<Rightarrow> s
           | Some m \<Rightarrow> fst (blocking_send env (rm_tx m) (ErrorFrame msg) s)));
       s \<leftarrow> loop_trace i AbortedEv (set_req i (fst (abort r)) s);
       let s = s\<lparr>sl_returned := sl_returned s + device_len r, sl_estimates := bt_remove i (sl_estimates s)\<rparr>;
       s \<leftarrow> free_held env i s;
       Some (forget_req i (drop_single env i s))}}"

text \<open>The refill decision on a normal end. The casts of page numbers to \<^verbatim>\<open>u32\<close> drop high bits.\<close>

fun unref_all :: "(nat \<Rightarrow> nat \<Rightarrow> 'x \<Rightarrow> 'x option) \<Rightarrow> Evicted list \<Rightarrow> 'x \<Rightarrow> 'x option" where
  "unref_all unref [] x = Some x"
| "unref_all unref (e # es) x = Option.bind (unref (ev_base_page e) (ev_pages e) x) (unref_all unref es)"

definition refill_prefix_release :: "('x, 'c, 'l, 'p, 'o) SchedEnv \<Rightarrow> KvSegment \<Rightarrow> u64
    \<Rightarrow> ('x, 'c, 'p, 'o) SchedLoop \<Rightarrow> ('x, 'c, 'p, 'o) SchedLoop option" where
  "refill_prefix_release env seg i s =
     (let plain = (\<lambda>s. do {
            x \<leftarrow> ex_free_segment (env_exec env) seg (sl_exec s);
            Some (s\<lparr>sl_exec := x\<rparr>)})
      in case sl_cache s of
           None \<Rightarrow> plain s
         | Some c \<Rightarrow> do {
             m \<leftarrow> map_of (sl_meta s) i;
             l \<leftarrow> chk_div (length (rm_prompt m)) (lc_block_len (env_cfg env));
             if l = 0 \<or> l < MIN_BLOCKS then plain s
             else do {
               let aligned = l * lc_block_len (env_cfg env);
               let key = take aligned (rm_prompt m);
               if (case lookup c key of Some h \<Rightarrow> hit_key_len h = aligned | None \<Rightarrow> False)
               then do {s \<leftarrow> plain s; Some (s\<lparr>sl_cache := Some (fst (touch c key))\<rparr>)}
               else (case radix_insert c key (base_page seg mod 2 ^ 32) (l mod 2 ^ 32) of
                   Panic \<Rightarrow> None
                 | Err er \<Rightarrow> plain s
                 | Ok (c', evicted) \<Rightarrow> do {
                     x \<leftarrow> unref_all (ex_unref_prefix (env_exec env)) evicted (sl_exec s);
                     x \<leftarrow> ex_refill_prefix (env_exec env) i seg (l mod 2 ^ 32) x;
                     Some (s\<lparr>sl_cache := Some c', sl_exec := x, sl_cache_refills := sl_cache_refills s + 1\<rparr>)})}})"

definition loop_terminal :: "('x, 'c, 'l, 'p, 'o) SchedEnv \<Rightarrow> u64 \<Rightarrow> bool \<Rightarrow> bool
    \<Rightarrow> ('x, 'c, 'p, 'o) SchedLoop \<Rightarrow> ('x, 'c, 'p, 'o) SchedLoop option" where
  "loop_terminal env i eos stopped s = do {
     m \<leftarrow> map_of (sl_meta s) i;
     let s = fst (blocking_send env (rm_tx m)
               (DoneFrame eos stopped (length (rm_generated m)) (length (rm_prompt m))) s);
     r \<leftarrow> map_of (sl_reqs s) i;
     let s = set_req i (fst (take_release r)) (s\<lparr>sl_returned := sl_returned s + device_len r\<rparr>);
     let s = s\<lparr>sl_ema := fst (ema_update (sl_ema s) (f64 (of_nat (output_tokens r)))),
               sl_estimates := bt_remove i (sl_estimates s)\<rparr>;
     s \<leftarrow> (case map_of (sl_segs s) i of
         Some seg \<Rightarrow> refill_prefix_release env seg i (s\<lparr>sl_segs := bt_remove i (sl_segs s)\<rparr>)
       | None \<Rightarrow> Some (drop_single env i s));
     Some (forget_req i s)}"

section \<open>Commands\<close>

definition loop_submit :: "('x, 'c, 'l, 'p, 'o) SchedEnv \<Rightarrow> 'p SubmitRequest
    \<Rightarrow> ('x, 'c, 'p, 'o) SchedLoop \<Rightarrow> ('x, 'c, 'p, 'o) SchedLoop option" where
  "loop_submit env q s =
     (if sr_ids q = [] then Some (fst (blocking_send env (sr_tx q) (ErrorFrame EmptyPrompt) s))
      else do {
        let seed = lc_base_seed (env_cfg env);
        let i = derive seed (sl_arrival_seq s);
        let r = req_new i seed (sl_arrival_seq s) (sr_stop q) (sr_eos q);
        s \<leftarrow> loop_trace i ArrivedEv (set_req i r (s\<lparr>sl_arrival_seq := sl_arrival_seq s + 1\<rparr>));
        let sp = \<lparr>smp_opts = gp_opts (sr_params q), smp_repeat_last_n = 64,
                  smp_seed = (case gp_seed (sr_params q) of Some u \<Rightarrow> u | None \<Rightarrow> splitmix64 (seed XOR i))\<rparr>;
        (case chain_new (env_sampler env) sp of
           Inl msg \<Rightarrow> Some (fst (blocking_send env (sr_tx q) (ErrorFrame (SamplerInit msg)) s))
         | Inr ch \<Rightarrow>
             let m = \<lparr>rm_prompt = sr_ids q, rm_max_output = sr_max_tokens q, rm_chain = ch,
                      rm_sampler_params = sp, rm_cur = 0, rm_generated = [], rm_last_len = 0,
                      rm_logprobs_top_n = sr_logprobs_top_n q, rm_tx = sr_tx q\<rparr>
             in Some (s\<lparr>sl_token_ids := bt_insert (sr_token q) i (sl_token_ids s),
                        sl_meta := bt_insert i m (sl_meta s), sl_waiting := sl_waiting s @ [i]\<rparr>))})"

text \<open>The result says whether the command was the shutdown.\<close>

fun handle_cmd :: "('x, 'c, 'l, 'p, 'o) SchedEnv \<Rightarrow> 'p SchedCmd
    \<Rightarrow> ('x, 'c, 'p, 'o) SchedLoop \<Rightarrow> (('x, 'c, 'p, 'o) SchedLoop \<times> bool) option" where
  "handle_cmd env (Submit q) s = map_option (\<lambda>s. (s, False)) (loop_submit env q s)"
| "handle_cmd env (AbortCmd t) s = map_option (\<lambda>s. (s, False))
     (case map_of (sl_token_ids s) t of None \<Rightarrow> Some s | Some i \<Rightarrow> request_abort env i None s)"
| "handle_cmd env Shutdown s = Some (s, True)"


section \<open>Admission and prefill\<close>

definition working_set :: "u64 \<Rightarrow> RequestEstimate \<Rightarrow> ('x, 'c, 'p, 'o) SchedLoop \<Rightarrow> (u64 \<times> RequestEstimate) list" where
  "working_set i est s = AList.update i est (sl_estimates s)"

definition loop_admit_one :: "SchedLoopConfig \<Rightarrow> u64 \<Rightarrow> ('x, 'c, 'p, 'o) SchedLoop \<times> WaitingReq list
    \<Rightarrow> (('x, 'c, 'p, 'o) SchedLoop \<times> WaitingReq list) option" where
  "loop_admit_one cfg i = (\<lambda>(s, eligible). do {
     est \<leftarrow> loop_estimate cfg i s;
     r \<leftarrow> map_of (sl_reqs s) i;
     m \<leftarrow> map_of (sl_meta s) i;
     let first_chunk = (if rq_state r = Waiting then Some (min (lc_chunk_size cfg) (length (rm_prompt m))) else None);
     b \<leftarrow> loop_busy cfg s;
     ac \<leftarrow> admission_cfg cfg;
     v \<leftarrow> check_admission (working_set i est s) first_chunk (sl_first_chunk_sum s) b ac;
     (case v of
        Admitted \<Rightarrow> do {
          let s = s\<lparr>sl_first_chunk_sum := sl_first_chunk_sum s + (case first_chunk of Some fc \<Rightarrow> fc | None \<Rightarrow> 0),
                    sl_estimates := bt_insert i est (sl_estimates s)\<rparr>;
          let w = \<lparr>w_id = i, w_arrival_seq = arrival_seq r, w_resume = resume r, prefix_id = None,
                   w_prompt_len = max (prompt_len r) (length (rm_prompt m)), w_cached_len = cached_len r,
                   max_chunk = lc_chunk_size cfg\<rparr>;
          s \<leftarrow> loop_trace i AdmittedEv s;
          Some (s, eligible @ [w])}
      | Denied d \<Rightarrow> do {s \<leftarrow> loop_trace i WaitedEv s; Some (s, eligible)})})"

definition loop_decoding_req :: "('x, 'c, 'p, 'o) SchedLoop \<Rightarrow> u64 \<Rightarrow> DecodingReq option" where
  "loop_decoding_req s i = do {
     r \<leftarrow> map_of (sl_reqs s) i;
     Some \<lparr>d_id = i, d_arrival_seq = arrival_seq r, d_resume = resume r\<rparr>}"

definition loop_preempt :: "('x, 'c, 'l, 'p, 'o) SchedEnv \<Rightarrow> u64
    \<Rightarrow> ('x, 'c, 'p, 'o) SchedLoop \<Rightarrow> ('x, 'c, 'p, 'o) SchedLoop option" where
  "loop_preempt env i s = do {
     r \<leftarrow> map_of (sl_reqs s) i;
     r' \<leftarrow> (case preempt r of Ok r' \<Rightarrow> Some r' | _ \<Rightarrow> None);
     s \<leftarrow> loop_trace i PreemptedEv ((set_req i r' s)\<lparr>sl_returned := sl_returned s + device_len r\<rparr>);
     let s = leave_decoding i s;
     s \<leftarrow> free_held env i (s\<lparr>sl_waiting := i # sl_waiting s\<rparr>);
     Some (drop_single env i s)}"

text \<open>
  The dispatch of one assignment: \<open>Inl\<close> is a \<^verbatim>\<open>continue\<close>, \<open>Inr\<close> goes on with the chunk.
\<close>

definition loop_dispatch :: "('x, 'c, 'l, 'p, 'o) SchedEnv \<Rightarrow> u64 \<Rightarrow> nat \<Rightarrow> nat
    \<Rightarrow> ('x, 'c, 'p, 'o) SchedLoop \<Rightarrow> (('x, 'c, 'p, 'o) SchedLoop + ('x, 'c, 'p, 'o) SchedLoop) option" where
  "loop_dispatch env i start e s = do {
     r \<leftarrow> map_of (sl_reqs s) i;
     m \<leftarrow> map_of (sl_meta s) i;
     if rq_state r = Waiting \<or> rq_state r = Preempted then do {
       (x, res) \<leftarrow> ex_alloc_segment (env_exec env) (window_pages (env_cfg env)) (sl_exec s);
       let s = s\<lparr>sl_exec := x\<rparr>;
       (case res of
          Inl err \<Rightarrow> map_option Inl (loop_trace i WaitedEv s)
        | Inr seg \<Rightarrow>
            (case start_prefill r (length (rm_prompt m)) (rm_max_output m) (e - start) of
               Ok r' \<Rightarrow> map_option Inr (loop_trace i PrefillStartEv
                          (set_req i r' (s\<lparr>sl_segs := bt_insert i seg (sl_segs s)\<rparr>)))
             | _ \<Rightarrow> None))}
     else if rq_state r = Chunked then
       (case dispatch_chunk r e of Ok r' \<Rightarrow> Some (Inr (set_req i r' s)) | _ \<Rightarrow> None)
     else None}"

text \<open>The chunk is staged by a hit of the prefix cache or by the engine.\<close>

definition loop_stage :: "('x, 'c, 'l, 'p, 'o) SchedEnv \<Rightarrow> u64 \<Rightarrow> nat \<Rightarrow> nat
    \<Rightarrow> ('x, 'c, 'p, 'o) SchedLoop \<Rightarrow> (('x, 'c, 'p, 'o) SchedLoop + ('x, 'c, 'p, 'o) SchedLoop) option" where
  "loop_stage env i start e s = do {
     m \<leftarrow> map_of (sl_meta s) i;
     let hit = (if start = 0 \<and> e = length (rm_prompt m)
                then Option.bind (sl_cache s) (\<lambda>c. lookup c (rm_prompt m)) else None);
     (case hit of
        Some h \<Rightarrow> do {
          _ \<leftarrow> (if hit_key_len h \<le> e then Some () else None);
          (x, res) \<leftarrow> ex_prefill_prefix_hit (env_exec env) h (drop (hit_key_len h) (take e (rm_prompt m))) (sl_exec s);
          let s = s\<lparr>sl_exec := x\<rparr>;
          (case res of
             Inl err \<Rightarrow> map_option Inl (request_abort env i (Some (PrefixHitErr err)) s)
           | Inr _ \<Rightarrow> Some (Inr (s\<lparr>sl_cache_hits := sl_cache_hits s + 1\<rparr>)))}
      | None \<Rightarrow> do {
          (x, res) \<leftarrow> ex_prefill (env_exec env) (drop start (take e (rm_prompt m))) (sl_exec s);
          let s = s\<lparr>sl_exec := x\<rparr>;
          (case res of
             Inl err \<Rightarrow> map_option Inl (request_abort env i (Some (PrefillErr err)) s)
           | Inr _ \<Rightarrow> Some (Inr s))})}"

text \<open>The end of an executor call that only may abort the request.\<close>

definition or_abort :: "('x, 'c, 'l, 'p, 'o) SchedEnv \<Rightarrow> u64 \<Rightarrow> (ExecError \<Rightarrow> LoopError) \<Rightarrow> ('x, unit) exec
    \<Rightarrow> ('x, 'c, 'p, 'o) SchedLoop \<Rightarrow> ('x, 'c, 'p, 'o) SchedLoop option" where
  "or_abort env i mk call s = do {
     (x, res) \<leftarrow> call;
     let s = s\<lparr>sl_exec := x\<rparr>;
     (case res of Inl err \<Rightarrow> request_abort env i (Some (mk err)) s | Inr _ \<Rightarrow> Some s)}"

definition loop_confirm :: "('x, 'c, 'l, 'p, 'o) SchedEnv \<Rightarrow> u64 \<Rightarrow> nat \<Rightarrow> nat
    \<Rightarrow> ('x, 'c, 'p, 'o) SchedLoop \<Rightarrow> ('x, 'c, 'p, 'o) SchedLoop option" where
  "loop_confirm env i start e s = do {
     seg \<leftarrow> map_of (sl_segs s) i;
     r \<leftarrow> map_of (sl_reqs s) i;
     (r', ev) \<leftarrow> confirm r;
     let s = set_req i r' s;
     (case ev of
        ChunkConfirmed \<Rightarrow> do {
          s \<leftarrow> loop_trace i ChunkDoneEv s;
          or_abort env i CommitErr (ex_commit_stage (env_exec env) seg start (e - start) (sl_exec s)) s}
      | PrefillDone \<Rightarrow> do {
          s \<leftarrow> loop_trace i PrefillDoneEv s;
          let s = leave_waiting i (join_decoding i s);
          m \<leftarrow> map_of (sl_meta s) i;
          _ \<leftarrow> (if rm_prompt m = [] then None else Some ());
          let s = s\<lparr>sl_meta := bt_insert i (m\<lparr>rm_cur := last (rm_prompt m)\<rparr>) (sl_meta s)\<rparr>;
          if length (sl_decoding s) = 1
          then or_abort env i AdoptErr (ex_adopt_singleton (env_exec env) i seg start (e - start) (sl_exec s)) s
          else or_abort env i CommitErr (ex_commit_stage (env_exec env) seg start (e - start) (sl_exec s)) s}
      | _ \<Rightarrow> None)}"

definition loop_prefill_one :: "('x, 'c, 'l, 'p, 'o) SchedEnv \<Rightarrow> u64 \<times> nat \<times> nat
    \<Rightarrow> ('x, 'c, 'p, 'o) SchedLoop \<Rightarrow> ('x, 'c, 'p, 'o) SchedLoop option" where
  "loop_prefill_one env = (\<lambda>(i, start, e) s. do {
     m \<leftarrow> map_of (sl_meta s) i;
     e \<leftarrow> align_chunk_end e (length (rm_prompt m)) (lc_block_len (env_cfg env));
     if e \<le> start then loop_trace i WaitedEv s
     else do {
       d \<leftarrow> loop_dispatch env i start e s;
       (case d of
          Inl s \<Rightarrow> Some s
        | Inr s \<Rightarrow> do {
            st \<leftarrow> loop_stage env i start e (s\<lparr>sl_dispatched := sl_dispatched s + (e - start)\<rparr>);
            (case st of Inl s \<Rightarrow> Some s | Inr s \<Rightarrow> loop_confirm env i start e s)})}})"

definition admit_schedule :: "('x, 'c, 'l, 'p, 'o) SchedEnv
    \<Rightarrow> ('x, 'c, 'p, 'o) SchedLoop \<Rightarrow> ('x, 'c, 'p, 'o) SchedLoop option" where
  "admit_schedule env s = do {
     (s, eligible) \<leftarrow> fold_opt (loop_admit_one (env_cfg env)) (sl_waiting s) (s\<lparr>sl_first_chunk_sum := 0\<rparr>, []);
     t \<leftarrow> pool_tokens (env_cfg env);
     let budget = t - loop_kv_usage s;
     ds \<leftarrow> those (map (loop_decoding_req s) (sl_decoding s));
     let sel = select_batch eligible ds budget 0 Fcfc;
     s \<leftarrow> fold_opt (loop_preempt env) (sel_preempted sel) s;
     fold_opt (loop_prefill_one env) (sel_prefill sel) s}"

section \<open>Decoding\<close>

definition exec_req :: "('x, 'c, 'p, 'o) SchedLoop \<Rightarrow> u64 \<Rightarrow> ExecReq option" where
  "exec_req s i = do {
     m \<leftarrow> map_of (sl_meta s) i;
     r \<leftarrow> map_of (sl_reqs s) i;
     p \<leftarrow> chk_sub (cached_len r) 1;
     seg \<leftarrow> map_of (sl_segs s) i;
     Some \<lparr>xr_id = i, xr_token = rm_cur m, xr_pos = p, xr_kv_len = cached_len r, xr_seg = seg\<rparr>}"

text \<open>Sampling on the chain of the request, with the log probabilities when they are wanted.\<close>

definition sample_token :: "('x, 'c, 'l, 'p, 'o) SchedEnv \<Rightarrow> 'l \<Rightarrow> ('c, 'p) ReqMeta
    \<Rightarrow> (('c, 'p) ReqMeta \<times> (LoopError + nat \<times> 'o option)) option" where
  "sample_token env logits m =
     (case chain_sample (env_sampler env) (rm_sampler_params m) (lc_dev (env_cfg env)) (lc_vocab (env_cfg env))
             logits (rm_chain m) of
        (ch, Inl msg) \<Rightarrow> Some (m\<lparr>rm_chain := ch\<rparr>, Inl (SamplerErr msg))
      | (ch, Inr t) \<Rightarrow>
          if 0 < rm_logprobs_top_n m
          then map_option (\<lambda>out. (m\<lparr>rm_chain := ch\<rparr>, Inr (t, Some out)))
                 (token_out (env_sampler env) logits t (rm_logprobs_top_n m))
          else Some (m\<lparr>rm_chain := ch\<rparr>, Inr (t, None)))"

text \<open>
  The new text of a request: what follows the bytes sent so far. Slicing off a character boundary
  panics.
\<close>

definition text_delta :: "str \<Rightarrow> nat \<Rightarrow> (str \<times> nat) option" where
  "text_delta full sent =
     (if sent < length full then (if boundary full sent then Some (drop sent full, length full) else None)
      else Some ([], sent))"

definition emit_token :: "('x, 'c, 'l, 'p, 'o) SchedEnv \<Rightarrow> u64 \<Rightarrow> nat \<Rightarrow> 'o option
    \<Rightarrow> ('x, 'c, 'p, 'o) SchedLoop \<Rightarrow> ('x, 'c, 'p, 'o) SchedLoop option" where
  "emit_token env i t out s = do {
     m \<leftarrow> map_of (sl_meta s) i;
     let m = m\<lparr>rm_cur := t, rm_generated := rm_generated m @ [t]\<rparr>;
     (d, sent) \<leftarrow> text_delta (lc_detok (env_cfg env) (rm_generated m)) (rm_last_len m);
     let s = s\<lparr>sl_meta := bt_insert i (m\<lparr>rm_last_len := sent\<rparr>) (sl_meta s)\<rparr>;
     (case blocking_send env (rm_tx m) (TokenFrame d out) s of
        (s, True) \<Rightarrow> Some s
      | (s, False) \<Rightarrow> request_abort env i None s)}"

definition decode_token :: "('x, 'c, 'l, 'p, 'o) SchedEnv \<Rightarrow> u64 \<Rightarrow> nat \<Rightarrow> 'o option
    \<Rightarrow> ('x, 'c, 'p, 'o) SchedLoop \<Rightarrow> ('x, 'c, 'p, 'o) SchedLoop option" where
  "decode_token env i t out s = do {
     r \<leftarrow> map_of (sl_reqs s) i;
     (r', ev) \<leftarrow> decode_step r t;
     let s = set_req i r' (s\<lparr>sl_dispatched := sl_dispatched s + 1\<rparr>);
     (case ev of
        DecodeConfirmed t \<Rightarrow> do {s \<leftarrow> loop_trace i (DecodeTokenEv t) s; emit_token env i t out s}
      | Stopped \<Rightarrow> do {s \<leftarrow> loop_trace i StoppedEv s; loop_terminal env i False True s}
      | Eos \<Rightarrow> do {s \<leftarrow> loop_trace i EosEv s; loop_terminal env i True False s}
      | MaxOutput \<Rightarrow> do {s \<leftarrow> loop_trace i MaxOutputEv s; loop_terminal env i False False s}
      | _ \<Rightarrow> None)}"

definition loop_decode_one :: "('x, 'c, 'l, 'p, 'o) SchedEnv \<Rightarrow> 'l list \<Rightarrow> nat \<times> u64
    \<Rightarrow> ('x, 'c, 'p, 'o) SchedLoop \<Rightarrow> ('x, 'c, 'p, 'o) SchedLoop option" where
  "loop_decode_one env rows = (\<lambda>(k, i) s. do {
     r \<leftarrow> map_of (sl_reqs s) i;
     if rq_state r \<noteq> Decode then Some s
     else do {
       logits \<leftarrow> (if k < length rows then Some (rows ! k) else None);
       if all_nan (env_sampler env) logits then request_abort env i (Some OnlyNaN) s
       else do {
         m \<leftarrow> map_of (sl_meta s) i;
         (m', res) \<leftarrow> sample_token env logits m;
         let s = s\<lparr>sl_meta := bt_insert i m' (sl_meta s)\<rparr>;
         (case res of
            Inl er \<Rightarrow> request_abort env i (Some er) s
          | Inr (t, out) \<Rightarrow> decode_token env i t out s)}}})"

definition loop_decode_step :: "('x, 'c, 'l, 'p, 'o) SchedEnv
    \<Rightarrow> ('x, 'c, 'p, 'o) SchedLoop \<Rightarrow> ('x, 'c, 'p, 'o) SchedLoop option" where
  "loop_decode_step env s =
     (let s = s\<lparr>sl_decoding := sort (sl_decoding s)\<rparr>; ids = sl_decoding s
      in if ids = [] then Some s
         else do {
           xs \<leftarrow> those (map (exec_req s) ids);
           (x, res) \<leftarrow> ex_decode_batch (env_exec env) xs (sl_exec s);
           let s = s\<lparr>sl_exec := x\<rparr>;
           (case res of
              Inl err \<Rightarrow> fold_opt (\<lambda>i. request_abort env i (Some (DecodeErr err))) ids s
            | Inr rows \<Rightarrow> fold_opt (loop_decode_one env rows) (enumerate 0 ids) s)})"

section \<open>The event loop\<close>

definition iterate :: "('x, 'c, 'l, 'p, 'o) SchedEnv
    \<Rightarrow> ('x, 'c, 'p, 'o) SchedLoop \<Rightarrow> ('x, 'c, 'p, 'o) SchedLoop option" where
  "iterate env s = do {
     s \<leftarrow> admit_schedule env s;
     s \<leftarrow> loop_decode_step env s;
     Some (s\<lparr>sl_step := sl_step s + 1\<rparr>)}"

text \<open>The inner loop over the commands that are queued; the result says whether one was the shutdown.\<close>

fun drain_cmds :: "('x, 'c, 'l, 'p, 'o) SchedEnv \<Rightarrow> 'p SchedCmd list
    \<Rightarrow> ('x, 'c, 'p, 'o) SchedLoop \<Rightarrow> (('x, 'c, 'p, 'o) SchedLoop \<times> bool) option" where
  "drain_cmds env [] s = Some (s, False)"
| "drain_cmds env (c # cs) s = do {
     (s, halt) \<leftarrow> handle_cmd env c s;
     if halt then Some (s, True) else drain_cmds env cs s}"

text \<open>
  One turn of the loop with the commands \<open>q\<close> in the channel: idle, it takes one command (or waits
  for one); otherwise it takes all of them and makes a step. The result is the state, the commands
  left in the channel, and whether the loop has returned.
\<close>

definition loop_turn :: "('x, 'c, 'l, 'p, 'o) SchedEnv \<Rightarrow> 'p SchedCmd list
    \<Rightarrow> ('x, 'c, 'p, 'o) SchedLoop \<Rightarrow> (('x, 'c, 'p, 'o) SchedLoop \<times> 'p SchedCmd list \<times> bool) option" where
  "loop_turn env q s =
     (if loop_is_idle s
      then (case q of
          [] \<Rightarrow> Some (s, [], False)
        | c # q \<Rightarrow> do {(s, halt) \<leftarrow> handle_cmd env c s; Some (s, q, halt)})
      else do {
        (s, halt) \<leftarrow> drain_cmds env q s;
        if halt \<or> (0 < lc_max_steps (env_cfg env) \<and> lc_max_steps (env_cfg env) \<le> sl_step s)
        then Some (s, [], True)
        else do {s \<leftarrow> iterate env s; Some (s, [], False)}})"

text \<open>
  The loop over a list of feeds: before each turn the clients put the next feed into the channel.
  Every finite part of a run of the loop is one of these.
\<close>

fun loop_run :: "('x, 'c, 'l, 'p, 'o) SchedEnv \<Rightarrow> 'p SchedCmd list list \<Rightarrow> 'p SchedCmd list
    \<Rightarrow> ('x, 'c, 'p, 'o) SchedLoop \<Rightarrow> (('x, 'c, 'p, 'o) SchedLoop \<times> 'p SchedCmd list \<times> bool) option" where
  "loop_run env [] q s = Some (s, q, False)"
| "loop_run env (feed # feeds) q s = do {
     (s, q, fin) \<leftarrow> loop_turn env (q @ feed) s;
     if fin then Some (s, q, True) else loop_run env feeds q s}"

end
