(* ===== verification/Sched_Cuda.thy ===== *)
theory Sched_Cuda
  imports Sched Segment_Inv
begin

text \<open>
  The executor for the device (\<^verbatim>\<open>CudaBatchExecutor\<close> of \<^verbatim>\<open>bin/reinfer/src/sched_loop.rs\<close>): the
  segment pool, the request whose key-value pages are in the engine (the singleton), and the copies
  between the engine and the pool. The engine and the copies of the driver are parameters; where a
  copy starts, where it goes and how long it is are computed here as in the source.
\<close>

section \<open>The device\<close>

datatype Region = KRegion | VRegion

datatype CopyDir = EngineToPool | PoolToEngine

datatype SegRef = EngineSeg nat | PoolSeg nat nat

record BatchReq =
  br_token :: nat
  br_pos :: nat
  br_kv :: SegRef

text \<open>
  \<open>dev_memcpy dir region src dst bytes\<close> is one \<^verbatim>\<open>cudaMemcpy\<close> between the two stores, with the
  offsets in bytes; \<open>dev_guard\<close> makes the context current.
\<close>

record ('d, 'l) Device =
  dev_guard :: "'d \<Rightarrow> string + unit"
  dev_memcpy :: "CopyDir \<Rightarrow> Region \<Rightarrow> nat \<Rightarrow> nat \<Rightarrow> nat \<Rightarrow> 'd \<Rightarrow> 'd \<times> (string + unit)"
  dev_prefill_batch :: "nat list \<Rightarrow> 'd \<Rightarrow> 'd \<times> (string + unit)"
  dev_step :: "nat \<Rightarrow> nat \<Rightarrow> nat \<Rightarrow> 'd \<Rightarrow> 'd \<times> (string + unit)"
  dev_batch_decode :: "BatchReq list \<Rightarrow> 'd \<Rightarrow> 'd \<times> (string + 'l list)"

section \<open>The state\<close>

record Singleton =
  sg_id :: u64
  sg_seg :: KvSegment
  sg_kv_len :: nat

record 'd CudaBatchExecutor =
  cx_device :: 'd
  cx_pool :: KvSegmentPool
  cx_anchor :: KvSegment
  cx_n_layer :: nat
  cx_pp :: nat
  cx_kv_heads :: nat
  cx_d :: nat
  cx_block_len :: nat
  cx_singleton :: "Singleton option"

text \<open>
  The host side of \<^verbatim>\<open>load\<close>, after the engine is loaded and the store is allocated: the pool, and
  the anchor at its end.
\<close>

definition cuda_load :: "nat \<Rightarrow> nat \<Rightarrow> nat \<Rightarrow> nat \<Rightarrow> nat \<Rightarrow> 'd
    \<Rightarrow> (string + 'd CudaBatchExecutor) option" where
  "cuda_load n_layer kv_heads d max_len kv_pages dv =
     (let block = 32; pp = div_ceil max_len block; window = n_layer * pp
      in if kv_pages < window then Some (Inl ''pool smaller than a window'')
         else (case sp_alloc_from_end (sp_new B32 kv_pages) window of
             Ok (anchor, pool) \<Rightarrow> Some (Inr \<lparr>cx_device = dv, cx_pool = pool, cx_anchor = anchor,
               cx_n_layer = n_layer, cx_pp = pp, cx_kv_heads = kv_heads, cx_d = d,
               cx_block_len = block, cx_singleton = None\<rparr>)
           | Err e \<Rightarrow> Some (Inl ''anchor alloc'')
           | Panic \<Rightarrow> None))"

definition page_bytes :: "'d CudaBatchExecutor \<Rightarrow> nat" where
  "page_bytes x = cx_block_len x * cx_kv_heads x * cx_d x * 2"

section \<open>Copies\<close>

text \<open>The loop over the layers; \<open>run li\<close> gives the two offsets of a layer.\<close>

fun copy_layers :: "('d, 'l) Device \<Rightarrow> CopyDir \<Rightarrow> (nat \<Rightarrow> nat \<times> nat) \<Rightarrow> nat \<Rightarrow> nat list
    \<Rightarrow> 'd CudaBatchExecutor \<Rightarrow> 'd CudaBatchExecutor \<times> (ExecError + unit)" where
  "copy_layers dev dir run bytes [] x = (x, Inr ())"
| "copy_layers dev dir run bytes (li # lis) x =
     (case dev_memcpy dev dir KRegion (fst (run li)) (snd (run li)) bytes (cx_device x) of
        (dv, Inl msg) \<Rightarrow> (x\<lparr>cx_device := dv\<rparr>, Inl (CopyErr msg))
      | (dv, Inr _) \<Rightarrow>
          (case dev_memcpy dev dir VRegion (fst (run li)) (snd (run li)) bytes dv of
             (dv, Inl msg) \<Rightarrow> (x\<lparr>cx_device := dv\<rparr>, Inl (CopyErr msg))
           | (dv, Inr _) \<Rightarrow> copy_layers dev dir run bytes lis (x\<lparr>cx_device := dv\<rparr>)))"

definition copy_run :: "('d, 'l) Device \<Rightarrow> CopyDir \<Rightarrow> (nat \<Rightarrow> nat \<times> nat) \<Rightarrow> nat
    \<Rightarrow> 'd CudaBatchExecutor \<Rightarrow> 'd CudaBatchExecutor \<times> (ExecError + unit)" where
  "copy_run dev dir run pages x =
     (if pages = 0 then (x, Inr ())
      else case dev_guard dev (cx_device x) of
        Inl msg \<Rightarrow> (x, Inl (CopyErr msg))
      | Inr _ \<Rightarrow> copy_layers dev dir run (pages * page_bytes x) [0..<cx_n_layer x] x)"

definition engine_off :: "'d CudaBatchExecutor \<Rightarrow> nat \<Rightarrow> nat" where
  "engine_off x li = li * cx_pp x * page_bytes x"

definition pool_off :: "'d CudaBatchExecutor \<Rightarrow> KvSegment \<Rightarrow> nat \<Rightarrow> nat \<Rightarrow> nat" where
  "pool_off x seg layer0 li = (base_page seg + layer0 + li * cx_pp x) * page_bytes x"

definition copy_engine_to_pool :: "('d, 'l) Device \<Rightarrow> KvSegment \<Rightarrow> nat \<Rightarrow> nat
    \<Rightarrow> 'd CudaBatchExecutor \<Rightarrow> 'd CudaBatchExecutor \<times> (ExecError + unit)" where
  "copy_engine_to_pool dev seg dst_layer0 pages x =
     copy_run dev EngineToPool (\<lambda>li. (engine_off x li, pool_off x seg dst_layer0 li)) pages x"

definition copy_pool_to_engine :: "('d, 'l) Device \<Rightarrow> KvSegment \<Rightarrow> nat \<Rightarrow> nat
    \<Rightarrow> 'd CudaBatchExecutor \<Rightarrow> 'd CudaBatchExecutor \<times> (ExecError + unit)" where
  "copy_pool_to_engine dev seg src_layer0 pages x =
     copy_run dev PoolToEngine (\<lambda>li. (pool_off x seg src_layer0 li, engine_off x li)) pages x"

section \<open>Operations\<close>

text \<open>\<^verbatim>\<open>?\<close> on a pair of state and result.\<close>

fun and_then :: "'x \<times> (ExecError + 'a) \<Rightarrow> ('a \<Rightarrow> 'x \<Rightarrow> 'x \<times> (ExecError + 'b)) \<Rightarrow> 'x \<times> (ExecError + 'b)" where
  "and_then (x, Inl e) f = (x, Inl e)"
| "and_then (x, Inr a) f = f a x"

definition flush_singleton :: "('d, 'l) Device
    \<Rightarrow> 'd CudaBatchExecutor \<Rightarrow> 'd CudaBatchExecutor \<times> (ExecError + unit)" where
  "flush_singleton dev x = (case cx_singleton x of
       None \<Rightarrow> (x, Inr ())
     | Some s \<Rightarrow> copy_engine_to_pool dev (sg_seg s) 0 (div_ceil (sg_kv_len s) (cx_block_len x))
                  (x\<lparr>cx_singleton := None\<rparr>))"

definition cuda_alloc_segment :: "nat \<Rightarrow> 'd CudaBatchExecutor \<Rightarrow> ('d CudaBatchExecutor, KvSegment) exec" where
  "cuda_alloc_segment n x = (case sp_alloc (cx_pool x) n of
       Ok (seg, p) \<Rightarrow> Some (x\<lparr>cx_pool := p\<rparr>, Inr seg)
     | Err e \<Rightarrow> Some (x, Inl (PoolErr ''segment alloc''))
     | Panic \<Rightarrow> None)"

definition cuda_free_segment :: "KvSegment \<Rightarrow> 'd CudaBatchExecutor \<Rightarrow> 'd CudaBatchExecutor option" where
  "cuda_free_segment seg x = map_option (\<lambda>p. x\<lparr>cx_pool := p\<rparr>) (sp_free_seg (cx_pool x) seg)"

definition engine_call :: "('d \<Rightarrow> 'd \<times> (string + 'a)) \<Rightarrow> 'd CudaBatchExecutor \<Rightarrow> 'd CudaBatchExecutor \<times> (ExecError + 'a)" where
  "engine_call f x = (case f (cx_device x) of
       (dv, Inl msg) \<Rightarrow> (x\<lparr>cx_device := dv\<rparr>, Inl (EngineErr msg))
     | (dv, Inr a) \<Rightarrow> (x\<lparr>cx_device := dv\<rparr>, Inr a))"

definition cuda_prefill :: "('d, 'l) Device \<Rightarrow> nat list \<Rightarrow> 'd CudaBatchExecutor \<Rightarrow> ('d CudaBatchExecutor, unit) exec" where
  "cuda_prefill dev ids x =
     Some (and_then (flush_singleton dev x) (\<lambda>_. engine_call (dev_prefill_batch dev ids)))"

fun step_suffix :: "('d, 'l) Device \<Rightarrow> nat \<Rightarrow> nat list
    \<Rightarrow> 'd CudaBatchExecutor \<Rightarrow> 'd CudaBatchExecutor \<times> (ExecError + unit)" where
  "step_suffix dev pos [] x = (x, Inr ())"
| "step_suffix dev pos (t # ts) x =
     and_then (engine_call (dev_step dev t pos (pos + 1)) x) (\<lambda>_. step_suffix dev (pos + 1) ts)"

definition cuda_prefill_prefix_hit :: "('d, 'l) Device \<Rightarrow> PrefixHit \<Rightarrow> nat list
    \<Rightarrow> 'd CudaBatchExecutor \<Rightarrow> ('d CudaBatchExecutor, unit) exec" where
  "cuda_prefill_prefix_hit dev hit ids_suffix x =
     Some (and_then (flush_singleton dev x) (\<lambda>_ x.
       let run = \<lparr>base_page = hit_base_page hit, n_pages = hit_pages hit\<rparr>
       in and_then (copy_pool_to_engine dev run 0 (hit_pages hit) x)
            (\<lambda>_. step_suffix dev (hit_key_len hit) ids_suffix)))"

text \<open>The runs of a cached prefix, one per layer.\<close>

definition layer_run :: "nat \<Rightarrow> nat \<Rightarrow> nat \<Rightarrow> nat \<Rightarrow> KvSegment" where
  "layer_run pp base pages li = \<lparr>base_page = base + li * pp, n_pages = pages\<rparr>"

fun on_runs :: "(KvSegmentPool \<Rightarrow> KvSegment \<Rightarrow> KvSegmentPool option) \<Rightarrow> (nat \<Rightarrow> KvSegment) \<Rightarrow> nat list
    \<Rightarrow> KvSegmentPool \<Rightarrow> KvSegmentPool option" where
  "on_runs f run [] p = Some p"
| "on_runs f run (li # lis) p = Option.bind (f p (run li)) (on_runs f run lis)"

definition cuda_refill_prefix :: "('d, 'l) Device \<Rightarrow> u64 \<Rightarrow> KvSegment \<Rightarrow> nat
    \<Rightarrow> 'd CudaBatchExecutor \<Rightarrow> 'd CudaBatchExecutor option" where
  "cuda_refill_prefix dev i seg prefix_pages x =
     (let flushed = (case cx_singleton x of
            Some s \<Rightarrow> if sg_id s = i
                       then copy_engine_to_pool dev seg 0 (div_ceil (sg_kv_len s) (cx_block_len x)) (x\<lparr>cx_singleton := None\<rparr>)
                       else (x\<lparr>cx_singleton := None\<rparr>, Inr ())
          | None \<Rightarrow> (x, Inr ()))
      in case flushed of
           (x, Inl err) \<Rightarrow> cuda_free_segment seg x
         | (x, Inr _) \<Rightarrow>
             if prefix_pages = 0 then cuda_free_segment seg x
             else do {
               p \<leftarrow> on_runs sp_ref (layer_run (cx_pp x) (base_page seg) prefix_pages) [0..<cx_n_layer x] (cx_pool x);
               cuda_free_segment seg (x\<lparr>cx_pool := p\<rparr>)})"

definition cuda_unref_prefix :: "nat \<Rightarrow> nat \<Rightarrow> 'd CudaBatchExecutor \<Rightarrow> 'd CudaBatchExecutor option" where
  "cuda_unref_prefix base pages x =
     map_option (\<lambda>p. x\<lparr>cx_pool := p\<rparr>)
       (on_runs sp_unref (layer_run (cx_pp x) base pages) [0..<cx_n_layer x] (cx_pool x))"

definition cuda_commit_stage :: "('d, 'l) Device \<Rightarrow> KvSegment \<Rightarrow> nat \<Rightarrow> nat
    \<Rightarrow> 'd CudaBatchExecutor \<Rightarrow> ('d CudaBatchExecutor, unit) exec" where
  "cuda_commit_stage dev seg start len x = do {
     q \<leftarrow> chk_div start (cx_block_len x);
     Some (copy_engine_to_pool dev seg q (div_ceil len (cx_block_len x)) x)}"

definition cuda_adopt_singleton :: "('d, 'l) Device \<Rightarrow> u64 \<Rightarrow> KvSegment \<Rightarrow> nat \<Rightarrow> nat
    \<Rightarrow> 'd CudaBatchExecutor \<Rightarrow> ('d CudaBatchExecutor, unit) exec" where
  "cuda_adopt_singleton dev i seg start len x =
     Some (and_then (if 0 < start then copy_pool_to_engine dev seg 0 (div_ceil start (cx_block_len x)) x else (x, Inr ()))
       (\<lambda>_ x. (x\<lparr>cx_singleton := Some \<lparr>sg_id = i, sg_seg = seg, sg_kv_len = start + len\<rparr>\<rparr>, Inr ())))"

definition cuda_drop_singleton :: "u64 \<Rightarrow> 'd CudaBatchExecutor \<Rightarrow> 'd CudaBatchExecutor" where
  "cuda_drop_singleton i x =
     (if map_option sg_id (cx_singleton x) = Some i then x\<lparr>cx_singleton := None\<rparr> else x)"

definition pool_batch_req :: "ExecReq \<Rightarrow> BatchReq" where
  "pool_batch_req r = \<lparr>br_token = xr_token r, br_pos = xr_pos r,
     br_kv = PoolSeg (base_page (xr_seg r) mod 2 ^ 32) (xr_kv_len r)\<rparr>"

definition cuda_decode_batch :: "('d, 'l) Device \<Rightarrow> ExecReq list
    \<Rightarrow> 'd CudaBatchExecutor \<Rightarrow> ('d CudaBatchExecutor, 'l list) exec" where
  "cuda_decode_batch dev rs x = Some (case rs of
       [] \<Rightarrow> (x, Inl (MsgErr ''empty decode batch''))
     | [r] \<Rightarrow>
         and_then (if map_option sg_id (cx_singleton x) = Some (xr_id r) then (x, Inr ())
                   else copy_pool_to_engine dev (xr_seg r) 0 (div_ceil (xr_kv_len r) (cx_block_len x)) x)
           (\<lambda>_ x. and_then (engine_call (dev_batch_decode dev [\<lparr>br_token = xr_token r, br_pos = xr_pos r,
                                br_kv = EngineSeg (xr_kv_len r)\<rparr>]) x)
             (\<lambda>lg x. (x\<lparr>cx_singleton := Some \<lparr>sg_id = xr_id r, sg_seg = xr_seg r, sg_kv_len = xr_kv_len r\<rparr>\<rparr>, Inr lg)))
     | _ \<Rightarrow>
         and_then (flush_singleton dev x) (\<lambda>_ x.
         and_then (engine_call (dev_batch_decode dev (map pool_batch_req rs @ [\<lparr>br_token = 0, br_pos = 0,
                                br_kv = PoolSeg (base_page (cx_anchor x) mod 2 ^ 32) 1\<rparr>])) x)
           (\<lambda>lg x. (x, Inr (butlast lg)))))"

definition cuda_executor :: "('d, 'l) Device \<Rightarrow> ('d CudaBatchExecutor, 'l) BatchExecutor" where
  "cuda_executor dev = \<lparr>
     ex_alloc_segment = cuda_alloc_segment,
     ex_free_segment = cuda_free_segment,
     ex_prefill = cuda_prefill dev,
     ex_prefill_prefix_hit = cuda_prefill_prefix_hit dev,
     ex_refill_prefix = cuda_refill_prefix dev,
     ex_unref_prefix = cuda_unref_prefix,
     ex_commit_stage = cuda_commit_stage dev,
     ex_adopt_singleton = cuda_adopt_singleton dev,
     ex_drop_singleton = cuda_drop_singleton,
     ex_decode_batch = cuda_decode_batch dev,
     ex_pool_stats = stats \<circ> cx_pool\<rparr>"

end
