(* ===== verification/Sched_Contract.thy ===== *)
theory Sched_Contract
  imports Sched_Cuda
begin

text \<open>
  What the event loop relies on in its executor, as a locale: which segments and cached prefixes the
  executor holds for the loop. The executor for the device is shown to provide it, for a device
  whose copies succeed and whose decode batches return a row per request.
\<close>

declare set_seg_pages [simp del]

section \<open>The contract\<close>

text \<open>The page runs of a cached prefix, one per layer.\<close>

definition prefix_runs :: "nat \<Rightarrow> nat \<Rightarrow> nat \<Rightarrow> nat \<Rightarrow> KvSegment multiset" where
  "prefix_runs nl pp base k = mset (map (layer_run pp base k) [0..<nl])"

text \<open>
  \<open>owns x M\<close>: the runs of pages in \<open>M\<close> are held in the executor state \<open>x\<close>, each once. Every
  operation returns; allocation adds a segment, release removes it, and keeping a prefix turns a
  segment into the runs of the prefix.
\<close>

locale segment_executor =
  fixes ex :: "('x, 'l) BatchExecutor"
    and owns :: "'x \<Rightarrow> KvSegment multiset \<Rightarrow> bool"
    and nl pp :: nat
  assumes alloc: "owns x M \<Longrightarrow> \<exists>x' res. ex_alloc_segment ex n x = Some (x', res)
      \<and> (case res of Inl e \<Rightarrow> owns x' M
         | Inr seg \<Rightarrow> n_pages seg = n \<and> base_page seg < 2 ^ 32 \<and> owns x' (add_mset seg M))"
    and free: "owns x (add_mset seg M) \<Longrightarrow> \<exists>x'. ex_free_segment ex seg x = Some x' \<and> owns x' M"
    and prefill: "owns x M \<Longrightarrow> \<exists>x' res. ex_prefill ex ids x = Some (x', res) \<and> owns x' M"
    and hit: "owns x M \<Longrightarrow> \<exists>x' res. ex_prefill_prefix_hit ex h ids x = Some (x', res) \<and> owns x' M"
    and refill: "owns x (add_mset seg M) \<Longrightarrow> 0 < k \<Longrightarrow> k \<le> pp \<Longrightarrow> n_pages seg = nl * pp \<Longrightarrow>
      \<exists>x'. ex_refill_prefix ex i seg k x = Some x' \<and> owns x' (prefix_runs nl pp (base_page seg) k + M)"
    and unref: "owns x (prefix_runs nl pp b k + M) \<Longrightarrow> \<exists>x'. ex_unref_prefix ex b k x = Some x' \<and> owns x' M"
    and commit: "owns x M \<Longrightarrow> \<exists>x' res. ex_commit_stage ex seg a len x = Some (x', res) \<and> owns x' M"
    and adopt: "owns x M \<Longrightarrow> \<exists>x' res. ex_adopt_singleton ex i seg a len x = Some (x', res) \<and> owns x' M"
    and drop: "owns x M \<Longrightarrow> owns (ex_drop_singleton ex i x) M"
    and decode: "owns x M \<Longrightarrow> \<exists>x' res. ex_decode_batch ex rs x = Some (x', res) \<and> owns x' M
      \<and> (\<forall>rows. res = Inr rows \<longrightarrow> length rs \<le> length rows)"
begin

text \<open>The evicted prefixes of the cache are given back one after the other.\<close>

lemma unref_evicted:
  "owns x (\<Sum>\<^sub># (image_mset (\<lambda>e. prefix_runs nl pp (ev_base_page e) (ev_pages e)) (mset es)) + M) \<Longrightarrow>
    \<exists>x'. unref_all (ex_unref_prefix ex) es x = Some x' \<and> owns x' M"
proof (induction es arbitrary: x)
  case (Cons e es)
  have "owns x (prefix_runs nl pp (ev_base_page e) (ev_pages e)
      + (\<Sum>\<^sub># (image_mset (\<lambda>e. prefix_runs nl pp (ev_base_page e) (ev_pages e)) (mset es)) + M))"
    using Cons.prems by (simp add: add.assoc)
  from unref [OF this] obtain y where y: "ex_unref_prefix ex (ev_base_page e) (ev_pages e) x = Some y"
    "owns y (\<Sum>\<^sub># (image_mset (\<lambda>e. prefix_runs nl pp (ev_base_page e) (ev_pages e)) (mset es)) + M)" by blast
  from Cons.IH [OF y(2)] show ?case using y(1) by simp
qed simp

end

section \<open>References on disjoint parts of a run\<close>

lemma on_runs_ref:
  assumes "seg_refs.owns p M" "h \<in># M"
    and "\<And>li. li \<in> set lis \<Longrightarrow> set (seg_pages (run li)) \<subseteq> set (seg_pages h)"
    and "\<And>li i. li \<in> set lis \<Longrightarrow> i \<in> set (seg_pages (run li)) \<Longrightarrow> seg_refs.cover M i < u32_max"
    and "distinct lis" "\<And>li lj. li \<in> set lis \<Longrightarrow> lj \<in> set lis \<Longrightarrow> li \<noteq> lj \<Longrightarrow>
      set (seg_pages (run li)) \<inter> set (seg_pages (run lj)) = {}"
  shows "\<exists>p'. on_runs sp_ref run lis p = Some p' \<and> seg_refs.owns p' (mset (map run lis) + M) \<and> sp_total p' = sp_total p"
  using assms
proof (induction lis arbitrary: p M)
  case (Cons li lis)
  let ?g = "run li"
  have live: "\<forall>i\<in>set (seg_pages ?g). i < sp_total p \<and> 1 \<le> rc p i \<and> rc p i < u32_max"
  proof
    fix i assume i: "i \<in> set (seg_pages ?g)"
    then have "i \<in> set (seg_pages h)" using Cons.prems(3) [of li] by simp blast
    then have "0 < seg_refs.cover M i" by (rule seg_refs.cover_member_pos [OF Cons.prems(2)])
    moreover have "rc p i = seg_refs.cover M i" "seg_inv p"
      using Cons.prems(1) unfolding seg_refs.owns_def by (simp_all)
    ultimately show "i < sp_total p \<and> 1 \<le> rc p i \<and> rc p i < u32_max"
      using Cons.prems(4) [of li i] i seg_refs.rc_cap [of p i] by simp
  qed
  have "seg_inv p" using Cons.prems(1) unfolding seg_refs.owns_def by simp
  from seg_refs.ref_ok [OF this live] obtain q where q: "sp_ref p ?g = Some q" "seg_inv q" "sp_total q = sp_total p"
    "rc q = (\<lambda>i. if i \<in> set (seg_pages ?g) then rc p i + 1 else rc p i)" by blast
  have own: "seg_refs.owns q (add_mset ?g M)"
    using q Cons.prems(1) unfolding seg_refs.owns_def by (simp add: fun_eq_iff)
  have "\<exists>p'. on_runs sp_ref run lis q = Some p' \<and> seg_refs.owns p' (mset (map run lis) + add_mset ?g M)
      \<and> sp_total p' = sp_total q"
  proof (rule Cons.IH [OF own])
    fix lj i assume lj: "lj \<in> set lis" "i \<in> set (seg_pages (run lj))"
    then have "lj \<noteq> li" using Cons.prems(5) by auto
    then have "i \<notin> set (seg_pages ?g)" using Cons.prems(6) [of lj li] lj by auto
    then show "seg_refs.cover (add_mset ?g M) i < u32_max"
      using Cons.prems(4) [of lj i] lj by simp
  qed (use Cons.prems in \<open>simp_all\<close>)
  then show ?case using q(1,3) by simp
qed simp

lemma on_runs_unref:
  "seg_refs.owns p (mset (map run lis) + M) \<Longrightarrow>
    \<exists>p'. on_runs sp_unref run lis p = Some p' \<and> seg_refs.owns p' M \<and> sp_total p' = sp_total p"
proof (induction lis arbitrary: p)
  case (Cons li lis)
  have "seg_refs.owns p (add_mset (run li) (mset (map run lis) + M))" using Cons.prems by simp
  from seg_refs.owns_unref [OF this] obtain q where q: "sp_unref p (run li) = Some q"
    "seg_refs.owns q (mset (map run lis) + M)" "sp_total q = sp_total p" by blast
  from Cons.IH [OF q(2)] show ?case using q(1,3) by simp
qed simp

section \<open>The executor of the device\<close>

definition device_ok :: "('d, 'l) Device \<Rightarrow> bool" where
  "device_ok dev \<longleftrightarrow> (\<forall>d. dev_guard dev d = Inr ())
     \<and> (\<forall>dir reg a b n d. snd (dev_memcpy dev dir reg a b n d) = Inr ())
     \<and> (\<forall>rs d rows. snd (dev_batch_decode dev rs d) = Inr rows \<longrightarrow> length rows = length rs)"

text \<open>
  The executor, with its anchor \<open>an\<close> and a pool of \<open>kp\<close> pages, holds exactly the runs \<open>M\<close>, and no page of the pool is in two of them.
\<close>

definition cuda_owns :: "('d, 'l) Device \<Rightarrow> nat \<Rightarrow> nat \<Rightarrow> KvSegment \<Rightarrow> nat \<Rightarrow> 'd CudaBatchExecutor \<Rightarrow> KvSegment multiset \<Rightarrow> bool" where
  "cuda_owns dev nl pp an kp x M \<longleftrightarrow> device_ok dev \<and> cx_n_layer x = nl \<and> cx_pp x = pp \<and> 0 < cx_block_len x
     \<and> cx_anchor x = an \<and> sp_total (cx_pool x) = kp \<and> kp \<le> 2 ^ 32 \<and> seg_refs.owns (cx_pool x) M \<and> (\<forall>i. seg_refs.cover M i \<le> 1)"

lemma cuda_ownsD:
  assumes "cuda_owns dev nl pp an kp x M"
  shows "device_ok dev" "cx_n_layer x = nl" "cx_pp x = pp" "0 < cx_block_len x"
    "sp_total (cx_pool x) \<le> 2 ^ 32" "seg_refs.owns (cx_pool x) M" "seg_refs.cover M i \<le> 1"
    "cx_anchor x = an" "sp_total (cx_pool x) = kp" "kp \<le> 2 ^ 32"
  using assms by (simp_all add: cuda_owns_def)

text \<open>What operations that only move data leave alone.\<close>

definition same_host :: "'d CudaBatchExecutor \<Rightarrow> 'd CudaBatchExecutor \<Rightarrow> bool" where
  "same_host x y \<longleftrightarrow> cx_pool y = cx_pool x \<and> cx_anchor y = cx_anchor x \<and> cx_n_layer y = cx_n_layer x
     \<and> cx_pp y = cx_pp x \<and> cx_block_len y = cx_block_len x"

lemma same_host_refl [simp]: "same_host x x"
  by (simp add: same_host_def)

lemma same_host_trans: "same_host x y \<Longrightarrow> same_host y z \<Longrightarrow> same_host x z"
  by (simp add: same_host_def)

lemma same_host_owns: "same_host x y \<Longrightarrow> cuda_owns dev nl pp an kp x M \<Longrightarrow> cuda_owns dev nl pp an kp y M"
  by (simp add: same_host_def cuda_owns_def)

lemma same_host_upd [simp]:
  "same_host x (x\<lparr>cx_device := d\<rparr>)" "same_host x (x\<lparr>cx_singleton := s\<rparr>)"
  by (simp_all add: same_host_def)

lemma copy_layers_host: "same_host x (fst (copy_layers dev dir run b lis x))"
proof (induction lis arbitrary: x)
  case (Cons li lis)
  show ?case
    using same_host_trans [OF _ Cons.IH]
    by (auto split: prod.split sum.split)
qed simp

lemma copy_run_host: "same_host x (fst (copy_run dev dir run n x))"
  by (simp add: copy_run_def copy_layers_host split: sum.split)

lemmas copy_hosts = copy_run_host
  copy_run_host [of x dev EngineToPool "\<lambda>li. (engine_off x li, pool_off x seg l li)" n for x dev seg l n,
    folded copy_engine_to_pool_def]
  copy_run_host [of x dev PoolToEngine "\<lambda>li. (pool_off x seg l li, engine_off x li)" n for x dev seg l n,
    folded copy_pool_to_engine_def]

lemma copy_layers_ok: "device_ok dev \<Longrightarrow> snd (copy_layers dev dir run b lis x) = Inr ()"
proof (induction lis arbitrary: x)
  case (Cons li lis)
  have ok: "dev_memcpy dev dir reg a c b d = (fst (dev_memcpy dev dir reg a c b d), Inr ())" for reg a c d
    using Cons.prems by (metis device_ok_def prod.collapse)
  show ?case unfolding copy_layers.simps
    by (subst ok, simp only: prod.case sum.case, subst ok, simp only: prod.case sum.case, rule Cons.IH [OF Cons.prems])
qed simp

lemma copy_run_ok: "device_ok dev \<Longrightarrow> snd (copy_run dev dir run n x) = Inr ()"
  using copy_layers_ok [of dev] by (simp add: copy_run_def device_ok_def split: sum.split)

lemma and_then_host: "same_host x (fst r) \<Longrightarrow> (\<And>a y. same_host x y \<Longrightarrow> same_host x (fst (f a y))) \<Longrightarrow>
    same_host x (fst (and_then r f))"
  by (cases r; cases "snd r") auto

lemma same_host_fst: "same_host x (fst r) \<Longrightarrow> r = (y, res) \<Longrightarrow> same_host x y"
  by simp

lemma engine_call_host: "same_host x (fst (engine_call f x))"
  by (simp add: engine_call_def split: prod.split sum.split)

lemma flush_host: "same_host x (fst (flush_singleton dev x))"
  unfolding flush_singleton_def using same_host_trans [OF same_host_upd(2) copy_hosts(2)]
  by (auto split: option.split)

lemma step_suffix_host: "same_host x (fst (step_suffix dev pos ids x))"
proof (induction ids arbitrary: pos x)
  case (Cons t ids)
  show ?case using same_host_trans [OF _ Cons.IH]
    by (auto intro!: and_then_host engine_call_host)
qed simp


lemma cuda_prefill_host: "cuda_prefill dev ids x = Some (y, res) \<Longrightarrow> same_host x y"
  using and_then_host [OF flush_host, of x "\<lambda>_. engine_call (dev_prefill_batch dev ids)" dev]
    same_host_trans [OF _ engine_call_host] by (force simp: cuda_prefill_def)

lemma cuda_hit_host: "cuda_prefill_prefix_hit dev h ids x = Some (y, res) \<Longrightarrow> same_host x y"
proof -
  assume op: "cuda_prefill_prefix_hit dev h ids x = Some (y, res)"
  have "same_host u (fst (and_then (copy_pool_to_engine dev run 0 n u) (\<lambda>_. step_suffix dev k ids)))" for u run n k
    using same_host_trans [OF _ step_suffix_host] by (intro and_then_host copy_hosts) blast
  then have "same_host x (fst (and_then (flush_singleton dev x) (\<lambda>_ x.
       let run = \<lparr>base_page = hit_base_page h, n_pages = hit_pages h\<rparr>
       in and_then (copy_pool_to_engine dev run 0 (hit_pages h) x) (\<lambda>_. step_suffix dev (hit_key_len h) ids))))"
    by (intro and_then_host flush_host) (unfold Let_def, blast intro: same_host_trans)
  then show ?thesis using op by (simp add: cuda_prefill_prefix_hit_def)
qed

lemma cuda_adopt_host: "cuda_adopt_singleton dev i seg a len x = Some (y, res) \<Longrightarrow> same_host x y"
proof -
  assume op: "cuda_adopt_singleton dev i seg a len x = Some (y, res)"
  have "same_host x (fst (if 0 < a then copy_pool_to_engine dev seg 0 (div_ceil a (cx_block_len x)) x else (x, Inr ())))"
    by (simp add: copy_hosts)
  then have "same_host x (fst (and_then (if 0 < a then copy_pool_to_engine dev seg 0 (div_ceil a (cx_block_len x)) x else (x, Inr ()))
       (\<lambda>_ x. (x\<lparr>cx_singleton := Some \<lparr>sg_id = i, sg_seg = seg, sg_kv_len = a + len\<rparr>\<rparr>, Inr ()))))"
    by (rule and_then_host) (auto intro: same_host_trans)
  then show ?thesis using op by (simp add: cuda_adopt_singleton_def)
qed

lemma cuda_decode_host: "cuda_decode_batch dev rs x = Some (y, res) \<Longrightarrow> same_host x y"
proof -
  assume op: "cuda_decode_batch dev rs x = Some (y, res)"
  show ?thesis
  proof (cases rs rule: list.exhaust [case_names Nil Cons])
    case Nil
    then show ?thesis using op by (simp add: cuda_decode_batch_def)
  next
    case (Cons r rest)
    note * = same_host_fst [OF and_then_host, rotated 2]
    show ?thesis
    proof (cases rest)
      case Nil
      have "and_then (if map_option sg_id (cx_singleton x) = Some (xr_id r) then (x, Inr ())
          else copy_pool_to_engine dev (xr_seg r) 0 (div_ceil (xr_kv_len r) (cx_block_len x)) x)
           (\<lambda>_ x. and_then (engine_call (dev_batch_decode dev [\<lparr>br_token = xr_token r, br_pos = xr_pos r,
                                br_kv = EngineSeg (xr_kv_len r)\<rparr>]) x)
             (\<lambda>lg x. (x\<lparr>cx_singleton := Some \<lparr>sg_id = xr_id r, sg_seg = xr_seg r, sg_kv_len = xr_kv_len r\<rparr>\<rparr>, Inr lg)))
          = (y, res)"
        using op Cons Nil by (simp add: cuda_decode_batch_def)
      then show ?thesis
        by (rule *) (auto simp: copy_hosts intro!: and_then_host intro: same_host_trans engine_call_host)
    next
      case (Cons r2 rest2)
      have "and_then (flush_singleton dev x) (\<lambda>_ x.
         and_then (engine_call (dev_batch_decode dev (map pool_batch_req rs @ [\<lparr>br_token = 0, br_pos = 0,
                                br_kv = PoolSeg (base_page (cx_anchor x) mod 2 ^ 32) 1\<rparr>])) x)
           (\<lambda>lg x. (x, Inr (butlast lg)))) = (y, res)"
        using op \<open>rs = r # rest\<close> Cons by (simp add: cuda_decode_batch_def)
      then show ?thesis
        by (rule *) (auto simp: flush_host intro!: and_then_host intro: same_host_trans engine_call_host)
    qed
  qed
qed


lemma engine_call_rows:
  "snd (engine_call f x) = Inr rows \<Longrightarrow> snd (f (cx_device x)) = Inr rows"
  by (auto simp: engine_call_def split: prod.splits sum.splits)

lemma and_then_Inr: "and_then r f = (y, Inr b) \<Longrightarrow> \<exists>x a. r = (x, Inr a) \<and> f a x = (y, Inr b)"
  by (cases r; cases "snd r") auto

lemma cuda_decode_rows:
  assumes ok: "device_ok dev" and op: "cuda_decode_batch dev rs x = Some (y, Inr rows)"
  shows "length rs \<le> length rows"
proof -
  have len: "length rows = length bs" if "engine_call (dev_batch_decode dev bs) z = (w, Inr rows)" for bs z w rows
    using engine_call_rows [of "dev_batch_decode dev bs" z rows] ok that by (simp add: device_ok_def)
  show ?thesis
  proof (cases rs rule: list.exhaust [case_names Nil Cons])
    case (Cons r rest)
    show ?thesis
    proof (cases rest)
      case Nil
      then show ?thesis using op Cons len
        by (auto simp: cuda_decode_batch_def dest!: and_then_Inr)
    next
      case (Cons r2 rest2)
      then show ?thesis using op \<open>rs = r # rest\<close> len
        by (auto simp: cuda_decode_batch_def dest!: and_then_Inr)
    qed
  qed simp
qed

lemma cuda_alloc_owns:
  assumes own: "cuda_owns dev nl pp an kp x M"
  shows "\<exists>x' res. cuda_alloc_segment n x = Some (x', res)
    \<and> (case res of Inl e \<Rightarrow> cuda_owns dev nl pp an kp x' M
       | Inr seg \<Rightarrow> n_pages seg = n \<and> base_page seg < 2 ^ 32 \<and> cuda_owns dev nl pp an kp x' (add_mset seg M))"
proof -
  have inv: "seg_inv (cx_pool x)" and rc: "rc (cx_pool x) = seg_refs.cover M"
    using cuda_ownsD(6) [OF own] unfolding seg_refs.owns_def by auto
  show ?thesis
  proof (cases rule: sp_alloc_cases [OF inv, of n, case_names zero full ok])
    case zero
    then show ?thesis using own by (auto simp: cuda_alloc_segment_def)
  next
    case full
    then show ?thesis using own by (auto simp: cuda_alloc_segment_def)
  next
    case (ok seg p')
    note post = ok(3) [unfolded alloc_post_def]
    have cov: "seg_refs.cover (add_mset seg M) i = rc p' i" for i
      using post rc by simp
    moreover have "rc p' i \<le> 1" for i using post rc cuda_ownsD(7) [OF own, of i] by simp
    moreover have "base_page seg < 2 ^ 32"
      using post ok(1) cuda_ownsD(5) [OF own] by (simp add: seg_end_def)
    ultimately have "cuda_owns dev nl pp an kp (x\<lparr>cx_pool := p'\<rparr>) (add_mset seg M)"
      using post cuda_ownsD(1-5,8-10) [OF own] unfolding cuda_owns_def seg_refs.owns_def by (simp add: fun_eq_iff)
    then show ?thesis using ok(2) post \<open>base_page seg < 2 ^ 32\<close> by (auto simp: cuda_alloc_segment_def)
  qed
qed

lemma cuda_free_owns:
  assumes own: "cuda_owns dev nl pp an kp x (add_mset seg M)"
  shows "\<exists>x'. cuda_free_segment seg x = Some x' \<and> cuda_owns dev nl pp an kp x' M"
proof -
  obtain p' where p': "sp_unref (cx_pool x) seg = Some p'" "seg_refs.owns p' M" "sp_total p' = sp_total (cx_pool x)"
    using seg_refs.owns_unref [OF cuda_ownsD(6) [OF own]] by blast
  have "seg_refs.cover M i \<le> 1" for i using cuda_ownsD(7) [OF own, of i] by (auto split: if_splits)
  then have "cuda_owns dev nl pp an kp (x\<lparr>cx_pool := p'\<rparr>) M" using p' cuda_ownsD(1-5,8-10) [OF own] by (simp add: cuda_owns_def)
  then show ?thesis using p'(1) by (auto simp: cuda_free_segment_def sp_free_seg_def sp_unref_def)
qed

text \<open>The layers of a prefix lie in the segment and do not overlap.\<close>

lemma layer_run_pages:
  assumes "k \<le> pp" "n_pages seg = nl * pp" "li < nl"
  shows "set (seg_pages (layer_run pp (base_page seg) k li)) \<subseteq> set (seg_pages seg)"
proof -
  have "li * pp + pp \<le> nl * pp" using assms(3) by (metis Suc_leI mult_le_mono1 mult_Suc add.commute)
  then show ?thesis using assms by (auto simp: layer_run_def seg_end_def set_seg_pages)
qed

lemma layer_run_disjoint:
  assumes "k \<le> pp" "li \<noteq> lj"
  shows "set (seg_pages (layer_run pp b k li)) \<inter> set (seg_pages (layer_run pp b k lj)) = {}"
proof -
  have lt: "li' * pp + pp \<le> lj' * pp" if "li' < lj'" for li' lj' :: nat
    using that by (metis Suc_leI mult_le_mono1 mult_Suc add.commute)
  consider "li < lj" | "lj < li" using assms(2) by linarith
  then show ?thesis using lt [of li lj] lt [of lj li] assms(1) by cases (auto simp: layer_run_def seg_end_def set_seg_pages)
qed

lemma cover_none:
  "(\<And>li. li \<in> set lis \<Longrightarrow> j \<notin> set (seg_pages (run li))) \<Longrightarrow> seg_refs.cover (mset (map run lis)) j = 0"
  by (induction lis) simp_all

lemma cuda_refill_owns:
  assumes own: "cuda_owns dev nl pp an kp x (add_mset seg M)" and k: "0 < k" "k \<le> pp" and n: "n_pages seg = nl * pp"
  shows "\<exists>x'. cuda_refill_prefix dev i seg k x = Some x'
    \<and> cuda_owns dev nl pp an kp x' (prefix_runs nl pp (base_page seg) k + M)"
proof -
  have ok: "device_ok dev" by (rule cuda_ownsD(1) [OF own])
  define fl where "fl = (case cx_singleton x of
      Some s \<Rightarrow> if sg_id s = i
                 then copy_engine_to_pool dev seg 0 (div_ceil (sg_kv_len s) (cx_block_len x)) (x\<lparr>cx_singleton := None\<rparr>)
                 else (x\<lparr>cx_singleton := None\<rparr>, Inr ())
    | None \<Rightarrow> (x, Inr ()))"
  have fl: "same_host x (fst fl) \<and> snd fl = Inr ()"
    using same_host_trans [OF same_host_upd(2) copy_hosts(2)] copy_run_ok [OF ok]
    by (auto simp: fl_def copy_engine_to_pool_def split: option.split)
  then obtain y where y: "fl = (y, Inr ())" "same_host x y" by (cases fl) auto
  note oy = same_host_owns [OF y(2) own]
  let ?run = "layer_run pp (base_page seg) k"
  have "\<exists>p'. on_runs sp_ref ?run [0..<nl] (cx_pool y) = Some p'
      \<and> seg_refs.owns p' (mset (map ?run [0..<nl]) + add_mset seg M) \<and> sp_total p' = sp_total (cx_pool y)"
  proof (rule on_runs_ref [OF cuda_ownsD(6) [OF oy], of seg])
    show "seg_refs.cover (add_mset seg M) j < u32_max" for j
      using cuda_ownsD(7) [OF oy, of j] by (simp add: u32_max_def)
  qed (use layer_run_pages [OF k(2) n] layer_run_disjoint [OF k(2)] in \<open>simp_all\<close>)
  then obtain p' where p': "on_runs sp_ref ?run [0..<nl] (cx_pool y) = Some p'"
      "seg_refs.owns p' (mset (map ?run [0..<nl]) + add_mset seg M)" "sp_total p' = sp_total (cx_pool y)" by blast
  have "seg_refs.owns p' (add_mset seg (mset (map ?run [0..<nl]) + M))" using p'(2) by simp
  from seg_refs.owns_unref [OF this] obtain q where q: "sp_unref p' seg = Some q"
      "seg_refs.owns q (mset (map ?run [0..<nl]) + M)" "sp_total q = sp_total p'" by blast
  have part: "seg_refs.cover (mset (map ?run lis)) j \<le> (if j \<in> set (seg_pages seg) then 1 else 0)"
    if "set lis \<subseteq> {..<nl}" "distinct lis" for lis j
    using that
  proof (induction lis)
    case (Cons li lis)
    show ?case
    proof (cases "j \<in> set (seg_pages (?run li))")
      case True
      have "j \<notin> set (seg_pages (?run lj))" if "lj \<in> set lis" for lj
        using layer_run_disjoint [OF k(2), of li lj "base_page seg"] True Cons.prems that by auto
      then have "seg_refs.cover (mset (map ?run lis)) j = 0" by (rule cover_none)
      then show ?thesis using True layer_run_pages [OF k(2) n, of li] Cons.prems by auto
    next
      case False
      then show ?thesis using Cons by simp
    qed
  qed simp
  have "seg_refs.cover (mset (map ?run [0..<nl]) + M) j \<le> 1" for j
  proof -
    have "seg_refs.cover (mset (map ?run [0..<nl])) j \<le> (if j \<in> set (seg_pages seg) then 1 else 0)"
      by (rule part) auto
    then show ?thesis using cuda_ownsD(7) [OF own, of j] unfolding seg_refs.cover_simps
      by (simp split: if_splits)
  qed
  then have "cuda_owns dev nl pp an kp (y\<lparr>cx_pool := q\<rparr>) (prefix_runs nl pp (base_page seg) k + M)"
    using q(2,3) p'(3) cuda_ownsD(1-5,8-10) [OF oy] by (simp add: cuda_owns_def prefix_runs_def)
  moreover have "cuda_refill_prefix dev i seg k x = Some (y\<lparr>cx_pool := q\<rparr>)"
    using k(1) y(1) p'(1) q(1) cuda_ownsD(2,3) [OF oy]
    unfolding cuda_refill_prefix_def fl_def [symmetric]
    by (simp add: cuda_free_segment_def sp_free_seg_def sp_unref_def)
  ultimately show ?thesis by blast
qed

lemma cuda_unref_owns:
  assumes own: "cuda_owns dev nl pp an kp x (prefix_runs nl pp b k + M)"
  shows "\<exists>x'. cuda_unref_prefix b k x = Some x' \<and> cuda_owns dev nl pp an kp x' M"
proof -
  obtain p' where p': "on_runs sp_unref (layer_run pp b k) [0..<nl] (cx_pool x) = Some p'" "seg_refs.owns p' M"
      "sp_total p' = sp_total (cx_pool x)"
    using on_runs_unref [OF cuda_ownsD(6) [OF own, unfolded prefix_runs_def]] by blast
  have "seg_refs.cover M i \<le> 1" for i using cuda_ownsD(7) [OF own, of i] by simp
  then have "cuda_owns dev nl pp an kp (x\<lparr>cx_pool := p'\<rparr>) M" using p' cuda_ownsD(1-5,8-10) [OF own] by (simp add: cuda_owns_def)
  then show ?thesis using p'(1) cuda_ownsD(2,3) [OF own] by (simp add: cuda_unref_prefix_def)
qed

interpretation cuda: segment_executor "cuda_executor dev" "cuda_owns dev nl pp an kp" nl pp
  for dev :: "('d, 'l) Device" and nl pp an kp
proof unfold_locales
  fix x M n
  assume own: "cuda_owns dev nl pp an kp x M"
  show "\<exists>x' res. ex_alloc_segment (cuda_executor dev) n x = Some (x', res)
      \<and> (case res of Inl e \<Rightarrow> cuda_owns dev nl pp an kp x' M
         | Inr seg \<Rightarrow> n_pages seg = n \<and> base_page seg < 2 ^ 32 \<and> cuda_owns dev nl pp an kp x' (add_mset seg M))"
    unfolding cuda_executor_def using cuda_alloc_owns [OF own] by simp
next
  fix x M seg
  assume own: "cuda_owns dev nl pp an kp x (add_mset seg M)"
  show "\<exists>x'. ex_free_segment (cuda_executor dev) seg x = Some x' \<and> cuda_owns dev nl pp an kp x' M"
    unfolding cuda_executor_def using cuda_free_owns [OF own] by simp
next
  fix x M ids
  assume own: "cuda_owns dev nl pp an kp x M"
  show "\<exists>x' res. ex_prefill (cuda_executor dev) ids x = Some (x', res) \<and> cuda_owns dev nl pp an kp x' M"
    using cuda_prefill_host [of dev ids x] same_host_owns [OF _ own]
    by (cases "cuda_prefill dev ids x") (auto simp: cuda_executor_def cuda_prefill_def)
next
  fix x M h ids
  assume own: "cuda_owns dev nl pp an kp x M"
  show "\<exists>x' res. ex_prefill_prefix_hit (cuda_executor dev) h ids x = Some (x', res) \<and> cuda_owns dev nl pp an kp x' M"
    using cuda_hit_host [of dev h ids x] same_host_owns [OF _ own]
    by (cases "cuda_prefill_prefix_hit dev h ids x") (auto simp: cuda_executor_def cuda_prefill_prefix_hit_def)
next
  fix x seg M k i
  assume "cuda_owns dev nl pp an kp x (add_mset seg M)" "0 < k" "k \<le> pp" "n_pages seg = nl * pp"
  then show "\<exists>x'. ex_refill_prefix (cuda_executor dev) i seg k x = Some x'
      \<and> cuda_owns dev nl pp an kp x' (prefix_runs nl pp (base_page seg) k + M)"
    unfolding cuda_executor_def using cuda_refill_owns [of dev nl pp an kp x seg M k i] by simp
next
  fix x b k M
  assume own: "cuda_owns dev nl pp an kp x (prefix_runs nl pp b k + M)"
  show "\<exists>x'. ex_unref_prefix (cuda_executor dev) b k x = Some x' \<and> cuda_owns dev nl pp an kp x' M"
    unfolding cuda_executor_def using cuda_unref_owns [OF own] by simp
next
  fix x M seg a len
  assume own: "cuda_owns dev nl pp an kp x M"
  have "same_host x (fst (copy_engine_to_pool dev seg (a div cx_block_len x) (div_ceil len (cx_block_len x)) x))"
    by (rule copy_hosts(2))
  then show "\<exists>x' res. ex_commit_stage (cuda_executor dev) seg a len x = Some (x', res) \<and> cuda_owns dev nl pp an kp x' M"
    using same_host_owns [OF _ own] cuda_ownsD(4) [OF own]
    by (cases "copy_engine_to_pool dev seg (a div cx_block_len x) (div_ceil len (cx_block_len x)) x")
      (simp add: cuda_executor_def cuda_commit_stage_def chk_div_def)
next
  fix x M i seg a len
  assume own: "cuda_owns dev nl pp an kp x M"
  show "\<exists>x' res. ex_adopt_singleton (cuda_executor dev) i seg a len x = Some (x', res) \<and> cuda_owns dev nl pp an kp x' M"
    using cuda_adopt_host [of dev i seg a len x] same_host_owns [OF _ own]
    by (cases "cuda_adopt_singleton dev i seg a len x") (auto simp: cuda_executor_def cuda_adopt_singleton_def)
next
  fix x M i
  assume own: "cuda_owns dev nl pp an kp x M"
  show "cuda_owns dev nl pp an kp (ex_drop_singleton (cuda_executor dev) i x) M"
    using same_host_owns [OF same_host_upd(2) own] own by (simp add: cuda_executor_def cuda_drop_singleton_def)
next
  fix x M rs
  assume own: "cuda_owns dev nl pp an kp x M"
  show "\<exists>x' res. ex_decode_batch (cuda_executor dev) rs x = Some (x', res) \<and> cuda_owns dev nl pp an kp x' M
      \<and> (\<forall>rows. res = Inr rows \<longrightarrow> length rs \<le> length rows)"
  proof -
    obtain y res where y: "cuda_decode_batch dev rs x = Some (y, res)"
      by (cases "cuda_decode_batch dev rs x") (auto simp: cuda_decode_batch_def)
    then show ?thesis
      using same_host_owns [OF cuda_decode_host [OF y] own] cuda_decode_rows [OF cuda_ownsD(1) [OF own], of rs x y]
      by (auto simp: cuda_executor_def)
  qed
qed

end
