(* ===== verification/Sched_Env.thy ===== *)
theory Sched_Env
  imports Sched_Contract Returns Replay_Total Radix_Ops
begin

text \<open>
  What the event loop needs to know of its parts: the pages of the cached prefixes, the text sent
  so far, and the configuration.
\<close>

section \<open>The cached prefixes\<close>

text \<open>The page runs of all the entries of the cache.\<close>

definition entry_runs :: "nat \<Rightarrow> nat \<Rightarrow> Evicted \<Rightarrow> KvSegment multiset" where
  "entry_runs nl pp ev = prefix_runs nl pp (ev_base_page ev) (ev_pages ev)"

definition all_runs :: "nat \<Rightarrow> nat \<Rightarrow> Evicted multiset \<Rightarrow> KvSegment multiset" where
  "all_runs nl pp E = \<Sum>\<^sub># (image_mset (entry_runs nl pp) E)"

definition cache_runs :: "nat \<Rightarrow> nat \<Rightarrow> TokenRadixCache option \<Rightarrow> KvSegment multiset" where
  "cache_runs nl pp co = (case co of None \<Rightarrow> {#} | Some c \<Rightarrow> all_runs nl pp (mset (map snd (lru c))))"

lemma all_runs_simps [simp]:
  "all_runs nl pp {#} = {#}" "all_runs nl pp (A + B) = all_runs nl pp A + all_runs nl pp B"
  "all_runs nl pp (add_mset e A) = entry_runs nl pp e + all_runs nl pp A"
  by (simp_all add: all_runs_def)

lemma evict_oldest_mset:
  "evict_oldest s q = (es, q') \<Longrightarrow> mset (map snd q) = mset es + mset (map snd q')"
proof (induction s q arbitrary: es q' rule: evict_oldest.induct)
  case (2 s k ev q)
  then show ?case by (cases "s = 0") (auto split: prod.splits)
qed simp

lemma to_back_mset: "mset (map snd (to_back k q)) = mset (map snd q)"
proof -
  have "mset (to_back k q) = mset q"
    unfolding to_back_def by (induction q) auto
  then show ?thesis by simp
qed

text \<open>A lookup never reports more than the prompt; a touch moves no page.\<close>

lemma lookup_len:
  "radix_reach cap 32 c \<Longrightarrow> 2 * cap \<le> u64_max \<Longrightarrow> lookup c ids = Some h \<Longrightarrow> hit_key_len h \<le> length ids"
  using lookup_longest [of cap 32 c ids] by (auto simp: hit_depth_def)

lemma touch_runs:
  assumes "radix_reach cap 32 c" "2 * cap \<le> u64_max" "lookup c ids = Some h"
  shows "mset (map snd (lru (fst (touch c ids)))) = mset (map snd (lru c))"
proof -
  obtain p c' where "touch c ids = (c', True)" "lru c' = to_back p (lru c)"
    using lookup_longest [OF assms(1,2), of ids] assms(3) by auto
  then show ?thesis by (simp only: fst_conv to_back_mset)
qed

text \<open>
  The insertion of an aligned key that is not covered: it never panics, and the pages it stores are
  the new run in exchange for the evicted ones.
\<close>

lemma insert_uncovered:
  assumes reach: "radix_reach cap 32 c" "2 * cap \<le> u64_max" and len: "length key = l * 32" "0 < l"
    and miss: "\<And>h. lookup c key = Some h \<Longrightarrow> hit_key_len h \<noteq> length key"
  obtains (rejected) e where "radix_insert c key base l = Err e"
  | (stored) c' es Q where "radix_insert c key base l = Ok (c', es)" "radix_reach cap 32 c'"
      "mset (map snd (lru c)) = mset es + Q" "mset (map snd (lru c')) = add_mset (run_of base l) Q"
proof -
  have none: "p \<notin> fst ` set (lru c)" if "prefix key p" for p
  proof
    assume p: "p \<in> fst ` set (lru c)"
    have d: "hit_depth 32 (lru c) key (length key)" using len p that by (auto simp: hit_depth_def)
    show False
    proof (cases "lookup c key")
      case None
      then show False using lookup_longest [OF reach, of key] d by auto
    next
      case (Some h)
      then have "hit_depth 32 (lru c) key (hit_key_len h)"
        "\<forall>k. hit_depth 32 (lru c) key k \<longrightarrow> k \<le> hit_key_len h"
        using lookup_longest [OF reach, of key] by auto
      then have "hit_key_len h = length key" using d by (meson hit_depth_def le_antisym)
      then show False using miss Some by simp
    qed
  qed
  have key: "take (l * 32) key = key" using len by simp
  note ins = insert_refines_lru [OF reach refl, of key base l, unfolded key]
  show thesis
  proof (cases "radix_insert c key base l")
    case (Err e)
    then show thesis by (rule rejected)
  next
    case Panic
    then show thesis using ins(3) none by (auto simp: strict_prefix_def)
  next
    case (Ok r)
    obtain c' es where r: "r = (c', es)" by (cases r)
    have "key \<notin> fst ` set (lru c)" using none by simp
    then have "lru_insert cap key (run_of base l) (lru c)
        = (let (es, q') = evict_oldest (queue_pages (lru c) + ev_pages (run_of base l) - cap) (lru c)
           in (q' @ [(key, run_of base l)], es))" by (simp add: lru_insert_def)
    then obtain q where "evict_oldest (queue_pages (lru c) + ev_pages (run_of base l) - cap) (lru c) = (es, q)"
        "lru c' = q @ [(key, run_of base l)]"
      using ins(2) [of c' es] Ok r by (auto split: prod.splits)
    then have "mset (map snd (lru c)) = mset es + mset (map snd q)"
        "mset (map snd (lru c')) = add_mset (run_of base l) (mset (map snd q))"
      using evict_oldest_mset [of _ "lru c"] by auto
    then show thesis using stored Ok r reach_insert [OF reach(1)] by blast
  qed
qed

section \<open>The text sent so far\<close>

definition sent_len :: "(nat list \<Rightarrow> str) \<Rightarrow> nat list \<Rightarrow> nat" where
  "sent_len detok ids = fold (\<lambda>k n. max n (length (detok (take k ids)))) [1..<Suc (length ids)] 0"

lemma sent_len_Nil [simp]: "sent_len detok [] = 0"
  by (simp add: sent_len_def)

lemma sent_len_snoc: "sent_len detok (ids @ [t]) = max (sent_len detok ids) (length (detok (ids @ [t])))"
proof -
  have "fold (\<lambda>k n. max n (length (detok (take k (ids @ [t]))))) [1..<Suc (length ids)] 0 = sent_len detok ids"
    unfolding sent_len_def by (rule fold_cong) auto
  then show ?thesis by (simp add: sent_len_def)
qed

text \<open>
  Text that can be sent token by token: no new text starts inside a character. The loop does not
  need it: where it fails the handler of a token panics.
\<close>

definition detok_safe :: "(nat list \<Rightarrow> str) \<Rightarrow> bool" where
  "detok_safe detok \<longleftrightarrow> (\<forall>ids t. text_delta (detok (ids @ [t])) (sent_len detok ids) \<noteq> None)"

text \<open>After a token the longest text so far has been sent.\<close>

lemma delta_sent_len:
  "text_delta (detok (ids @ [t])) (sent_len detok ids) = Some (d, k) \<Longrightarrow> k = sent_len detok (ids @ [t])"
  by (auto simp: text_delta_def sent_len_snoc max_def split: if_splits)

section \<open>What the loop is run with\<close>

text \<open>
  \<open>est_bound\<close> bounds the estimates of a request that fits the context window. The other conditions
  are those of the configuration the server builds: the pool holds a window, the page size of the
  cache is that of the loop, and the products of the admission formulas fit in 64 bits.
\<close>

definition est_bound :: "SchedLoopConfig \<Rightarrow> nat" where
  "est_bound cfg = 17 * lc_max_model_len cfg + 17"

definition cfg_ok :: "SchedLoopConfig \<Rightarrow> bool" where
  "cfg_ok cfg \<longleftrightarrow> lc_block_len cfg = 32 \<and> 0 < lc_n_layer cfg \<and> 0 < lc_max_model_len cfg
     \<and> window_pages cfg \<le> lc_kv_pages cfg \<and> lc_kv_pages cfg \<le> 2 ^ 32
     \<and> lc_max_model_len cfg < 2 ^ 32 \<and> lc_kv_pages cfg * est_bound cfg \<le> u64_max
     \<and> 2 * lc_prefix_cache_pages cfg \<le> u64_max"

definition env_ok :: "('x, 'c, 'l, 'p, 'o) SchedEnv \<Rightarrow> bool" where
  "env_ok env \<longleftrightarrow> cfg_ok (env_cfg env) \<and> (\<forall>l t n. token_out (env_sampler env) l t n \<noteq> None)"

definition cfg_pp :: "SchedLoopConfig \<Rightarrow> nat" where
  "cfg_pp cfg = div_ceil (lc_max_model_len cfg) (lc_block_len cfg)"

lemma cfg_okD:
  assumes "cfg_ok cfg"
  shows "lc_block_len cfg = 32" "0 < lc_n_layer cfg" "0 < lc_max_model_len cfg"
    "window_pages cfg \<le> lc_kv_pages cfg" "lc_kv_pages cfg \<le> 2 ^ 32" "lc_max_model_len cfg < 2 ^ 32"
    "lc_kv_pages cfg * est_bound cfg \<le> u64_max" "2 * lc_prefix_cache_pages cfg \<le> u64_max"
    "0 < window_pages cfg"
    "window_pages cfg = lc_n_layer cfg * cfg_pp cfg"
proof -
  have "0 < div_ceil (lc_max_model_len cfg) (lc_block_len cfg)"
    using assms div_ceil_le_iff [of "lc_block_len cfg" "lc_max_model_len cfg" 0]
    by (cases "div_ceil (lc_max_model_len cfg) (lc_block_len cfg)") (auto simp: cfg_ok_def)
  then show "0 < window_pages cfg" using assms by (simp add: cfg_ok_def window_pages_def)
  show "window_pages cfg = lc_n_layer cfg * cfg_pp cfg" by (simp add: window_pages_def cfg_pp_def)
qed (use assms in \<open>simp_all add: cfg_ok_def\<close>)

lemma pool_tokens_ok:
  assumes "cfg_ok cfg" shows "pool_tokens cfg = Some ((lc_kv_pages cfg - window_pages cfg) * 32)"
proof -
  have "(lc_kv_pages cfg - window_pages cfg) * 32 \<le> 2 ^ 32 * 32"
    using cfg_okD(5) [OF assms] by (intro mult_le_mono1) linarith
  also have "\<dots> \<le> u64_max" by (simp add: u64_max_def)
  finally show ?thesis
    using cfg_okD(1,4) [OF assms] by (simp add: pool_tokens_def chk_sub_def chk_mul_def)
qed

lemma admission_cfg_ok:
  assumes "cfg_ok cfg"
  shows "\<exists>ac. admission_cfg cfg = Some ac \<and> max_total_pages ac * page_size ac \<le> u64_max
    \<and> running_max_req_size ac \<le> lc_kv_pages cfg"
proof -
  let ?p = "lc_kv_pages cfg - window_pages cfg"
  have a: "admit_cap cfg = Some (min (?p div window_pages cfg) (lc_max_num_seqs cfg))"
    using cfg_okD(4,9) [OF assms] by (simp add: admit_cap_def chk_sub_def chk_div_def)
  have "min (?p div window_pages cfg) (lc_max_num_seqs cfg) \<le> lc_kv_pages cfg"
    using div_le_dividend [of ?p "window_pages cfg"] by linarith
  moreover have "?p * 32 \<le> u64_max"
    using pool_tokens_ok [OF assms] cfg_okD(1,4) [OF assms] by (auto simp: pool_tokens_def chk_sub_def)
  ultimately show ?thesis
    using a pool_tokens_ok [OF assms] cfg_okD(1,4) [OF assms] by (simp add: admission_cfg_def chk_sub_def)
qed

end
