(* ===== verification/Sched_Inv.thy ===== *)
theory Sched_Inv
  imports Sched_Env
begin

text \<open>
  The invariant of the event loop: what its tables know of each request, the accounting of the
  tokens, and who holds the pages of the pool; and the end of a request, by abort or after its last
  token, under the contract of the executor.
\<close>

section \<open>What is known of a request\<close>

definition lmeta_ok :: "SchedLoopConfig \<Rightarrow> ('c, 'p) ReqMeta \<Rightarrow> bool" where
  "lmeta_ok cfg m \<longleftrightarrow> rm_prompt m \<noteq> [] \<and> length (rm_prompt m) + rm_max_output m \<le> lc_max_model_len cfg
     \<and> rm_last_len m = sent_len (lc_detok cfg) (rm_generated m)"

definition params_ok :: "('c, 'p) ReqMeta option \<Rightarrow> Req \<Rightarrow> bool" where
  "params_ok mo r \<longleftrightarrow> (case mo of None \<Rightarrow> False
     | Some m \<Rightarrow> prompt_len r = length (rm_prompt m) \<and> max_output r = rm_max_output m)"

text \<open>
  \<open>entry_ok\<close>: the request, its parameters, whether it waits, whether it decodes, its segment, and
  whether it has an estimate. A waiting request without parameters is one whose sampler could not be
  built.
\<close>

definition entry_ok :: "SchedLoopConfig \<Rightarrow> Req option \<Rightarrow> ('c, 'p) ReqMeta option \<Rightarrow> bool \<Rightarrow> bool
    \<Rightarrow> KvSegment option \<Rightarrow> bool \<Rightarrow> bool" where
  "entry_ok cfg ro mo w d so e \<longleftrightarrow>
     (case ro of
        None \<Rightarrow> mo = None \<and> \<not> w \<and> \<not> d \<and> so = None \<and> \<not> e
      | Some r \<Rightarrow> (\<exists>pats eos h n. req_inv pats eos r h n)
          \<and> (case rq_state r of
               Waiting \<Rightarrow> prompt_len r = 0 \<and> \<not> d \<and> so = None \<and> (w \<longleftrightarrow> mo \<noteq> None) \<and> (e \<longrightarrow> w)
             | Preempted \<Rightarrow> w \<and> \<not> d \<and> so = None \<and> params_ok mo r
             | Prefill \<Rightarrow> w \<and> \<not> d \<and> so \<noteq> None \<and> params_ok mo r
             | Chunked \<Rightarrow> w \<and> \<not> d \<and> so \<noteq> None \<and> params_ok mo r \<and> cached_len r mod lc_block_len cfg = 0
             | Decode \<Rightarrow> \<not> w \<and> d \<and> so \<noteq> None \<and> params_ok mo r
             | _ \<Rightarrow> mo = None \<and> \<not> w \<and> \<not> d \<and> so = None \<and> \<not> e))
     \<and> (\<forall>m. mo = Some m \<longrightarrow> lmeta_ok cfg m)
     \<and> (\<forall>seg. so = Some seg \<longrightarrow> n_pages seg = window_pages cfg \<and> base_page seg < 2 ^ 32)"

definition req_view :: "SchedLoopConfig \<Rightarrow> ('x, 'c, 'p, 'o) SchedLoop \<Rightarrow> u64 \<Rightarrow> bool" where
  "req_view cfg s i \<longleftrightarrow> entry_ok cfg (map_of (sl_reqs s) i) (map_of (sl_meta s) i) (i \<in> set (sl_waiting s))
     (i \<in> set (sl_decoding s)) (map_of (sl_segs s) i) (map_of (sl_estimates s) i \<noteq> None)"

lemma entry_ok_state:
  assumes "entry_ok cfg (Some r) mo w d so e"
  shows "rq_state r = Waiting \<Longrightarrow> cached_len r = 0 \<and> device_len r = 0 \<and> prompt_len r = 0 \<and> \<not> d \<and> so = None \<and> (w \<longleftrightarrow> mo \<noteq> None)"
    "rq_state r = Preempted \<Longrightarrow> cached_len r = 0 \<and> device_len r = 0 \<and> w \<and> \<not> d \<and> so = None \<and> mo \<noteq> None"
    "rq_state r = Prefill \<Longrightarrow> cached_len r = 0 \<and> device_len r = prompt_len r \<and> w \<and> \<not> d \<and> so \<noteq> None \<and> mo \<noteq> None"
    "rq_state r = Chunked \<Longrightarrow> cached_len r \<le> device_len r \<and> cached_len r < prompt_len r \<and> w \<and> \<not> d \<and> so \<noteq> None \<and> mo \<noteq> None
       \<and> cached_len r mod lc_block_len cfg = 0"
    "rq_state r = Decode \<Longrightarrow> cached_len r = device_len r \<and> prompt_len r \<le> cached_len r
       \<and> cached_len r \<le> prompt_len r + max_output r \<and> \<not> w \<and> d \<and> so \<noteq> None \<and> mo \<noteq> None"
    "is_terminal r \<Longrightarrow> mo = None \<and> \<not> w \<and> \<not> d \<and> so = None \<and> \<not> e"
    "mo = Some m \<Longrightarrow> lmeta_ok cfg m"
    "mo = Some m \<Longrightarrow> rq_state r \<noteq> Waiting \<Longrightarrow> prompt_len r = length (rm_prompt m) \<and> max_output r = rm_max_output m"
    "so = Some seg \<Longrightarrow> n_pages seg = window_pages cfg \<and> base_page seg < 2 ^ 32"
proof -
  obtain pats eos h n where inv: "req_inv pats eos r h n" using assms by (auto simp: entry_ok_def)
  show "rq_state r = Waiting \<Longrightarrow> cached_len r = 0 \<and> device_len r = 0 \<and> prompt_len r = 0 \<and> \<not> d \<and> so = None \<and> (w \<longleftrightarrow> mo \<noteq> None)"
    "rq_state r = Preempted \<Longrightarrow> cached_len r = 0 \<and> device_len r = 0 \<and> w \<and> \<not> d \<and> so = None \<and> mo \<noteq> None"
    "rq_state r = Prefill \<Longrightarrow> cached_len r = 0 \<and> device_len r = prompt_len r \<and> w \<and> \<not> d \<and> so \<noteq> None \<and> mo \<noteq> None"
    "rq_state r = Chunked \<Longrightarrow> cached_len r \<le> device_len r \<and> cached_len r < prompt_len r \<and> w \<and> \<not> d \<and> so \<noteq> None \<and> mo \<noteq> None
       \<and> cached_len r mod lc_block_len cfg = 0"
    "rq_state r = Decode \<Longrightarrow> cached_len r = device_len r \<and> prompt_len r \<le> cached_len r
       \<and> cached_len r \<le> prompt_len r + max_output r \<and> \<not> w \<and> d \<and> so \<noteq> None \<and> mo \<noteq> None"
    using inv assms by (auto simp: req_inv_simps entry_ok_def params_ok_def split: option.splits)
  show "is_terminal r \<Longrightarrow> mo = None \<and> \<not> w \<and> \<not> d \<and> so = None \<and> \<not> e"
    using assms by (auto simp: entry_ok_def is_terminal_def)
  show "mo = Some m \<Longrightarrow> lmeta_ok cfg m" "so = Some seg \<Longrightarrow> n_pages seg = window_pages cfg \<and> base_page seg < 2 ^ 32"
    using assms by (auto simp: entry_ok_def)
  show "mo = Some m \<Longrightarrow> rq_state r \<noteq> Waiting \<Longrightarrow> prompt_len r = length (rm_prompt m) \<and> max_output r = rm_max_output m"
    using assms by (auto simp: entry_ok_def params_ok_def split: ReqState.splits option.splits)
qed

section \<open>The tables\<close>

definition ordered :: "('x, 'c, 'p, 'o) SchedLoop \<Rightarrow> bool" where
  "ordered s \<longleftrightarrow> sorted_wrt (<) (map fst (sl_reqs s)) \<and> sorted_wrt (<) (map fst (sl_meta s))
     \<and> sorted_wrt (<) (map fst (sl_segs s)) \<and> sorted_wrt (<) (map fst (sl_estimates s))
     \<and> distinct (sl_waiting s) \<and> distinct (sl_decoding s)"

text \<open>
  \<open>n\<close> requests have arrived; \<open>d\<close> tokens are in the state of a request but not yet counted as
  dispatched.
\<close>

definition table_inv :: "SchedLoopConfig \<Rightarrow> nat \<Rightarrow> nat \<Rightarrow> ('x, 'c, 'p, 'o) SchedLoop \<Rightarrow> bool" where
  "table_inv cfg n d s \<longleftrightarrow> ordered s \<and> (\<forall>i. req_view cfg s i)
     \<and> (\<forall>i. map_of (sl_reqs s) i \<noteq> None \<longrightarrow> (\<exists>k<n. i = derive (lc_base_seed cfg) (of_nat k)))
     \<and> sl_arrival_seq s = of_nat n
     \<and> (\<forall>x\<in>set (sl_token_ids s). map_of (sl_reqs s) (snd x) \<noteq> None)
     \<and> (\<forall>x\<in>set (sl_estimates s). est_a (snd x) \<le> est_bound cfg \<and> est_b (snd x) \<le> est_bound cfg)
     \<and> sl_dispatched s + d = sl_returned s + bt_sum live_len (sl_reqs s)
     \<and> (\<forall>c. sl_cache s = Some c \<longrightarrow> radix_reach (lc_prefix_cache_pages cfg) 32 c)"

lemma table_invD:
  assumes "table_inv cfg n d s"
  shows "ordered s" "req_view cfg s i"
    "map_of (sl_reqs s) i \<noteq> None \<Longrightarrow> \<exists>k<n. i = derive (lc_base_seed cfg) (of_nat k)"
    "sl_arrival_seq s = of_nat n" "x \<in> set (sl_token_ids s) \<Longrightarrow> map_of (sl_reqs s) (snd x) \<noteq> None"
    "y \<in> set (sl_estimates s) \<Longrightarrow> est_a (snd y) \<le> est_bound cfg \<and> est_b (snd y) \<le> est_bound cfg"
    "sl_dispatched s + d = sl_returned s + bt_sum live_len (sl_reqs s)"
    "sl_cache s = Some c \<Longrightarrow> radix_reach (lc_prefix_cache_pages cfg) 32 c"
  using assms unfolding table_inv_def by blast+

lemma entryD:
  assumes "table_inv cfg n d s" "map_of (sl_reqs s) i = Some r"
  shows "entry_ok cfg (Some r) (map_of (sl_meta s) i) (i \<in> set (sl_waiting s))
     (i \<in> set (sl_decoding s)) (map_of (sl_segs s) i) (map_of (sl_estimates s) i \<noteq> None)"
  using table_invD(2) [OF assms(1), of i] assms(2) by (simp add: req_view_def)

text \<open>What an operation on other requests leaves alone.\<close>

definition same_entry :: "('x, 'c, 'p, 'o) SchedLoop \<Rightarrow> ('x, 'c, 'p, 'o) SchedLoop \<Rightarrow> u64 \<Rightarrow> bool" where
  "same_entry s t j \<longleftrightarrow> map_of (sl_reqs t) j = map_of (sl_reqs s) j \<and> map_of (sl_meta t) j = map_of (sl_meta s) j
     \<and> (j \<in> set (sl_waiting t) \<longleftrightarrow> j \<in> set (sl_waiting s)) \<and> (j \<in> set (sl_decoding t) \<longleftrightarrow> j \<in> set (sl_decoding s))
     \<and> map_of (sl_segs t) j = map_of (sl_segs s) j
     \<and> (map_of (sl_estimates t) j = None \<longleftrightarrow> map_of (sl_estimates s) j = None)"

definition only :: "u64 set \<Rightarrow> ('x, 'c, 'p, 'o) SchedLoop \<Rightarrow> ('x, 'c, 'p, 'o) SchedLoop \<Rightarrow> bool" where
  "only I s t \<longleftrightarrow> (\<forall>j. j \<notin> I \<longrightarrow> same_entry s t j)
     \<and> (\<forall>j. map_of (sl_reqs t) j = None \<longleftrightarrow> map_of (sl_reqs s) j = None) \<and> sl_step t = sl_step s"

lemma same_entry_refl [simp]: "same_entry s s j"
  by (simp add: same_entry_def)

lemma only_refl [simp]: "only I s s"
  by (simp add: only_def)

lemma only_trans: "only I s t \<Longrightarrow> only J t u \<Longrightarrow> only (I \<union> J) s u"
  by (simp add: only_def same_entry_def)

lemma only_mono: "only I s t \<Longrightarrow> I \<subseteq> J \<Longrightarrow> only J s t"
  unfolding only_def by blast

lemma table_inv_upd:
  assumes inv: "table_inv cfg n d s" and frame: "only {i} s t"
    and view: "req_view cfg t i" and ord: "ordered t" and seq: "sl_arrival_seq t = sl_arrival_seq s"
    and tok: "set (sl_token_ids t) \<subseteq> set (sl_token_ids s)"
    and est: "\<And>x. x \<in> set (sl_estimates t) \<Longrightarrow> x \<in> set (sl_estimates s)
      \<or> est_a (snd x) \<le> est_bound cfg \<and> est_b (snd x) \<le> est_bound cfg"
    and acc: "sl_dispatched t + d' = sl_returned t + bt_sum live_len (sl_reqs t)"
    and cache: "\<And>c. sl_cache t = Some c \<Longrightarrow> radix_reach (lc_prefix_cache_pages cfg) 32 c"
  shows "table_inv cfg n d' t"
proof -
  have "\<forall>j. req_view cfg t j"
  proof
    fix j show "req_view cfg t j"
      using view table_invD(2) [OF inv, of j] frame
      by (cases "j = i") (auto simp: only_def same_entry_def req_view_def)
  qed
  moreover have dom: "map_of (sl_reqs t) j \<noteq> None \<longleftrightarrow> map_of (sl_reqs s) j \<noteq> None" for j
    using frame by (simp add: only_def)
  then have "\<forall>j. map_of (sl_reqs t) j \<noteq> None \<longrightarrow> (\<exists>k<n. j = derive (lc_base_seed cfg) (of_nat k))"
    using table_invD(3) [OF inv] by blast
  moreover have "\<forall>x\<in>set (sl_token_ids t). map_of (sl_reqs t) (snd x) \<noteq> None"
    using table_invD(5) [OF inv] tok dom by blast
  moreover have "\<forall>x\<in>set (sl_estimates t). est_a (snd x) \<le> est_bound cfg \<and> est_b (snd x) \<le> est_bound cfg"
    using est table_invD(6) [OF inv] by blast
  moreover have "sl_arrival_seq t = of_nat n" using seq table_invD(4) [OF inv] by simp
  ultimately show ?thesis
    using ord acc cache unfolding table_inv_def by blast
qed

lemma bt_remove_None: "map_of xs k = None \<Longrightarrow> bt_remove k xs = xs"
  by (force simp: bt_remove_def map_of_eq_None_iff filter_id_conv)

lemma mset_bt_remove:
  "sorted_wrt (<) (map fst (xs :: ('k::linorder \<times> 'v) list)) \<Longrightarrow> map_of xs k = Some v \<Longrightarrow>
    mset (map snd xs) = add_mset v (mset (map snd (bt_remove k xs)))"
proof (induction xs)
  case (Cons x xs)
  show ?case
  proof (cases "fst x = k")
    case True
    then have "k \<notin> fst ` set xs" using Cons.prems(1) by (auto dest!: bspec)
    then have "map_of xs k = None" by (simp add: map_of_eq_None_iff)
    then show ?thesis using True Cons.prems(2) bt_remove_None [of xs k] by (cases x) (simp add: bt_remove_def)
  next
    case False
    then show ?thesis using Cons by (cases x) (simp add: bt_remove_def)
  qed
qed simp

lemma mset_bt_insert_new:
  "map_of xs k = None \<Longrightarrow> mset (map snd (bt_insert k v xs)) = add_mset v (mset (map snd xs))"
  by (induction k v xs rule: bt_insert.induct) (auto split: if_splits)

lemma orderedD:
  assumes "ordered s"
  shows "sorted_wrt (<) (map fst (sl_reqs s))" "sorted_wrt (<) (map fst (sl_meta s))"
    "sorted_wrt (<) (map fst (sl_segs s))" "sorted_wrt (<) (map fst (sl_estimates s))"
    "distinct (sl_waiting s)" "distinct (sl_decoding s)"
  using assms by (simp_all add: ordered_def)

lemma blocking_send_fields [simp]:
  "sl_exec (fst (blocking_send env tx f s)) = sl_exec s" "sl_reqs (fst (blocking_send env tx f s)) = sl_reqs s"
  "sl_meta (fst (blocking_send env tx f s)) = sl_meta s" "sl_waiting (fst (blocking_send env tx f s)) = sl_waiting s"
  "sl_decoding (fst (blocking_send env tx f s)) = sl_decoding s" "sl_segs (fst (blocking_send env tx f s)) = sl_segs s"
  "sl_token_ids (fst (blocking_send env tx f s)) = sl_token_ids s" "sl_estimates (fst (blocking_send env tx f s)) = sl_estimates s"
  "sl_ema (fst (blocking_send env tx f s)) = sl_ema s" "sl_arrival_seq (fst (blocking_send env tx f s)) = sl_arrival_seq s"
  "sl_step (fst (blocking_send env tx f s)) = sl_step s" "sl_dispatched (fst (blocking_send env tx f s)) = sl_dispatched s"
  "sl_returned (fst (blocking_send env tx f s)) = sl_returned s" "sl_cache (fst (blocking_send env tx f s)) = sl_cache s"
  by (simp_all add: blocking_send_def)

text \<open>The pages held for the loop.\<close>

definition held :: "nat \<Rightarrow> nat \<Rightarrow> ('x, 'c, 'p, 'o) SchedLoop \<Rightarrow> KvSegment multiset" where
  "held nl pp s = mset (map snd (sl_segs s)) + cache_runs nl pp (sl_cache s)"

lemma loop_trace_returns [simp]:
  "returns (loop_trace i ev s) Q \<longleftrightarrow> (\<exists>r. map_of (sl_reqs s) i = Some r \<and>
     Q (s\<lparr>sl_trace := sl_trace s @ [\<lparr>te_step = sl_step s, te_req = i, te_event = ev,
       te_cached_len = cached_len r, te_device_len = device_len r\<rparr>]\<rparr>))"
  by (cases "map_of (sl_reqs s) i") (simp_all add: loop_trace_def)


section \<open>Release\<close>

text \<open>What the loop is run with, for an executor of \<open>nl\<close> layers of \<open>pp\<close> pages.\<close>

definition env_fits :: "('x, 'l) BatchExecutor \<Rightarrow> nat \<Rightarrow> nat \<Rightarrow> ('x, 'c, 'l, 'p, 'o) SchedEnv \<Rightarrow> bool" where
  "env_fits ex nl pp env \<longleftrightarrow> env_ok env \<and> env_exec env = ex \<and> nl = lc_n_layer (env_cfg env) \<and> pp = cfg_pp (env_cfg env)"

lemma env_fitsD:
  assumes "env_fits ex nl pp env"
  shows "cfg_ok (env_cfg env)" "token_out (env_sampler env) l t n \<noteq> None" "env_exec env = ex"
    "window_pages (env_cfg env) = nl * pp" "pp = cfg_pp (env_cfg env)"
  using assms cfg_okD(10) [of "env_cfg env"] by (auto simp: env_fits_def env_ok_def)

lemma filter_sorted_keys: "sorted_wrt (<) (map fst xs) \<Longrightarrow> sorted_wrt (<) (map fst (filter P xs))"
  by (induction xs) auto

lemma ordered_ops:
  "ordered s \<Longrightarrow> sorted_wrt (<) (map fst (bt_insert i r (sl_reqs s)))"
  "ordered s \<Longrightarrow> sorted_wrt (<) (map fst (bt_insert i m (sl_meta s)))"
  "ordered s \<Longrightarrow> sorted_wrt (<) (map fst (bt_remove i (sl_meta s)))"
  "ordered s \<Longrightarrow> sorted_wrt (<) (map fst (bt_insert i seg (sl_segs s)))"
  "ordered s \<Longrightarrow> sorted_wrt (<) (map fst (bt_remove i (sl_segs s)))"
  "ordered s \<Longrightarrow> sorted_wrt (<) (map fst (bt_insert i e (sl_estimates s)))"
  "ordered s \<Longrightarrow> sorted_wrt (<) (map fst (bt_remove i (sl_estimates s)))"
  by (simp_all add: ordered_def sorted_bt_insert sorted_bt_remove)

lemma live_sum_update:
  assumes "ordered s" "map_of (sl_reqs s) i = Some r"
  shows "bt_sum live_len (bt_insert i r' (sl_reqs s)) + live_len r = bt_sum live_len (sl_reqs s) + live_len r'"
  by (rule bt_sum_insert_old [OF orderedD(1) [OF assms(1)] assms(2)])

context segment_executor begin

definition loop_inv :: "('x, 'c, 'l, 'p, 'o) SchedEnv \<Rightarrow> KvSegment multiset \<Rightarrow> nat \<Rightarrow> nat
    \<Rightarrow> ('x, 'c, 'p, 'o) SchedLoop \<Rightarrow> bool" where
  "loop_inv env M n d s \<longleftrightarrow> table_inv (env_cfg env) n d s \<and> owns (sl_exec s) (M + held nl pp s)"

lemma free_held_returns:
  assumes ex: "env_exec env = ex" and ord: "sorted_wrt (<) (map fst (sl_segs s))"
    and own: "owns (sl_exec s) (M + held nl pp s)"
  shows "returns (free_held env i s) (\<lambda>t. \<exists>x. t = s\<lparr>sl_segs := bt_remove i (sl_segs s), sl_exec := x\<rparr>
    \<and> owns x (M + held nl pp t))"
proof (cases "map_of (sl_segs s) i")
  case None
  have "s = s\<lparr>sl_segs := bt_remove i (sl_segs s), sl_exec := sl_exec s\<rparr>" using bt_remove_None [OF None] by simp
  then have "\<exists>x. s = s\<lparr>sl_segs := bt_remove i (sl_segs s), sl_exec := x\<rparr> \<and> owns x (M + held nl pp s)"
    using own by (intro exI [of _ "sl_exec s"] conjI)
  then show ?thesis using None by (simp add: free_held_def)
next
  case (Some seg)
  have "owns (sl_exec s) (add_mset seg (M + (mset (map snd (bt_remove i (sl_segs s))) + cache_runs nl pp (sl_cache s))))"
    using own mset_bt_remove [OF ord Some] by (simp add: held_def)
  from free [OF this] obtain x where "ex_free_segment ex seg (sl_exec s) = Some x"
    "owns x (M + (mset (map snd (bt_remove i (sl_segs s))) + cache_runs nl pp (sl_cache s)))" by blast
  then show ?thesis using Some ex by (auto simp: free_held_def held_def)
qed

text \<open>An abort leaves a terminal request behind and gives its segment back.\<close>

lemma abort_returns:
  assumes fits: "env_fits ex nl pp env" and inv: "loop_inv env M n d s" and r: "map_of (sl_reqs s) i = Some r"
    and d: "d = 0"
  shows "returns (request_abort env i f s) (\<lambda>t. loop_inv env M n d t \<and> only {i} s t
    \<and> (\<exists>r'. map_of (sl_reqs t) i = Some r' \<and> is_terminal r'))"
proof (cases "is_terminal r")
  case True
  then show ?thesis using inv r by (simp add: request_abort_def)
next
  case False
  have tab: "table_inv (env_cfg env) n d s" and own: "owns (sl_exec s) (M + held nl pp s)"
    using inv by (simp_all add: loop_inv_def)
  note ord = table_invD(1) [OF tab] and ent = entryD [OF tab r]
  define ra where "ra = fst (abort r)"
  have ra: "is_terminal ra" "rq_state ra = Aborted" "live_len ra = 0" "\<exists>pats eos h n. req_inv pats eos ra h n"
  proof -
    obtain pats eos h k where "req_inv pats eos r h k" using ent by (auto simp: entry_ok_def)
    then show "\<exists>pats eos h n. req_inv pats eos ra h n"
      unfolding ra_def using req_inv_abort by (metis prod.collapse)
    show "rq_state ra = Aborted" using False by (auto simp: ra_def abort_def arm_release_def is_terminal_def)
    then show "is_terminal ra" "live_len ra = 0" by (simp_all add: is_terminal_def live_len_def)
  qed
  define s1 where "s1 = (case f of None \<Rightarrow> s
    | Some msg \<Rightarrow> (case map_of (sl_meta s) i of None \<Rightarrow> s
      | Some m \<Rightarrow> fst (blocking_send env (rm_tx m) (ErrorFrame msg) s)))"
  have s1: "sl_exec s1 = sl_exec s" "sl_reqs s1 = sl_reqs s" "sl_meta s1 = sl_meta s" "sl_waiting s1 = sl_waiting s"
    "sl_decoding s1 = sl_decoding s" "sl_segs s1 = sl_segs s" "sl_token_ids s1 = sl_token_ids s"
    "sl_estimates s1 = sl_estimates s" "sl_arrival_seq s1 = sl_arrival_seq s" "sl_step s1 = sl_step s"
    "sl_dispatched s1 = sl_dispatched s" "sl_returned s1 = sl_returned s" "sl_cache s1 = sl_cache s"
    by (simp_all add: s1_def split: option.split)
  define s2 where "s2 = (set_req i ra s1)\<lparr>sl_trace := sl_trace s1 @ [\<lparr>te_step = sl_step s1, te_req = i, te_event = AbortedEv,
       te_cached_len = cached_len ra, te_device_len = device_len ra\<rparr>],
     sl_returned := sl_returned s1 + device_len r, sl_estimates := bt_remove i (sl_estimates s1)\<rparr>"
  have own2: "owns (sl_exec s2) (M + held nl pp s2)" using own by (simp add: s2_def s1 set_req_def held_def)
  have "sorted_wrt (<) (map fst (sl_segs s2))" using orderedD(3) [OF ord] by (simp add: s2_def s1 set_req_def)
  note fr = free_held_returns [OF env_fitsD(3) [OF fits] this own2, of i]
  have op: "request_abort env i f s
      = Option.bind (free_held env i s2) (\<lambda>s. Some (forget_req i (drop_single env i s)))"
    unfolding request_abort_def
    by (simp add: r False Let_def s1_def [symmetric] ra_def [symmetric] loop_trace_def set_req_def s1 s2_def)
  have acc: "sl_dispatched s = sl_returned s + device_len r + bt_sum live_len (bt_insert i ra (sl_reqs s))"
    using live_sum_update [OF ord r, of ra] table_invD(7) [OF tab] ra(3) False d by (simp add: live_len_def)
  have post: "loop_inv env M n d t \<and> only {i} s t \<and> (\<exists>r'. map_of (sl_reqs t) i = Some r' \<and> is_terminal r')"
    if u: "u = s2\<lparr>sl_segs := bt_remove i (sl_segs s2), sl_exec := x\<rparr>" "owns x (M + held nl pp u)"
      and t: "t = forget_req i (drop_single env i u)" for t u x
  proof -
    have f: "sl_reqs t = bt_insert i ra (sl_reqs s)" "sl_meta t = bt_remove i (sl_meta s)"
      "sl_waiting t = filter (\<lambda>x. x \<noteq> i) (sl_waiting s)" "sl_decoding t = filter (\<lambda>x. x \<noteq> i) (sl_decoding s)"
      "sl_segs t = bt_remove i (sl_segs s)" "sl_token_ids t = filter (\<lambda>p. snd p \<noteq> i) (sl_token_ids s)"
      "sl_estimates t = bt_remove i (sl_estimates s)" "sl_arrival_seq t = sl_arrival_seq s" "sl_step t = sl_step s"
      "sl_dispatched t = sl_dispatched s" "sl_returned t = sl_returned s + device_len r" "sl_cache t = sl_cache s"
      "sl_exec t = ex_drop_singleton ex i x" "held nl pp t = held nl pp u"
      using u(1) env_fitsD(3) [OF fits]
      by (simp_all add: t forget_req_def leave_waiting_def leave_decoding_def drop_single_def Let_def s2_def s1 set_req_def held_def)
    have "only {i} s t" using r by (simp add: only_def same_entry_def f)
    moreover have "table_inv (env_cfg env) n d t"
      by (rule table_inv_upd [OF tab \<open>only {i} s t\<close>])
        (use ord ra acc table_invD(8) [OF tab] d in \<open>auto simp: req_view_def f entry_ok_def ordered_def
          sorted_bt_insert sorted_bt_remove intro: subsetD [OF set_bt_remove]\<close>)
    moreover have "owns (sl_exec t) (M + held nl pp t)" using drop [OF u(2)] by (simp add: f)
    ultimately show ?thesis using ra(1) by (simp add: loop_inv_def f)
  qed
  show ?thesis unfolding op returns_simps
    by (rule returns_mono [OF fr]) (use post in blast)
qed

text \<open>The refill decision: the segment is given back, or its prefix moves into the cache.\<close>

lemma refill_returns:
  assumes fits: "env_fits ex nl pp env" and own: "owns (sl_exec s) (add_mset seg (M + held nl pp s))"
    and m: "map_of (sl_meta s) i = Some m" "lmeta_ok (env_cfg env) m"
    and seg: "n_pages seg = window_pages (env_cfg env)" "base_page seg < 2 ^ 32"
    and cache: "\<And>c. sl_cache s = Some c \<Longrightarrow> radix_reach (lc_prefix_cache_pages (env_cfg env)) 32 c"
  shows "returns (refill_prefix_release env seg i s) (\<lambda>t. \<exists>x co k.
      t = s\<lparr>sl_exec := x, sl_cache := co, sl_cache_refills := k\<rparr> \<and> owns x (M + held nl pp t)
      \<and> (\<forall>c. co = Some c \<longrightarrow> radix_reach (lc_prefix_cache_pages (env_cfg env)) 32 c))"
proof -
  let ?cfg = "env_cfg env"
  let ?Q = "\<lambda>t. \<exists>x co k. t = s\<lparr>sl_exec := x, sl_cache := co, sl_cache_refills := k\<rparr> \<and> owns x (M + held nl pp t)
      \<and> (\<forall>c. co = Some c \<longrightarrow> radix_reach (lc_prefix_cache_pages ?cfg) 32 c)"
  note cfg = env_fitsD(1) [OF fits]
  obtain x0 where x0: "ex_free_segment ex seg (sl_exec s) = Some x0" "owns x0 (M + held nl pp s)"
    using free [OF own] by blast
  have plain: "?Q (s\<lparr>sl_exec := x0\<rparr>)"
    using x0(2) cache by (intro exI [of _ x0] exI [of _ "sl_cache s"] exI [of _ "sl_cache_refills s"]) (auto simp: held_def)
  show ?thesis
  proof (cases "sl_cache s")
    case None
    then show ?thesis using x0(1) plain env_fitsD(3) [OF fits] by (simp add: refill_prefix_release_def)
  next
    case (Some c)
    define l where "l = length (rm_prompt m) div 32"
    define key where "key = take (l * 32) (rm_prompt m)"
    have key: "length key = l * 32" by (simp add: key_def l_def)
    have lm: "length (rm_prompt m) \<le> lc_max_model_len ?cfg" using m(2) by (simp add: lmeta_ok_def)
    have lpp: "l \<le> pp"
    proof -
      have "l * 32 \<le> lc_max_model_len ?cfg" using lm by (simp add: l_def)
      also have "\<dots> \<le> pp * 32"
        using div_ceil_mult_ge [of 32 "lc_max_model_len ?cfg"] cfg_okD(1) [OF cfg] env_fitsD(5) [OF fits]
        by (simp add: cfg_pp_def)
      finally show ?thesis by simp
    qed
    have l32: "l mod 2 ^ 32 = l"
      using lm cfg_okD(6) [OF cfg] by (simp add: l_def)
    have reach: "radix_reach (lc_prefix_cache_pages ?cfg) 32 c" "2 * lc_prefix_cache_pages ?cfg \<le> u64_max"
      using cache [OF Some] cfg_okD(8) [OF cfg] by simp_all
    have op: "refill_prefix_release env seg i s = (if l = 0 \<or> l < MIN_BLOCKS then Some (s\<lparr>sl_exec := x0\<rparr>)
        else if (case lookup c key of Some h \<Rightarrow> hit_key_len h = l * 32 | None \<Rightarrow> False)
        then Some (s\<lparr>sl_exec := x0, sl_cache := Some (fst (touch c key))\<rparr>)
        else (case radix_insert c key (base_page seg) l of
           Panic \<Rightarrow> None | Err er \<Rightarrow> Some (s\<lparr>sl_exec := x0\<rparr>)
         | Ok (c', evicted) \<Rightarrow> Option.bind (unref_all (ex_unref_prefix ex) evicted (sl_exec s))
             (\<lambda>x. Option.bind (ex_refill_prefix ex i seg l x) (\<lambda>x.
               Some (s\<lparr>sl_cache := Some c', sl_exec := x, sl_cache_refills := sl_cache_refills s + 1\<rparr>)))))"
      using x0(1) m(1) env_fitsD(3) [OF fits] cfg_okD(1) [OF cfg] l32 seg(2)
      by (simp add: refill_prefix_release_def Some Let_def chk_div_def l_def [symmetric] key_def [symmetric] split: res.split)
    have touched: "?Q (s\<lparr>sl_exec := x0, sl_cache := Some (fst (touch c key))\<rparr>)" if "lookup c key = Some h" for h
      using x0(2) touch_runs [OF reach that] reach_touch [OF reach(1)] Some
      by (intro exI [of _ x0] exI [of _ "Some (fst (touch c key))"] exI [of _ "sl_cache_refills s"])
        (simp add: held_def cache_runs_def)
    have stored: "returns (Option.bind (unref_all (ex_unref_prefix ex) es (sl_exec s))
          (\<lambda>x. Option.bind (ex_refill_prefix ex i seg l x) (\<lambda>x.
               Some (s\<lparr>sl_cache := Some c', sl_exec := x, sl_cache_refills := sl_cache_refills s + 1\<rparr>)))) ?Q"
      if c': "0 < l" "radix_reach (lc_prefix_cache_pages ?cfg) 32 c'"
        "mset (map snd (lru c)) = mset es + Q" "mset (map snd (lru c')) = add_mset (run_of (base_page seg) l) Q" for c' es Q
    proof -
      define E where "E = M + (mset (map snd (sl_segs s)) + all_runs nl pp Q)"
      have "add_mset seg (M + held nl pp s) = all_runs nl pp (mset es) + add_mset seg E"
        by (simp add: held_def Some cache_runs_def c'(3) [unfolded mset_map] E_def)
      then have "owns (sl_exec s) (all_runs nl pp (mset es) + add_mset seg E)" using own by simp
      then obtain y where y: "unref_all (ex_unref_prefix ex) es (sl_exec s) = Some y" "owns y (add_mset seg E)"
        using unref_evicted [of "sl_exec s" es "add_mset seg E"] by (auto simp: all_runs_def entry_runs_def [abs_def])
      obtain z where z: "ex_refill_prefix ex i seg l y = Some z" "owns z (prefix_runs nl pp (base_page seg) l + E)"
        using refill [OF y(2) c'(1) lpp] seg(1) env_fitsD(4) [OF fits] by auto
      have "owns z (M + held nl pp (s\<lparr>sl_cache := Some c', sl_exec := z, sl_cache_refills := sl_cache_refills s + 1\<rparr>))"
        using z(2) by (simp add: held_def cache_runs_def c'(4) [unfolded mset_map] entry_runs_def run_of_def E_def ac_simps)
      then show ?thesis using y(1) z(1) c'(2)
        by (auto intro!: exI [of _ z] exI [of _ "Some c'"] exI [of _ "sl_cache_refills s + 1"])
    qed
    consider (short) "l = 0 \<or> l < MIN_BLOCKS"
      | (known) h where "\<not> (l = 0 \<or> l < MIN_BLOCKS)" "lookup c key = Some h" "hit_key_len h = l * 32"
      | (fresh) "0 < l" "\<not> (l = 0 \<or> l < MIN_BLOCKS)" "\<not> (case lookup c key of Some h \<Rightarrow> hit_key_len h = l * 32 | None \<Rightarrow> False)"
      by (cases "lookup c key"; cases "l = 0 \<or> l < MIN_BLOCKS") (simp_all, blast+)
    then show ?thesis
    proof cases
      case short
      then show ?thesis unfolding op using plain by simp
    next
      case known
      then show ?thesis unfolding op using touched by simp
    next
      case fresh
      have miss: "hit_key_len h \<noteq> length key" if "lookup c key = Some h" for h using fresh(3) that key by simp
      show ?thesis
      proof (rule insert_uncovered [OF reach key fresh(1) miss, where base = "base_page seg"])
        fix e assume "radix_insert c key (base_page seg) l = Err e"
        then show ?thesis unfolding op using fresh plain by simp
      next
        fix c' es Q
        assume ins: "radix_insert c key (base_page seg) l = Ok (c', es)" and c': "radix_reach (lc_prefix_cache_pages ?cfg) 32 c'"
          "mset (map snd (lru c)) = mset es + Q" "mset (map snd (lru c')) = add_mset (run_of (base_page seg) l) Q"
        show ?thesis unfolding op using stored [OF fresh(1) c'] fresh(2,3) ins by simp
      qed
    qed
  qed
qed

text \<open>
  The normal end of a decoding request: \<open>s\<close> is the state after its last token, \<open>s0\<close> the one before.
\<close>

lemma terminal_returns:
  assumes fits: "env_fits ex nl pp env" and inv: "loop_inv env M n 0 s0" and r: "map_of (sl_reqs s0) i = Some r"
    and st: "rq_state r = Decode" and r': "rq_state r' = Done" "device_len r' = device_len r + 1"
      "\<exists>pats eos h n. req_inv pats eos r' h n"
    and s: "sl_exec s = sl_exec s0" "sl_reqs s = bt_insert i r' (sl_reqs s0)" "sl_waiting s = sl_waiting s0"
      "sl_decoding s = sl_decoding s0" "sl_segs s = sl_segs s0" "sl_token_ids s = sl_token_ids s0"
      "sl_estimates s = sl_estimates s0" "sl_arrival_seq s = sl_arrival_seq s0" "sl_step s = sl_step s0"
      "sl_dispatched s = sl_dispatched s0 + 1" "sl_returned s = sl_returned s0" "sl_cache s = sl_cache s0"
    and m: "map_of (sl_meta s) i = Some m" "lmeta_ok (env_cfg env) m" "\<And>j. j \<noteq> i \<Longrightarrow> map_of (sl_meta s) j = map_of (sl_meta s0) j"
      "sorted_wrt (<) (map fst (sl_meta s))"
  shows "returns (loop_terminal env i a b s) (\<lambda>t. loop_inv env M n 0 t \<and> only {i} s0 t
    \<and> (\<exists>r'. map_of (sl_reqs t) i = Some r' \<and> is_terminal r'))"
proof -
  let ?cfg = "env_cfg env"
  have tab: "table_inv ?cfg n 0 s0" and own: "owns (sl_exec s0) (M + held nl pp s0)"
    using inv by (simp_all add: loop_inv_def)
  note ord = table_invD(1) [OF tab] and ent = entryD [OF tab r]
  obtain seg where seg: "map_of (sl_segs s0) i = Some seg"
    using entry_ok_state(5) [OF ent st] by blast
  note sg = entry_ok_state(9) [OF ent seg]
  define rt where "rt = fst (take_release r')"
  have rt: "rq_state rt = Done" "live_len rt = 0" "is_terminal rt" "\<exists>pats eos h n. req_inv pats eos rt h n"
  proof -
    obtain pats eos h k where "req_inv pats eos r' h k" using r'(3) by blast
    then show "\<exists>pats eos h n. req_inv pats eos rt h n" unfolding rt_def using req_inv_release by (metis prod.collapse)
    show "rq_state rt = Done" using r'(1) by (simp add: rt_def take_release_def)
    then show "is_terminal rt" "live_len rt = 0" by (simp_all add: is_terminal_def live_len_def)
  qed
  define s1 where "s1 = fst (blocking_send env (rm_tx m)
      (DoneFrame a b (length (rm_generated m)) (length (rm_prompt m))) s)"
  define s2 where "s2 = (set_req i rt (s1\<lparr>sl_returned := sl_returned s1 + device_len r'\<rparr>))
      \<lparr>sl_ema := fst (ema_update (sl_ema s1) (f64 (of_nat (output_tokens r')))),
       sl_estimates := bt_remove i (sl_estimates s1), sl_segs := bt_remove i (sl_segs s1)\<rparr>"
  have f2: "sl_exec s2 = sl_exec s0" "sl_reqs s2 = bt_insert i rt (bt_insert i r' (sl_reqs s0))" "sl_meta s2 = sl_meta s"
    "sl_waiting s2 = sl_waiting s0" "sl_decoding s2 = sl_decoding s0" "sl_segs s2 = bt_remove i (sl_segs s0)"
    "sl_token_ids s2 = sl_token_ids s0" "sl_estimates s2 = bt_remove i (sl_estimates s0)"
    "sl_arrival_seq s2 = sl_arrival_seq s0" "sl_step s2 = sl_step s0" "sl_dispatched s2 = sl_dispatched s0 + 1"
    "sl_returned s2 = sl_returned s0 + device_len r'" "sl_cache s2 = sl_cache s0"
    by (simp_all add: s2_def set_req_def s1_def s)
  have op: "loop_terminal env i a b s = Option.bind (refill_prefix_release env seg i s2) (\<lambda>s. Some (forget_req i s))"
    unfolding loop_terminal_def
    by (simp add: m(1) s(2,5) seg Let_def rt_def [symmetric] s1_def [symmetric] set_req_def s2_def)
      (simp add: s1_def s seg)
  have own2: "owns (sl_exec s2) (add_mset seg (M + held nl pp s2))"
    using own mset_bt_remove [OF orderedD(3) [OF ord] seg] by (simp add: held_def f2)
  have cache2: "\<And>c. sl_cache s2 = Some c \<Longrightarrow> radix_reach (lc_prefix_cache_pages ?cfg) 32 c"
    using table_invD(8) [OF tab] by (simp add: f2)
  have "map_of (sl_meta s2) i = Some m" using m(1) by (simp add: f2)
  note re = refill_returns [OF fits own2 this m(2) conjunct1 [OF sg] conjunct2 [OF sg] cache2]
  have idem: "bt_insert i rt (bt_insert i r' xs) = bt_insert i rt xs" for xs :: "(u64 \<times> Req) list"
    by (induction i r' xs rule: bt_insert.induct) auto
  have acc: "sl_dispatched s0 + 1 = sl_returned s0 + device_len r' + bt_sum live_len (bt_insert i rt (sl_reqs s0))"
    using live_sum_update [OF ord r, of rt] table_invD(7) [OF tab] rt(2) r'(2) st by (simp add: live_len_def is_terminal_def)
  have post: "loop_inv env M n 0 t \<and> only {i} s0 t \<and> (\<exists>r'. map_of (sl_reqs t) i = Some r' \<and> is_terminal r')"
    if u: "u = s2\<lparr>sl_exec := x, sl_cache := co, sl_cache_refills := k\<rparr>" "owns x (M + held nl pp u)"
        "\<forall>c. co = Some c \<longrightarrow> radix_reach (lc_prefix_cache_pages ?cfg) 32 c"
      and t: "t = forget_req i u" for t u x co k
  proof -
    have f: "sl_reqs t = bt_insert i rt (sl_reqs s0)" "sl_meta t = bt_remove i (sl_meta s)"
      "sl_waiting t = filter (\<lambda>x. x \<noteq> i) (sl_waiting s0)" "sl_decoding t = filter (\<lambda>x. x \<noteq> i) (sl_decoding s0)"
      "sl_segs t = bt_remove i (sl_segs s0)" "sl_token_ids t = filter (\<lambda>p. snd p \<noteq> i) (sl_token_ids s0)"
      "sl_estimates t = bt_remove i (sl_estimates s0)" "sl_arrival_seq t = sl_arrival_seq s0" "sl_step t = sl_step s0"
      "sl_dispatched t = sl_dispatched s0 + 1" "sl_returned t = sl_returned s0 + device_len r'" "sl_cache t = co"
      "sl_exec t = x" "held nl pp t = held nl pp u"
      using u(1) by (simp_all add: t forget_req_def leave_waiting_def leave_decoding_def Let_def f2 idem held_def)
    have "only {i} s0 t" using r m(3) by (simp add: only_def same_entry_def f)
    moreover have "table_inv ?cfg n 0 t"
      by (rule table_inv_upd [OF tab \<open>only {i} s0 t\<close>])
        (use ord rt acc u(3) m(4) in \<open>auto simp: req_view_def f entry_ok_def ordered_def
          sorted_bt_insert sorted_bt_remove intro: subsetD [OF set_bt_remove]\<close>)
    ultimately show ?thesis using rt(3) u(2) by (simp add: loop_inv_def f)
  qed
  show ?thesis unfolding op returns_simps
    by (rule returns_mono [OF re], assumption) (elim exE conjE, rule post [OF _ _ _ refl], assumption+)
qed

end

end
