(* ===== verification/Sched_Step.thy ===== *)
theory Sched_Step
  imports Sched_Inv
begin

text \<open>
  Every phase of the event loop returns and keeps its invariant, under the contract of the executor:
  admission, preemption, prefill, decoding and the commands.
\<close>

section \<open>Requests between two phases\<close>

text \<open>A request at rest is not in the middle of a chunk.\<close>

definition settled_at :: "('x, 'c, 'p, 'o) SchedLoop \<Rightarrow> u64 \<Rightarrow> bool" where
  "settled_at s i \<longleftrightarrow> (\<forall>r. map_of (sl_reqs s) i = Some r \<longrightarrow>
     rq_state r \<noteq> Prefill \<and> (rq_state r = Chunked \<longrightarrow> device_len r = cached_len r))"

definition settled :: "('x, 'c, 'p, 'o) SchedLoop \<Rightarrow> bool" where
  "settled s \<longleftrightarrow> (\<forall>i. settled_at s i)"

lemma settled_only: "settled s \<Longrightarrow> only {i} s t \<Longrightarrow> settled_at t i \<Longrightarrow> settled t"
  unfolding settled_def settled_at_def only_def same_entry_def by (metis singletonD)

lemma settled_cong: "sl_reqs t = sl_reqs s \<Longrightarrow> settled t = settled s"
  by (simp add: settled_def settled_at_def)

lemma settled_terminal: "map_of (sl_reqs t) i = Some r \<Longrightarrow> is_terminal r \<Longrightarrow> settled_at t i"
  by (auto simp: settled_at_def is_terminal_def)

lemma settledD: "settled s \<Longrightarrow> map_of (sl_reqs s) i = Some r \<Longrightarrow>
    rq_state r \<noteq> Prefill \<and> (rq_state r = Chunked \<longrightarrow> device_len r = cached_len r)"
  by (simp add: settled_def settled_at_def)

text \<open>What the selector is told about a request, and the assignments it may make.\<close>

definition told :: "('x, 'c, 'p, 'o) SchedLoop \<Rightarrow> WaitingReq \<Rightarrow> bool" where
  "told s w \<longleftrightarrow> (\<exists>r m. map_of (sl_reqs s) (w_id w) = Some r \<and> map_of (sl_meta s) (w_id w) = Some m
     \<and> queued r \<and> w_cached_len w = cached_len r \<and> w_prompt_len w = length (rm_prompt m))"

definition chunk_of :: "('x, 'c, 'p, 'o) SchedLoop \<Rightarrow> u64 \<times> nat \<times> nat \<Rightarrow> bool" where
  "chunk_of s p \<longleftrightarrow> (\<exists>r m. map_of (sl_reqs s) (fst p) = Some r \<and> map_of (sl_meta s) (fst p) = Some m
     \<and> queued r \<and> fst (snd p) = cached_len r \<and> fst (snd p) < snd (snd p) \<and> snd (snd p) \<le> length (rm_prompt m))"

lemma chunk_of_only: "only I s t \<Longrightarrow> fst p \<notin> I \<Longrightarrow> chunk_of s p \<Longrightarrow> chunk_of t p"
  unfolding only_def same_entry_def chunk_of_def by simp

section \<open>Admission\<close>

lemma estimate_bounded:
  assumes "p + mo \<le> L" "L < 2 ^ 32" "rem \<le> p"
  shows "\<exists>e. estimate \<lparr>input_len = p, max_new_tokens = mo, has_out_len = 0, shm_kv_len = 0, chunked_remaining = rem,
       chunk_size = ch, busy = bz, ema_req_out_len = em, max_waiting_tokens = 16\<rparr> = Some e
    \<and> est_a e \<le> 17 * L + 17 \<and> est_b e \<le> 17 * L + 17"
proof -
  have "sat_mul (div_ceil rem ch) 17 \<le> p * 17"
    unfolding sat_mul_def using div_ceil_le [of rem ch] assms(3) by (meson le_trans min.cobounded1 mult_le_mono1)
  then have s: "sat_add (sat_add x ADDED_OUTPUT_LEN) (sat_mul (div_ceil rem ch) 17) \<le> 17 * L + 17"
      "sat_add x ADDED_OUTPUT_LEN \<le> 17 * L + 17" if "x \<le> mo" for x
    using assms(1) that unfolding sat_add_def ADDED_OUTPUT_LEN_def by linarith+
  have "p + 1 \<le> u64_max" "max (Suc p) 1 \<le> 17 * L + 17" "17 \<le> u64_max"
    using assms(1,2) by (simp_all add: u64_max_def)
  then show ?thesis using s by (auto simp: estimate_def Let_def chk_add_def)
qed

lemma loop_busy_ok: "cfg_ok cfg \<Longrightarrow> \<exists>b. loop_busy cfg s = Some b"
  using pool_tokens_ok by (simp add: loop_busy_def)

lemma loop_estimate_returns:
  assumes cfg: "cfg_ok cfg" and tab: "table_inv cfg n d s" and r: "map_of (sl_reqs s) i = Some r" "queued r"
    and m: "map_of (sl_meta s) i = Some m"
  shows "returns (loop_estimate cfg i s) (\<lambda>e. est_a e \<le> est_bound cfg \<and> est_b e \<le> est_bound cfg)"
proof -
  note ent = entryD [OF tab r(1)]
  have "length (rm_prompt m) + rm_max_output m \<le> lc_max_model_len cfg"
    using entry_ok_state(7) [OF ent m] by (simp add: lmeta_ok_def)
  moreover have "output_tokens r = 0"
    using r(2) entry_ok_state(1,2,4) [OF ent] by (auto simp: queued_def output_tokens_def)
  moreover have "(if rq_state r = Chunked then prompt_len r - cached_len r else 0) \<le> length (rm_prompt m)"
    using entry_ok_state(8) [OF ent m] by simp
  moreover obtain b where "loop_busy cfg s = Some b" using loop_busy_ok [OF cfg] by blast
  ultimately show ?thesis
    using estimate_bounded [of "length (rm_prompt m)" "rm_max_output m" "lc_max_model_len cfg"
        "if rq_state r = Chunked then prompt_len r - cached_len r else 0"
        "lc_chunk_size cfg" b "to_u64 (round_half_up (ema (sl_ema s)))"] cfg_okD(6) [OF cfg]
    by (auto simp: loop_estimate_def r(1) m est_bound_def)
qed

text \<open>The working set is small when its length passes the first gate, so the sums do not overflow.\<close>

lemma admission_returns:
  assumes cfg: "cfg_ok cfg" and ac: "admission_cfg cfg = Some ac"
    and ws: "\<And>x. x \<in> set ws \<Longrightarrow> est_a (snd x) \<le> est_bound cfg \<and> est_b (snd x) \<le> est_bound cfg"
  shows "\<exists>v. check_admission ws fc sm b ac = Some v"
proof (cases "running_max_req_size ac < length ws")
  case True
  then show ?thesis by (simp add: check_admission_def)
next
  case False
  have a: "max_total_pages ac * page_size ac \<le> u64_max" "running_max_req_size ac \<le> lc_kv_pages cfg"
    using admission_cfg_ok [OF cfg] ac by auto
  have "length ws * est_bound cfg \<le> lc_kv_pages cfg * est_bound cfg"
    using False a(2) by (intro mult_le_mono1) linarith
  then have "length ws * est_bound cfg \<le> u64_max" using cfg_okD(7) [OF cfg] by linarith
  moreover have "sum_list (map (est_a \<circ> snd) ws) \<le> length ws * est_bound cfg"
    "sum_list (map (est_b \<circ> snd) ws) \<le> length ws * est_bound cfg"
    by (rule sum_list_bound; use ws in auto)+
  ultimately show ?thesis using a(1) by (intro check_admission_total) linarith+
qed

context segment_executor begin

lemma admit_one_returns:
  assumes fits: "env_fits ex nl pp env" and inv: "loop_inv env M n 0 s" and st: "settled s"
    and i: "i \<in> set (sl_waiting s)"
  shows "returns (loop_admit_one (env_cfg env) i (s, el)) (\<lambda>(t, el'). loop_inv env M n 0 t
    \<and> sl_reqs t = sl_reqs s \<and> sl_meta t = sl_meta s \<and> sl_waiting t = sl_waiting s \<and> sl_decoding t = sl_decoding s
    \<and> sl_step t = sl_step s \<and> (el' = el \<or> (\<exists>w. el' = el @ [w] \<and> w_id w = i \<and> told s w)))"
proof -
  let ?cfg = "env_cfg env"
  note cfg = env_fitsD(1) [OF fits]
  have tab: "table_inv ?cfg n 0 s" and own: "owns (sl_exec s) (M + held nl pp s)"
    using inv by (simp_all add: loop_inv_def)
  have "map_of (sl_reqs s) i \<noteq> None"
    using table_invD(2) [OF tab, of i] i by (auto simp: req_view_def entry_ok_def split: option.splits)
  then obtain r where r: "map_of (sl_reqs s) i = Some r" by blast
  note ent = entryD [OF tab r] and ord = table_invD(1) [OF tab]
  have q: "queued r" using entry_ok_state(5,6) [OF ent] settledD [OF st r] i
    by (cases "rq_state r") (auto simp: queued_def is_terminal_def)
  then obtain m where m: "map_of (sl_meta s) i = Some m"
    using entry_ok_state(1,2,4) [OF ent] i by (auto simp: queued_def)
  obtain e where e: "loop_estimate ?cfg i s = Some e" "est_a e \<le> est_bound ?cfg" "est_b e \<le> est_bound ?cfg"
    using returnsD [OF loop_estimate_returns [OF cfg tab r q m]] by blast
  obtain b where b: "loop_busy ?cfg s = Some b" using loop_busy_ok [OF cfg] by blast
  obtain ac where ac: "admission_cfg ?cfg = Some ac" using admission_cfg_ok [OF cfg] by blast
  define fc where "fc = (if rq_state r = Waiting then Some (min (lc_chunk_size ?cfg) (length (rm_prompt m))) else None)"
  have ws: "est_a (snd x) \<le> est_bound ?cfg \<and> est_b (snd x) \<le> est_bound ?cfg" if "x \<in> set (working_set i e s)" for x
    using subsetD [OF set_update_subset that [unfolded working_set_def]] e(2,3) table_invD(6) [OF tab, of x] by auto
  obtain v where v: "check_admission (working_set i e s) fc (sl_first_chunk_sum s) b ac = Some v"
    using admission_returns [OF cfg ac ws] by blast
  have len: "max (prompt_len r) (length (rm_prompt m)) = length (rm_prompt m)"
    using entry_ok_state(1) [OF ent] entry_ok_state(8) [OF ent m] by (cases "rq_state r = Waiting") auto
  have up: "loop_inv env M n 0 (s\<lparr>sl_first_chunk_sum := c, sl_estimates := bt_insert i e (sl_estimates s), sl_trace := tr\<rparr>)" for c tr
  proof -
    let ?t = "s\<lparr>sl_first_chunk_sum := c, sl_estimates := bt_insert i e (sl_estimates s), sl_trace := tr\<rparr>"
    have fr: "only {i} s ?t" by (simp add: only_def same_entry_def)
    have "table_inv ?cfg n 0 ?t"
      by (rule table_inv_upd [OF tab fr])
        (use ord table_invD(7,8) [OF tab] ent i e(2,3) in \<open>auto simp: req_view_def r entry_ok_def ordered_def
          sorted_bt_insert dest!: subsetD [OF set_bt_insert] split: ReqState.splits\<close>)
    then show ?thesis using own by (simp add: loop_inv_def held_def)
  qed
  have tr: "loop_inv env M n 0 (s\<lparr>sl_trace := tr\<rparr>)" for tr
    using inv unfolding loop_inv_def table_inv_def ordered_def req_view_def held_def by simp
  show ?thesis
    using up tr r q m
    by (cases v) (simp_all add: loop_admit_one_def e(1) b ac fc_def [symmetric] v Let_def told_def len)
qed

lemma admit_fold_returns:
  assumes fits: "env_fits ex nl pp env"
  shows "loop_inv env M n 0 s \<Longrightarrow> settled s \<Longrightarrow> set xs \<subseteq> set (sl_waiting s) \<Longrightarrow> distinct (map w_id el @ xs) \<Longrightarrow>
    \<forall>w\<in>set el. told s w \<Longrightarrow>
    returns (fold_opt (loop_admit_one (env_cfg env)) xs (s, el)) (\<lambda>(t, el'). loop_inv env M n 0 t
      \<and> sl_reqs t = sl_reqs s \<and> sl_meta t = sl_meta s \<and> sl_decoding t = sl_decoding s \<and> sl_step t = sl_step s
      \<and> distinct (map w_id el') \<and> (\<forall>w\<in>set el'. told t w))"
proof (induction xs arbitrary: s el)
  case (Cons i xs)
  have "i \<in> set (sl_waiting s)" using Cons.prems(3) by simp
  note one = admit_one_returns [OF fits Cons.prems(1,2) this]
  show ?case unfolding fold_opt.simps returns_simps
  proof (rule returns_mono [OF one], clarsimp)
    fix t el1
    assume t: "loop_inv env M n 0 t" "sl_reqs t = sl_reqs s" "sl_meta t = sl_meta s" "sl_waiting t = sl_waiting s"
      "sl_decoding t = sl_decoding s" "sl_step t = sl_step s" "el1 = el \<or> (\<exists>w. el1 = el @ [w] \<and> w_id w = i \<and> told s w)"
    have told: "told t w = told s w" for w using t by (simp add: told_def)
    have d: "distinct (map w_id el1 @ xs)" using t(7) Cons.prems(4) by (auto; blast)
    have "\<forall>w\<in>set el1. told t w" using t(7) Cons.prems(5) told by auto
    with Cons.IH [OF t(1) _ _ d] t Cons.prems(2,3) settled_cong [OF t(2)]
    show "returns (fold_opt (loop_admit_one (env_cfg env)) xs (t, el1)) (\<lambda>(t, el'). loop_inv env M n 0 t
      \<and> sl_reqs t = sl_reqs s \<and> sl_meta t = sl_meta s \<and> sl_decoding t = sl_decoding s \<and> sl_step t = sl_step s
      \<and> distinct (map w_id el') \<and> (\<forall>w\<in>set el'. told t w))" by simp
  qed
qed simp

lemma preempt_returns:
  assumes fits: "env_fits ex nl pp env" and inv: "loop_inv env M n 0 s" and i: "i \<in> set (sl_decoding s)"
  shows "returns (loop_preempt env i s) (\<lambda>t. loop_inv env M n 0 t \<and> only {i} s t \<and> settled_at t i
    \<and> (\<forall>j. j \<noteq> i \<longrightarrow> j \<in> set (sl_decoding s) \<longrightarrow> j \<in> set (sl_decoding t)))"
proof -
  let ?cfg = "env_cfg env"
  have tab: "table_inv ?cfg n 0 s" and own: "owns (sl_exec s) (M + held nl pp s)"
    using inv by (simp_all add: loop_inv_def)
  have "map_of (sl_reqs s) i \<noteq> None"
    using table_invD(2) [OF tab, of i] i by (auto simp: req_view_def entry_ok_def split: option.splits)
  then obtain r where r: "map_of (sl_reqs s) i = Some r" by blast
  note ent = entryD [OF tab r] and ord = table_invD(1) [OF tab]
  have st: "rq_state r = Decode" using ent i by (auto simp: entry_ok_def split: ReqState.splits)
  then obtain r' where pr: "preempt r = Ok r'" by (simp add: preempt_def)
  have r': "rq_state r' = Preempted" "live_len r' = 0" "prompt_len r' = prompt_len r" "max_output r' = max_output r"
    using pr st by (auto simp: preempt_def live_len_def)
  have inv': "\<exists>pats eos h n. req_inv pats eos r' h n"
  proof -
    obtain pats eos h k where "req_inv pats eos r h k" using ent by (auto simp: entry_ok_def)
    from req_inv_preempt [OF this pr] show ?thesis by blast
  qed
  obtain m where m: "map_of (sl_meta s) i = Some m" using entry_ok_state(5) [OF ent st] by blast
  have pm: "prompt_len r = length (rm_prompt m)" "max_output r = rm_max_output m" "lmeta_ok ?cfg m"
    using entry_ok_state(7,8) [OF ent m] st by auto
  have nw: "i \<notin> set (sl_waiting s)" using entry_ok_state(5) [OF ent st] by blast
  define s2 where "s2 = (leave_decoding i ((set_req i r' s)\<lparr>sl_returned := sl_returned s + device_len r,
    sl_trace := sl_trace s @ [\<lparr>te_step = sl_step s, te_req = i, te_event = PreemptedEv,
       te_cached_len = cached_len r', te_device_len = device_len r'\<rparr>]\<rparr>))\<lparr>sl_waiting := i # sl_waiting s\<rparr>"
  have f2: "sl_exec s2 = sl_exec s" "sl_reqs s2 = bt_insert i r' (sl_reqs s)" "sl_meta s2 = sl_meta s"
    "sl_waiting s2 = i # sl_waiting s" "sl_decoding s2 = filter (\<lambda>x. x \<noteq> i) (sl_decoding s)" "sl_segs s2 = sl_segs s"
    "sl_token_ids s2 = sl_token_ids s" "sl_estimates s2 = sl_estimates s" "sl_arrival_seq s2 = sl_arrival_seq s"
    "sl_step s2 = sl_step s" "sl_dispatched s2 = sl_dispatched s" "sl_returned s2 = sl_returned s + device_len r"
    "sl_cache s2 = sl_cache s"
    by (simp_all add: s2_def set_req_def leave_decoding_def)
  have op: "loop_preempt env i s = Option.bind (free_held env i s2) (\<lambda>s. Some (drop_single env i s))"
    unfolding loop_preempt_def by (simp add: r pr loop_trace_def Let_def s2_def set_req_def leave_decoding_def)
  have own2: "owns (sl_exec s2) (M + held nl pp s2)" using own by (simp add: held_def f2)
  have "sorted_wrt (<) (map fst (sl_segs s2))" using orderedD(3) [OF ord] by (simp add: f2)
  note fr = free_held_returns [OF env_fitsD(3) [OF fits] this own2, of i]
  have acc: "sl_dispatched s = sl_returned s + device_len r + bt_sum live_len (bt_insert i r' (sl_reqs s))"
    using live_sum_update [OF ord r, of r'] table_invD(7) [OF tab] r'(2) st by (simp add: live_len_def is_terminal_def)
  have post: "loop_inv env M n 0 t \<and> only {i} s t \<and> settled_at t i
      \<and> (\<forall>j. j \<noteq> i \<longrightarrow> j \<in> set (sl_decoding s) \<longrightarrow> j \<in> set (sl_decoding t))"
    if u: "u = s2\<lparr>sl_segs := bt_remove i (sl_segs s2), sl_exec := x\<rparr>" "owns x (M + held nl pp u)"
      and t: "t = drop_single env i u" for t u x
  proof -
    have f: "sl_reqs t = bt_insert i r' (sl_reqs s)" "sl_meta t = sl_meta s" "sl_waiting t = i # sl_waiting s"
      "sl_decoding t = filter (\<lambda>x. x \<noteq> i) (sl_decoding s)" "sl_segs t = bt_remove i (sl_segs s)"
      "sl_token_ids t = sl_token_ids s" "sl_estimates t = sl_estimates s" "sl_arrival_seq t = sl_arrival_seq s"
      "sl_step t = sl_step s" "sl_dispatched t = sl_dispatched s" "sl_returned t = sl_returned s + device_len r"
      "sl_cache t = sl_cache s" "sl_exec t = ex_drop_singleton ex i x" "held nl pp t = held nl pp u"
      using u(1) env_fitsD(3) [OF fits] by (simp_all add: t drop_single_def f2 held_def)
    have "only {i} s t" using r by (simp add: only_def same_entry_def f)
    moreover have "table_inv ?cfg n 0 t"
      by (rule table_inv_upd [OF tab \<open>only {i} s t\<close>])
        (use ord r' inv' acc table_invD(8) [OF tab] m pm nw in \<open>auto simp: req_view_def f entry_ok_def ordered_def
          params_ok_def sorted_bt_insert sorted_bt_remove\<close>)
    moreover have "owns (sl_exec t) (M + held nl pp t)" using drop [OF u(2)] by (simp add: f)
    ultimately show ?thesis using r'(1) by (auto simp: loop_inv_def f settled_at_def)
  qed
  show ?thesis unfolding op returns_simps
    by (rule returns_mono [OF fr]) (elim exE conjE, rule post [OF _ _ refl], assumption+)
qed

lemma preempt_fold_returns:
  assumes fits: "env_fits ex nl pp env"
  shows "loop_inv env M n 0 s \<Longrightarrow> settled s \<Longrightarrow> set xs \<subseteq> set (sl_decoding s) \<Longrightarrow> distinct xs \<Longrightarrow>
    returns (fold_opt (loop_preempt env) xs s) (\<lambda>t. loop_inv env M n 0 t \<and> settled t \<and> only (set xs) s t)"
proof (induction xs arbitrary: s)
  case (Cons i xs)
  have "i \<in> set (sl_decoding s)" using Cons.prems(3) by simp
  note one = preempt_returns [OF fits Cons.prems(1) this]
  show ?case unfolding fold_opt.simps returns_simps
  proof (rule returns_mono [OF one], elim conjE)
    fix t assume t: "loop_inv env M n 0 t" "only {i} s t" "settled_at t i"
      "\<forall>j. j \<noteq> i \<longrightarrow> j \<in> set (sl_decoding s) \<longrightarrow> j \<in> set (sl_decoding t)"
    have "set xs \<subseteq> set (sl_decoding t)" using t(4) Cons.prems(3,4) by auto
    from Cons.IH [OF t(1) settled_only [OF Cons.prems(2) t(2,3)] this]
    show "returns (fold_opt (loop_preempt env) xs t) (\<lambda>t. loop_inv env M n 0 t \<and> settled t \<and> only (set (i # xs)) s t)"
      using Cons.prems(4) only_trans [OF t(2), of "set xs"] by (auto elim!: returns_mono)
  qed
qed simp

end

section \<open>Prefill\<close>

text \<open>A dispatched chunk: what the request looks like until it is confirmed.\<close>

definition in_chunk :: "Req \<Rightarrow> Req \<Rightarrow> nat \<Rightarrow> bool" where
  "in_chunk r1 r e \<longleftrightarrow> is_prefilling r1 \<and> device_len r1 = e \<and> cached_len r1 = cached_len r \<and> (\<exists>pats eos h n. req_inv pats eos r1 h n)"

lemma start_prefill_chunk:
  assumes "\<exists>pats eos h n. req_inv pats eos r h n" "rq_state r = Waiting \<or> rq_state r = Preempted" "0 < e" "e \<le> p"
  shows "\<exists>r1. start_prefill r p mo e = Ok r1 \<and> in_chunk r1 r e \<and> prompt_len r1 = p \<and> max_output r1 = mo"
proof -
  obtain pats eos h n where inv: "req_inv pats eos r h n" using assms(1) by blast
  obtain r1 where r1: "start_prefill r p mo e = Ok r1" "device_len r1 = e" "is_prefilling r1" "prompt_len r1 = p" "max_output r1 = mo"
    "cached_len r1 = cached_len r"
    using assms(2-) inv by (cases "p \<le> e") (auto simp: start_prefill_def Let_def cursors_valid_def is_prefilling_def req_inv_simps)
  then show ?thesis using req_inv_start [OF inv r1(1)] by (auto simp: in_chunk_def)
qed

lemma dispatch_chunk_chunk:
  assumes "\<exists>pats eos h n. req_inv pats eos r h n" "rq_state r = Chunked" "cached_len r < e" "e \<le> prompt_len r"
  shows "\<exists>r1. dispatch_chunk r e = Ok r1 \<and> in_chunk r1 r e \<and> prompt_len r1 = prompt_len r \<and> max_output r1 = max_output r"
proof -
  obtain pats eos h n where inv: "req_inv pats eos r h n" using assms(1) by blast
  obtain r1 where r1: "dispatch_chunk r e = Ok r1" "device_len r1 = e" "is_prefilling r1"
      "prompt_len r1 = prompt_len r" "max_output r1 = max_output r" "cached_len r1 = cached_len r"
    using assms(2-) by (auto simp: dispatch_chunk_def Let_def cursors_valid_def is_prefilling_def)
  then show ?thesis using req_inv_dispatch [OF inv r1(1)] by (auto simp: in_chunk_def)
qed

lemma confirm_chunk:
  assumes "\<exists>pats eos h n. req_inv pats eos r h n" "is_prefilling r"
  shows "\<exists>r' ev. confirm r = Some (r', ev) \<and> device_len r' = device_len r \<and> cached_len r' = device_len r
    \<and> prompt_len r' = prompt_len r \<and> max_output r' = max_output r \<and> (\<exists>pats eos h n. req_inv pats eos r' h n)
    \<and> (ev = ChunkConfirmed \<and> rq_state r' = Chunked \<and> device_len r < prompt_len r \<or> ev = PrefillDone \<and> rq_state r' = Decode)"
proof -
  obtain pats eos h n where inv: "req_inv pats eos r h n" using assms(1) by blast
  obtain r' ev where c: "confirm r = Some (r', ev)" using assms(2)
    by (cases "prompt_len r \<le> device_len r") (auto simp: confirm_def Let_def)
  have "req_inv pats eos r' h n" by (rule req_inv_confirm [OF inv c])
  moreover have "rq_state r = Prefill \<Longrightarrow> device_len r = prompt_len r" using inv by (simp add: req_inv_simps)
  ultimately show ?thesis using c assms(2)
    by (auto simp: confirm_def is_prefilling_def Let_def split: if_splits)
qed

text \<open>The end of a chunk is a page boundary or the end of the prompt.\<close>

lemma align_chunk_end_spec:
  assumes "0 < b" "e \<le> p" "p \<le> u64_max"
  shows "\<exists>e'. align_chunk_end e p b = Some e' \<and> e' \<le> e \<and> (e' = p \<or> e' mod b = 0) \<and> e < e' + b"
proof (cases "p \<le> e")
  case True
  then show ?thesis using assms by (simp add: align_chunk_end_def)
next
  case False
  have "e div b * b \<le> e" by simp
  moreover have "e < e div b * b + b" using assms(1) by (metis add.commute dividend_less_div_times mult.commute)
  moreover have "e div b * b \<le> u64_max" using assms(2,3) \<open>e div b * b \<le> e\<close> by linarith
  ultimately show ?thesis using False assms(1) by (simp add: align_chunk_end_def chk_div_def chk_mul_def)
qed

context segment_executor begin

lemma table_exec [simp]: "table_inv cfg n d (s\<lparr>sl_exec := x\<rparr>) = table_inv cfg n d s"
  by (simp add: table_inv_def ordered_def req_view_def)

lemma held_exec [simp]: "held nl pp (s\<lparr>sl_exec := x\<rparr>) = held nl pp s"
  by (simp add: held_def)

lemma inv_exec: "loop_inv env M n d s \<Longrightarrow> owns x (M + held nl pp s) \<Longrightarrow> loop_inv env M n d (s\<lparr>sl_exec := x\<rparr>)"
  by (simp add: loop_inv_def)

lemma inv_trace: "loop_inv env M n d (s\<lparr>sl_trace := tr\<rparr>) = loop_inv env M n d s"
  by (simp add: loop_inv_def table_inv_def ordered_def req_view_def held_def)

lemma inv_hits: "loop_inv env M n d (s\<lparr>sl_cache_hits := k\<rparr>) = loop_inv env M n d s"
  by (simp add: loop_inv_def table_inv_def ordered_def req_view_def held_def)

lemma inv_dispatched: "loop_inv env M n d s \<Longrightarrow> loop_inv env M n 0 (s\<lparr>sl_dispatched := sl_dispatched s + d\<rparr>)"
  by (simp add: loop_inv_def table_inv_def ordered_def req_view_def held_def)

lemma only_simps [simp]:
  "only I s (t\<lparr>sl_exec := x\<rparr>) = only I s t" "only I s (t\<lparr>sl_trace := tr\<rparr>) = only I s t"
  "only I s (t\<lparr>sl_dispatched := k\<rparr>) = only I s t" "only I s (t\<lparr>sl_cache_hits := k\<rparr>) = only I s t"
  by (simp_all add: only_def same_entry_def)

lemma settled_simps [simp]:
  "settled (s\<lparr>sl_exec := x\<rparr>) = settled s" "settled (s\<lparr>sl_trace := tr\<rparr>) = settled s"
  "settled (s\<lparr>sl_dispatched := k\<rparr>) = settled s" "settled (s\<lparr>sl_cache_hits := k\<rparr>) = settled s"
  by (simp_all add: settled_def settled_at_def)

lemma dispatch_returns:
  assumes fits: "env_fits ex nl pp env" and inv: "loop_inv env M n 0 s" and st: "settled s"
    and r: "map_of (sl_reqs s) i = Some r" "queued r" and m: "map_of (sl_meta s) i = Some m"
    and e: "start = cached_len r" "start < e" "e \<le> length (rm_prompt m)"
  shows "returns (loop_dispatch env i start e s) (\<lambda>res. case res of
      Inl t \<Rightarrow> loop_inv env M n 0 t \<and> settled t \<and> only {i} s t
    | Inr t \<Rightarrow> loop_inv env M n (e - start) t \<and> only {i} s t
        \<and> (\<exists>r1. map_of (sl_reqs t) i = Some r1 \<and> in_chunk r1 r e) \<and> map_of (sl_meta t) i = Some m)"
proof -
  let ?cfg = "env_cfg env"
  have tab: "table_inv ?cfg n 0 s" and own: "owns (sl_exec s) (M + held nl pp s)"
    using inv by (simp_all add: loop_inv_def)
  note ent = entryD [OF tab r(1)] and ord = table_invD(1) [OF tab]
  have ri: "\<exists>pats eos h n. req_inv pats eos r h n" using ent by (auto simp: entry_ok_def)
  have sr: "rq_state r \<noteq> Prefill" "rq_state r = Chunked \<Longrightarrow> device_len r = cached_len r"
    using settledD [OF st r(1)] by auto
  have w: "i \<in> set (sl_waiting s)" "i \<notin> set (sl_decoding s)" "lmeta_ok ?cfg m"
    using entry_ok_state(1,2,4) [OF ent] entry_ok_state(7) [OF ent m] r(2) m by (auto simp: queued_def)
  have live: "live_len r = start"
    using entry_ok_state(1,2) [OF ent] sr(2) r(2) e(1) by (auto simp: queued_def live_len_def is_terminal_def)
  have cr: "cached_len r mod lc_block_len ?cfg = 0"
    using entry_ok_state(1,2,4) [OF ent] r(2) by (auto simp: queued_def)
  have put: "loop_inv env M n (e - start) t \<and> only {i} s t \<and> map_of (sl_reqs t) i = Some r1 \<and> map_of (sl_meta t) i = Some m"
    if t: "t = s\<lparr>sl_exec := x, sl_segs := sgs, sl_reqs := bt_insert i r1 (sl_reqs s), sl_trace := tr\<rparr>"
      and r1: "in_chunk r1 r e" "prompt_len r1 = length (rm_prompt m)" "max_output r1 = rm_max_output m"
      and sg: "map_of sgs i = Some seg" "n_pages seg = window_pages ?cfg" "base_page seg < 2 ^ 32"
        "\<And>j. j \<noteq> i \<Longrightarrow> map_of sgs j = map_of (sl_segs s) j" "sorted_wrt (<) (map fst sgs)"
      and own': "owns x (M + held nl pp (s\<lparr>sl_segs := sgs\<rparr>))" for t x sgs r1 tr seg
  proof -
    have "live_len r1 = e" using r1(1) by (auto simp: in_chunk_def is_prefilling_def live_len_def is_terminal_def)
    then have acc: "sl_dispatched s + (e - start) = sl_returned s + bt_sum live_len (bt_insert i r1 (sl_reqs s))"
      using live_sum_update [OF ord r(1), of r1] table_invD(7) [OF tab] live e(2) by simp
    have fr: "only {i} s t" using r sg(4) by (simp add: t only_def same_entry_def)
    have "table_inv ?cfg n (e - start) t"
      by (rule table_inv_upd [OF tab fr])
        (use ord r1 acc w m sg cr table_invD(6,8) [OF tab] in \<open>auto simp: t req_view_def entry_ok_def ordered_def
          params_ok_def in_chunk_def is_prefilling_def sorted_bt_insert\<close>)
    then show ?thesis using fr own' m by (simp add: t loop_inv_def held_def)
  qed
  show ?thesis
  proof (cases "rq_state r = Waiting \<or> rq_state r = Preempted")
    case True
    then have z: "start = 0" "map_of (sl_segs s) i = None"
      using entry_ok_state(1,2) [OF ent] e(1) by auto
    obtain r1 where r1: "start_prefill r (length (rm_prompt m)) (rm_max_output m) e = Ok r1" "in_chunk r1 r e"
        "prompt_len r1 = length (rm_prompt m)" "max_output r1 = rm_max_output m"
      using start_prefill_chunk [OF ri True, of e "length (rm_prompt m)" "rm_max_output m"] e(2,3) by auto
    obtain x res where al: "ex_alloc_segment ex (window_pages ?cfg) (sl_exec s) = Some (x, res)"
        "case res of Inl e \<Rightarrow> owns x (M + held nl pp s)
         | Inr seg \<Rightarrow> n_pages seg = window_pages ?cfg \<and> base_page seg < 2 ^ 32 \<and> owns x (add_mset seg (M + held nl pp s))"
      using alloc [OF own, of "window_pages ?cfg"] by blast
    show ?thesis
    proof (cases res)
      case (Inl er)
      then have "loop_inv env M n 0 (s\<lparr>sl_exec := x\<rparr>)" using inv_exec [OF inv] al(2) by simp
      then show ?thesis using al(1) Inl True r m env_fitsD(3) [OF fits] st
        by (simp add: loop_dispatch_def inv_trace)
    next
      case (Inr seg)
      have "owns x (M + held nl pp (s\<lparr>sl_segs := bt_insert i seg (sl_segs s)\<rparr>))"
        using al(2) Inr mset_bt_insert_new [OF z(2), of seg] by (simp add: held_def)
      then show ?thesis
        using al Inr True r m r1 z(1) env_fitsD(3) [OF fits] e ord
          put [OF refl r1(2-4), of "bt_insert i seg (sl_segs s)" seg x]
        by (simp add: loop_dispatch_def loop_trace_def set_req_def ordered_def sorted_bt_insert)
    qed
  next
    case False
    then have ch: "rq_state r = Chunked" using r(2) by (auto simp: queued_def)
    have pl: "prompt_len r = length (rm_prompt m)" "max_output r = rm_max_output m"
      using entry_ok_state(8) [OF ent m] ch by simp_all
    obtain r1 where r1: "dispatch_chunk r e = Ok r1" "in_chunk r1 r e" "prompt_len r1 = length (rm_prompt m)"
        "max_output r1 = rm_max_output m"
      using dispatch_chunk_chunk [OF ri ch, of e] e pl by auto
    obtain seg where seg: "map_of (sl_segs s) i = Some seg" using entry_ok_state(4) [OF ent ch] by blast
    have eq: "set_req i r1 s = s\<lparr>sl_exec := sl_exec s, sl_segs := sl_segs s, sl_reqs := bt_insert i r1 (sl_reqs s), sl_trace := sl_trace s\<rparr>"
      by (simp add: set_req_def)
    have "loop_inv env M n (e - start) (set_req i r1 s) \<and> only {i} s (set_req i r1 s)
        \<and> map_of (sl_reqs (set_req i r1 s)) i = Some r1 \<and> map_of (sl_meta (set_req i r1 s)) i = Some m"
      by (rule put [OF eq r1(2-4) seg]) (use entry_ok_state(9) [OF ent seg] ord own in \<open>simp_all add: ordered_def\<close>)
    then show ?thesis using False ch r m r1(1,2) by (simp add: loop_dispatch_def)
  qed
qed

text \<open>Staging leaves everything of the request as it was, or aborts it.\<close>

lemma abort_settled:
  assumes fits: "env_fits ex nl pp env" and inv: "loop_inv env M n 0 s" and r: "map_of (sl_reqs s) i = Some r"
  shows "returns (request_abort env i f s) (\<lambda>t. loop_inv env M n 0 t \<and> only {i} s t \<and> settled_at t i)"
  by (rule returns_mono [OF abort_returns [OF fits inv r refl]]) (auto intro: settled_terminal)

lemma after_call:
  assumes inv: "loop_inv env M n 0 s" and x: "owns x (M + held nl pp s)"
  shows "loop_inv env M n 0 (s\<lparr>sl_exec := x\<rparr>)"
  by (rule inv_exec [OF inv x])

lemma stage_returns:
  assumes fits: "env_fits ex nl pp env" and inv: "loop_inv env M n 0 s"
    and r: "map_of (sl_reqs s) i = Some r" and m: "map_of (sl_meta s) i = Some m"
  shows "returns (loop_stage env i start e s) (\<lambda>res. case res of
      Inl t \<Rightarrow> loop_inv env M n 0 t \<and> only {i} s t \<and> settled_at t i
    | Inr t \<Rightarrow> loop_inv env M n 0 t \<and> only {} s t)"
proof -
  let ?Q = "\<lambda>res. case res of Inl t \<Rightarrow> loop_inv env M n 0 t \<and> only {i} s t \<and> settled_at t i
    | Inr t \<Rightarrow> loop_inv env M n 0 t \<and> only {} s t"
  have tab: "table_inv (env_cfg env) n 0 s" and own: "owns (sl_exec s) (M + held nl pp s)"
    using inv by (simp_all add: loop_inv_def)
  note exe = env_fitsD(3) [OF fits] and cfg = env_fitsD(1) [OF fits]
  have fail: "returns (map_option Inl (request_abort env i f (s\<lparr>sl_exec := x\<rparr>))) ?Q"
    if "owns x (M + held nl pp s)" for x f
  proof -
    have "map_of (sl_reqs (s\<lparr>sl_exec := x\<rparr>)) i = Some r" using r by simp
    from abort_settled [OF fits inv_exec [OF inv that] this, of f]
    show ?thesis unfolding returns_simps by (auto simp: only_def same_entry_def elim!: returns_mono)
  qed
  define h where "h = (if start = 0 \<and> e = length (rm_prompt m)
      then Option.bind (sl_cache s) (\<lambda>c. lookup c (rm_prompt m)) else None)"
  show ?thesis
  proof (cases h)
    case None
    obtain x res where x: "ex_prefill ex (drop start (take e (rm_prompt m))) (sl_exec s) = Some (x, res)"
      "owns x (M + held nl pp s)" using prefill [OF own] by blast
    show ?thesis using fail [OF x(2)] inv_exec [OF inv x(2)]
      by (cases res) (simp_all add: loop_stage_def m h_def [symmetric] None exe x(1))
  next
    case (Some pr)
    then obtain c where c: "sl_cache s = Some c" "lookup c (rm_prompt m) = Some pr" "e = length (rm_prompt m)"
      by (auto simp: h_def split: if_splits bind_splits)
    have le: "hit_key_len pr \<le> e"
      using lookup_len [OF table_invD(8) [OF tab c(1)] cfg_okD(8) [OF cfg] c(2)] c(3) by simp
    obtain x res where x: "ex_prefill_prefix_hit ex pr (drop (hit_key_len pr) (take e (rm_prompt m))) (sl_exec s) = Some (x, res)"
      "owns x (M + held nl pp s)" using hit [OF own] by blast
    show ?thesis using fail [OF x(2)] inv_exec [OF inv x(2)] le
      by (cases res) (simp_all add: loop_stage_def m h_def [symmetric] Some exe x(1) inv_hits)
  qed
qed

text \<open>A call of the executor that may abort the request.\<close>

lemma or_abort_returns:
  assumes fits: "env_fits ex nl pp env" and inv: "loop_inv env M n 0 s" and st: "settled_at s i"
    and r: "map_of (sl_reqs s) i = Some r" and call: "\<exists>x res. call = Some (x, res) \<and> owns x (M + held nl pp s)"
  shows "returns (or_abort env i mk call s) (\<lambda>t. loop_inv env M n 0 t \<and> only {i} s t \<and> settled_at t i)"
proof -
  obtain x res where x: "call = Some (x, res)" "owns x (M + held nl pp s)" using call by blast
  have "map_of (sl_reqs (s\<lparr>sl_exec := x\<rparr>)) i = Some r" using r by simp
  note ab = abort_settled [OF fits inv_exec [OF inv x(2)] this]
  have "settled_at (s\<lparr>sl_exec := x\<rparr>) i" using st by (simp add: settled_at_def)
  then show ?thesis using inv_exec [OF inv x(2)] ab
    by (cases res) (auto simp: or_abort_def x(1) only_def same_entry_def elim!: returns_mono)
qed

lemma confirm_returns:
  assumes fits: "env_fits ex nl pp env" and inv: "loop_inv env M n 0 s"
    and r: "map_of (sl_reqs s) i = Some r1" "in_chunk r1 r e" and m: "map_of (sl_meta s) i = Some m"
    and al: "e = length (rm_prompt m) \<or> e mod lc_block_len (env_cfg env) = 0"
  shows "returns (loop_confirm env i start e s) (\<lambda>t. loop_inv env M n 0 t \<and> only {i} s t \<and> settled_at t i)"
proof -
  let ?cfg = "env_cfg env"
  let ?Q = "\<lambda>t. loop_inv env M n 0 t \<and> only {i} s t \<and> settled_at t i"
  have tab: "table_inv ?cfg n 0 s" and own: "owns (sl_exec s) (M + held nl pp s)"
    using inv by (simp_all add: loop_inv_def)
  note ent = entryD [OF tab r(1)] and ord = table_invD(1) [OF tab] and exe = env_fitsD(3) [OF fits]
  have pf: "is_prefilling r1" "\<exists>pats eos h n. req_inv pats eos r1 h n" using r(2) by (auto simp: in_chunk_def)
  obtain r' ev where c: "confirm r1 = Some (r', ev)" "device_len r' = device_len r1" "cached_len r' = device_len r1"
      "prompt_len r' = prompt_len r1" "max_output r' = max_output r1" "\<exists>pats eos h n. req_inv pats eos r' h n"
      "ev = ChunkConfirmed \<and> rq_state r' = Chunked \<and> device_len r1 < prompt_len r1 \<or> ev = PrefillDone \<and> rq_state r' = Decode"
    using confirm_chunk [OF pf(2,1)] by blast
  have w: "i \<in> set (sl_waiting s)" "i \<notin> set (sl_decoding s)" "lmeta_ok ?cfg m"
      "prompt_len r1 = length (rm_prompt m)" "max_output r1 = rm_max_output m"
    using entry_ok_state(3,4) [OF ent] entry_ok_state(7,8) [OF ent m] pf(1) by (auto simp: is_prefilling_def)
  obtain seg where seg: "map_of (sl_segs s) i = Some seg"
    using entry_ok_state(3,4) [OF ent] pf(1) by (auto simp: is_prefilling_def)
  have nt: "live_len r' = live_len r1"
    using c(2,7) pf(1) by (auto simp: is_prefilling_def live_len_def is_terminal_def)
  have acc: "sl_dispatched s = sl_returned s + bt_sum live_len (bt_insert i r' (sl_reqs s))"
    using live_sum_update [OF ord r(1), of r'] table_invD(7) [OF tab] nt by simp
  have step: "returns (or_abort env i mk call t) ?Q"
    if t: "sl_exec t = sl_exec s" "sl_reqs t = bt_insert i r' (sl_reqs s)" "sl_meta t = me" "sl_waiting t = wa"
        "sl_decoding t = de" "sl_segs t = sl_segs s" "sl_token_ids t = sl_token_ids s" "sl_estimates t = sl_estimates s"
        "sl_arrival_seq t = sl_arrival_seq s" "sl_step t = sl_step s" "sl_dispatched t = sl_dispatched s"
        "sl_returned t = sl_returned s" "sl_cache t = sl_cache s"
      and cs: "rq_state r' = Chunked \<and> device_len r1 < prompt_len r1 \<and> me = sl_meta s \<and> wa = sl_waiting s \<and> de = sl_decoding s
        \<or> rq_state r' = Decode \<and> me = bt_insert i (m\<lparr>rm_cur := last (rm_prompt m)\<rparr>) (sl_meta s)
          \<and> wa = filter (\<lambda>x. x \<noteq> i) (sl_waiting s) \<and> de = sl_decoding s @ [i]"
      and call: "\<And>M. owns (sl_exec s) M \<Longrightarrow> \<exists>x res. call = Some (x, res) \<and> owns x M" for t mk call me wa de
  proof -
    have fr: "only {i} s t" using r cs by (auto simp: only_def same_entry_def t)
    have "table_inv ?cfg n 0 t"
      by (rule table_inv_upd [OF tab fr])
        (use ord c(3-6) acc w m seg cs al r(2) [unfolded in_chunk_def] table_invD(6,8) [OF tab] entry_ok_state(9) [OF ent seg] in
          \<open>auto simp: t req_view_def entry_ok_def ordered_def params_ok_def lmeta_ok_def sorted_bt_insert\<close>)
    then have it: "loop_inv env M n 0 t" using own by (simp add: loop_inv_def t held_def)
    have "held nl pp t = held nl pp s" by (simp add: held_def t)
    then have cl: "\<exists>x res. call = Some (x, res) \<and> owns x (M + held nl pp t)" using call [OF own] by simp
    have st: "settled_at t i" using c(2,3) cs by (auto simp: settled_at_def t)
    have "map_of (sl_reqs t) i = Some r'" by (simp add: t)
    from or_abort_returns [OF fits it st this cl, of mk]
    show ?thesis using only_trans [OF fr, of "{i}"] by (auto elim!: returns_mono)
  qed
  from c(7) show ?thesis
  proof (elim disjE conjE)
    assume ev: "ev = ChunkConfirmed" "rq_state r' = Chunked" "device_len r1 < prompt_len r1"
    show ?thesis using r(1) seg c(1) ev exe commit
      by (auto simp: loop_confirm_def loop_trace_def set_req_def simp del: returns_if intro!: step)
  next
    assume ev: "ev = PrefillDone" "rq_state r' = Decode"
    have "rm_prompt m \<noteq> []" using w(3) by (simp add: lmeta_ok_def)
    then show ?thesis using r(1) seg c(1) ev exe commit adopt m w(2)
      by (auto simp: loop_confirm_def loop_trace_def set_req_def leave_waiting_def join_decoding_def Let_def intro!: step)
  qed
qed

text \<open>One assignment of the selector, from the alignment of its end to the last call of the executor.\<close>

lemma prefill_one_returns:
  assumes fits: "env_fits ex nl pp env" and inv: "loop_inv env M n 0 s" and st: "settled s" and p: "chunk_of s p"
  shows "returns (loop_prefill_one env p s) (\<lambda>t. loop_inv env M n 0 t \<and> settled t \<and> only {fst p} s t)"
proof -
  let ?cfg = "env_cfg env"
  obtain i start e where pe: "p = (i, start, e)" by (cases p)
  obtain r m where r: "map_of (sl_reqs s) i = Some r" "queued r" and m: "map_of (sl_meta s) i = Some m"
    and e: "start = cached_len r" "start < e" "e \<le> length (rm_prompt m)"
    using p by (auto simp: chunk_of_def pe)
  note cfg = env_fitsD(1) [OF fits]
  have tab: "table_inv ?cfg n 0 s" using inv by (simp add: loop_inv_def)
  have "length (rm_prompt m) \<le> u64_max"
    using entry_ok_state(7) [OF entryD [OF tab r(1)] m] cfg_okD(6) [OF cfg] by (simp add: lmeta_ok_def u64_max_def)
  then obtain e' where e': "align_chunk_end e (length (rm_prompt m)) (lc_block_len ?cfg) = Some e'" "e' \<le> e"
      "e' = length (rm_prompt m) \<or> e' mod lc_block_len ?cfg = 0"
    using align_chunk_end_spec [of 32 e "length (rm_prompt m)"] e(3) cfg_okD(1) [OF cfg] by auto
  show ?thesis
  proof (cases "e' \<le> start")
    case True
    then show ?thesis using r(1) m e' inv st by (simp add: pe loop_prefill_one_def inv_trace)
  next
    case False
    have le: "start < e'" "e' \<le> length (rm_prompt m)" using False e'(2) e(3) by simp_all
    have rest: "returns (Option.bind (loop_stage env i start e' (t\<lparr>sl_dispatched := sl_dispatched t + (e' - start)\<rparr>))
         (\<lambda>st. case st of Inl s \<Rightarrow> Some s | Inr s \<Rightarrow> loop_confirm env i start e' s))
         (\<lambda>t. loop_inv env M n 0 t \<and> settled t \<and> only {i} s t)"
      if t: "loop_inv env M n (e' - start) t" "only {i} s t" "map_of (sl_reqs t) i = Some r1" "in_chunk r1 r e'"
        "map_of (sl_meta t) i = Some m" for t r1
    proof -
      let ?t = "t\<lparr>sl_dispatched := sl_dispatched t + (e' - start)\<rparr>"
      have f: "only {i} s ?t" "map_of (sl_reqs ?t) i = Some r1" "map_of (sl_meta ?t) i = Some m" using t by simp_all
      have fin: "loop_inv env M n 0 v \<and> settled v \<and> only {i} s v" if "loop_inv env M n 0 v" "only {i} ?t v" "settled_at v i" for v
        using that settled_only [OF st _ that(3)] only_trans [OF f(1) that(2)] by simp
      show ?thesis unfolding returns_simps
      proof (rule returns_mono [OF stage_returns [OF fits inv_dispatched [OF t(1)] f(2,3), where start = start and e = e']])
        fix res
        assume res: "case res of Inl v \<Rightarrow> loop_inv env M n 0 v \<and> only {i} ?t v \<and> settled_at v i
            | Inr v \<Rightarrow> loop_inv env M n 0 v \<and> only {} ?t v"
        show "returns (case res of Inl s \<Rightarrow> Some s | Inr s \<Rightarrow> loop_confirm env i start e' s)
            (\<lambda>t. loop_inv env M n 0 t \<and> settled t \<and> only {i} s t)"
        proof (cases res)
          case (Inl v)
          then show ?thesis using res fin [of v] by simp
        next
          case (Inr v)
          then have v: "loop_inv env M n 0 v" "only {} ?t v" using res by simp_all
          then have g: "map_of (sl_reqs v) i = Some r1" "map_of (sl_meta v) i = Some m"
            using f(2,3) by (simp_all add: only_def same_entry_def)
          show ?thesis using confirm_returns [OF fits v(1) g(1) t(4) g(2) e'(3), of start] Inr fin only_trans [OF v(2), of "{i}"]
            by (auto elim!: returns_mono)
        qed
      qed
    qed
    have d: "returns (loop_dispatch env i start e' s) (\<lambda>res. case res of
      Inl t \<Rightarrow> loop_inv env M n 0 t \<and> settled t \<and> only {i} s t
    | Inr t \<Rightarrow> loop_inv env M n (e' - start) t \<and> only {i} s t
        \<and> (\<exists>r1. map_of (sl_reqs t) i = Some r1 \<and> in_chunk r1 r e') \<and> map_of (sl_meta t) i = Some m)"
      by (rule dispatch_returns [OF fits inv st r m e(1) le])
    have op: "loop_prefill_one env (i, start, e) s = Option.bind (loop_dispatch env i start e' s)
        (\<lambda>d. case d of Inl s \<Rightarrow> Some s
         | Inr s \<Rightarrow> Option.bind (loop_stage env i start e' (s\<lparr>sl_dispatched := sl_dispatched s + (e' - start)\<rparr>))
            (\<lambda>st. case st of Inl s \<Rightarrow> Some s | Inr s \<Rightarrow> loop_confirm env i start e' s))"
      using False m e'(1) by (simp add: loop_prefill_one_def del: Nat.add_diff_assoc)
    show ?thesis unfolding pe op fst_conv returns_simps(3) [of "loop_dispatch env i start e' s"]
      by (rule returns_mono [OF d]) (auto split: sum.splits simp del: returns_simps(3) intro: rest)
  qed
qed

lemma prefill_fold_returns:
  assumes fits: "env_fits ex nl pp env"
  shows "loop_inv env M n 0 s \<Longrightarrow> settled s \<Longrightarrow> distinct (map fst ps) \<Longrightarrow> \<forall>p\<in>set ps. chunk_of s p \<Longrightarrow>
    returns (fold_opt (loop_prefill_one env) ps s) (\<lambda>t. loop_inv env M n 0 t \<and> settled t \<and> sl_step t = sl_step s)"
proof (induction ps arbitrary: s)
  case (Cons p ps)
  have "chunk_of s p" using Cons.prems(4) by simp
  note one = prefill_one_returns [OF fits Cons.prems(1,2) this]
  show ?case unfolding fold_opt.simps returns_simps
  proof (rule returns_mono [OF one], elim conjE)
    fix t assume t: "loop_inv env M n 0 t" "settled t" "only {fst p} s t"
    have "chunk_of t q" if q: "q \<in> set ps" for q
    proof -
      have "fst p \<notin> fst ` set ps" using Cons.prems(3) by simp
      then have "fst q \<notin> {fst p}" using q by (metis imageI singletonD)
      moreover have "chunk_of s q" using Cons.prems(4) q by simp
      ultimately show ?thesis by (rule chunk_of_only [OF t(3)])
    qed
    with Cons.IH [OF t(1,2)] Cons.prems(3) t(3)
    show "returns (fold_opt (loop_prefill_one env) ps t) (\<lambda>t. loop_inv env M n 0 t \<and> settled t \<and> sl_step t = sl_step s)"
      by (simp add: only_def)
  qed
qed simp

lemma decoding_reqs:
  assumes "\<And>i. i \<in> set is \<Longrightarrow> map_of (sl_reqs s) i \<noteq> None"
  shows "\<exists>ds. those (map (loop_decoding_req s) is) = Some ds \<and> map d_id ds = is"
  using assms
proof (induction "is")
  case (Cons i "is")
  then obtain r ds where r: "map_of (sl_reqs s) i = Some r" "those (map (loop_decoding_req s) is) = Some ds" "map d_id ds = is"
    by fastforce
  show ?case using r(1,3) by (simp add: loop_decoding_req_def [of s i] r(2))
qed simp

text \<open>The schedule phase: admission, victims, assignments.\<close>

lemma schedule_returns:
  assumes fits: "env_fits ex nl pp env" and inv: "loop_inv env M n 0 s" and st: "settled s"
  shows "returns (admit_schedule env s) (\<lambda>t. loop_inv env M n 0 t \<and> settled t \<and> sl_step t = sl_step s)"
proof -
  let ?cfg = "env_cfg env" and ?s0 = "s\<lparr>sl_first_chunk_sum := 0\<rparr>"
  let ?Q = "\<lambda>t. loop_inv env M n 0 t \<and> settled t \<and> sl_step t = sl_step s"
  note cfg = env_fitsD(1) [OF fits]
  have inv0: "loop_inv env M n 0 ?s0"
    using inv by (simp add: loop_inv_def table_inv_def ordered_def req_view_def held_def)
  have st0: "settled ?s0" using st by (simp add: settled_cong [of ?s0 s])
  have dw: "distinct (map w_id [] @ sl_waiting ?s0)"
    using inv by (simp add: loop_inv_def table_inv_def ordered_def)
  have adm: "returns (fold_opt (loop_admit_one ?cfg) (sl_waiting s) (?s0, [])) (\<lambda>(t, el). loop_inv env M n 0 t
      \<and> sl_reqs t = sl_reqs s \<and> sl_meta t = sl_meta s \<and> sl_decoding t = sl_decoding s \<and> sl_step t = sl_step s
      \<and> distinct (map w_id el) \<and> (\<forall>w\<in>set el. told t w))"
    using admit_fold_returns [OF fits inv0 st0 _ dw] by simp
  have rest: "returns (Option.bind (those (map (loop_decoding_req t) (sl_decoding t))) (\<lambda>ds.
        Option.bind (fold_opt (loop_preempt env) (sel_preempted (select_batch el ds b 0 Fcfc)) t)
          (fold_opt (loop_prefill_one env) (sel_prefill (select_batch el ds b 0 Fcfc))))) ?Q"
    if t: "loop_inv env M n 0 t" "sl_reqs t = sl_reqs s" "sl_step t = sl_step s" "distinct (map w_id el)"
      "\<forall>w\<in>set el. told t w" for t el b
  proof -
    have tab: "table_inv ?cfg n 0 t" using t(1) by (simp add: loop_inv_def)
    have "map_of (sl_reqs t) i \<noteq> None" if "i \<in> set (sl_decoding t)" for i
      using table_invD(2) [OF tab, of i] that by (auto simp: req_view_def entry_ok_def split: option.splits)
    from decoding_reqs [OF this] obtain ds
      where ds: "those (map (loop_decoding_req t) (sl_decoding t)) = Some ds" "map d_id ds = sl_decoding t" by auto
    let ?sel = "select_batch el ds b 0 Fcfc"
    have d: "distinct (map d_id ds)" using table_invD(1) [OF tab] ds(2) by (simp add: ordered_def)
    have stt: "settled t" using st settled_cong [OF t(2)] by simp
    have asg: "chunk_of t p \<and> fst p \<notin> set (sel_preempted ?sel)" if p: "p \<in> set (sel_prefill ?sel)" for p
    proof -
      obtain w where w: "w \<in> set el" "chunk_ok w p" using select_batch_assignments(2) [OF t(4) p] by blast
      then obtain r m where r: "map_of (sl_reqs t) (w_id w) = Some r" "map_of (sl_meta t) (w_id w) = Some m"
        "queued r" "w_cached_len w = cached_len r" "w_prompt_len w = length (rm_prompt m)"
        using t(5) by (auto simp: told_def)
      then have "chunk_of t p" using w(2) by (auto simp: chunk_of_def chunk_ok_def)
      moreover have "w_id w \<notin> set (sl_decoding t)"
        using entry_ok_state(1,2,4) [OF entryD [OF tab r(1)]] r(3) by (auto simp: queued_def)
      ultimately show ?thesis
        using subsetD [OF select_batch_victims(2) [OF d], of "fst p" el b 0 Fcfc] w(2) unfolding ds(2)
        by (auto simp: chunk_ok_def)
    qed
    show ?thesis unfolding ds(1) returns_simps
    proof (rule returns_mono [OF preempt_fold_returns [OF fits t(1) stt select_batch_victims(2) [OF d, unfolded ds(2)]
        select_batch_victims(1) [OF d]]], elim conjE)
      fix u assume u: "loop_inv env M n 0 u" "settled u" "only (set (sel_preempted ?sel)) t u"
      have "\<forall>p\<in>set (sel_prefill ?sel). chunk_of u p" using asg chunk_of_only [OF u(3)] by blast
      from prefill_fold_returns [OF fits u(1,2) select_batch_assignments(1) [OF t(4)] this]
      show "returns (fold_opt (loop_prefill_one env) (sel_prefill ?sel) u) ?Q"
        using u(3) t(3) by (auto simp: only_def elim!: returns_mono)
    qed
  qed
  have "returns (fold_opt (loop_admit_one ?cfg) (sl_waiting s) (?s0, [])) (\<lambda>x. returns
      (case x of (t, el) \<Rightarrow> Option.bind (those (map (loop_decoding_req t) (sl_decoding t))) (\<lambda>ds.
        Option.bind (fold_opt (loop_preempt env) (sel_preempted
          (select_batch el ds ((lc_kv_pages ?cfg - window_pages ?cfg) * 32 - loop_kv_usage t) 0 Fcfc)) t)
          (fold_opt (loop_prefill_one env) (sel_prefill
            (select_batch el ds ((lc_kv_pages ?cfg - window_pages ?cfg) * 32 - loop_kv_usage t) 0 Fcfc))))) ?Q)"
    by (rule returns_mono [OF adm]) (auto simp del: returns_simps(3) intro: rest)
  then show ?thesis
    by (simp add: admit_schedule_def pool_tokens_ok [OF cfg] Let_def case_prod_beta' del: returns_simps(3)
        add: returns_simps(3) [of "fold_opt (loop_admit_one ?cfg) (sl_waiting s) (?s0, [])"])
qed

end

end
