(* ===== verification/Sched_Turn.thy ===== *)
theory Sched_Turn
  imports Sched_Step
begin

text \<open>
  The rest of the event loop under the contract of the executor: decoding, the commands, and the
  turns of the loop. Every turn keeps the invariant, and it returns unless the handler of a token
  slices the text of a request inside a character (\<open>cut_token\<close>).
\<close>

section \<open>Decoding\<close>

lemma decode_step_next:
  assumes inv: "\<exists>pats eos h n. req_inv pats eos r h n" and st: "rq_state r = Decode"
    and ovf: "prompt_len r + max_output r < u64_max"
  shows "\<exists>r' ev. decode_step r t = Some (r', ev) \<and> device_len r' = device_len r + 1
    \<and> (\<exists>pats eos h n. req_inv pats eos r' h n) \<and> prompt_len r' = prompt_len r \<and> max_output r' = max_output r
    \<and> (ev = DecodeConfirmed t \<and> rq_state r' = Decode \<and> cached_len r' = device_len r'
       \<or> (ev = Stopped \<or> ev = Eos \<or> ev = MaxOutput) \<and> rq_state r' = Done)"
proof -
  obtain pats eos h n where I: "req_inv pats eos r h n" using inv by blast
  obtain r' ev where d: "decode_step r t = Some (r', ev)" using decode_step_total [OF I st ovf] by blast
  have cd: "cached_len r = device_len r" using I st by (simp add: req_inv_simps)
  have "\<exists>h' n'. req_inv pats eos r' h' n'" using decode_step_cases [OF I d] by (cases ev) auto
  moreover have "device_len r' = device_len r + 1 \<and> prompt_len r' = prompt_len r \<and> max_output r' = max_output r
    \<and> (ev = DecodeConfirmed t \<and> rq_state r' = Decode \<and> cached_len r' = device_len r'
       \<or> (ev = Stopped \<or> ev = Eos \<or> ev = MaxOutput) \<and> rq_state r' = Done)"
    using d cd by (auto simp: decode_step_def Let_def set_done_def arm_release_def chk_add_def st
        split: prod.splits StopOutcome.splits if_splits bind_splits)
  ultimately show ?thesis using d by blast
qed

lemma sample_token_returns:
  assumes "\<And>l t n. token_out (env_sampler env) l t n \<noteq> None"
  shows "\<exists>ch res. sample_token env logits m = Some (m\<lparr>rm_chain := ch\<rparr>, res)
    \<and> (\<forall>t out. res = Inr (t, out) \<longrightarrow> snd (chain_sample (env_sampler env) (rm_sampler_params m)
         (lc_dev (env_cfg env)) (lc_vocab (env_cfg env)) logits (rm_chain m)) = Inr t)"
proof -
  obtain ch res where c: "chain_sample (env_sampler env) (rm_sampler_params m) (lc_dev (env_cfg env)) (lc_vocab (env_cfg env))
      logits (rm_chain m) = (ch, res)" by fastforce
  show ?thesis
  proof (cases res)
    case (Inl msg)
    then show ?thesis using c by (intro exI [of _ ch] exI [of _ "Inl (SamplerErr msg)"]) (simp add: sample_token_def)
  next
    case (Inr t)
    obtain out where "token_out (env_sampler env) logits t (rm_logprobs_top_n m) = Some out"
      using assms [of logits t "rm_logprobs_top_n m"] by blast
    then show ?thesis using c Inr
      by (intro exI [of _ ch] exI [of _ "Inr (t, if 0 < rm_logprobs_top_n m then Some out else None)"])
        (simp add: sample_token_def)
  qed
qed

lemma loop_trace_unless [simp]:
  "map_of (sl_reqs s) i = Some r \<Longrightarrow> returns_unless B (loop_trace i ev s) Q \<longleftrightarrow> Q (s\<lparr>sl_trace := sl_trace s @ [\<lparr>te_step = sl_step s,
     te_req = i, te_event = ev, te_cached_len = cached_len r, te_device_len = device_len r\<rparr>]\<rparr>)"
  by (simp add: loop_trace_def)

text \<open>
  The one panic that is left: the token \<open>t\<close> makes the new text of a request start inside a character.
  Its watermark is the length of the longest text of its tokens so far.
\<close>

definition cut_text :: "SchedLoopConfig \<Rightarrow> ('c, 'p) ReqMeta \<Rightarrow> nat \<Rightarrow> bool" where
  "cut_text cfg m t \<longleftrightarrow> rm_last_len m = sent_len (lc_detok cfg) (rm_generated m)
     \<and> text_delta (lc_detok cfg (rm_generated m @ [t])) (rm_last_len m) = None"

text \<open>The token the sampler gives for a row of logits, and a row whose token cuts the text of its request.\<close>

definition cut_row :: "('x, 'c, 'l, 'p, 'o) SchedEnv \<Rightarrow> 'l \<Rightarrow> ('c, 'p) ReqMeta option \<Rightarrow> bool" where
  "cut_row env logits mo \<longleftrightarrow> (\<exists>m t. mo = Some m \<and> cut_text (env_cfg env) m t
     \<and> snd (chain_sample (env_sampler env) (rm_sampler_params m) (lc_dev (env_cfg env)) (lc_vocab (env_cfg env))
          logits (rm_chain m)) = Inr t)"

text \<open>A state whose decode step samples such a token for one of the requests that decode.\<close>

definition cut_token :: "('x, 'c, 'l, 'p, 'o) SchedEnv \<Rightarrow> ('x, 'c, 'p, 'o) SchedLoop \<Rightarrow> bool" where
  "cut_token env s \<longleftrightarrow> (\<exists>xs x rows k. those (map (exec_req s) (sort (sl_decoding s))) = Some xs
     \<and> ex_decode_batch (env_exec env) xs (sl_exec s) = Some (x, Inr rows)
     \<and> k < length (sl_decoding s) \<and> k < length rows
     \<and> cut_row env (rows ! k) (map_of (sl_meta s) (sort (sl_decoding s) ! k)))"

context segment_executor begin

lemma inv_send [simp]:
  "loop_inv env M n d (fst (blocking_send env' tx f s)) = loop_inv env M n d s"
  "only I s' (fst (blocking_send env' tx f s)) = only I s' s"
  "settled_at (fst (blocking_send env' tx f s)) i = settled_at s i"
  "settled (fst (blocking_send env' tx f s)) = settled s"
  by (simp_all add: loop_inv_def table_inv_def ordered_def req_view_def held_def only_def same_entry_def
      settled_def settled_at_def)

text \<open>A new record of parameters for a decoding request.\<close>

lemma inv_meta:
  assumes inv: "loop_inv env M n 0 s" and r: "map_of (sl_reqs s) i = Some r"
    and m: "map_of (sl_meta s) i = Some m" and m': "rm_prompt m' = rm_prompt m" "rm_max_output m' = rm_max_output m"
      "rm_last_len m' = rm_last_len m" "rm_generated m' = rm_generated m"
  shows "loop_inv env M n 0 (s\<lparr>sl_meta := bt_insert i m' (sl_meta s)\<rparr>)"
    "only {i} s (s\<lparr>sl_meta := bt_insert i m' (sl_meta s)\<rparr>)"
proof -
  let ?t = "s\<lparr>sl_meta := bt_insert i m' (sl_meta s)\<rparr>"
  have tab: "table_inv (env_cfg env) n 0 s" and own: "owns (sl_exec s) (M + held nl pp s)"
    using inv by (simp_all add: loop_inv_def)
  note ent = entryD [OF tab r] and ord = table_invD(1) [OF tab]
  show fr: "only {i} s ?t" by (simp add: only_def same_entry_def)
  have "table_inv (env_cfg env) n 0 ?t"
    by (rule table_inv_upd [OF tab fr])
      (use ord ent m m' table_invD(6-8) [OF tab] in \<open>auto simp: req_view_def r entry_ok_def ordered_def
        params_ok_def lmeta_ok_def sorted_bt_insert split: ReqState.splits\<close>)
  then show "loop_inv env M n 0 ?t" using own by (simp add: loop_inv_def held_def)
qed

lemma emit_returns:
  assumes fits: "env_fits ex nl pp env" and inv: "loop_inv env M n 0 s0" and r: "map_of (sl_reqs s0) i = Some r"
    and st: "rq_state r = Decode" and m: "map_of (sl_meta s0) i = Some m"
    and r': "rq_state r' = Decode" "device_len r' = device_len r + 1" "cached_len r' = device_len r'"
      "prompt_len r' = prompt_len r" "max_output r' = max_output r" "\<exists>pats eos h n. req_inv pats eos r' h n"
    and s: "s = s0\<lparr>sl_dispatched := sl_dispatched s0 + 1, sl_reqs := bt_insert i r' (sl_reqs s0), sl_trace := tr\<rparr>"
  shows "returns_unless (cut_text (env_cfg env) m t) (emit_token env i t out s)
    (\<lambda>t. loop_inv env M n 0 t \<and> only {i} s0 t \<and> settled_at t i)"
proof (cases "text_delta (lc_detok (env_cfg env) (rm_generated m @ [t])) (rm_last_len m)")
  case None
  have "emit_token env i t out s = None" using m None by (simp add: emit_token_def s Let_def)
  moreover have "cut_text (env_cfg env) m t"
    using None entry_ok_state(7) [OF entryD [OF _ r] m] inv by (auto simp: cut_text_def lmeta_ok_def loop_inv_def)
  ultimately show ?thesis by simp
next
  case (Some dk)
  let ?cfg = "env_cfg env"
  have tab: "table_inv ?cfg n 0 s0" and own: "owns (sl_exec s0) (M + held nl pp s0)"
    using inv by (simp_all add: loop_inv_def)
  note ent = entryD [OF tab r] and ord = table_invD(1) [OF tab]
  note lm = entry_ok_state(7) [OF ent m]
  let ?g = "rm_generated m @ [t]"
  have "rm_last_len m = sent_len (lc_detok ?cfg) (rm_generated m)" using lm by (simp add: lmeta_ok_def)
  then obtain dl where d: "text_delta (lc_detok ?cfg ?g) (rm_last_len m) = Some (dl, sent_len (lc_detok ?cfg) ?g)"
    using Some delta_sent_len [of "lc_detok ?cfg" "rm_generated m" t] by (cases dk) auto
  define m' where "m' = m\<lparr>rm_cur := t, rm_generated := ?g, rm_last_len := sent_len (lc_detok ?cfg) ?g\<rparr>"
  define u where "u = s\<lparr>sl_meta := bt_insert i m' (sl_meta s)\<rparr>"
  have f: "sl_exec u = sl_exec s0" "sl_reqs u = bt_insert i r' (sl_reqs s0)" "sl_meta u = bt_insert i m' (sl_meta s0)"
    "sl_waiting u = sl_waiting s0" "sl_decoding u = sl_decoding s0" "sl_segs u = sl_segs s0"
    "sl_token_ids u = sl_token_ids s0" "sl_estimates u = sl_estimates s0" "sl_arrival_seq u = sl_arrival_seq s0"
    "sl_step u = sl_step s0" "sl_dispatched u = sl_dispatched s0 + 1" "sl_returned u = sl_returned s0"
    "sl_cache u = sl_cache s0"
    by (simp_all add: u_def s)
  have op: "emit_token env i t out s = (case blocking_send env (rm_tx m) (TokenFrame dl out) u of
        (s, True) \<Rightarrow> Some s | (s, False) \<Rightarrow> request_abort env i None s)"
    using m d by (simp add: emit_token_def s u_def m'_def Let_def)
  have fr: "only {i} s0 u" using r by (simp add: only_def same_entry_def f)
  have acc: "sl_dispatched s0 + 1 = sl_returned s0 + bt_sum live_len (bt_insert i r' (sl_reqs s0))"
    using live_sum_update [OF ord r, of r'] table_invD(7) [OF tab] r'(1,2) st by (simp add: live_len_def is_terminal_def)
  have "table_inv ?cfg n 0 u"
    by (rule table_inv_upd [OF tab fr])
      (use ord r' acc ent st m lm table_invD(6,8) [OF tab] in \<open>auto simp: f req_view_def entry_ok_def ordered_def
        params_ok_def lmeta_ok_def m'_def sorted_bt_insert\<close>)
  then have iu: "loop_inv env M n 0 u" using own by (simp add: loop_inv_def f held_def)
  have su: "settled_at u i" using r'(1) by (simp add: settled_at_def f)
  obtain v b where v: "blocking_send env (rm_tx m) (TokenFrame dl out) u = (v, b)" by fastforce
  then have v': "v = fst (blocking_send env (rm_tx m) (TokenFrame dl out) u)" by simp
  have iv: "loop_inv env M n 0 v" "only {i} s0 v" "settled_at v i" "map_of (sl_reqs v) i = Some r'"
    unfolding v' using iu su fr by (simp_all add: f)
  have "returns (emit_token env i t out s) (\<lambda>t. loop_inv env M n 0 t \<and> only {i} s0 t \<and> settled_at t i)"
    unfolding op v
    using iv abort_settled [OF fits iv(1,4), of None] only_trans [OF iv(2), of "{i}"]
    by (cases b) (auto elim!: returns_mono)
  then show ?thesis by (rule returns_unlessI)
qed

lemma decode_token_returns:
  assumes fits: "env_fits ex nl pp env" and inv: "loop_inv env M n 0 s" and r: "map_of (sl_reqs s) i = Some r"
    and st: "rq_state r = Decode" and m: "map_of (sl_meta s) i = Some m"
  shows "returns_unless (cut_text (env_cfg env) m t) (decode_token env i t out s)
    (\<lambda>t. loop_inv env M n 0 t \<and> only {i} s t \<and> settled_at t i)"
proof -
  let ?cfg = "env_cfg env"
  let ?Q = "\<lambda>t. loop_inv env M n 0 t \<and> only {i} s t \<and> settled_at t i"
  have tab: "table_inv ?cfg n 0 s" using inv by (simp add: loop_inv_def)
  note ent = entryD [OF tab r] and ord = table_invD(1) [OF tab]
  have lm: "lmeta_ok ?cfg m" by (rule entry_ok_state(7) [OF ent m])
  have pm: "prompt_len r + max_output r < u64_max"
    using entry_ok_state(8) [OF ent m] st lm cfg_okD(6) [OF env_fitsD(1) [OF fits]] by (simp add: lmeta_ok_def u64_max_def)
  have "\<exists>pats eos h n. req_inv pats eos r h n" using ent by (auto simp: entry_ok_def)
  from decode_step_next [OF this st pm] obtain r' ev where d: "decode_step r t = Some (r', ev)" and
    r': "device_len r' = device_len r + 1" "\<exists>pats eos h n. req_inv pats eos r' h n"
      "prompt_len r' = prompt_len r" "max_output r' = max_output r" and
    ev: "ev = DecodeConfirmed t \<and> rq_state r' = Decode \<and> cached_len r' = device_len r'
       \<or> (ev = Stopped \<or> ev = Eos \<or> ev = MaxOutput) \<and> rq_state r' = Done" by blast
  have emit: "returns_unless (cut_text ?cfg m t) (emit_token env i t out (s\<lparr>sl_dispatched := sl_dispatched s + 1,
        sl_reqs := bt_insert i r' (sl_reqs s), sl_trace := tr\<rparr>)) ?Q"
    if "rq_state r' = Decode" "cached_len r' = device_len r'" for tr
    by (rule emit_returns [OF fits inv r st m that(1) r'(1) that(2) r'(3,4,2) refl])
  have ending: "returns (loop_terminal env i a b (s\<lparr>sl_dispatched := sl_dispatched s + 1,
        sl_reqs := bt_insert i r' (sl_reqs s), sl_trace := tr\<rparr>)) ?Q"
    if "rq_state r' = Done" for a b tr
    by (rule returns_mono [OF terminal_returns [OF fits inv r st that r'(1,2)]])
      (use m lm ord in \<open>auto simp: ordered_def intro: settled_terminal\<close>)
  show ?thesis using ev emit ending [THEN returns_unlessI, of "cut_text ?cfg m t"]
    by (auto simp: decode_token_def r d Let_def set_req_def)
qed

lemma decode_one_returns:
  assumes fits: "env_fits ex nl pp env" and inv: "loop_inv env M n 0 s" and stt: "settled s"
    and r: "map_of (sl_reqs s) i = Some r" and k: "k < length rows"
  shows "returns_unless (cut_row env (rows ! k) (map_of (sl_meta s) i)) (loop_decode_one env rows (k, i) s)
    (\<lambda>t. loop_inv env M n 0 t \<and> settled t \<and> only {i} s t)"
proof (cases "rq_state r = Decode")
  case False
  then show ?thesis using inv stt r by (simp add: loop_decode_one_def)
next
  case True
  have tab: "table_inv (env_cfg env) n 0 s" using inv by (simp add: loop_inv_def)
  obtain m where m: "map_of (sl_meta s) i = Some m" using entry_ok_state(5) [OF entryD [OF tab r] True] by blast
  let ?B = "cut_row env (rows ! k) (map_of (sl_meta s) i)"
  obtain ch res where sm: "sample_token env (rows ! k) m = Some (m\<lparr>rm_chain := ch\<rparr>, res)"
    and tok: "res = Inr (t, out) \<Longrightarrow> snd (chain_sample (env_sampler env) (rm_sampler_params m)
         (lc_dev (env_cfg env)) (lc_vocab (env_cfg env)) (rows ! k) (rm_chain m)) = Inr t" for t out
    using sample_token_returns [of env] env_fitsD(2) [OF fits] by blast
  define s1 where "s1 = s\<lparr>sl_meta := bt_insert i (m\<lparr>rm_chain := ch\<rparr>) (sl_meta s)\<rparr>"
  have s1: "loop_inv env M n 0 s1" "only {i} s s1" "map_of (sl_reqs s1) i = Some r"
    unfolding s1_def using inv_meta [OF inv r m, of "m\<lparr>rm_chain := ch\<rparr>"] r by simp_all
  have fin: "loop_inv env M n 0 t \<and> settled t \<and> only {i} s t"
    if "loop_inv env M n 0 t" "only {i} s t" "settled_at t i" for t
    using that settled_only [OF stt that(2,3)] by simp
  have op: "loop_decode_one env rows (k, i) s = (if all_nan (env_sampler env) (rows ! k) then request_abort env i (Some OnlyNaN) s
      else case res of Inl er \<Rightarrow> request_abort env i (Some er) s1 | Inr (t, out) \<Rightarrow> decode_token env i t out s1)"
    using r True k m sm by (simp add: loop_decode_one_def s1_def Let_def split: sum.split)
  have whole: "returns_unless ?B op (\<lambda>t. loop_inv env M n 0 t \<and> settled t \<and> only {i} s t)"
    if "returns_unless ?B op (\<lambda>t. loop_inv env M n 0 t \<and> only {i} s1 t \<and> settled_at t i)" for op
    by (rule returns_unless_mono [OF that]) (use fin only_trans [OF s1(2), of "{i}"] in auto)
  have nan: "returns_unless ?B (request_abort env i (Some OnlyNaN) s) (\<lambda>t. loop_inv env M n 0 t \<and> settled t \<and> only {i} s t)"
    by (rule returns_unlessI, rule returns_mono [OF abort_settled [OF fits inv r]]) (use fin in auto)
  have m1: "map_of (sl_meta s1) i = Some (m\<lparr>rm_chain := ch\<rparr>)" by (simp add: s1_def)
  have token: "returns_unless ?B (decode_token env i t out s1) (\<lambda>t. loop_inv env M n 0 t \<and> only {i} s1 t \<and> settled_at t i)"
    if "res = Inr (t, out)" for t out
    by (rule returns_unless_mono [OF decode_token_returns [OF fits s1(1,3) True m1]])
      (use tok [OF that] m in \<open>auto simp: cut_row_def cut_text_def\<close>)
  show ?thesis unfolding op
    using nan whole [OF returns_unlessI [OF abort_settled [OF fits s1(1,3)]]] whole [OF token]
    by (simp split: sum.split)
qed

text \<open>A loop over requests of the table, each of which keeps the invariant.\<close>

lemma fold_reqs_returns:
  assumes body: "\<And>x s. x \<in> set xs \<Longrightarrow> loop_inv env M n 0 s \<Longrightarrow> settled s \<Longrightarrow> map_of (sl_reqs s) (key x) \<noteq> None \<Longrightarrow>
      returns_unless (B x (map_of (sl_meta s) (key x))) (f x s) (\<lambda>t. loop_inv env M n 0 t \<and> settled t \<and> only {key x} s t)"
    and dist: "distinct (map key xs)"
    and s: "loop_inv env M n 0 s" "settled s" "\<And>x. x \<in> set xs \<Longrightarrow> map_of (sl_reqs s) (key x) \<noteq> None"
  shows "returns_unless (\<exists>x\<in>set xs. B x (map_of (sl_meta s) (key x))) (fold_opt f xs s)
    (\<lambda>t. loop_inv env M n 0 t \<and> settled t \<and> sl_step t = sl_step s)"
  using assms
proof (induction xs arbitrary: s)
  case (Cons x xs)
  have one: "returns_unless (B x (map_of (sl_meta s) (key x))) (f x s) (\<lambda>t. loop_inv env M n 0 t \<and> settled t \<and> only {key x} s t)"
    using Cons.prems by (intro Cons.prems(1)) simp_all
  show ?case unfolding fold_opt.simps returns_unless_simps
  proof (rule returns_unless_mono [OF one])
    fix t assume t: "loop_inv env M n 0 t \<and> settled t \<and> only {key x} s t"
    have known: "map_of (sl_reqs t) (key y) \<noteq> None" if "y \<in> set xs" for y
      using Cons.prems(5) [of y] that t by (simp add: only_def)
    have same: "map_of (sl_meta t) (key y) = map_of (sl_meta s) (key y)" if "y \<in> set xs" for y
    proof -
      have "key x \<notin> key ` set xs" using Cons.prems(2) by simp
      then have "key y \<noteq> key x" using imageI [OF that, of key] by metis
      then show ?thesis using t by (simp add: only_def same_entry_def)
    qed
    have "returns_unless (\<exists>x\<in>set xs. B x (map_of (sl_meta t) (key x))) (fold_opt f xs t)
        (\<lambda>u. loop_inv env M n 0 u \<and> settled u \<and> sl_step u = sl_step t)"
      by (rule Cons.IH) (use Cons.prems(1,2) t known in auto)
    then show "returns_unless (\<exists>y\<in>set (x # xs). B y (map_of (sl_meta s) (key y))) (fold_opt f xs t)
        (\<lambda>u. loop_inv env M n 0 u \<and> settled u \<and> sl_step u = sl_step s)"
      by (rule returns_unless_mono) (use same t in \<open>auto simp: only_def\<close>)
  qed auto
qed simp

lemma exec_reqs:
  assumes fits: "env_fits ex nl pp env" and inv: "loop_inv env M n 0 s"
    and ids: "set is \<subseteq> set (sl_decoding s)"
  shows "\<exists>xs. those (map (exec_req s) is) = Some xs \<and> length xs = length is"
  using ids
proof (induction "is")
  case (Cons i "is")
  then obtain xs where xs: "those (map (exec_req s) is) = Some xs" "length xs = length is" by auto
  have tab: "table_inv (env_cfg env) n 0 s" using inv by (simp add: loop_inv_def)
  have i: "i \<in> set (sl_decoding s)" using Cons.prems by simp
  then obtain r where r: "map_of (sl_reqs s) i = Some r" "rq_state r = Decode"
    using table_invD(2) [OF tab, of i] by (auto simp: req_view_def entry_ok_def split: option.splits ReqState.splits)
  note ent = entryD [OF tab r(1)]
  obtain m seg where ms: "map_of (sl_meta s) i = Some m" "map_of (sl_segs s) i = Some seg"
    using entry_ok_state(5) [OF ent r(2)] by blast
  have "rm_prompt m \<noteq> []" "prompt_len r = length (rm_prompt m)"
    using entry_ok_state(7,8) [OF ent ms(1)] r(2) by (simp_all add: lmeta_ok_def)
  then have "1 \<le> cached_len r" using entry_ok_state(5) [OF ent r(2)] by (cases "rm_prompt m") auto
  then show ?case using xs r(1) ms by (simp add: exec_req_def [of s i] chk_sub_def)
qed simp

lemma decode_returns:
  assumes fits: "env_fits ex nl pp env" and inv: "loop_inv env M n 0 s" and stt: "settled s"
  shows "returns_unless (cut_token env s) (loop_decode_step env s)
    (\<lambda>t. loop_inv env M n 0 t \<and> settled t \<and> sl_step t = sl_step s)"
proof -
  let ?s1 = "s\<lparr>sl_decoding := sort (sl_decoding s)\<rparr>" and ?ids = "sort (sl_decoding s)"
  have i1: "loop_inv env M n 0 ?s1"
    using inv by (simp add: loop_inv_def table_inv_def ordered_def req_view_def held_def)
  have st1: "settled ?s1" using stt by (simp add: settled_cong [of ?s1 s])
  have tab: "table_inv (env_cfg env) n 0 ?s1" and own: "owns (sl_exec ?s1) (M + held nl pp ?s1)"
    using i1 by (simp_all only: loop_inv_def)
  have known: "map_of (sl_reqs s) i \<noteq> None" if "i \<in> set (sl_decoding s)" for i
    using table_invD(2) [OF tab, of i] that by (auto simp: req_view_def entry_ok_def split: option.splits)
  obtain xs where xs: "those (map (exec_req ?s1) ?ids) = Some xs" "length xs = length ?ids"
    using exec_reqs [OF fits i1, of ?ids] by auto
  obtain x res where x: "ex_decode_batch ex xs (sl_exec s) = Some (x, res)" "owns x (M + held nl pp ?s1)"
    "\<forall>rows. res = Inr rows \<longrightarrow> length xs \<le> length rows"
    using decode [OF own, of xs] by auto
  have dist: "distinct ?ids" using table_invD(1) [OF tab] by (simp add: ordered_def)
  define s2 where "s2 = ?s1\<lparr>sl_exec := x\<rparr>"
  have s2: "loop_inv env M n 0 s2" "settled s2" "sl_reqs s2 = sl_reqs s" "sl_step s2 = sl_step s" "sl_meta s2 = sl_meta s"
    using inv_exec [OF i1 x(2)] st1 by (simp_all add: s2_def)
  have op: "loop_decode_step env s = (if ?ids = [] then Some ?s1 else case res of
      Inl err \<Rightarrow> fold_opt (\<lambda>i. request_abort env i (Some (DecodeErr err))) ?ids s2
    | Inr rows \<Rightarrow> fold_opt (loop_decode_one env rows) (enumerate 0 ?ids) s2)"
    using xs(1) x(1) env_fitsD(3) [OF fits] by (simp add: loop_decode_step_def Let_def s2_def split: sum.split)
  have fail: "returns (fold_opt (\<lambda>i. request_abort env i (Some (DecodeErr err))) ?ids s2)
      (\<lambda>t. loop_inv env M n 0 t \<and> settled t \<and> sl_step t = sl_step s2)" for err
    unfolding returns_unless_False [symmetric]
  proof (rule returns_unless_mono [OF fold_reqs_returns [where key = id and B = "\<lambda>_ _. False", OF _ _ s2(1,2)]])
    fix i t assume t: "loop_inv env M n 0 t" "settled t" "map_of (sl_reqs t) (id i) \<noteq> None"
    then obtain r where r: "map_of (sl_reqs t) i = Some r" by auto
    show "returns_unless False (request_abort env i (Some (DecodeErr err)) t) (\<lambda>u. loop_inv env M n 0 u \<and> settled u \<and> only {id i} t u)"
      unfolding returns_unless_False by (rule returns_mono [OF abort_settled [OF fits t(1) r]]) (use settled_only [OF t(2)] in auto)
  qed (use known s2(3) dist in auto)
  have rows: "returns_unless (\<exists>p\<in>set (enumerate 0 ?ids). cut_row env (rows ! fst p) (map_of (sl_meta s2) (snd p)))
      (fold_opt (loop_decode_one env rows) (enumerate 0 ?ids) s2)
      (\<lambda>t. loop_inv env M n 0 t \<and> settled t \<and> sl_step t = sl_step s2)" if "length xs \<le> length rows" for rows
  proof (rule fold_reqs_returns [where key = snd and B = "\<lambda>p. cut_row env (rows ! fst p)", OF _ _ s2(1,2)])
    fix p t assume p: "p \<in> set (enumerate 0 ?ids)" and t: "loop_inv env M n 0 t" "settled t" "map_of (sl_reqs t) (snd p) \<noteq> None"
    then obtain r where r: "map_of (sl_reqs t) (snd p) = Some r" by auto
    have "fst p < length rows" using p that xs(2) by (auto simp: in_set_enumerate_eq)
    from decode_one_returns [OF fits t(1,2) r this]
    show "returns_unless (cut_row env (rows ! fst p) (map_of (sl_meta t) (snd p))) (loop_decode_one env rows p t)
        (\<lambda>u. loop_inv env M n 0 u \<and> settled u \<and> only {snd p} t u)" by simp
  next
    show "distinct (map snd (enumerate 0 ?ids))" using dist by simp
  next
    fix p assume "p \<in> set (enumerate 0 ?ids)"
    then have "snd p \<in> set (map snd (enumerate 0 ?ids))" unfolding set_map by (rule imageI)
    then have "snd p \<in> set ?ids" unfolding map_snd_enumerate .
    then show "map_of (sl_reqs s2) (snd p) \<noteq> None" using known s2(3) by simp
  qed
  show ?thesis
  proof (cases "?ids = []")
    case True
    then show ?thesis unfolding op using i1 st1 by (simp only: if_True returns_unless_simps, simp)
  next
    case False
    show ?thesis
    proof (cases res)
      case (Inl err)
      show ?thesis unfolding op Inl sum.case if_not_P [OF False]
        by (rule returns_unlessI) (use fail [of err] in \<open>unfold s2(4)\<close>)
    next
      case (Inr rs)
      then have len: "length xs \<le> length rs" using x(3) by blast
      have cut: "cut_token env s" if p: "p \<in> set (enumerate 0 ?ids)" "cut_row env (rs ! fst p) (map_of (sl_meta s2) (snd p))" for p
      proof -
        have k: "fst p < length ?ids" "?ids ! fst p = snd p" using p(1) by (auto simp: in_set_enumerate_eq)
        have "those (map (exec_req s) ?ids) = Some xs" using xs(1) by (simp add: exec_req_def [abs_def])
        then show ?thesis unfolding cut_token_def using x(1) Inr k p(2) xs(2) len s2(5) env_fitsD(3) [OF fits]
          by (intro exI [of _ xs] exI [of _ x] exI [of _ rs] exI [of _ "fst p"]) simp
      qed
      show ?thesis unfolding op Inr sum.case if_not_P [OF False]
        by (rule returns_unless_mono [OF rows [OF len]]) (use cut s2(4) in auto)
    qed
  qed
qed

end

section \<open>Commands\<close>

text \<open>The server submits only prompts that fit the context window together with their output.\<close>

definition cmd_fits :: "SchedLoopConfig \<Rightarrow> 'p SchedCmd \<Rightarrow> bool" where
  "cmd_fits cfg c \<longleftrightarrow> (case c of
     Submit q \<Rightarrow> sr_ids q = [] \<or> length (sr_ids q) + sr_max_tokens q \<le> lc_max_model_len cfg
   | _ \<Rightarrow> True)"

lemma table_fresh:
  assumes "table_inv cfg n d s" "n < 2 ^ 64"
  shows "map_of (sl_reqs s) (derive (lc_base_seed cfg) (of_nat n)) = None"
proof (rule ccontr)
  assume "map_of (sl_reqs s) (derive (lc_base_seed cfg) (of_nat n)) \<noteq> None"
  then obtain k where k: "k < n" "derive (lc_base_seed cfg) (of_nat n) = derive (lc_base_seed cfg) (of_nat k)"
    using table_invD(3) [OF assms(1)] by blast
  then have "(of_nat n :: u64) = of_nat k" by (simp only: derive_inj)
  then show False using k(1) assms(2) of_nat_u64_inj [of n k] by simp
qed

lemma table_new:
  assumes tab: "table_inv cfg n 0 s" and new: "map_of (sl_reqs s) i = None"
    and i: "i = derive (lc_base_seed cfg) (sl_arrival_seq s)"
    and t: "sl_reqs t = bt_insert i (req_new i sd a pats eos) (sl_reqs s)" "sl_segs t = sl_segs s" "sl_decoding t = sl_decoding s"
      "sl_estimates t = sl_estimates s" "sl_arrival_seq t = sl_arrival_seq s + 1" "sl_dispatched t = sl_dispatched s"
      "sl_returned t = sl_returned s" "sl_cache t = sl_cache s"
    and m: "sl_meta t = sl_meta s \<and> sl_waiting t = sl_waiting s \<and> sl_token_ids t = sl_token_ids s
      \<or> (\<exists>m. lmeta_ok cfg m \<and> sl_meta t = bt_insert i m (sl_meta s)) \<and> sl_waiting t = sl_waiting s @ [i]
        \<and> set (sl_token_ids t) \<subseteq> insert (tok, i) (set (sl_token_ids s))"
  shows "table_inv cfg (Suc n) 0 t"
proof -
  note ord = table_invD(1) [OF tab]
  have none: "entry_ok cfg None (map_of (sl_meta s) i) (i \<in> set (sl_waiting s)) (i \<in> set (sl_decoding s))
      (map_of (sl_segs s) i) (map_of (sl_estimates s) i \<noteq> None)"
    using table_invD(2) [OF tab, of i] new by (simp add: req_view_def)
  have rn: "rq_state (req_new i sd a pats eos) = Waiting" "prompt_len (req_new i sd a pats eos) = 0"
    "live_len (req_new i sd a pats eos) = 0" "\<exists>p e h n. req_inv p e (req_new i sd a pats eos) h n"
    using req_inv_new [of pats eos i sd a] by (auto simp: req_new_def live_len_def)
  have ordt: "ordered t" using ord none m by (auto simp: ordered_def t sorted_bt_insert entry_ok_def)
  have view: "req_view cfg t j" for j
  proof (cases "j = i")
    case True
    then show ?thesis using none m rn by (auto simp: req_view_def t entry_ok_def)
  next
    case False
    then show ?thesis using table_invD(2) [OF tab, of j] m by (auto simp: req_view_def t)
  qed
  have seq: "sl_arrival_seq s = of_nat n" by (rule table_invD(4) [OF tab])
  have ids: "\<exists>k<Suc n. j = derive (lc_base_seed cfg) (of_nat k)" if "map_of (sl_reqs t) j \<noteq> None" for j
    using that table_invD(3) [OF tab, of j] i seq by (cases "j = i") (auto simp: t intro: less_SucI)
  have toks: "\<forall>x\<in>set (sl_token_ids t). map_of (sl_reqs t) (snd x) \<noteq> None"
    using table_invD(5) [OF tab] m by (auto simp: t)
  have "bt_sum live_len (sl_reqs t) = bt_sum live_len (sl_reqs s)"
    using new rn(3) by (simp add: t bt_sum_insert_new)
  then have acc: "sl_dispatched t + 0 = sl_returned t + bt_sum live_len (sl_reqs t)"
    using table_invD(7) [OF tab] by (simp add: t)
  show ?thesis unfolding table_inv_def
    using ordt view ids toks acc table_invD(6,8) [OF tab] seq by (auto simp: t)
qed

lemma settled_new:
  assumes "settled s" "sl_reqs t = bt_insert i (req_new i sd a pats eos) (sl_reqs s)"
  shows "settled t"
  using assms by (auto simp: settled_def settled_at_def req_new_def)

text \<open>A turn whose step samples a token that cuts the text of its request, and panics.\<close>

definition turn_cuts :: "('x, 'c, 'l, 'p, 'o) SchedEnv \<Rightarrow> 'p SchedCmd list \<Rightarrow> ('x, 'c, 'p, 'o) SchedLoop \<Rightarrow> bool" where
  "turn_cuts env q s \<longleftrightarrow> \<not> loop_is_idle s
     \<and> (\<exists>u w. drain_cmds env q s = Some (u, False) \<and> admit_schedule env u = Some w
          \<and> cut_token env w \<and> loop_decode_step env w = None)"

text \<open>A run with such a turn.\<close>

definition run_cuts :: "('x, 'c, 'l, 'p, 'o) SchedEnv \<Rightarrow> 'p SchedCmd list list \<Rightarrow> 'p SchedCmd list
    \<Rightarrow> ('x, 'c, 'p, 'o) SchedLoop \<Rightarrow> bool" where
  "run_cuts env feeds q s \<longleftrightarrow> (\<exists>fs feed later v r. feeds = fs @ feed # later
     \<and> loop_run env fs q s = Some (v, r, False) \<and> turn_cuts env (r @ feed) v)"

lemma run_cuts_Cons:
  "turn_cuts env (q @ fd) s \<Longrightarrow> run_cuts env (fd # feeds) q s"
  "loop_turn env (q @ fd) s = Some (t, r, False) \<Longrightarrow> run_cuts env feeds r t \<Longrightarrow> run_cuts env (fd # feeds) q s"
proof -
  show "turn_cuts env (q @ fd) s \<Longrightarrow> run_cuts env (fd # feeds) q s"
    unfolding run_cuts_def
    by (intro exI [of _ "[]"] exI [of _ fd] exI [of _ feeds] exI [of _ s] exI [of _ q]) simp
  assume t: "loop_turn env (q @ fd) s = Some (t, r, False)" and "run_cuts env feeds r t"
  then obtain fs feed later v r' where "feeds = fs @ feed # later" "loop_run env fs r t = Some (v, r', False)"
    "turn_cuts env (r' @ feed) v" by (auto simp: run_cuts_def)
  then show "run_cuts env (fd # feeds) q s"
    unfolding run_cuts_def using t
    by (intro exI [of _ "fd # fs"] exI [of _ feed] exI [of _ later] exI [of _ v] exI [of _ r']) simp
qed

context segment_executor begin

text \<open>A run of the loop so far: the number of arrivals is a ghost.\<close>

definition loop_good :: "('x, 'c, 'l, 'p, 'o) SchedEnv \<Rightarrow> KvSegment multiset \<Rightarrow> nat
    \<Rightarrow> ('x, 'c, 'p, 'o) SchedLoop \<Rightarrow> bool" where
  "loop_good env M n s \<longleftrightarrow> loop_inv env M n 0 s \<and> settled s"

lemma submit_returns:
  fixes env :: "('x, 'c, 'l, 'p, 'o) SchedEnv"
  assumes fits: "env_fits ex nl pp env" and good: "loop_good env M n s" and n: "n < 2 ^ 64"
    and q: "cmd_fits (env_cfg env) (Submit q)"
  shows "returns (loop_submit env q s) (\<lambda>t. loop_good env M n t \<or> loop_good env M (Suc n) t)"
proof (cases "sr_ids q = []")
  case True
  then show ?thesis using good by (simp add: loop_submit_def loop_good_def)
next
  case False
  let ?cfg = "env_cfg env"
  have tab: "table_inv ?cfg n 0 s" and own: "owns (sl_exec s) (M + held nl pp s)" and stt: "settled s"
    using good by (simp_all add: loop_good_def loop_inv_def)
  define i where "i = derive (lc_base_seed ?cfg) (sl_arrival_seq s)"
  have new: "map_of (sl_reqs s) i = None" using table_fresh [OF tab n] table_invD(4) [OF tab] by (simp add: i_def)
  let ?r = "req_new i (lc_base_seed ?cfg) (sl_arrival_seq s) (sr_stop q) (sr_eos q)"
  have put: "loop_good env M (Suc n) t"
    if t: "sl_reqs t = bt_insert i ?r (sl_reqs s)" "sl_segs t = sl_segs s" "sl_decoding t = sl_decoding s"
      "sl_estimates t = sl_estimates s" "sl_arrival_seq t = sl_arrival_seq s + 1" "sl_dispatched t = sl_dispatched s"
      "sl_returned t = sl_returned s" "sl_cache t = sl_cache s" "sl_exec t = sl_exec s"
    and m: "sl_meta t = sl_meta s \<and> sl_waiting t = sl_waiting s \<and> sl_token_ids t = sl_token_ids s
      \<or> (\<exists>m. lmeta_ok ?cfg m \<and> sl_meta t = bt_insert i m (sl_meta s)) \<and> sl_waiting t = sl_waiting s @ [i]
        \<and> set (sl_token_ids t) \<subseteq> insert (sr_token q, i) (set (sl_token_ids s))" for t
    using table_new [OF tab new i_def t(1-8) m] settled_new [OF stt t(1)] own t
    by (simp add: loop_good_def loop_inv_def held_def)
  define tr where "tr = sl_trace s @ [\<lparr>te_step = sl_step s, te_req = i, te_event = ArrivedEv,
       te_cached_len = cached_len ?r, te_device_len = device_len ?r\<rparr>]"
  define s1 where "s1 = s\<lparr>sl_arrival_seq := sl_arrival_seq s + 1, sl_reqs := bt_insert i ?r (sl_reqs s), sl_trace := tr\<rparr>"
  define sp where "sp = \<lparr>smp_opts = gp_opts (sr_params q), smp_repeat_last_n = 64,
      smp_seed = (case gp_seed (sr_params q) of Some u \<Rightarrow> u | None \<Rightarrow> splitmix64 (lc_base_seed ?cfg XOR i))\<rparr>"
  define m :: "'c \<Rightarrow> ('c, 'p) ReqMeta" where "m ch = \<lparr>rm_prompt = sr_ids q, rm_max_output = sr_max_tokens q, rm_chain = ch,
      rm_sampler_params = sp, rm_cur = 0, rm_generated = [], rm_last_len = 0,
      rm_logprobs_top_n = sr_logprobs_top_n q, rm_tx = sr_tx q\<rparr>" for ch
  have lm: "lmeta_ok ?cfg (m ch)" for ch using q False by (simp add: lmeta_ok_def cmd_fits_def m_def)
  have op: "loop_submit env q s = (case chain_new (env_sampler env) sp of
      Inl msg \<Rightarrow> Some (fst (blocking_send env (sr_tx q) (ErrorFrame (SamplerInit msg)) s1))
    | Inr ch \<Rightarrow> Some (s1\<lparr>sl_token_ids := bt_insert (sr_token q) i (sl_token_ids s1),
         sl_meta := bt_insert i (m ch) (sl_meta s1), sl_waiting := sl_waiting s1 @ [i]\<rparr>))"
    unfolding loop_submit_def Let_def i_def [symmetric]
    using False by (simp add: loop_trace_def set_req_def sp_def m_def s1_def tr_def split: sum.split)
  show ?thesis
  proof (cases "chain_new (env_sampler env) sp")
    case (Inl msg)
    have "loop_good env M (Suc n) (fst (blocking_send env (sr_tx q) (ErrorFrame (SamplerInit msg)) s1))"
      by (rule put) (simp_all add: s1_def)
    then show ?thesis unfolding op Inl by simp
  next
    case (Inr ch)
    have "loop_good env M (Suc n) (s1\<lparr>sl_token_ids := bt_insert (sr_token q) i (sl_token_ids s1),
         sl_meta := bt_insert i (m ch) (sl_meta s1), sl_waiting := sl_waiting s1 @ [i]\<rparr>)"
      by (rule put) (use lm set_bt_insert [of "sr_token q" i "sl_token_ids s"] in \<open>auto simp: s1_def\<close>)
    then show ?thesis unfolding op Inr by simp
  qed
qed

lemma good_le: "loop_good env M n s \<Longrightarrow> n \<le> k \<Longrightarrow> \<exists>n'\<le>k. loop_good env M n' s"
  by blast

lemma cmd_returns:
  assumes fits: "env_fits ex nl pp env" and good: "loop_good env M n s" and n: "n < 2 ^ 64"
    and c: "cmd_fits (env_cfg env) c"
  shows "returns (handle_cmd env c s) (\<lambda>(t, halt). \<exists>n'\<le>Suc n. loop_good env M n' t)"
proof (cases c)
  case (Submit q)
  show ?thesis unfolding Submit handle_cmd.simps returns_simps
    by (rule returns_mono [OF submit_returns [OF fits good n c [unfolded Submit]]])
      (use le_SucI [OF le_refl, of n] in fastforce)
next
  case (AbortCmd t)
  show ?thesis
  proof (cases "map_of (sl_token_ids s) t")
    case None
    then show ?thesis using good_le [OF good, of "Suc n"] by (simp add: AbortCmd)
  next
    case (Some i)
    have inv: "loop_inv env M n 0 s" and stt: "settled s" using good by (simp_all add: loop_good_def)
    have "table_inv (env_cfg env) n 0 s" using inv by (simp add: loop_inv_def)
    then obtain r where r: "map_of (sl_reqs s) i = Some r"
      using table_invD(5) [of "env_cfg env" n 0 s "(t, i)"] map_of_SomeD [OF Some] by auto
    have "returns (request_abort env i None s) (\<lambda>t. \<exists>n'\<le>Suc n. loop_good env M n' t)"
      by (rule returns_mono [OF abort_settled [OF fits inv r]])
        (use settled_only [OF stt] in \<open>auto simp: loop_good_def intro!: exI [of _ n]\<close>)
    then show ?thesis by (simp add: AbortCmd Some)
  qed
next
  case Shutdown
  then show ?thesis using good_le [OF good, of "Suc n"] by simp
qed

lemma drain_returns:
  fixes env :: "('x, 'c, 'l, 'p, 'o) SchedEnv" and cs :: "'p SchedCmd list"
  assumes fits: "env_fits ex nl pp env"
  shows "loop_good env M n s \<Longrightarrow> n + length cs \<le> 2 ^ 64 \<Longrightarrow> \<forall>c\<in>set cs. cmd_fits (env_cfg env) c \<Longrightarrow>
    returns (drain_cmds env cs s) (\<lambda>(t, halt). \<exists>n'\<le>n + length cs. loop_good env M n' t)"
proof (induction cs arbitrary: n s)
  case (Cons c cs)
  have c: "n < 2 ^ 64" "cmd_fits (env_cfg env) c" using Cons.prems(2,3) by simp_all
  show ?case unfolding drain_cmds.simps returns_simps
  proof (rule returns_mono [OF cmd_returns [OF fits Cons.prems(1) c]])
    fix res :: "('x, 'c, 'p, 'o) SchedLoop \<times> bool" assume res: "case res of (t, halt) \<Rightarrow> \<exists>n'\<le>Suc n. loop_good env M n' t"
    obtain t halt where th: "res = (t, halt)" by (cases res)
    obtain n' where n': "n' \<le> Suc n" "loop_good env M n' t" using res th by auto
    have rec: "returns (drain_cmds env cs t) (\<lambda>(t, halt). \<exists>n''\<le>n' + length cs. loop_good env M n'' t)"
      using Cons.IH [OF n'(2)] n'(1) Cons.prems(2,3) by simp
    have "returns (drain_cmds env cs t) (\<lambda>(t, halt). \<exists>n'\<le>n + length (c # cs). loop_good env M n' t)"
      by (rule returns_mono [OF rec]) (use n'(1) in \<open>auto intro: good_le\<close>)
    then show "returns (case res of (s, halt) \<Rightarrow> if halt then Some (s, True) else drain_cmds env cs s)
        (\<lambda>(t, halt). \<exists>n'\<le>n + length (c # cs). loop_good env M n' t)"
      using n'(1) good_le [OF n'(2), of "n + length (c # cs)"] by (cases halt) (simp_all add: th)
  qed
qed auto

section \<open>Turns\<close>

lemma iterate_returns:
  assumes fits: "env_fits ex nl pp env" and good: "loop_good env M n s"
  shows "returns_unless (\<exists>t. admit_schedule env s = Some t \<and> cut_token env t \<and> loop_decode_step env t = None) (iterate env s)
    (\<lambda>t. loop_good env M n t \<and> sl_step t = sl_step s + 1)"
proof -
  have "loop_inv env M n 0 s" "settled s" using good by (simp_all add: loop_good_def)
  note one = schedule_returns [OF fits this]
  have bump: "loop_good env M n (t\<lparr>sl_step := k\<rparr>)" if "loop_inv env M n 0 t" "settled t" for t k
    using that by (simp add: loop_good_def loop_inv_def table_inv_def ordered_def req_view_def held_def settled_def settled_at_def)
  show ?thesis unfolding iterate_def returns_unless_simps
  proof (rule returns_unless_mono [OF returns_unlessI [OF one, of False]])
    fix t assume adm: "admit_schedule env s = Some t" and t': "loop_inv env M n 0 t \<and> settled t \<and> sl_step t = sl_step s"
    then have t: "loop_inv env M n 0 t" "settled t" "sl_step t = sl_step s" by simp_all
    show "returns_unless (\<exists>t. admit_schedule env s = Some t \<and> cut_token env t \<and> loop_decode_step env t = None) (loop_decode_step env t)
        (\<lambda>x. loop_good env M n (x\<lparr>sl_step := sl_step x + 1\<rparr>) \<and> sl_step (x\<lparr>sl_step := sl_step x + 1\<rparr>) = sl_step s + 1)"
      by (rule returns_unless_mono [OF decode_returns [OF fits t(1,2)]]) (use bump t(3) adm in auto)
  qed simp
qed

lemma turn_returns:
  fixes env :: "('x, 'c, 'l, 'p, 'o) SchedEnv" and q :: "'p SchedCmd list"
  assumes fits: "env_fits ex nl pp env" and good: "loop_good env M n s" and n: "n + length q \<le> 2 ^ 64"
    and q: "\<forall>c\<in>set q. cmd_fits (env_cfg env) c"
  shows "returns_unless (turn_cuts env q s) (loop_turn env q s) (\<lambda>(t, q', fin). set q' \<subseteq> set q \<and> (\<exists>n'. n' + length q' \<le> n + length q \<and> loop_good env M n' t))"
proof (cases "loop_is_idle s")
  case True
  show ?thesis
  proof (cases q)
    case Nil
    then show ?thesis using True good by (auto simp: loop_turn_def)
  next
    case (Cons c cs)
    have c: "n < 2 ^ 64" "cmd_fits (env_cfg env) c" using n q Cons by simp_all
    have "returns (loop_turn env q s) (\<lambda>(t, q', fin). set q' \<subseteq> set q \<and> (\<exists>n'. n' + length q' \<le> n + length q \<and> loop_good env M n' t))"
      unfolding loop_turn_def Cons if_P [OF True] list.case returns_simps
      by (rule returns_mono [OF cmd_returns [OF fits good c]]) fastforce
    then show ?thesis by (rule returns_unlessI)
  qed
next
  case False
  show ?thesis unfolding loop_turn_def if_not_P [OF False] returns_unless_simps
  proof (rule returns_unless_mono [OF returns_unlessI [OF drain_returns [OF fits good n q], of False]])
    fix res :: "('x, 'c, 'p, 'o) SchedLoop \<times> bool" assume dr: "drain_cmds env q s = Some res" and res: "case res of (t, halt) \<Rightarrow> \<exists>n'\<le>n + length q. loop_good env M n' t"
    obtain t halt where th: "res = (t, halt)" by (cases res)
    obtain n' where n': "n' \<le> n + length q" "loop_good env M n' t" using res th by auto
    have step: "returns_unless (turn_cuts env q s) (iterate env t) (\<lambda>u. \<exists>n'. n' \<le> n + length q \<and> loop_good env M n' u)" if "\<not> halt"
      by (rule returns_unless_mono [OF iterate_returns [OF fits n'(2)]])
        (use n'(1) False dr that in \<open>auto simp: turn_cuts_def th\<close>)
    then show "returns_unless (turn_cuts env q s) (case res of (s, halt) \<Rightarrow>
        if halt \<or> 0 < lc_max_steps (env_cfg env) \<and> lc_max_steps (env_cfg env) \<le> sl_step s
        then Some (s, [] :: 'p SchedCmd list, True) else Option.bind (iterate env s) (\<lambda>s. Some (s, [], False)))
      (\<lambda>(t, q', fin). set q' \<subseteq> set q \<and> (\<exists>n'. n' + length q' \<le> n + length q \<and> loop_good env M n' t))"
      using n' by (auto simp: th)
  qed simp
qed

text \<open>
  Every run of the loop from a good state keeps it good, whatever the clients submit and abort, and
  returns unless one of its turns cuts a text.
\<close>

lemma run_returns:
  fixes env :: "('x, 'c, 'l, 'p, 'o) SchedEnv" and q :: "'p SchedCmd list"
  assumes fits: "env_fits ex nl pp env"
  shows "loop_good env M n s \<Longrightarrow> n + length q + sum_list (map length feeds) \<le> 2 ^ 64 \<Longrightarrow>
    \<forall>c\<in>set q \<union> \<Union> (set ` set feeds). cmd_fits (env_cfg env) c \<Longrightarrow>
    returns_unless (run_cuts env feeds q s) (loop_run env feeds q s) (\<lambda>(t, q', fin). set q' \<subseteq> set q \<union> \<Union> (set ` set feeds)
      \<and> (\<exists>n'. n' + length q' \<le> n + length q + sum_list (map length feeds) \<and> loop_good env M n' t))"
proof (induction feeds arbitrary: n q s)
  case Nil
  then show ?case by auto
next
  case (Cons fd feeds)
  let ?Q = "\<lambda>(t, q', fin). set q' \<subseteq> set q \<union> \<Union> (set ` set (fd # feeds))
      \<and> (\<exists>n'. n' + length q' \<le> n + length q + sum_list (map length (fd # feeds)) \<and> loop_good env M n' t)"
  have q: "n + length (q @ fd) \<le> 2 ^ 64" "\<forall>c\<in>set (q @ fd). cmd_fits (env_cfg env) c" using Cons.prems(2,3) by auto
  show ?case unfolding loop_run.simps returns_unless_simps
  proof (rule returns_unless_mono [OF turn_returns [OF fits Cons.prems(1) q]])
    fix res :: "('x, 'c, 'p, 'o) SchedLoop \<times> 'p SchedCmd list \<times> bool" assume tn: "loop_turn env (q @ fd) s = Some res" and res: "case res of (t, q', fin) \<Rightarrow> set q' \<subseteq> set (q @ fd)
      \<and> (\<exists>n'. n' + length q' \<le> n + length (q @ fd) \<and> loop_good env M n' t)"
    obtain t q' fin where th: "res = (t, q', fin)" by (cases res)
    obtain n' where n': "n' + length q' \<le> n + length (q @ fd)" "loop_good env M n' t" "set q' \<subseteq> set (q @ fd)"
      using res th by auto
    have rec: "returns_unless (run_cuts env feeds q' t) (loop_run env feeds q' t) (\<lambda>(u, r, fin). set r \<subseteq> set q' \<union> \<Union> (set ` set feeds)
      \<and> (\<exists>k. k + length r \<le> n' + length q' + sum_list (map length feeds) \<and> loop_good env M k u))"
      by (rule Cons.IH [OF n'(2)]) (use n'(1,3) Cons.prems(2,3) in auto)
    have rec': "returns_unless (run_cuts env (fd # feeds) q s) (loop_run env feeds q' t) ?Q" if "\<not> fin"
    proof (rule returns_unless_mono [OF rec])
      assume "run_cuts env feeds q' t"
      then show "run_cuts env (fd # feeds) q s" using tn that by (intro run_cuts_Cons(2)) (simp_all add: th)
    next
      fix res' :: "('x, 'c, 'p, 'o) SchedLoop \<times> 'p SchedCmd list \<times> bool"
      assume rr: "case res' of (u, r, fin) \<Rightarrow> set r \<subseteq> set q' \<union> \<Union> (set ` set feeds)
        \<and> (\<exists>k. k + length r \<le> n' + length q' + sum_list (map length feeds) \<and> loop_good env M k u)"
      obtain u r fin' where res': "res' = (u, r, fin')" by (cases res')
      obtain k where k: "set r \<subseteq> set q' \<union> \<Union> (set ` set feeds)" "k + length r \<le> n' + length q' + sum_list (map length feeds)"
        "loop_good env M k u" using rr res' by auto
      have "k + length r \<le> n + length q + sum_list (map length (fd # feeds))" using k(2) n'(1) by simp
      then show "?Q res'" using k(1,3) n'(3) by (auto simp: res')
    qed
    have "n' + length q' \<le> n + length q + sum_list (map length (fd # feeds))" using n'(1) by simp
    then have stop: "?Q (t, q', True)" using n'(2,3) by auto
    show "returns_unless (run_cuts env (fd # feeds) q s)
        (case res of (s, q, fin) \<Rightarrow> if fin then Some (s, q, True) else loop_run env feeds q s) ?Q"
      using rec' stop by (simp add: th)
  qed (rule run_cuts_Cons(1))
qed

text \<open>The state the loop starts in.\<close>

lemma new_good:
  assumes cfg: "cfg_ok cfg" and c: "env_cfg env = cfg" and own: "owns x M" and s: "loop_new cfg x = Some s"
  shows "loop_good env M 0 s"
proof -
  have cache: "radix_reach (lc_prefix_cache_pages cfg) 32 c \<and> lru c = []" if "radix_new (lc_prefix_cache_pages cfg) = Some c" for c
    using that reach_new [of "lc_prefix_cache_pages cfg" 32 c]
    by (auto simp: radix_new_def DEFAULT_BLOCK_def new_with_block_def lru_def eviction_candidates_def
      collect_entries_def push_children_def empty_node_def split: if_splits)
  show ?thesis using s own cache
    by (auto simp: loop_new_def loop_good_def loop_inv_def table_inv_def ordered_def req_view_def entry_ok_def held_def
        cache_runs_def settled_def settled_at_def c bind_eq_Some_conv bt_sum_def split: if_splits)
qed

end

end
