(* ===== verification/Sched_Pages.thy ===== *)
theory Sched_Pages
  imports Sched_Turn
begin

text \<open>
  The event loop on the executor for the device: the state it starts in, its runs, and the number of
  pages of the pool they use.
\<close>

section \<open>Runs of the loop\<close>

text \<open>The state the server starts the loop in: the executor is loaded, then the loop is made.\<close>

definition started :: "nat \<Rightarrow> nat \<Rightarrow> 'd \<Rightarrow> SchedLoopConfig
    \<Rightarrow> ('d CudaBatchExecutor, 'c, 'p, 'o) SchedLoop \<Rightarrow> bool" where
  "started kv_heads d dv cfg s \<longleftrightarrow>
     (\<exists>x. cuda_load (lc_n_layer cfg) kv_heads d (lc_max_model_len cfg) (lc_kv_pages cfg) dv = Some (Inr x)
        \<and> loop_new cfg x = Some s)"

text \<open>The commands a run is fed with: they fit the context window, and their number is a 64-bit number.\<close>

definition feeds_ok :: "SchedLoopConfig \<Rightarrow> 'p SchedCmd list list \<Rightarrow> bool" where
  "feeds_ok cfg feeds \<longleftrightarrow> sum_list (map length feeds) \<le> 2 ^ 64
     \<and> list_all (list_all (cmd_fits cfg)) feeds"

definition run_of_loop :: "('d, 'l) Device \<Rightarrow> ('d CudaBatchExecutor, 'c, 'l, 'p, 'o) SchedEnv \<Rightarrow> nat \<Rightarrow> nat \<Rightarrow> 'd
    \<Rightarrow> 'p SchedCmd list list \<Rightarrow> ('d CudaBatchExecutor, 'c, 'p, 'o) SchedLoop \<Rightarrow> bool" where
  "run_of_loop dev env kv_heads d dv feeds s \<longleftrightarrow> env_exec env = cuda_executor dev \<and> device_ok dev \<and> env_ok env
     \<and> feeds_ok (env_cfg env) feeds \<and> started kv_heads d dv (env_cfg env) s"

lemma load_owns:
  assumes cfg: "cfg_ok cfg" and dev: "device_ok dev"
    and x: "cuda_load (lc_n_layer cfg) kh d (lc_max_model_len cfg) (lc_kv_pages cfg) dv = Some (Inr x)"
  shows "cuda_owns dev (lc_n_layer cfg) (cfg_pp cfg) (cx_anchor x) (lc_kv_pages cfg) x {#cx_anchor x#}"
    "n_pages (cx_anchor x) = window_pages cfg"
proof -
  let ?p0 = "sp_new B32 (lc_kv_pages cfg)"
  have pp: "div_ceil (lc_max_model_len cfg) 32 = cfg_pp cfg" "0 < window_pages cfg"
    "lc_n_layer cfg * cfg_pp cfg = window_pages cfg" "lc_kv_pages cfg \<le> 2 ^ 32"
    using cfg_okD(1,5,9,10) [OF cfg] by (simp_all add: cfg_pp_def)
  obtain anchor pool where al: "sp_alloc_from_end ?p0 (window_pages cfg) = Ok (anchor, pool)"
    and x': "cx_pool x = pool" "cx_anchor x = anchor" "cx_n_layer x = lc_n_layer cfg" "cx_pp x = cfg_pp cfg" "cx_block_len x = 32"
    using x pp(1,3) by (auto simp: cuda_load_def Let_def split: if_splits res.splits)
  have inv: "seg_inv ?p0" by (rule seg_inv_new)
  note post = sp_alloc_from_end_post [OF inv al, unfolded alloc_post_def]
  have rc0: "rc ?p0 i = 0" for i by (simp add: rc_def sp_new_def)
  have tot: "sp_total ?p0 = lc_kv_pages cfg" by (simp add: sp_new_def)
  have "rc pool = seg_refs.cover {#anchor#}" using post rc0 by (simp add: fun_eq_iff)
  moreover have "seg_refs.cover {#anchor#} i \<le> 1" for i by simp
  ultimately show "cuda_owns dev (lc_n_layer cfg) (cfg_pp cfg) (cx_anchor x) (lc_kv_pages cfg) x {#cx_anchor x#}"
    using post dev pp(4) unfolding cuda_owns_def seg_refs.owns_def x' tot by simp
  show "n_pages (cx_anchor x) = window_pages cfg" using post by (simp add: x')
qed

lemma run_good:
  fixes env :: "('d CudaBatchExecutor, 'c, 'l, 'p, 'o) SchedEnv"
  assumes run: "run_of_loop dev env kh d dv feeds s"
  shows "env_fits (cuda_executor dev) (lc_n_layer (env_cfg env)) (cfg_pp (env_cfg env)) env"
    "n_pages (cx_anchor (sl_exec s)) = window_pages (env_cfg env)"
    "returns_unless (run_cuts env feeds [] s) (loop_run env feeds [] s)
       (\<lambda>(t, q, fin). \<exists>n. cuda.loop_good dev (lc_n_layer (env_cfg env))
         (cfg_pp (env_cfg env)) (cx_anchor (sl_exec s)) (lc_kv_pages (env_cfg env)) env {#cx_anchor (sl_exec s)#} n t)"
    "cuda.loop_good dev (lc_n_layer (env_cfg env)) (cfg_pp (env_cfg env)) (cx_anchor (sl_exec s)) (lc_kv_pages (env_cfg env)) env
      {#cx_anchor (sl_exec s)#} 0 s"
proof -
  let ?cfg = "env_cfg env"
  obtain x where x: "cuda_load (lc_n_layer ?cfg) kh d (lc_max_model_len ?cfg) (lc_kv_pages ?cfg) dv = Some (Inr x)"
    "loop_new ?cfg x = Some s" using run by (auto simp: run_of_loop_def started_def)
  have ok: "env_ok env" "device_ok dev" "env_exec env = cuda_executor dev" "feeds_ok ?cfg feeds"
    using run by (simp_all add: run_of_loop_def)
  then have cfg: "cfg_ok ?cfg" by (simp add: env_ok_def)
  have sx: "sl_exec s = x" using x(2) by (auto simp: loop_new_def bind_eq_Some_conv)
  show fits: "env_fits (cuda_executor dev) (lc_n_layer ?cfg) (cfg_pp ?cfg) env" using ok by (simp add: env_fits_def)
  show "n_pages (cx_anchor (sl_exec s)) = window_pages ?cfg" using load_owns(2) [OF cfg ok(2) x(1)] by (simp add: sx)
  show g: "cuda.loop_good dev (lc_n_layer ?cfg) (cfg_pp ?cfg) (cx_anchor (sl_exec s)) (lc_kv_pages ?cfg) env
      {#cx_anchor (sl_exec s)#} 0 s"
    unfolding sx by (rule cuda.new_good [OF cfg refl load_owns(1) [OF cfg ok(2) x(1)] x(2)])
  have len: "0 + length ([] :: 'p SchedCmd list) + sum_list (map length feeds) \<le> 2 ^ 64"
    "\<forall>c\<in>set ([] :: 'p SchedCmd list) \<union> \<Union> (set ` set feeds). cmd_fits ?cfg c"
    using ok(4) by (auto simp: feeds_ok_def list_all_iff)
  show "returns_unless (run_cuts env feeds [] s) (loop_run env feeds [] s) (\<lambda>(t, q, fin). \<exists>n. cuda.loop_good dev (lc_n_layer ?cfg)
       (cfg_pp ?cfg) (cx_anchor (sl_exec s)) (lc_kv_pages ?cfg) env {#cx_anchor (sl_exec s)#} n t)"
    by (rule returns_unless_mono [OF cuda.run_returns [OF fits g len]]) auto
qed

section \<open>The pages of the pool\<close>

text \<open>Every run of pages somebody holds.\<close>

definition holders :: "SchedLoopConfig \<Rightarrow> ('d CudaBatchExecutor, 'c, 'p, 'o) SchedLoop \<Rightarrow> KvSegment list" where
  "holders cfg s = cx_anchor (sl_exec s) # map snd (sl_segs s)
     @ (case sl_cache s of None \<Rightarrow> []
        | Some c \<Rightarrow> concat (map (\<lambda>e. map (layer_run (cfg_pp cfg) (ev_base_page e) (ev_pages e)) [0..<lc_n_layer cfg])
            (map snd (lru c))))"

definition cache_use :: "('x, 'c, 'p, 'o) SchedLoop \<Rightarrow> nat" where
  "cache_use s = (case sl_cache s of None \<Rightarrow> 0 | Some c \<Rightarrow> cached_pages c)"

lemma concat_runs: "mset (concat (map f es)) = \<Sum>\<^sub># (image_mset (\<lambda>e. mset (f e)) (mset es))"
  by (induction es) auto

lemma mset_holders: "mset (holders cfg s) = add_mset (cx_anchor (sl_exec s)) (held (lc_n_layer cfg) (cfg_pp cfg) s)"
  by (simp add: holders_def held_def cache_runs_def all_runs_def entry_runs_def [abs_def] prefix_runs_def concat_runs
      multiset.map_comp comp_def split: option.split)

text \<open>When no page is shared, the pages in use are those of the runs.\<close>

lemma cover_sum:
  assumes "\<And>g. g \<in># M \<Longrightarrow> seg_end g \<le> T"
  shows "(\<Sum>i<T. seg_refs.cover M i) = sum_mset (image_mset n_pages M)"
  using assms
proof (induction M)
  case (add g M)
  have g: "seg_end g \<le> T" using add.prems by simp
  have "set (seg_pages g) = {..<T} \<inter> {i. i \<in> set (seg_pages g)}" using g by (auto simp: set_seg_pages)
  then have "(\<Sum>i<T. if i \<in> set (seg_pages g) then 1 else 0) = card (set (seg_pages g))"
    by (simp add: sum.If_cases)
  also have "\<dots> = n_pages g" by (simp add: set_seg_pages seg_end_def)
  finally have one: "(\<Sum>i<T. if i \<in> set (seg_pages g) then 1 else 0) = n_pages g" .
  have "(\<Sum>i<T. seg_refs.cover (add_mset g M) i)
      = (\<Sum>i<T. (if i \<in> set (seg_pages g) then 1 else 0) + seg_refs.cover M i)"
    by (rule sum.cong) auto
  also have "\<dots> = n_pages g + sum_mset (image_mset n_pages M)"
    using add by (simp add: sum.distrib one)
  finally show ?case by simp
qed simp

lemma owns_in_use:
  assumes own: "seg_refs.owns p M" and one: "\<And>i. seg_refs.cover M i \<le> 1"
  shows "in_use p = sum_mset (image_mset n_pages M)"
proof -
  have inv: "seg_inv p" and rc: "rc p = seg_refs.cover M" using own unfolding seg_refs.owns_def by simp_all
  have bound: "seg_end g \<le> sp_total p" if g: "g \<in># M" "n_pages g \<noteq> 0" for g
  proof -
    have "seg_end g - 1 \<in> set (seg_pages g)" using g(2) by (auto simp: set_seg_pages seg_end_def)
    then have "0 < rc p (seg_end g - 1)" using seg_refs.cover_member_pos [OF g(1)] rc by simp
    from seg_refs.rc_cap [OF inv this] show ?thesis using g(2) by (simp add: seg_end_def)
  qed
  let ?N = "filter_mset (\<lambda>g. n_pages g \<noteq> 0) M"
  have cov: "seg_refs.cover ?N i = seg_refs.cover M i" for i
    unfolding seg_refs.cover_def filter_filter_mset
    by (rule arg_cong [where f = size], rule filter_mset_cong) (auto simp: set_seg_pages seg_end_def)
  have sumN: "sum_mset (image_mset n_pages ?N) = sum_mset (image_mset n_pages M)" by (induction M) auto
  have "in_use p = card {i. 0 < rc p i}" by (rule in_use_card)
  also have "\<dots> = card {i \<in> {..<sp_total p}. 0 < rc p i}"
    using seg_refs.rc_cap [OF inv] by (auto intro: arg_cong [where f = card])
  also have "\<dots> = (\<Sum>i\<in>{..<sp_total p}. if 0 < rc p i then 1 else 0)" by (simp add: sum.If_cases Int_def)
  also have "\<dots> = (\<Sum>i\<in>{..<sp_total p}. seg_refs.cover ?N i)"
  proof (rule sum.cong [OF refl])
    fix i show "(if 0 < rc p i then 1 else 0) = seg_refs.cover ?N i"
      using one [of i] unfolding cov rc by (cases "seg_refs.cover M i") auto
  qed
  also have "\<dots> = sum_mset (image_mset n_pages M)"
    using cover_sum [of ?N "sp_total p"] bound sumN by simp
  finally show ?thesis .
qed

lemma runs_pages: "sum_mset (image_mset n_pages (prefix_runs nl pp b k)) = nl * k"
proof -
  have "image_mset n_pages (prefix_runs nl pp b k) = mset (map (\<lambda>_. k) [0..<nl])"
    by (simp add: prefix_runs_def layer_run_def multiset.map_comp comp_def)
  then have "sum_mset (image_mset n_pages (prefix_runs nl pp b k)) = sum_list (map (\<lambda>_. k) [0..<nl])"
    by (simp only: sum_mset_sum_list)
  then show ?thesis by (simp add: sum_list_triv)
qed

lemma all_runs_pages:
  "sum_mset (image_mset n_pages (all_runs nl pp (mset es))) = nl * sum_list (map ev_pages es)"
  by (induction es) (simp_all add: entry_runs_def runs_pages algebra_simps)

lemma held_pages:
  assumes "table_inv cfg n 0 s" "2 * lc_prefix_cache_pages cfg \<le> u64_max" "sorted_wrt (<) (map fst (sl_segs s))"
  shows "sum_mset (image_mset n_pages (held nl pp s)) = window_pages cfg * length (sl_segs s) + nl * cache_use s"
proof -
  have "n_pages (snd x) = window_pages cfg" if x: "x \<in> set (sl_segs s)" for x
  proof -
    have "map_of (sl_segs s) (fst x) = Some (snd x)"
      using x assms(3) by (auto intro!: map_of_is_SomeI simp: strict_sorted_iff)
    moreover then obtain r where "map_of (sl_reqs s) (fst x) = Some r"
      using table_invD(2) [OF assms(1), of "fst x"] by (auto simp: req_view_def entry_ok_def split: option.splits)
    ultimately show ?thesis using entry_ok_state(9) [OF entryD [OF assms(1)]] by blast
  qed
  then have "map (n_pages \<circ> snd) (sl_segs s) = map (\<lambda>_. window_pages cfg) (sl_segs s)" by simp
  then have "sum_list (map (n_pages \<circ> snd) (sl_segs s)) = window_pages cfg * length (sl_segs s)"
    by (simp only: sum_list_triv) simp
  then have segs: "sum_mset (image_mset n_pages (mset (map snd (sl_segs s)))) = window_pages cfg * length (sl_segs s)"
    by (metis list.map_comp mset_map sum_mset_sum_list)
  have "sum_mset (image_mset n_pages (cache_runs nl pp (sl_cache s))) = nl * cache_use s"
  proof (cases "sl_cache s")
    case (Some c)
    have "queue_pages (lru c) = cached_pages c"
      using reach_facts(2) [OF table_invD(8) [OF assms(1) Some] assms(2)] by simp
    then show ?thesis
      using all_runs_pages [of nl pp "map snd (lru c)"] by (simp add: Some cache_runs_def cache_use_def queue_pages_def comp_def)
  qed (simp add: cache_runs_def cache_use_def)
  then show ?thesis using segs by (simp add: held_def)
qed

text \<open>What a good state knows of the pool.\<close>

lemma good_pages:
  assumes fits: "env_fits (cuda_executor dev) (lc_n_layer cfg) (cfg_pp cfg) env" and c: "cfg = env_cfg env"
    and an: "n_pages an = window_pages cfg"
    and good: "cuda.loop_good dev (lc_n_layer cfg) (cfg_pp cfg) an (lc_kv_pages cfg) env {#an#} n t"
  shows "sp_assert_conserved (cx_pool (sl_exec t))" "sp_total (cx_pool (sl_exec t)) = lc_kv_pages cfg" "cx_anchor (sl_exec t) = an"
    "in_use (cx_pool (sl_exec t)) = window_pages cfg * (1 + length (sl_segs t)) + lc_n_layer cfg * cache_use t"
    "i < lc_kv_pages cfg \<Longrightarrow> sp_refs (cx_pool (sl_exec t)) ! i = length (filter (\<lambda>g. i \<in> set (seg_pages g)) (holders cfg t))"
    "seg_inv (cx_pool (sl_exec t))"
proof -
  let ?p = "cx_pool (sl_exec t)"
  have tab: "table_inv cfg n 0 t" and own: "cuda_owns dev (lc_n_layer cfg) (cfg_pp cfg) an (lc_kv_pages cfg) (sl_exec t)
      ({#an#} + held (lc_n_layer cfg) (cfg_pp cfg) t)"
    using good c by (simp_all add: cuda.loop_good_def cuda.loop_inv_def)
  show an': "cx_anchor (sl_exec t) = an" and tot: "sp_total ?p = lc_kv_pages cfg"
    using cuda_ownsD(8,9) [OF own] by simp_all
  have own': "seg_refs.owns ?p (mset (holders cfg t))" and one: "seg_refs.cover (mset (holders cfg t)) i \<le> 1" for i
    using cuda_ownsD(6,7) [OF own] by (simp_all add: mset_holders an')
  show inv: "seg_inv ?p" using own' unfolding seg_refs.owns_def by simp
  have rc: "rc ?p i = seg_refs.cover (mset (holders cfg t)) i" for i using own' unfolding seg_refs.owns_def by simp
  have cov: "seg_refs.cover (mset xs) i = length (filter (\<lambda>g. i \<in> set (seg_pages g)) xs)" for xs i
    unfolding seg_refs.cover_def by (simp flip: mset_filter)
  show "sp_refs ?p ! i = length (filter (\<lambda>g. i \<in> set (seg_pages g)) (holders cfg t))" if "i < lc_kv_pages cfg"
  proof -
    have "rc ?p i = sp_refs ?p ! i" using that inv tot by (simp add: rc_def seg_inv_def)
    then show ?thesis using rc [of i] by (simp only: cov)
  qed
  show "sp_assert_conserved ?p" unfolding assert_conserved_iff [OF inv] rc using one by blast
  have cfg: "cfg_ok cfg" using env_fitsD(1) [OF fits] c by simp
  have "sorted_wrt (<) (map fst (sl_segs t))" using table_invD(1) [OF tab] by (simp add: ordered_def)
  from held_pages [OF tab cfg_okD(8) [OF cfg] this, of "lc_n_layer cfg" "cfg_pp cfg"]
  show "in_use ?p = window_pages cfg * (1 + length (sl_segs t)) + lc_n_layer cfg * cache_use t"
    using owns_in_use [OF own' one] an by (simp add: mset_holders an')
qed

end
