(* ===== verification/Sched_Stall.thy ===== *)
theory Sched_Stall
  imports Sched_Pages
begin

text \<open>
  What the event loop never undoes: the cursors of requests that have ended stay in its table, and
  it counts them as tokens in the pool. Runs of the loop that dispatch nothing.
\<close>

section \<open>What an operation leaves alone\<close>

text \<open>
  \<open>calm s t\<close>: between \<open>s\<close> and \<open>t\<close> no token was dispatched, ended requests stayed as they were, and
  no request began to decode.
\<close>

definition calm :: "('x, 'c, 'p, 'o) SchedLoop \<Rightarrow> ('x, 'c, 'p, 'o) SchedLoop \<Rightarrow> bool" where
  "calm s t \<longleftrightarrow> sl_dispatched t = sl_dispatched s \<and> set (sl_decoding t) \<subseteq> set (sl_decoding s)
     \<and> (\<forall>i r. map_of (sl_reqs s) i = Some r \<longrightarrow> is_terminal r \<longrightarrow> map_of (sl_reqs t) i = Some r)"

lemma calm_refl [simp]: "calm s s"
  by (simp add: calm_def)

lemma calm_trans: "calm s t \<Longrightarrow> calm t u \<Longrightarrow> calm s u"
  by (auto simp: calm_def)

lemma calm_send: "calm s t \<Longrightarrow> calm s (fst (blocking_send env tx f t))"
  by (simp add: calm_def)

lemma calm_upd [simp]:
  "calm s (t\<lparr>sl_trace := tr\<rparr>) = calm s t" "calm s (t\<lparr>sl_exec := x\<rparr>) = calm s t"
  "calm s (t\<lparr>sl_returned := k\<rparr>) = calm s t" "calm s (t\<lparr>sl_estimates := es\<rparr>) = calm s t"
  "calm s (t\<lparr>sl_segs := sg\<rparr>) = calm s t" "calm s (t\<lparr>sl_waiting := w\<rparr>) = calm s t"
  "calm s (t\<lparr>sl_token_ids := tk\<rparr>) = calm s t" "calm s (t\<lparr>sl_meta := m\<rparr>) = calm s t"
  "calm s (t\<lparr>sl_arrival_seq := a\<rparr>) = calm s t" "calm s (t\<lparr>sl_first_chunk_sum := b\<rparr>) = calm s t"
  "calm s (t\<lparr>sl_step := c\<rparr>) = calm s t"
  by (simp_all add: calm_def)

lemma calm_trace: "loop_trace i ev t = Some u \<Longrightarrow> calm s u = calm s t"
  by (auto simp: loop_trace_def bind_eq_Some_conv)

lemma calm_free: "free_held env i t = Some u \<Longrightarrow> calm s u = calm s t"
  by (auto simp: free_held_def bind_eq_Some_conv split: option.splits)

lemma calm_set: "map_of (sl_reqs t) i = Some r \<Longrightarrow> \<not> is_terminal r \<Longrightarrow> calm s t \<Longrightarrow> calm s (set_req i r' t)"
  unfolding calm_def set_req_def by (auto; metis option.inject)

lemma calm_new: "map_of (sl_reqs t) i = None \<Longrightarrow> calm s t \<Longrightarrow> calm s (set_req i r' t)"
  unfolding calm_def set_req_def by (auto; metis option.distinct(1))

lemma calm_leave: "calm s t \<Longrightarrow> calm s (leave_decoding i t)" "calm s t \<Longrightarrow> calm s (leave_waiting i t)"
  "calm s t \<Longrightarrow> calm s (drop_single env i t)" "calm s t \<Longrightarrow> calm s (forget_req i t)"
  by (auto simp: calm_def leave_decoding_def leave_waiting_def drop_single_def forget_req_def Let_def)

lemma calm_abort:
  assumes "request_abort env i f s = Some t"
  shows "calm s t"
proof -
  obtain r where r: "map_of (sl_reqs s) i = Some r" using assms by (auto simp: request_abort_def bind_eq_Some_conv)
  show ?thesis
  proof (cases "is_terminal r")
    case True
    then show ?thesis using assms r by (simp add: request_abort_def)
  next
    case False
    define s1 where "s1 = (case f of None \<Rightarrow> s | Some msg \<Rightarrow> (case map_of (sl_meta s) i of None \<Rightarrow> s
      | Some m \<Rightarrow> fst (blocking_send env (rm_tx m) (ErrorFrame msg) s)))"
    have s1: "calm s s1" "map_of (sl_reqs s1) i = Some r"
      using r by (simp_all add: s1_def calm_send split: option.split)
    obtain u v where u: "loop_trace i AbortedEv (set_req i (fst (abort r)) s1) = Some u"
      "free_held env i (u\<lparr>sl_returned := sl_returned u + device_len r, sl_estimates := bt_remove i (sl_estimates u)\<rparr>) = Some v"
      "t = forget_req i (drop_single env i v)"
      using assms r False by (auto simp: request_abort_def bind_eq_Some_conv Let_def s1_def)
    have "calm s u" using calm_set [OF s1(2) False s1(1)] calm_trace [OF u(1)] by simp
    then have "calm s v" using calm_free [OF u(2)] by simp
    then show ?thesis unfolding u(3) by (intro calm_leave)
  qed
qed

lemma calm_preempt:
  assumes "loop_preempt env i s = Some t"
  shows "calm s t" "sl_decoding t = filter (\<lambda>x. x \<noteq> i) (sl_decoding s)"
proof -
  obtain r r' where r: "map_of (sl_reqs s) i = Some r" "preempt r = Ok r'"
    using assms by (auto simp: loop_preempt_def bind_eq_Some_conv split: res.splits)
  obtain u v where u: "loop_trace i PreemptedEv ((set_req i r' s)\<lparr>sl_returned := sl_returned s + device_len r\<rparr>) = Some u"
    "free_held env i ((leave_decoding i u)\<lparr>sl_waiting := i # sl_waiting (leave_decoding i u)\<rparr>) = Some v" "t = drop_single env i v"
    using assms r by (auto simp: loop_preempt_def bind_eq_Some_conv Let_def)
  have "\<not> is_terminal r" using r(2) by (auto simp: preempt_def is_terminal_def split: if_splits)
  then have "calm s u" using calm_set [OF r(1) _ calm_refl] calm_trace [OF u(1)] by simp
  then have "calm s v" using calm_free [OF u(2)] calm_leave(1) by simp
  then show "calm s t" unfolding u(3) by (intro calm_leave)
  have "sl_decoding u = sl_decoding s" using u(1) by (auto simp: loop_trace_def bind_eq_Some_conv set_req_def)
  moreover have "sl_decoding v = filter (\<lambda>x. x \<noteq> i) (sl_decoding u)"
    using u(2) by (auto simp: free_held_def bind_eq_Some_conv leave_decoding_def split: option.splits)
  ultimately show "sl_decoding t = filter (\<lambda>x. x \<noteq> i) (sl_decoding s)" by (simp add: u(3) drop_single_def)
qed

lemma calm_preempts:
  "fold_opt (loop_preempt env) xs s = Some t \<Longrightarrow> calm s t \<and> sl_decoding t = filter (\<lambda>x. x \<notin> set xs) (sl_decoding s)"
proof (induction xs arbitrary: s)
  case (Cons i xs)
  then obtain u where u: "loop_preempt env i s = Some u" "fold_opt (loop_preempt env) xs u = Some t"
    by (auto simp: bind_eq_Some_conv)
  from Cons.IH [OF u(2)] calm_preempt [OF u(1)] calm_trans show ?case
    by (auto simp: conj_commute intro: filter_cong)
qed simp

lemma calm_admit:
  assumes "loop_admit_one cfg i (s, el) = Some (t, el')"
  shows "sl_reqs t = sl_reqs s \<and> sl_decoding t = sl_decoding s \<and> sl_dispatched t = sl_dispatched s"
  using assms by (auto simp: loop_admit_one_def bind_eq_Some_conv loop_trace_def Let_def split: AdmissionVerdict.splits)
    (metis AdmissionVerdict.exhaust)+

lemma calm_admits:
  "fold_opt (loop_admit_one cfg) xs (s, el) = Some (t, el') \<Longrightarrow>
    sl_reqs t = sl_reqs s \<and> sl_decoding t = sl_decoding s \<and> sl_dispatched t = sl_dispatched s"
proof (induction xs arbitrary: s el)
  case (Cons i xs)
  then obtain u el1 where u: "loop_admit_one cfg i (s, el) = Some (u, el1)" "fold_opt (loop_admit_one cfg) xs (u, el1) = Some (t, el')"
    by (auto simp: bind_eq_Some_conv)
  from Cons.IH [OF u(2)] calm_admit [OF u(1)] show ?case by simp
qed simp

text \<open>A new request takes an id of its own, so it replaces no other.\<close>

lemma calm_cmd:
  assumes "handle_cmd env c s = Some (t, halt)"
    and fresh: "map_of (sl_reqs s) (derive (lc_base_seed (env_cfg env)) (sl_arrival_seq s)) = None"
  shows "calm s t"
proof (cases c)
  case (Submit q)
  then have sub: "loop_submit env q s = Some t" using assms(1) by simp
  show ?thesis
  proof (cases "sr_ids q = []")
    case True
    then show ?thesis using sub calm_send [OF calm_refl] by (auto simp: loop_submit_def)
  next
    case False
    let ?i = "derive (lc_base_seed (env_cfg env)) (sl_arrival_seq s)"
    let ?r = "req_new ?i (lc_base_seed (env_cfg env)) (sl_arrival_seq s) (sr_stop q) (sr_eos q)"
    obtain u where u: "loop_trace ?i ArrivedEv (set_req ?i ?r (s\<lparr>sl_arrival_seq := sl_arrival_seq s + 1\<rparr>)) = Some u"
      using sub False by (auto simp: loop_submit_def bind_eq_Some_conv Let_def)
    have "calm s (set_req ?i ?r (s\<lparr>sl_arrival_seq := sl_arrival_seq s + 1\<rparr>))"
      by (rule calm_new) (simp_all add: fresh)
    then have "calm s u" using calm_trace [OF u] by simp
    then show ?thesis using sub False calm_send
      by (auto simp: loop_submit_def u Let_def split: sum.splits)
  qed
next
  case (AbortCmd tk)
  then show ?thesis using assms(1) calm_abort by (auto split: option.splits)
qed (use assms(1) in simp)

section \<open>Runs that dispatch nothing\<close>

text \<open>
  A condition that keeps a step from dispatching, and that calm operations keep, stalls the loop
  for ever; without anything to decode it cannot panic either.
\<close>

lemma drain_calm:
  assumes fits: "env_fits (cuda_executor dev) nl pp env"
  shows "cuda.loop_good dev nl pp an kp env M n s \<Longrightarrow> n + length cs \<le> 2 ^ 64 \<Longrightarrow> \<forall>c\<in>set cs. cmd_fits (env_cfg env) c \<Longrightarrow>
    drain_cmds env cs s = Some (t, halt) \<Longrightarrow>
    calm s t \<and> (\<exists>n'\<le>n + length cs. cuda.loop_good dev nl pp an kp env M n' t)"
proof (induction cs arbitrary: n s)
  case (Cons c cs)
  have c: "n < 2 ^ 64" "cmd_fits (env_cfg env) c" using Cons.prems(2,3) by simp_all
  obtain u h where u: "handle_cmd env c s = Some (u, h)" "if h then Some (u, True) = Some (t, halt) else drain_cmds env cs u = Some (t, halt)"
    using Cons.prems(4) by (auto simp: bind_eq_Some_conv split: if_splits)
  have tab: "table_inv (env_cfg env) n 0 s" using Cons.prems(1) by (simp add: cuda.loop_good_def cuda.loop_inv_def)
  have fresh: "map_of (sl_reqs s) (derive (lc_base_seed (env_cfg env)) (sl_arrival_seq s)) = None"
    using table_fresh [OF tab c(1)] table_invD(4) [OF tab] by simp
  have cu: "calm s u" by (rule calm_cmd [OF u(1) fresh])
  obtain n' where n': "n' \<le> Suc n" "cuda.loop_good dev nl pp an kp env M n' u"
    using returnsD [OF cuda.cmd_returns [OF fits Cons.prems(1) c]] u(1) by auto
  show ?case
  proof (cases h)
    case True
    then have "n' \<le> n + length (c # cs)" "t = u" using n'(1) u(2) by simp_all
    then show ?thesis using cu n'(2) by blast
  next
    case False
    then have "calm u t \<and> (\<exists>k\<le>n' + length cs. cuda.loop_good dev nl pp an kp env M k t)"
      using Cons.IH [OF n'(2)] u(2) n'(1) Cons.prems(2,3) by simp
    then obtain k where k: "calm u t" "k \<le> n' + length cs" "cuda.loop_good dev nl pp an kp env M k t" by blast
    have "k \<le> n + length (c # cs)" using k(2) n'(1) by simp
    then show ?thesis using calm_trans [OF cu k(1)] k(3) by blast
  qed
qed auto

lemma stalled_turn:
  assumes fits: "env_fits (cuda_executor dev) nl pp env"
    and keep: "\<And>s t. P s \<Longrightarrow> calm s t \<Longrightarrow> sorted_wrt (<) (map fst (sl_reqs s)) \<Longrightarrow>
      sorted_wrt (<) (map fst (sl_reqs t)) \<Longrightarrow> P t"
    and step: "\<And>s t. P s \<Longrightarrow> iterate env s = Some t \<Longrightarrow> calm s t"
    and P: "P s" and good: "cuda.loop_good dev nl pp an kp env M n s" and n: "n + length q \<le> 2 ^ 64"
    and q: "\<forall>c\<in>set q. cmd_fits (env_cfg env) c" and turn: "loop_turn env q s = Some (t, q', fin)"
  shows "calm s t \<and> P t"
proof -
  have srt: "sorted_wrt (<) (map fst (sl_reqs u))" if "cuda.loop_good dev nl pp an kp env M k u" for u k
    using that by (simp add: cuda.loop_good_def cuda.loop_inv_def table_inv_def ordered_def)
  have "\<exists>k. cuda.loop_good dev nl pp an kp env M k t"
    using returns_unlessD(1) [OF cuda.turn_returns [OF fits good n q] turn] by auto
  then have "sorted_wrt (<) (map fst (sl_reqs t))" using srt by blast
  moreover have "calm s t"
  proof (cases "loop_is_idle s")
    case True
    show ?thesis
    proof (cases q)
      case Nil
      then show ?thesis using turn True by (simp add: loop_turn_def)
    next
      case (Cons c cs)
      then have "drain_cmds env [c] s = Some (t, fin)"
        using turn True by (auto simp: loop_turn_def bind_eq_Some_conv)
      with drain_calm [OF fits good, of "[c]"] show ?thesis using n q Cons by simp
    qed
  next
    case False
    obtain u h where u: "drain_cmds env q s = Some (u, h)" "t = u \<or> iterate env u = Some t"
      using turn False by (auto simp: loop_turn_def bind_eq_Some_conv split: if_splits)
    note d = drain_calm [OF fits good n q u(1)]
    then have "P u" using keep [OF P] srt good by blast
    then show ?thesis using d u(2) step calm_trans by blast
  qed
  ultimately show ?thesis using keep [OF P] srt [OF good] by blast
qed

lemma stalled_run:
  assumes fits: "env_fits (cuda_executor dev) nl pp env"
    and keep: "\<And>s t. P s \<Longrightarrow> calm s t \<Longrightarrow> sorted_wrt (<) (map fst (sl_reqs s)) \<Longrightarrow>
      sorted_wrt (<) (map fst (sl_reqs t)) \<Longrightarrow> P t"
    and step: "\<And>s t. P s \<Longrightarrow> iterate env s = Some t \<Longrightarrow> calm s t"
  shows "P s \<Longrightarrow> cuda.loop_good dev nl pp an kp env M n s \<Longrightarrow>
    n + length q + sum_list (map length feeds) \<le> 2 ^ 64 \<Longrightarrow>
    \<forall>c\<in>set q \<union> \<Union> (set ` set feeds). cmd_fits (env_cfg env) c \<Longrightarrow>
    loop_run env feeds q s = Some (t, q', fin) \<Longrightarrow> calm s t"
proof (induction feeds arbitrary: n q s)
  case (Cons fd feeds)
  have q: "n + length (q @ fd) \<le> 2 ^ 64" "\<forall>c\<in>set (q @ fd). cmd_fits (env_cfg env) c" using Cons.prems(3,4) by auto
  obtain u r f where u: "loop_turn env (q @ fd) s = Some (u, r, f)"
    "if f then Some (u, r, True) = Some (t, q', fin) else loop_run env feeds r u = Some (t, q', fin)"
    using Cons.prems(5) by (auto simp: bind_eq_Some_conv split: if_splits)
  have cu: "calm s u \<and> P u" 
    by (rule stalled_turn [where P = P, OF fits _ _ Cons.prems(1,2) q u(1)])
      (erule keep, assumption+, erule step, assumption)
  obtain k where k: "k + length r \<le> n + length (q @ fd)" "cuda.loop_good dev nl pp an kp env M k u" "set r \<subseteq> set (q @ fd)"
    using returns_unlessD(1) [OF cuda.turn_returns [OF fits Cons.prems(2) q] u(1)] by auto
  show ?case
  proof (cases f)
    case True
    then show ?thesis using u(2) cu by simp
  next
    case False
    have "calm u t"
      by (rule Cons.IH [OF conjunct2 [OF cu] k(2)]) (use False u(2) k(1,3) Cons.prems(3,4) in auto)
    then show ?thesis using cu calm_trans by blast
  qed
qed simp

text \<open>The composition of two runs.\<close>

lemma run_append:
  "loop_run env (fs @ gs) q s = Option.bind (loop_run env fs q s) (\<lambda>(t, r, fin).
     if fin then Some (t, r, True) else loop_run env gs r t)"
proof (induction fs arbitrary: q s)
  case (Cons f fs)
  then show ?case by (cases "loop_turn env (q @ f) s") auto
qed simp

section \<open>The step without a budget\<close>

lemma schedule_parts:
  assumes "admit_schedule env s = Some t" and cfg: "cfg_ok (env_cfg env)"
  obtains u el ds v where
    "fold_opt (loop_admit_one (env_cfg env)) (sl_waiting s) (s\<lparr>sl_first_chunk_sum := 0\<rparr>, []) = Some (u, el)"
    "those (map (loop_decoding_req u) (sl_decoding u)) = Some ds"
    "fold_opt (loop_preempt env) (sel_preempted (select_batch el ds
       ((lc_kv_pages (env_cfg env) - window_pages (env_cfg env)) * 32 - loop_kv_usage u) 0 Fcfc)) u = Some v"
    "fold_opt (loop_prefill_one env) (sel_prefill (select_batch el ds
       ((lc_kv_pages (env_cfg env) - window_pages (env_cfg env)) * 32 - loop_kv_usage u) 0 Fcfc)) v = Some t"
  using assms(1) pool_tokens_ok [OF cfg] by (auto simp: admit_schedule_def bind_eq_Some_conv Let_def)

lemma decoding_ids: "those (map (loop_decoding_req s) is) = Some ds \<Longrightarrow> map d_id ds = is"
proof (induction "is" arbitrary: ds)
  case (Cons i "is")
  then show ?case by (auto simp: loop_decoding_req_def bind_eq_Some_conv split: option.splits)
qed simp

text \<open>
  When nothing is selected for prefill and every decoding request is a victim, the scheduling is calm
  and leaves no request to decode.
\<close>

lemma schedule_calm:
  assumes w: "admit_schedule env s = Some w" and cfg: "cfg_ok (env_cfg env)"
    and none: "\<And>u el ds. fold_opt (loop_admit_one (env_cfg env)) (sl_waiting s) (s\<lparr>sl_first_chunk_sum := 0\<rparr>, []) = Some (u, el) \<Longrightarrow>
      those (map (loop_decoding_req u) (sl_decoding u)) = Some ds \<Longrightarrow>
      (let sel = select_batch el ds ((lc_kv_pages (env_cfg env) - window_pages (env_cfg env)) * 32 - loop_kv_usage u) 0 Fcfc
       in sel_prefill sel = [] \<and> set (sel_preempted sel) = set (map d_id ds))"
  shows "calm s w \<and> sl_decoding w = []"
proof -
  obtain u el ds v where p: "fold_opt (loop_admit_one (env_cfg env)) (sl_waiting s) (s\<lparr>sl_first_chunk_sum := 0\<rparr>, []) = Some (u, el)"
    "those (map (loop_decoding_req u) (sl_decoding u)) = Some ds"
    "fold_opt (loop_preempt env) (sel_preempted (select_batch el ds
       ((lc_kv_pages (env_cfg env) - window_pages (env_cfg env)) * 32 - loop_kv_usage u) 0 Fcfc)) u = Some v"
    "fold_opt (loop_prefill_one env) (sel_prefill (select_batch el ds
       ((lc_kv_pages (env_cfg env) - window_pages (env_cfg env)) * 32 - loop_kv_usage u) 0 Fcfc)) v = Some w"
    using schedule_parts [OF w cfg] .
  note nn = none [OF p(1,2), unfolded Let_def]
  have su: "calm s u" using calm_admits [OF p(1)] by (simp add: calm_def)
  have "sl_decoding v = filter (\<lambda>x. x \<notin> set (sl_decoding u)) (sl_decoding u)"
    using calm_preempts [OF p(3)] nn decoding_ids [OF p(2)] by simp
  then have dv: "sl_decoding v = []" "calm u v" using calm_preempts [OF p(3)] by (simp_all add: filter_empty_conv)
  have "w = v" using p(4) nn by simp
  then show ?thesis using su dv calm_trans by blast
qed

lemma iterate_calm:
  assumes "iterate env s = Some t" and "\<And>w. admit_schedule env s = Some w \<Longrightarrow> calm s w \<and> sl_decoding w = []"
  shows "calm s t"
proof -
  obtain w x where w: "admit_schedule env s = Some w" "loop_decode_step env w = Some x" "t = x\<lparr>sl_step := sl_step x + 1\<rparr>"
    using assms(1) by (auto simp: iterate_def bind_eq_Some_conv)
  note cw = assms(2) [OF w(1)]
  then have "x = w\<lparr>sl_decoding := []\<rparr>" using w(2) by (simp add: loop_decode_step_def Let_def)
  then have "calm w t" using w(3) cw by (simp add: calm_def)
  then show ?thesis using cw calm_trans by blast
qed

text \<open>A stalled loop decodes nothing, so it cuts no text, and returns.\<close>

lemma stalled_returns:
  assumes fits: "env_fits (cuda_executor dev) nl pp env"
    and keep: "\<And>s t. P s \<Longrightarrow> calm s t \<Longrightarrow> sorted_wrt (<) (map fst (sl_reqs s)) \<Longrightarrow>
      sorted_wrt (<) (map fst (sl_reqs t)) \<Longrightarrow> P t"
    and step: "\<And>s w. P s \<Longrightarrow> admit_schedule env s = Some w \<Longrightarrow> calm s w \<and> sl_decoding w = []"
    and P: "P s" and good: "cuda.loop_good dev nl pp an kp env M n s"
    and n: "n + length q + sum_list (map length feeds) \<le> 2 ^ 64"
    and q: "\<forall>c\<in>set q \<union> \<Union> (set ` set feeds). cmd_fits (env_cfg env) c"
  shows "\<exists>u q' fin. loop_run env feeds q s = Some (u, q', fin) \<and> calm s u"
proof -
  have srt: "sorted_wrt (<) (map fst (sl_reqs u))" if "cuda.loop_good dev nl pp an kp env M k u" for u k
    using that by (simp add: cuda.loop_good_def cuda.loop_inv_def table_inv_def ordered_def)
  have calm: "calm s t" if run: "loop_run env fs q s = Some (t, r, fin)"
    and fs: "n + length q + sum_list (map length fs) \<le> 2 ^ 64" "\<forall>c\<in>set q \<union> \<Union> (set ` set fs). cmd_fits (env_cfg env) c"
    for t r fin fs
  proof (rule stalled_run [where P = P, OF fits _ _ P good fs run])
    fix v w assume "P v" "iterate env v = Some w"
    then show "calm v w" using iterate_calm step by blast
  qed (erule keep, assumption+)
  have "\<not> run_cuts env feeds q s"
  proof
    assume "run_cuts env feeds q s"
    then obtain fs feed later v r where f: "feeds = fs @ feed # later" "loop_run env fs q s = Some (v, r, False)"
      "turn_cuts env (r @ feed) v" by (auto simp: run_cuts_def)
    have fs: "n + length q + sum_list (map length fs) \<le> 2 ^ 64" "\<forall>c\<in>set q \<union> \<Union> (set ` set fs). cmd_fits (env_cfg env) c"
      using n q f(1) by auto
    obtain k where k: "k + length r \<le> n + length q + sum_list (map length fs)" "cuda.loop_good dev nl pp an kp env M k v"
      "set r \<subseteq> set q \<union> \<Union> (set ` set fs)"
      using returns_unlessD(1) [OF cuda.run_returns [OF fits good fs] f(2)] by auto
    have rf: "k + length (r @ feed) \<le> 2 ^ 64" "\<forall>c\<in>set (r @ feed). cmd_fits (env_cfg env) c"
      using k(1,3) n q f(1) by auto
    have Pv: "P v" using keep [OF P calm [OF f(2) fs] srt [OF good] srt [OF k(2)]] .
    obtain u w where u: "drain_cmds env (r @ feed) v = Some (u, False)" "admit_schedule env u = Some w" "cut_token env w"
      using f(3) by (auto simp: turn_cuts_def)
    note d = drain_calm [OF fits k(2) rf u(1)]
    then have "P u" using keep [OF Pv] srt [OF k(2)] srt by blast
    then show False using step [OF _ u(2)] u(3) by (auto simp: cut_token_def)
  qed
  then obtain u q' fin where u: "loop_run env feeds q s = Some (u, q', fin)"
    using returns_unlessD(2) [OF cuda.run_returns [OF fits good n q]] by (cases "loop_run env feeds q s") auto
  then show ?thesis using calm [OF u n q] by blast
qed

text \<open>The tokens of the requests that have ended.\<close>

definition spent :: "('x, 'c, 'p, 'o) SchedLoop \<Rightarrow> nat" where
  "spent s = sum_list (map (\<lambda>(i, r). if is_terminal r then device_len r else 0) (sl_reqs s))"

lemma sum_over_dom:
  "distinct (map fst xs) \<Longrightarrow> sum_list (map (\<lambda>(i, r). f r) xs) = (\<Sum>i\<in>fst ` set xs. f (the (map_of xs i)))"
proof (induction xs)
  case (Cons x xs)
  obtain k v where x: "x = (k, v)" by (cases x)
  have "(\<Sum>i\<in>fst ` set xs. f (the (map_of (x # xs) i))) = (\<Sum>i\<in>fst ` set xs. f (the (map_of xs i)))"
  proof (rule sum.cong [OF refl])
    fix i assume "i \<in> fst ` set xs"
    then have "i \<noteq> k" using Cons.prems by (auto simp: x)
    then show "f (the (map_of (x # xs) i)) = f (the (map_of xs i))" by (simp add: x)
  qed
  then show ?case using Cons by (simp add: x)
qed simp

lemma spent_le_usage: "spent s \<le> loop_kv_usage s"
  unfolding spent_def loop_kv_usage_def by (rule sum_list_mono) auto

lemma spent_mono:
  assumes "calm s t" "sorted_wrt (<) (map fst (sl_reqs s))" "sorted_wrt (<) (map fst (sl_reqs t))"
  shows "spent s \<le> spent t"
proof -
  let ?f = "\<lambda>r. if is_terminal r then device_len r else 0"
  let ?T = "{i \<in> fst ` set (sl_reqs s). is_terminal (the (map_of (sl_reqs s) i))}"
  have keep: "map_of (sl_reqs t) i = map_of (sl_reqs s) i" "i \<in> fst ` set (sl_reqs t)" if i: "i \<in> ?T" for i
  proof -
    obtain r where r: "map_of (sl_reqs s) i = Some r" "is_terminal r"
      using i by (auto dest!: weak_map_of_SomeI)
    then have rt: "map_of (sl_reqs t) i = Some r" using assms(1) by (simp add: calm_def)
    then show "map_of (sl_reqs t) i = map_of (sl_reqs s) i" using r(1) by simp
    show "i \<in> fst ` set (sl_reqs t)" using map_of_SomeD [OF rt] by (rule rev_image_eqI) simp
  qed
  have "spent s = (\<Sum>i\<in>fst ` set (sl_reqs s). ?f (the (map_of (sl_reqs s) i)))"
    unfolding spent_def using assms(2) sum_over_dom [of "sl_reqs s" ?f] by (simp add: strict_sorted_iff)
  also have "\<dots> = (\<Sum>i\<in>?T. ?f (the (map_of (sl_reqs s) i)))"
    by (rule sum.mono_neutral_right) auto
  also have "\<dots> = (\<Sum>i\<in>?T. ?f (the (map_of (sl_reqs t) i)))"
    by (rule sum.cong) (simp_all add: keep(1))
  also have "\<dots> \<le> (\<Sum>i\<in>fst ` set (sl_reqs t). ?f (the (map_of (sl_reqs t) i)))"
    using keep(2) by (intro sum_mono2) auto
  also have "\<dots> = spent t"
    unfolding spent_def using assms(3) sum_over_dom [of "sl_reqs t" ?f] by (simp add: strict_sorted_iff)
  finally show ?thesis .
qed

section \<open>The two ways to stall\<close>

lemma run_parts:
  fixes env :: "('d CudaBatchExecutor, 'c, 'l, 'p, 'o) SchedEnv"
  assumes run: "run_of_loop dev env kh d dv (feeds @ later) s" and t: "loop_run env feeds [] s = Some (t, q, False)"
  shows "\<exists>n. cuda.loop_good dev (lc_n_layer (env_cfg env)) (cfg_pp (env_cfg env)) (cx_anchor (sl_exec s)) (lc_kv_pages (env_cfg env)) env
      {#cx_anchor (sl_exec s)#} n t \<and> n + length q + sum_list (map length later) \<le> 2 ^ 64
      \<and> (\<forall>c\<in>set q \<union> \<Union> (set ` set later). cmd_fits (env_cfg env) c)"
proof -
  let ?cfg = "env_cfg env"
  note g = run_good [OF run]
  have ok: "feeds_ok ?cfg (feeds @ later)" "run_of_loop dev env kh d dv feeds s"
    using run by (auto simp: run_of_loop_def feeds_ok_def)
  have fits: "env_fits (cuda_executor dev) (lc_n_layer ?cfg) (cfg_pp ?cfg) env" by (rule g(1))
  have len: "0 + length ([] :: 'p SchedCmd list) + sum_list (map length feeds) \<le> 2 ^ 64"
    "\<forall>c\<in>set ([] :: 'p SchedCmd list) \<union> \<Union> (set ` set feeds). cmd_fits ?cfg c"
    using ok(1) by (auto simp: feeds_ok_def list_all_iff)
  from returns_unlessD(1) [OF cuda.run_returns [OF fits run_good(4) [OF run] len] t]
  show ?thesis using ok(1) by (fastforce simp: feeds_ok_def list_all_iff)
qed

lemma starved_calm:
  assumes run: "run_of_loop dev env kh d dv (feeds @ later) s" and t: "loop_run env feeds [] s = Some (t, q, False)"
    and full: "pool_tokens (env_cfg env) = Some b" "b \<le> spent t"
  shows "\<exists>u q' fin. loop_run env later q t = Some (u, q', fin) \<and> calm t u"
proof -
  let ?cfg = "env_cfg env"
  obtain n where n: "cuda.loop_good dev (lc_n_layer ?cfg) (cfg_pp ?cfg) (cx_anchor (sl_exec s)) (lc_kv_pages ?cfg) env
      {#cx_anchor (sl_exec s)#} n t" "n + length q + sum_list (map length later) \<le> 2 ^ 64"
      "\<forall>c\<in>set q \<union> \<Union> (set ` set later). cmd_fits ?cfg c"
    using run_parts [OF run t] by blast
  have cfg: "cfg_ok ?cfg" using run by (simp add: run_of_loop_def env_ok_def)
  have b: "b = (lc_kv_pages ?cfg - window_pages ?cfg) * 32" using full(1) pool_tokens_ok [OF cfg] by simp
  have step: "calm v w \<and> sl_decoding w = []" if v: "b \<le> spent v" and it: "admit_schedule env v = Some w" for v w
  proof (rule schedule_calm [OF it cfg])
    fix x el ds assume x: "fold_opt (loop_admit_one ?cfg) (sl_waiting v) (v\<lparr>sl_first_chunk_sum := 0\<rparr>, []) = Some (x, el)"
    have "loop_kv_usage x = loop_kv_usage v" using calm_admits [OF x] by (simp add: loop_kv_usage_def)
    then have "(lc_kv_pages ?cfg - window_pages ?cfg) * 32 - loop_kv_usage x = 0"
      using v spent_le_usage [of v] b by simp
    then show "let sel = select_batch el ds ((lc_kv_pages ?cfg - window_pages ?cfg) * 32 - loop_kv_usage x) 0 Fcfc
       in sel_prefill sel = [] \<and> set (sel_preempted sel) = set (map d_id ds)"
      by (simp add: select_batch_no_budget Let_def)
  qed
  show ?thesis
    by (rule stalled_returns [where P = "\<lambda>v. b \<le> spent v", OF run_good(1) [OF run] _ step full(2) n])
      (use spent_mono in \<open>blast intro: le_trans\<close>)
qed

lemma denied:
  assumes "admit_cap cfg = Some 0" "loop_admit_one cfg i (s, el) = Some (t, el')"
  shows "el' = el"
proof -
  have "working_set i est s \<noteq> []" for est by (cases "sl_estimates s") (auto simp: working_set_def)
  moreover have "running_max_req_size ac = 0" if "admission_cfg cfg = Some ac" for ac
    using that assms(1) by (auto simp: admission_cfg_def bind_eq_Some_conv)
  ultimately show ?thesis using assms(2)
    by (auto simp: loop_admit_one_def bind_eq_Some_conv check_admission_def Let_def)
qed

lemma all_denied:
  "admit_cap cfg = Some 0 \<Longrightarrow> fold_opt (loop_admit_one cfg) xs (s, el) = Some (t, el') \<Longrightarrow> el' = el"
proof (induction xs arbitrary: s el)
  case (Cons i xs)
  obtain u el1 where u: "loop_admit_one cfg i (s, el) = Some (u, el1)" "fold_opt (loop_admit_one cfg) xs (u, el1) = Some (t, el')"
    using Cons.prems(2) by (auto simp: bind_eq_Some_conv)
  from denied [OF Cons.prems(1) u(1)] Cons.IH [OF Cons.prems(1) u(2)] show ?case by simp
qed simp

lemma small_calm:
  fixes env :: "('d CudaBatchExecutor, 'c, 'l, 'p, 'o) SchedEnv"
  assumes run: "run_of_loop dev env kh d dv feeds s" and small: "lc_kv_pages (env_cfg env) < 2 * window_pages (env_cfg env)"
  shows "\<exists>u q' fin. loop_run env feeds [] s = Some (u, q', fin) \<and> calm s u"
proof -
  let ?cfg = "env_cfg env"
  have cfg: "cfg_ok ?cfg" using run by (simp add: run_of_loop_def env_ok_def)
  have "(lc_kv_pages ?cfg - window_pages ?cfg) div window_pages ?cfg = 0" using small by (intro div_less) linarith
  then have cap: "admit_cap ?cfg = Some 0"
    using cfg_okD(4,9) [OF cfg] by (simp add: admit_cap_def chk_sub_def chk_div_def)
  have step: "calm v w \<and> sl_decoding w = []" if v: "sl_decoding v = []" and it: "admit_schedule env v = Some w" for v w
  proof (rule schedule_calm [OF it cfg])
    fix x el ds assume x: "fold_opt (loop_admit_one ?cfg) (sl_waiting v) (v\<lparr>sl_first_chunk_sum := 0\<rparr>, []) = Some (x, el)"
      and ds: "those (map (loop_decoding_req x) (sl_decoding x)) = Some ds"
    have "el = []" by (rule all_denied [OF cap x])
    moreover have "ds = []" using ds calm_admits [OF x] v by simp
    ultimately show "let sel = select_batch el ds ((lc_kv_pages ?cfg - window_pages ?cfg) * 32 - loop_kv_usage x) 0 Fcfc
       in sel_prefill sel = [] \<and> set (sel_preempted sel) = set (map d_id ds)"
      by (simp add: select_batch_def order_waiting_def order_victims_def Let_def)
  qed
  have "run_of_loop dev env kh d dv ([] @ feeds) s" using run by simp
  from run_parts [OF this, of s "[]"] obtain n where
    n: "cuda.loop_good dev (lc_n_layer ?cfg) (cfg_pp ?cfg) (cx_anchor (sl_exec s)) (lc_kv_pages ?cfg) env {#cx_anchor (sl_exec s)#} n s"
      "n + length ([] :: 'p SchedCmd list) + sum_list (map length feeds) \<le> 2 ^ 64" "\<forall>c\<in>set ([] :: 'p SchedCmd list) \<union> \<Union> (set ` set feeds). cmd_fits ?cfg c"
    by auto
  have none: "sl_decoding s = []" using run by (auto simp: run_of_loop_def started_def loop_new_def bind_eq_Some_conv)
  show ?thesis
    by (rule stalled_returns [where P = "\<lambda>v. sl_decoding v = []", OF run_good(1) [OF run] _ step none n]) (auto simp: calm_def)
qed

section \<open>The tables of a state\<close>

text \<open>What a request of each state holds.\<close>

fun request_ok :: "SchedLoopConfig \<Rightarrow> ('x, 'c, 'p, 'o) SchedLoop \<Rightarrow> u64 \<Rightarrow> Req \<Rightarrow> bool" where
  "request_ok cfg s i r =
     (let held = map_of (sl_segs s) i;
          free = (held = None \<and> i \<notin> set (sl_decoding s));
          window = (case held of Some seg \<Rightarrow> n_pages seg = window_pages cfg | None \<Rightarrow> False)
      in case rq_state r of
           Waiting \<Rightarrow> free \<and> device_len r = 0 \<and> cached_len r = 0
         | Preempted \<Rightarrow> free \<and> device_len r = 0 \<and> cached_len r = 0 \<and> i \<in> set (sl_waiting s)
         | Prefill \<Rightarrow> False
         | Chunked \<Rightarrow> window \<and> i \<in> set (sl_waiting s) \<and> i \<notin> set (sl_decoding s) \<and> device_len r = cached_len r
             \<and> cached_len r < prompt_len r \<and> cached_len r mod lc_block_len cfg = 0
         | Decode \<Rightarrow> window \<and> i \<notin> set (sl_waiting s) \<and> i \<in> set (sl_decoding s) \<and> device_len r = cached_len r
             \<and> prompt_len r \<le> cached_len r \<and> cached_len r \<le> prompt_len r + max_output r
             \<and> prompt_len r + max_output r \<le> lc_max_model_len cfg
         | _ \<Rightarrow> free \<and> i \<notin> set (sl_waiting s) \<and> map_of (sl_meta s) i = None)"

lemma tables_requests_ok:
  assumes cfg: "cfg_ok cfg" and tab: "table_inv cfg n 0 s" and st: "settled s"
  shows "list_all (\<lambda>(i, r). request_ok cfg s i r) (sl_reqs s)"
proof -
  have "request_ok cfg s i r" if x: "(i, r) \<in> set (sl_reqs s)" for i r
  proof -
    have r: "map_of (sl_reqs s) i = Some r"
      using x table_invD(1) [OF tab] by (auto intro!: map_of_is_SomeI simp: ordered_def strict_sorted_iff)
    note ent = entryD [OF tab r]
    have sg: "(case map_of (sl_segs s) i of Some seg \<Rightarrow> n_pages seg = window_pages cfg | None \<Rightarrow> False)"
      if "map_of (sl_segs s) i \<noteq> None"
      using that entry_ok_state(9) [OF ent] by (auto split: option.split)
    have mm: "prompt_len r + max_output r \<le> lc_max_model_len cfg" if d: "rq_state r = Decode"
    proof -
      obtain m where m: "map_of (sl_meta s) i = Some m" using entry_ok_state(5) [OF ent d] by blast
      show ?thesis using entry_ok_state(7,8) [OF ent m] d by (simp add: lmeta_ok_def)
    qed
    show ?thesis
    proof (cases "rq_state r")
      case Waiting
      then show ?thesis using entry_ok_state(1) [OF ent] by simp
    next
      case Preempted
      then show ?thesis using entry_ok_state(2) [OF ent] by simp
    next
      case Prefill
      then show ?thesis using settledD [OF st r] by simp
    next
      case Chunked
      then show ?thesis using entry_ok_state(4) [OF ent] settledD [OF st r] sg by simp
    next
      case Decode
      then show ?thesis using entry_ok_state(5) [OF ent] sg mm by simp
    next
      case Done
      then show ?thesis using entry_ok_state(6) [OF ent] by (simp add: is_terminal_def)
    next
      case Aborted
      then show ?thesis using entry_ok_state(6) [OF ent] by (simp add: is_terminal_def)
    qed
  qed
  then show ?thesis by (auto simp: list_all_iff)
qed

lemma empty_map:
  assumes "\<And>i. map_of xs i = None"
  shows "xs = []"
proof (cases xs)
  case (Cons x ys)
  then have "map_of xs (fst x) = Some (snd x)" by (cases x) simp
  then show ?thesis using assms by simp
qed simp

lemma idle_tables:
  assumes tab: "table_inv cfg n 0 s" and st: "settled s" and idle: "loop_is_idle s"
  shows "sl_segs s = []" "sl_meta s = []" "sl_estimates s = []" "sl_returned s = sl_dispatched s"
proof -
  have e: "map_of (sl_segs s) i = None \<and> map_of (sl_meta s) i = None \<and> map_of (sl_estimates s) i = None" for i
    using table_invD(2) [OF tab, of i] idle
    by (auto simp: req_view_def entry_ok_def loop_is_idle_def split: option.splits ReqState.splits)
  then show "sl_segs s = []" "sl_meta s = []" "sl_estimates s = []" by (simp_all add: empty_map)
  have "live_len r = 0" if x: "(i, r) \<in> set (sl_reqs s)" for i r
  proof -
    have r: "map_of (sl_reqs s) i = Some r"
      using x table_invD(1) [OF tab] by (auto intro!: map_of_is_SomeI simp: ordered_def strict_sorted_iff)
    show ?thesis using entry_ok_state(1-5) [OF entryD [OF tab r]] idle
      by (cases "rq_state r") (auto simp: loop_is_idle_def live_len_def is_terminal_def)
  qed
  then have "bt_sum live_len (sl_reqs s) = 0" by (auto simp: bt_sum_def)
  then show "sl_returned s = sl_dispatched s" using table_invD(7) [OF tab] by simp
qed

end
