(* ===== verification/Sched_Demo.thy ===== *)
theory Sched_Demo
  imports Sched_Stall
begin

text \<open>
  A small server, for the witnesses: one layer, pages of 32 tokens, windows of one page, a device
  whose logits are the next token, and requests that end with their first token.
\<close>


definition sd_detok :: "nat list \<Rightarrow> str" where
  "sd_detok ids = map (\<lambda>_. 97) ids"

definition sd_cfg :: "nat \<Rightarrow> SchedLoopConfig" where
  "sd_cfg pages = \<lparr>lc_base_seed = 0, lc_vocab = 8, lc_dev = 0, lc_n_layer = 1, lc_block_len = 32, lc_max_model_len = 32,
     lc_kv_pages = pages, lc_max_num_seqs = 4, lc_chunk_size = 32, lc_max_steps = 0, lc_detok = sd_detok,
     lc_prefix_cache_pages = 0\<rparr>"

definition sd_device :: "(unit, nat) Device" where
  "sd_device = \<lparr>dev_guard = (\<lambda>d. Inr ()), dev_memcpy = (\<lambda>dir reg a b n d. (d, Inr ())),
     dev_prefill_batch = (\<lambda>ids d. (d, Inr ())), dev_step = (\<lambda>t p n d. (d, Inr ())),
     dev_batch_decode = (\<lambda>rs d. (d, Inr (map (\<lambda>r. br_token r + 1) rs)))\<rparr>"

definition sd_sampler :: "(unit, nat, unit, unit) SamplerApi" where
  "sd_sampler = \<lparr>chain_new = (\<lambda>p. Inr ()), chain_sample = (\<lambda>p dv v l c. (c, Inr l)), all_nan = (\<lambda>l. False),
     token_out = (\<lambda>l t n. Some ())\<rparr>"

definition sd_env :: "nat \<Rightarrow> (unit CudaBatchExecutor, unit, nat, unit, unit) SchedEnv" where
  "sd_env pages = \<lparr>env_cfg = sd_cfg pages, env_exec = cuda_executor sd_device, env_sampler = sd_sampler,
     env_alive = (\<lambda>tx fs. True)\<rparr>"

lemma sd_sel [simp]: "env_cfg (sd_env p) = sd_cfg p" "env_exec (sd_env p) = cuda_executor sd_device" "env_sampler (sd_env p) = sd_sampler"
  "env_alive (sd_env p) tx fs"
  "lc_base_seed (sd_cfg n) = 0" "lc_n_layer (sd_cfg n) = 1" "lc_block_len (sd_cfg n) = 32" "lc_max_model_len (sd_cfg n) = 32"
  "lc_kv_pages (sd_cfg n) = n" "lc_max_num_seqs (sd_cfg n) = 4" "lc_chunk_size (sd_cfg n) = 32" "lc_max_steps (sd_cfg n) = 0"
  "lc_detok (sd_cfg n) = sd_detok" "lc_prefix_cache_pages (sd_cfg n) = 0"
  "chain_new sd_sampler sp = Inr ()" "chain_sample sd_sampler sp dv v l c = (c, Inr l)" "\<not> all_nan sd_sampler l"
  "ex_alloc_segment (cuda_executor sd_device) = cuda_alloc_segment" "ex_free_segment (cuda_executor sd_device) = cuda_free_segment" "ex_prefill (cuda_executor sd_device) = cuda_prefill sd_device"
  "ex_adopt_singleton (cuda_executor sd_device) = cuda_adopt_singleton sd_device" "ex_drop_singleton (cuda_executor sd_device) = cuda_drop_singleton"
  "ex_decode_batch (cuda_executor sd_device) = cuda_decode_batch sd_device"
  "dev_prefill_batch sd_device ids d = (d, Inr ())"
  "dev_batch_decode sd_device rs d = (d, Inr (map (\<lambda>r. br_token r + 1) rs))"
  by (simp_all add: sd_cfg_def sd_env_def sd_sampler_def cuda_executor_def sd_device_def)

definition sd_query :: "unit SubmitRequest" where
  "sd_query = \<lparr>sr_ids = replicate 15 1, sr_params = \<lparr>gp_opts = (), gp_seed = None\<rparr>, sr_eos = None, sr_max_tokens = 0,
     sr_stop = [], sr_logprobs_top_n = 0, sr_token = 0, sr_tx = 0\<rparr>"

lemma sd_query_sel [simp]: "sr_ids sd_query = replicate 15 1" "sr_eos sd_query = None" "sr_max_tokens sd_query = 0" "sr_stop sd_query = []"
  "sr_logprobs_top_n sd_query = 0" "sr_token sd_query = 0" "sr_tx sd_query = 0"
  by (simp_all add: sd_query_def)


text \<open>The executor of the demo between two requests.\<close>

definition sd_rest_exec :: "nat \<Rightarrow> nat \<Rightarrow> Singleton option \<Rightarrow> unit CudaBatchExecutor" where
  "sd_rest_exec a b sg = \<lparr>cx_device = (), cx_pool = \<lparr>sp_block_slots = 32, sp_total = 2, sp_refs = [0, 1], sp_free = [\<lparr>fr_base = 0, fr_len = 1\<rparr>],
     sp_allocs = Suc a, sp_frees = a, sp_seg_allocs = Suc b, sp_seg_frees = b\<rparr>, cx_anchor = \<lparr>base_page = 1, n_pages = 1\<rparr>,
     cx_n_layer = 1, cx_pp = 1, cx_kv_heads = 1, cx_d = 1, cx_block_len = 32, cx_singleton = sg\<rparr>"

lemma sd_load: "cuda_load 1 1 1 32 2 () = Some (Inr (sd_rest_exec 0 0 None))"
  unfolding sd_rest_exec_def cuda_load_def by code_simp

definition sd_busy_exec :: "nat \<Rightarrow> nat \<Rightarrow> Singleton option \<Rightarrow> unit CudaBatchExecutor" where
  "sd_busy_exec a b sg = \<lparr>cx_device = (), cx_pool = \<lparr>sp_block_slots = 32, sp_total = 2, sp_refs = [1, 1], sp_free = [],
     sp_allocs = Suc (Suc a), sp_frees = a, sp_seg_allocs = Suc (Suc b), sp_seg_frees = b\<rparr>, cx_anchor = \<lparr>base_page = 1, n_pages = 1\<rparr>,
     cx_n_layer = 1, cx_pp = 1, cx_kv_heads = 1, cx_d = 1, cx_block_len = 32, cx_singleton = sg\<rparr>"


lemma sd_alloc: "n = 0 \<or> n = 1 \<Longrightarrow> cuda_alloc_segment 1 (sd_rest_exec n n sg) = Some (sd_busy_exec n n sg, Inr \<lparr>base_page = 0, n_pages = 1\<rparr>)"
  unfolding sd_rest_exec_def sd_busy_exec_def
  by (elim disjE; hypsubst; code_simp)

lemma sd_free: "n = 0 \<or> n = 1 \<Longrightarrow> cuda_free_segment \<lparr>base_page = 0, n_pages = 1\<rparr> (sd_busy_exec n n sg) = Some (sd_rest_exec (Suc n) (Suc n) sg)"
  unfolding sd_rest_exec_def sd_busy_exec_def
  by (elim disjE; hypsubst; code_simp)

lemma sd_cx_sel [simp]: "cx_singleton (sd_rest_exec a b sg) = sg" "cx_singleton (sd_busy_exec a b sg) = sg"
  "(sd_busy_exec a b sg)\<lparr>cx_device := u\<rparr> = sd_busy_exec a b sg" "(sd_busy_exec a b sg)\<lparr>cx_singleton := sg'\<rparr> = sd_busy_exec a b sg'"
  "cx_block_len (sd_busy_exec a b sg) = 32" "cx_n_layer (sd_busy_exec a b sg) = 1"
  "(sd_rest_exec a b sg)\<lparr>cx_singleton := sg'\<rparr> = sd_rest_exec a b sg'"
  by (simp_all add: sd_rest_exec_def sd_busy_exec_def)

lemma sd_flush: "flush_singleton sd_device (sd_busy_exec a b sg) = (sd_busy_exec a b None, Inr ())"
  by (cases sg) (simp_all add: flush_singleton_def copy_engine_to_pool_def copy_run_def sd_device_def)

lemma sd_prefill: "cuda_prefill sd_device ids (sd_busy_exec a b sg) = Some (sd_busy_exec a b None, Inr ())"
  by (simp add: cuda_prefill_def sd_flush engine_call_def)

lemma sd_adopt: "cuda_adopt_singleton sd_device i seg 0 n (sd_busy_exec a b sg)
    = Some (sd_busy_exec a b (Some \<lparr>sg_id = i, sg_seg = seg, sg_kv_len = n\<rparr>), Inr ())"
  by (simp add: cuda_adopt_singleton_def)

lemma sd_decode: "sg_id g = xr_id r \<Longrightarrow> cuda_decode_batch sd_device [r] (sd_busy_exec a b (Some g))
    = Some (sd_busy_exec a b (Some \<lparr>sg_id = xr_id r, sg_seg = xr_seg r, sg_kv_len = xr_kv_len r\<rparr>), Inr [xr_token r + 1])"
  by (simp add: cuda_decode_batch_def engine_call_def)

definition sd_idle_state where
  "sd_idle_state x rs es a k tr d n fs = \<lparr>sl_exec = x, sl_reqs = rs, sl_meta = [], sl_waiting = [], sl_decoding = [], sl_segs = [],
       sl_token_ids = [], sl_estimates = [], sl_ema = es, sl_arrival_seq = a, sl_step = k,
       sl_first_chunk_sum = d, sl_trace = tr, sl_dispatched = n, sl_returned = n, sl_cache = None,
       sl_cache_hits = 0, sl_cache_refills = 0, sl_frames = fs\<rparr>"

definition sd_meta :: "u64 \<Rightarrow> (unit, unit) ReqMeta" where
  "sd_meta i = \<lparr>rm_prompt = replicate 15 1, rm_max_output = 0, rm_chain = (), rm_sampler_params = \<lparr>smp_opts = (), smp_repeat_last_n = 64,
      smp_seed = splitmix64 i\<rparr>, rm_cur = 0, rm_generated = [], rm_last_len = 0, rm_logprobs_top_n = 0, rm_tx = 0\<rparr>"

lemma sd_meta_sel [simp]: "rm_prompt (sd_meta i) = replicate 15 1" "rm_max_output (sd_meta i) = 0" "rm_chain (sd_meta i) = ()"
  "rm_generated (sd_meta i) = []" "rm_logprobs_top_n (sd_meta i) = 0" "rm_tx (sd_meta i) = 0" "(sd_meta i)\<lparr>rm_chain := ()\<rparr> = sd_meta i"
  by (simp_all add: sd_meta_def)

definition sd_queued_state where
  "sd_queued_state x rs es a k tr d n fs = \<lparr>sl_exec = x, sl_reqs = bt_insert (derive 0 a) (req_new (derive 0 a) 0 a [] None) rs,
       sl_meta = [(derive 0 a, sd_meta (derive 0 a))],
       sl_waiting = [derive 0 a], sl_decoding = [], sl_segs = [],
       sl_token_ids = [(0, derive 0 a)], sl_estimates = [], sl_ema = es, sl_arrival_seq = a + 1, sl_step = k,
       sl_first_chunk_sum = d, sl_trace = tr, sl_dispatched = n, sl_returned = n, sl_cache = None,
       sl_cache_hits = 0, sl_cache_refills = 0, sl_frames = fs\<rparr>"

lemma sd_submit: "\<exists>tr'. loop_turn (sd_env 2) [Submit sd_query] (sd_idle_state x rs es a k tr d n fs) = Some (sd_queued_state x rs es a k tr' d n fs, [], False)"
  by (simp add: loop_turn_def loop_is_idle_def loop_submit_def Let_def sd_idle_state_def sd_queued_state_def loop_trace_def set_req_def sd_meta_def sd_query_def)


lemma sd_tokens: "pool_tokens (sd_cfg 2) = Some 32" "window_pages (sd_cfg 2) = 1"
  by (simp_all add: pool_tokens_def window_pages_def div_ceil_def chk_sub_def chk_mul_def u64_max_def)

lemma sd_estimate:
  assumes "map_of (sl_reqs s) i = Some (req_new i 0 a [] None)" "map_of (sl_meta s) i = Some (sd_meta i)"
  shows "loop_estimate (sd_cfg 2) i s = Some \<lparr>est_a = 16, est_b = 16\<rparr>"
  by (simp add: loop_estimate_def assms loop_busy_def sd_tokens req_new_def output_tokens_def estimate_def
      chk_add_def u64_max_def sat_add_def ADDED_OUTPUT_LEN_def Let_def)

lemma sd_admission:
  "\<exists>ac. admission_cfg (sd_cfg 2) = Some ac \<and> check_admission [(i, \<lparr>est_a = 16, est_b = 16\<rparr>)] (Some 15) 0 b ac = Some Admitted"
  by (cases b) (simp_all add: admission_cfg_def admit_cap_def sd_tokens chk_sub_def chk_div_def
      check_admission_def chk_mul_def u64_max_def peak_tokens_def sat_add_def sat_mul_def chk_add_def)

lemma sd_admit:
  assumes "map_of (sl_reqs s) i = Some (req_new i 0 a [] None)" "map_of (sl_meta s) i = Some (sd_meta i)"
    "sl_estimates s = []" "sl_first_chunk_sum s = 0"
  shows "\<exists>tr. loop_admit_one (sd_cfg 2) i (s, []) = Some (s\<lparr>sl_first_chunk_sum := 15, sl_estimates := [(i, \<lparr>est_a = 16, est_b = 16\<rparr>)],
      sl_trace := tr\<rparr>, [\<lparr>w_id = i, w_arrival_seq = a, w_resume = False, prefix_id = None, w_prompt_len = 15, w_cached_len = 0, max_chunk = 32\<rparr>])"
proof -
  obtain ac where "admission_cfg (sd_cfg 2) = Some ac"
    "\<And>b. check_admission [(i, \<lparr>est_a = 16, est_b = 16\<rparr>)] (Some 15) 0 b ac = Some Admitted"
    using sd_admission by (metis option.inject)
  then show ?thesis
    by (simp add: loop_admit_one_def sd_estimate [OF assms(1,2)] assms loop_busy_def sd_tokens working_set_def req_new_def loop_trace_def Let_def)
      (rule exI, rule refl)
qed

lemma sd_select:
  "15 \<le> b \<Longrightarrow> select_batch [\<lparr>w_id = i, w_arrival_seq = a, w_resume = False, prefix_id = None, w_prompt_len = 15, w_cached_len = 0, max_chunk = 32\<rparr>]
     [] b 0 Fcfc = \<lparr>sel_decode = [], sel_prefill = [(i, 0, 15)], sel_preempted = [], kept_waiting = []\<rparr>"
  by (simp add: select_batch_def order_waiting_def order_victims_def fcfs_key_def Let_def)

abbreviation "sd_seg \<equiv> \<lparr>base_page = 0, n_pages = 1\<rparr>"

abbreviation "sd_state x rs me w de sg tk es em a k fc tr dd rr fs \<equiv> \<lparr>sl_exec = x, sl_reqs = rs,
       sl_meta = me, sl_waiting = w, sl_decoding = de, sl_segs = sg,
       sl_token_ids = tk, sl_estimates = es, sl_ema = em, sl_arrival_seq = a, sl_step = k,
       sl_first_chunk_sum = fc, sl_trace = tr, sl_dispatched = dd, sl_returned = rr, sl_cache = None,
       sl_cache_hits = 0, sl_cache_refills = 0, sl_frames = fs\<rparr>"

definition "sd_dreq i a = (req_new i 0 a [] None)\<lparr>rq_state := Decode, prompt_len := 15, cached_len := 15, device_len := 15\<rparr>"
definition "sd_preq i a = (req_new i 0 a [] None)\<lparr>rq_state := Prefill, prompt_len := 15, device_len := 15\<rparr>"
definition "sd_oreq i a = (req_new i 0 a [] None)\<lparr>rq_state := Done, prompt_len := 15, cached_len := 15, device_len := 16\<rparr>"

lemma sd_req: "start_prefill (req_new i 0 a [] None) 15 0 15 = Ok (sd_preq i a)" "confirm (sd_preq i a) = Some (sd_dreq i a, PrefillDone)"
  "\<exists>r. decode_step (sd_dreq i a) t = Some (r, MaxOutput) \<and> fst (take_release r) = sd_oreq i a \<and> device_len r = 16"
  "rq_state (req_new i 0 a [] None) = Waiting" "rq_state (sd_dreq i a) = Decode" "cached_len (sd_dreq i a) = 15"
  "rq_state (sd_preq i a) = Prefill"
  by (simp_all add: start_prefill_def confirm_def decode_step_def sd_preq_def sd_dreq_def sd_oreq_def req_new_def cursors_valid_def is_prefilling_def
      Let_def chk_add_def u64_max_def sm_push_def sm_new_def take_release_def set_done_def arm_release_def)

lemma bt_insert_twice [simp]: "bt_insert i x (bt_insert i y xs) = bt_insert i x xs"
  by (induction i y xs rule: bt_insert.induct) auto

lemma sd_stage:
  assumes r: "map_of rs i = Some (req_new i 0 a' [] None)" and n: "n = 0 \<or> n = 1"
  shows "\<exists>tr'. loop_prefill_one (sd_env 2) (i, 0, 15) (sd_state (sd_rest_exec n n g) rs [(i, sd_meta i)] [i] [] [] tk es em a k fc tr dd rr fs)
    = Some (sd_state (sd_busy_exec n n (Some \<lparr>sg_id = i, sg_seg = sd_seg, sg_kv_len = 15\<rparr>)) (bt_insert i (sd_dreq i a') rs)
        [(i, (sd_meta i)\<lparr>rm_cur := 1\<rparr>)] [] [i] [(i, sd_seg)] tk es em a k fc tr' (dd + 15) rr fs)"
  using r sd_alloc [OF n, of g]
  by (simp add: loop_prefill_one_def align_chunk_end_def loop_dispatch_def sd_tokens sd_req loop_trace_def set_req_def
    loop_stage_def sd_prefill loop_confirm_def join_decoding_def leave_waiting_def sd_adopt or_abort_def Let_def)

lemma sd_finish:
  assumes r: "map_of rs i = Some (sd_dreq i a')" and m: "rm_generated m = []" "rm_prompt m = replicate 15 1" "rm_logprobs_top_n m = 0"
      "rm_tx m = 0" "rm_chain m = ()" and n: "n = 0 \<or> n = 1" and g: "sg_id g = i"
  shows "\<exists>tr' g' em'. loop_decode_step (sd_env 2) (sd_state (sd_busy_exec n n (Some g)) rs [(i, m)] [] [i] [(i, sd_seg)] [(0, i)] [(i, e)] em a k fc tr dd rr fs)
    = Some (sd_state (sd_rest_exec (Suc n) (Suc n) (Some g')) (bt_insert i (sd_oreq i a') rs) [] [] [] [] [] [] em' a k fc tr' (Suc dd) (rr + 16)
        (fs @ [(0, DoneFrame False False 0 15)]))"
proof -
  obtain r' where r': "\<And>t. decode_step (sd_dreq i a') t = Some (r' t, MaxOutput)" "\<And>t. fst (take_release (r' t)) = sd_oreq i a'"
    "\<And>t. device_len (r' t) = 16"
    using sd_req(3) [of i a'] by metis
  show ?thesis
    using r m g r' sd_free [OF n]
    by (simp add: loop_decode_step_def exec_req_def sd_req sd_decode loop_decode_one_def sample_token_def decode_token_def set_req_def
        chk_sub_def loop_trace_def loop_terminal_def blocking_send_def refill_prefix_release_def forget_req_def leave_waiting_def
        leave_decoding_def Let_def bt_remove_def sd_meta_def)
      (rule exI, rule refl)
qed

lemma sd_serve:
  assumes rs: "map_of rs (derive 0 a) = None" "sum_list (map (\<lambda>(i, r). device_len r) (bt_insert (derive 0 a) (req_new (derive 0 a) 0 a [] None) rs)) \<le> 17"
    and n: "n = 0 \<or> n = 1"
  shows "\<exists>tr' g em'. loop_turn (sd_env 2) [] (sd_queued_state (sd_rest_exec n n sg) rs em a k tr d dd fs)
    = Some (sd_idle_state (sd_rest_exec (Suc n) (Suc n) (Some g)) (bt_insert (derive 0 a) (sd_oreq (derive 0 a) a) rs) em' (a + 1) (k + 1) tr' 15 (dd + 16)
       (fs @ [(0, DoneFrame False False 0 15)]), [], False)"
proof -
  let ?i = "derive 0 a" and ?r = "req_new (derive 0 a) 0 a [] None"
  let ?s = "sd_state (sd_rest_exec n n sg) (bt_insert ?i ?r rs) [(?i, sd_meta ?i)] [?i] [] [] [(0, ?i)] [] em (a + 1) k 0 tr dd dd fs"
  obtain tr1 where 1: "loop_admit_one (sd_cfg 2) ?i (?s, []) = Some (?s\<lparr>sl_first_chunk_sum := 15, sl_estimates := [(?i, \<lparr>est_a = 16, est_b = 16\<rparr>)],
      sl_trace := tr1\<rparr>, [\<lparr>w_id = ?i, w_arrival_seq = a, w_resume = False, prefix_id = None, w_prompt_len = 15, w_cached_len = 0, max_chunk = 32\<rparr>])"
    using sd_admit [of ?s ?i a] by auto
  let ?u = "sd_state (sd_rest_exec n n sg) (bt_insert ?i ?r rs) [(?i, sd_meta ?i)] [?i] [] [] [(0, ?i)] [(?i, \<lparr>est_a = 16, est_b = 16\<rparr>)] em (a + 1) k 15 tr1 dd dd fs"
  have "map_of (bt_insert ?i ?r rs) ?i = Some ?r" by simp
  from sd_stage [OF this n] obtain tr2 where 2: "loop_prefill_one (sd_env 2) (?i, 0, 15) ?u
    = Some (sd_state (sd_busy_exec n n (Some \<lparr>sg_id = ?i, sg_seg = sd_seg, sg_kv_len = 15\<rparr>)) (bt_insert ?i (sd_dreq ?i a) rs)
        [(?i, (sd_meta ?i)\<lparr>rm_cur := 1\<rparr>)] [] [?i] [(?i, sd_seg)] [(0, ?i)] [(?i, \<lparr>est_a = 16, est_b = 16\<rparr>)] em (a + 1) k 15 tr2 (dd + 15) dd fs)"
    by fastforce
  have "map_of (bt_insert ?i (sd_dreq ?i a) rs) ?i = Some (sd_dreq ?i a)" by simp
  then have "\<exists>tr3 g em'. loop_decode_step (sd_env 2) (sd_state (sd_busy_exec n n (Some \<lparr>sg_id = ?i, sg_seg = sd_seg, sg_kv_len = 15\<rparr>)) (bt_insert ?i (sd_dreq ?i a) rs)
        [(?i, (sd_meta ?i)\<lparr>rm_cur := 1\<rparr>)] [] [?i] [(?i, sd_seg)] [(0, ?i)] [(?i, \<lparr>est_a = 16, est_b = 16\<rparr>)] em (a + 1) k 15 tr2 (dd + 15) dd fs)
    = Some (sd_state (sd_rest_exec (Suc n) (Suc n) (Some g)) (bt_insert ?i (sd_oreq ?i a) (bt_insert ?i (sd_dreq ?i a) rs)) [] [] [] [] [] [] em' (a + 1) k 15 tr3 (Suc (dd + 15)) (dd + 16)
        (fs @ [(0, DoneFrame False False 0 15)]))"
    by (rule sd_finish) (use n in simp_all)
  then obtain tr3 g em' where 3: "loop_decode_step (sd_env 2) (sd_state (sd_busy_exec n n (Some \<lparr>sg_id = ?i, sg_seg = sd_seg, sg_kv_len = 15\<rparr>)) (bt_insert ?i (sd_dreq ?i a) rs)
        [(?i, (sd_meta ?i)\<lparr>rm_cur := 1\<rparr>)] [] [?i] [(?i, sd_seg)] [(0, ?i)] [(?i, \<lparr>est_a = 16, est_b = 16\<rparr>)] em (a + 1) k 15 tr2 (dd + 15) dd fs)
    = Some (sd_state (sd_rest_exec (Suc n) (Suc n) (Some g)) (bt_insert ?i (sd_oreq ?i a) rs) [] [] [] [] [] [] em' (a + 1) k 15 tr3 (Suc (dd + 15)) (dd + 16)
        (fs @ [(0, DoneFrame False False 0 15)]))"
    unfolding bt_insert_twice by blast
  have b: "15 \<le> 32 - loop_kv_usage ?u" using rs(2) by (simp add: loop_kv_usage_def)
  have nil: "fold_opt f [] = Some" for f :: "'u \<Rightarrow> 'v \<Rightarrow> 'v option" by (rule ext) simp
  have "admit_schedule (sd_env 2) (sd_queued_state (sd_rest_exec n n sg) rs em a k tr d dd fs) = loop_prefill_one (sd_env 2) (?i, 0, 15) ?u"
    using 1 sd_select [OF b, of ?i a] by (simp add: admit_schedule_def sd_queued_state_def sd_tokens Let_def nil)
  then show ?thesis using 2 3
    by (simp add: loop_turn_def loop_is_idle_def sd_queued_state_def sd_idle_state_def iterate_def) blast
qed

text \<open>The server starts, with a pool of one or two windows.\<close>

lemma sd_detok_safe: "detok_safe sd_detok"
proof -
  have "sent_len sd_detok ids = length ids" for ids
    by (induction ids rule: rev_induct) (simp_all add: sent_len_snoc sd_detok_def)
  then show ?thesis by (simp add: detok_safe_def text_delta_def boundary_def sd_detok_def cont_def nth_append)
qed

lemma sd_cfg_ok: "p = 1 \<or> p = 2 \<Longrightarrow> cfg_ok (sd_cfg p)"
  by (auto simp: cfg_ok_def window_pages_def div_ceil_def est_bound_def u64_max_def)

lemma sd_device_ok: "device_ok sd_device"
  by (simp add: device_ok_def sd_device_def)

lemma sd_loop_new: "loop_new (sd_cfg p) x = Some (sd_idle_state x [] ema_new 0 0 [] 0 0 [])"
  by (simp add: loop_new_def sd_idle_state_def)

definition sd_full_exec :: "unit CudaBatchExecutor" where
  "sd_full_exec = \<lparr>cx_device = (), cx_pool = \<lparr>sp_block_slots = 32, sp_total = 1, sp_refs = [1], sp_free = [],
     sp_allocs = 1, sp_frees = 0, sp_seg_allocs = 1, sp_seg_frees = 0\<rparr>, cx_anchor = \<lparr>base_page = 0, n_pages = 1\<rparr>,
     cx_n_layer = 1, cx_pp = 1, cx_kv_heads = 1, cx_d = 1, cx_block_len = 32, cx_singleton = None\<rparr>"

lemma sd_load_full: "cuda_load 1 1 1 32 1 () = Some (Inr sd_full_exec)"
  unfolding sd_full_exec_def cuda_load_def by code_simp

lemma sd_run:
  assumes "p = 1 \<or> p = 2" "feeds_ok (sd_cfg p) feeds" "cuda_load 1 1 1 32 p () = Some (Inr x)"
  shows "run_of_loop sd_device (sd_env p) 1 1 () feeds (sd_idle_state x [] ema_new 0 0 [] 0 0 [])"
proof -
  have "token_out sd_sampler l t n = Some ()" for l t n by (simp add: sd_sampler_def)
  then show ?thesis
    using assms sd_cfg_ok sd_device_ok sd_loop_new by (auto simp: run_of_loop_def env_ok_def started_def)
qed

text \<open>Two requests, one after the other: each leaves 16 tokens in the table.\<close>

definition sd_feeds :: "unit SchedCmd list list" where
  "sd_feeds = [[Submit sd_query], [], [Submit sd_query], []]"

lemma sd_feeds_ok: "feeds_ok (sd_cfg p) (sd_feeds @ sd_feeds)" "feeds_ok (sd_cfg p) sd_feeds"
  by (simp_all add: feeds_ok_def sd_feeds_def cmd_fits_def)

lemma sd_two_served:
  "\<exists>g tr em. loop_run (sd_env 2) sd_feeds [] (sd_idle_state (sd_rest_exec 0 0 None) [] ema_new 0 0 [] 0 0 [])
     = Some (sd_idle_state (sd_rest_exec 2 2 (Some g)) [(derive 0 1, sd_oreq (derive 0 1) 1), (derive 0 0, sd_oreq (derive 0 0) 0)]
         em 2 2 tr 15 32 [(0, DoneFrame False False 0 15), (0, DoneFrame False False 0 15)], [], False)"
proof -
  let ?i = "derive 0 0" and ?j = "derive 0 1"
  have ids: "?i = 16294208416658607535" "?j = 10451216379200822465"
    by (simp_all add: derive_def splitmix64_def mix_def GOLDEN_RATIO_64_def drop_bit_eq_div)
  have ij: "?j < ?i" "?i \<noteq> ?j" by (simp_all add: ids)
  obtain tr1 where 1: "loop_turn (sd_env 2) [Submit sd_query] (sd_idle_state (sd_rest_exec 0 0 None) [] ema_new 0 0 [] 0 0 [])
      = Some (sd_queued_state (sd_rest_exec 0 0 None) [] ema_new 0 0 tr1 0 0 [], [], False)"
    using sd_submit by blast
  obtain tr2 g2 em2 where 2: "loop_turn (sd_env 2) [] (sd_queued_state (sd_rest_exec 0 0 None) [] ema_new 0 0 tr1 0 0 [])
      = Some (sd_idle_state (sd_rest_exec (Suc 0) (Suc 0) (Some g2)) [(?i, sd_oreq ?i 0)] em2 1 1 tr2 15 16 [(0, DoneFrame False False 0 15)], [], False)"
    using sd_serve [of "[]" 0 0 None ema_new 0 tr1 0 0 "[]"] by (auto simp: req_new_def)
  obtain tr3 where 3: "loop_turn (sd_env 2) [Submit sd_query]
        (sd_idle_state (sd_rest_exec (Suc 0) (Suc 0) (Some g2)) [(?i, sd_oreq ?i 0)] em2 1 1 tr2 15 16 [(0, DoneFrame False False 0 15)])
      = Some (sd_queued_state (sd_rest_exec (Suc 0) (Suc 0) (Some g2)) [(?i, sd_oreq ?i 0)] em2 1 1 tr3 15 16 [(0, DoneFrame False False 0 15)], [], False)"
    using sd_submit by blast
  have use: "sum_list (map (\<lambda>(i, r). device_len r) (bt_insert ?j (req_new ?j 0 1 [] None) [(?i, sd_oreq ?i 0)])) \<le> 17"
    using ij by (simp add: req_new_def sd_oreq_def)
  have new: "map_of [(?i, sd_oreq ?i 0)] ?j = None" using ij by simp
  obtain tr4 g4 em4 where 4: "loop_turn (sd_env 2) []
        (sd_queued_state (sd_rest_exec (Suc 0) (Suc 0) (Some g2)) [(?i, sd_oreq ?i 0)] em2 1 1 tr3 15 16 [(0, DoneFrame False False 0 15)])
      = Some (sd_idle_state (sd_rest_exec 2 2 (Some g4)) [(?j, sd_oreq ?j 1), (?i, sd_oreq ?i 0)] em4 2 2 tr4 15 32
           [(0, DoneFrame False False 0 15), (0, DoneFrame False False 0 15)], [], False)"
    using sd_serve [OF new use, of 1 "Some g2" em2 1 tr3 15 16 "[(0, DoneFrame False False 0 15)]"] ij
    by (auto simp: numeral_2_eq_2)
  show ?thesis using 1 2 3 4 by (simp add: sd_feeds_def) (intro exI, rule refl)
qed

end
