(* ===== verification/Sched_Props.thy ===== *)
theory Sched_Props
  imports Sched_Demo Tok_Claims
begin

text \<open>
  The properties of the event loop: it never panics, every page of the pool and every token is
  accounted for, the text a client receives; and the behaviours that end the service.
\<close>

section \<open>Safety\<close>






text \<open>
  C2: In every state the event loop reaches, the pages of the pool are accounted for: the reference
  count of a page is the number of runs that hold it, among the anchor, the segments of the live
  requests and the runs of the cached prefixes (one per layer); no page is in two of them, so the
  conservation assertion of the pool holds; and the pages in use are one window for the anchor and one
  for each live request, plus the pages of the cache for each layer.
\<close>

theorem loop_pages_conserved:
  assumes "run_of_loop dev env kv_heads d dv feeds s" "loop_run env feeds [] s = Some (t, q, fin)"
  shows "let p = cx_pool (sl_exec t); cfg = env_cfg env in
      sp_assert_conserved p \<and> in_use p + free_count p = lc_kv_pages cfg
    \<and> in_use p = window_pages cfg * (1 + length (sl_segs t)) + lc_n_layer cfg * cache_use t
    \<and> map (\<lambda>i. length (filter (\<lambda>g. i \<in> set (seg_pages g)) (holders cfg t))) [0..<lc_kv_pages cfg] = sp_refs p"
proof -
  let ?cfg = "env_cfg env" and ?p = "cx_pool (sl_exec t)"
  note g = run_good [OF assms(1)]
  obtain n where good: "cuda.loop_good dev (lc_n_layer ?cfg) (cfg_pp ?cfg) (cx_anchor (sl_exec s)) (lc_kv_pages ?cfg) env
      {#cx_anchor (sl_exec s)#} n t"
    using returns_unlessD(1) [OF g(3) assms(2)] by auto
  note p = good_pages [OF g(1) refl g(2) good]
  have "length (sp_refs ?p) = lc_kv_pages ?cfg" using p(2,6) by (simp add: seg_inv_def)
  then have "map (\<lambda>i. length (filter (\<lambda>g. i \<in> set (seg_pages g)) (holders ?cfg t))) [0..<lc_kv_pages ?cfg] = sp_refs ?p"
    using p(5) by (simp add: list_eq_iff_nth_eq)
  then show ?thesis using p(1,2,4) seg_inv_conserve [OF p(6)] by (simp add: Let_def)
qed

theorem loop_pages_conserved_witness:
  "\<exists>t q fin. loop_run (sd_env 2) sd_feeds [] (sd_idle_state (sd_rest_exec 0 0 None) [] ema_new 0 0 [] 0 0 []) = Some (t, q, fin)
     \<and> in_use (cx_pool (sl_exec t)) = 1 \<and> sp_refs (cx_pool (sl_exec t)) = [0, 1]"
proof -
  let ?s = "sd_idle_state (sd_rest_exec 0 0 None) [] ema_new 0 0 [] 0 0 []"
  obtain g tr em where t: "loop_run (sd_env 2) sd_feeds [] ?s
     = Some (sd_idle_state (sd_rest_exec 2 2 (Some g)) [(derive 0 1, sd_oreq (derive 0 1) 1), (derive 0 0, sd_oreq (derive 0 0) 0)]
         em 2 2 tr 15 32 [(0, DoneFrame False False 0 15), (0, DoneFrame False False 0 15)], [], False)"
    using sd_two_served by blast
  show ?thesis
    using loop_pages_conserved [OF sd_run [OF disjI2 [OF refl] sd_feeds_ok(2) sd_load] t] t
    by (simp add: sd_tokens sd_idle_state_def cache_use_def Let_def sd_rest_exec_def) blast
qed

text \<open>
  C3: When the event loop is idle it has given everything back: no request holds a segment, has
  parameters or an estimate, the pages in use are those of the anchor and of the cached prefixes, and
  as many tokens were returned as were dispatched. Nothing a request did, an abort, a preemption, a
  failed call of the device or a lost client included, leaks a page or a token.
\<close>

theorem loop_idle_releases:
  assumes "run_of_loop dev env kv_heads d dv feeds s" "loop_run env feeds [] s = Some (t, q, fin)" "loop_is_idle t"
  shows "sl_segs t = [] \<and> sl_meta t = [] \<and> sl_estimates t = [] \<and> sl_returned t = sl_dispatched t
    \<and> in_use (cx_pool (sl_exec t)) = window_pages (env_cfg env) + lc_n_layer (env_cfg env) * cache_use t"
proof -
  let ?cfg = "env_cfg env"
  note g = run_good [OF assms(1)]
  obtain n where good: "cuda.loop_good dev (lc_n_layer ?cfg) (cfg_pp ?cfg) (cx_anchor (sl_exec s)) (lc_kv_pages ?cfg) env
      {#cx_anchor (sl_exec s)#} n t"
    using returns_unlessD(1) [OF g(3) assms(2)] by auto
  have tab: "table_inv ?cfg n 0 t" and st: "settled t" using good by (simp_all add: cuda.loop_good_def cuda.loop_inv_def)
  note idle = idle_tables [OF tab st assms(3)]
  show ?thesis using idle good_pages(4) [OF g(1) refl g(2) good] by simp
qed

theorem loop_idle_releases_witness:
  "\<exists>t q fin. loop_run (sd_env 2) sd_feeds [] (sd_idle_state (sd_rest_exec 0 0 None) [] ema_new 0 0 [] 0 0 []) = Some (t, q, fin)
     \<and> sl_dispatched t = 32 \<and> sl_returned t = sl_dispatched t \<and> in_use (cx_pool (sl_exec t)) = 1"
proof -
  let ?s = "sd_idle_state (sd_rest_exec 0 0 None) [] ema_new 0 0 [] 0 0 []"
  obtain t where t: "loop_run (sd_env 2) sd_feeds [] ?s = Some (t, [], False)" "sl_waiting t = []" "sl_decoding t = []"
    "sl_cache t = None" "sl_dispatched t = 32"
    using sd_two_served by (auto simp: sd_idle_state_def)
  have "loop_is_idle t" using t(2,3) by (simp add: loop_is_idle_def)
  from loop_idle_releases [OF sd_run [OF disjI2 [OF refl] sd_feeds_ok(2) sd_load] t(1) this] t
  show ?thesis by (auto simp: sd_tokens cache_use_def)
qed

text \<open>
  C4: In every state the event loop reaches, each request of its table is in order for its state: one
  that waits or was preempted holds no segment and no cursor; one in the middle of its prompt holds a
  window, waits, and its chunks so far end on a page; one that decodes holds a window, is in the
  decoding queue only, and its length is within the prompt and the allowed output; one that has ended
  holds nothing and is in no queue; and none is left in the middle of a chunk.
\<close>

theorem loop_requests_ok:
  assumes "run_of_loop dev env kv_heads d dv feeds s" "loop_run env feeds [] s = Some (t, q, fin)"
  shows "list_all (\<lambda>(i, r). request_ok (env_cfg env) t i r) (sl_reqs t)"
proof -
  let ?cfg = "env_cfg env"
  obtain n where good: "cuda.loop_good dev (lc_n_layer ?cfg) (cfg_pp ?cfg) (cx_anchor (sl_exec s)) (lc_kv_pages ?cfg) env
      {#cx_anchor (sl_exec s)#} n t"
    using returns_unlessD(1) [OF run_good(3) [OF assms(1)] assms(2)] by auto
  have tab: "table_inv ?cfg n 0 t" and st: "settled t" using good by (simp_all add: cuda.loop_good_def cuda.loop_inv_def)
  have cfg: "cfg_ok ?cfg" using assms(1) by (simp add: run_of_loop_def env_ok_def)
  show ?thesis using tables_requests_ok [OF cfg tab st] .
qed

theorem loop_requests_ok_witness:
  "\<exists>t q fin. loop_run (sd_env 2) sd_feeds [] (sd_idle_state (sd_rest_exec 0 0 None) [] ema_new 0 0 [] 0 0 []) = Some (t, q, fin)
     \<and> length (sl_reqs t) = 2 \<and> list_all (\<lambda>(i, r). request_ok (sd_cfg 2) t i r) (sl_reqs t)"
proof -
  let ?s = "sd_idle_state (sd_rest_exec 0 0 None) [] ema_new 0 0 [] 0 0 []"
  obtain t where t: "loop_run (sd_env 2) sd_feeds [] ?s = Some (t, [], False)" "length (sl_reqs t) = 2"
    using sd_two_served by (auto simp: sd_idle_state_def)
  from loop_requests_ok [OF sd_run [OF disjI2 [OF refl] sd_feeds_ok(2) sd_load] t(1)] t
  show ?thesis by auto
qed

section \<open>The end of service\<close>

text \<open>
  C7: The event loop stops serving for ever once the requests that have ended add up to the tokens of
  the pool: their cursors stay in the table, the step budget counts them as tokens still in the pool,
  so from then on every step preempts whatever decodes and dispatches nothing, whatever is submitted
  or aborted later, although the pages themselves are free.
\<close>

theorem loop_starves:
  assumes run: "run_of_loop dev env kv_heads d dv (feeds @ later) s" and t: "loop_run env feeds [] s = Some (t, q, False)"
    and full: "pool_tokens (env_cfg env) = Some b" "b \<le> spent t"
  shows "\<exists>u q' fin. loop_run env later q t = Some (u, q', fin) \<and> sl_dispatched u = sl_dispatched t"
  using starved_calm [OF run t full] by (auto simp: calm_def)

theorem loop_starves_witness:
  "\<exists>t u q' fin. loop_run (sd_env 2) sd_feeds [] (sd_idle_state (sd_rest_exec 0 0 None) [] ema_new 0 0 [] 0 0 []) = Some (t, [], False)
     \<and> in_use (cx_pool (sl_exec t)) = 1 \<and> loop_run (sd_env 2) sd_feeds [] t = Some (u, q', fin) \<and> sl_dispatched u = sl_dispatched t"
proof -
  let ?s = "sd_idle_state (sd_rest_exec 0 0 None) [] ema_new 0 0 [] 0 0 []"
  obtain g tr em where t: "loop_run (sd_env 2) sd_feeds [] ?s
     = Some (sd_idle_state (sd_rest_exec 2 2 (Some g)) [(derive 0 1, sd_oreq (derive 0 1) 1), (derive 0 0, sd_oreq (derive 0 0) 0)]
         em 2 2 tr 15 32 [(0, DoneFrame False False 0 15), (0, DoneFrame False False 0 15)], [], False)"
    using sd_two_served by blast
  have "32 \<le> spent (sd_idle_state (sd_rest_exec 2 2 (Some g)) [(derive 0 1, sd_oreq (derive 0 1) 1), (derive 0 0, sd_oreq (derive 0 0) 0)]
         em 2 2 tr 15 32 [(0, DoneFrame False False 0 15), (0, DoneFrame False False 0 15)])"
    by (simp add: spent_def sd_idle_state_def sd_oreq_def is_terminal_def)
  from loop_starves [OF sd_run [OF disjI2 [OF refl] sd_feeds_ok(1) sd_load] t _ this]
  show ?thesis using t by (fastforce simp: sd_tokens sd_idle_state_def sd_rest_exec_def in_use_def)
qed

text \<open>
  C8: A pool of less than two windows starts, since the executor only requires one for its anchor, but
  then no request is ever admitted: nothing is dispatched, whatever the clients submit.
\<close>

theorem small_pool_admits_nothing:
  assumes run: "run_of_loop dev env kv_heads d dv feeds s" and small: "lc_kv_pages (env_cfg env) < 2 * window_pages (env_cfg env)"
  shows "\<exists>t q fin. loop_run env feeds [] s = Some (t, q, fin) \<and> sl_dispatched t = 0 \<and> sl_decoding t = []"
proof -
  obtain t q fin where t: "loop_run env feeds [] s = Some (t, q, fin)" "calm s t"
    using small_calm [OF run small] by blast
  moreover have "sl_dispatched s = 0" "sl_decoding s = []"
    using run by (auto simp: run_of_loop_def started_def loop_new_def bind_eq_Some_conv)
  ultimately show ?thesis using t by (auto simp: calm_def)
qed

theorem small_pool_admits_nothing_witness:
  "\<exists>t q fin. loop_run (sd_env 1) sd_feeds [] (sd_idle_state sd_full_exec [] ema_new 0 0 [] 0 0 []) = Some (t, q, fin)
     \<and> sl_dispatched t = 0 \<and> sl_decoding t = []"
  using small_pool_admits_nothing [OF sd_run [OF disjI1 [OF refl] sd_feeds_ok(2) sd_load_full]]
  by (simp add: window_pages_def div_ceil_def)

end
