(* ===== verification/Sched_Text.thy ===== *)
theory Sched_Text
  imports Sched_Demo Tok_Claims
begin

text \<open>
  The text a client receives: the handler of a decoded token sends what is new in the text of all the
  tokens so far. With the decoder of the server, tokens that hold whole characters are sent exactly;
  a character whose bytes are spread over tokens is sent wrong, swallows text that follows it, or
  makes the handler panic.
\<close>

section \<open>A stream of tokens\<close>

text \<open>None of the tokens ends the request: no stop pattern, no end of sequence, room for all.\<close>

fun confirms :: "Req \<Rightarrow> nat list \<Rightarrow> bool" where
  "confirms r [] = True"
| "confirms r (t # ts) = (case decode_step r t of
     Some (r', DecodeConfirmed _) \<Rightarrow> confirms r' ts
   | _ \<Rightarrow> False)"

text \<open>
  \<open>streams env i ts s m\<close>: request \<open>i\<close> has the parameters \<open>m\<close>, its client is there, and none of the
  tokens \<open>ts\<close> ends it.
\<close>

definition streams :: "('x, 'c, 'l, 'p, 'o) SchedEnv \<Rightarrow> u64 \<Rightarrow> nat list \<Rightarrow> ('x, 'c, 'p, 'o) SchedLoop \<Rightarrow> ('c, 'p) ReqMeta \<Rightarrow> bool" where
  "streams env i ts s m \<longleftrightarrow> map_of (sl_meta s) i = Some m \<and> (\<forall>fs. env_alive env (rm_tx m) fs)
     \<and> (\<exists>r. map_of (sl_reqs s) i = Some r \<and> confirms r ts)"

text \<open>A request without stop patterns and end of sequence takes as many tokens as it has room for.\<close>

lemma confirms_room:
  "rq_state r = Decode \<Longrightarrow> eos_id r = None \<Longrightarrow> sm_patterns (stop r) = [] \<Longrightarrow>
    cached_len r + length ts \<le> prompt_len r + max_output r \<Longrightarrow> prompt_len r + max_output r \<le> u64_max \<Longrightarrow> confirms r ts"
proof (induction ts arbitrary: r)
  case (Cons t ts)
  obtain m' where m': "sm_push (stop r) t = (m', Continue)" "sm_patterns m' = []"
    using Cons.prems(3) by (simp add: sm_push_def Let_def)
  define r' where "r' = r\<lparr>device_len := cached_len r + 1, stop := m', cached_len := cached_len r + 1\<rparr>"
  have "decode_step r t = Some (r', DecodeConfirmed t)"
    using Cons.prems m' by (simp add: decode_step_def Let_def chk_add_def r'_def)
  moreover have "confirms r' ts" by (rule Cons.IH) (use Cons.prems m' in \<open>simp_all add: r'_def\<close>)
  ultimately show ?case by simp
qed simp

lemma decode_token_emits:
  assumes "streams env i (t # ts) s m"
  shows "\<exists>s'. decode_token env i t out s = emit_token env i t out s' \<and> streams env i ts s' m \<and> sl_frames s' = sl_frames s"
proof -
  obtain r where r: "map_of (sl_reqs s) i = Some r" "confirms r (t # ts)" using assms by (auto simp: streams_def)
  obtain r' t' where r': "decode_step r t = Some (r', DecodeConfirmed t')" "confirms r' ts"
    using r(2) by (auto split: option.splits prod.splits ConfirmEvent.splits)
  have t': "t' = t" using r'(1)
    by (auto simp: decode_step_def Let_def split: if_splits bind_splits prod.splits StopOutcome.splits)
  define s' where "s' = s\<lparr>sl_dispatched := sl_dispatched s + 1, sl_reqs := bt_insert i r' (sl_reqs s),
    sl_trace := sl_trace s @ [\<lparr>te_step = sl_step s, te_req = i, te_event = DecodeTokenEv t,
       te_cached_len = cached_len r', te_device_len = device_len r'\<rparr>]\<rparr>"
  have "decode_token env i t out s = emit_token env i t out s'"
    using r(1) r'(1) by (simp add: t' decode_token_def set_req_def loop_trace_def Let_def s'_def)
  moreover have "streams env i ts s' m" using assms r'(2) by (auto simp: streams_def s'_def)
  ultimately show ?thesis by (auto simp: s'_def)
qed

lemma emit_token_step:
  assumes st: "streams env i ts s m" and d: "text_delta (lc_detok (env_cfg env) (rm_generated m @ [t])) (rm_last_len m) = Some (d, n)"
  shows "\<exists>u m'. emit_token env i t out s = Some u \<and> streams env i ts u m' \<and> sl_frames u = sl_frames s @ [(rm_tx m, TokenFrame d out)]
    \<and> rm_generated m' = rm_generated m @ [t] \<and> rm_last_len m' = n \<and> rm_tx m' = rm_tx m"
proof -
  define m' where "m' = m\<lparr>rm_cur := t, rm_generated := rm_generated m @ [t], rm_last_len := n\<rparr>"
  define u where "u = s\<lparr>sl_meta := bt_insert i m' (sl_meta s), sl_frames := sl_frames s @ [(rm_tx m, TokenFrame d out)]\<rparr>"
  have "emit_token env i t out s = Some u"
    using st d by (simp add: emit_token_def streams_def blocking_send_def Let_def m'_def u_def)
  moreover have "streams env i ts u m'" using st by (simp add: streams_def u_def m'_def)
  ultimately show ?thesis by (intro exI [of _ u] exI [of _ m']) (simp add: u_def m'_def)
qed

lemma token_step:
  assumes "streams env i (t # ts) s m" "text_delta (lc_detok (env_cfg env) (rm_generated m @ [t])) (rm_last_len m) = Some (d, n)"
  obtains u m' where "decode_token env i t out s = Some u" "streams env i ts u m'" "sl_frames u = sl_frames s @ [(rm_tx m, TokenFrame d out)]"
    "rm_generated m' = rm_generated m @ [t]" "rm_last_len m' = n" "rm_tx m' = rm_tx m"
  using decode_token_emits [OF assms(1), of out] emit_token_step [OF _ assms(2)] that by metis

lemma token_panic:
  assumes "streams env i (t # ts) s m" "text_delta (lc_detok (env_cfg env) (rm_generated m @ [t])) (rm_last_len m) = None"
  shows "decode_token env i t out s = None"
proof -
  obtain s' where "decode_token env i t out s = emit_token env i t out s'" "streams env i ts s' m"
    using decode_token_emits [OF assms(1)] by blast
  then show ?thesis using assms(2) by (simp add: emit_token_def streams_def Let_def)
qed

section \<open>The text of the tokens\<close>

lemma lossy_append_valid: "utf8_valid bs \<Longrightarrow> lossy (bs @ cs) = bs @ lossy cs"
proof (induction bs rule: valid_induct)
  case (Char bs k)
  have k: "k \<le> length bs" using scan1_bounds(1) [OF Char(1)] by simp
  have "scan1 (bs @ cs) = Char k" using scan1_append [of bs cs] Char(1) by simp
  from lossy_step(1) [OF this] have "lossy (bs @ cs) = take k bs @ lossy (drop k bs @ cs)" using k by simp
  also have "\<dots> = bs @ lossy cs" unfolding Char(3) by (simp flip: append_assoc)
  finally show ?case .
qed simp

text \<open>An unfinished character of two or of four bytes.\<close>

lemma high_byte:
  "0x80 \<le> b \<Longrightarrow> \<not> b \<le> (0x7F :: u8)" "0xF0 \<le> b \<Longrightarrow> \<not> b \<le> (0x7F :: u8)" "0xF0 \<le> b \<Longrightarrow> \<not> b \<le> (0xDF :: u8)"
  "0xF0 \<le> b \<Longrightarrow> \<not> b \<le> (0xEF :: u8)"
  by (auto dest: order_trans)

lemma two_short:
  assumes "utf8_valid [b1, b2]" "0x80 \<le> b1"
  shows "scan1 [b1] = Short"
proof -
  have "0xC2 \<le> b1 \<and> b1 \<le> 0xDF"
    using assms(1) unfolding utf8_valid.simps(2) [of b1 "[b2]"] by (simp add: high_byte(1) [OF assms(2)] split: if_splits)
  then show ?thesis using high_byte(1) [OF assms(2)] by simp
qed

lemma four_bytes:
  assumes "utf8_valid [b1, b2, b3, b4]" "0xF0 \<le> b1"
  shows "b1 \<le> 0xF4 \<and> second_ok b1 b2 \<and> cont b3 \<and> cont b4"
proof -
  note h = high_byte(2-4) [OF assms(2)]
  then have "b1 \<noteq> 0xE0" "b1 \<noteq> 0xED" by auto
  then show ?thesis
    using assms(1) h unfolding utf8_valid.simps(2) [of b1 "[b2, b3, b4]"] by (auto simp: second_ok_def split: if_splits)
qed

lemma four_short:
  assumes "0xF0 \<le> b1" "b1 \<le> 0xF4" "second_ok b1 b2" "cont b3"
  shows "scan1 [b1] = Short" "scan1 [b1, b2] = Short" "scan1 [b1, b2, b3] = Short"
  using assms high_byte(2-4) [OF assms(1)] by simp_all

lemma server_text:
  assumes "lc_detok cfg = tok_decode_all (Bpe tok)" "utf8_valid (output_bytes tok ids)"
  shows "lc_detok cfg (ids @ ts) = output_bytes tok ids @ lossy (output_bytes tok ts)"
  using assms by (simp add: decode_all_bytes lossy_append_valid)

lemma output_bytes_list: "output_bytes tok ts = concat (map (\<lambda>t. output_bytes tok [t]) ts)"
  by (simp add: output_bytes_def)

lemma output_bytes_valid: "\<forall>t\<in>set ids. utf8_valid (output_bytes tok [t]) \<Longrightarrow> utf8_valid (output_bytes tok ids)"
proof (induction ids)
  case (Cons t ids)
  then show ?case by (subst output_bytes_Cons) (simp add: utf8_valid_append)
qed simp

lemma delta_append:
  "xs = [] \<or> \<not> cont (xs ! 0) \<Longrightarrow> text_delta (p @ xs) (length p) = Some (xs, length (p @ xs))"
  by (auto simp: text_delta_def boundary_def nth_append)

lemma delta_behind: "length xs \<le> k \<Longrightarrow> text_delta (p @ xs) (length p + k) = Some ([], length p + k)"
  by (simp add: text_delta_def)

text \<open>A decoding request with room for four tokens.\<close>

definition stream_demo :: "(unit CudaBatchExecutor, unit, unit, unit) SchedLoop" where
  "stream_demo = sd_state (sd_busy_exec 0 0 None) [(0, (sd_dreq 0 0)\<lparr>max_output := 4\<rparr>)] [(0, sd_meta 0)] [] [0] [(0, sd_seg)]
     [] [] ema_new 1 0 0 [] 15 0 []"

lemma stream_demo: "env_alive env = (\<lambda>tx fs. True) \<Longrightarrow> length ts \<le> 4 \<Longrightarrow> streams env 0 ts stream_demo (sd_meta 0)"
  using confirms_room [of "(sd_dreq 0 0)\<lparr>max_output := 4\<rparr>" ts]
  by (simp add: streams_def stream_demo_def sd_dreq_def req_new_def sm_new_def u64_max_def)

text \<open>The demonstration vocabulary, a token for each byte, with the decoder of the server.\<close>

definition server_env :: "BpeTokenizer \<Rightarrow> (unit CudaBatchExecutor, unit, nat, unit, unit) SchedEnv" where
  "server_env tok = (sd_env 2)\<lparr>env_cfg := (sd_cfg 2)\<lparr>lc_detok := tok_decode_all (Bpe tok)\<rparr>\<rparr>"

lemma server_env: "lc_detok (env_cfg (server_env tok)) = tok_decode_all (Bpe tok)" "env_alive (server_env tok) = (\<lambda>tx fs. True)"
  by (simp_all add: server_env_def sd_env_def)

text \<open>The runs the event loop is studied under include those with the decoder of the server.\<close>

lemma server_run:
  assumes "feeds_ok (sd_cfg 2) feeds" "cuda_load 1 1 1 32 2 () = Some (Inr x)"
  shows "run_of_loop sd_device (server_env tok) 1 1 () feeds (sd_idle_state x [] ema_new 0 0 [] 0 0 [])"
proof -
  have [simp]: "cmd_fits (sd_cfg 2\<lparr>lc_detok := f\<rparr>) = (cmd_fits (sd_cfg 2) :: unit SchedCmd \<Rightarrow> bool)"
    for f
    by (simp add: cmd_fits_def fun_eq_iff split: SchedCmd.split)
  show ?thesis using sd_run [of 2 feeds x] assms
    by (auto simp: run_of_loop_def server_env_def sd_env_def env_ok_def cfg_ok_def feeds_ok_def
        started_def loop_new_def window_pages_def est_bound_def)
qed

lemma demo_byte:
  assumes "from_parts demo_pieces demo_types demo_merges (Some 257) None None True False = Ok tok"
  shows "output_bytes tok [unat b] = [b]"
proof -
  note f = from_parts_fields [OF assms]
  have n: "unat b < 256" using unsigned_less [of b, where 'a = nat] by simp
  then have "demo_pieces ! unat b = byte_to_unicode b" "demo_types ! unat b = TYPE_NORMAL"
    by (simp_all add: demo_pieces_def demo_types_def nth_append del: upt_Suc)
  then show ?thesis using n decode_encoded [of "[b]"]
    by (simp add: output_bytes_def piece_bytes_def f(1,2) demo_length)
qed

text \<open>
  C5: Whole characters reach the client exactly: with the decoder of the server, for tokens none of
  which ends the request, each of which stands for whole characters (or for nothing), and a client
  that stays, every token gives one frame with exactly its text, and the frames together are what the
  tokens add to the text.
\<close>

theorem stream_deltas:
  assumes "streams env i (map fst ts) s m" "lc_detok (env_cfg env) = tok_decode_all (Bpe tok)"
    and "\<forall>t\<in>set (rm_generated m @ map fst ts). utf8_valid (output_bytes tok [t])"
    and "rm_last_len m = length (lc_detok (env_cfg env) (rm_generated m))"
  shows "\<exists>u. fold_opt (\<lambda>(t, out). decode_token env i t out) ts s = Some u
    \<and> sl_frames u = sl_frames s @ map (\<lambda>(t, out). (rm_tx m, TokenFrame (output_bytes tok [t]) out)) ts
    \<and> lc_detok (env_cfg env) (rm_generated m @ map fst ts)
      = lc_detok (env_cfg env) (rm_generated m) @ concat (map (\<lambda>(t, out). output_bytes tok [t]) ts)"
proof -
  let ?f = "lc_detok (env_cfg env)"
  have full: "?f (ids @ ts') = ?f ids @ output_bytes tok ts'" if "\<forall>t\<in>set (ids @ ts'). utf8_valid (output_bytes tok [t])" for ids ts'
    using output_bytes_valid [of ids tok] output_bytes_valid [of ts' tok] that
    by (simp add: assms(2) decode_all_bytes lossy_append_valid lossy_of_valid)
  have "\<exists>u. fold_opt (\<lambda>(t, out). decode_token env i t out) ts s = Some u
    \<and> sl_frames u = sl_frames s @ map (\<lambda>(t, out). (rm_tx m, TokenFrame (output_bytes tok [t]) out)) ts"
    using assms(1,3,4)
  proof (induction ts arbitrary: s m)
    case (Cons p ts)
    obtain t out where p: "p = (t, out)" by (cases p)
    have st: "streams env i (t # map fst ts) s m" using Cons.prems(1) by (simp add: p)
    have v: "utf8_valid (output_bytes tok [t])" using Cons.prems(2) by (simp add: p)
    have ft: "?f (rm_generated m @ [t]) = ?f (rm_generated m) @ output_bytes tok [t]"
      by (rule full) (use Cons.prems(2) in \<open>simp add: p\<close>)
    have d: "text_delta (?f (rm_generated m @ [t])) (rm_last_len m) = Some (output_bytes tok [t], length (?f (rm_generated m @ [t])))"
      unfolding ft Cons.prems(3) by (rule delta_append) (use utf8_valid_hd [OF v] in blast)
    obtain u m' where u: "decode_token env i t out s = Some u" "streams env i (map fst ts) u m'"
      "sl_frames u = sl_frames s @ [(rm_tx m, TokenFrame (output_bytes tok [t]) out)]" "rm_generated m' = rm_generated m @ [t]"
      "rm_last_len m' = length (?f (rm_generated m @ [t]))" "rm_tx m' = rm_tx m"
      by (rule token_step [OF st d])
    have "\<forall>t\<in>set (rm_generated m' @ map fst ts). utf8_valid (output_bytes tok [t])" "rm_last_len m' = length (?f (rm_generated m'))"
      using Cons.prems(2) u(4,5) by (simp_all add: p)
    from Cons.IH [OF u(2) this] show ?case using u by (auto simp: p)
  qed simp
  moreover have "output_bytes tok (map fst ts) = concat (map (\<lambda>(t, out). output_bytes tok [t]) ts)"
    by (simp add: output_bytes_list [of tok "map fst ts"] comp_def split_def)
  ultimately show ?thesis using full [of "rm_generated m" "map fst ts"] assms(3) by simp
qed

theorem stream_deltas_witness:
  "\<exists>tok u. from_parts demo_pieces demo_types demo_merges (Some 257) None None True False = Ok tok
    \<and> fold_opt (\<lambda>(t, out). decode_token (server_env tok) 0 t out) [(0x68, None), (0x69, None)] stream_demo = Some u
    \<and> sl_frames u = [(0, TokenFrame [0x68] None), (0, TokenFrame [0x69] None)]"
proof -
  obtain tok where tok: "from_parts demo_pieces demo_types demo_merges (Some 257) None None True False = Ok tok"
    using demo_built by blast
  have b: "output_bytes tok [0x68] = [0x68]" "output_bytes tok [0x69] = [0x69]"
    using demo_byte [OF tok, of "0x68"] demo_byte [OF tok, of "0x69"] by simp_all
  let ?ts = "[(0x68, None), (0x69, None)] :: (nat \<times> unit option) list"
  have st: "streams (server_env tok) 0 (map fst ?ts) stream_demo (sd_meta 0)"
    by (rule stream_demo) (simp_all add: server_env)
  have w: "\<forall>t\<in>set (rm_generated (sd_meta 0) @ map fst ?ts). utf8_valid (output_bytes tok [t])"
    by (simp add: sd_meta_def b)
  have l: "rm_last_len (sd_meta 0) = length (lc_detok (env_cfg (server_env tok)) (rm_generated (sd_meta 0)))"
    by (simp add: sd_meta_def server_env decode_all_bytes lossy_of_valid)
  obtain u where "fold_opt (\<lambda>(t, out). decode_token (server_env tok) 0 t out) ?ts stream_demo = Some u"
    "sl_frames u = sl_frames stream_demo @ map (\<lambda>(t, out). (rm_tx (sd_meta 0), TokenFrame (output_bytes tok [t]) out)) ?ts"
    using stream_deltas [OF st server_env(1) w l] by blast
  then show ?thesis using tok by (auto simp: b sd_meta_def stream_demo_def)
qed

text \<open>
  C6: A character of four bytes whose bytes come in four tokens kills the scheduler, after any text of
  whole characters. The text of the tokens is decoded with U+FFFD in place of an unfinished character,
  which is three bytes long; those bytes are sent, and when the fourth token completes the character,
  the handler slices the text at its byte 3 and panics.
\<close>

theorem split_character_panics:
  assumes "streams env i [t1, t2, t3, t4] s m" "lc_detok (env_cfg env) = tok_decode_all (Bpe tok)"
    and "utf8_valid (output_bytes tok (rm_generated m))" "rm_last_len m = length (output_bytes tok (rm_generated m))"
    and "map (\<lambda>t. output_bytes tok [t]) [t1, t2, t3, t4] = [[b1], [b2], [b3], [b4]]"
    and "utf8_valid [b1, b2, b3, b4]" "0xF0 \<le> b1"
  shows "\<exists>u. fold_opt (\<lambda>t. decode_token env i t out) [t1, t2, t3] s = Some u \<and> decode_token env i t4 out u = None"
proof -
  let ?f = "lc_detok (env_cfg env)" and ?g = "rm_generated m"
  define p where "p = output_bytes tok ?g"
  have out: "output_bytes tok [t1] = [b1]" "output_bytes tok [t1, t2] = [b1, b2]" "output_bytes tok [t1, t2, t3] = [b1, b2, b3]"
    "output_bytes tok [t1, t2, t3, t4] = [b1, b2, b3, b4]"
    using assms(5) by (simp_all add: output_bytes_list [of tok "[t1, t2]"] output_bytes_list [of tok "[t1, t2, t3]"]
        output_bytes_list [of tok "[t1, t2, t3, t4]"])
  have cls: "0xF0 \<le> b1 \<and> b1 \<le> 0xF4 \<and> second_ok b1 b2 \<and> cont b3 \<and> cont b4"
    using assms(6,7) four_bytes [of b1 b2 b3 b4] by blast
  have ls: "lossy [b1] = REPLACEMENT" "lossy [b1, b2] = REPLACEMENT" "lossy [b1, b2, b3] = REPLACEMENT"
    using four_short [of b1 b2 b3] cls by (simp_all add: lossy_step(3))
  have "lossy [b1, b2, b3, b4] = [b1, b2, b3, b4]" using assms(6) by (rule lossy_of_valid)
  note f = server_text [OF assms(2,3), folded p_def]
  have r: "length REPLACEMENT = 3" "\<not> cont (REPLACEMENT ! 0)" by (simp_all add: REPLACEMENT_def cont_def)
  have d1: "text_delta (?f (?g @ [t1])) (rm_last_len m) = Some (REPLACEMENT, length p + 3)"
    unfolding f out ls assms(4) p_def [symmetric] using delta_append [of REPLACEMENT p] r by simp
  obtain s1 m1 where 1: "decode_token env i t1 out s = Some s1" "streams env i [t2, t3, t4] s1 m1"
    "rm_generated m1 = ?g @ [t1]" "rm_last_len m1 = length p + 3"
    by (rule token_step [OF assms(1) d1])
  have d2: "text_delta (?f (rm_generated m1 @ [t2])) (rm_last_len m1) = Some ([], length p + 3)"
    using f [of "[t1, t2]"] delta_behind [of REPLACEMENT 3 p] r by (simp add: 1(3,4) out ls)
  obtain s2 m2 where 2: "decode_token env i t2 out s1 = Some s2" "streams env i [t3, t4] s2 m2"
    "rm_generated m2 = ?g @ [t1, t2]" "rm_last_len m2 = length p + 3"
    by (rule token_step [OF 1(2) d2]) (simp add: 1(3))
  have d3: "text_delta (?f (rm_generated m2 @ [t3])) (rm_last_len m2) = Some ([], length p + 3)"
    using f [of "[t1, t2, t3]"] delta_behind [of REPLACEMENT 3 p] r by (simp add: 2(3,4) out ls)
  obtain s3 m3 where 3: "decode_token env i t3 out s2 = Some s3" "streams env i [t4] s3 m3"
    "rm_generated m3 = ?g @ [t1, t2, t3]" "rm_last_len m3 = length p + 3"
    by (rule token_step [OF 2(2) d3]) (simp add: 2(3))
  have "text_delta (p @ [b1, b2, b3, b4]) (length p + 3) = None"
    using cls by (simp add: text_delta_def boundary_def nth_append)
  then have "text_delta (?f (rm_generated m3 @ [t4])) (rm_last_len m3) = None"
    using f [of "[t1, t2, t3, t4]"] \<open>lossy [b1, b2, b3, b4] = _\<close> by (simp add: 3(3,4) out)
  from token_panic [OF 3(2) this] show ?thesis using 1(1) 2(1) 3(1) by simp
qed

theorem split_character_panics_witness:
  "\<exists>tok u. from_parts demo_pieces demo_types demo_merges (Some 257) None None True False = Ok tok
    \<and> fold_opt (\<lambda>t. decode_token (server_env tok) 0 t None) [0xF0, 0x9F, 0x98] stream_demo = Some u
    \<and> decode_token (server_env tok) 0 0x80 None u = None"
proof -
  obtain tok where tok: "from_parts demo_pieces demo_types demo_merges (Some 257) None None True False = Ok tok"
    using demo_built by blast
  have a: "streams (server_env tok) 0 [0xF0, 0x9F, 0x98, 0x80] stream_demo (sd_meta 0)"
    by (rule stream_demo) (simp_all add: server_env)
  have b: "map (\<lambda>t. output_bytes tok [t]) [0xF0, 0x9F, 0x98, 0x80] = [[0xF0], [0x9F], [0x98], [0x80]]"
    using demo_byte [OF tok, of "0xF0"] demo_byte [OF tok, of "0x9F"] demo_byte [OF tok, of "0x98"] demo_byte [OF tok, of "0x80"] by simp
  have c: "utf8_valid (output_bytes tok (rm_generated (sd_meta 0)))" "rm_last_len (sd_meta 0) = length (output_bytes tok (rm_generated (sd_meta 0)))"
    by (simp_all add: sd_meta_def)
  have e: "utf8_valid [0xF0, 0x9F, 0x98, 0x80]" "(0xF0 :: u8) \<le> 0xF0" by (simp_all add: cont_def)
  show ?thesis using split_character_panics [OF a server_env(1) c b e, of None] tok by blast
qed

text \<open>
  C40: A character of two bytes whose bytes come in two tokens corrupts the stream, after any text of
  whole characters: the client gets U+FFFD for the first byte and nothing for the second, and since
  the watermark is then one byte ahead of the text, the text of the next token, an ASCII character,
  is swallowed too. The text of the request has both characters; the client never sees either.
\<close>

theorem split_character_loses_text:
  assumes "streams env i [t1, t2, t3] s m" "lc_detok (env_cfg env) = tok_decode_all (Bpe tok)"
    and "utf8_valid (output_bytes tok (rm_generated m))" "rm_last_len m = length (output_bytes tok (rm_generated m))"
    and "map (\<lambda>t. output_bytes tok [t]) [t1, t2, t3] = [[b1], [b2], [c]]"
    and "utf8_valid [b1, b2]" "0x80 \<le> b1" "c \<le> 0x7F"
  shows "\<exists>u. fold_opt (\<lambda>t. decode_token env i t out) [t1, t2, t3] s = Some u
    \<and> sl_frames u = sl_frames s @ [(rm_tx m, TokenFrame REPLACEMENT out), (rm_tx m, TokenFrame [] out), (rm_tx m, TokenFrame [] out)]
    \<and> lc_detok (env_cfg env) (rm_generated m @ [t1, t2, t3]) = output_bytes tok (rm_generated m) @ [b1, b2, c]"
proof -
  let ?f = "lc_detok (env_cfg env)" and ?g = "rm_generated m"
  define p where "p = output_bytes tok ?g"
  have out: "output_bytes tok [t1] = [b1]" "output_bytes tok [t1, t2] = [b1, b2]" "output_bytes tok [t1, t2, t3] = [b1, b2, c]"
    using assms(5) by (simp_all add: output_bytes_list [of tok "[t1, t2]"] output_bytes_list [of tok "[t1, t2, t3]"])
  have "lossy [b1] = REPLACEMENT" using two_short [OF assms(6,7)] lossy_step(3) by simp
  moreover have "utf8_valid [b1, b2, c]" using utf8_valid_append [OF assms(6), of "[c]"] assms(8) by simp
  ultimately have ls: "lossy [b1] = REPLACEMENT" "lossy [b1, b2] = [b1, b2]" "lossy [b1, b2, c] = [b1, b2, c]"
    using lossy_of_valid assms(6) by simp_all
  note f = server_text [OF assms(2,3), folded p_def]
  have r: "length REPLACEMENT = 3" "\<not> cont (REPLACEMENT ! 0)" by (simp_all add: REPLACEMENT_def cont_def)
  have d1: "text_delta (?f (?g @ [t1])) (rm_last_len m) = Some (REPLACEMENT, length p + 3)"
    unfolding f out ls assms(4) p_def [symmetric] using delta_append [of REPLACEMENT p] r by simp
  obtain s1 m1 where 1: "decode_token env i t1 out s = Some s1" "streams env i [t2, t3] s1 m1"
    "sl_frames s1 = sl_frames s @ [(rm_tx m, TokenFrame REPLACEMENT out)]"
    "rm_generated m1 = ?g @ [t1]" "rm_last_len m1 = length p + 3" "rm_tx m1 = rm_tx m"
    by (rule token_step [OF assms(1) d1])
  have d2: "text_delta (?f (rm_generated m1 @ [t2])) (rm_last_len m1) = Some ([], length p + 3)"
    using f [of "[t1, t2]"] delta_behind [of "[b1, b2]" 3 p] by (simp add: 1(4,5) out ls)
  obtain s2 m2 where 2: "decode_token env i t2 out s1 = Some s2" "streams env i [t3] s2 m2"
    "sl_frames s2 = sl_frames s1 @ [(rm_tx m1, TokenFrame [] out)]"
    "rm_generated m2 = ?g @ [t1, t2]" "rm_last_len m2 = length p + 3" "rm_tx m2 = rm_tx m"
    by (rule token_step [OF 1(2) d2]) (simp add: 1(4,6))
  have d3: "text_delta (?f (rm_generated m2 @ [t3])) (rm_last_len m2) = Some ([], length p + 3)"
    using f [of "[t1, t2, t3]"] delta_behind [of "[b1, b2, c]" 3 p] by (simp add: 2(4,5) out ls)
  obtain s3 m3 where 3: "decode_token env i t3 out s2 = Some s3" "sl_frames s3 = sl_frames s2 @ [(rm_tx m2, TokenFrame [] out)]"
    by (rule token_step [OF 2(2) d3])
  show ?thesis using 1(1,3,6) 2(1,3,6) 3 f [of "[t1, t2, t3]"] by (simp add: out ls p_def)
qed

theorem split_character_loses_text_witness:
  "\<exists>tok u. from_parts demo_pieces demo_types demo_merges (Some 257) None None True False = Ok tok
    \<and> fold_opt (\<lambda>t. decode_token (server_env tok) 0 t None) [0xC3, 0xA9, 0x21] stream_demo = Some u
    \<and> sl_frames u = [(0, TokenFrame REPLACEMENT None), (0, TokenFrame [] None), (0, TokenFrame [] None)]"
proof -
  obtain tok where tok: "from_parts demo_pieces demo_types demo_merges (Some 257) None None True False = Ok tok"
    using demo_built by blast
  have a: "streams (server_env tok) 0 [0xC3, 0xA9, 0x21] stream_demo (sd_meta 0)"
    by (rule stream_demo) (simp_all add: server_env)
  have b: "map (\<lambda>t. output_bytes tok [t]) [0xC3, 0xA9, 0x21] = [[0xC3], [0xA9], [0x21]]"
    using demo_byte [OF tok, of "0xC3"] demo_byte [OF tok, of "0xA9"] demo_byte [OF tok, of "0x21"] by simp
  have c: "utf8_valid (output_bytes tok (rm_generated (sd_meta 0)))" "rm_last_len (sd_meta 0) = length (output_bytes tok (rm_generated (sd_meta 0)))"
    by (simp_all add: sd_meta_def)
  have e: "utf8_valid [0xC3, 0xA9]" "(0x80 :: u8) \<le> 0xC3" "(0x21 :: u8) \<le> 0x7F" by (simp_all add: cont_def)
  show ?thesis using split_character_loses_text [OF a server_env(1) c b e, of None] tok
    by (auto simp: sd_meta_def stream_demo_def)
qed

text \<open>
  A preempted request starts again from its prompt but keeps the tokens it has generated: its
  segment is given back, its cursors and its stop matcher are reset, while the tokens that were sent
  to its client stay in the list the text and the final count are made from. The client gets the text
  of both runs, one after the other, and a count of both.
\<close>

theorem preemption_keeps_generated:
  assumes "loop_preempt env i s = Some t"
  shows "\<exists>r r'. map_of (sl_reqs s) i = Some r \<and> map_of (sl_reqs t) i = Some r'
    \<and> rq_state r' = Preempted \<and> cached_len r' = 0 \<and> device_len r' = 0 \<and> stop r' = sm_reset (stop r)
    \<and> sl_waiting t = i # sl_waiting s \<and> map_of (sl_segs t) i = None
    \<and> sl_returned t = sl_returned s + device_len r \<and> sl_meta t = sl_meta s \<and> sl_frames t = sl_frames s"
proof -
  obtain r r' where r: "map_of (sl_reqs s) i = Some r" "preempt r = Ok r'"
    using assms by (auto simp: loop_preempt_def bind_eq_Some_conv split: res.splits)
  have r': "rq_state r' = Preempted" "cached_len r' = 0" "device_len r' = 0" "stop r' = sm_reset (stop r)"
    using r(2) by (auto simp: preempt_def split: if_splits)
  show ?thesis using assms r r'
    by (auto simp: loop_preempt_def loop_trace_def set_req_def free_held_def drop_single_def leave_decoding_def
        bind_eq_Some_conv Let_def split: option.splits)
qed

theorem preemption_keeps_generated_witness:
  "\<exists>t r. loop_preempt (sd_env 2) 0 (stream_demo\<lparr>sl_meta := [(0, (sd_meta 0)\<lparr>rm_generated := [5, 6]\<rparr>)]\<rparr>) = Some t
    \<and> map_of (sl_reqs t) 0 = Some r \<and> cached_len r = 0 \<and> sl_meta t = [(0, (sd_meta 0)\<lparr>rm_generated := [5, 6]\<rparr>)]"
proof -
  let ?s = "stream_demo\<lparr>sl_meta := [(0, (sd_meta 0)\<lparr>rm_generated := [5, 6]\<rparr>)]\<rparr>"
  obtain t where t: "loop_preempt (sd_env 2) 0 ?s = Some t"
    using sd_free [of 0 None]
    by (auto simp: loop_preempt_def stream_demo_def sd_dreq_def preempt_def loop_trace_def set_req_def free_held_def leave_decoding_def Let_def)
  from preemption_keeps_generated [OF t] t show ?thesis by auto
qed

end
