(* ===== verification/Spec2Isabelle.thy ===== *)
theory Spec2Isabelle
  imports Prelude Interfaces Ordered_Map Page_Pool Segment Segment_Inv Float_Round Budget Rng Stop Req Policy
    Batch Admission Radix Radix_Inv Radix_Update Radix_Spec Radix_Ops
    Replay Replay_Inv Replay_Props Replay_Total Replay_Claims
    Gguf_Schema Gguf_Reader Gguf_Source Gguf_Tensors Gguf_Fixture Gguf_Roundtrip Gguf_Claims Gguf_Codes Gguf_Decode
    Tok_Text Tok_Decode Tok_Bpe Tok_Merge Tok_Pre Tok_Encode Tok_Spm Tok_Claims
    Returns Sched Sched_Cuda Sched_Contract Sched_Env Sched_Inv Sched_Step Sched_Turn Sched_Pages Sched_Stall
    Sched_Demo Sched_Props Sched_Text
begin

text \<open>
  A verification library for reinfer, an inference engine for large language models in Rust.

  \<^bold>\<open>The program.\<close> A request is a prompt of tokens. The scheduler (\<^verbatim>\<open>crates/scheduler\<close>) admits
  requests under a budget of tokens and of memory pages, chooses in each step which requests decode
  one token and which prefill a chunk of their prompt, preempts the newest requests when memory is
  short, and ends a request on a stop string, an end-of-sequence token, a length cap or an abort.
  The memory crate (\<^verbatim>\<open>crates/memory\<close>) hands out the pages of the key-value cache; the prefix cache
  keeps the pages of finished prompts for requests that share a prefix. The event loop of the server
  (\<^verbatim>\<open>bin/reinfer/src/sched_loop.rs\<close>) composes these parts with an executor for the device: it takes the
  commands of the clients, stages prompts, decodes batches, sends text frames and releases pages, in
  one thread. Model files are read by the GGUF crate (\<^verbatim>\<open>crates/gguf\<close>), text is turned into tokens and back by the tokenizer crate
  (\<^verbatim>\<open>crates/tokenizer\<close>). The layers below (device kernels, drivers) only execute what these parts
  decide; the layers above (the HTTP server, the command line) only feed them.

  \<^bold>\<open>Theories and sources.\<close>
  \<^item> \<open>Prelude\<close>, \<open>Interfaces\<close>, \<open>Ordered_Map\<close>, \<open>Float_Round\<close>: outcomes of Rust functions (value, error,
    panic), checked integer arithmetic, the contracts between components as locales, ordered maps,
    and rounding to the nearest floating-point number with ties to even.
  \<^item> \<open>Page_Pool\<close>, \<open>Segment\<close>, \<open>Segment_Inv\<close>, \<open>Budget\<close>: \<^verbatim>\<open>memory/src/pool.rs\<close>, \<^verbatim>\<open>segment.rs\<close> and
    \<^verbatim>\<open>budget.rs\<close>. A segment pool is a list of reference counts with a coalescing free list; the
    invariant says that the free list is the list of maximal runs of pages of count 0.
  \<^item> \<open>Rng\<close>, \<open>Stop\<close>, \<open>Req\<close>, \<open>Policy\<close>, \<open>Batch\<close>, \<open>Admission\<close>: the files of the same name in
    \<^verbatim>\<open>scheduler/src\<close>. The stop matcher is compared with suffix matching on the whole stream, the
    request state machine is a step relation with its reachable states, admission is compared with
    the demand of the working set at every future step.
  \<^item> \<open>Radix\<close>, \<open>Radix_Inv\<close>, \<open>Radix_Update\<close>, \<open>Radix_Spec\<close>, \<open>Radix_Ops\<close>: \<^verbatim>\<open>scheduler/src/radix.rs\<close>. The
    trie is abstracted to a partial map from keys to entries, every operation is described on that
    map, and insertion refines a least-recently-used queue with a page budget.
  \<^item> \<open>Replay\<close> and the theories \<open>Replay_Inv\<close>, \<open>Replay_Props\<close>, \<open>Replay_Total\<close>, \<open>Replay_Claims\<close>:
    \<^verbatim>\<open>scheduler/src/replay.rs\<close>, the pipeline that composes the parts above in a step loop, with its
    invariant, the accounting of tokens, termination without a panic, independence of the iteration
    order of the hash map, and two ways in which it goes wrong.
  \<^item> \<open>Gguf_Schema\<close>, \<open>Gguf_Reader\<close>, \<open>Gguf_Source\<close>, \<open>Gguf_Tensors\<close>, \<open>Gguf_Fixture\<close>, \<open>Gguf_Roundtrip\<close>,
    \<open>Gguf_Claims\<close>, \<open>Gguf_Codes\<close>, \<open>Gguf_Decode\<close>: \<^verbatim>\<open>schema.rs\<close>, \<^verbatim>\<open>reader.rs\<close>, \<^verbatim>\<open>fixture.rs\<close> and
    \<^verbatim>\<open>codes.rs\<close> of \<^verbatim>\<open>gguf/src\<close>. Readers over a buffered source are shown to agree with readers over
    memory for every source that obeys the contract of positioned reads; a parsed file has a
    well-formed tensor table; the writer's output parses back; decoded values are exact.
  \<^item> \<open>Tok_Text\<close>, \<open>Tok_Decode\<close>, \<open>Tok_Bpe\<close>, \<open>Tok_Merge\<close>, \<open>Tok_Pre\<close>, \<open>Tok_Encode\<close>, \<open>Tok_Spm\<close>, \<open>Tok_Claims\<close>:
    \<^verbatim>\<open>unicode.rs\<close>, \<^verbatim>\<open>decode.rs\<close>, \<^verbatim>\<open>bpe.rs\<close>, \<^verbatim>\<open>spm.rs\<close> and \<^verbatim>\<open>tokenizer.rs\<close> of \<^verbatim>\<open>tokenizer/src\<close>. Merging
    with a priority queue refines greedy merging, the hand-written scanner is compared with the
    regular expression it implements (over classes of its own for \<^verbatim>\<open>\p{L}\<close> and \<^verbatim>\<open>\p{N}\<close>), encoding and
    decoding round-trip, and the container reader is run on every well-formed message, with its other
    fields.
  \<^item> \<open>Sched\<close>: \<^verbatim>\<open>SchedLoop\<close> and the types around it in \<^verbatim>\<open>sched_loop.rs\<close>, one definition per method
    (\<open>loop_submit\<close>, \<open>admit_schedule\<close>, \<open>loop_decode_step\<close>, \<open>loop_terminal\<close>, \<open>request_abort\<close> and so on), with
    the blocks of the long methods as definitions of their own. \<open>loop_turn\<close> is one turn of \<^verbatim>\<open>run\<close>,
    \<open>loop_run\<close> a run with what the clients put in the channel before each turn.
  \<^item> \<open>Sched_Cuda\<close>: \<^verbatim>\<open>CudaBatchExecutor\<close> of the same file. \<open>Sched_Contract\<close>: what the loop relies on of
    an executor, as the locale \<open>segment_executor\<close> over an abstract multiset of owned runs of pages, and
    its interpretation \<open>cuda\<close> on the executor for the device.
  \<^item> \<open>Returns\<close>, \<open>Sched_Env\<close>, \<open>Sched_Inv\<close>, \<open>Sched_Step\<close>, \<open>Sched_Turn\<close>: total-correctness rules, the
    bounds a run is studied under, and the invariant of the loop: the tables agree with each other and
    the executor owns exactly the pages of the tables and of the cache. Each operation keeps it and
    returns, but for the handler of a token, which panics where it slices the text of a request inside
    a character: the rules of \<open>returns_unless\<close> carry that one cause up to the run. \<open>Sched_Pages\<close> reads off the reference counts of the pool, \<open>Sched_Stall\<close> shows the two
    ways in which the loop stops serving, \<open>Sched_Demo\<close> runs it on a small device, \<open>Sched_Props\<close> and
    \<open>Sched_Text\<close> hold the properties: the one panic, conservation of pages and tokens, nothing leaked
    when idle, well-formed requests, starvation, and the text the clients receive with the decoder of
    the server: exact for tokens of whole characters, and what a character split over tokens does.

  \<^bold>\<open>Representation.\<close> A struct is a \<open>record\<close>, an enum a \<open>datatype\<close>. A function that can panic returns
  an \<open>option\<close> (\<open>None\<close> the panic); one that returns \<^verbatim>\<open>Result\<close> adds a sum, or has the type \<open>res\<close> of
  \<open>Prelude\<close> with the cases \<open>Ok\<close>, \<open>Err\<close> and \<open>Panic\<close>. Unsigned integers are \<open>nat\<close> with the checked, saturating or wrapping operation the
  source uses written out (\<open>u64_max\<close>), except where the source computes with bits: those are
  words. A \<^verbatim>\<open>HashMap\<close> is a partial map and, where the code iterates over it, the order is a
  parameter; a \<^verbatim>\<open>BTreeMap\<close> is a sorted association list; the choice of a \<^verbatim>\<open>BinaryHeap\<close> among equal
  elements is a parameter. A \<^verbatim>\<open>char\<close> is the list of its UTF-8 bytes, the Unicode tables of letters
  and numbers are a parameter. An \<^verbatim>\<open>f64\<close> that the scheduler computes is a rational rounded after
  every operation; \<^verbatim>\<open>f32\<close> data of tensors is sign and magnitude, infinity or NaN.

  \<^bold>\<open>Bounds and fuel.\<close> Theorems about the prefix cache assume that twice its page budget fits in 64
  bits (every stored length is then exact). Replay assumes fewer than \<open>2^63\<close> arrivals and sizes
  whose sums fit (\<open>config_fits\<close>); its loop runs for at most \<^verbatim>\<open>max_steps\<close> steps, which is the bound of
  the source, and is primitive recursion on it. GGUF files are at most \<open>u64_max\<close> bytes long; nested
  arrays stop at the depth 8 of the source. Token tables have at most \<open>2^32\<close> entries and containers
  less than \<open>2^64\<close> bytes, the widths of the indexes. The event loop is studied under \<open>cfg_ok\<close> (sizes of
  the configuration that fit their integers, pages of 32 tokens), with fewer requests than ids and
  prompts that fit the window with their output (\<open>est_bound\<close> bounds their estimates); of the device it
  needs that copies between its stores succeed and that a batch gives a row per request
  (\<open>device_ok\<close>). Nothing is assumed of the detokenizer: the properties hold of every run that does not
  panic, and a run panics only where a new text starts inside a character. It may run for ever: a run
  is any finite list of turns. All other loops terminate with a measure.

  \<^bold>\<open>Not modelled.\<close> The CUDA and Ascend crates (foreign calls whose effect is device code outside
  Rust), the HTTP server and the command line (I/O over the parts modelled here), the resolution
  and download of models (network and file system), the cache of compiled kernels (files, locks,
  external compilers), floating-point tensor arithmetic and samplers, the configuration of
  architectures, safetensors, and the construction of a tokenizer from JSON values of a
  third-party crate. Formatting of messages is left out everywhere.
\<close>

end
